(* ===== verification/Tx_Prelude.thy ===== *)
theory Tx_Prelude
  imports Main "HOL-Library.Word" "HOL-Library.Char_ord" "HOL-Library.List_Lexorder"
    "HOL-Library.Product_Lexorder" "HOL-Library.Monad_Syntax" "HOL-Library.Code_Target_Nat"
begin

text \<open>
  The vocabulary the component theories share. Byte strings are \<^typ>\<open>char list\<close>, compared as
  \<^verbatim>\<open>std::string_view\<close> compares them (lexicographically on unsigned bytes, which is what
  \<^verbatim>\<open>Char_ord\<close> and \<^verbatim>\<open>List_Lexorder\<close> give). Unsigned 32-bit values are natural numbers with
  every \<^verbatim>\<open>static_cast<uint32_t>\<close> and every 32-bit addition written out as \<open>u32\<close>. An operation that
  may read a container outside its bounds, or follow a chain that does not end, returns an
  \<^typ>\<open>'a option\<close> whose \<^const>\<open>None\<close> stands for that undefined behaviour; an operation that throws
  returns a sum, the exception on the left.
\<close>

named_theorems bind_defs "unfolding of the option and sum binds"
named_theorems len_simps "lengths of encodings"

type_synonym bytes = "char list"

definition u32 :: "nat \<Rightarrow> nat" where
  "u32 n = n mod 2 ^ 32"

lemma u32_id [simp]: "n < 2 ^ 32 \<Longrightarrow> u32 n = n"
  by (simp add: u32_def)

lemma u32_less [simp]: "u32 n < 4294967296"
  by (simp add: u32_def)

lemma u32_less_eq_pow [simp]: "u32 n < 2 ^ 32"
  by (simp add: u32_def)

definition at :: "'a list \<Rightarrow> nat \<Rightarrow> 'a option" where
  "at xs i = (if i < length xs then Some (xs ! i) else None)"

lemma at_Some [simp]: "i < length xs \<Longrightarrow> at xs i = Some (xs ! i)"
  by (simp add: at_def)

lemma at_eq_Some: "at xs i = Some x \<longleftrightarrow> i < length xs \<and> xs ! i = x"
  by (auto simp: at_def)

lemma at_eq_None: "at xs i = None \<longleftrightarrow> length xs \<le> i"
  by (auto simp: at_def)

definition slice :: "'a list \<Rightarrow> nat \<Rightarrow> nat \<Rightarrow> 'a list option" where
  "slice xs first count = (if first + count \<le> length xs then Some (take count (drop first xs)) else None)"

lemma slice_Some [simp]: "first + count \<le> length xs \<Longrightarrow> slice xs first count = Some (take count (drop first xs))"
  by (simp add: slice_def)

lemma take_drop_append [simp]:
  "first + count \<le> length xs \<Longrightarrow> take count (drop first (xs @ ys)) = take count (drop first xs)"
  by simp

definition resize :: "'a list \<Rightarrow> nat \<Rightarrow> 'a \<Rightarrow> 'a list" where
  "resize xs n v = take n xs @ replicate (n - length xs) v"

lemma length_resize [simp]: "length (resize xs n v) = n"
  by (simp add: resize_def)

lemma nth_resize: "i < n \<Longrightarrow> resize xs n v ! i = (if i < length xs then xs ! i else v)"
  by (auto simp: resize_def nth_append)

text \<open>\<^verbatim>\<open>std::sort\<close> followed by \<^verbatim>\<open>erase(unique(...))\<close>.\<close>

definition sort_unique :: "('a::linorder) list \<Rightarrow> 'a list" where
  "sort_unique xs = remdups_adj (sort xs)"

lemma set_sort_unique [simp]: "set (sort_unique xs) = set xs"
  by (simp add: sort_unique_def)

lemma sorted_sort_unique: "sorted (sort_unique xs)"
  by (simp add: sort_unique_def)

lemma distinct_sort_unique: "distinct (sort_unique xs)"
proof -
  have "sorted ys \<Longrightarrow> distinct (remdups_adj ys)" for ys :: "'a list"
    by (induction ys rule: remdups_adj.induct) (auto simp: less_le)
  then show ?thesis by (simp add: sort_unique_def)
qed

lemma strict_sort_unique [simp]: "sorted_wrt (<) (sort_unique xs)"
  using sorted_sort_unique [of xs] distinct_sort_unique [of xs] by (simp add: strict_sorted_iff)

lemma strict_sorted_set_eq:
  fixes xs :: "('a::linorder) list"
  assumes "sorted_wrt (<) xs" "sorted_wrt (<) ys" "set xs = set ys"
  shows "xs = ys"
  using assms by (metis strict_sorted_equal)

lemma sort_unique_eq_iff: "sort_unique xs = sort_unique ys \<longleftrightarrow> set xs = set ys"
  by (metis set_sort_unique strict_sort_unique strict_sorted_set_eq)

text \<open>The throwing fragment: a sum whose left side is the exception.\<close>

definition ebind :: "'e + 'a \<Rightarrow> ('a \<Rightarrow> 'e + 'b) \<Rightarrow> 'e + 'b" where
  "ebind m f = (case m of Inl e \<Rightarrow> Inl e | Inr a \<Rightarrow> f a)"

lemma ebind_simps [simp]: "ebind (Inl e) f = Inl e" "ebind (Inr a) f = f a"
  by (simp_all add: ebind_def)

lemma ebind_eq_Inr [bind_defs]: "ebind m f = Inr b \<longleftrightarrow> (\<exists>a. m = Inr a \<and> f a = Inr b)"
  by (cases m) auto

lemma ebind_Inr_right: "ebind m Inr = m"
  by (cases m) simp_all

lemma ebind_eq_Inl: "ebind m f = Inl e \<longleftrightarrow> m = Inl e \<or> (\<exists>a. m = Inr a \<and> f a = Inl e)"
  by (cases m) auto

definition require :: "'e \<Rightarrow> 'a option \<Rightarrow> 'e + 'a" where
  "require e x = (case x of None \<Rightarrow> Inl e | Some a \<Rightarrow> Inr a)"

lemma require_simps [simp]: "require e None = Inl e" "require e (Some a) = Inr a"
  by (simp_all add: require_def)

lemma require_eq_Inr [bind_defs]: "require e x = Inr a \<longleftrightarrow> x = Some a"
  by (cases x) auto

primrec mapE :: "('a \<Rightarrow> 'e + 'b) \<Rightarrow> 'a list \<Rightarrow> 'e + 'b list" where
  "mapE f [] = Inr []"
| "mapE f (x # xs) = ebind (f x) (\<lambda>y. ebind (mapE f xs) (\<lambda>ys. Inr (y # ys)))"

lemma mapE_Inr_iff: "mapE f xs = Inr ys \<longleftrightarrow> list_all2 (\<lambda>x y. f x = Inr y) xs ys"
  by (induction xs arbitrary: ys) (auto simp: bind_defs list_all2_Cons1)

lemma mapE_total: "(\<And>x. x \<in> set xs \<Longrightarrow> f x = Inr (g x)) \<Longrightarrow> mapE f xs = Inr (map g xs)"
  by (induction xs) auto

lemma mapE_map: "mapE f (map g xs) = mapE (\<lambda>x. f (g x)) xs"
  by (induction xs) simp_all

lemma mapE_cong: "(\<And>x. x \<in> set xs \<Longrightarrow> f x = g x) \<Longrightarrow> mapE f xs = mapE g xs"
  by (induction xs) simp_all

primrec foldE :: "('s \<Rightarrow> 'a \<Rightarrow> 'e + 's) \<Rightarrow> 's \<Rightarrow> 'a list \<Rightarrow> 'e + 's" where
  "foldE f s [] = Inr s"
| "foldE f s (x # xs) = ebind (f s x) (\<lambda>s'. foldE f s' xs)"

text \<open>
  Searching a byte string: \<^verbatim>\<open>find(c)\<close> with the two \<^verbatim>\<open>substr\<close>s around the hit,
  and \<^verbatim>\<open>starts_with\<close>.
\<close>

primrec breakOn :: "'a \<Rightarrow> 'a list \<Rightarrow> ('a list \<times> 'a list) option" where
  "breakOn c [] = None"
| "breakOn c (x # xs) = (if x = c then Some ([], xs) else map_option (\<lambda>(a, b). (x # a, b)) (breakOn c xs))"

lemma breakOn_eq_None: "breakOn c s = None \<longleftrightarrow> c \<notin> set s"
  by (induction s) auto

lemma breakOn_eq_Some: "breakOn c s = Some (a, b) \<longleftrightarrow> s = a @ c # b \<and> c \<notin> set a"
proof (induction s arbitrary: a)
  case (Cons x xs)
  then show ?case by (cases a) auto
qed simp

lemma breakOn_append [simp]: "c \<notin> set a \<Longrightarrow> breakOn c (a @ c # b) = Some (a, b)"
  by (simp add: breakOn_eq_Some)

lemma breakOn_length: "breakOn c s = Some (a, b) \<Longrightarrow> length b < length s"
  by (auto simp: breakOn_eq_Some)

definition startsWith :: "'a list \<Rightarrow> 'a list \<Rightarrow> bool" where
  "startsWith s p = (take (length p) s = p)"

lemma startsWith_iff: "startsWith s p \<longleftrightarrow> (\<exists>t. s = p @ t)"
  unfolding startsWith_def by (metis append_eq_conv_conj append_take_drop_id)

lemma startsWith_append [simp]: "startsWith (p @ t) p"
  by (simp add: startsWith_def)

text \<open>\<^verbatim>\<open>std::strong_ordering\<close> and the comparison that yields it.\<close>

datatype Ordering = Less | Equal | Greater

definition threeWay :: "'a::linorder \<Rightarrow> 'a \<Rightarrow> Ordering" where
  "threeWay x y = (if x < y then Less else if x = y then Equal else Greater)"

lemma threeWay_simps: "threeWay x y = Less \<longleftrightarrow> x < y" "threeWay x y = Equal \<longleftrightarrow> x = y" "threeWay x y = Greater \<longleftrightarrow> y < x"
  by (auto simp: threeWay_def)

text \<open>\<^verbatim>\<open>std::to_string\<close>.\<close>

fun decimal :: "nat \<Rightarrow> bytes" where
  "decimal n = (if n < 10 then [char_of (48 + n)] else decimal (n div 10) @ [char_of (48 + n mod 10)])"

declare decimal.simps [simp del]

end
