(* ===== verification/Access_Graph.thy ===== *)
theory Access_Graph
  imports Tx_Prelude
begin

unbundle bit_operations_syntax

text \<open>
  The interning graph behind the source-dependency labels
  (\<^verbatim>\<open>EvalSourceAccessSetGraph\<close>, \<^verbatim>\<open>access-set-graph.hh\<close> and \<^verbatim>\<open>source-deps.cc\<close>): paths become 32-bit
  access ids, sets of paths become canonical 32-bit set ids. The graph is one record with the
  class's containers; \<^verbatim>\<open>std::vector\<close>s are lists, the hash maps are maps, and the locks leave no
  trace because every method body runs under them. The theory then states the graph's invariant,
  proves that every operation keeps it and never leaves the bounds of a container, and gives the
  contract the tracking frames rely on.
\<close>

section \<open>Data\<close>

type_synonym EvalSourceAccessId = nat
type_synonym EvalSourceAccessSetId = nat

record EvalSourceAccessSetNode =
  sn_first :: nat
  sn_count :: nat
  sn_nextWithSameHash :: nat
  sn_hash :: "64 word"

record EvalSourceAccessSetInputNode =
  in_first :: nat
  in_directCount :: nat
  in_childCount :: nat
  in_nextWithSameHash :: nat
  in_hash :: "64 word"
  in_accessSet :: EvalSourceAccessSetId

record EvalSourceAccessSetGraph =
  enabled :: bool
  accessIds :: "bytes \<rightharpoonup> EvalSourceAccessId"
  accesses :: "bytes list"
  accessSets :: "EvalSourceAccessSetNode list"
  accessSetItems :: "EvalSourceAccessId list"
  singletonAccessSets :: "EvalSourceAccessSetId list"
  accessSetIdsByHash :: "64 word \<rightharpoonup> EvalSourceAccessSetId"
  inputKeys :: "EvalSourceAccessSetInputNode list"
  inputKeyItems :: "nat list"
  inputKeyIdsByHash :: "64 word \<rightharpoonup> nat"
  seenAccessGenerations :: "nat list"
  nextFlattenGeneration :: nat

definition emptyNode :: EvalSourceAccessSetNode where
  "emptyNode = \<lparr>sn_first = 0, sn_count = 0, sn_nextWithSameHash = 0, sn_hash = 0\<rparr>"

definition emptyInputNode :: EvalSourceAccessSetInputNode where
  "emptyInputNode = \<lparr>in_first = 0, in_directCount = 0, in_childCount = 0, in_nextWithSameHash = 0,
     in_hash = 0, in_accessSet = 0\<rparr>"

definition newGraph :: EvalSourceAccessSetGraph where
  "newGraph = \<lparr>enabled = False, accessIds = Map.empty, accesses = [], accessSets = [],
     accessSetItems = [], singletonAccessSets = [], accessSetIdsByHash = Map.empty, inputKeys = [],
     inputKeyItems = [], inputKeyIdsByHash = Map.empty, seenAccessGenerations = [],
     nextFlattenGeneration = 1\<rparr>"

record EvalSourceAccessSetStats =
  st_accesses :: nat
  st_accessSets :: nat
  st_accessSetItems :: nat

section \<open>Operations\<close>

definition fnvMix :: "64 word \<Rightarrow> 64 word \<Rightarrow> 64 word" where
  "fnvMix hash w = (hash XOR w) * 1099511628211"

definition hashSourceAccessIds :: "EvalSourceAccessId list \<Rightarrow> 64 word" where
  "hashSourceAccessIds items = foldl (\<lambda>hash item. fnvMix hash (of_nat item)) 1469598103934665603 items"

definition hashAccessSetInputKey ::
  "EvalSourceAccessId list \<Rightarrow> EvalSourceAccessSetId list \<Rightarrow> 64 word" where
  "hashAccessSetInputKey directAccesses children =
     foldl (\<lambda>hash child. fnvMix hash (of_nat child))
       (fnvMix (foldl (\<lambda>hash access. fnvMix hash (of_nat access)) 1469598103934665603 directAccesses)
          (NOT 0))
       children"

definition canonicaliseAccessSetInput :: "nat list \<Rightarrow> nat list" where
  "canonicaliseAccessSetInput ids = sort_unique (filter (\<lambda>i. i \<noteq> 0) ids)"

definition enable :: "EvalSourceAccessSetGraph \<Rightarrow> EvalSourceAccessSetGraph" where
  "enable g =
     (if enabled g then g
      else g\<lparr>accesses := accesses g @ [[]],
             accessSets := accessSets g @ [emptyNode],
             inputKeys := inputKeys g @ [emptyInputNode],
             enabled := True\<rparr>)"

definition internAccess ::
  "EvalSourceAccessSetGraph \<Rightarrow> bytes \<Rightarrow> EvalSourceAccessId \<times> EvalSourceAccessSetGraph" where
  "internAccess g path =
     (if \<not> enabled g then (0, g)
      else case accessIds g path of
        Some known \<Rightarrow> (known, g)
      | None \<Rightarrow>
          (let i = u32 (length (accesses g))
           in (i, g\<lparr>accesses := accesses g @ [path], accessIds := (accessIds g)(path \<mapsto> i)\<rparr>)))"

definition accessSetEquals ::
  "EvalSourceAccessSetGraph \<Rightarrow> EvalSourceAccessSetId \<Rightarrow> EvalSourceAccessId list \<Rightarrow> bool option" where
  "accessSetEquals g i items =
     (if i = 0 \<or> length (accessSets g) \<le> i then Some (items = [])
      else do {
        node \<leftarrow> at (accessSets g) i;
        if sn_count node \<noteq> length items then Some False
        else do {
          stored \<leftarrow> slice (accessSetItems g) (sn_first node) (sn_count node);
          Some (items = stored)
        }
      })"

definition inputKeyEquals ::
  "EvalSourceAccessSetGraph \<Rightarrow> nat \<Rightarrow> EvalSourceAccessId list \<Rightarrow> EvalSourceAccessSetId list
     \<Rightarrow> bool option" where
  "inputKeyEquals g i directAccesses children =
     do {
       node \<leftarrow> at (inputKeys g) i;
       if in_directCount node \<noteq> length directAccesses \<or> in_childCount node \<noteq> length children
       then Some False
       else do {
         direct \<leftarrow> slice (inputKeyItems g) (in_first node) (in_directCount node);
         childs \<leftarrow> slice (inputKeyItems g) (in_first node + in_directCount node) (in_childCount node);
         Some (directAccesses = direct \<and> children = childs)
       }
     }"

text \<open>
  The walk \<^verbatim>\<open>for (id = head; id != 0; id = nodes[id].nextWithSameHash)\<close>, shared by both hash maps.
  The fuel bounds the number of steps; running out of it means that the chain does not end.
\<close>

fun walkChain ::
  "nat \<Rightarrow> 'n list \<Rightarrow> ('n \<Rightarrow> nat) \<Rightarrow> (nat \<Rightarrow> bool option) \<Rightarrow> nat \<Rightarrow> nat option" where
  "walkChain fuel nodes nextOf eq i =
     (if i = 0 then Some 0
      else case fuel of
        0 \<Rightarrow> None
      | Suc fuel' \<Rightarrow> do {
          e \<leftarrow> eq i;
          if e then Some i
          else do {
            node \<leftarrow> at nodes i;
            walkChain fuel' nodes nextOf eq (nextOf node)
          }
        })"

declare walkChain.simps [simp del]

definition lookupInputKey ::
  "EvalSourceAccessSetGraph \<Rightarrow> 64 word \<Rightarrow> EvalSourceAccessId list \<Rightarrow> EvalSourceAccessSetId list
     \<Rightarrow> EvalSourceAccessSetId option option" where
  "lookupInputKey g hash directAccesses children =
     (case inputKeyIdsByHash g hash of
        None \<Rightarrow> Some None
      | Some head \<Rightarrow> do {
          i \<leftarrow> walkChain (length (inputKeys g)) (inputKeys g) in_nextWithSameHash
                  (\<lambda>i. inputKeyEquals g i directAccesses children) head;
          if i = 0 then Some None
          else do {
            node \<leftarrow> at (inputKeys g) i;
            Some (Some (in_accessSet node))
          }
        })"

definition maxInputKeys :: nat where
  "maxInputKeys = 2 ^ 20"

definition rememberInputKey ::
  "EvalSourceAccessSetGraph \<Rightarrow> 64 word \<Rightarrow> EvalSourceAccessId list \<Rightarrow> EvalSourceAccessSetId list
     \<Rightarrow> EvalSourceAccessSetId \<Rightarrow> EvalSourceAccessSetGraph" where
  "rememberInputKey g hash directAccesses children accessSet =
     (if maxInputKeys \<le> length (inputKeys g) then g
      else
        (let first = u32 (length (inputKeyItems g));
             i = u32 (length (inputKeys g));
             next = (case inputKeyIdsByHash g hash of None \<Rightarrow> 0 | Some head \<Rightarrow> head)
         in g\<lparr>inputKeyItems := inputKeyItems g @ directAccesses @ children,
              inputKeyIdsByHash := (inputKeyIdsByHash g)(hash \<mapsto> i),
              inputKeys := inputKeys g @
                [\<lparr>in_first = first, in_directCount = u32 (length directAccesses),
                  in_childCount = u32 (length children), in_nextWithSameHash = next,
                  in_hash = hash, in_accessSet = accessSet\<rparr>]\<rparr>))"

definition internSingleton ::
  "EvalSourceAccessSetGraph \<Rightarrow> EvalSourceAccessId
     \<Rightarrow> (EvalSourceAccessSetId \<times> EvalSourceAccessSetGraph) option" where
  "internSingleton g access =
     (if access = 0 then Some (0, g)
      else if access < length (singletonAccessSets g) \<and> singletonAccessSets g ! access \<noteq> 0
      then Some (singletonAccessSets g ! access, g)
      else
        (let first = u32 (length (accessSetItems g));
             i = u32 (length (accessSets g));
             singles = (if length (singletonAccessSets g) \<le> access
                        then resize (singletonAccessSets g) (u32 (access + 1)) 0
                        else singletonAccessSets g)
         in if access < length singles
            then Some (i, g\<lparr>accessSetItems := accessSetItems g @ [access],
                             accessSets := accessSets g @
                               [\<lparr>sn_first = first, sn_count = 1, sn_nextWithSameHash = 0, sn_hash = 0\<rparr>],
                             singletonAccessSets := singles[access := i]\<rparr>)
            else None))"

primrec childItems ::
  "EvalSourceAccessSetGraph \<Rightarrow> EvalSourceAccessSetId list \<Rightarrow> EvalSourceAccessId list option" where
  "childItems g [] = Some []"
| "childItems g (child # children) =
     (if length (accessSets g) \<le> child then childItems g children
      else do {
        node \<leftarrow> at (accessSets g) child;
        items \<leftarrow> slice (accessSetItems g) (sn_first node) (sn_count node);
        rest \<leftarrow> childItems g children;
        Some (items @ rest)
      })"

definition buildItems ::
  "EvalSourceAccessSetGraph \<Rightarrow> EvalSourceAccessId list \<Rightarrow> EvalSourceAccessSetId list
     \<Rightarrow> EvalSourceAccessId list option" where
  "buildItems g keyDirect keyChildren =
     do {
       items \<leftarrow> childItems g keyChildren;
       Some (sort_unique (keyDirect @ items))
     }"

definition lookupAccessSet ::
  "EvalSourceAccessSetGraph \<Rightarrow> 64 word \<Rightarrow> EvalSourceAccessId list \<Rightarrow> EvalSourceAccessSetId option" where
  "lookupAccessSet g hash items =
     (case accessSetIdsByHash g hash of
        None \<Rightarrow> Some 0
      | Some head \<Rightarrow> walkChain (length (accessSets g)) (accessSets g) sn_nextWithSameHash
                        (\<lambda>i. accessSetEquals g i items) head)"

definition appendAccessSet ::
  "EvalSourceAccessSetGraph \<Rightarrow> 64 word \<Rightarrow> EvalSourceAccessId list
     \<Rightarrow> EvalSourceAccessSetId \<times> EvalSourceAccessSetGraph" where
  "appendAccessSet g hash items =
     (let first = u32 (length (accessSetItems g));
          count = u32 (length items);
          i = u32 (length (accessSets g));
          next = (case accessSetIdsByHash g hash of None \<Rightarrow> 0 | Some head \<Rightarrow> head)
      in (i, g\<lparr>accessSetItems := accessSetItems g @ items,
                accessSetIdsByHash := (accessSetIdsByHash g)(hash \<mapsto> i),
                accessSets := accessSets g @
                  [\<lparr>sn_first = first, sn_count = count, sn_nextWithSameHash = next, sn_hash = hash\<rparr>]\<rparr>))"

definition internFlattened ::
  "EvalSourceAccessSetGraph \<Rightarrow> EvalSourceAccessId list
     \<Rightarrow> (EvalSourceAccessSetId \<times> EvalSourceAccessSetGraph) option" where
  "internFlattened g items =
     (if items = [] then Some (0, g)
      else if length items = 1 then internSingleton g (hd items)
      else do {
        existing \<leftarrow> lookupAccessSet g (hashSourceAccessIds items) items;
        Some (if existing \<noteq> 0 then (existing, g)
              else appendAccessSet g (hashSourceAccessIds items) items)
      })"

definition internAccessSet ::
  "EvalSourceAccessSetGraph \<Rightarrow> EvalSourceAccessId list \<Rightarrow> EvalSourceAccessSetId list
     \<Rightarrow> (EvalSourceAccessSetId \<times> EvalSourceAccessSetGraph) option" where
  "internAccessSet g directAccesses children =
     (if \<not> enabled g then Some (0, g)
      else
        (let keyDirect = canonicaliseAccessSetInput directAccesses;
             keyChildren = canonicaliseAccessSetInput children
         in if keyDirect = [] \<and> keyChildren = [] then Some (0, g)
            else if keyDirect = [] \<and> length keyChildren = 1 then Some (hd keyChildren, g)
            else if keyChildren = [] \<and> length keyDirect = 1 then internSingleton g (hd keyDirect)
            else
              (let inputKeyHash = hashAccessSetInputKey keyDirect keyChildren
               in do {
                    memoised \<leftarrow> lookupInputKey g inputKeyHash keyDirect keyChildren;
                    (case memoised of
                       Some existing \<Rightarrow> Some (existing, g)
                     | None \<Rightarrow> do {
                         items \<leftarrow> buildItems g keyDirect keyChildren;
                         (i, g') \<leftarrow> internFlattened g items;
                         Some (i, rememberInputKey g' inputKeyHash keyDirect keyChildren i)
                       })
                  })))"

definition access :: "EvalSourceAccessSetGraph \<Rightarrow> EvalSourceAccessId \<Rightarrow> bytes" where
  "access g i =
     (if \<not> enabled g then []
      else if i = 0 \<or> length (accesses g) \<le> i then []
      else accesses g ! i)"

text \<open>
  \<^verbatim>\<open>flatten\<close> marks the ids it has seen with the generation of the call, so that the marks of earlier
  calls need not be cleared; the counter is 32 bits wide and the marks are cleared when it wraps. The index of an
  item of a set is computed with 32 bits too.
\<close>

definition addAccess ::
  "nat \<Rightarrow> EvalSourceAccessId \<Rightarrow> nat list \<times> EvalSourceAccessId list \<Rightarrow> nat list \<times> EvalSourceAccessId list" where
  "addAccess generation a st =
     (let (seen, flattened) = st
      in if a = 0 \<or> length seen \<le> a then st
         else if seen ! a = generation then st
         else (seen[a := generation], flattened @ [a]))"

primrec edgeItems ::
  "EvalSourceAccessSetGraph \<Rightarrow> EvalSourceAccessSetId list \<Rightarrow> EvalSourceAccessId list option" where
  "edgeItems g [] = Some []"
| "edgeItems g (accessSet # edges) =
     (if accessSet = 0 \<or> length (accessSets g) \<le> accessSet then edgeItems g edges
      else do {
        node \<leftarrow> at (accessSets g) accessSet;
        items \<leftarrow> those (map (\<lambda>i. at (accessSetItems g) (u32 (sn_first node + i))) [0..<sn_count node]);
        rest \<leftarrow> edgeItems g edges;
        Some (items @ rest)
      })"

definition flatten ::
  "EvalSourceAccessSetGraph \<Rightarrow> EvalSourceAccessId list \<Rightarrow> EvalSourceAccessSetId list
     \<Rightarrow> (bytes list \<times> EvalSourceAccessSetGraph) option" where
  "flatten g directAccesses accessSetEdges =
     (if \<not> enabled g then Some ([], g)
      else
        (let wrapped = (nextFlattenGeneration g = 0);
             seen0 = (if wrapped then map (\<lambda>_. 0) (seenAccessGenerations g) else seenAccessGenerations g);
             generation = (if wrapped then 1 else nextFlattenGeneration g);
             seen1 = (if length seen0 < length (accesses g) then resize seen0 (length (accesses g)) 0 else seen0)
         in do {
              items \<leftarrow> edgeItems g accessSetEdges;
              let (seen, flattened) = fold (addAccess generation) (directAccesses @ items) (seen1, []);
              result \<leftarrow> those (map (at (accesses g)) flattened);
              Some (result, g\<lparr>seenAccessGenerations := seen,
                              nextFlattenGeneration := u32 (generation + 1)\<rparr>)
            }))"

definition stats :: "EvalSourceAccessSetGraph \<Rightarrow> EvalSourceAccessSetStats" where
  "stats g =
     (if \<not> enabled g then \<lparr>st_accesses = 0, st_accessSets = 0, st_accessSetItems = 0\<rparr>
      else \<lparr>st_accesses = (if accesses g = [] then 0 else length (accesses g) - 1),
            st_accessSets = (if accessSets g = [] then 0 else length (accessSets g) - 1),
            st_accessSetItems = length (accessSetItems g)\<rparr>)"

section \<open>The invariant\<close>

text \<open>The access ids a set id stands for.\<close>

definition members :: "EvalSourceAccessSetGraph \<Rightarrow> EvalSourceAccessSetId \<Rightarrow> EvalSourceAccessId list" where
  "members g i =
     (if i < length (accessSets g)
      then take (sn_count (accessSets g ! i)) (drop (sn_first (accessSets g ! i)) (accessSetItems g))
      else [])"

text \<open>
  The greatest index below \<open>n\<close> with a property, and 0 when there is none: what the head of a hash
  chain, and the \<^verbatim>\<open>nextWithSameHash\<close> field of a node, must be.
\<close>

primrec lastWith :: "(nat \<Rightarrow> bool) \<Rightarrow> nat \<Rightarrow> nat" where
  "lastWith P 0 = 0"
| "lastWith P (Suc n) = (if P n then n else lastWith P n)"

lemma lastWith_cong: "(\<And>i. i < n \<Longrightarrow> P i = Q i) \<Longrightarrow> lastWith P n = lastWith Q n"
  by (induction n) auto

lemma lastWith_sat: "lastWith P n \<noteq> 0 \<Longrightarrow> lastWith P n < n \<and> P (lastWith P n)"
  by (induction n) (auto split: if_splits)

lemma lastWith_zero: "lastWith P n = 0 \<Longrightarrow> i < n \<Longrightarrow> P i \<Longrightarrow> i = 0"
  by (induction n) (auto simp: less_Suc_eq split: if_splits)

lemma walkChain_lastWith:
  assumes nodes: "\<And>i. i < length nodes \<Longrightarrow> P i \<Longrightarrow>
      0 < i \<and> nextOf (nodes ! i) = lastWith P i \<and> eq i = Some (E i)"
    and "n \<le> length nodes" "n \<le> fuel"
  shows "walkChain fuel nodes nextOf eq (lastWith P n) = Some (lastWith (\<lambda>i. P i \<and> E i) n)"
  using assms(2,3)
proof (induction n arbitrary: fuel)
  case 0
  then show ?case by (simp add: walkChain.simps)
next
  case (Suc n)
  show ?case
  proof (cases "P n")
    case True
    with Suc.prems nodes [of n] have n: "0 < n" "nextOf (nodes ! n) = lastWith P n" "eq n = Some (E n)"
      by auto
    from Suc.prems obtain fuel' where fuel: "fuel = Suc fuel'" "n \<le> fuel'" by (cases fuel) auto
    from Suc.prems fuel have "walkChain fuel' nodes nextOf eq (lastWith P n) = Some (lastWith (\<lambda>i. P i \<and> E i) n)"
      by (intro Suc.IH) auto
    with True n fuel Suc.prems show ?thesis
      by (simp add: walkChain.simps [of "Suc fuel'"])
  next
    case False
    with Suc show ?thesis by simp
  qed
qed

definition chainedWith :: "EvalSourceAccessSetNode list \<Rightarrow> 64 word \<Rightarrow> nat \<Rightarrow> bool" where
  "chainedWith nodes h i \<longleftrightarrow> i < length nodes \<and> 2 \<le> sn_count (nodes ! i) \<and> sn_hash (nodes ! i) = h"

definition paths_ok :: "EvalSourceAccessSetGraph \<Rightarrow> bool" where
  "paths_ok g \<longleftrightarrow> accesses g \<noteq> [] \<and>
     (\<forall>p i. accessIds g p = Some i \<longleftrightarrow> 0 < i \<and> i < length (accesses g) \<and> accesses g ! i = p)"

definition nodes_ok :: "EvalSourceAccessSetGraph \<Rightarrow> bool" where
  "nodes_ok g \<longleftrightarrow> accessSets g \<noteq> [] \<and> accessSets g ! 0 = emptyNode \<and>
     (\<forall>i < length (accessSets g).
        sn_first (accessSets g ! i) + sn_count (accessSets g ! i) \<le> length (accessSetItems g) \<and>
        sn_first (accessSets g ! i) + sn_count (accessSets g ! i) \<le> 2 ^ 32 \<and>
        (0 < i \<longrightarrow> 0 < sn_count (accessSets g ! i)) \<and>
        sorted_wrt (<) (members g i) \<and> 0 \<notin> set (members g i) \<and>
        (\<forall>a \<in> set (members g i). a < length (accesses g)))"

definition inj_ok :: "EvalSourceAccessSetGraph \<Rightarrow> bool" where
  "inj_ok g \<longleftrightarrow>
     (\<forall>i < length (accessSets g). \<forall>j < length (accessSets g). members g i = members g j \<longrightarrow> i = j)"

definition chains_ok :: "EvalSourceAccessSetGraph \<Rightarrow> bool" where
  "chains_ok g \<longleftrightarrow>
     (\<forall>i < length (accessSets g). 2 \<le> sn_count (accessSets g ! i) \<longrightarrow>
        sn_hash (accessSets g ! i) = hashSourceAccessIds (members g i) \<and>
        sn_nextWithSameHash (accessSets g ! i)
          = lastWith (chainedWith (accessSets g) (sn_hash (accessSets g ! i))) i) \<and>
     (\<forall>h. accessSetIdsByHash g h =
        (case lastWith (chainedWith (accessSets g) h) (length (accessSets g)) of
           0 \<Rightarrow> None | Suc k \<Rightarrow> Some (Suc k)))"

definition singles_ok :: "EvalSourceAccessSetGraph \<Rightarrow> bool" where
  "singles_ok g \<longleftrightarrow>
     (\<forall>a < length (singletonAccessSets g). singletonAccessSets g ! a \<noteq> 0 \<longrightarrow>
        singletonAccessSets g ! a < length (accessSets g) \<and> members g (singletonAccessSets g ! a) = [a]) \<and>
     (\<forall>i < length (accessSets g). \<forall>a. members g i = [a] \<longrightarrow>
        a < length (singletonAccessSets g) \<and> singletonAccessSets g ! a = i)"

definition keyDirects :: "EvalSourceAccessSetGraph \<Rightarrow> nat \<Rightarrow> nat list" where
  "keyDirects g i = take (in_directCount (inputKeys g ! i)) (drop (in_first (inputKeys g ! i)) (inputKeyItems g))"

definition keyChilds :: "EvalSourceAccessSetGraph \<Rightarrow> nat \<Rightarrow> nat list" where
  "keyChilds g i = take (in_childCount (inputKeys g ! i))
     (drop (in_first (inputKeys g ! i) + in_directCount (inputKeys g ! i)) (inputKeyItems g))"

definition unionOf :: "EvalSourceAccessSetGraph \<Rightarrow> nat list \<Rightarrow> nat list \<Rightarrow> nat set" where
  "unionOf g direct children = (set direct - {0}) \<union> (\<Union>c \<in> set children. set (members g c))"

definition keys_ok :: "EvalSourceAccessSetGraph \<Rightarrow> bool" where
  "keys_ok g \<longleftrightarrow> inputKeys g \<noteq> [] \<and>
     (\<forall>h k. inputKeyIdsByHash g h = Some k \<longrightarrow> 0 < k \<and> k < length (inputKeys g)) \<and>
     (\<forall>i < length (inputKeys g). 0 < i \<longrightarrow>
        in_nextWithSameHash (inputKeys g ! i) < i \<and>
        in_first (inputKeys g ! i) + in_directCount (inputKeys g ! i) + in_childCount (inputKeys g ! i)
          \<le> length (inputKeyItems g) \<and>
        in_accessSet (inputKeys g ! i) < length (accessSets g) \<and>
        (\<forall>c \<in> set (keyChilds g i). c < length (accessSets g)) \<and>
        set (members g (in_accessSet (inputKeys g ! i))) = unionOf g (keyDirects g i) (keyChilds g i))"

definition marks_ok :: "EvalSourceAccessSetGraph \<Rightarrow> bool" where
  "marks_ok g \<longleftrightarrow> length (seenAccessGenerations g) \<le> length (accesses g) \<and>
     nextFlattenGeneration g < 2 ^ 32 \<and>
     (nextFlattenGeneration g \<noteq> 0 \<longrightarrow> (\<forall>m \<in> set (seenAccessGenerations g). m < nextFlattenGeneration g))"

definition graph_ok :: "EvalSourceAccessSetGraph \<Rightarrow> bool" where
  "graph_ok g \<longleftrightarrow>
     (if enabled g
      then paths_ok g \<and> nodes_ok g \<and> inj_ok g \<and> chains_ok g \<and> singles_ok g \<and> keys_ok g \<and> marks_ok g
      else g = newGraph)"

lemmas graph_parts = paths_ok_def nodes_ok_def inj_ok_def chains_ok_def singles_ok_def keys_ok_def marks_ok_def

lemma members_0 [simp]: "nodes_ok g \<Longrightarrow> members g 0 = []"
  by (simp add: nodes_ok_def members_def emptyNode_def)

lemma newGraph_ok: "graph_ok newGraph"
  by (simp add: graph_ok_def newGraph_def)

lemma enable_ok: "graph_ok g \<Longrightarrow> graph_ok (enable g) \<and> enabled (enable g)"
proof (cases "enabled g")
  case True
  then show "graph_ok g \<Longrightarrow> ?thesis" by (simp add: enable_def)
next
  case False
  then show "graph_ok g \<Longrightarrow> ?thesis"
    by (auto simp: graph_ok_def enable_def newGraph_def graph_parts members_def emptyNode_def
        emptyInputNode_def chainedWith_def)
qed

section \<open>Interning paths\<close>

lemma members_cong_sets [simp]:
  "members (g\<lparr>accesses := a\<rparr>) = members g"
  "members (g\<lparr>accessIds := b\<rparr>) = members g"
  "members (g\<lparr>inputKeys := c\<rparr>) = members g"
  "members (g\<lparr>inputKeyItems := d\<rparr>) = members g"
  "members (g\<lparr>inputKeyIdsByHash := e\<rparr>) = members g"
  "members (g\<lparr>seenAccessGenerations := f\<rparr>) = members g"
  "members (g\<lparr>nextFlattenGeneration := n\<rparr>) = members g"
  by (simp_all add: members_def fun_eq_iff)

lemma internAccess_ok:
  assumes ok: "graph_ok g" and room: "length (accesses g) < 2 ^ 32"
    and r: "internAccess g path = (i, g')"
  shows "graph_ok g'"
proof (cases "enabled g \<and> accessIds g path = None")
  case True
  let ?n = "length (accesses g)"
  from True r room have g': "g' = g\<lparr>accesses := accesses g @ [path], accessIds := (accessIds g)(path \<mapsto> ?n)\<rparr>"
    by (auto simp: internAccess_def Let_def)
  from True ok have parts: "paths_ok g" "nodes_ok g" "inj_ok g" "chains_ok g" "singles_ok g" "keys_ok g" "marks_ok g"
    by (auto simp: graph_ok_def)
  from parts(1) True have "\<forall>i. 0 < i \<and> i < ?n \<longrightarrow> accesses g ! i \<noteq> path"
    unfolding paths_ok_def by (metis option.distinct(1))
  with parts(1) True have "paths_ok g'"
    unfolding paths_ok_def g' by (auto simp: nth_append less_Suc_eq)
  moreover from parts(2) have "nodes_ok g'" by (auto simp: g' nodes_ok_def less_SucI)
  moreover from parts have "inj_ok g'" "chains_ok g'" "singles_ok g'" "keys_ok g'" "marks_ok g'"
    by (simp_all add: g' inj_ok_def chains_ok_def singles_ok_def keys_ok_def marks_ok_def
        unionOf_def keyDirects_def keyChilds_def)
  ultimately show ?thesis using True by (simp add: graph_ok_def g')
next
  case False
  with r have "g' = g" by (auto simp: internAccess_def split: if_splits)
  with ok show ?thesis by simp
qed

lemma internAccess_id:
  assumes "graph_ok g" "enabled g" "length (accesses g) < 2 ^ 32" "internAccess g path = (i, g')"
  shows "0 < i \<and> i < length (accesses g') \<and> accesses g' ! i = path \<and> access g' i = path
         \<and> accessIds g' path = Some i"
  using assms
  by (auto simp: internAccess_def graph_ok_def paths_ok_def access_def Let_def nth_append
      split: option.splits)

lemma internAccess_frame:
  assumes "internAccess g path = (i, g')"
  shows "members g' = members g \<and> accessSets g' = accessSets g \<and> enabled g' = enabled g
         \<and> (\<exists>new. accesses g' = accesses g @ new)"
  using assms by (auto simp: internAccess_def Let_def split: if_splits option.splits)

section \<open>Interning sets\<close>

lemma graph_okD:
  assumes "graph_ok g" "enabled g"
  shows "paths_ok g" "nodes_ok g" "inj_ok g" "chains_ok g" "singles_ok g" "keys_ok g" "marks_ok g"
  using assms by (auto simp: graph_ok_def)

lemma slice_members [simp]:
  "nodes_ok g \<Longrightarrow> i < length (accessSets g) \<Longrightarrow>
   slice (accessSetItems g) (sn_first (accessSets g ! i)) (sn_count (accessSets g ! i)) = Some (members g i)"
  by (simp add: nodes_ok_def members_def)

lemma length_members:
  "nodes_ok g \<Longrightarrow> i < length (accessSets g) \<Longrightarrow> length (members g i) = sn_count (accessSets g ! i)"
  by (fastforce simp: nodes_ok_def members_def)

lemma accessSetEquals_members:
  assumes "nodes_ok g" "0 < i" "i < length (accessSets g)"
  shows "accessSetEquals g i items = Some (members g i = items)"
  using assms length_members [of g i] slice_members [of g i]
  by (cases "sn_count (accessSets g ! i) = length items") (auto simp: accessSetEquals_def simp del: slice_members)

lemma lookupAccessSet_spec:
  assumes nodes: "nodes_ok g" and chains: "chains_ok g" and two: "2 \<le> length items"
  shows "\<exists>r. lookupAccessSet g (hashSourceAccessIds items) items = Some r \<and>
    (r \<noteq> 0 \<longrightarrow> r < length (accessSets g) \<and> members g r = items) \<and>
    (r = 0 \<longrightarrow> (\<forall>i < length (accessSets g). members g i \<noteq> items))"
proof -
  let ?h = "hashSourceAccessIds items"
  let ?P = "chainedWith (accessSets g) ?h"
  let ?E = "\<lambda>i. members g i = items"
  let ?n = "length (accessSets g)"
  let ?r = "lastWith (\<lambda>i. ?P i \<and> ?E i) ?n"
  have P: "0 < i \<and> sn_nextWithSameHash (accessSets g ! i) = lastWith ?P i
      \<and> accessSetEquals g i items = Some (?E i)" if "i < ?n" "?P i" for i
  proof -
    from that nodes have "0 < i" by (auto simp: chainedWith_def nodes_ok_def emptyNode_def intro: gr0I)
    with that nodes chains show ?thesis
      by (auto simp: chainedWith_def chains_ok_def accessSetEquals_members)
  qed
  have walk: "walkChain ?n (accessSets g) sn_nextWithSameHash (\<lambda>i. accessSetEquals g i items) (lastWith ?P ?n)
      = Some ?r"
    by (rule walkChain_lastWith) (use P in auto)
  have "lookupAccessSet g ?h items = Some ?r"
  proof (cases "lastWith ?P ?n")
    case 0
    with walk have "?r = 0" by (simp add: walkChain.simps)
    with 0 chains show ?thesis by (simp add: lookupAccessSet_def chains_ok_def)
  next
    case (Suc k)
    with walk chains show ?thesis by (simp add: lookupAccessSet_def chains_ok_def)
  qed
  moreover have "?r < ?n \<and> members g ?r = items" if "?r \<noteq> 0"
    using lastWith_sat [OF that] by simp
  moreover have "members g i \<noteq> items" if "?r = 0" "i < ?n" for i
  proof
    assume eq: "members g i = items"
    with two length_members [OF nodes that(2)] have two': "2 \<le> sn_count (accessSets g ! i)" by simp
    with that chains eq have "?P i" by (auto simp: chains_ok_def chainedWith_def)
    with eq lastWith_zero [OF that(1) that(2)] have "i = 0" by simp
    with two' nodes show False by (simp add: nodes_ok_def emptyNode_def)
  qed
  ultimately show ?thesis by blast
qed

text \<open>
  Both ways of creating a node append one node whose members are a new strictly sorted list of
  nonempty ids. \<open>appended\<close> names the state after such an append, so that the parts of the invariant
  that do not concern the hash chains and the singleton table are proved once.
\<close>

definition appended :: "EvalSourceAccessSetGraph \<Rightarrow> EvalSourceAccessSetNode \<Rightarrow> nat list
    \<Rightarrow> EvalSourceAccessSetGraph \<Rightarrow> bool" where
  "appended g node items g' \<longleftrightarrow>
     accessSets g' = accessSets g @ [node] \<and> accessSetItems g' = accessSetItems g @ items \<and>
     sn_first node = length (accessSetItems g) \<and> sn_count node = length items \<and>
     length (accessSetItems g) + length items \<le> 2 ^ 32 \<and>
     enabled g' = enabled g \<and> accessIds g' = accessIds g \<and> accesses g' = accesses g \<and>
     inputKeys g' = inputKeys g \<and> inputKeyItems g' = inputKeyItems g \<and>
     inputKeyIdsByHash g' = inputKeyIdsByHash g \<and>
     seenAccessGenerations g' = seenAccessGenerations g \<and> nextFlattenGeneration g' = nextFlattenGeneration g"

lemma appended_members:
  assumes "nodes_ok g" "appended g node items g'"
  shows "i < length (accessSets g) \<Longrightarrow> members g' i = members g i"
    and "members g' (length (accessSets g)) = items"
  using assms by (auto simp: appended_def members_def nodes_ok_def nth_append)

lemma appended_ok:
  assumes app: "appended g node items g'" and ok: "nodes_ok g" "inj_ok g" "keys_ok g" "paths_ok g" "marks_ok g"
    and items: "items \<noteq> []" "sorted_wrt (<) items" "0 \<notin> set items" "\<forall>a \<in> set items. a < length (accesses g)"
    and new: "\<And>i. i < length (accessSets g) \<Longrightarrow> members g i \<noteq> items"
  shows "nodes_ok g'" "inj_ok g'" "keys_ok g'" "paths_ok g'" "marks_ok g'"
proof -
  note m = appended_members [OF ok(1) app]
  from app have sets: "accessSets g' = accessSets g @ [node]" by (simp add: appended_def)
  show "nodes_ok g'"
    unfolding nodes_ok_def
  proof (intro conjI allI impI)
    show "accessSets g' ! 0 = emptyNode" using ok(1) by (auto simp: sets nth_append nodes_ok_def)
    fix i assume "i < length (accessSets g')"
    then have c: "i < length (accessSets g) \<or> i = length (accessSets g)" by (auto simp: sets less_Suc_eq)
    show "sn_first (accessSets g' ! i) + sn_count (accessSets g' ! i) \<le> length (accessSetItems g')"
      using c ok(1) app by (auto simp: nodes_ok_def appended_def nth_append intro: trans_le_add1)
    show "sn_first (accessSets g' ! i) + sn_count (accessSets g' ! i) \<le> 2 ^ 32"
      using c ok(1) app by (auto simp: nodes_ok_def appended_def nth_append)
    show "sorted_wrt (<) (members g' i)" "0 \<notin> set (members g' i)"
      "\<forall>a \<in> set (members g' i). a < length (accesses g')"
      using c ok(1) items m app by (auto simp: nodes_ok_def appended_def)
    show "0 < sn_count (accessSets g' ! i)" if "0 < i"
      using c ok(1) items app that by (auto simp: nodes_ok_def appended_def nth_append)
  qed (simp add: sets)
  show "inj_ok g'"
    unfolding inj_ok_def
  proof (intro allI impI)
    fix i j assume "i < length (accessSets g')" "j < length (accessSets g')" "members g' i = members g' j"
    then show "i = j"
      using ok(2) m new [of i] new [of j]
      by (cases "i = length (accessSets g)"; cases "j = length (accessSets g)") (auto simp: sets inj_ok_def)
  qed
  show "keys_ok g'"
    unfolding keys_ok_def
  proof (intro conjI allI impI)
    fix i assume i: "i < length (inputKeys g')" "0 < i"
    with app ok(3) have key: "in_accessSet (inputKeys g ! i) < length (accessSets g)"
      "\<forall>c \<in> set (keyChilds g i). c < length (accessSets g)"
      "set (members g (in_accessSet (inputKeys g ! i))) = unionOf g (keyDirects g i) (keyChilds g i)"
      and same: "inputKeys g' ! i = inputKeys g ! i" "keyChilds g' i = keyChilds g i" "keyDirects g' i = keyDirects g i"
      by (auto simp: keys_ok_def appended_def keyChilds_def keyDirects_def)
    from key(2) m have "unionOf g' (keyDirects g i) (keyChilds g i) = unionOf g (keyDirects g i) (keyChilds g i)"
      by (simp add: unionOf_def)
    with key same m show "set (members g' (in_accessSet (inputKeys g' ! i))) = unionOf g' (keyDirects g' i) (keyChilds g' i)"
      by simp
    from key same show "\<forall>c \<in> set (keyChilds g' i). c < length (accessSets g')"
      "in_accessSet (inputKeys g' ! i) < length (accessSets g')"
      by (auto simp: sets)
  qed (use ok(3) app in \<open>auto simp: keys_ok_def appended_def\<close>)
  from ok app show "paths_ok g'" "marks_ok g'"
    by (auto simp: appended_def paths_ok_def marks_ok_def)
qed

lemma chainedWith_append [simp]:
  "i < length nodes \<Longrightarrow> chainedWith (nodes @ [node]) h i = chainedWith nodes h i"
  "chainedWith (nodes @ [node]) h (length nodes) \<longleftrightarrow> 2 \<le> sn_count node \<and> sn_hash node = h"
  by (simp_all add: chainedWith_def nth_append)

lemma lastWith_chained_append:
  assumes "i \<le> length nodes"
  shows "lastWith (chainedWith (nodes @ [node]) h) i = lastWith (chainedWith nodes h) i"
  by (rule lastWith_cong) (use assms in auto)

lemma appended_single_chains:
  assumes app: "appended g node items g'" and nodes: "nodes_ok g" and chains: "chains_ok g"
    and one: "length items = 1" and heads: "accessSetIdsByHash g' = accessSetIdsByHash g"
  shows "chains_ok g'"
  unfolding chains_ok_def
proof (intro conjI allI impI)
  note m = appended_members [OF nodes app]
  from app have sets: "accessSets g' = accessSets g @ [node]" and node: "sn_count node = length items"
    by (auto simp: appended_def)
  fix i assume i: "i < length (accessSets g')" "2 \<le> sn_count (accessSets g' ! i)"
  with one node have old: "i < length (accessSets g)" by (auto simp: sets less_Suc_eq)
  with i chains m show "sn_hash (accessSets g' ! i) = hashSourceAccessIds (members g' i)"
    by (auto simp: sets nth_append chains_ok_def)
  from old i chains show "sn_nextWithSameHash (accessSets g' ! i)
      = lastWith (chainedWith (accessSets g') (sn_hash (accessSets g' ! i))) i"
    by (auto simp: sets nth_append chains_ok_def lastWith_chained_append)
next
  fix h
  from app one chains heads
  show "accessSetIdsByHash g' h = (case lastWith (chainedWith (accessSets g') h) (length (accessSets g'))
      of 0 \<Rightarrow> None | Suc k \<Rightarrow> Some (Suc k))"
    by (simp add: appended_def chains_ok_def lastWith_chained_append)
qed

lemma appended_chained_chains:
  assumes app: "appended g node items g'" and nodes: "nodes_ok g" and chains: "chains_ok g"
    and two: "2 \<le> length items"
    and hash: "sn_hash node = hashSourceAccessIds items"
    and nxt: "sn_nextWithSameHash node = (case accessSetIdsByHash g (sn_hash node) of None \<Rightarrow> 0 | Some k \<Rightarrow> k)"
    and heads: "accessSetIdsByHash g' = (accessSetIdsByHash g)(sn_hash node \<mapsto> length (accessSets g))"
  shows "chains_ok g'"
  unfolding chains_ok_def
proof (intro conjI allI impI)
  note m = appended_members [OF nodes app]
  from app have sets: "accessSets g' = accessSets g @ [node]" and node: "sn_count node = length items"
    by (auto simp: appended_def)
  fix i assume i: "i < length (accessSets g')" "2 \<le> sn_count (accessSets g' ! i)"
  then have c: "i < length (accessSets g) \<or> i = length (accessSets g)" by (auto simp: sets less_Suc_eq)
  with i chains m hash show "sn_hash (accessSets g' ! i) = hashSourceAccessIds (members g' i)"
    by (auto simp: sets nth_append chains_ok_def)
  from c i chains nxt show "sn_nextWithSameHash (accessSets g' ! i)
      = lastWith (chainedWith (accessSets g') (sn_hash (accessSets g' ! i))) i"
    by (auto simp: sets nth_append chains_ok_def lastWith_chained_append split: nat.splits)
next
  fix h
  from app two have "lastWith (chainedWith (accessSets g') h) (length (accessSets g'))
      = (if sn_hash node = h then length (accessSets g)
         else lastWith (chainedWith (accessSets g) h) (length (accessSets g)))"
    by (simp add: appended_def lastWith_chained_append)
  moreover from nodes have "length (accessSets g) \<noteq> 0" by (simp add: nodes_ok_def)
  ultimately show "accessSetIdsByHash g' h = (case lastWith (chainedWith (accessSets g') h) (length (accessSets g'))
      of 0 \<Rightarrow> None | Suc k \<Rightarrow> Some (Suc k))"
    using chains heads by (auto simp: chains_ok_def split: nat.splits)
qed

lemma appended_singles:
  assumes app: "appended g node items g'" and nodes: "nodes_ok g" and singles: "singles_ok g"
    and two: "2 \<le> length items" and same: "singletonAccessSets g' = singletonAccessSets g"
  shows "singles_ok g'"
  unfolding singles_ok_def
proof (intro conjI allI impI)
  note m = appended_members [OF nodes app]
  from app have sets: "accessSets g' = accessSets g @ [node]" by (simp add: appended_def)
  fix a assume "a < length (singletonAccessSets g')" "singletonAccessSets g' ! a \<noteq> 0"
  with singles m show "singletonAccessSets g' ! a < length (accessSets g')"
    "members g' (singletonAccessSets g' ! a) = [a]"
    by (auto simp: same sets singles_ok_def intro: less_SucI)
next
  note m = appended_members [OF nodes app]
  from app have sets: "accessSets g' = accessSets g @ [node]" by (simp add: appended_def)
  fix i a assume "i < length (accessSets g')" "members g' i = [a]"
  moreover with two m have "i \<noteq> length (accessSets g)" by auto
  ultimately show "a < length (singletonAccessSets g')" "singletonAccessSets g' ! a = i"
    using singles m by (auto simp: same sets singles_ok_def less_Suc_eq)
qed

definition extends :: "EvalSourceAccessSetGraph \<Rightarrow> EvalSourceAccessSetGraph \<Rightarrow> bool" where
  "extends g g' \<longleftrightarrow> enabled g' = enabled g \<and> length (accessSets g) \<le> length (accessSets g') \<and>
     (\<forall>i < length (accessSets g). members g' i = members g i) \<and>
     accesses g' = accesses g \<and> accessIds g' = accessIds g"

lemma extends_refl [simp]: "extends g g"
  by (simp add: extends_def)

lemma extends_trans: "extends g g' \<Longrightarrow> extends g' g'' \<Longrightarrow> extends g g''"
  by (auto simp: extends_def)

lemma appended_extends: "nodes_ok g \<Longrightarrow> appended g node items g' \<Longrightarrow> extends g g'"
  using appended_members [of g node items g'] by (auto simp: extends_def appended_def)

text \<open>What interning a list of ids must return: the id of exactly that list, in a graph that is still right.\<close>

definition interned :: "EvalSourceAccessSetGraph \<Rightarrow> nat list
    \<Rightarrow> (EvalSourceAccessSetId \<times> EvalSourceAccessSetGraph) option \<Rightarrow> bool" where
  "interned g items r \<longleftrightarrow>
     (\<exists>i g'. r = Some (i, g') \<and> graph_ok g' \<and> extends g g' \<and> i < length (accessSets g') \<and> members g' i = items
        \<and> inputKeyItems g' = inputKeyItems g \<and> inputKeys g' = inputKeys g)"

lemma internSingleton_interned:
  assumes ok: "graph_ok g" "enabled g" and a: "a \<noteq> 0" "a < length (accesses g)"
    and room: "length (accesses g) < 2 ^ 32" "length (accessSets g) < 2 ^ 32" "length (accessSetItems g) < 2 ^ 32"
  shows "interned g [a] (internSingleton g a)"
proof (cases "a < length (singletonAccessSets g) \<and> singletonAccessSets g ! a \<noteq> 0")
  case True
  with a have "internSingleton g a = Some (singletonAccessSets g ! a, g)" by (simp add: internSingleton_def)
  with True ok show ?thesis by (auto simp: interned_def graph_ok_def singles_ok_def)
next
  case False
  note parts = graph_okD [OF ok]
  let ?n = "length (accessSets g)"
  let ?singles = "if length (singletonAccessSets g) \<le> a then resize (singletonAccessSets g) (a + 1) 0
                  else singletonAccessSets g"
  let ?node = "\<lparr>sn_first = length (accessSetItems g), sn_count = 1, sn_nextWithSameHash = 0, sn_hash = 0\<rparr>"
  define g' where "g' = g\<lparr>accessSetItems := accessSetItems g @ [a], accessSets := accessSets g @ [?node],
    singletonAccessSets := ?singles[a := ?n]\<rparr>"
  from a room have [simp]: "u32 (Suc a) = Suc a" by (intro u32_id) simp
  from False a room have r: "internSingleton g a = Some (?n, g')"
    by (auto simp: internSingleton_def Let_def g'_def)
  have app: "appended g ?node [a] g'" using room(3) by (simp add: appended_def g'_def)
  note m = appended_members [OF parts(2) app]
  have new: "members g i \<noteq> [a]" if "i < ?n" for i
    using that False parts(5) parts(2) by (auto simp: singles_ok_def)
  have "?n \<noteq> 0" using parts(2) by (simp add: nodes_ok_def)
  have "singles_ok g'"
    unfolding singles_ok_def
  proof (intro conjI allI impI)
    fix b assume b: "b < length (singletonAccessSets g')" "singletonAccessSets g' ! b \<noteq> 0"
    then have "b = a \<or> b \<noteq> a \<and> b < length (singletonAccessSets g) \<and> singletonAccessSets g ! b \<noteq> 0
        \<and> singletonAccessSets g' ! b = singletonAccessSets g ! b"
      by (auto simp: g'_def nth_list_update nth_resize split: if_splits)
    with parts(5) m b show "singletonAccessSets g' ! b < length (accessSets g')"
      "members g' (singletonAccessSets g' ! b) = [b]"
      by (auto simp: g'_def singles_ok_def intro: less_SucI)
  next
    fix i b assume i: "i < length (accessSets g')" "members g' i = [b]"
    then have c: "i = ?n \<and> b = a \<or> i < ?n \<and> members g i = [b]" using m by (auto simp: g'_def less_Suc_eq)
    with new have "i = ?n \<or> b \<noteq> a" by auto
    with c parts(5) show "b < length (singletonAccessSets g')" "singletonAccessSets g' ! b = i"
      by (auto simp: g'_def singles_ok_def nth_resize)
  qed
  moreover have "chains_ok g'"
    by (rule appended_single_chains [OF app parts(2,4)]) (simp_all add: g'_def)
  moreover note appended_ok [OF app parts(2,3,6,1,7)]
  ultimately have "graph_ok g'"
    using a new ok by (simp add: graph_ok_def g'_def)
  with r m appended_extends [OF parts(2) app] show ?thesis
    by (auto simp: interned_def g'_def)
qed

lemma appendAccessSet_interned:
  assumes ok: "graph_ok g" "enabled g"
    and items: "2 \<le> length items" "sorted_wrt (<) items" "0 \<notin> set items" "\<forall>a \<in> set items. a < length (accesses g)"
    and new: "\<And>i. i < length (accessSets g) \<Longrightarrow> members g i \<noteq> items"
    and room: "length (accessSets g) < 2 ^ 32" "length (accessSetItems g) + length items < 2 ^ 32"
  shows "interned g items (Some (appendAccessSet g (hashSourceAccessIds items) items))"
proof -
  note parts = graph_okD [OF ok]
  let ?h = "hashSourceAccessIds items" and ?n = "length (accessSets g)"
  let ?node = "\<lparr>sn_first = length (accessSetItems g), sn_count = length items,
    sn_nextWithSameHash = (case accessSetIdsByHash g ?h of None \<Rightarrow> 0 | Some head \<Rightarrow> head), sn_hash = ?h\<rparr>"
  define g' where "g' = g\<lparr>accessSetItems := accessSetItems g @ items,
    accessSetIdsByHash := (accessSetIdsByHash g)(?h \<mapsto> ?n), accessSets := accessSets g @ [?node]\<rparr>"
  from room have r: "appendAccessSet g ?h items = (?n, g')"
    by (simp add: appendAccessSet_def Let_def g'_def)
  have app: "appended g ?node items g'" using room(2) by (simp add: appended_def g'_def)
  from items(1) have "items \<noteq> []" by auto
  moreover have "chains_ok g'"
    by (rule appended_chained_chains [OF app parts(2,4) items(1)]) (simp_all add: g'_def)
  moreover have "singles_ok g'"
    by (rule appended_singles [OF app parts(2,5) items(1)]) (simp add: g'_def)
  moreover note appended_ok [OF app parts(2,3,6,1,7)]
  ultimately have "graph_ok g'" using items new ok by (simp add: graph_ok_def g'_def)
  with r appended_members [OF parts(2) app] appended_extends [OF parts(2) app] show ?thesis
    by (auto simp: interned_def g'_def)
qed

lemma internFlattened_interned:
  assumes ok: "graph_ok g" "enabled g"
    and items: "sorted_wrt (<) items" "0 \<notin> set items" "\<forall>a \<in> set items. a < length (accesses g)"
    and room: "length (accesses g) < 2 ^ 32" "length (accessSets g) < 2 ^ 32"
      "length (accessSetItems g) + length items < 2 ^ 32"
  shows "interned g items (internFlattened g items)"
proof -
  note parts = graph_okD [OF ok]
  consider "items = []" | a where "items = [a]" | "2 \<le> length items"
    by (cases items rule: remdups_adj.cases) auto
  then show ?thesis
  proof cases
    case 1
    with parts(2) ok show ?thesis
      by (auto simp: internFlattened_def interned_def) (auto simp: nodes_ok_def)
  next
    case 2
    with items room internSingleton_interned [OF ok] show ?thesis by (simp add: internFlattened_def)
  next
    case 3
    obtain r where r: "lookupAccessSet g (hashSourceAccessIds items) items = Some r"
      "r \<noteq> 0 \<Longrightarrow> r < length (accessSets g) \<and> members g r = items"
      "r = 0 \<Longrightarrow> \<forall>i < length (accessSets g). members g i \<noteq> items"
      using lookupAccessSet_spec [OF parts(2,4) 3] by blast
    from 3 have step: "internFlattened g items = Some (if r \<noteq> 0 then (r, g)
        else appendAccessSet g (hashSourceAccessIds items) items)"
      by (auto simp: internFlattened_def r)
    show ?thesis
    proof (cases "r = 0")
      case True
      with r(3) step appendAccessSet_interned [OF ok 3 items _ room(2,3)] show ?thesis by simp
    next
      case False
      with r(2) step ok show ?thesis by (simp add: interned_def)
    qed
  qed
qed

lemma rememberInputKey_ok:
  assumes ok: "graph_ok g" "enabled g"
    and key: "0 \<notin> set d" "\<forall>c \<in> set c. c < length (accessSets g)" "i < length (accessSets g)"
      "set (members g i) = unionOf g d c"
    and room: "length (inputKeyItems g) + length d + length c < 2 ^ 32"
  shows "graph_ok (rememberInputKey g h d c i)" "extends g (rememberInputKey g h d c i)"
    "members (rememberInputKey g h d c i) = members g"
    "accessSets (rememberInputKey g h d c i) = accessSets g"
proof -
  note parts = graph_okD [OF ok]
  let ?g' = "rememberInputKey g h d c i"
  show m: "members ?g' = members g" and "accessSets ?g' = accessSets g" and "extends g ?g'"
    by (auto simp: rememberInputKey_def Let_def extends_def)
  have "keys_ok ?g'"
  proof (cases "maxInputKeys \<le> length (inputKeys g)")
    case True
    with parts(6) show ?thesis by (simp add: rememberInputKey_def)
  next
    case False
    let ?n = "length (inputKeys g)"
    let ?node = "\<lparr>in_first = length (inputKeyItems g), in_directCount = length d, in_childCount = length c,
      in_nextWithSameHash = (case inputKeyIdsByHash g h of None \<Rightarrow> 0 | Some head \<Rightarrow> head), in_hash = h, in_accessSet = i\<rparr>"
    from False have "?n < 2 ^ 32" by (simp add: maxInputKeys_def)
    with False room have g': "?g' = g\<lparr>inputKeyItems := inputKeyItems g @ d @ c,
        inputKeyIdsByHash := (inputKeyIdsByHash g)(h \<mapsto> ?n), inputKeys := inputKeys g @ [?node]\<rparr>"
      by (simp add: rememberInputKey_def Let_def)
    have old: "keyDirects ?g' j = keyDirects g j \<and> keyChilds ?g' j = keyChilds g j" if "j < ?n" "0 < j" for j
      using that parts(6) by (auto simp: g' keyDirects_def keyChilds_def keys_ok_def nth_append)
    have new: "keyDirects ?g' ?n = d" "keyChilds ?g' ?n = c"
      by (simp_all add: g' keyDirects_def keyChilds_def)
    have n0: "0 < ?n" using parts(6) by (simp add: keys_ok_def)
    show ?thesis
      unfolding keys_ok_def
    proof (intro conjI allI impI)
      fix j assume j: "j < length (inputKeys ?g')" "0 < j"
      then have cs: "j < ?n \<or> j = ?n" by (auto simp: g' less_Suc_eq)
      show "in_nextWithSameHash (inputKeys ?g' ! j) < j"
        using cs j parts(6) n0 by (auto simp: g' nth_append keys_ok_def split: option.splits)
      show "in_first (inputKeys ?g' ! j) + in_directCount (inputKeys ?g' ! j) + in_childCount (inputKeys ?g' ! j)
          \<le> length (inputKeyItems ?g')"
        using cs j parts(6) by (auto simp: g' nth_append keys_ok_def intro: trans_le_add1)
      show "in_accessSet (inputKeys ?g' ! j) < length (accessSets ?g')"
        using cs j parts(6) key by (auto simp: g' nth_append keys_ok_def)
      show "\<forall>c \<in> set (keyChilds ?g' j). c < length (accessSets ?g')"
        using cs j parts(6) key old [of j] new by (auto simp: keys_ok_def g')
      have "in_accessSet (inputKeys ?g' ! j) = (if j < ?n then in_accessSet (inputKeys g ! j) else i)"
        using cs by (auto simp: g' nth_append)
      then show "set (members ?g' (in_accessSet (inputKeys ?g' ! j))) = unionOf ?g' (keyDirects ?g' j) (keyChilds ?g' j)"
        using cs j parts(6) key old [of j] new by (auto simp: keys_ok_def m unionOf_def)
    qed (use parts(6) n0 in \<open>auto simp: g' keys_ok_def intro: less_SucI split: if_splits\<close>)
  qed
  with parts ok show "graph_ok ?g'"
    by (auto simp: graph_ok_def rememberInputKey_def Let_def nodes_ok_def inj_ok_def chains_ok_def singles_ok_def
        paths_ok_def marks_ok_def)
qed

lemma walkChain_descending:
  assumes down: "\<And>i. 0 < i \<Longrightarrow> i < length nodes \<Longrightarrow> nextOf (nodes ! i) < i \<and> (\<exists>e. eq i = Some e)"
    and "k < length nodes" "k \<le> fuel"
  shows "\<exists>r. walkChain fuel nodes nextOf eq k = Some r \<and> (r \<noteq> 0 \<longrightarrow> r < length nodes \<and> eq r = Some True)"
  using assms(2,3)
proof (induction k arbitrary: fuel rule: less_induct)
  case (less k)
  show ?case
  proof (cases "k = 0")
    case True
    then show ?thesis by (simp add: walkChain.simps)
  next
    case False
    with less.prems obtain fuel' where fuel: "fuel = Suc fuel'" by (cases fuel) auto
    from False less.prems down [of k] obtain e where e: "eq k = Some e" "nextOf (nodes ! k) < k" by auto
    with less.prems fuel have "\<exists>r. walkChain fuel' nodes nextOf eq (nextOf (nodes ! k)) = Some r
        \<and> (r \<noteq> 0 \<longrightarrow> r < length nodes \<and> eq r = Some True)"
      by (intro less.IH) auto
    with e False less.prems fuel show ?thesis by (cases e) (auto simp: walkChain.simps [of "Suc fuel'"])
  qed
qed

lemma inputKeyEquals_key:
  assumes "keys_ok g" "0 < i" "i < length (inputKeys g)"
  shows "inputKeyEquals g i d c = Some (keyDirects g i = d \<and> keyChilds g i = c)"
proof -
  let ?n = "inputKeys g ! i"
  from assms have in_range: "in_first ?n + in_directCount ?n + in_childCount ?n \<le> length (inputKeyItems g)"
    by (simp add: keys_ok_def)
  then have "length (keyDirects g i) = in_directCount ?n" "length (keyChilds g i) = in_childCount ?n"
    by (auto simp: keyDirects_def keyChilds_def)
  moreover from in_range have "slice (inputKeyItems g) (in_first ?n) (in_directCount ?n) = Some (keyDirects g i)"
    "slice (inputKeyItems g) (in_first ?n + in_directCount ?n) (in_childCount ?n) = Some (keyChilds g i)"
    by (simp_all add: keyDirects_def keyChilds_def)
  ultimately show ?thesis using assms by (auto simp: inputKeyEquals_def)
qed

lemma lookupInputKey_spec:
  assumes "keys_ok g"
  shows "\<exists>r. lookupInputKey g h d c = Some r \<and>
    (\<forall>s. r = Some s \<longrightarrow> s < length (accessSets g) \<and> set (members g s) = unionOf g d c)"
proof (cases "inputKeyIdsByHash g h")
  case None
  then show ?thesis by (simp add: lookupInputKey_def)
next
  case (Some head)
  let ?eq = "\<lambda>i. inputKeyEquals g i d c"
  from assms Some have head: "head < length (inputKeys g)" by (auto simp: keys_ok_def)
  obtain r where r: "walkChain (length (inputKeys g)) (inputKeys g) in_nextWithSameHash ?eq head = Some r"
      "r \<noteq> 0 \<Longrightarrow> r < length (inputKeys g) \<and> ?eq r = Some True"
    using walkChain_descending [of "inputKeys g" in_nextWithSameHash ?eq head "length (inputKeys g)"] head assms
    by (auto simp: inputKeyEquals_key keys_ok_def)
  show ?thesis
  proof (cases "r = 0")
    case True
    with r Some show ?thesis by (simp add: lookupInputKey_def)
  next
    case False
    with r(2) inputKeyEquals_key [OF assms, of r d c] have "r < length (inputKeys g)" "keyDirects g r = d" "keyChilds g r = c"
      by auto
    with assms False have "in_accessSet (inputKeys g ! r) < length (accessSets g) \<and>
        set (members g (in_accessSet (inputKeys g ! r))) = unionOf g d c"
      by (auto simp: keys_ok_def)
    with \<open>r < length (inputKeys g)\<close> False r Some show ?thesis by (simp add: lookupInputKey_def)
  qed
qed

lemma childItems_members:
  assumes "nodes_ok g" "\<forall>x \<in> set c. x < length (accessSets g)"
  shows "childItems g c = Some (concat (map (members g) c))"
  using assms(2) by (induction c) (auto simp: assms(1))

lemma buildItems_spec:
  assumes "nodes_ok g" "\<forall>x \<in> set c. x < length (accessSets g)"
  shows "buildItems g d c = Some (sort_unique (d @ concat (map (members g) c)))"
  using assms by (simp add: buildItems_def childItems_members)

text \<open>
  The preconditions of publishing a frame: its ids come from the graph, and the 32-bit counters of
  the graph have room for it.
\<close>

definition valid_input :: "EvalSourceAccessSetGraph \<Rightarrow> nat list \<Rightarrow> nat list \<Rightarrow> bool" where
  "valid_input g d c \<longleftrightarrow> list_all (\<lambda>a. a < length (accesses g)) d \<and> list_all (\<lambda>s. s < length (accessSets g)) c"

definition fits :: "EvalSourceAccessSetGraph \<Rightarrow> nat list \<Rightarrow> nat list \<Rightarrow> bool" where
  "fits g d c \<longleftrightarrow> length (accesses g) < 2 ^ 32 \<and> length (accessSets g) < 2 ^ 32 \<and>
     length (accessSetItems g) + length (sort_unique (d @ concat (map (members g) c))) < 2 ^ 32 \<and>
     length (inputKeyItems g) + length d + length c < 2 ^ 32"

lemma set_canonicalise [simp]: "set (canonicaliseAccessSetInput xs) = set xs - {0}"
  by (auto simp: canonicaliseAccessSetInput_def)

lemma length_sort_unique: "length (sort_unique xs) = card (set xs)"
  using distinct_sort_unique [of xs] by (metis distinct_card set_sort_unique)

lemma length_canonicalise: "length (canonicaliseAccessSetInput xs) \<le> length xs"
  unfolding canonicaliseAccessSetInput_def length_sort_unique
  by (rule order_trans [OF card_length]) simp

lemma unionOf_canonicalise:
  "nodes_ok g \<Longrightarrow> unionOf g (canonicaliseAccessSetInput d) (canonicaliseAccessSetInput c) = unionOf g d c"
  by (auto simp: unionOf_def)

lemma length_sort_unique_mono: "set xs \<subseteq> set ys \<Longrightarrow> length (sort_unique xs) \<le> length (sort_unique ys)"
  by (simp add: length_sort_unique card_mono)

lemma internAccessSet_memo_case:
  assumes ok: "graph_ok g" "enabled g" and valid: "valid_input g d c" and fits: "fits g d c"
    and memo: "lookupInputKey g h (canonicaliseAccessSetInput d) (canonicaliseAccessSetInput c) = Some None"
  defines "kd \<equiv> canonicaliseAccessSetInput d" and "kc \<equiv> canonicaliseAccessSetInput c"
  shows "\<exists>items i g'. buildItems g kd kc = Some items \<and> internFlattened g items = Some (i, g') \<and>
    graph_ok (rememberInputKey g' h kd kc i) \<and> extends g (rememberInputKey g' h kd kc i) \<and>
    i < length (accessSets (rememberInputKey g' h kd kc i)) \<and>
    set (members (rememberInputKey g' h kd kc i) i) = unionOf g d c"
proof -
  note parts = graph_okD [OF ok]
  let ?items = "sort_unique (kd @ concat (map (members g) kc))"
  from valid have kc: "\<forall>x \<in> set kc. x < length (accessSets g)" and kd: "\<forall>x \<in> set kd. x < length (accesses g)"
    by (auto simp: valid_input_def kc_def kd_def list_all_iff)
  have set_items: "set ?items = unionOf g d c"
    using unionOf_canonicalise [OF parts(2), of d c] by (auto simp: kd_def kc_def unionOf_def)
  have build: "buildItems g kd kc = Some ?items" by (rule buildItems_spec [OF parts(2) kc])
  have "length ?items \<le> length (sort_unique (d @ concat (map (members g) c)))"
    by (rule length_sort_unique_mono) (auto simp: kd_def kc_def)
  with fits have room: "length (accesses g) < 2 ^ 32" "length (accessSets g) < 2 ^ 32"
      "length (accessSetItems g) + length ?items < 2 ^ 32"
    by (auto simp: fits_def)
  have "0 \<notin> set ?items" "\<forall>a \<in> set ?items. a < length (accesses g)"
    using parts(2) kc kd by (auto simp: kd_def nodes_ok_def)
  from internFlattened_interned [OF ok strict_sort_unique this room]
  obtain i g' where g': "internFlattened g ?items = Some (i, g')" "graph_ok g'" "extends g g'"
      "i < length (accessSets g')" "members g' i = ?items" "inputKeyItems g' = inputKeyItems g"
    by (auto simp: interned_def)
  from g'(3) ok have en: "enabled g'" by (simp add: extends_def)
  from g'(3) kc have kc': "\<forall>x \<in> set kc. x < length (accessSets g')" by (auto simp: extends_def)
  from g'(3) kc have "unionOf g' kd kc = unionOf g kd kc" by (simp add: unionOf_def extends_def)
  then have u: "set (members g' i) = unionOf g' kd kc"
    using g'(5) set_items unionOf_canonicalise [OF parts(2), of d c] by (simp add: kd_def kc_def)
  have "length (inputKeyItems g') + length kd + length kc < 2 ^ 32"
    using fits g'(6) length_canonicalise [of d] length_canonicalise [of c] by (simp add: fits_def kd_def kc_def)
  note rem = rememberInputKey_ok [OF g'(2) en _ kc' g'(4) u this, of h]
  have "0 \<notin> set kd" by (simp add: kd_def)
  with rem build g' set_items extends_trans [OF g'(3)] show ?thesis
    by (intro exI [of _ ?items] exI [of _ i] exI [of _ g']) simp
qed

lemma internAccessSet_correct:
  assumes ok: "graph_ok g" "enabled g" and valid: "valid_input g d c" and fits: "fits g d c"
  shows "\<exists>i g'. internAccessSet g d c = Some (i, g') \<and> graph_ok g' \<and> extends g g' \<and>
    i < length (accessSets g') \<and> set (members g' i) = unionOf g d c"
proof -
  note parts = graph_okD [OF ok]
  let ?kd = "canonicaliseAccessSetInput d" and ?kc = "canonicaliseAccessSetInput c"
  note u = unionOf_canonicalise [OF parts(2), of d c]
  have kc: "\<forall>x \<in> set ?kc. x < length (accessSets g)" and kd: "\<forall>x \<in> set ?kd. x \<noteq> 0 \<and> x < length (accesses g)"
    using valid by (auto simp: valid_input_def list_all_iff)
  consider "?kd = []" "?kc = []" | s where "?kd = []" "?kc = [s]" | a where "?kc = []" "?kd = [a]"
    | (general) "\<not> (?kd = [] \<and> ?kc = [])" "\<not> (?kd = [] \<and> length ?kc = 1)" "\<not> (?kc = [] \<and> length ?kd = 1)"
    by (auto simp: length_Suc_conv)
  then show ?thesis
  proof cases
    case 1
    with ok u parts(2) show ?thesis
      by (auto simp: internAccessSet_def unionOf_def) (simp add: nodes_ok_def)
  next
    case 2
    with ok u kc parts(2) show ?thesis by (auto simp: internAccessSet_def unionOf_def)
  next
    case 3
    from fits have "length (accesses g) < 2 ^ 32" "length (accessSets g) < 2 ^ 32" "length (accessSetItems g) < 2 ^ 32"
      by (auto simp: fits_def)
    with 3 kd internSingleton_interned [OF ok, of a] have "interned g [a] (internSingleton g a)" by simp
    with 3 ok u kd show ?thesis by (auto simp: internAccessSet_def interned_def unionOf_def)
  next
    case general
    let ?h = "hashAccessSetInputKey ?kd ?kc"
    from lookupInputKey_spec [OF parts(6), of ?h ?kd ?kc] obtain r where
      r: "lookupInputKey g ?h ?kd ?kc = Some r"
        "\<forall>s. r = Some s \<longrightarrow> s < length (accessSets g) \<and> set (members g s) = unionOf g ?kd ?kc" by blast
    show ?thesis
    proof (cases r)
      case (Some s)
      with r general ok u show ?thesis by (auto simp: internAccessSet_def Let_def)
    next
      case None
      with r(1) internAccessSet_memo_case [OF ok valid fits, of ?h] general ok show ?thesis
        by (auto simp: internAccessSet_def Let_def)
    qed
  qed
qed

text \<open>How much a publish can grow the graph.\<close>

lemma internFlattened_growth:
  assumes "internFlattened g items = Some (i, g')"
  shows "length (accessSets g') \<le> Suc (length (accessSets g))
    \<and> length (accessSetItems g') \<le> length (accessSetItems g) + length items"
  using assms
  by (auto simp: internFlattened_def internSingleton_def appendAccessSet_def Let_def split: if_splits bind_splits)

lemma internAccessSet_growth:
  assumes nodes: "nodes_ok g" and valid: "valid_input g d c" and r: "internAccessSet g d c = Some (i, g')"
  shows "length (accessSets g') \<le> Suc (length (accessSets g)) \<and>
    length (accessSetItems g') \<le> length (accessSetItems g) + length (sort_unique (d @ concat (map (members g) c))) \<and>
    length (inputKeyItems g') \<le> length (inputKeyItems g) + length d + length c"
proof -
  let ?kd = "canonicaliseAccessSetInput d" and ?kc = "canonicaliseAccessSetInput c"
  let ?all = "d @ concat (map (members g) c)"
  have kc: "\<forall>x \<in> set ?kc. x < length (accessSets g)"
    using valid by (auto simp: valid_input_def list_all_iff)
  have short: "length (sort_unique (?kd @ concat (map (members g) ?kc))) \<le> length (sort_unique ?all)"
    by (rule length_sort_unique_mono) auto
  have keys: "length ?kd + length ?kc \<le> length d + length c"
    using length_canonicalise [of d] length_canonicalise [of c] by simp
  consider "g' = g" | a where "?kd = [a]" "internSingleton g a = Some (i, g')"
    | g0 where "internFlattened g (sort_unique (?kd @ concat (map (members g) ?kc))) = Some (i, g0)"
        "g' = rememberInputKey g0 (hashAccessSetInputKey ?kd ?kc) ?kd ?kc i"
    using r by (auto simp: internAccessSet_def Let_def buildItems_spec [OF nodes kc] length_Suc_conv
        split: if_splits bind_splits option.splits)
  then show ?thesis
  proof cases
    case 2
    then have "a \<in> set ?all" by (metis DiffE Un_iff list.set_intros(1) set_append set_canonicalise)
    then have "1 \<le> length (sort_unique ?all)"
      by (metis One_nat_def Suc_leI length_greater_0_conv list.set(1) empty_iff set_sort_unique)
    with 2 show ?thesis by (auto simp: internSingleton_def Let_def split: if_splits)
  next
    case 3
    from 3(1) have "inputKeyItems g0 = inputKeyItems g"
      by (auto simp: internFlattened_def internSingleton_def appendAccessSet_def Let_def split: if_splits bind_splits)
    with 3 internFlattened_growth [OF 3(1)] short keys show ?thesis
      by (auto simp: rememberInputKey_def Let_def)
  qed simp
qed

section \<open>Flattening\<close>

definition firstSeen :: "'a list \<Rightarrow> 'a list" where
  "firstSeen xs = rev (remdups (rev xs))"

lemma set_firstSeen [simp]: "set (firstSeen xs) = set xs"
  by (simp add: firstSeen_def)

lemma distinct_firstSeen [simp]: "distinct (firstSeen xs)"
  by (simp add: firstSeen_def)

lemma firstSeen_snoc: "firstSeen (xs @ [x]) = (if x \<in> set xs then firstSeen xs else firstSeen xs @ [x])"
  by (simp add: firstSeen_def)

lemma addAccess_pair:
  "addAccess generation a (seen, flattened) =
     (if a = 0 \<or> length seen \<le> a \<or> seen ! a = generation then (seen, flattened)
      else (seen[a := generation], flattened @ [a]))"
  by (simp add: addAccess_def)

lemma fold_addAccess:
  assumes fresh: "\<forall>m \<in> set seen. m \<noteq> generation"
  shows "\<exists>seen'. fold (addAccess generation) xs (seen, [])
      = (seen', firstSeen (filter (\<lambda>a. a \<noteq> 0 \<and> a < length seen) xs)) \<and>
    length seen' = length seen \<and> (\<forall>m \<in> set seen'. m = generation \<or> m \<in> set seen) \<and>
    (\<forall>a < length seen. seen' ! a = generation \<longleftrightarrow> a \<noteq> 0 \<and> a \<in> set xs)"
proof (induction xs rule: rev_induct)
  case Nil
  with fresh show ?case by (auto simp: firstSeen_def dest: nth_mem)
next
  case (snoc x xs)
  then obtain seen' where s: "fold (addAccess generation) xs (seen, [])
      = (seen', firstSeen (filter (\<lambda>a. a \<noteq> 0 \<and> a < length seen) xs))"
    "length seen' = length seen" "\<forall>m \<in> set seen'. m = generation \<or> m \<in> set seen"
    "\<forall>a < length seen. seen' ! a = generation \<longleftrightarrow> a \<noteq> 0 \<and> a \<in> set xs" by auto
  show ?case
  proof (cases "x = 0 \<or> length seen \<le> x \<or> x \<in> set xs")
    case True
    with s show ?thesis by (auto simp: addAccess_pair firstSeen_snoc)
  next
    case False
    with s show ?thesis
      by (auto simp: addAccess_pair firstSeen_snoc nth_list_update dest!: set_update_subset_insert [THEN subsetD])
  qed
qed

lemma those_at: "(\<And>i. i \<in> set is \<Longrightarrow> i < length xs) \<Longrightarrow> those (map (at xs) is) = Some (map ((!) xs) is)"
  by (induction "is") auto

lemma those_slice:
  assumes "first + count \<le> length xs" "first + count \<le> 2 ^ 32"
  shows "those (map (\<lambda>i. at xs (u32 (first + i))) [0..<count]) = Some (take count (drop first xs))"
proof -
  have "those (map (at xs) (map (\<lambda>i. u32 (first + i)) [0..<count])) = Some (map ((!) xs) (map (\<lambda>i. u32 (first + i)) [0..<count]))"
    by (rule those_at) (use assms in \<open>auto simp: u32_def\<close>)
  moreover have "map ((!) xs) (map (\<lambda>i. u32 (first + i)) [0..<count]) = take count (drop first xs)"
    by (rule nth_equalityI) (use assms in \<open>auto simp: u32_def\<close>)
  ultimately show ?thesis by (simp add: comp_def)
qed

lemma edgeItems_members:
  assumes "nodes_ok g"
  shows "edgeItems g c = Some (concat (map (members g) c))"
proof (induction c)
  case (Cons s c)
  with assms show ?case
    by (cases "s = 0"; cases "s < length (accessSets g)") (auto simp: members_def [of g s] those_slice nodes_ok_def)
qed simp

lemma flatten_unfold:
  assumes "enabled g" "nodes_ok g"
    and "generation = (if nextFlattenGeneration g = 0 then 1 else nextFlattenGeneration g)"
    and "seen0 = (if nextFlattenGeneration g = 0 then map (\<lambda>_. 0) (seenAccessGenerations g) else seenAccessGenerations g)"
    and "seen1 = (if length seen0 < length (accesses g) then resize seen0 (length (accesses g)) 0 else seen0)"
    and "fold (addAccess generation) (d @ concat (map (members g) c)) (seen1, []) = (seen, flat)"
    and "those (map (at (accesses g)) flat) = Some paths"
  shows "flatten g d c = Some (paths,
    g\<lparr>seenAccessGenerations := seen, nextFlattenGeneration := u32 (generation + 1)\<rparr>)"
  unfolding flatten_def Let_def using assms(1)
  by (simp only: assms(3-5) [symmetric] edgeItems_members [OF assms(2)] if_False not_True_eq_False bind.bind_lunit
      assms(6) assms(7) prod.case simp_thms)

lemma flatten_correct:
  assumes ok: "graph_ok g" "enabled g"
  shows "\<exists>g'. flatten g d c = Some (map ((!) (accesses g))
      (firstSeen (filter (\<lambda>a. a \<noteq> 0 \<and> a < length (accesses g)) (d @ concat (map (members g) c)))), g')
    \<and> graph_ok g' \<and> extends g g'"
proof -
  note parts = graph_okD [OF ok]
  define gen where "gen = (if nextFlattenGeneration g = 0 then 1 else nextFlattenGeneration g)"
  define seen0 where "seen0 = (if nextFlattenGeneration g = 0 then map (\<lambda>_. 0) (seenAccessGenerations g)
    else seenAccessGenerations g)"
  define seen1 where "seen1 = (if length seen0 < length (accesses g) then resize seen0 (length (accesses g)) 0 else seen0)"
  let ?ids = "d @ concat (map (members g) c)"
  let ?flat = "firstSeen (filter (\<lambda>a. a \<noteq> 0 \<and> a < length (accesses g)) ?ids)"
  have len: "length seen1 = length (accesses g)"
    using parts(7) by (auto simp: marks_ok_def seen1_def seen0_def)
  have "\<forall>m \<in> set seen0. m < gen" and gen: "0 < gen" "gen < 2 ^ 32"
    using parts(7) by (auto simp: marks_ok_def seen0_def gen_def)
  then have below: "\<forall>m \<in> set seen1. m < gen"
    by (auto simp: seen1_def resize_def dest: in_set_takeD)
  then have "\<forall>m \<in> set seen1. m \<noteq> gen" by auto
  from fold_addAccess [OF this, of ?ids] obtain seen' where
    s: "fold (addAccess gen) ?ids (seen1, []) = (seen', ?flat)" "length seen' = length (accesses g)"
      "\<forall>m \<in> set seen'. m = gen \<or> m \<in> set seen1"
    unfolding len by blast
  let ?g' = "g\<lparr>seenAccessGenerations := seen', nextFlattenGeneration := u32 (gen + 1)\<rparr>"
  have "those (map (at (accesses g)) ?flat) = Some (map ((!) (accesses g)) ?flat)"
    by (rule those_at) auto
  from flatten_unfold [OF ok(2) parts(2) gen_def seen0_def seen1_def s(1) this]
  have "flatten g d c = Some (map ((!) (accesses g)) ?flat, ?g')" .
  moreover have "marks_ok ?g'"
  proof (cases "Suc gen < 2 ^ 32")
    case True
    with s(2,3) below show ?thesis by (fastforce simp: marks_ok_def)
  next
    case False
    with gen have "Suc gen = 2 ^ 32" by simp
    with s(2) show ?thesis by (simp add: marks_ok_def u32_def)
  qed
  with parts ok have "graph_ok ?g'"
    by (simp add: graph_ok_def paths_ok_def nodes_ok_def inj_ok_def chains_ok_def singles_ok_def keys_ok_def
        keyDirects_def keyChilds_def unionOf_def)
  ultimately show ?thesis by (auto simp: extends_def)
qed

section \<open>The contract of the graph\<close>

text \<open>
  What the tracking frames rely on: interning is total on usable inputs, returns a known id that
  stands for exactly the union of its inputs, keeps the meaning of every id handed out before, and
  two known ids with the same members are the same id.
\<close>

locale set_interner =
  fixes invar :: "'g \<Rightarrow> bool"
    and known :: "'g \<Rightarrow> nat \<Rightarrow> bool"
    and elems :: "'g \<Rightarrow> nat \<Rightarrow> nat set"
    and usable :: "'g \<Rightarrow> nat list \<Rightarrow> nat list \<Rightarrow> bool"
    and intern :: "'g \<Rightarrow> nat list \<Rightarrow> nat list \<Rightarrow> (nat \<times> 'g) option"
  assumes intern_total: "invar g \<Longrightarrow> usable g d c \<Longrightarrow>
      \<exists>i g'. intern g d c = Some (i, g') \<and> invar g' \<and> known g' i \<and>
        elems g' i = (set d - {0}) \<union> (\<Union>s \<in> set c. elems g s) \<and>
        (\<forall>j. known g j \<longrightarrow> known g' j \<and> elems g' j = elems g j)"
    and canonical: "invar g \<Longrightarrow> known g i \<Longrightarrow> known g j \<Longrightarrow> elems g i = elems g j \<Longrightarrow> i = j"
    and known_empty: "invar g \<Longrightarrow> known g 0 \<and> elems g 0 = {}"
begin

lemma intern_spec:
  assumes "invar g" "usable g d c" "intern g d c = Some (i, g')"
  shows "invar g'" "known g' i" "elems g' i = (set d - {0}) \<union> (\<Union>s \<in> set c. elems g s)"
    "known g j \<Longrightarrow> known g' j \<and> elems g' j = elems g j"
  using intern_total [OF assms(1,2)] assms(3) by auto

lemma intern_empty_iff:
  assumes "invar g" "usable g d c" "intern g d c = Some (i, g')"
  shows "i = 0 \<longleftrightarrow> (set d - {0}) \<union> (\<Union>s \<in> set c. elems g s) = {}"
  using intern_spec [OF assms] canonical [of g' i 0] known_empty [of g'] by auto

lemma intern_same_union:
  assumes g: "invar g" "usable g d c" "intern g d c = Some (i, g')"
    and g': "usable g' d' c'" "intern g' d' c' = Some (j, g'')"
    and same: "(set d' - {0}) \<union> (\<Union>s \<in> set c'. elems g' s) = (set d - {0}) \<union> (\<Union>s \<in> set c. elems g s)"
  shows "j = i"
proof -
  note s = intern_spec [OF g] and s' = intern_spec [OF intern_spec(1) [OF g] g']
  from s'(4) [of i] s(2) have "known g'' i" "elems g'' i = elems g' i" by auto
  with s s' same canonical [of g'' j i] show ?thesis by simp
qed

end

definition issued :: "EvalSourceAccessSetGraph \<Rightarrow> EvalSourceAccessSetId \<Rightarrow> bool" where
  "issued g i \<longleftrightarrow> i < length (accessSets g)"

definition memberSet :: "EvalSourceAccessSetGraph \<Rightarrow> EvalSourceAccessSetId \<Rightarrow> EvalSourceAccessId set" where
  "memberSet g i = set (members g i)"

definition live :: "EvalSourceAccessSetGraph \<Rightarrow> bool" where
  "live g \<longleftrightarrow> graph_ok g \<and> enabled g"

definition publishable :: "EvalSourceAccessSetGraph \<Rightarrow> nat list \<Rightarrow> nat list \<Rightarrow> bool" where
  "publishable g d c \<longleftrightarrow> valid_input g d c \<and> fits g d c"

lemma memberSet_inj:
  assumes "live g" "issued g i" "issued g j" "memberSet g i = memberSet g j"
  shows "i = j"
proof -
  from assms have p: "nodes_ok g" "inj_ok g" by (auto simp: live_def graph_okD)
  with assms have "sorted_wrt (<) (members g i)" "sorted_wrt (<) (members g j)"
    by (auto simp: nodes_ok_def issued_def)
  with assms(4) have "members g i = members g j" by (simp add: memberSet_def strict_sorted_set_eq)
  with p(2) assms show ?thesis by (auto simp: inj_ok_def issued_def)
qed

interpretation acc: set_interner live issued memberSet publishable internAccessSet
proof unfold_locales
  fix g d c assume "live g" "publishable g d c"
  then obtain i g' where "internAccessSet g d c = Some (i, g')" "graph_ok g'" "extends g g'"
      "i < length (accessSets g')" "set (members g' i) = unionOf g d c"
    using internAccessSet_correct [of g d c] by (auto simp: live_def publishable_def)
  then show "\<exists>i g'. internAccessSet g d c = Some (i, g') \<and> live g' \<and> issued g' i \<and>
      memberSet g' i = (set d - {0}) \<union> (\<Union>s \<in> set c. memberSet g s) \<and>
      (\<forall>j. issued g j \<longrightarrow> issued g' j \<and> memberSet g' j = memberSet g j)"
    using \<open>live g\<close> by (auto simp: live_def issued_def memberSet_def unionOf_def extends_def)
qed (auto simp: memberSet_inj live_def issued_def memberSet_def nodes_ok_def dest: graph_okD(2))

section \<open>Properties\<close>

lemma live_enable_new: "live (enable newGraph)"
  using enable_ok [OF newGraph_ok] by (simp add: live_def)

lemma live_internAccess:
  assumes "live g" "length (accesses g) < 2 ^ 32"
  shows "live (snd (internAccess g p))"
proof -
  obtain i g' where r: "internAccess g p = (i, g')" by (cases "internAccess g p")
  with assms internAccess_ok [OF _ _ r] internAccess_frame [OF r] show ?thesis by (simp add: live_def)
qed

text \<open>The graph of the witnesses: the paths \<^verbatim>\<open>a\<close> and \<^verbatim>\<open>b\<close>, with ids 1 and 2.\<close>

definition graph_ab :: EvalSourceAccessSetGraph where
  "graph_ab = snd (internAccess (snd (internAccess (enable newGraph) ''a'')) ''b'')"

lemma live_graph_ab: "live graph_ab"
proof -
  have "live (snd (internAccess (enable newGraph) ''a''))"
    by (rule live_internAccess [OF live_enable_new]) (simp add: enable_def newGraph_def)
  then show ?thesis
    unfolding graph_ab_def by (rule live_internAccess) code_simp
qed

text \<open>
  C15: publishing a frame (\<^verbatim>\<open>internAccessSet\<close>) never reads outside a container and never loops. It
  returns a set id whose members are exactly the direct accesses together with the members of the
  child sets, and every set id issued before keeps its members. The memo, the singleton table and
  the hash chains change the cost only.
\<close>
theorem internAccessSet_exact:
  assumes "live g" "publishable g d c"
  shows "\<exists>i g'. internAccessSet g d c = Some (i, g') \<and> live g' \<and> issued g' i \<and>
    memberSet g' i = (set d - {0}) \<union> (\<Union>s \<in> set c. memberSet g s) \<and>
    (\<forall>j. issued g j \<longrightarrow> issued g' j \<and> memberSet g' j = memberSet g j)"
  using assms by (rule acc.intern_total)

theorem internAccessSet_exact_witness:
  "\<exists>i g'. internAccessSet graph_ab [2, 1, 2] [0] = Some (i, g') \<and> live g' \<and> issued g' i \<and> memberSet g' i = {1, 2}"
proof -
  have "publishable graph_ab [2, 1, 2] [0]" by code_simp
  from internAccessSet_exact [OF live_graph_ab this] show ?thesis
    using acc.known_empty [OF live_graph_ab] by auto
qed

text \<open>
  C18: set ids are canonical. Publishing two inputs with the same union, whatever their order, their
  duplicates and the way the union is spread over direct accesses and child sets, returns one id.
\<close>
theorem internAccessSet_canonical:
  assumes "live g" "publishable g d c" "internAccessSet g d c = Some (i, g')"
    and "publishable g' d' c'" "internAccessSet g' d' c' = Some (j, g'')"
    and "(set d' - {0}) \<union> (\<Union>s \<in> set c'. memberSet g' s) = (set d - {0}) \<union> (\<Union>s \<in> set c. memberSet g s)"
  shows "j = i"
  using assms by (rule acc.intern_same_union)

theorem internAccessSet_canonical_witness:
  "\<exists>i g' g''. internAccessSet graph_ab [2, 1] [] = Some (i, g') \<and> internAccessSet g' [1, 2, 1] [i] = Some (i, g'')"
proof -
  have p: "publishable graph_ab [2, 1] []" by code_simp
  from acc.intern_total [OF live_graph_ab this]
  obtain i g' where r: "internAccessSet graph_ab [2, 1] [] = Some (i, g')" and live': "live g'" by blast
  have i: "i = fst (the (internAccessSet graph_ab [2, 1] []))" and g': "g' = snd (the (internAccessSet graph_ab [2, 1] []))"
    using r by simp_all
  have p': "publishable g' [1, 2, 1] [i]" unfolding i g' by code_simp
  from acc.intern_total [OF live' this]
  obtain j g'' where r': "internAccessSet g' [1, 2, 1] [i] = Some (j, g'')" by blast
  have "memberSet g' i = {1, 2}"
    using acc.intern_spec(3) [OF live_graph_ab p r] by auto
  then have "j = i"
    by (intro internAccessSet_canonical [OF live_graph_ab p r p' r']) auto
  with r r' show ?thesis by blast
qed

text \<open>
  C6: interning a path gives it a nonzero id that \<^verbatim>\<open>access\<close> maps back to the path, and asking
  again, now or after interning another path, gives the same id; two paths never share an id.
\<close>
theorem internAccess_roundtrip:
  assumes "live g" "length (accesses g) + 1 < 2 ^ 32"
    and "internAccess g p = (i, g')" "internAccess g' q = (j, g'')"
  shows "i \<noteq> 0 \<and> access g'' i = p \<and> access g'' j = q \<and> internAccess g'' p = (i, g'') \<and> (i = j \<longleftrightarrow> p = q)"
proof -
  from assms(1,2) have r: "graph_ok g" "enabled g" "length (accesses g) < 2 ^ 32" by (auto simp: live_def)
  note i = internAccess_id [OF r assms(3)]
  from assms(3) have len: "length (accesses g') \<le> length (accesses g) + 1"
    by (auto simp: internAccess_def Let_def split: if_splits option.splits)
  from r assms(3) internAccess_ok [OF r(1,3) assms(3)] internAccess_frame [OF assms(3)]
  have ok': "graph_ok g'" "enabled g'" by auto
  with assms(2) len have j: "0 < j" "j < length (accesses g'')" "accesses g'' ! j = q" "access g'' j = q" "accessIds g'' q = Some j"
    using internAccess_id [OF ok' _ assms(4)] by auto
  from internAccess_frame [OF assms(4)] ok' obtain new where new: "accesses g'' = accesses g' @ new" "enabled g''" by auto
  have "graph_ok g''" using internAccess_ok [OF ok'(1) _ assms(4)] len assms(2) by simp
  then have "paths_ok g''" using new by (simp add: graph_okD)
  moreover from i new have "i < length (accesses g'')" "accesses g'' ! i = p" by (auto simp: nth_append)
  ultimately have ids: "accessIds g'' p = Some i" using i by (auto simp: paths_ok_def)
  then have "internAccess g'' p = (i, g'')" using new by (simp add: internAccess_def)
  moreover have "access g'' i = p" using i new by (auto simp: access_def nth_append)
  ultimately show ?thesis using i j ids by auto
qed

theorem internAccess_roundtrip_witness:
  "access (snd (internAccess (snd (internAccess graph_ab ''c'')) ''d'')) 3 = ''c''"
proof -
  have "length (accesses graph_ab) + 1 < 2 ^ 32" by code_simp
  moreover have "fst (internAccess graph_ab ''c'') = 3" by code_simp
  ultimately show ?thesis
    using internAccess_roundtrip [OF live_graph_ab _ prod.collapse [symmetric] prod.collapse [symmetric],
        of "''c''" "''d''"] by simp
qed

text \<open>
  C19: \<^verbatim>\<open>flatten\<close> resolves direct accesses and set ids to paths, each path once, in first-seen order,
  for any state of the generation marks, also when the 32-bit generation counter has wrapped; it
  leaves the graph's sets and paths as they were.
\<close>
theorem flatten_first_seen:
  assumes "live g"
  shows "\<exists>g'. flatten g d c = Some (map ((!) (accesses g))
      (firstSeen (filter (\<lambda>a. a \<noteq> 0 \<and> a < length (accesses g)) (d @ concat (map (members g) c)))), g')
    \<and> live g' \<and> accesses g' = accesses g \<and> (\<forall>j. issued g j \<longrightarrow> memberSet g' j = memberSet g j)"
  using flatten_correct [of g d c] assms by (auto simp: live_def extends_def issued_def memberSet_def)

theorem flatten_first_seen_witness:
  "\<exists>g'. flatten graph_ab [2, 1, 2, 7] [0] = Some ([''b'', ''a''], g')"
proof -
  have "map ((!) (accesses graph_ab))
      (firstSeen (filter (\<lambda>a. a \<noteq> 0 \<and> a < length (accesses graph_ab)) ([2, 1, 2, 7] @ concat (map (members graph_ab) [0]))))
    = [''b'', ''a'']" by code_simp
  with flatten_first_seen [OF live_graph_ab, of "[2, 1, 2, 7]" "[0]"] show ?thesis by auto
qed

text \<open>
  C20: the item array is indexed with 32 bits and nothing checks its size. Once it holds \<open>2 ^ 32\<close> ids,
  the next new set is stored with offset 0, so that its id stands for the oldest ids of the array and
  not for the set that was published.
\<close>
theorem appendAccessSet_wraps:
  assumes "length (accessSetItems g) = 2 ^ 32" "length items \<le> 2 ^ 32" "length items < 2 ^ 32"
    and "length (accessSets g) < 2 ^ 32"
  shows "members (snd (appendAccessSet g h items)) (fst (appendAccessSet g h items))
    = take (length items) (accessSetItems g)"
  using assms by (simp add: appendAccessSet_def Let_def members_def u32_def)

theorem appendAccessSet_wraps_witness:
  "members (snd (appendAccessSet (newGraph\<lparr>accessSetItems := replicate (2 ^ 32) 5\<rparr>) 0 [1, 2]))
     (fst (appendAccessSet (newGraph\<lparr>accessSetItems := replicate (2 ^ 32) 5\<rparr>) 0 [1, 2])) = [5, 5]"
proof -
  have "length (accessSetItems (newGraph\<lparr>accessSetItems := replicate (2 ^ 32) 5\<rparr>)) = 2 ^ 32"
    "length (accessSets (newGraph\<lparr>accessSetItems := replicate (2 ^ 32) 5\<rparr>)) < 2 ^ 32"
    by (simp_all add: newGraph_def)
  moreover have "take 2 (replicate (2 ^ 32) (5::nat)) = replicate 2 5"
    unfolding take_replicate by simp
  moreover have "replicate 2 (5::nat) = [5, 5]" by code_simp
  ultimately show ?thesis using appendAccessSet_wraps [of _ "[1, 2]" 0] by simp
qed

end
