(* ===== verification/Value_Labels.thy ===== *)
theory Value_Labels
  imports Tx_Prelude
begin

text \<open>
  The two-level sparse table that holds a value's source-dependency label outside the value
  (\<^verbatim>\<open>value-hooks.hh\<close>, \<^verbatim>\<open>source-deps.cc\<close>): a directory of \<open>2 ^ 16\<close> chunk pointers indexed by the top
  address bits, each chunk with one 32-bit slot per 16-byte value cell. A value is its address. The
  theory shows that the table behaves as a map from value cells to labels whose default is the empty
  label, and states that as the contract the tracking code uses.
\<close>

section \<open>Data and operations\<close>

type_synonym address = nat
type_synonym chunk = "nat \<Rightarrow> nat"

type_synonym value_labels = "nat \<Rightarrow> chunk option"

definition tecnixValueLabelDirSize :: nat where
  "tecnixValueLabelDirSize = 2 ^ 16"

definition emptyLabels :: value_labels where
  "emptyLabels = (\<lambda>_. None)"

definition labelDirIndex :: "address \<Rightarrow> nat" where
  "labelDirIndex addr = addr div 2 ^ 32"

definition labelSlot :: "address \<Rightarrow> nat" where
  "labelSlot addr = (addr mod 2 ^ 32) div 16"

text \<open>The compare-exchange: an existing chunk wins, otherwise a zeroed chunk is installed.\<close>

definition tecnixInstallValueLabelChunk :: "value_labels \<Rightarrow> nat \<Rightarrow> chunk \<times> value_labels" where
  "tecnixInstallValueLabelChunk dir i =
     (case dir i of
        Some c \<Rightarrow> (c, dir)
      | None \<Rightarrow> (\<lambda>_. 0, dir(i \<mapsto> (\<lambda>_. 0))))"

definition tecnixValueLabelLoad :: "value_labels \<Rightarrow> address \<Rightarrow> nat" where
  "tecnixValueLabelLoad dir addr =
     (if tecnixValueLabelDirSize \<le> labelDirIndex addr then 0
      else case dir (labelDirIndex addr) of
        None \<Rightarrow> 0
      | Some c \<Rightarrow> c (labelSlot addr))"

text \<open>Storing a label for an address that the directory does not cover aborts the process.\<close>

definition tecnixValueLabelStore :: "value_labels \<Rightarrow> address \<Rightarrow> nat \<Rightarrow> value_labels option" where
  "tecnixValueLabelStore dir addr accessSet =
     (if tecnixValueLabelDirSize \<le> labelDirIndex addr then (if accessSet \<noteq> 0 then None else Some dir)
      else case dir (labelDirIndex addr) of
        None \<Rightarrow>
          (if accessSet = 0 then Some dir
           else
             (let (c, dir') = tecnixInstallValueLabelChunk dir (labelDirIndex addr)
              in Some (dir'(labelDirIndex addr \<mapsto> c(labelSlot addr := accessSet)))))
      | Some c \<Rightarrow> Some (dir(labelDirIndex addr \<mapsto> c(labelSlot addr := accessSet))))"

definition tecnixValueLabelClear :: "value_labels \<Rightarrow> address \<Rightarrow> value_labels" where
  "tecnixValueLabelClear dir addr =
     (if tecnixValueLabelDirSize \<le> labelDirIndex addr then dir
      else case dir (labelDirIndex addr) of
        None \<Rightarrow> dir
      | Some c \<Rightarrow>
          (if c (labelSlot addr) \<noteq> 0 then dir(labelDirIndex addr \<mapsto> c(labelSlot addr := 0)) else dir))"

section \<open>The table is a map\<close>

text \<open>The addresses values live at: 16-byte aligned, in the 48-bit address space.\<close>

definition value_cell :: "address \<Rightarrow> bool" where
  "value_cell addr \<longleftrightarrow> addr mod 16 = 0 \<and> addr < 2 ^ 48"

lemma cell_covered: "value_cell a \<Longrightarrow> labelDirIndex a < tecnixValueLabelDirSize"
  by (simp add: value_cell_def labelDirIndex_def tecnixValueLabelDirSize_def div_less_iff_less_mult)

lemma cell_slot_inj:
  assumes "value_cell a" "value_cell b" "labelDirIndex a = labelDirIndex b" "labelSlot a = labelSlot b"
  shows "a = b"
proof -
  have split: "x = x div 2 ^ 32 * 2 ^ 32 + (x mod 2 ^ 32) div 16 * 16" if "x mod 16 = 0" for x :: nat
  proof -
    have "(x mod 2 ^ 32) mod 16 = x mod 16" by (rule mod_mod_cancel) simp
    with that have "(x mod 2 ^ 32) div 16 * 16 = x mod 2 ^ 32"
      by (metis add.right_neutral div_mult_mod_eq)
    then show ?thesis using div_mult_mod_eq [of x "2 ^ 32"] by simp
  qed
  from assms split [of a] split [of b] show ?thesis
    by (simp add: value_cell_def labelDirIndex_def labelSlot_def)
qed

locale label_table =
  fixes cell :: "nat \<Rightarrow> bool"
    and load :: "'t \<Rightarrow> nat \<Rightarrow> nat"
    and store :: "'t \<Rightarrow> nat \<Rightarrow> nat \<Rightarrow> 't option"
    and clear :: "'t \<Rightarrow> nat \<Rightarrow> 't"
  assumes store_total: "cell a \<Longrightarrow> \<exists>t'. store t a v = Some t'"
    and load_store: "store t a v = Some t' \<Longrightarrow> cell a \<Longrightarrow> cell b \<Longrightarrow> load t' b = (if b = a then v else load t b)"
    and load_clear: "cell a \<Longrightarrow> cell b \<Longrightarrow> load (clear t a) b = (if b = a then 0 else load t b)"
begin

lemma store_load: "cell a \<Longrightarrow> \<exists>t'. store t a v = Some t' \<and> (\<forall>b. cell b \<longrightarrow> load t' b = (if b = a then v else load t b))"
  using store_total [of a t v] load_store by blast

lemma clear_store:
  assumes "cell a" "store (clear t a) a v = Some t'" "cell b"
  shows "load t' b = (if b = a then v else load t b)"
  using assms load_store load_clear by simp

end

interpretation lab: label_table value_cell tecnixValueLabelLoad tecnixValueLabelStore tecnixValueLabelClear
proof unfold_locales
  fix a t v assume "value_cell a"
  then show "\<exists>t'. tecnixValueLabelStore t a v = Some t'"
    using cell_covered [of a] by (auto simp: tecnixValueLabelStore_def split_def Let_def split: option.splits)
next
  fix t a v t' b
  assume st: "tecnixValueLabelStore t a v = Some t'" and c: "value_cell a" "value_cell b"
  note cov = cell_covered [OF c(1)] cell_covered [OF c(2)]
  show "tecnixValueLabelLoad t' b = (if b = a then v else tecnixValueLabelLoad t b)"
    using st cov cell_slot_inj [OF c]
    by (auto simp: tecnixValueLabelStore_def tecnixValueLabelLoad_def tecnixInstallValueLabelChunk_def
        split: option.splits if_splits)
next
  fix a b t assume c: "value_cell a" "value_cell b"
  note cov = cell_covered [OF c(1)] cell_covered [OF c(2)]
  show "tecnixValueLabelLoad (tecnixValueLabelClear t a) b = (if b = a then 0 else tecnixValueLabelLoad t b)"
    using cov cell_slot_inj [OF c]
    by (auto simp: tecnixValueLabelClear_def tecnixValueLabelLoad_def split: option.splits)
qed

section \<open>Properties\<close>

text \<open>
  A label stored for a value cell is the one read back, and storing it changes the label of no
  other value cell, whichever chunks exist; the store never aborts on an address a value can have.
\<close>
theorem value_label_store_load:
  assumes "value_cell a"
  shows "\<exists>t'. tecnixValueLabelStore t a v = Some t' \<and>
    (\<forall>b. value_cell b \<longrightarrow> tecnixValueLabelLoad t' b = (if b = a then v else tecnixValueLabelLoad t b))"
  using assms by (rule lab.store_load)

theorem value_label_store_load_witness:
  "\<exists>t'. tecnixValueLabelStore emptyLabels 4294967328 7 = Some t' \<and>
     tecnixValueLabelLoad t' 4294967328 = 7 \<and> tecnixValueLabelLoad t' 32 = 0"
proof -
  have c: "value_cell 4294967328" "value_cell 32" by code_simp+
  moreover have "tecnixValueLabelLoad emptyLabels 32 = 0" by code_simp
  ultimately show ?thesis using value_label_store_load [OF c(1), of emptyLabels 7] by auto
qed

end
