(* ===== verification/Source_Deps.thy ===== *)
theory Source_Deps
  imports Access_Graph Value_Labels
begin

text \<open>
  Source-dependency tracking (\<^verbatim>\<open>source-deps.cc\<close>, \<^verbatim>\<open>force-value.hh\<close>, \<^verbatim>\<open>value-hooks.hh\<close>): frames, tracking
  contexts, scopes, and the hooks by which a finished value is labelled with the set of paths its
  production observed. Frames and contexts are objects with an address: the state holds them in two
  lists and a pointer is an index. The evaluator itself appears as a tree of actions, each of which
  is one call the evaluator makes into the tracking code; the theory shows that running a tree through
  the optimised implementation (watermarks on shared stacks, interned ids, labels outside values)
  labels every value with exactly the paths the plain set semantics of the tree assigns to it.
\<close>

section \<open>Data\<close>

record TrackedSourceDepsFrame =
  fr_trackingCtx :: nat
  fr_value :: "address option"
  fr_accessBase :: nat
  fr_childBase :: nat
  fr_accessSet :: EvalSourceAccessSetId
  fr_previous :: "nat option"
  fr_nearestValueForceFrame :: "nat option"
  fr_published :: bool

record TrackingContext =
  frameAccessStack :: "EvalSourceAccessId list"
  frameChildStack :: "EvalSourceAccessSetId list"
  rootFrame :: nat

record TecnixThreadState =
  ts_trackingContext :: "nat option"
  ts_sourceDepsFrame :: "nat option"
  ts_valueDependencyPublishValue :: "address option"

datatype cell_state = Uninit | Thunk | Pending | Finished | Failed

record tracker =
  graph :: EvalSourceAccessSetGraph
  labels :: value_labels
  contexts :: "TrackingContext list"
  frames :: "TrackedSourceDepsFrame list"
  thread :: TecnixThreadState
  cells :: "address \<Rightarrow> cell_state"

definition ctxOf :: "tracker \<Rightarrow> nat \<Rightarrow> TrackingContext" where
  "ctxOf s f = contexts s ! fr_trackingCtx (frames s ! f)"

definition setCtx :: "tracker \<Rightarrow> nat \<Rightarrow> (TrackingContext \<Rightarrow> TrackingContext) \<Rightarrow> tracker" where
  "setCtx s c upd = s\<lparr>contexts := (contexts s)[c := upd (contexts s ! c)]\<rparr>"

definition setFrame :: "tracker \<Rightarrow> nat \<Rightarrow> (TrackedSourceDepsFrame \<Rightarrow> TrackedSourceDepsFrame) \<Rightarrow> tracker" where
  "setFrame s f upd = s\<lparr>frames := (frames s)[f := upd (frames s ! f)]\<rparr>"

section \<open>Frames\<close>

definition newFrame :: "tracker \<Rightarrow> nat \<Rightarrow> address option \<Rightarrow> nat option \<Rightarrow> nat \<times> tracker" where
  "newFrame s c v prev =
     (let f = length (frames s)
      in (f, s\<lparr>frames := frames s @
           [\<lparr>fr_trackingCtx = c, fr_value = v,
             fr_accessBase = u32 (length (frameAccessStack (contexts s ! c))),
             fr_childBase = u32 (length (frameChildStack (contexts s ! c))),
             fr_accessSet = 0, fr_previous = prev,
             fr_nearestValueForceFrame =
               (if v \<noteq> None then Some f
                else case prev of Some p \<Rightarrow> fr_nearestValueForceFrame (frames s ! p) | None \<Rightarrow> None),
             fr_published = False\<rparr>]\<rparr>))"

definition directSourceAccessSetAccesses :: "tracker \<Rightarrow> nat \<Rightarrow> EvalSourceAccessId list" where
  "directSourceAccessSetAccesses s f =
     (let ids = frameAccessStack (ctxOf s f)
      in if length ids \<le> fr_accessBase (frames s ! f) then [] else drop (fr_accessBase (frames s ! f)) ids)"

definition childSourceAccessSets :: "tracker \<Rightarrow> nat \<Rightarrow> EvalSourceAccessSetId list" where
  "childSourceAccessSets s f =
     (let ids = frameChildStack (ctxOf s f)
      in if length ids \<le> fr_childBase (frames s ! f) then [] else drop (fr_childBase (frames s ! f)) ids)"

definition addFrameAccess :: "tracker \<Rightarrow> nat \<Rightarrow> EvalSourceAccessId \<Rightarrow> tracker" where
  "addFrameAccess s f a =
     (if a = 0 then s
      else
        (let ids = frameAccessStack (ctxOf s f)
         in if fr_accessBase (frames s ! f) < length ids \<and> last ids = a then s
            else setCtx s (fr_trackingCtx (frames s ! f)) (frameAccessStack_update (\<lambda>xs. xs @ [a]))))"

definition addFrameChild :: "tracker \<Rightarrow> nat \<Rightarrow> EvalSourceAccessSetId \<Rightarrow> tracker" where
  "addFrameChild s f child =
     (if child = 0 then s
      else
        (let ids = frameChildStack (ctxOf s f)
         in if fr_childBase (frames s ! f) < length ids \<and> last ids = child then s
            else setCtx s (fr_trackingCtx (frames s ! f)) (frameChildStack_update (\<lambda>xs. xs @ [child]))))"

definition addToCurrentFrame :: "tracker \<Rightarrow> nat \<Rightarrow> EvalSourceAccessSetId \<Rightarrow> tracker" where
  "addToCurrentFrame s c accessSet =
     (if accessSet = 0 then s
      else case ts_sourceDepsFrame (thread s) of
        Some f \<Rightarrow> addFrameChild s f accessSet
      | None \<Rightarrow> addFrameChild s (rootFrame (contexts s ! c)) accessSet)"

definition frameHasSourceDeps :: "tracker \<Rightarrow> nat \<Rightarrow> bool" where
  "frameHasSourceDeps s f \<longleftrightarrow>
     fr_accessBase (frames s ! f) < length (frameAccessStack (ctxOf s f)) \<or>
     fr_childBase (frames s ! f) < length (frameChildStack (ctxOf s f))"

definition internFrameAccessSet :: "tracker \<Rightarrow> nat \<Rightarrow> (EvalSourceAccessSetId \<times> tracker) option" where
  "internFrameAccessSet s f =
     (if \<not> frameHasSourceDeps s f then Some (0, s)
      else do {
        (i, g) \<leftarrow> internAccessSet (graph s) (directSourceAccessSetAccesses s f) (childSourceAccessSets s f);
        Some (i, s\<lparr>graph := g\<rparr>)
      })"

definition truncateFrame :: "tracker \<Rightarrow> nat \<Rightarrow> tracker" where
  "truncateFrame s f =
     setCtx s (fr_trackingCtx (frames s ! f))
       (\<lambda>ctx. ctx\<lparr>frameAccessStack :=
                    (if fr_accessBase (frames s ! f) < length (frameAccessStack ctx)
                     then take (fr_accessBase (frames s ! f)) (frameAccessStack ctx) else frameAccessStack ctx),
                 frameChildStack :=
                    (if fr_childBase (frames s ! f) < length (frameChildStack ctx)
                     then take (fr_childBase (frames s ! f)) (frameChildStack ctx) else frameChildStack ctx)\<rparr>)"

definition collapseFrameToAccessSet :: "tracker \<Rightarrow> nat \<Rightarrow> EvalSourceAccessSetId \<Rightarrow> tracker" where
  "collapseFrameToAccessSet s f accessSet =
     (let s1 = truncateFrame s f;
          parent = (case fr_previous (frames s ! f) of Some p \<Rightarrow> p | None \<Rightarrow> rootFrame (ctxOf s f));
          s2 = (if accessSet \<noteq> 0
                then (if parent \<noteq> f then addFrameChild s1 parent accessSet else addFrameChild s1 f accessSet)
                else s1)
      in setFrame s2 f
           (\<lambda>fr. fr\<lparr>fr_accessBase := u32 (length (frameAccessStack (ctxOf s2 f))),
                    fr_childBase := u32 (length (frameChildStack (ctxOf s2 f)))\<rparr>))"

definition mergeUnpublishedTrackedSourceDepsFrame :: "tracker \<Rightarrow> nat \<Rightarrow> tracker" where
  "mergeUnpublishedTrackedSourceDepsFrame s f =
     (if \<not> fr_published (frames s ! f) then s else truncateFrame s f)"

section \<open>Recording\<close>

definition recordTrackedSourceAccessSetAccess :: "tracker \<Rightarrow> EvalSourceAccessId \<Rightarrow> tracker" where
  "recordTrackedSourceAccessSetAccess s a =
     (if a = 0 then s
      else case ts_sourceDepsFrame (thread s) of Some f \<Rightarrow> addFrameAccess s f a | None \<Rightarrow> s)"

definition recordTrackedSourceAccessSetDependency :: "tracker \<Rightarrow> nat \<Rightarrow> EvalSourceAccessSetId \<Rightarrow> tracker" where
  "recordTrackedSourceAccessSetDependency s c accessSet = addToCurrentFrame s c accessSet"

definition recordAccess :: "tracker \<Rightarrow> bytes \<Rightarrow> tracker" where
  "recordAccess s path =
     (let (a, g) = internAccess (graph s) path
      in recordTrackedSourceAccessSetAccess (s\<lparr>graph := g\<rparr>) a)"

section \<open>Publishing\<close>

definition trackedSourceAccessSet :: "tracker \<Rightarrow> address \<Rightarrow> EvalSourceAccessSetId" where
  "trackedSourceAccessSet s v = tecnixValueLabelLoad (labels s) v"

definition setTrackedSourceAccessSet :: "tracker \<Rightarrow> address \<Rightarrow> EvalSourceAccessSetId \<Rightarrow> tracker option" where
  "setTrackedSourceAccessSet s v accessSet =
     map_option (\<lambda>l. s\<lparr>labels := l\<rparr>) (tecnixValueLabelStore (labels s) v accessSet)"

definition publishTrackedSourceAccessSetDependencies ::
  "tracker \<Rightarrow> address \<Rightarrow> EvalSourceAccessId list \<Rightarrow> EvalSourceAccessSetId list
     \<Rightarrow> (EvalSourceAccessSetId \<times> tracker) option" where
  "publishTrackedSourceAccessSetDependencies s v directAccesses children =
     do {
       (accessSet, g) \<leftarrow> internAccessSet (graph s) directAccesses children;
       s' \<leftarrow> (if accessSet \<noteq> 0 then setTrackedSourceAccessSet (s\<lparr>graph := g\<rparr>) v accessSet
               else Some (s\<lparr>graph := g\<rparr>));
       Some (accessSet, s')
     }"

definition currentTrackedValueForceFrame :: "tracker \<Rightarrow> address \<Rightarrow> nat option" where
  "currentTrackedValueForceFrame s v =
     (case ts_sourceDepsFrame (thread s) of
        None \<Rightarrow> None
      | Some f \<Rightarrow>
          (case fr_nearestValueForceFrame (frames s ! f) of
             None \<Rightarrow> None
           | Some vf \<Rightarrow> if fr_value (frames s ! vf) \<noteq> Some v then None else Some vf))"

definition publishTrackedValueDependencies :: "tracker \<Rightarrow> address \<Rightarrow> tracker option" where
  "publishTrackedValueDependencies s v =
     (case currentTrackedValueForceFrame s v of
        None \<Rightarrow> Some s
      | Some f \<Rightarrow>
          (if fr_published (frames s ! f) then Some s
           else
             (let directAccesses = directSourceAccessSetAccesses s f;
                  children = childSourceAccessSets s f
              in if directAccesses = [] \<and> children = []
                 then Some (setFrame s f (\<lambda>fr. fr\<lparr>fr_published := True\<rparr>))
                 else do {
                   (accessSet, s1) \<leftarrow>
                     (if directAccesses = [] \<and> length children = 1
                      then (if hd children \<noteq> 0
                            then map_option (\<lambda>s1. (hd children, s1)) (setTrackedSourceAccessSet s v (hd children))
                            else Some (hd children, s))
                      else publishTrackedSourceAccessSetDependencies s v directAccesses children);
                   Some (setFrame (collapseFrameToAccessSet s1 f accessSet) f
                           (\<lambda>fr. fr\<lparr>fr_accessSet := accessSet, fr_published := True\<rparr>))
                 })))"

text \<open>\<^verbatim>\<open>ValueStorage::finish\<close>: the hook runs before the cell's new contents become visible.\<close>

definition tecnixValueFinishHook :: "tracker \<Rightarrow> address \<Rightarrow> tracker option" where
  "tecnixValueFinishHook s v =
     (let s1 = s\<lparr>labels := tecnixValueLabelClear (labels s) v\<rparr>
      in if ts_valueDependencyPublishValue (thread s1) = Some v
         then publishTrackedValueDependencies s1 v else Some s1)"

definition finishValue :: "tracker \<Rightarrow> address \<Rightarrow> cell_state \<Rightarrow> tracker option" where
  "finishValue s v st =
     do {
       s1 \<leftarrow> tecnixValueFinishHook s v;
       (if cells s1 v = Thunk then None else Some (s1\<lparr>cells := (cells s1)(v := st)\<rparr>))
     }"

definition copyTrackedValueDependencies :: "tracker \<Rightarrow> address \<Rightarrow> address \<Rightarrow> tracker" where
  "copyTrackedValueDependencies s dst src =
     (if ts_trackingContext (thread s) = None \<or> dst = src then s
      else case currentTrackedValueForceFrame s dst of
        None \<Rightarrow> s
      | Some f \<Rightarrow> addFrameChild s f (trackedSourceAccessSet s src))"

definition publishCopiedValueDependencies :: "tracker \<Rightarrow> address \<Rightarrow> address \<Rightarrow> tracker option" where
  "publishCopiedValueDependencies s dst src =
     (if ts_trackingContext (thread s) = None \<or> dst = src then Some s
      else if currentTrackedValueForceFrame s dst \<noteq> None then Some s
      else if trackedSourceAccessSet s src = 0 then Some s
      else map_option snd (publishTrackedSourceAccessSetDependencies s dst [] [trackedSourceAccessSet s src]))"

text \<open>\<^verbatim>\<open>ValueStorage::operator=\<close>; copying an unfinished value is \<^verbatim>\<open>unreachable()\<close>.\<close>

definition copyValue :: "tracker \<Rightarrow> address \<Rightarrow> address \<Rightarrow> tracker option" where
  "copyValue s dst src =
     (if cells s src \<in> {Thunk, Pending} then None
      else do {
        s1 \<leftarrow> finishValue (copyTrackedValueDependencies s dst src) dst (cells s src);
        publishCopiedValueDependencies s1 dst src
      })"

section \<open>Contexts and scopes\<close>

definition newTrackingContext :: "tracker \<Rightarrow> nat \<times> tracker" where
  "newTrackingContext s =
     (let c = length (contexts s);
          s1 = s\<lparr>contexts := contexts s @ [\<lparr>frameAccessStack = [], frameChildStack = [], rootFrame = length (frames s)\<rparr>]\<rparr>;
          (f, s2) = newFrame s1 c None None
      in (c, s2\<lparr>graph := enable (graph s2)\<rparr>))"

definition enterTrackingContext :: "tracker \<Rightarrow> nat \<Rightarrow> tracker" where
  "enterTrackingContext s c =
     s\<lparr>thread := (thread s)\<lparr>ts_trackingContext := Some c, ts_sourceDepsFrame := Some (rootFrame (contexts s ! c))\<rparr>\<rparr>"

definition leaveTrackingContext :: "tracker \<Rightarrow> nat \<Rightarrow> nat option \<Rightarrow> nat option \<Rightarrow> tracker" where
  "leaveTrackingContext s c previousTrackingCtx previousFrame =
     s\<lparr>thread := (thread s)\<lparr>
         ts_sourceDepsFrame :=
           (if ts_sourceDepsFrame (thread s) = Some (rootFrame (contexts s ! c)) then previousFrame
            else ts_sourceDepsFrame (thread s)),
         ts_trackingContext := previousTrackingCtx\<rparr>\<rparr>"

definition setCurrentFrame :: "tracker \<Rightarrow> nat option \<Rightarrow> tracker" where
  "setCurrentFrame s f = s\<lparr>thread := (thread s)\<lparr>ts_sourceDepsFrame := f\<rparr>\<rparr>"

definition openScope :: "tracker \<Rightarrow> nat \<Rightarrow> nat \<times> tracker" where
  "openScope s c =
     (let (f, s1) = newFrame s c None (ts_sourceDepsFrame (thread s))
      in (f, setCurrentFrame s1 (Some f)))"

definition finishScope ::
  "tracker \<Rightarrow> nat \<Rightarrow> nat option \<Rightarrow> address option \<Rightarrow> (EvalSourceAccessSetId \<times> tracker) option" where
  "finishScope s f previousFrame publishValue =
     (if fr_published (frames s ! f) then Some (fr_accessSet (frames s ! f), s)
      else
        (let s1 = (if ts_sourceDepsFrame (thread s) = Some f then setCurrentFrame s previousFrame else s)
         in do {
              (accessSet, s2) \<leftarrow> internFrameAccessSet s1 f;
              let s3 = collapseFrameToAccessSet (setFrame s2 f (fr_accessSet_update (\<lambda>_. accessSet))) f accessSet;
              s4 \<leftarrow> (case publishValue of
                        Some v \<Rightarrow> if accessSet \<noteq> 0 then setTrackedSourceAccessSet s3 v accessSet else Some s3
                      | None \<Rightarrow> Some s3);
              Some (accessSet, setFrame s4 f (fr_published_update (\<lambda>_. True)))
            }))"

definition closeScope :: "tracker \<Rightarrow> nat \<Rightarrow> nat option \<Rightarrow> tracker" where
  "closeScope s f previousFrame =
     mergeUnpublishedTrackedSourceDepsFrame
       (if ts_sourceDepsFrame (thread s) = Some f then setCurrentFrame s previousFrame else s) f"

section \<open>Forcing\<close>

text \<open>
  \<^verbatim>\<open>ValueStorage::force\<close> on one thread. The continuation \<open>body\<close> is the evaluation of the thunk; the flag
  of a result says that an exception was thrown. A throwing evaluation leaves a failed value, which
  is finished like any other; forcing a value that is being evaluated is an infinite recursion.
\<close>

definition valueForce ::
  "(tracker \<Rightarrow> (tracker \<times> bool) option) \<Rightarrow> tracker \<Rightarrow> address \<Rightarrow> (tracker \<times> bool) option" where
  "valueForce body s v =
     (case cells s v of
        Thunk \<Rightarrow> do {
          (s1, threw) \<leftarrow> body (s\<lparr>cells := (cells s)(v := Pending)\<rparr>);
          (if threw then map_option (\<lambda>s2. (s2, True)) (finishValue s1 v Failed) else Some (s1, False))
        }
      | Pending \<Rightarrow> Some (s, True)
      | Finished \<Rightarrow> Some (s, False)
      | Failed \<Rightarrow> Some (s, True)
      | Uninit \<Rightarrow> Some (s, False))"

definition recordPublishedDependencies :: "tracker \<Rightarrow> nat \<Rightarrow> address \<Rightarrow> tracker" where
  "recordPublishedDependencies s c v =
     (if trackedSourceAccessSet s v \<noteq> 0
      then recordTrackedSourceAccessSetDependency s c (trackedSourceAccessSet s v) else s)"

definition forceValueTracked ::
  "(tracker \<Rightarrow> (tracker \<times> bool) option) \<Rightarrow> tracker \<Rightarrow> nat \<Rightarrow> address \<Rightarrow> (tracker \<times> bool) option" where
  "forceValueTracked body s c v =
     (if cells s v \<in> {Finished, Failed}
      then (let s1 = recordPublishedDependencies s c v
            in if cells s v = Failed then valueForce body s1 v else Some (s1, False))
      else if cells s v \<noteq> Thunk
      then do {
        (s1, threw) \<leftarrow> valueForce body s v;
        Some (if threw then s1 else recordPublishedDependencies s1 c v, threw)
      }
      else
        (let previousFrame = ts_sourceDepsFrame (thread s);
             previousPublishValue = ts_valueDependencyPublishValue (thread s);
             (f, s1) = newFrame s c (Some v) previousFrame;
             s2 = s1\<lparr>thread := (thread s1)\<lparr>ts_sourceDepsFrame := Some f, ts_valueDependencyPublishValue := Some v\<rparr>\<rparr>
         in do {
              (s3, threw) \<leftarrow> valueForce body s2 v;
              let s4 = (if \<not> threw \<and> \<not> fr_published (frames s3 ! f) then recordPublishedDependencies s3 c v else s3);
              let s5 = s4\<lparr>thread := (thread s4)\<lparr>ts_sourceDepsFrame := previousFrame,
                                               ts_valueDependencyPublishValue := previousPublishValue\<rparr>\<rparr>;
              Some (mergeUnpublishedTrackedSourceDepsFrame s5 f, threw)
            }))"

definition forceValue ::
  "(tracker \<Rightarrow> (tracker \<times> bool) option) \<Rightarrow> tracker \<Rightarrow> address \<Rightarrow> (tracker \<times> bool) option" where
  "forceValue body s v =
     (case ts_trackingContext (thread s) of
        None \<Rightarrow> valueForce body s v
      | Some c \<Rightarrow> forceValueTracked body s c v)"

section \<open>The evaluator as a tree of tracking actions\<close>

text \<open>
  \<^item> \<open>Read p\<close>: a source accessor observes \<open>p\<close> (\<^verbatim>\<open>TrackingContext::recordAccess\<close>);
  \<^item> \<open>Force v body tail\<close>: \<^verbatim>\<open>forceValue\<close> on \<open>v\<close>; if \<open>v\<close> is still a thunk its evaluation does \<open>body\<close> and then
    finishes \<open>v\<close>, either with a fresh value or as a copy of the value \<open>tail\<close> names;
  \<^item> \<open>Scope body\<close>: a \<^verbatim>\<open>TrackedSourceDepsScope\<close> around \<open>body\<close>, finished when \<open>body\<close> returns;
  \<^item> \<open>Assign dst src\<close>: a copy into a cell that is not being forced;
  \<^item> \<open>Throw\<close> and \<open>Try body\<close>: an evaluation error, and code that catches it.
\<close>

datatype act =
    Read bytes
  | Force address "act list" "address option"
  | Scope "act list"
  | Assign address address
  | Throw
  | Try "act list"

fun exec :: "act \<Rightarrow> nat \<Rightarrow> tracker \<Rightarrow> (tracker \<times> bool) option"
  and execs :: "act list \<Rightarrow> nat \<Rightarrow> tracker \<Rightarrow> (tracker \<times> bool) option" where
  "exec (Read p) c s = Some (recordAccess s p, False)"
| "exec (Force v body tail) c s =
     forceValue
       (\<lambda>s0. do {
          (s1, threw) \<leftarrow> execs body c s0;
          (if threw then Some (s1, True)
           else map_option (\<lambda>s2. (s2, False))
                  (case tail of None \<Rightarrow> finishValue s1 v Finished | Some w \<Rightarrow> copyValue s1 v w))
        }) s v"
| "exec (Scope body) c s =
     (let previousFrame = ts_sourceDepsFrame (thread s);
          (f, s1) = openScope s c
      in do {
           (s2, threw) \<leftarrow> execs body c s1;
           s3 \<leftarrow> (if threw then Some s2 else map_option snd (finishScope s2 f previousFrame None));
           Some (closeScope s3 f previousFrame, threw)
         })"
| "exec (Assign dst src) c s = map_option (\<lambda>s1. (s1, False)) (copyValue s dst src)"
| "exec Throw c s = Some (s, True)"
| "exec (Try body) c s = map_option (\<lambda>(s1, threw). (s1, False)) (execs body c s)"
| "execs [] c s = Some (s, False)"
| "execs (a # as) c s =
     do {
       (s1, threw) \<leftarrow> exec a c s;
       (if threw then Some (s1, True) else execs as c s1)
     }"


section \<open>Tracking a target\<close>

text \<open>
  \<^verbatim>\<open>evalTargetDependencies\<close> and \<^verbatim>\<open>finalizeSourceAccessSetDependencies\<close> of \<^verbatim>\<open>primops/tecnix.cc\<close>, with the
  evaluation of the target given by its actions. An exception leaves no snapshot.
\<close>

definition snapshotSourceAccessSetTracking :: "tracker \<Rightarrow> nat \<Rightarrow> EvalSourceAccessId list \<times> EvalSourceAccessSetId list" where
  "snapshotSourceAccessSetTracking s c =
     (directSourceAccessSetAccesses s (rootFrame (contexts s ! c)), childSourceAccessSets s (rootFrame (contexts s ! c)))"

definition collectSourceAccessSetTrackedPaths ::
  "EvalSourceAccessSetGraph \<Rightarrow> EvalSourceAccessId list \<times> EvalSourceAccessSetId list
     \<Rightarrow> (bytes list \<times> EvalSourceAccessSetGraph) option" where
  "collectSourceAccessSetTrackedPaths g snapshot =
     map_option (\<lambda>(paths, g'). (sort paths, g')) (flatten g (fst snapshot) (snd snapshot))"

definition evalTargetDependencies ::
  "tracker \<Rightarrow> EvalSourceAccessSetId \<Rightarrow> act list
     \<Rightarrow> ((EvalSourceAccessId list \<times> EvalSourceAccessSetId list) option \<times> tracker) option" where
  "evalTargetDependencies s resolveSourceDeps target =
     (let (c, s1) = newTrackingContext s;
          s2 = (if resolveSourceDeps \<noteq> 0 then recordTrackedSourceAccessSetDependency s1 c resolveSourceDeps else s1);
          s3 = enterTrackingContext s2 c
      in do {
           (s4, threw) \<leftarrow> execs target c s3;
           let s5 = leaveTrackingContext s4 c (ts_trackingContext (thread s2)) (ts_sourceDepsFrame (thread s2));
           Some (if threw then None else Some (snapshotSourceAccessSetTracking s5 c), s5)
         })"

primrec evalMisses ::
  "tracker \<Rightarrow> EvalSourceAccessSetId \<Rightarrow> act list list
     \<Rightarrow> ((EvalSourceAccessId list \<times> EvalSourceAccessSetId list) option list \<times> tracker) option" where
  "evalMisses s resolveSourceDeps [] = Some ([], s)"
| "evalMisses s resolveSourceDeps (target # targets) =
     do {
       (snapshot, s1) \<leftarrow> evalTargetDependencies s resolveSourceDeps target;
       (snapshots, s2) \<leftarrow> evalMisses s1 resolveSourceDeps targets;
       Some (snapshot # snapshots, s2)
     }"

primrec finalizeSourceAccessSetDependencies ::
  "EvalSourceAccessSetGraph \<Rightarrow> (EvalSourceAccessId list \<times> EvalSourceAccessSetId list) option list
     \<Rightarrow> (bytes list option list \<times> EvalSourceAccessSetGraph) option" where
  "finalizeSourceAccessSetDependencies g [] = Some ([], g)"
| "finalizeSourceAccessSetDependencies g (snapshot # snapshots) =
     do {
       (paths, g1) \<leftarrow> (case snapshot of
                        None \<Rightarrow> Some (None, g)
                      | Some sn \<Rightarrow> map_option (\<lambda>(ps, g'). (Some ps, g')) (collectSourceAccessSetTrackedPaths g sn));
       (rest, g2) \<leftarrow> finalizeSourceAccessSetDependencies g1 snapshots;
       Some (paths # rest, g2)
     }"

section \<open>The set semantics of an action tree\<close>

text \<open>
  What the tree means without any of the machinery: the state of the cells, the set of paths behind
  every finished value, and the set of paths observed so far in the current region. \<^const>\<open>None\<close> is an
  evaluator error (copying or overwriting a value that is not finished).
\<close>

type_synonym meaning = "(address \<Rightarrow> cell_state) \<times> (address \<Rightarrow> bytes set) \<times> bytes set"

fun sexec :: "act \<Rightarrow> meaning \<Rightarrow> (meaning \<times> bool) option"
  and sexecs :: "act list \<Rightarrow> meaning \<Rightarrow> (meaning \<times> bool) option" where
  "sexec (Read p) (cs, lab, acc) = Some ((cs, lab, insert p acc), False)"
| "sexec (Force v body tail) (cs, lab, acc) =
     (case cs v of
        Finished \<Rightarrow> Some ((cs, lab, acc \<union> lab v), False)
      | Failed \<Rightarrow> Some ((cs, lab, acc \<union> lab v), True)
      | Pending \<Rightarrow> Some ((cs, lab, acc), True)
      | Uninit \<Rightarrow> None
      | Thunk \<Rightarrow> do {
          ((cs1, lab1, own), threw) \<leftarrow> sexecs body (cs(v := Pending), lab, {});
          (if threw then Some ((cs1(v := Failed), lab1(v := own), acc \<union> own), True)
           else case tail of
             None \<Rightarrow> Some ((cs1(v := Finished), lab1(v := own), acc \<union> own), False)
           | Some w \<Rightarrow>
               (if cs1 w \<in> {Finished, Failed}
                then Some ((cs1(v := cs1 w), lab1(v := own \<union> lab1 w), acc \<union> (own \<union> lab1 w)), False)
                else None))
        })"
| "sexec (Scope body) (cs, lab, acc) =
     do {
       ((cs1, lab1, own), threw) \<leftarrow> sexecs body (cs, lab, {});
       Some ((cs1, lab1, acc \<union> own), threw)
     }"
| "sexec (Assign dst src) (cs, lab, acc) =
     (if cs src \<in> {Finished, Failed} \<and> cs dst \<notin> {Thunk, Pending} \<and> dst \<noteq> src
      then Some ((cs(dst := cs src), lab(dst := lab src), acc), False)
      else None)"
| "sexec Throw m = Some (m, True)"
| "sexec (Try body) m = map_option (\<lambda>(m1, threw). (m1, False)) (sexecs body m)"
| "sexecs [] m = Some (m, False)"
| "sexecs (a # as) m =
     do {
       (m1, threw) \<leftarrow> sexec a m;
       (if threw then Some (m1, True) else sexecs as m1)
     }"

fun cost :: "act \<Rightarrow> nat" and costs :: "act list \<Rightarrow> nat" where
  "cost (Read p) = 1"
| "cost (Force v body tail) = 2 + costs body"
| "cost (Scope body) = 1 + costs body"
| "cost (Assign dst src) = 1"
| "cost Throw = 0"
| "cost (Try body) = costs body"
| "costs [] = 0"
| "costs (a # as) = cost a + costs as"

fun addressed :: "act \<Rightarrow> bool" and addresseds :: "act list \<Rightarrow> bool" where
  "addressed (Read p) = True"
| "addressed (Force v body tail) =
     (value_cell v \<and> addresseds body \<and> (case tail of None \<Rightarrow> True | Some w \<Rightarrow> value_cell w))"
| "addressed (Scope body) = addresseds body"
| "addressed (Assign dst src) = (value_cell dst \<and> value_cell src)"
| "addressed Throw = True"
| "addressed (Try body) = addresseds body"
| "addresseds [] = True"
| "addresseds (a # as) = (addressed a \<and> addresseds as)"

section \<open>The invariant of tracked evaluation\<close>

abbreviation accStack :: "tracker \<Rightarrow> nat \<Rightarrow> nat list" where
  "accStack s c \<equiv> frameAccessStack (contexts s ! c)"

abbreviation childStack :: "tracker \<Rightarrow> nat \<Rightarrow> nat list" where
  "childStack s c \<equiv> frameChildStack (contexts s ! c)"

definition pathsOf :: "EvalSourceAccessSetGraph \<Rightarrow> nat set \<Rightarrow> bytes set" where
  "pathsOf g ids = (\<lambda>a. accesses g ! a) ` ids"

definition idsOf :: "EvalSourceAccessSetGraph \<Rightarrow> nat list \<Rightarrow> nat list \<Rightarrow> nat set" where
  "idsOf g d c = (set d - {0}) \<union> (\<Union>s \<in> set c. memberSet g s)"

definition observed :: "EvalSourceAccessSetGraph \<Rightarrow> nat list \<Rightarrow> nat list \<Rightarrow> bytes set" where
  "observed g d c = pathsOf g (idsOf g d c)"

definition gext :: "EvalSourceAccessSetGraph \<Rightarrow> EvalSourceAccessSetGraph \<Rightarrow> bool" where
  "gext g g' \<longleftrightarrow> (\<exists>new. accesses g' = accesses g @ new) \<and> (\<forall>j. issued g j \<longrightarrow> issued g' j \<and> memberSet g' j = memberSet g j)"

definition valid_ids :: "EvalSourceAccessSetGraph \<Rightarrow> nat list \<Rightarrow> nat list \<Rightarrow> bool" where
  "valid_ids g d c \<longleftrightarrow> (\<forall>a \<in> set d. a < length (accesses g)) \<and> (\<forall>s \<in> set c. issued g s)"

lemma gext_refl [simp]: "gext g g"
  by (simp add: gext_def)

lemma gext_trans: "gext g g' \<Longrightarrow> gext g' g'' \<Longrightarrow> gext g g''"
  by (auto simp: gext_def)

lemma memberSet_valid: "live g \<Longrightarrow> issued g j \<Longrightarrow> a \<in> memberSet g j \<Longrightarrow> a < length (accesses g)"
  by (auto simp: live_def issued_def memberSet_def nodes_ok_def dest!: graph_okD(2))

lemma gext_label:
  assumes "live g" "gext g g'" "issued g j"
  shows "issued g' j" "pathsOf g' (memberSet g' j) = pathsOf g (memberSet g j)"
  using assms memberSet_valid [OF assms(1,3)]
  by (auto simp: gext_def pathsOf_def nth_append intro!: image_cong)

lemma gext_observed:
  assumes "live g" "gext g g'" "valid_ids g d c"
  shows "valid_ids g' d c" "observed g' d c = observed g d c"
proof -
  from assms(2) obtain new where new: "accesses g' = accesses g @ new" by (auto simp: gext_def)
  from assms(2,3) show "valid_ids g' d c" by (auto simp: valid_ids_def gext_def new)
  have "idsOf g' d c = idsOf g d c" using assms(2,3) by (auto simp: idsOf_def valid_ids_def gext_def)
  moreover have "a < length (accesses g)" if "a \<in> idsOf g d c" for a
    using that assms memberSet_valid [OF assms(1)] by (auto simp: idsOf_def valid_ids_def)
  ultimately show "observed g' d c = observed g d c"
    by (auto simp: observed_def pathsOf_def new nth_append intro!: image_cong)
qed

lemma observed_append: "observed g (d @ d') (c @ c') = observed g d c \<union> observed g d' c'"
  by (auto simp: observed_def idsOf_def pathsOf_def)

lemma observed_child [simp]: "observed g [] [x] = pathsOf g (memberSet g x)"
  by (simp add: observed_def idsOf_def)

lemma observed_Nil [simp]: "observed g [] [] = {}"
  by (simp add: observed_def idsOf_def pathsOf_def)

definition labels_ok :: "tracker \<Rightarrow> (address \<Rightarrow> bytes set) \<Rightarrow> bool" where
  "labels_ok s lab \<longleftrightarrow> (\<forall>v. value_cell v \<longrightarrow> cells s v \<in> {Finished, Failed} \<longrightarrow>
     issued (graph s) (trackedSourceAccessSet s v) \<and>
     pathsOf (graph s) (memberSet (graph s) (trackedSourceAccessSet s v)) = lab v)"

definition open_frame :: "tracker \<Rightarrow> nat \<Rightarrow> nat \<Rightarrow> bool" where
  "open_frame s c f \<longleftrightarrow> f < length (frames s) \<and> fr_trackingCtx (frames s ! f) = c \<and> \<not> fr_published (frames s ! f) \<and>
     fr_accessBase (frames s ! f) \<le> length (accStack s c) \<and> fr_childBase (frames s ! f) \<le> length (childStack s c)"

definition region :: "tracker \<Rightarrow> nat \<Rightarrow> nat \<Rightarrow> bytes set" where
  "region s c f = observed (graph s) (drop (fr_accessBase (frames s ! f)) (accStack s c))
     (drop (fr_childBase (frames s ! f)) (childStack s c))"

definition thread_ok :: "tracker \<Rightarrow> nat \<Rightarrow> nat \<Rightarrow> bool" where
  "thread_ok s c f \<longleftrightarrow> ts_trackingContext (thread s) = Some c \<and> ts_sourceDepsFrame (thread s) = Some f \<and>
     (\<forall>v. ts_valueDependencyPublishValue (thread s) = Some v \<longrightarrow> cells s v = Pending) \<and>
     (\<forall>vf. fr_nearestValueForceFrame (frames s ! f) = Some vf \<longrightarrow> vf < length (frames s) \<and>
        (\<forall>v. fr_value (frames s ! vf) = Some v \<longrightarrow> cells s v = Pending))"

definition tracked :: "tracker \<Rightarrow> nat \<Rightarrow> nat \<Rightarrow> meaning \<Rightarrow> bool" where
  "tracked s c f m \<longleftrightarrow> live (graph s) \<and> c < length (contexts s) \<and> valid_ids (graph s) (accStack s c) (childStack s c) \<and>
     open_frame s c f \<and> thread_ok s c f \<and>
     cells s = fst m \<and> labels_ok s (fst (snd m)) \<and> region s c f = snd (snd m)"

definition keeps :: "tracker \<Rightarrow> tracker \<Rightarrow> nat \<Rightarrow> bool" where
  "keeps s s' c \<longleftrightarrow> thread s' = thread s \<and> length (frames s) \<le> length (frames s') \<and>
     (\<forall>i < length (frames s). frames s' ! i = frames s ! i) \<and>
     length (contexts s') = length (contexts s) \<and> rootFrame (contexts s' ! c) = rootFrame (contexts s ! c) \<and>
     (\<exists>d. accStack s' c = accStack s c @ d) \<and> (\<exists>e. childStack s' c = childStack s c @ e) \<and>
     gext (graph s) (graph s') \<and> (\<forall>v. cells s v = Pending \<longrightarrow> cells s' v = Pending)"

lemma keeps_refl [simp]: "keeps s s c"
  by (simp add: keeps_def)

lemma keeps_trans: "keeps s s' c \<Longrightarrow> keeps s' s'' c \<Longrightarrow> keeps s s'' c"
  unfolding keeps_def by (elim conjE exE) (intro conjI; (erule (1) gext_trans | force | simp))


text \<open>
  Room for \<open>k\<close> more steps in the 32-bit counters of the graph and of the frames: a step pushes at most
  one id and publishes at most one set, whose members are among the interned paths and whose key is
  among the pushed ids.
\<close>

definition budget :: "nat \<Rightarrow> tracker \<Rightarrow> nat \<Rightarrow> bool" where
  "budget k s c \<longleftrightarrow>
     (let g = graph s; n = length (accesses g); m = length (accStack s c) + length (childStack s c)
      in n + k < 2 ^ 32 \<and> length (accessSets g) + k < 2 ^ 32 \<and>
         length (accessSetItems g) + k * (n + k) < 2 ^ 32 \<and> m + k < 2 ^ 32 \<and>
         length (inputKeyItems g) + k * (m + k) < 2 ^ 32)"

lemma budget_mono: "budget (j + k) s c \<Longrightarrow> budget k s c"
proof -
  assume b: "budget (j + k) s c"
  have "k * (n + k) \<le> (j + k) * (n + (j + k))" for n :: nat by (intro mult_le_mono) auto
  then show ?thesis using b unfolding budget_def Let_def
    by (meson add_le_mono le_add2 le_less_trans le_refl)
qed

lemma budget_step:
  assumes b: "budget (Suc k) s c"
    and n: "length (accesses (graph s')) \<le> Suc (length (accesses (graph s)))"
    and sets: "length (accessSets (graph s')) \<le> Suc (length (accessSets (graph s)))"
    and items: "length (accessSetItems (graph s')) \<le> length (accessSetItems (graph s)) + length (accesses (graph s))"
    and keys: "length (inputKeyItems (graph s')) \<le> length (inputKeyItems (graph s)) + (length (accStack s c) + length (childStack s c))"
    and m: "length (accStack s' c) + length (childStack s' c) \<le> Suc (length (accStack s c) + length (childStack s c))"
  shows "budget k s' c"
proof -
  have grow: "z' + k * (x' + k) \<le> z + Suc k * (x + Suc k)" if "z' \<le> z + x" "x' \<le> Suc x" for x x' z z' :: nat
  proof -
    have "k * (x' + k) \<le> k * (Suc x + k)" using that by (intro mult_le_mono) auto
    with that show ?thesis by simp
  qed
  have "length (accesses (graph s)) + Suc k < 2 ^ 32" "length (accessSets (graph s)) + Suc k < 2 ^ 32"
    "length (accStack s c) + length (childStack s c) + Suc k < 2 ^ 32"
    "length (accessSetItems (graph s)) + Suc k * (length (accesses (graph s)) + Suc k) < 2 ^ 32"
    "length (inputKeyItems (graph s)) + Suc k * (length (accStack s c) + length (childStack s c) + Suc k) < 2 ^ 32"
    using b unfolding budget_def Let_def by blast+
  note b' = this
  show ?thesis
    unfolding budget_def Let_def
  proof (intro conjI)
    show "length (accesses (graph s')) + k < 2 ^ 32" "length (accessSets (graph s')) + k < 2 ^ 32"
      "length (accStack s' c) + length (childStack s' c) + k < 2 ^ 32"
      using b'(1-3) n sets m by linarith+
    show "length (accessSetItems (graph s')) + k * (length (accesses (graph s')) + k) < 2 ^ 32"
      by (rule le_less_trans [OF grow [OF items n] b'(4)])
    show "length (inputKeyItems (graph s')) + k * (length (accStack s' c) + length (childStack s' c) + k) < 2 ^ 32"
      by (rule le_less_trans [OF grow [OF keys m] b'(5)])
  qed
qed

definition pushChild :: "nat \<Rightarrow> nat list \<Rightarrow> nat \<Rightarrow> nat list" where
  "pushChild base ids x = (if x = 0 \<or> base < length ids \<and> last ids = x then ids else ids @ [x])"

lemma length_pushChild: "length (pushChild base ids x) \<le> Suc (length ids)"
  by (simp add: pushChild_def)

lemma pushChild_prefix: "\<exists>e. pushChild base ids x = ids @ e"
  by (simp add: pushChild_def)

lemma observed_pushChild:
  assumes "live g" "base \<le> length ids"
  shows "observed g d (drop base (pushChild base ids x)) = observed g d (drop base ids) \<union> pathsOf g (memberSet g x)"
proof -
  have zero: "memberSet g 0 = {}" using acc.known_empty [OF assms(1)] by simp
  have "last ids \<in> set (drop base ids)" if "base < length ids"
    using that by (metis drop_eq_Nil last_drop last_in_set not_le)
  then have "pathsOf g (memberSet g x) \<subseteq> observed g d (drop base ids)" if "base < length ids" "last ids = x"
    using that by (auto simp: observed_def idsOf_def pathsOf_def)
  moreover have "observed g d (drop base ids @ [x]) = observed g d (drop base ids) \<union> pathsOf g (memberSet g x)"
    using observed_append [of g d "[]" "drop base ids" "[x]"] by simp
  ultimately show ?thesis
    using assms(2) zero by (auto simp: pushChild_def pathsOf_def)
qed

lemma addFrameChild_fields:
  assumes "c < length (contexts s)" "fr_trackingCtx (frames s ! f) = c"
  shows "graph (addFrameChild s f x) = graph s" "labels (addFrameChild s f x) = labels s"
    "thread (addFrameChild s f x) = thread s" "frames (addFrameChild s f x) = frames s"
    "cells (addFrameChild s f x) = cells s" "length (contexts (addFrameChild s f x)) = length (contexts s)"
    "rootFrame (contexts (addFrameChild s f x) ! c) = rootFrame (contexts s ! c)"
    "accStack (addFrameChild s f x) c = accStack s c"
    "childStack (addFrameChild s f x) c = pushChild (fr_childBase (frames s ! f)) (childStack s c) x"
  using assms by (auto simp: addFrameChild_def pushChild_def setCtx_def ctxOf_def Let_def)

lemma addFrameAccess_fields:
  assumes "c < length (contexts s)" "fr_trackingCtx (frames s ! f) = c"
  shows "graph (addFrameAccess s f x) = graph s" "labels (addFrameAccess s f x) = labels s"
    "thread (addFrameAccess s f x) = thread s" "frames (addFrameAccess s f x) = frames s"
    "cells (addFrameAccess s f x) = cells s" "length (contexts (addFrameAccess s f x)) = length (contexts s)"
    "rootFrame (contexts (addFrameAccess s f x) ! c) = rootFrame (contexts s ! c)"
    "accStack (addFrameAccess s f x) c = pushChild (fr_accessBase (frames s ! f)) (accStack s c) x"
    "childStack (addFrameAccess s f x) c = childStack s c"
  using assms by (auto simp: addFrameAccess_def pushChild_def setCtx_def ctxOf_def Let_def)

lemma observed_pushAccess:
  assumes "base \<le> length ids" "x \<noteq> 0"
  shows "observed g (drop base (pushChild base ids x)) e = insert (accesses g ! x) (observed g (drop base ids) e)"
proof -
  have "last ids \<in> set (drop base ids)" if "base < length ids"
    using that by (metis drop_eq_Nil last_drop last_in_set not_le)
  then have "accesses g ! x \<in> observed g (drop base ids) e" if "base < length ids" "last ids = x"
    using that assms(2) by (auto simp: observed_def idsOf_def pathsOf_def)
  moreover have "observed g (drop base ids @ [x]) e = insert (accesses g ! x) (observed g (drop base ids) e)"
    using assms(2) by (auto simp: observed_def idsOf_def pathsOf_def)
  ultimately show ?thesis using assms by (auto simp: pushChild_def)
qed

lemmas tracked_parts = tracked_def open_frame_def thread_ok_def

text \<open>Recording a label that the graph issued.\<close>

lemma addFrameChild_tracked:
  assumes t: "tracked s c f (cs, lab, own)" and x: "issued (graph s) x" and b: "budget (Suc k) s c"
  shows "tracked (addFrameChild s f x) c f (cs, lab, own \<union> pathsOf (graph s) (memberSet (graph s) x))"
    and "keeps s (addFrameChild s f x) c" and "budget k (addFrameChild s f x) c"
proof -
  let ?s = "addFrameChild s f x"
  from t have p: "c < length (contexts s)" "fr_trackingCtx (frames s ! f) = c" "live (graph s)"
      "fr_childBase (frames s ! f) \<le> length (childStack s c)"
    by (auto simp: tracked_parts)
  note e = addFrameChild_fields [OF p(1,2)]
  have len: "length (childStack s c) \<le> length (childStack ?s c)" by (simp add: e pushChild_def)
  show "keeps s ?s c" using e pushChild_prefix by (simp add: keeps_def)
  show "budget k ?s c"
    by (rule budget_step [OF b]) (use e length_pushChild in simp_all)
  have "set (childStack ?s c) \<subseteq> insert x (set (childStack s c))" by (simp add: e pushChild_def subset_insertI)
  then have valid: "valid_ids (graph s) (accStack s c) (childStack ?s c)"
    using t x by (auto simp: tracked_def valid_ids_def)
  have "region ?s c f = region s c f \<union> pathsOf (graph s) (memberSet (graph s) x)"
    using observed_pushChild [OF p(3,4)] by (simp add: region_def e)
  then show "tracked ?s c f (cs, lab, own \<union> pathsOf (graph s) (memberSet (graph s) x))"
    using t e valid len by (auto simp: tracked_parts labels_ok_def trackedSourceAccessSet_def)
qed

lemma recordAccess_tracked:
  assumes t: "tracked s c f (cs, lab, own)" and b: "budget (Suc k) s c"
  shows "tracked (recordAccess s p) c f (cs, lab, insert p own)"
    and "keeps s (recordAccess s p) c" and "budget k (recordAccess s p) c"
proof -
  obtain i g where r: "internAccess (graph s) p = (i, g)" by (cases "internAccess (graph s) p")
  from t have l: "graph_ok (graph s)" "enabled (graph s)" "live (graph s)" by (auto simp: tracked_def live_def)
  from b have room: "length (accesses (graph s)) < 2 ^ 32" by (simp add: budget_def Let_def)
  note i = internAccess_id [OF l(1,2) room r] and fr = internAccess_frame [OF r]
  have live': "live g" using internAccess_ok [OF l(1) room r] l(2) fr by (simp add: live_def)
  have ext: "gext (graph s) g" using fr by (simp add: gext_def issued_def memberSet_def)
  let ?s0 = "s\<lparr>graph := g\<rparr>"
  have s': "recordAccess s p = addFrameAccess ?s0 f i"
    using t i r by (simp add: recordAccess_def recordTrackedSourceAccessSetAccess_def tracked_parts)
  from t have p: "c < length (contexts ?s0)" "fr_trackingCtx (frames ?s0 ! f) = c"
      "fr_accessBase (frames s ! f) \<le> length (accStack s c)"
    by (auto simp: tracked_parts)
  note e = addFrameAccess_fields [OF p(1,2), of i]
  show "keeps s (recordAccess s p) c" unfolding s' using e ext pushChild_prefix by (simp add: keeps_def)
  have sizes: "length (accesses g) \<le> Suc (length (accesses (graph s)))" "accessSets g = accessSets (graph s)"
      "accessSetItems g = accessSetItems (graph s)" "inputKeyItems g = inputKeyItems (graph s)"
    using r by (auto simp: internAccess_def Let_def split: if_splits option.splits)
  show "budget k (recordAccess s p) c" unfolding s'
    by (rule budget_step [OF b]) (use e sizes length_pushChild in simp_all)
  have "valid_ids (graph s) (accStack s c) (childStack s c)" using t by (simp add: tracked_def)
  note obs = gext_observed [OF l(3) ext]
  have v: "valid_ids g (accStack s c) (childStack s c)" using obs(1) t by (simp add: tracked_def)
  have "set (accStack (addFrameAccess ?s0 f i) c) \<subseteq> insert i (set (accStack s c))"
    using e by (simp add: pushChild_def subset_insertI)
  then have valid: "valid_ids g (accStack (addFrameAccess ?s0 f i) c) (childStack s c)"
    using v i by (auto simp: valid_ids_def)
  have "valid_ids (graph s) (drop (fr_accessBase (frames s ! f)) (accStack s c)) (drop (fr_childBase (frames s ! f)) (childStack s c))"
    using t by (auto simp: tracked_def valid_ids_def dest: in_set_dropD)
  from obs(2) [OF this] have "region (addFrameAccess ?s0 f i) c f = insert p (region s c f)"
    using e i p(3) by (simp add: region_def observed_pushAccess)
  moreover have "labels_ok (addFrameAccess ?s0 f i) lab"
    using t e gext_label [OF l(3) ext] by (auto simp: tracked_def labels_ok_def trackedSourceAccessSet_def)
  moreover have "length (accStack s c) \<le> length (accStack (addFrameAccess ?s0 f i) c)" using e by (simp add: pushChild_def)
  ultimately show "tracked (recordAccess s p) c f (cs, lab, insert p own)"
    unfolding s' using t e valid live' by (auto simp: tracked_parts)
qed

section \<open>Publishing keeps the invariant\<close>

lemma internAccessSet_region:
  assumes l: "live g" and v: "valid_ids g d e"
    and room: "length (accesses g) < 2 ^ 32" "length (accessSets g) < 2 ^ 32"
      "length (accessSetItems g) + length (accesses g) < 2 ^ 32"
      "length (inputKeyItems g) + length d + length e < 2 ^ 32"
  shows "\<exists>x g'. internAccessSet g d e = Some (x, g') \<and> live g' \<and> gext g g' \<and> issued g' x \<and>
    pathsOf g' (memberSet g' x) = observed g d e \<and> accesses g' = accesses g \<and>
    length (accessSets g') \<le> Suc (length (accessSets g)) \<and>
    length (accessSetItems g') \<le> length (accessSetItems g) + length (accesses g) \<and>
    length (inputKeyItems g') \<le> length (inputKeyItems g) + length d + length e"
proof -
  let ?all = "d @ concat (map (members g) e)"
  have "set ?all \<subseteq> {..< length (accesses g)}"
    using v memberSet_valid [OF l] by (auto simp: valid_ids_def memberSet_def)
  then have short: "length (sort_unique ?all) \<le> length (accesses g)"
    unfolding length_sort_unique by (metis card_lessThan card_mono finite_lessThan)
  from v have vi: "valid_input g d e" by (simp add: valid_input_def valid_ids_def issued_def list_all_iff)
  have "fits g d e" using room short by (simp add: fits_def)
  with l vi internAccessSet_correct [of g d e] obtain x g' where
    r: "internAccessSet g d e = Some (x, g')" "graph_ok g'" "extends g g'" "x < length (accessSets g')"
      "set (members g' x) = unionOf g d e" by (auto simp: live_def)
  from l have "nodes_ok g" by (auto simp: live_def graph_okD)
  note grow = internAccessSet_growth [OF this vi r(1)]
  from r(3) have ext: "gext g g'" "accesses g' = accesses g" "enabled g' = enabled g"
    by (auto simp: gext_def extends_def issued_def memberSet_def)
  have "pathsOf g' (memberSet g' x) = observed g d e"
    using r(5) ext by (simp add: memberSet_def observed_def pathsOf_def idsOf_def unionOf_def)
  with r ext grow short l show ?thesis by (auto simp: live_def issued_def intro!: exI [of _ x] exI [of _ g'])
qed

text \<open>A frame above another one of the same context: the stacks below its marks belong to its parent.\<close>

definition nested :: "tracker \<Rightarrow> nat \<Rightarrow> nat \<Rightarrow> nat \<Rightarrow> nat list \<Rightarrow> nat list \<Rightarrow> bool" where
  "nested s c f f' A0 C0 \<longleftrightarrow> c < length (contexts s) \<and> f < f' \<and> f' < length (frames s) \<and>
     fr_trackingCtx (frames s ! f') = c \<and> fr_previous (frames s ! f') = Some f \<and>
     fr_accessBase (frames s ! f') = length A0 \<and> fr_childBase (frames s ! f') = length C0 \<and>
     (\<exists>A1. accStack s c = A0 @ A1) \<and> (\<exists>C1. childStack s c = C0 @ C1) \<and>
     fr_trackingCtx (frames s ! f) = c \<and> length A0 < 2 ^ 32 \<and> Suc (length C0) < 2 ^ 32"

lemma nested_truncate:
  assumes "nested s c f f' A0 C0"
  shows "truncateFrame s f' = setCtx s c (\<lambda>ctx. ctx\<lparr>frameAccessStack := A0, frameChildStack := C0\<rparr>)"
  using assms by (auto simp: nested_def truncateFrame_def setCtx_def)

lemma addFrameChild_0 [simp]: "addFrameChild s f 0 = s"
  by (simp add: addFrameChild_def)

lemma collapse_fields:
  assumes n: "nested s c f f' A0 C0"
  shows "graph (collapseFrameToAccessSet s f' x) = graph s" "labels (collapseFrameToAccessSet s f' x) = labels s"
    "thread (collapseFrameToAccessSet s f' x) = thread s" "cells (collapseFrameToAccessSet s f' x) = cells s"
    "length (contexts (collapseFrameToAccessSet s f' x)) = length (contexts s)"
    "rootFrame (contexts (collapseFrameToAccessSet s f' x) ! c) = rootFrame (contexts s ! c)"
    "accStack (collapseFrameToAccessSet s f' x) c = A0"
    "childStack (collapseFrameToAccessSet s f' x) c = pushChild (fr_childBase (frames s ! f)) C0 x"
    "frames (collapseFrameToAccessSet s f' x) = (frames s)[f' := (frames s ! f')
       \<lparr>fr_accessBase := length A0, fr_childBase := length (pushChild (fr_childBase (frames s ! f)) C0 x)\<rparr>]"
proof -
  let ?s1 = "setCtx s c (\<lambda>ctx. ctx\<lparr>frameAccessStack := A0, frameChildStack := C0\<rparr>)"
  from n have c: "c < length (contexts ?s1)" "fr_trackingCtx (frames ?s1 ! f) = c" "fr_trackingCtx (frames s ! f') = c"
      "f \<noteq> f'" "fr_previous (frames s ! f') = Some f" "c < length (contexts s)"
    by (auto simp: nested_def setCtx_def)
  note e = addFrameChild_fields [OF c(1,2), of x]
  have s1: "accStack ?s1 c = A0" "childStack ?s1 c = C0" "graph ?s1 = graph s" "labels ?s1 = labels s" "thread ?s1 = thread s"
      "cells ?s1 = cells s" "frames ?s1 = frames s" "length (contexts ?s1) = length (contexts s)"
      "rootFrame (contexts ?s1 ! c) = rootFrame (contexts s ! c)"
    using c by (auto simp: setCtx_def)
  let ?s2 = "addFrameChild ?s1 f x"
  have fin: "collapseFrameToAccessSet s f' x = setFrame ?s2 f'
      (\<lambda>fr. fr\<lparr>fr_accessBase := u32 (length (accStack ?s2 c)), fr_childBase := u32 (length (childStack ?s2 c))\<rparr>)"
    using c e(4) s1(7) unfolding collapseFrameToAccessSet_def Let_def nested_truncate [OF n]
    by (cases "x = 0") (simp_all add: ctxOf_def)
  from n length_pushChild [of "fr_childBase (frames s ! f)" C0 x]
  have small: "length A0 < 2 ^ 32" "length (pushChild (fr_childBase (frames s ! f)) C0 x) < 2 ^ 32"
    by (auto simp: nested_def)
  show "graph (collapseFrameToAccessSet s f' x) = graph s" "labels (collapseFrameToAccessSet s f' x) = labels s"
    "thread (collapseFrameToAccessSet s f' x) = thread s" "cells (collapseFrameToAccessSet s f' x) = cells s"
    "length (contexts (collapseFrameToAccessSet s f' x)) = length (contexts s)"
    "rootFrame (contexts (collapseFrameToAccessSet s f' x) ! c) = rootFrame (contexts s ! c)"
    "accStack (collapseFrameToAccessSet s f' x) c = A0"
    "childStack (collapseFrameToAccessSet s f' x) c = pushChild (fr_childBase (frames s ! f)) C0 x"
    unfolding fin using e s1 by (simp_all add: setFrame_def)
  show "frames (collapseFrameToAccessSet s f' x) = (frames s)[f' := (frames s ! f')
       \<lparr>fr_accessBase := length A0, fr_childBase := length (pushChild (fr_childBase (frames s ! f)) C0 x)\<rparr>]"
    unfolding fin using e s1 small by (simp add: setFrame_def)
qed

text \<open>
  The state after a nested frame has been sealed with the set \<open>x\<close>: its entries are gone, \<open>x\<close> stands
  for them in the parent's region, and the frame is published with its marks at the top.
\<close>

definition sealed :: "tracker \<Rightarrow> tracker \<Rightarrow> nat \<Rightarrow> nat \<Rightarrow> nat \<Rightarrow> nat list \<Rightarrow> nat list \<Rightarrow> nat \<Rightarrow> bool" where
  "sealed s s' c f f' A0 C0 x \<longleftrightarrow>
     live (graph s') \<and> gext (graph s) (graph s') \<and> issued (graph s') x \<and>
     pathsOf (graph s') (memberSet (graph s') x)
       = observed (graph s) (drop (length A0) (accStack s c)) (drop (length C0) (childStack s c)) \<and>
     length (contexts s') = length (contexts s) \<and> rootFrame (contexts s' ! c) = rootFrame (contexts s ! c) \<and>
     accStack s' c = A0 \<and> childStack s' c = pushChild (fr_childBase (frames s ! f)) C0 x \<and>
     (\<exists>fr. frames s' = (frames s)[f' := fr] \<and> fr_trackingCtx fr = c \<and> fr_published fr \<and>
        fr_nearestValueForceFrame fr = fr_nearestValueForceFrame (frames s ! f') \<and>
        fr_value fr = fr_value (frames s ! f') \<and>
        fr_accessBase fr = length (accStack s' c) \<and> fr_childBase fr = length (childStack s' c))"

lemma direct_nested:
  assumes "nested s c f f' A0 C0"
  shows "directSourceAccessSetAccesses s f' = drop (length A0) (accStack s c)"
    "childSourceAccessSets s f' = drop (length C0) (childStack s c)"
  using assms by (auto simp: directSourceAccessSetAccesses_def childSourceAccessSets_def nested_def ctxOf_def)

lemma sealed_collapse:
  assumes n: "nested s c f f' A0 C0"
    and g: "live (graph s1)" "gext (graph s) (graph s1)" "issued (graph s1) x"
      "pathsOf (graph s1) (memberSet (graph s1) x)
        = observed (graph s) (drop (length A0) (accStack s c)) (drop (length C0) (childStack s c))"
    and same: "contexts s1 = contexts s" "frames s1 = (frames s)[f' := fr1]"
      "fr_trackingCtx fr1 = c" "fr_previous fr1 = Some f" "fr_accessBase fr1 = length A0" "fr_childBase fr1 = length C0"
      "fr_nearestValueForceFrame fr1 = fr_nearestValueForceFrame (frames s ! f')" "fr_value fr1 = fr_value (frames s ! f')"
  shows "upd = (\<lambda>fr. fr\<lparr>fr_accessSet := y, fr_published := True\<rparr>) \<or> upd = (\<lambda>fr. fr\<lparr>fr_published := True\<rparr>) \<Longrightarrow>
      sealed s (setFrame (collapseFrameToAccessSet s1 f' x) f' upd) c f f' A0 C0 x"
    and "labels (setFrame (collapseFrameToAccessSet s1 f' x) f' upd) = labels s1"
    and "thread (setFrame (collapseFrameToAccessSet s1 f' x) f' upd) = thread s1"
    and "cells (setFrame (collapseFrameToAccessSet s1 f' x) f' upd) = cells s1"
    and "graph (setFrame (collapseFrameToAccessSet s1 f' x) f' upd) = graph s1"
proof -
  from n same have n1: "nested s1 c f f' A0 C0"
    by (auto simp: nested_def)
  from n have "f \<noteq> f'" "f' < length (frames s)" by (auto simp: nested_def)
  with same have fr: "frames s1 ! f = frames s ! f" "frames s1 ! f' = fr1" by auto
  note e = collapse_fields [OF n1, of x]
  assume "upd = (\<lambda>fr. fr\<lparr>fr_accessSet := y, fr_published := True\<rparr>) \<or> upd = (\<lambda>fr. fr\<lparr>fr_published := True\<rparr>)"
  then show "sealed s (setFrame (collapseFrameToAccessSet s1 f' x) f' upd) c f f' A0 C0 x"
    unfolding sealed_def using g same e fr \<open>f' < length (frames s)\<close>
    by (auto simp: setFrame_def)
qed (use collapse_fields [OF _, of s1 c f f' A0 C0 x] n same in \<open>auto simp: setFrame_def nested_def\<close>)

lemma store_label:
  assumes "value_cell v" "trackedSourceAccessSet s v = 0"
  shows "\<exists>l. (if x \<noteq> 0 then setTrackedSourceAccessSet s v x else Some s) = Some (s\<lparr>labels := l\<rparr>) \<and>
    (\<forall>w. value_cell w \<longrightarrow> tecnixValueLabelLoad l w = (if w = v then x else trackedSourceAccessSet s w))"
proof (cases "x = 0")
  case True
  with assms show ?thesis by (auto intro!: exI [of _ "labels s"] simp: trackedSourceAccessSet_def)
next
  case False
  with lab.store_load [OF assms(1), of "labels s" x] show ?thesis
    by (auto simp: setTrackedSourceAccessSet_def trackedSourceAccessSet_def)
qed

lemma sealed_budget:
  assumes b: "budget (Suc k) s c" and n: "nested s c f f' A0 C0" and sl: "sealed s s' c f f' A0 C0 x"
    and g: "accesses (graph s') = accesses (graph s)" "length (accessSets (graph s')) \<le> Suc (length (accessSets (graph s)))"
      "length (accessSetItems (graph s')) \<le> length (accessSetItems (graph s)) + length (accesses (graph s))"
      "length (inputKeyItems (graph s')) \<le> length (inputKeyItems (graph s)) + length (accStack s c) + length (childStack s c)"
  shows "budget k s' c"
proof (rule budget_step [OF b])
  from n have "length A0 \<le> length (accStack s c)" "length C0 \<le> length (childStack s c)" by (auto simp: nested_def)
  moreover have "accStack s' c = A0" "length (childStack s' c) \<le> Suc (length C0)"
    using sl by (simp_all add: sealed_def length_pushChild)
  ultimately show "length (accStack s' c) + length (childStack s' c) \<le> Suc (length (accStack s c) + length (childStack s c))"
    by simp
qed (use g in simp_all)

lemma publish_intern:
  assumes n: "nested s c f f' A0 C0" and l: "live (graph s)" and v: "value_cell v" "trackedSourceAccessSet s v = 0"
    and vi: "valid_ids (graph s) (accStack s c) (childStack s c)" and b: "budget (Suc k) s c"
  shows "\<exists>x g l. publishTrackedSourceAccessSetDependencies s v (drop (length A0) (accStack s c)) (drop (length C0) (childStack s c))
      = Some (x, s\<lparr>graph := g, labels := l\<rparr>) \<and> live g \<and> gext (graph s) g \<and> issued g x \<and>
    pathsOf g (memberSet g x) = observed (graph s) (drop (length A0) (accStack s c)) (drop (length C0) (childStack s c)) \<and>
    accesses g = accesses (graph s) \<and> length (accessSets g) \<le> Suc (length (accessSets (graph s))) \<and>
    length (accessSetItems g) \<le> length (accessSetItems (graph s)) + length (accesses (graph s)) \<and>
    length (inputKeyItems g) \<le> length (inputKeyItems (graph s)) + length (accStack s c) + length (childStack s c) \<and>
    (\<forall>w. value_cell w \<longrightarrow> tecnixValueLabelLoad l w = (if w = v then x else trackedSourceAccessSet s w))"
proof -
  let ?d = "drop (length A0) (accStack s c)" and ?e = "drop (length C0) (childStack s c)"
  from b have room: "length (accesses (graph s)) < 2 ^ 32" "length (accessSets (graph s)) < 2 ^ 32"
      "length (accessSetItems (graph s)) + length (accesses (graph s)) < 2 ^ 32"
      "length (inputKeyItems (graph s)) + length ?d + length ?e < 2 ^ 32"
    by (auto simp: budget_def Let_def)
  have "valid_ids (graph s) ?d ?e" using vi by (auto simp: valid_ids_def dest: in_set_dropD)
  from internAccessSet_region [OF l this room] obtain x g where
    r: "internAccessSet (graph s) ?d ?e = Some (x, g)" "live g" "gext (graph s) g" "issued g x"
      "pathsOf g (memberSet g x) = observed (graph s) ?d ?e" "accesses g = accesses (graph s)"
      "length (accessSets g) \<le> Suc (length (accessSets (graph s)))"
      "length (accessSetItems g) \<le> length (accessSetItems (graph s)) + length (accesses (graph s))"
      "length (inputKeyItems g) \<le> length (inputKeyItems (graph s)) + length ?d + length ?e" by auto
  have "trackedSourceAccessSet (s\<lparr>graph := g\<rparr>) v = 0" using v by (simp add: trackedSourceAccessSet_def)
  from store_label [OF v(1) this, of x] obtain lb where
    lb: "(if x \<noteq> 0 then setTrackedSourceAccessSet (s\<lparr>graph := g\<rparr>) v x else Some (s\<lparr>graph := g\<rparr>)) = Some (s\<lparr>graph := g, labels := lb\<rparr>)"
      "\<forall>w. value_cell w \<longrightarrow> tecnixValueLabelLoad lb w = (if w = v then x else trackedSourceAccessSet s w)"
    by (auto simp: trackedSourceAccessSet_def)
  have "publishTrackedSourceAccessSetDependencies s v ?d ?e = Some (x, s\<lparr>graph := g, labels := lb\<rparr>)"
    unfolding publishTrackedSourceAccessSetDependencies_def r(1) by (simp only: lb(1) bind.bind_lunit prod.case)
  with r lb(2) show ?thesis by (intro exI [of _ x] exI [of _ g] exI [of _ lb]) simp
qed

definition labelled :: "tracker \<Rightarrow> tracker \<Rightarrow> address \<Rightarrow> nat \<Rightarrow> bool" where
  "labelled s s' v x \<longleftrightarrow> cells s' = cells s \<and> thread s' = thread s \<and>
     (\<forall>w. value_cell w \<longrightarrow> trackedSourceAccessSet s' w = (if w = v then x else trackedSourceAccessSet s w))"

lemma published_sealed:
  assumes n: "nested s c f f' A0 C0" and b: "budget (Suc k) s c"
    and g: "live g" "gext (graph s) g" "issued g x"
      "pathsOf g (memberSet g x) = observed (graph s) (drop (length A0) (accStack s c)) (drop (length C0) (childStack s c))"
    and size: "accesses g = accesses (graph s)" "length (accessSets g) \<le> Suc (length (accessSets (graph s)))"
      "length (accessSetItems g) \<le> length (accessSetItems (graph s)) + length (accesses (graph s))"
      "length (inputKeyItems g) \<le> length (inputKeyItems (graph s)) + length (accStack s c) + length (childStack s c)"
    and lb: "\<forall>w. value_cell w \<longrightarrow> tecnixValueLabelLoad l w = (if w = v then x else trackedSourceAccessSet s w)"
    and s': "s' = setFrame (collapseFrameToAccessSet (s\<lparr>graph := g, labels := l\<rparr>) f' x) f'
               (\<lambda>fr. fr\<lparr>fr_accessSet := x, fr_published := True\<rparr>)"
  shows "sealed s s' c f f' A0 C0 x \<and> budget k s' c \<and> labelled s s' v x"
proof -
  let ?s1 = "s\<lparr>graph := g, labels := l\<rparr>"
  from n have fr: "fr_trackingCtx (frames s ! f') = c" "fr_previous (frames s ! f') = Some f"
      "fr_accessBase (frames s ! f') = length A0" "fr_childBase (frames s ! f') = length C0"
    by (auto simp: nested_def)
  have g1: "live (graph ?s1)" "gext (graph s) (graph ?s1)" "issued (graph ?s1) x"
      "pathsOf (graph ?s1) (memberSet (graph ?s1) x)
        = observed (graph s) (drop (length A0) (accStack s c)) (drop (length C0) (childStack s c))"
      "contexts ?s1 = contexts s" "frames ?s1 = (frames s)[f' := frames s ! f']"
    using g by simp_all
  note sc = sealed_collapse [OF n g1 fr refl refl]
  have sl: "sealed s s' c f f' A0 C0 x" unfolding s' by (rule sc(1)) blast
  have "budget k s' c" by (rule sealed_budget [OF b n sl]) (use size in \<open>simp_all add: s' sc\<close>)
  moreover have "labelled s s' v x" using lb by (simp add: labelled_def s' sc trackedSourceAccessSet_def)
  ultimately show ?thesis using sl by simp
qed

lemma publishValue_sealed:
  assumes n: "nested s c f f' A0 C0" and l: "live (graph s)" and v: "value_cell v" "trackedSourceAccessSet s v = 0"
    and vi: "valid_ids (graph s) (accStack s c) (childStack s c)" and b: "budget (Suc k) s c"
    and cur: "currentTrackedValueForceFrame s v = Some f'" "\<not> fr_published (frames s ! f')"
  shows "\<exists>s' x. publishTrackedValueDependencies s v = Some s' \<and>
    sealed s s' c f f' A0 C0 x \<and> budget k s' c \<and> labelled s s' v x"
proof -
  let ?d = "drop (length A0) (accStack s c)" and ?e = "drop (length C0) (childStack s c)"
  let ?fin = "\<lambda>s1 x. setFrame (collapseFrameToAccessSet s1 f' x) f' (\<lambda>fr. fr\<lparr>fr_accessSet := x, fr_published := True\<rparr>)"
  note de = direct_nested [OF n]
  have zero: "memberSet (graph s) 0 = {}" "issued (graph s) 0"
    using acc.known_empty [OF l] l by (auto simp: live_def issued_def nodes_ok_def dest: graph_okD(2))
  consider (empty) "?d = []" "?e = []" | (child) x where "?d = []" "?e = [x]" | (many) "\<not> (?d = [] \<and> length ?e \<le> 1)"
    by (cases ?e rule: remdups_adj.cases) force+
  then show ?thesis
  proof cases
    case empty
    let ?s' = "setFrame s f' (\<lambda>fr. fr\<lparr>fr_published := True\<rparr>)"
    have r: "publishTrackedValueDependencies s v = Some ?s'"
      using cur de empty by (simp add: publishTrackedValueDependencies_def)
    have "accStack s c = A0" "childStack s c = C0" using n empty by (auto simp: nested_def)
    then have sl: "sealed s ?s' c f f' A0 C0 0"
      using n l zero by (auto simp: sealed_def setFrame_def nested_def pathsOf_def pushChild_def)
    have "budget k ?s' c" by (rule sealed_budget [OF b n sl]) (simp_all add: setFrame_def)
    moreover have "labelled s ?s' v 0" using v by (simp add: labelled_def setFrame_def trackedSourceAccessSet_def)
    ultimately show ?thesis using r sl by blast
  next
    case (child x)
    from store_label [OF v, of x] obtain lb where
      lb: "(if x \<noteq> 0 then setTrackedSourceAccessSet s v x else Some s) = Some (s\<lparr>labels := lb\<rparr>)"
        "\<forall>w. value_cell w \<longrightarrow> tecnixValueLabelLoad lb w = (if w = v then x else trackedSourceAccessSet s w)" by blast
    have "x \<in> set ?e" using child by simp
    then have "issued (graph s) x" using vi by (auto simp: valid_ids_def dest: in_set_dropD)
    then have "sealed s (?fin (s\<lparr>labels := lb\<rparr>) x) c f f' A0 C0 x \<and> budget k (?fin (s\<lparr>labels := lb\<rparr>) x) c \<and>
        labelled s (?fin (s\<lparr>labels := lb\<rparr>) x) v x"
      by (intro published_sealed [OF n b, of "graph s" _ lb]) (use l child lb in \<open>simp_all\<close>)
    moreover have "publishTrackedValueDependencies s v = Some (?fin (s\<lparr>labels := lb\<rparr>) x)"
      using lb(1) cur de child by (auto simp: publishTrackedValueDependencies_def split: if_splits)
    ultimately show ?thesis by blast
  next
    case many
    from publish_intern [OF n l v vi b] obtain x g lb where
      r: "publishTrackedSourceAccessSetDependencies s v ?d ?e = Some (x, s\<lparr>graph := g, labels := lb\<rparr>)"
      and p: "live g" "gext (graph s) g" "issued g x" "pathsOf g (memberSet g x) = observed (graph s) ?d ?e"
        "accesses g = accesses (graph s)" "length (accessSets g) \<le> Suc (length (accessSets (graph s)))"
        "length (accessSetItems g) \<le> length (accessSetItems (graph s)) + length (accesses (graph s))"
        "length (inputKeyItems g) \<le> length (inputKeyItems (graph s)) + length (accStack s c) + length (childStack s c)"
        "\<forall>w. value_cell w \<longrightarrow> tecnixValueLabelLoad lb w = (if w = v then x else trackedSourceAccessSet s w)" by blast
    from many have "\<not> (?d = [] \<and> ?e = [])" "\<not> (?d = [] \<and> length ?e = 1)" by auto
    with r cur have "publishTrackedValueDependencies s v = Some (?fin (s\<lparr>graph := g, labels := lb\<rparr>) x)"
      unfolding publishTrackedValueDependencies_def Let_def by (auto simp: de simp del: drop_eq_Nil length_drop)
    with published_sealed [OF n b p refl] show ?thesis by blast
  qed
qed

section \<open>Leaving a region\<close>

text \<open>The state a nested frame \<open>f'\<close> was opened in, and what the frame looks like.\<close>

definition opened :: "tracker \<Rightarrow> tracker \<Rightarrow> nat \<Rightarrow> nat \<Rightarrow> nat \<Rightarrow> bool" where
  "opened s s2 c f f' \<longleftrightarrow> f' = length (frames s) \<and> length (frames s2) = Suc f' \<and>
     (\<forall>i < f'. frames s2 ! i = frames s ! i) \<and> contexts s2 = contexts s \<and> graph s2 = graph s \<and> labels s2 = labels s \<and>
     fr_trackingCtx (frames s2 ! f') = c \<and> fr_previous (frames s2 ! f') = Some f \<and> \<not> fr_published (frames s2 ! f') \<and>
     fr_accessBase (frames s2 ! f') = length (accStack s c) \<and> fr_childBase (frames s2 ! f') = length (childStack s c) \<and>
     (\<forall>v. cells s v = Pending \<longrightarrow> cells s2 v = Pending)"

lemma opened_nested:
  assumes t: "tracked s c f m" and b: "budget (Suc k) s c" and o: "opened s s2 c f f'" and k: "keeps s2 s3 c"
  shows "nested s3 c f f' (accStack s c) (childStack s c)"
proof -
  from b have "length (accStack s c) + length (childStack s c) + Suc k < 2 ^ 32" by (simp add: budget_def Let_def)
  with t o k show ?thesis by (auto simp: nested_def opened_def keeps_def tracked_parts)
qed

lemma leave_sealed:
  assumes t: "tracked s c f (cs, lab, own)" and o: "opened s s2 c f f'" and k: "keeps s2 s3 c"
    and sl: "sealed s3 s4 c f f' (accStack s c) (childStack s c) x"
    and pend: "\<forall>v. cells s v = Pending \<longrightarrow> cells s4 v = Pending"
    and lab: "labels_ok s4 lab'" and th: "thread s4 = thread s"
  shows "tracked s4 c f (cells s4, lab', own \<union> pathsOf (graph s4) (memberSet (graph s4) x))" and "keeps s s4 c"
proof -
  from t have l: "live (graph s)" and vi: "valid_ids (graph s) (accStack s c) (childStack s c)" by (auto simp: tracked_def)
  from o k sl have ext: "gext (graph s) (graph s4)"
    by (auto simp: opened_def keeps_def sealed_def intro: gext_trans)
  from o t have f: "f < f'" "f < length (frames s)" by (auto simp: opened_def tracked_parts)
  have frame: "frames s4 ! i = frames s ! i" if "i < length (frames s)" for i
    using that o k sl by (auto simp: opened_def keeps_def sealed_def nth_list_update)
  have fr3: "frames s3 ! f = frames s ! f" using f o k by (simp add: opened_def keeps_def)
  have sizes: "length (frames s) \<le> length (frames s4)" "length (contexts s4) = length (contexts s)"
      "rootFrame (contexts s4 ! c) = rootFrame (contexts s ! c)"
    using o k sl by (auto simp: opened_def keeps_def sealed_def)
  have st: "accStack s4 c = accStack s c" "childStack s4 c = pushChild (fr_childBase (frames s ! f)) (childStack s c) x"
    using sl fr3 by (simp_all add: sealed_def)
  from sl have x: "issued (graph s4) x" "live (graph s4)" by (simp_all add: sealed_def)
  show "keeps s s4 c" using st ext sizes frame pend th pushChild_prefix by (simp add: keeps_def)
  have "set (childStack s4 c) \<subseteq> insert x (set (childStack s c))" by (simp add: st pushChild_def subset_insertI)
  then have valid: "valid_ids (graph s4) (accStack s4 c) (childStack s4 c)"
    using gext_observed(1) [OF l ext vi] x st by (auto simp: valid_ids_def)
  have base: "fr_childBase (frames s ! f) \<le> length (childStack s c)" using t by (auto simp: tracked_parts)
  have "valid_ids (graph s) (drop (fr_accessBase (frames s ! f)) (accStack s c)) (drop (fr_childBase (frames s ! f)) (childStack s c))"
    using vi by (auto simp: valid_ids_def dest: in_set_dropD)
  from gext_observed(2) [OF l ext this] have "region s4 c f = own \<union> pathsOf (graph s4) (memberSet (graph s4) x)"
    using t observed_pushChild [OF x(2) base] by (simp add: region_def st frame [OF f(2)] tracked_def)
  moreover have "length (childStack s c) \<le> length (childStack s4 c)" by (simp add: st pushChild_def)
  moreover have "thread_ok s4 c f"
    using t pend th frame [OF f(2)] frame sizes(1) unfolding tracked_def thread_ok_def by auto
  ultimately show "tracked s4 c f (cells s4, lab', own \<union> pathsOf (graph s4) (memberSet (graph s4) x))"
    using t x valid lab sizes f st frame [OF f(2)] by (auto simp: tracked_def open_frame_def)
qed

lemma leave_open:
  assumes t: "tracked s c f (cs, lab, own)" and o: "opened s s2 c f f'" and k: "keeps s2 s3 c"
    and t3: "tracked s3 c f' (cs3, lab3, own3)"
  shows "tracked (s3\<lparr>thread := thread s\<rparr>) c f (cs3, lab3, own \<union> own3)" and "keeps s (s3\<lparr>thread := thread s\<rparr>) c"
proof -
  let ?s4 = "s3\<lparr>thread := thread s\<rparr>"
  from t have l: "live (graph s)" and vi: "valid_ids (graph s) (accStack s c) (childStack s c)" by (auto simp: tracked_def)
  from o k have ext: "gext (graph s) (graph s3)" and pend: "\<forall>v. cells s v = Pending \<longrightarrow> cells s3 v = Pending"
    by (auto simp: opened_def keeps_def)
  from o t have f: "f < f'" "f < length (frames s)" by (auto simp: opened_def tracked_parts)
  have frame: "frames s3 ! i = frames s ! i" if "i < length (frames s)" for i
    using that o k by (auto simp: opened_def keeps_def)
  have sizes: "length (frames s) \<le> length (frames s3)" "length (contexts s3) = length (contexts s)"
      "rootFrame (contexts s3 ! c) = rootFrame (contexts s ! c)"
    using o k by (auto simp: opened_def keeps_def)
  from o k obtain A1 C1 where st: "accStack s3 c = accStack s c @ A1" "childStack s3 c = childStack s c @ C1"
    by (auto simp: opened_def keeps_def)
  have fr3: "fr_accessBase (frames s3 ! f') = length (accStack s c)" "fr_childBase (frames s3 ! f') = length (childStack s c)"
    using o k by (auto simp: opened_def keeps_def)
  show "keeps s ?s4 c" using st ext sizes frame pend by (simp add: keeps_def)
  have base: "fr_accessBase (frames s ! f) \<le> length (accStack s c)" "fr_childBase (frames s ! f) \<le> length (childStack s c)"
    using t by (auto simp: tracked_parts)
  have "valid_ids (graph s) (drop (fr_accessBase (frames s ! f)) (accStack s c)) (drop (fr_childBase (frames s ! f)) (childStack s c))"
    using vi by (auto simp: valid_ids_def dest: in_set_dropD)
  from gext_observed(2) [OF l ext this] have "region ?s4 c f = own \<union> own3"
    using t t3 base by (simp add: region_def st fr3 frame [OF f(2)] tracked_def observed_append)
  moreover have "thread_ok ?s4 c f"
    using t pend frame [OF f(2)] frame sizes(1) unfolding tracked_def thread_ok_def by auto
  ultimately show "tracked ?s4 c f (cs3, lab3, own \<union> own3)"
    using t t3 sizes f st frame [OF f(2)]
    by (auto simp: tracked_def open_frame_def labels_ok_def trackedSourceAccessSet_def)
qed

section \<open>Forcing keeps the invariant\<close>

definition value_frame :: "tracker \<Rightarrow> nat \<Rightarrow> address \<Rightarrow> bool" where
  "value_frame s f' v \<longleftrightarrow> fr_value (frames s ! f') = Some v \<and> fr_nearestValueForceFrame (frames s ! f') = Some f' \<and>
     ts_valueDependencyPublishValue (thread s) = Some v"

lemma nested_keeps: "nested s c f f' A0 C0 \<Longrightarrow> keeps s s' c \<Longrightarrow> nested s' c f f' A0 C0"
  by (auto simp: nested_def keeps_def)

lemma value_frame_keeps: "f' < length (frames s) \<Longrightarrow> value_frame s f' v \<Longrightarrow> keeps s s' c \<Longrightarrow> value_frame s' f' v"
  by (auto simp: value_frame_def keeps_def)

lemma finish_forced:
  assumes t: "tracked s c f' (cs, lab, own)" and n: "nested s c f f' A0 C0" and v: "value_cell v" "value_frame s f' v"
    and st: "st = Finished \<or> st = Failed" and b: "budget (Suc k) s c"
  shows "\<exists>s' x. finishValue s v st = Some s' \<and> sealed s s' c f f' A0 C0 x \<and> budget k s' c \<and> thread s' = thread s \<and>
    cells s' = cs(v := st) \<and> labels_ok s' (lab(v := own)) \<and> pathsOf (graph s') (memberSet (graph s') x) = own"
proof -
  let ?s0 = "s\<lparr>labels := tecnixValueLabelClear (labels s) v\<rparr>"
  from t have l: "live (graph ?s0)" and vi: "valid_ids (graph ?s0) (accStack ?s0 c) (childStack ?s0 c)"
    and pub: "\<not> fr_published (frames ?s0 ! f')" and ts: "ts_sourceDepsFrame (thread s) = Some f'" and pend: "cells s v = Pending"
    using v(2) by (auto simp: tracked_parts value_frame_def)
  have n0: "nested ?s0 c f f' A0 C0" and b0: "budget (Suc k) ?s0 c"
    using n b by (simp_all add: nested_def budget_def)
  have clear: "trackedSourceAccessSet ?s0 w = (if w = v then 0 else trackedSourceAccessSet s w)" if "value_cell w" for w
    using lab.load_clear [OF v(1) that] by (simp add: trackedSourceAccessSet_def)
  have cur: "currentTrackedValueForceFrame ?s0 v = Some f'"
    using ts v(2) by (simp add: currentTrackedValueForceFrame_def value_frame_def)
  have "trackedSourceAccessSet ?s0 v = 0" using clear v(1) by simp
  from publishValue_sealed [OF n0 l v(1) this vi b0 cur pub] obtain s1 x where
    r: "publishTrackedValueDependencies ?s0 v = Some s1" and sl: "sealed ?s0 s1 c f f' A0 C0 x"
      and b1: "budget k s1 c" and lb: "labelled ?s0 s1 v x" by blast
  let ?s' = "s1\<lparr>cells := (cells s1)(v := st)\<rparr>"
  have "finishValue s v st = Some ?s'"
    using r v(2) lb pend by (simp add: finishValue_def tecnixValueFinishHook_def value_frame_def labelled_def)
  moreover have sl': "sealed s ?s' c f f' A0 C0 x" using sl unfolding sealed_def by simp (elim conjE; simp)
  moreover have "budget k ?s' c" using b1 by (simp add: budget_def)
  moreover have paths: "pathsOf (graph ?s') (memberSet (graph ?s') x) = own"
    using t n sl by (simp add: sealed_def tracked_def region_def nested_def)
  moreover have "labels_ok ?s' (lab(v := own))"
    unfolding labels_ok_def
  proof (intro allI impI)
    fix w assume w: "value_cell w" "cells ?s' w \<in> {Finished, Failed}"
    have ext: "gext (graph s) (graph s1)" using sl by (simp add: sealed_def)
    have lw: "trackedSourceAccessSet ?s' w = (if w = v then x else trackedSourceAccessSet s w)"
      using lb clear w(1) by (simp add: labelled_def trackedSourceAccessSet_def)
    show "issued (graph ?s') (trackedSourceAccessSet ?s' w) \<and>
        pathsOf (graph ?s') (memberSet (graph ?s') (trackedSourceAccessSet ?s' w)) = (lab(v := own)) w"
    proof (cases "w = v")
      case True
      with lw paths sl show ?thesis by (simp add: sealed_def)
    next
      case False
      with w t lb have "issued (graph s) (trackedSourceAccessSet s w)"
          "pathsOf (graph s) (memberSet (graph s) (trackedSourceAccessSet s w)) = lab w"
        by (auto simp: tracked_def labels_ok_def labelled_def)
      with gext_label [OF _ ext] l lw False show ?thesis by simp
    qed
  qed
  ultimately show ?thesis
    using t lb by (intro exI [of _ ?s'] exI [of _ x]) (simp add: labelled_def tracked_def)
qed

lemma copy_forced:
  assumes t: "tracked s c f' (cs, lab, own)" and n: "nested s c f f' A0 C0" and v: "value_cell v" "value_frame s f' v"
    and w: "value_cell w" "cs w = Finished \<or> cs w = Failed" and b: "budget (Suc (Suc k)) s c"
  shows "\<exists>s1 s' x. copyValue s v w = Some s' \<and> keeps s s1 c \<and> sealed s1 s' c f f' A0 C0 x \<and> budget k s' c \<and> thread s' = thread s \<and>
    cells s' = cs(v := cs w) \<and> labels_ok s' (lab(v := own \<union> lab w)) \<and> pathsOf (graph s') (memberSet (graph s') x) = own \<union> lab w"
proof -
  from t v have f: "f' < length (frames s)" and cells: "cells s = cs" and ts: "ts_sourceDepsFrame (thread s) = Some f'"
      "ts_trackingContext (thread s) = Some c" and pend: "cs v = Pending"
    by (auto simp: tracked_parts value_frame_def)
  with w have ne: "v \<noteq> w" by auto
  from t w have lw: "issued (graph s) (trackedSourceAccessSet s w)"
      "pathsOf (graph s) (memberSet (graph s) (trackedSourceAccessSet s w)) = lab w"
    by (auto simp: tracked_def labels_ok_def)
  let ?s1 = "addFrameChild s f' (trackedSourceAccessSet s w)"
  note a = addFrameChild_tracked [OF t lw(1) b, unfolded lw(2)]
  have s1: "copyTrackedValueDependencies s v w = ?s1"
    using ts v(2) ne by (simp add: copyTrackedValueDependencies_def currentTrackedValueForceFrame_def value_frame_def)
  from finish_forced [OF a(1) nested_keeps [OF n a(2)] v(1) value_frame_keeps [OF f v(2) a(2)] w(2) a(3)]
  obtain s' x where r: "finishValue ?s1 v (cs w) = Some s'" and sl: "sealed ?s1 s' c f f' A0 C0 x"
    and p: "budget k s' c" "thread s' = thread ?s1" "cells s' = cs(v := cs w)" "labels_ok s' (lab(v := own \<union> lab w))"
      "pathsOf (graph s') (memberSet (graph s') x) = own \<union> lab w" by blast
  have th: "thread s' = thread s" using p(2) a(2) by (simp add: keeps_def)
  have "f' < length (frames ?s1)" "value_frame ?s1 f' v" using f value_frame_keeps [OF f v(2) a(2)] a(2) by (auto simp: keeps_def)
  then have "currentTrackedValueForceFrame s' v = Some f'"
    using sl ts by (auto simp: sealed_def currentTrackedValueForceFrame_def value_frame_def th)
  then have "publishCopiedValueDependencies s' v w = Some s'"
    by (simp add: publishCopiedValueDependencies_def)
  with r w cells s1 have "copyValue s v w = Some s'" by (auto simp: copyValue_def)
  with a(2) sl p th show ?thesis by blast
qed

definition enterForce :: "tracker \<Rightarrow> nat \<Rightarrow> address \<Rightarrow> tracker" where
  "enterForce s c v =
     (let (f, s1) = newFrame s c (Some v) (ts_sourceDepsFrame (thread s))
      in s1\<lparr>thread := (thread s1)\<lparr>ts_sourceDepsFrame := Some f, ts_valueDependencyPublishValue := Some v\<rparr>\<rparr>)"

abbreviation pending :: "tracker \<Rightarrow> address \<Rightarrow> tracker" where
  "pending s v \<equiv> s\<lparr>cells := (cells s)(v := Pending)\<rparr>"

lemma budget_small: "budget k s c \<Longrightarrow> length (accStack s c) < 2 ^ 32 \<and> length (childStack s c) < 2 ^ 32"
  by (simp add: budget_def Let_def)

lemma enterForce_opened:
  assumes t: "tracked s c f (cs, lab, own)" and v: "cs v = Thunk" and b: "budget k s c"
  shows "opened s (pending (enterForce s c v) v) c f (length (frames s))"
    and "tracked (pending (enterForce s c v) v) c (length (frames s)) (cs(v := Pending), lab, {})"
    and "value_frame (pending (enterForce s c v) v) (length (frames s)) v"
    and "budget k (pending (enterForce s c v) v) c"
  using t v b budget_small [OF b]
  by (auto simp: enterForce_def newFrame_def Let_def opened_def tracked_parts value_frame_def budget_def region_def
      labels_ok_def trackedSourceAccessSet_def nth_append)

lemma merge_sealed:
  assumes "sealed s s' c f f' A0 C0 x" "f' < length (frames s)"
  shows "mergeUnpublishedTrackedSourceDepsFrame s' f' = s'" "fr_published (frames s' ! f')"
  using assms by (auto simp: sealed_def mergeUnpublishedTrackedSourceDepsFrame_def truncateFrame_def setCtx_def)

lemma sealed_thread [simp]: "sealed s (s'\<lparr>thread := th\<rparr>) c f f' A0 C0 x = sealed s s' c f f' A0 C0 x"
  by (simp add: sealed_def)

lemma merge_thread: "mergeUnpublishedTrackedSourceDepsFrame (s\<lparr>thread := th\<rparr>) f = (mergeUnpublishedTrackedSourceDepsFrame s f)\<lparr>thread := th\<rparr>"
  by (simp add: mergeUnpublishedTrackedSourceDepsFrame_def truncateFrame_def setCtx_def)

lemma enterForce_thread:
  "thread (enterForce s c v) = (thread s)\<lparr>ts_sourceDepsFrame := Some (length (frames s)), ts_valueDependencyPublishValue := Some v\<rparr>"
  "cells (enterForce s c v) = cells s"
  by (simp_all add: enterForce_def newFrame_def Let_def)

lemma forceTracked_result:
  assumes t: "tracked s c f (cs, lab, own)" and v: "cs v = Thunk" and b: "budget k0 s c"
    and vf: "valueForce body (enterForce s c v) v = Some (s4, threw)"
    and k: "keeps (pending (enterForce s c v) v) s3 c"
    and sl: "sealed s3 s4 c f (length (frames s)) (accStack s c) (childStack s c) x"
    and s4: "thread s4 = thread (enterForce s c v)" "labels_ok s4 lab'" "pathsOf (graph s4) (memberSet (graph s4) x) = own'"
      "cells s4 = cs'" "\<forall>w. cs w = Pending \<longrightarrow> cs' w = Pending" "budget k' s4 c"
  shows "\<exists>s'. forceValueTracked body s c v = Some (s', threw) \<and> tracked s' c f (cs', lab', own \<union> own') \<and> keeps s s' c \<and> budget k' s' c"
proof -
  let ?s' = "s4\<lparr>thread := thread s\<rparr>"
  note o = enterForce_opened [OF t v b]
  have f: "length (frames s) < length (frames s3)" using o(1) k by (auto simp: opened_def keeps_def)
  note m = merge_sealed [OF sl f]
  have vs: "cells s v = Thunk" using t v by (simp add: tracked_def)
  obtain s1 where nf: "newFrame s c (Some v) (ts_sourceDepsFrame (thread s)) = (length (frames s), s1)"
    by (simp add: newFrame_def Let_def)
  have e: "enterForce s c v = s1\<lparr>thread := (thread s1)\<lparr>ts_sourceDepsFrame := Some (length (frames s)), ts_valueDependencyPublishValue := Some v\<rparr>\<rparr>"
    by (simp add: enterForce_def nf)
  have th: "(thread s4)\<lparr>ts_sourceDepsFrame := ts_sourceDepsFrame (thread s),
      ts_valueDependencyPublishValue := ts_valueDependencyPublishValue (thread s)\<rparr> = thread s"
    unfolding s4(1) enterForce_thread by simp
  have "forceValueTracked body s c v = Some (?s', threw)"
    using vs vf m unfolding forceValueTracked_def by (simp add: nf e [symmetric] merge_thread th)
  moreover have "sealed s3 ?s' c f (length (frames s)) (accStack s c) (childStack s c) x" using sl by simp
  from leave_sealed [OF t o(1) k this]
  have "tracked ?s' c f (cs', lab', own \<union> own')" "keeps s ?s' c"
    using s4(2-5) t by (auto simp: tracked_def labels_ok_def trackedSourceAccessSet_def)
  moreover have "budget k' ?s' c" using s4(6) by (simp add: budget_def)
  ultimately show ?thesis by blast
qed

section \<open>The simulation\<close>

definition simulated :: "(tracker \<times> bool) option \<Rightarrow> tracker \<Rightarrow> nat \<Rightarrow> nat \<Rightarrow> meaning \<Rightarrow> bool \<Rightarrow> nat \<Rightarrow> bool" where
  "simulated run s c f m threw k \<longleftrightarrow>
     (\<exists>s'. run = Some (s', threw) \<and> tracked s' c f m \<and> keeps s s' c \<and> budget k s' c)"

lemma simulatedI: "run = Some (s', threw) \<Longrightarrow> tracked s' c f m \<Longrightarrow> keeps s s' c \<Longrightarrow> budget k s' c \<Longrightarrow> simulated run s c f m threw k"
  by (auto simp: simulated_def)

abbreviation thunkBody :: "(tracker \<Rightarrow> (tracker \<times> bool) option) \<Rightarrow> address \<Rightarrow> address option \<Rightarrow> tracker \<Rightarrow> (tracker \<times> bool) option" where
  "thunkBody run v tail \<equiv> (\<lambda>s0. do {
          (s1, threw) \<leftarrow> run s0;
          (if threw then Some (s1, True)
           else map_option (\<lambda>s2. (s2, False))
                  (case tail of None \<Rightarrow> finishValue s1 v Finished | Some w \<Rightarrow> copyValue s1 v w))
        })"

lemma force_thunk_simulated:
  assumes t: "tracked s c f (cs, lab, own)" and v: "cs v = Thunk" "value_cell v"
    and tail: "case tail of None \<Rightarrow> True | Some w \<Rightarrow> value_cell w" and b: "budget (2 + n + k) s c"
    and body: "simulated (run (pending (enterForce s c v) v)) (pending (enterForce s c v) v) c (length (frames s)) (cs1, lab1, own1) threw (2 + k)"
    and spec: "(if threw then Some ((cs1(v := Failed), lab1(v := own1), own \<union> own1), True)
           else case tail of
             None \<Rightarrow> Some ((cs1(v := Finished), lab1(v := own1), own \<union> own1), False)
           | Some w \<Rightarrow>
               (if cs1 w \<in> {Finished, Failed}
                then Some ((cs1(v := cs1 w), lab1(v := own1 \<union> lab1 w), own \<union> (own1 \<union> lab1 w)), False)
                else None)) = Some (m', threw')"
  shows "simulated (forceValueTracked (thunkBody run v tail) s c v) s c f m' threw' k"
proof -
  let ?s2 = "pending (enterForce s c v) v" and ?f = "length (frames s)"
  from body obtain s3 where r: "run ?s2 = Some (s3, threw)" and t3: "tracked s3 c ?f (cs1, lab1, own1)"
    and k3: "keeps ?s2 s3 c" and b3: "budget (Suc (Suc k)) s3 c" by (auto simp: simulated_def)
  note o = enterForce_opened [OF t v(1) b]
  have vf: "valueForce B (enterForce s c v) v = do {(s1, threw) \<leftarrow> B ?s2;
      (if threw then map_option (\<lambda>s2. (s2, True)) (finishValue s1 v Failed) else Some (s1, False))}" for B
    using t v(1) by (simp add: valueForce_def enterForce_thread tracked_def)
  have "budget (Suc (1 + n + k)) s c" using b by simp
  note n = opened_nested [OF t this o(1) k3]
  have f3: "value_frame s3 ?f v" using value_frame_keeps [OF _ o(3) k3] o(1) by (simp add: opened_def)
  have pend: "\<forall>w. cs w = Pending \<longrightarrow> (cs1(v := st)) w = Pending" for st
    using k3 t t3 v(1) by (auto simp: keeps_def tracked_def enterForce_thread)
  have th3: "thread s3 = thread (enterForce s c v)" using k3 by (simp add: keeps_def)
  consider (copy) w where "\<not> threw" "tail = Some w" "cs1 w = Finished \<or> cs1 w = Failed" "value_cell w"
      "m' = (cs1(v := cs1 w), lab1(v := own1 \<union> lab1 w), own \<union> (own1 \<union> lab1 w))" "\<not> threw'"
    | (finish) st where "st = Finished \<or> st = Failed" "m' = (cs1(v := st), lab1(v := own1), own \<union> own1)" "threw' = threw"
        "threw \<longrightarrow> st = Failed" "\<not> threw \<longrightarrow> st = Finished \<and> tail = None"
  proof (cases threw)
    case True
    with spec finish [of Failed] show ?thesis by simp
  next
    case False
    with spec finish [of Finished] copy tail show ?thesis by (cases tail) (simp_all split: if_splits)
  qed
  then show ?thesis
  proof cases
    case (finish st)
    from finish_forced [OF t3 n v(2) f3 finish(1) b3] obtain s4 x where
      s4: "finishValue s3 v st = Some s4" "sealed s3 s4 c f ?f (accStack s c) (childStack s c) x" "budget (Suc k) s4 c"
        "thread s4 = thread s3" "cells s4 = cs1(v := st)" "labels_ok s4 (lab1(v := own1))"
        "pathsOf (graph s4) (memberSet (graph s4) x) = own1" by blast
    have "valueForce (thunkBody run v tail) (enterForce s c v) v = Some (s4, threw)"
      using r s4(1) finish by (cases threw) (simp_all add: vf)
    from forceTracked_result [where cs' = "cs1(v := st)", OF t v(1) b this k3 s4(2) _ s4(6,7,5) pend s4(3)] show ?thesis
      using budget_mono [of 1 k] finish by (auto simp: simulated_def s4(4) th3)
  next
    case (copy w)
    from copy_forced [OF t3 n v(2) f3 copy(4,3) b3] obtain s1 s4 x where
      s4: "copyValue s3 v w = Some s4" "keeps s3 s1 c" "sealed s1 s4 c f ?f (accStack s c) (childStack s c) x" "budget k s4 c"
        "thread s4 = thread s3" "cells s4 = cs1(v := cs1 w)" "labels_ok s4 (lab1(v := own1 \<union> lab1 w))"
        "pathsOf (graph s4) (memberSet (graph s4) x) = own1 \<union> lab1 w" by blast
    have "valueForce (thunkBody run v tail) (enterForce s c v) v = Some (s4, False)"
      using r s4(1) copy by (simp add: vf)
    from forceTracked_result [where cs' = "cs1(v := cs1 w)", OF t v(1) b this keeps_trans [OF k3 s4(2)] s4(3) _ s4(7,8,6) pend s4(4)] show ?thesis
      using copy by (auto simp: simulated_def s4(5) th3)
  qed
qed

lemma recordPublished_simulated:
  assumes t: "tracked s c f (cs, lab, own)" and v: "cs v = Finished \<or> cs v = Failed" "value_cell v" and b: "budget (Suc k) s c"
  shows "simulated (Some (recordPublishedDependencies s c v, threw)) s c f (cs, lab, own \<union> lab v) threw k"
proof -
  from t v have l: "issued (graph s) (trackedSourceAccessSet s v)"
      "pathsOf (graph s) (memberSet (graph s) (trackedSourceAccessSet s v)) = lab v"
    and ts: "ts_sourceDepsFrame (thread s) = Some f"
    by (auto simp: tracked_parts labels_ok_def)
  have "recordPublishedDependencies s c v = addFrameChild s f (trackedSourceAccessSet s v)"
    using ts by (simp add: recordPublishedDependencies_def recordTrackedSourceAccessSetDependency_def addToCurrentFrame_def)
  with addFrameChild_tracked [OF t l(1) b] l(2) show ?thesis by (simp add: simulated_def)
qed

lemma force_simulated:
  assumes t: "tracked s c f (cs, lab, own)" and a: "addressed (Force v body tail)" and b: "budget (cost (Force v body tail) + k) s c"
    and spec: "sexec (Force v body tail) (cs, lab, own) = Some (m', threw)"
    and IH: "\<And>m1 t1. cs v = Thunk \<Longrightarrow> sexecs body (cs(v := Pending), lab, {}) = Some (m1, t1) \<Longrightarrow>
      simulated (execs body c (pending (enterForce s c v) v)) (pending (enterForce s c v) v) c (length (frames s)) m1 t1 (2 + k)"
  shows "simulated (exec (Force v body tail) c s) s c f m' threw k"
proof -
  have e: "exec (Force v body tail) c s = forceValueTracked (thunkBody (execs body c) v tail) s c v"
    using t by (simp add: forceValue_def tracked_parts)
  have cells: "cells s = cs" using t by (simp add: tracked_def)
  have b1: "budget (Suc k) s c" "budget k s c" and vc: "value_cell v"
    using b budget_mono [of "1 + costs body" "Suc k" s c] budget_mono [of "2 + costs body" k s c] a by simp_all
  show ?thesis
  proof (cases "cs v")
    case Thunk
    with spec obtain cs1 lab1 own1 t1 where r: "sexecs body (cs(v := Pending), lab, {}) = Some ((cs1, lab1, own1), t1)"
      by (cases "sexecs body (cs(v := Pending), lab, {})") auto
    note sp = spec [unfolded sexec.simps Thunk cell_state.case r bind.bind_lunit prod.case]
    show ?thesis unfolding e
      by (rule force_thunk_simulated [where run = "execs body c" and n = "costs body", OF t Thunk vc _ _ IH [OF Thunk r] sp])
        (use a b in simp_all)
  next
    case Finished
    with recordPublished_simulated [OF t _ vc b1(1), of False] spec cells show ?thesis
      unfolding e by (auto simp: forceValueTracked_def)
  next
    case Failed
    then have v: "cs v = Finished \<or> cs v = Failed" by simp
    note sim = recordPublished_simulated [OF t v vc b1(1), of True]
    then have "cells (recordPublishedDependencies s c v) v = Failed"
      using Failed by (simp add: simulated_def tracked_def)
    then have "exec (Force v body tail) c s = Some (recordPublishedDependencies s c v, True)"
      unfolding e using cells Failed by (simp add: forceValueTracked_def valueForce_def)
    with sim spec Failed show ?thesis by simp
  next
    case Pending
    with t b1 spec cells show ?thesis
      unfolding e by (auto simp: forceValueTracked_def valueForce_def simulated_def)
  next
    case Uninit
    with spec show ?thesis by simp
  qed
qed

section \<open>Scopes and copies\<close>

lemma openScope_opened:
  assumes t: "tracked s c f (cs, lab, own)" and b: "budget k s c" and o: "openScope s c = (f', s2)"
  shows "f' = length (frames s)" "opened s s2 c f f'" "tracked s2 c f' (cs, lab, {})" "budget k s2 c"
    "thread s2 = (thread s)\<lparr>ts_sourceDepsFrame := Some f'\<rparr>"
  using t o budget_small [OF b] b
  by (auto simp: openScope_def setCurrentFrame_def newFrame_def Let_def opened_def tracked_parts budget_def region_def
      labels_ok_def trackedSourceAccessSet_def nth_append split: option.splits)

lemma internFrame_region:
  assumes n: "nested s c f f' A0 C0" and l: "live (graph s)"
    and vi: "valid_ids (graph s) (accStack s c) (childStack s c)" and b: "budget (Suc k) s c"
  shows "\<exists>x g. internFrameAccessSet s f' = Some (x, s\<lparr>graph := g\<rparr>) \<and> live g \<and> gext (graph s) g \<and> issued g x \<and>
    pathsOf g (memberSet g x) = observed (graph s) (drop (length A0) (accStack s c)) (drop (length C0) (childStack s c)) \<and>
    accesses g = accesses (graph s) \<and> length (accessSets g) \<le> Suc (length (accessSets (graph s))) \<and>
    length (accessSetItems g) \<le> length (accessSetItems (graph s)) + length (accesses (graph s)) \<and>
    length (inputKeyItems g) \<le> length (inputKeyItems (graph s)) + length (accStack s c) + length (childStack s c)"
proof (cases "frameHasSourceDeps s f'")
  case False
  then have "drop (length A0) (accStack s c) = []" "drop (length C0) (childStack s c) = []"
    using n by (auto simp: frameHasSourceDeps_def nested_def ctxOf_def)
  moreover have "memberSet (graph s) 0 = {}" "issued (graph s) 0"
    using acc.known_empty [OF l] l by (auto simp: live_def issued_def nodes_ok_def dest: graph_okD(2))
  moreover have "internFrameAccessSet s f' = Some (0, s\<lparr>graph := graph s\<rparr>)"
    using False by (simp add: internFrameAccessSet_def)
  ultimately show ?thesis using l by (intro exI [of _ 0] exI [of _ "graph s"]) (simp add: pathsOf_def)
next
  case True
  let ?d = "drop (length A0) (accStack s c)" and ?e = "drop (length C0) (childStack s c)"
  from b have room: "length (accesses (graph s)) < 2 ^ 32" "length (accessSets (graph s)) < 2 ^ 32"
      "length (accessSetItems (graph s)) + length (accesses (graph s)) < 2 ^ 32"
      "length (inputKeyItems (graph s)) + length ?d + length ?e < 2 ^ 32"
    by (auto simp: budget_def Let_def)
  have "valid_ids (graph s) ?d ?e" using vi by (auto simp: valid_ids_def dest: in_set_dropD)
  from internAccessSet_region [OF l this room] obtain x g where
    r: "internAccessSet (graph s) ?d ?e = Some (x, g)" "live g" "gext (graph s) g" "issued g x"
      "pathsOf g (memberSet g x) = observed (graph s) ?d ?e" "accesses g = accesses (graph s)"
      "length (accessSets g) \<le> Suc (length (accessSets (graph s)))"
      "length (accessSetItems g) \<le> length (accessSetItems (graph s)) + length (accesses (graph s))"
      "length (inputKeyItems g) \<le> length (inputKeyItems (graph s)) + length ?d + length ?e" by auto
  then have "internFrameAccessSet s f' = Some (x, s\<lparr>graph := g\<rparr>)"
    using True by (simp add: internFrameAccessSet_def direct_nested [OF n])
  with r show ?thesis by (intro exI [of _ x] exI [of _ g]) simp
qed

lemma finishScope_sealed:
  assumes t: "tracked s c f' (cs, lab, own)" and n: "nested s c f f' A0 C0" and b: "budget (Suc k) s c"
  shows "\<exists>s' x. finishScope s f' prev None = Some (x, s') \<and> sealed s s' c f f' A0 C0 x \<and> budget k s' c \<and>
    thread s' = (thread s)\<lparr>ts_sourceDepsFrame := prev\<rparr> \<and> cells s' = cs \<and> labels_ok s' lab \<and>
    pathsOf (graph s') (memberSet (graph s') x) = own"
proof -
  let ?s1 = "setCurrentFrame s prev"
  from t have l: "live (graph ?s1)" and vi: "valid_ids (graph ?s1) (accStack ?s1 c) (childStack ?s1 c)"
    and ts: "ts_sourceDepsFrame (thread s) = Some f'" and pub: "\<not> fr_published (frames s ! f')"
    by (auto simp: tracked_parts setCurrentFrame_def)
  have n1: "nested ?s1 c f f' A0 C0" and b1: "budget (Suc k) ?s1 c"
    using n b by (simp_all add: nested_def budget_def setCurrentFrame_def)
  from internFrame_region [OF n1 l vi b1] obtain x g where
    r: "internFrameAccessSet ?s1 f' = Some (x, ?s1\<lparr>graph := g\<rparr>)" and g: "live g" "gext (graph s) g" "issued g x"
      "pathsOf g (memberSet g x) = observed (graph s) (drop (length A0) (accStack s c)) (drop (length C0) (childStack s c))"
    and size: "accesses g = accesses (graph s)" "length (accessSets g) \<le> Suc (length (accessSets (graph s)))"
      "length (accessSetItems g) \<le> length (accessSetItems (graph s)) + length (accesses (graph s))"
      "length (inputKeyItems g) \<le> length (inputKeyItems (graph s)) + length (accStack s c) + length (childStack s c)"
    by (auto simp: setCurrentFrame_def)
  let ?s2 = "setFrame (?s1\<lparr>graph := g\<rparr>) f' (fr_accessSet_update (\<lambda>_. x))"
  let ?s' = "setFrame (collapseFrameToAccessSet ?s2 f' x) f' (fr_published_update (\<lambda>_. True))"
  have fin: "finishScope s f' prev None = Some (x, ?s')"
    using pub ts r by (simp add: finishScope_def)
  from n have fr: "f' < length (frames s)" "fr_trackingCtx (frames s ! f') = c" "fr_previous (frames s ! f') = Some f"
      "fr_accessBase (frames s ! f') = length A0" "fr_childBase (frames s ! f') = length C0"
    by (auto simp: nested_def)
  have s2: "graph ?s2 = g" "contexts ?s2 = contexts s" "labels ?s2 = labels s" "cells ?s2 = cells s"
      "thread ?s2 = (thread s)\<lparr>ts_sourceDepsFrame := prev\<rparr>"
      "frames ?s2 = (frames s)[f' := (frames s ! f')\<lparr>fr_accessSet := x\<rparr>]"
    by (simp_all add: setFrame_def setCurrentFrame_def)
  note sc = sealed_collapse [OF n, of ?s2 x "(frames s ! f')\<lparr>fr_accessSet := x\<rparr>", unfolded s2(1), OF g s2(2,6)]
  have sl: "sealed s ?s' c f f' A0 C0 x" by (rule sc(1)) (use fr in \<open>simp_all\<close>)
  have rest: "labels ?s' = labels s" "thread ?s' = (thread s)\<lparr>ts_sourceDepsFrame := prev\<rparr>" "cells ?s' = cells s" "graph ?s' = g"
    using sc(2-5) fr s2 by simp_all
  have "budget k ?s' c" by (rule sealed_budget [OF b n sl]) (use size rest in simp_all)
  moreover have "labels_ok ?s' lab"
    using t rest gext_label [OF _ g(2)] by (auto simp: tracked_def labels_ok_def trackedSourceAccessSet_def)
  moreover have "pathsOf (graph ?s') (memberSet (graph ?s') x) = own"
    using t n g rest by (simp add: tracked_def region_def nested_def)
  ultimately show ?thesis using fin sl rest t by (auto simp: tracked_def)
qed

lemma internAccessSet_child: "enabled g \<Longrightarrow> x \<noteq> 0 \<Longrightarrow> internAccessSet g [] [x] = Some (x, g)"
  by (simp add: internAccessSet_def canonicaliseAccessSetInput_def sort_unique_def)

lemma assign_simulated:
  assumes t: "tracked s c f (cs, lab, own)" and a: "value_cell dst" "value_cell src" "dst \<noteq> src"
    and st: "cs src = Finished \<or> cs src = Failed" "cs dst \<noteq> Thunk" "cs dst \<noteq> Pending" and b: "budget k s c"
  shows "simulated (map_option (\<lambda>s1. (s1, False)) (copyValue s dst src)) s c f (cs(dst := cs src), lab(dst := lab src), own) False k"
proof -
  from t have th: "ts_trackingContext (thread s) = Some c" "live (graph s)" and cells: "cells s = cs"
    and lb: "labels_ok s lab" by (auto simp: tracked_parts)
  from t st have free: "currentTrackedValueForceFrame (s\<lparr>labels := l, cells := cl\<rparr>) dst = None" "ts_valueDependencyPublishValue (thread s) \<noteq> Some dst" for l cl
    by (auto simp: currentTrackedValueForceFrame_def tracked_parts split: option.splits)
  have free0: "currentTrackedValueForceFrame s dst = None" using free(1) [where l = "labels s" and cl = "cells s"] by simp
  let ?x = "trackedSourceAccessSet s src"
  let ?s1 = "s\<lparr>labels := tecnixValueLabelClear (labels s) dst, cells := cs(dst := cs src)\<rparr>"
  have fin: "finishValue s dst (cs src) = Some ?s1"
    using free st cells by (simp add: finishValue_def tecnixValueFinishHook_def)
  have clear: "trackedSourceAccessSet ?s1 w = (if w = dst then 0 else trackedSourceAccessSet s w)" if "value_cell w" for w
    using lab.load_clear [OF a(1) that] by (simp add: trackedSourceAccessSet_def)
  from clear a have x1: "trackedSourceAccessSet ?s1 src = ?x" "trackedSourceAccessSet ?s1 dst = 0" by simp_all
  from store_label [OF a(1) x1(2), of ?x] obtain l' where
    l': "(if ?x \<noteq> 0 then setTrackedSourceAccessSet ?s1 dst ?x else Some ?s1) = Some (?s1\<lparr>labels := l'\<rparr>)"
      "\<forall>w. value_cell w \<longrightarrow> tecnixValueLabelLoad l' w = (if w = dst then ?x else trackedSourceAccessSet ?s1 w)" by blast
  let ?s' = "s\<lparr>labels := l', cells := cs(dst := cs src)\<rparr>"
  have "publishCopiedValueDependencies ?s1 dst src = Some ?s'"
    unfolding publishCopiedValueDependencies_def x1(1)
  proof (cases "?x = 0")
    case False
    then have "internAccessSet (graph ?s1) [] [?x] = Some (?x, graph ?s1)"
      using th by (simp add: internAccessSet_child live_def)
    with False l'(1) th free(1) a(3) show "(if ts_trackingContext (thread ?s1) = None \<or> dst = src then Some ?s1
        else if currentTrackedValueForceFrame ?s1 dst \<noteq> None then Some ?s1 else if ?x = 0 then Some ?s1
        else map_option snd (publishTrackedSourceAccessSetDependencies ?s1 dst [] [?x])) = Some ?s'"
      by (simp add: publishTrackedSourceAccessSetDependencies_def)
  qed (use l'(1) th free(1) a(3) in simp)
  then have r: "copyValue s dst src = Some ?s'"
    using fin st(1) a(3) cells th free0 by (auto simp: copyValue_def copyTrackedValueDependencies_def simp del: fun_upd_apply)
  have "labels_ok ?s' (lab(dst := lab src))"
    unfolding labels_ok_def
  proof (intro allI impI)
    fix w assume w: "value_cell w" "cells ?s' w \<in> {Finished, Failed}"
    have "trackedSourceAccessSet ?s' w = (if w = dst then ?x else trackedSourceAccessSet s w)"
      using l'(2) clear w(1) by (simp add: trackedSourceAccessSet_def)
    with lb w a st cells show "issued (graph ?s') (trackedSourceAccessSet ?s' w) \<and>
        pathsOf (graph ?s') (memberSet (graph ?s') (trackedSourceAccessSet ?s' w)) = (lab(dst := lab src)) w"
      by (auto simp: labels_ok_def split: if_splits)
  qed
  then have "tracked ?s' c f (cs(dst := cs src), lab(dst := lab src), own)"
    using t st by (auto simp: tracked_def open_frame_def thread_ok_def region_def)
  moreover have "keeps s ?s' c" using st cells by (auto simp: keeps_def)
  moreover have "budget k ?s' c" using b by (simp add: budget_def)
  ultimately show ?thesis using r by (auto simp: simulated_def)
qed

lemma scope_simulated:
  assumes t: "tracked s c f (cs, lab, own)" and b: "budget (cost (Scope body) + k) s c"
    and spec: "sexec (Scope body) (cs, lab, own) = Some (m', threw)" and o: "openScope s c = (f', s2)"
    and IH: "\<And>m1 t1. sexecs body (cs, lab, {}) = Some (m1, t1) \<Longrightarrow>
      simulated (execs body c s2) s2 c (length (frames s)) m1 t1 (Suc k)"
  shows "simulated (exec (Scope body) c s) s c f m' threw k"
proof -
  from spec obtain cs1 lab1 own1 where sp: "sexecs body (cs, lab, {}) = Some ((cs1, lab1, own1), threw)"
      and m': "m' = (cs1, lab1, own \<union> own1)"
    by (cases "sexecs body (cs, lab, {})") auto
  note op = openScope_opened [OF t b o]
  from IH [OF sp] op(1) obtain s3 where r: "execs body c s2 = Some (s3, threw)" and t3: "tracked s3 c f' (cs1, lab1, own1)"
    and k3: "keeps s2 s3 c" and b3: "budget (Suc k) s3 c" by (auto simp: simulated_def)
  have th: "(thread s3)\<lparr>ts_sourceDepsFrame := ts_sourceDepsFrame (thread s)\<rparr> = thread s"
    using k3 op(5) by (simp add: keeps_def)
  have cur: "ts_sourceDepsFrame (thread s3) = Some f'" using t3 by (auto simp: tracked_parts)
  have f: "f' < length (frames s3)" "ts_sourceDepsFrame (thread s) \<noteq> Some f'"
    using t3 t op(1) by (auto simp: tracked_parts)
  show ?thesis
  proof (cases threw)
    case True
    let ?s' = "s3\<lparr>thread := thread s\<rparr>"
    have "\<not> fr_published (frames s3 ! f')" using t3 by (auto simp: tracked_parts)
    then have "exec (Scope body) c s = Some (?s', True)"
      using True r cur th by (simp add: o closeScope_def setCurrentFrame_def mergeUnpublishedTrackedSourceDepsFrame_def)
    moreover have "budget k ?s' c" using budget_mono [of 1 k s3 c] b3 by (simp add: budget_def)
    ultimately show ?thesis using leave_open [OF t op(2) k3 t3] True m' by (auto simp: simulated_def)
  next
    case False
    have "budget (Suc (costs body + k)) s c" using b by simp
    note n = opened_nested [OF t this op(2) k3]
    from finishScope_sealed [OF t3 n b3] obtain s4 x where
      s4: "finishScope s3 f' (ts_sourceDepsFrame (thread s)) None = Some (x, s4)"
        "sealed s3 s4 c f f' (accStack s c) (childStack s c) x" "budget k s4 c"
        "thread s4 = (thread s3)\<lparr>ts_sourceDepsFrame := ts_sourceDepsFrame (thread s)\<rparr>" "cells s4 = cs1" "labels_ok s4 lab1"
        "pathsOf (graph s4) (memberSet (graph s4) x) = own1" by blast
    have "exec (Scope body) c s = Some (s4, False)"
      using False r s4(1,4) f(2) merge_sealed [OF s4(2) f(1)] by (simp add: o closeScope_def)
    moreover have "\<forall>v. cells s v = Pending \<longrightarrow> cells s4 v = Pending"
      using op(2) k3 s4(5) t3 by (auto simp: opened_def keeps_def tracked_def)
    moreover have "thread s4 = thread s" using s4(4) th by simp
    ultimately show ?thesis using leave_sealed [OF t op(2) k3 s4(2) _ s4(6)] s4 m' False by (auto simp: simulated_def)
  qed
qed

lemma cons_simulated:
  assumes "simulated (exec a c s) s c f m1 t1 (costs as + k)"
    and "\<And>s1. \<not> t1 \<Longrightarrow> tracked s1 c f m1 \<Longrightarrow> budget (costs as + k) s1 c \<Longrightarrow> simulated (execs as c s1) s1 c f m' threw k"
    and "t1 \<Longrightarrow> m' = m1 \<and> threw" "t1 \<Longrightarrow> execs (a # as) c s = exec a c s"
  shows "simulated (execs (a # as) c s) s c f m' threw k"
proof (cases t1)
  case True
  with assms(1,3,4) budget_mono [of "costs as" k] show ?thesis by (auto simp: simulated_def)
next
  case False
  from assms(1) obtain s1 where s1: "exec a c s = Some (s1, False)" "tracked s1 c f m1" "keeps s s1 c" "budget (costs as + k) s1 c"
    using False by (auto simp: simulated_def)
  with assms(2) [OF False s1(2,4)] keeps_trans [OF s1(3)] show ?thesis by (auto simp: simulated_def)
qed

lemma exec_simulated:
  shows "tracked s c f m \<Longrightarrow> addressed a \<Longrightarrow> budget (cost a + k) s c \<Longrightarrow> sexec a m = Some (m', threw) \<Longrightarrow>
      simulated (exec a c s) s c f m' threw k"
    and "tracked s c f m \<Longrightarrow> addresseds as \<Longrightarrow> budget (costs as + k) s c \<Longrightarrow> sexecs as m = Some (m', threw) \<Longrightarrow>
      simulated (execs as c s) s c f m' threw k"
proof (induction a and as arbitrary: s f m m' threw k and s f m m' threw k rule: addressed_addresseds.induct)
  case (1 p)
  obtain cs lab own where m: "m = (cs, lab, own)" by (cases m)
  with 1 recordAccess_tracked [of s c f cs lab own k p] show ?case by (auto simp: simulated_def)
next
  case (2 v body tail)
  obtain cs lab own where m: "m = (cs, lab, own)" by (cases m)
  note P = "2.prems" [unfolded m]
  show ?case
  proof (rule force_simulated [OF P])
    fix m1 t1 assume v: "cs v = Thunk" and sp: "sexecs body (cs(v := Pending), lab, {}) = Some (m1, t1)"
    have b: "budget (costs body + (2 + k)) s c" using P(3) by (simp add: add_ac)
    note e = enterForce_opened [OF P(1) v b]
    show "simulated (execs body c (pending (enterForce s c v) v)) (pending (enterForce s c v) v) c (length (frames s)) m1 t1 (2 + k)"
      using "2.IH" [OF e(2) _ e(4) sp] P(2) by simp
  qed
next
  case (3 body)
  obtain cs lab own where m: "m = (cs, lab, own)" by (cases m)
  note P = "3.prems" [unfolded m]
  obtain f' s2 where o: "openScope s c = (f', s2)" by (cases "openScope s c")
  show ?case
  proof (rule scope_simulated [OF P(1,3,4) o])
    fix m1 t1 assume sp: "sexecs body (cs, lab, {}) = Some (m1, t1)"
    have b: "budget (costs body + Suc k) s c" using P(3) by simp
    note e = openScope_opened [OF P(1) b o]
    show "simulated (execs body c s2) s2 c (length (frames s)) m1 t1 (Suc k)"
      using "3.IH" [OF e(3) _ e(4) sp] P(2) e(1) by simp
  qed
next
  case (4 dst src)
  obtain cs lab own where m: "m = (cs, lab, own)" by (cases m)
  have "budget k s c" using "4.prems"(3) budget_mono [of 1 k s c] by simp
  moreover from "4.prems"(4) have "cs src = Finished \<or> cs src = Failed" "cs dst \<noteq> Thunk" "cs dst \<noteq> Pending" "dst \<noteq> src"
      "m' = (cs(dst := cs src), lab(dst := lab src), own)" "\<not> threw"
    by (auto simp: m split: if_splits)
  ultimately show ?case
    using assign_simulated [OF "4.prems"(1) [unfolded m], of dst src k] "4.prems"(2) by simp
next
  case 5
  then show ?case by (auto simp: simulated_def)
next
  case (6 body)
  from "6.prems"(4) obtain t1 where sp: "sexecs body m = Some (m', t1)" and "\<not> threw" by auto
  from "6.prems"(2,3) have "addresseds body" "budget (costs body + k) s c" by simp_all
  from "6.IH" [OF "6.prems"(1) this sp] \<open>\<not> threw\<close> show ?case by (auto simp: simulated_def)
next
  case 7
  then show ?case by (auto simp: simulated_def)
next
  case (8 a as)
  then obtain m1 t1 where a: "sexec a m = Some (m1, t1)" and rest: "(if t1 then Some (m1, True) else sexecs as m1) = Some (m', threw)"
    by (cases "sexec a m") auto
  have b: "budget (cost a + (costs as + k)) s c" using "8.prems"(3) by (simp add: add_ac)
  have sa: "simulated (exec a c s) s c f m1 t1 (costs as + k)"
    using "8.IH"(1) [OF "8.prems"(1) _ b a] "8.prems"(2) by simp
  show ?case
    by (rule cons_simulated [OF sa])
      (use rest sa "8.IH"(2) "8.prems"(2) in \<open>auto simp: simulated_def\<close>)
qed

section \<open>Targets\<close>

definition graphRoom :: "nat \<Rightarrow> EvalSourceAccessSetGraph \<Rightarrow> bool" where
  "graphRoom k g \<longleftrightarrow> length (accesses g) + k < 2 ^ 32 \<and> length (accessSets g) + k < 2 ^ 32 \<and>
     length (accessSetItems g) + k * (length (accesses g) + k) < 2 ^ 32 \<and> length (inputKeyItems g) + k * k < 2 ^ 32"

text \<open>A thread outside every tracking context, with labels that stand for \<open>lab\<close>.\<close>

definition idle :: "tracker \<Rightarrow> (address \<Rightarrow> cell_state) \<Rightarrow> (address \<Rightarrow> bytes set) \<Rightarrow> bool" where
  "idle s cs lab \<longleftrightarrow> live (graph s) \<and> cells s = cs \<and> labels_ok s lab \<and>
     thread s = \<lparr>ts_trackingContext = None, ts_sourceDepsFrame = None, ts_valueDependencyPublishValue = None\<rparr>"

lemma budget_graphRoom: "budget k s c \<Longrightarrow> graphRoom k (graph s)"
  by (auto simp: budget_def graphRoom_def Let_def elim: le_less_trans [rotated])

lemma graphRoom_mono: "graphRoom (j + k) g \<Longrightarrow> graphRoom k g"
proof -
  assume b: "graphRoom (j + k) g"
  have "k * (n + k) \<le> (j + k) * (n + (j + k))" for n :: nat by (intro mult_le_mono) auto
  from this [of 0] this [of "length (accesses g)"] show ?thesis using b unfolding graphRoom_def by simp
qed

lemma start_tracked:
  assumes i: "idle s cs lab" and x: "issued (graph s) x" and room: "graphRoom (Suc k) (graph s)"
    and n: "newTrackingContext s = (c, s1)"
    and s2: "s2 = (if x \<noteq> 0 then recordTrackedSourceAccessSetDependency s1 c x else s1)"
  shows "tracked (enterTrackingContext s2 c) c (rootFrame (contexts (enterTrackingContext s2 c) ! c)) (cs, lab, pathsOf (graph s) (memberSet (graph s) x))"
    and "budget k (enterTrackingContext s2 c) c" and "thread s2 = thread s"
    and "frames (enterTrackingContext s2 c) = frames s2"
    and "c < length (contexts s2)" "frames s1 = frames s2" "rootFrame (contexts s2 ! c) < length (frames s2)"
    and "fr_accessBase (frames s2 ! rootFrame (contexts s2 ! c)) = 0" "fr_childBase (frames s2 ! rootFrame (contexts s2 ! c)) = 0"
    and "fr_trackingCtx (frames s2 ! rootFrame (contexts s2 ! c)) = c"
proof -
  from i have l: "live (graph s)" "enabled (graph s)" by (auto simp: idle_def live_def)
  have zero: "memberSet (graph s) 0 = {}" using acc.known_empty [OF l(1)] by simp
  define root where "root = length (frames s)"
  have s1: "c = length (contexts s)" "graph s1 = graph s" "labels s1 = labels s" "cells s1 = cells s" "thread s1 = thread s"
      "contexts s1 = contexts s @ [\<lparr>frameAccessStack = [], frameChildStack = [], rootFrame = root\<rparr>]"
      "frames s1 = frames s @ [\<lparr>fr_trackingCtx = c, fr_value = None, fr_accessBase = 0, fr_childBase = 0, fr_accessSet = 0,
         fr_previous = None, fr_nearestValueForceFrame = None, fr_published = False\<rparr>]"
    using n l(2) by (auto simp: newTrackingContext_def newFrame_def Let_def enable_def root_def)
  have s2': "graph s2 = graph s" "labels s2 = labels s" "cells s2 = cells s" "thread s2 = thread s" "frames s2 = frames s1"
      "contexts s2 = contexts s @ [\<lparr>frameAccessStack = [], frameChildStack = (if x = 0 then [] else [x]), rootFrame = root\<rparr>]"
    using i s1 by (auto simp: s2 idle_def recordTrackedSourceAccessSetDependency_def addToCurrentFrame_def addFrameChild_def
        setCtx_def ctxOf_def root_def)
  show "thread s2 = thread s" "frames (enterTrackingContext s2 c) = frames s2" "c < length (contexts s2)" "frames s1 = frames s2"
      "rootFrame (contexts s2 ! c) < length (frames s2)" "fr_accessBase (frames s2 ! rootFrame (contexts s2 ! c)) = 0"
      "fr_childBase (frames s2 ! rootFrame (contexts s2 ! c)) = 0" "fr_trackingCtx (frames s2 ! rootFrame (contexts s2 ! c)) = c"
    using s2' s1 by (simp_all add: enterTrackingContext_def root_def)
  have "region (enterTrackingContext s2 c) c root = pathsOf (graph s) (memberSet (graph s) x)"
    using s2' s1 zero by (auto simp: region_def enterTrackingContext_def root_def pathsOf_def)
  moreover have "open_frame (enterTrackingContext s2 c) c root" "thread_ok (enterTrackingContext s2 c) c root"
    using s2' s1 i by (auto simp: enterTrackingContext_def open_frame_def thread_ok_def root_def idle_def)
  ultimately show "tracked (enterTrackingContext s2 c) c (rootFrame (contexts (enterTrackingContext s2 c) ! c))
      (cs, lab, pathsOf (graph s) (memberSet (graph s) x))"
    using s2' s1 i l x by (auto simp: tracked_def enterTrackingContext_def valid_ids_def idle_def labels_ok_def trackedSourceAccessSet_def)
  have "k * Suc k \<le> Suc k * Suc k" "k * (length (accesses (graph s)) + k) \<le> Suc k * (length (accesses (graph s)) + Suc k)"
    by (intro mult_le_mono; simp)+
  then show "budget k (enterTrackingContext s2 c) c"
    using room s2' s1 unfolding graphRoom_def budget_def Let_def enterTrackingContext_def by auto
qed

definition addOwn :: "bytes set \<Rightarrow> meaning \<times> bool \<Rightarrow> meaning \<times> bool" where
  "addOwn acc = (\<lambda>((cs, lab, own), t). ((cs, lab, acc \<union> own), t))"

lemma addOwn_pair [simp]: "addOwn acc ((cs, lab, own), t) = ((cs, lab, acc \<union> own), t)"
  by (simp add: addOwn_def)

lemma addOwn_addOwn: "addOwn a (addOwn b r) = addOwn (a \<union> b) r"
  by (auto simp: addOwn_def Un_assoc split: prod.splits)

lemma sexec_frame:
  "sexec a (cs, lab, acc) = map_option (addOwn acc) (sexec a (cs, lab, {}))"
  "sexecs as (cs, lab, acc) = map_option (addOwn acc) (sexecs as (cs, lab, {}))"
proof (induction a and as arbitrary: cs lab acc and cs lab acc rule: addressed_addresseds.induct)
  case (2 v body tail)
  show ?case
  proof (cases "cs v")
    case Thunk
    then show ?thesis
    proof (cases "sexecs body (cs(v := Pending), lab, {})")
      case (Some r)
      obtain cs1 lab1 own1 t1 where "r = ((cs1, lab1, own1), t1)" by (cases r) auto
      with Some Thunk show ?thesis by (cases t1; cases tail) auto
    qed simp
  qed simp_all
next
  case (3 body)
  show ?case by (cases "sexecs body (cs, lab, {})") auto
next
  case (6 body)
  show ?case using "6.IH" [of cs lab acc] by (cases "sexecs body (cs, lab, {})") auto
next
  case (8 a as)
  show ?case
  proof (cases "sexec a (cs, lab, {})")
    case None
    with "8.IH"(1) [of cs lab acc] show ?thesis by simp
  next
    case (Some r)
    obtain cs1 lab1 own1 t1 where r: "r = ((cs1, lab1, own1), t1)" by (cases r) auto
    show ?thesis
      using "8.IH"(1) [of cs lab acc] Some "8.IH"(2) [of cs1 lab1 own1] "8.IH"(2) [of cs1 lab1 "acc \<union> own1"]
      by (cases "sexecs as (cs1, lab1, {})") (auto simp: r addOwn_addOwn)
  qed
qed auto

lemma evalTarget_exact:
  assumes i: "idle s cs lab" and x: "issued (graph s) x" and room: "graphRoom (Suc (costs target) + k) (graph s)"
    and a: "addresseds target" and spec: "sexecs target (cs, lab, {}) = Some ((cs', lab', own), threw)"
  shows "\<exists>d e s'. evalTargetDependencies s x target = Some (if threw then None else Some (d, e), s') \<and> idle s' cs' lab' \<and>
    gext (graph s) (graph s') \<and> graphRoom k (graph s') \<and> valid_ids (graph s') d e \<and>
    observed (graph s') d e = pathsOf (graph s) (memberSet (graph s) x) \<union> own"
proof -
  obtain c s1 where n: "newTrackingContext s = (c, s1)" by (cases "newTrackingContext s")
  define s2 where "s2 = (if x \<noteq> 0 then recordTrackedSourceAccessSetDependency s1 c x else s1)"
  let ?s3 = "enterTrackingContext s2 c"
  have room': "graphRoom (Suc (costs target + k)) (graph s)" using room by simp
  note st = start_tracked [OF i x room' n s2_def]
  let ?root = "rootFrame (contexts ?s3 ! c)" and ?P = "pathsOf (graph s) (memberSet (graph s) x)"
  have "sexecs target (cs, lab, ?P) = Some ((cs', lab', ?P \<union> own), threw)"
    using sexec_frame(2) [of target cs lab ?P] spec by simp
  from exec_simulated(2) [OF st(1) a st(2) this] obtain s4 where
    r: "execs target c ?s3 = Some (s4, threw)" and t4: "tracked s4 c ?root (cs', lab', ?P \<union> own)"
    and k4: "keeps ?s3 s4 c" and b4: "budget k s4 c" by (auto simp: simulated_def)
  let ?s5 = "leaveTrackingContext s4 c (ts_trackingContext (thread s2)) (ts_sourceDepsFrame (thread s2))"
  have fr: "frames s4 ! ?root = frames s2 ! rootFrame (contexts s2 ! c)" "rootFrame (contexts s4 ! c) = ?root"
      "rootFrame (contexts s2 ! c) = ?root"
    using k4 st(4,7) by (auto simp: keeps_def enterTrackingContext_def)
  have "snapshotSourceAccessSetTracking ?s5 c = (accStack s4 c, childStack s4 c)"
    using st(8-10) fr by (simp add: snapshotSourceAccessSetTracking_def directSourceAccessSetAccesses_def childSourceAccessSets_def
        ctxOf_def leaveTrackingContext_def Let_def)
  with r have e: "evalTargetDependencies s x target = Some (if threw then None else Some (accStack s4 c, childStack s4 c), ?s5)"
    unfolding evalTargetDependencies_def Let_def n prod.case s2_def [symmetric] by simp
  have "thread s4 = (thread s)\<lparr>ts_trackingContext := Some c, ts_sourceDepsFrame := Some ?root\<rparr>"
  proof -
    have "thread ?s3 = (thread s2)\<lparr>ts_trackingContext := Some c, ts_sourceDepsFrame := Some (rootFrame (contexts s2 ! c))\<rparr>"
      by (simp add: enterTrackingContext_def)
    moreover have "thread s4 = thread ?s3" using k4 by (simp add: keeps_def)
    ultimately show ?thesis by (simp only: st(3) fr(3))
  qed
  then have th: "thread ?s5 = thread s"
    unfolding leaveTrackingContext_def using fr(2) st(3) i by (simp add: idle_def)
  have "idle ?s5 cs' lab'" using t4 th i
    by (auto simp: idle_def tracked_def leaveTrackingContext_def labels_ok_def trackedSourceAccessSet_def)
  moreover have g5: "graph ?s5 = graph s4" by (simp add: leaveTrackingContext_def)
  moreover have "graph ?s3 = graph s"
    using n i by (auto simp: s2_def enterTrackingContext_def recordTrackedSourceAccessSetDependency_def addToCurrentFrame_def
        addFrameChild_def setCtx_def Let_def newTrackingContext_def newFrame_def enable_def idle_def live_def)
  moreover have "observed (graph s4) (accStack s4 c) (childStack s4 c) = ?P \<union> own"
    using t4 fr st(8,9) by (simp add: tracked_def region_def)
  ultimately show ?thesis using e k4 t4 budget_graphRoom [OF b4]
    by (intro exI [of _ "accStack s4 c"] exI [of _ "childStack s4 c"] exI [of _ ?s5]) (auto simp: keeps_def tracked_def)
qed

text \<open>What a run over several targets on one thread means: every target starts with nothing observed.\<close>

primrec stargets :: "(address \<Rightarrow> cell_state) \<Rightarrow> (address \<Rightarrow> bytes set) \<Rightarrow> act list list
    \<Rightarrow> (bytes set option list \<times> (address \<Rightarrow> cell_state) \<times> (address \<Rightarrow> bytes set)) option" where
  "stargets cs lab [] = Some ([], cs, lab)"
| "stargets cs lab (target # targets) =
     do {
       ((cs1, lab1, own), threw) \<leftarrow> sexecs target (cs, lab, {});
       (owns, cs2, lab2) \<leftarrow> stargets cs1 lab1 targets;
       Some ((if threw then None else Some own) # owns, cs2, lab2)
     }"

definition resolves :: "EvalSourceAccessSetGraph \<Rightarrow> bytes set \<Rightarrow> (nat list \<times> nat list) option \<Rightarrow> bytes set option \<Rightarrow> bool" where
  "resolves g P snapshot own \<longleftrightarrow> (case own of None \<Rightarrow> snapshot = None
     | Some A \<Rightarrow> \<exists>d e. snapshot = Some (d, e) \<and> valid_ids g d e \<and> observed g d e = P \<union> A)"

lemma resolves_gext: "live g \<Longrightarrow> gext g g' \<Longrightarrow> resolves g P snapshot own \<Longrightarrow> resolves g' P snapshot own"
  using gext_observed [of g g'] by (cases own) (auto simp: resolves_def)

lemma evalMisses_resolves:
  assumes "idle s cs lab" "issued (graph s) x" "graphRoom (sum_list (map (\<lambda>t. Suc (costs t)) targets)) (graph s)"
    and "list_all addresseds targets" "stargets cs lab targets = Some (owns, cs', lab')"
  shows "\<exists>snapshots s'. evalMisses s x targets = Some (snapshots, s') \<and> idle s' cs' lab' \<and> gext (graph s) (graph s') \<and>
    list_all2 (resolves (graph s') (pathsOf (graph s) (memberSet (graph s) x))) snapshots owns"
  using assms
proof (induction targets arbitrary: s cs lab owns)
  case (Cons target targets)
  from Cons.prems(5) obtain cs1 lab1 own threw owns1 where sp: "sexecs target (cs, lab, {}) = Some ((cs1, lab1, own), threw)"
    and rest: "stargets cs1 lab1 targets = Some (owns1, cs', lab')" and owns: "owns = (if threw then None else Some own) # owns1"
    by (auto split: bind_splits)
  have room: "graphRoom (Suc (costs target) + sum_list (map (\<lambda>t. Suc (costs t)) targets)) (graph s)" using Cons.prems(3) by simp
  have a: "addresseds target" "list_all addresseds targets" using Cons.prems(4) by simp_all
  from evalTarget_exact [OF Cons.prems(1,2) room a(1) sp] obtain d e s1 where
    r: "evalTargetDependencies s x target = Some (if threw then None else Some (d, e), s1)" and i1: "idle s1 cs1 lab1"
    and g1: "gext (graph s) (graph s1)" "graphRoom (sum_list (map (\<lambda>t. Suc (costs t)) targets)) (graph s1)" "valid_ids (graph s1) d e"
      "observed (graph s1) d e = pathsOf (graph s) (memberSet (graph s) x) \<union> own" by blast
  have l: "live (graph s)" "live (graph s1)" using Cons.prems(1) i1 by (simp_all add: idle_def)
  note x = gext_label [OF l(1) g1(1) Cons.prems(2)]
  from Cons.IH [OF i1 x(1) g1(2) a(2) rest] obtain snapshots s' where
    r': "evalMisses s1 x targets = Some (snapshots, s')" and i': "idle s' cs' lab'" and g': "gext (graph s1) (graph s')"
      "list_all2 (resolves (graph s') (pathsOf (graph s) (memberSet (graph s) x))) snapshots owns1"
    unfolding x(2) by blast
  have "resolves (graph s1) (pathsOf (graph s) (memberSet (graph s) x)) (if threw then None else Some (d, e)) (if threw then None else Some own)"
    using g1(3,4) by (simp add: resolves_def)
  from resolves_gext [OF l(2) g'(1) this] show ?case
    using r r' i' g'(2) gext_trans [OF g1(1) g'(1)] owns by auto
qed simp

lemma collect_exact:
  assumes l: "live g" and v: "valid_ids g d e"
  shows "\<exists>g'. collectSourceAccessSetTrackedPaths g (d, e) = Some (sorted_list_of_set (observed g d e), g') \<and> live g' \<and> gext g g'"
proof -
  from l have ok: "graph_ok g" "enabled g" "paths_ok g" by (auto simp: live_def graph_okD)
  let ?ids = "firstSeen (filter (\<lambda>a. a \<noteq> 0 \<and> a < length (accesses g)) (d @ concat (map (members g) e)))"
  from flatten_correct [OF ok(1,2), of d e] obtain g' where
    r: "flatten g d e = Some (map ((!) (accesses g)) ?ids, g')" "graph_ok g'" "extends g g'" by blast
  have pos: "a \<noteq> 0 \<and> a < length (accesses g)" if "a \<in> memberSet g j" "issued g j" for a j
    using that l memberSet_valid [OF l] by (auto simp: live_def issued_def memberSet_def nodes_ok_def dest!: graph_okD(2)) (metis gr0I)
  then have ids: "set ?ids = idsOf g d e"
    using v by (auto simp: idsOf_def valid_ids_def memberSet_def)
  have "inj_on ((!) (accesses g)) (set ?ids)"
    using ok(3) by (auto simp: inj_on_def paths_ok_def) (metis option.inject)+
  then have "distinct (map ((!) (accesses g)) ?ids)" by (simp add: distinct_map)
  moreover have "set (map ((!) (accesses g)) ?ids) = observed g d e" using ids by (simp add: observed_def pathsOf_def)
  ultimately have "sort (map ((!) (accesses g)) ?ids) = sorted_list_of_set (observed g d e)"
    by (metis sorted_list_of_set_sort_remdups distinct_remdups_id)
  moreover have "live g'" "gext g g'"
    using r l by (auto simp: live_def extends_def gext_def issued_def memberSet_def)
  ultimately show ?thesis using r(1) by (simp add: collectSourceAccessSetTrackedPaths_def)
qed

lemma finalize_exact:
  assumes "live g" "list_all2 (resolves g P) snapshots owns"
  shows "\<exists>g'. finalizeSourceAccessSetDependencies g snapshots = Some (map (map_option (\<lambda>A. sorted_list_of_set (P \<union> A))) owns, g')"
  using assms(2,1)
proof (induction snapshots arbitrary: g owns)
  case (Cons sn snapshots)
  then obtain own owns1 where o: "owns = own # owns1" "resolves g P sn own" "list_all2 (resolves g P) snapshots owns1"
    by (auto simp: list_all2_Cons1)
  show ?case
  proof (cases own)
    case None
    with o Cons.IH [OF o(3) Cons.prems(2)] show ?thesis by (auto simp: resolves_def)
  next
    case (Some A)
    with o(2) obtain d e where de: "sn = Some (d, e)" "valid_ids g d e" "observed g d e = P \<union> A" by (auto simp: resolves_def)
    from collect_exact [OF Cons.prems(2) de(2)] obtain g1 where
      c: "collectSourceAccessSetTrackedPaths g (d, e) = Some (sorted_list_of_set (P \<union> A), g1)" "live g1" "gext g g1"
      by (auto simp: de(3))
    have "list_all2 (resolves g1 P) snapshots owns1"
      using o(3) resolves_gext [OF Cons.prems(2) c(3)] by (rule list_all2_mono)
    from Cons.IH [OF this c(2)] show ?thesis using o(1) Some de(1) c(1) by auto
  qed
qed simp

lemma label_exact:
  assumes i: "idle s cs lab" and v: "value_cell v" "cs v = Finished \<or> cs v = Failed"
  shows "\<exists>g. collectSourceAccessSetTrackedPaths (graph s) ([], [trackedSourceAccessSet s v]) = Some (sorted_list_of_set (lab v), g)"
proof -
  from i v have l: "live (graph s)" "issued (graph s) (trackedSourceAccessSet s v)"
      "pathsOf (graph s) (memberSet (graph s) (trackedSourceAccessSet s v)) = lab v"
    by (auto simp: idle_def labels_ok_def)
  then show ?thesis using collect_exact [OF l(1), of "[]" "[trackedSourceAccessSet s v]"] by (auto simp: valid_ids_def)
qed

lemma sexec_force_twice:
  assumes "cs v = Thunk" "sexec (Force v body tail) (cs, lab, {}) = Some ((cs', lab', own), threw)"
  shows "cs' v = Finished \<or> cs' v = Failed" "lab' v = own"
  using assms by (auto split: bind_splits if_splits option.splits)

section \<open>Properties\<close>

text \<open>The trackers of the witnesses: nothing evaluated yet, every cell a thunk.\<close>

definition tracker0 :: tracker where
  "tracker0 = \<lparr>graph = enable newGraph, labels = emptyLabels, contexts = [], frames = [],
     thread = \<lparr>ts_trackingContext = None, ts_sourceDepsFrame = None, ts_valueDependencyPublishValue = None\<rparr>,
     cells = (\<lambda>_. Thunk)\<rparr>"

lemma idle_tracker0: "idle tracker0 (\<lambda>_. Thunk) lab"
  using live_enable_new by (simp add: idle_def tracker0_def labels_ok_def)

lemma tracker0_empty [simp]: "issued (graph tracker0) 0" "memberSet (graph tracker0) 0 = {}"
  using acc.known_empty [OF live_enable_new] by (simp_all add: tracker0_def)

text \<open>
  C1: tracking is exact for every target. Evaluating any sequence of targets on one thread, each in
  its own tracking context, never reads outside a container, and the paths collected for a target
  are exactly (sorted, each once) those its evaluation observed according to the set semantics
  together with those of the resolver: no path is missed when a value was already forced by an
  earlier target, and no path of another target leaks in. The hypotheses are that the thread is
  outside every context, and that the 32-bit tables have room for the run.
\<close>
theorem targets_exact:
  assumes "idle s cs lab" "issued (graph s) x" "graphRoom (sum_list (map (\<lambda>t. Suc (costs t)) targets)) (graph s)"
    and "list_all addresseds targets" "stargets cs lab targets = Some (owns, cs', lab')"
  shows "\<exists>snapshots s' g'. evalMisses s x targets = Some (snapshots, s') \<and> idle s' cs' lab' \<and>
    finalizeSourceAccessSetDependencies (graph s') snapshots
      = Some (map (map_option (\<lambda>A. sorted_list_of_set (pathsOf (graph s) (memberSet (graph s) x) \<union> A))) owns, g')"
proof -
  from evalMisses_resolves [OF assms] obtain snapshots s' where r: "evalMisses s x targets = Some (snapshots, s')"
    and i: "idle s' cs' lab'"
    and all: "list_all2 (resolves (graph s') (pathsOf (graph s) (memberSet (graph s) x))) snapshots owns" by blast
  from i have "live (graph s')" by (simp add: idle_def)
  from finalize_exact [OF this all] r i show ?thesis by blast
qed

theorem targets_exact_witness:
  "\<exists>snapshots s' g'. evalMisses tracker0 0 [[Force 16 [Read ''a'', Read ''b''] None, Read ''c''], [Force 16 [] None]] = Some (snapshots, s') \<and>
     finalizeSourceAccessSetDependencies (graph s') snapshots = Some ([Some [''a'', ''b'', ''c''], Some [''a'', ''b'']], g')"
proof -
  let ?ts = "[[Force 16 [Read ''a'', Read ''b''] None, Read ''c''], [Force 16 [] None]]"
  have spec: "stargets (\<lambda>_. Thunk) (\<lambda>_. {}) ?ts = Some ([Some {''a'', ''b'', ''c''}, Some {''a'', ''b''}],
      (\<lambda>_. Thunk)(16 := Pending, 16 := Finished), (\<lambda>_. {})(16 := {''a'', ''b''}))"
    by (simp add: insert_commute)
  have room: "graphRoom (sum_list (map (\<lambda>t. Suc (costs t)) ?ts)) (graph tracker0)" by code_simp
  have cells: "list_all addresseds ?ts" by code_simp
  have "sorted_list_of_set {''a'', ''b'', ''c''} = [''a'', ''b'', ''c'']" "sorted_list_of_set {''a'', ''b''} = [''a'', ''b'']"
    by code_simp+
  with targets_exact [OF idle_tracker0 tracker0_empty(1) room cells spec] show ?thesis
    by (auto simp: pathsOf_def)
qed

text \<open>
  C7: labels are exact. After a target has been evaluated, also when the evaluation threw, the label
  of every value that is finished or failed resolves to exactly the paths its production observed,
  whatever frames, scopes and copies the value went through.
\<close>
theorem labels_exact:
  assumes "idle s cs lab" "issued (graph s) x" "graphRoom (Suc (costs target)) (graph s)"
    and "addresseds target" "sexecs target (cs, lab, {}) = Some ((cs', lab', own), threw)"
  shows "\<exists>snapshot s'. evalTargetDependencies s x target = Some (snapshot, s') \<and> (snapshot = None \<longleftrightarrow> threw) \<and>
    (\<forall>v. value_cell v \<and> (cs' v = Finished \<or> cs' v = Failed) \<longrightarrow>
      (\<exists>g. collectSourceAccessSetTrackedPaths (graph s') ([], [trackedSourceAccessSet s' v]) = Some (sorted_list_of_set (lab' v), g)))"
proof -
  have "graphRoom (Suc (costs target) + 0) (graph s)" using assms(3) by simp
  from evalTarget_exact [OF assms(1,2) this assms(4,5)] obtain d e s' where
    "evalTargetDependencies s x target = Some (if threw then None else Some (d, e), s')" "idle s' cs' lab'" by blast
  with label_exact show ?thesis by auto
qed

theorem labels_exact_witness:
  "\<exists>snapshot s' g. evalTargetDependencies tracker0 0 [Read ''x'', Try [Force 32 [Force 16 [Read ''a''] None, Read ''b'', Throw] None]] = Some (Some snapshot, s') \<and>
     collectSourceAccessSetTrackedPaths (graph s') ([], [trackedSourceAccessSet s' 32]) = Some ([''a'', ''b''], g)"
proof -
  let ?t = "[Read ''x'', Try [Force 32 [Force 16 [Read ''a''] None, Read ''b'', Throw] None]]"
  have spec: "sexecs ?t (\<lambda>_. Thunk, \<lambda>_. {}, {}) = Some (((\<lambda>_. Thunk)(32 := Pending, 16 := Pending, 16 := Finished, 32 := Failed),
      (\<lambda>_. {})(16 := {''a''}, 32 := {''a'', ''b''}), {''x'', ''a'', ''b''}), False)"
    by (simp add: insert_commute)
  have room: "graphRoom (Suc (costs ?t)) (graph tracker0)" by code_simp
  have cells: "addresseds ?t" and c: "value_cell 32" by code_simp+
  have "sorted_list_of_set {''a'', ''b''} = [''a'', ''b'']" by code_simp
  with labels_exact [OF idle_tracker0 tracker0_empty(1) room cells spec] c show ?thesis
    by auto
qed

text \<open>
  C17: sharing loses nothing. If one target forces a thunk and a later target forces the same value,
  which is then finished or failed, both targets get the same dependencies, although the second one
  evaluates nothing.
\<close>
theorem shared_force_same_dependencies:
  assumes "idle s cs lab" "issued (graph s) x" "graphRoom (costs body + costs body' + 6) (graph s)"
    and "addressed (Force v body tail)" "addressed (Force v body' tail')"
    and "cs v = Thunk" "sexec (Force v body tail) (cs, lab, {}) = Some (m', threw)"
  shows "\<exists>snapshots s' ps g. evalMisses s x [[Try [Force v body tail]], [Try [Force v body' tail']]] = Some (snapshots, s') \<and>
    finalizeSourceAccessSetDependencies (graph s') snapshots = Some ([Some ps, Some ps], g)"
proof -
  obtain cs' lab' own where m': "m' = (cs', lab', own)" by (cases m')
  note f = sexec_force_twice [OF assms(6) assms(7) [unfolded m']]
  let ?ts = "[[Try [Force v body tail]], [Try [Force v body' tail']]]"
  have second: "sexec (Force v body' tail') (cs', lab', {}) = Some ((cs', lab', own), cs' v = Failed)"
    using f by auto
  have spec: "stargets cs lab ?ts = Some ([Some own, Some own], cs', lab')"
    using assms(7) second by (simp add: m' del: sexec.simps(2))
  have cells: "list_all addresseds ?ts" using assms(4,5) by simp
  have room: "graphRoom (sum_list (map (\<lambda>t. Suc (costs t)) ?ts)) (graph s)" using assms(3) by (simp add: numeral_eq_Suc)
  from evalMisses_resolves [OF assms(1,2) room cells spec] obtain snapshots s' where
    r: "evalMisses s x ?ts = Some (snapshots, s')" and i: "idle s' cs' lab'"
    and all: "list_all2 (resolves (graph s') (pathsOf (graph s) (memberSet (graph s) x))) snapshots [Some own, Some own]" by blast
  from i have "live (graph s')" by (simp add: idle_def)
  from finalize_exact [OF this all] r show ?thesis by auto
qed

theorem shared_force_same_dependencies_witness:
  "\<exists>snapshots s' ps g. evalMisses tracker0 0 [[Try [Force 16 [Read ''a'', Throw] None]], [Try [Force 16 [] None]]] = Some (snapshots, s') \<and>
    finalizeSourceAccessSetDependencies (graph s') snapshots = Some ([Some ps, Some ps], g)"
proof -
  have room: "graphRoom (costs [Read ''a'', Throw] + costs [] + 6) (graph tracker0)" by code_simp
  have cells: "addressed (Force 16 [Read ''a'', Throw] None)" "addressed (Force 16 [] None)" by code_simp+
  have "sexec (Force 16 [Read ''a'', Throw] None) (\<lambda>_. Thunk, \<lambda>_. {}, {})
    = Some (((\<lambda>_. Thunk)(16 := Pending, 16 := Failed), (\<lambda>_. {})(16 := {''a''}), {''a''}), True)" by simp
  from shared_force_same_dependencies [OF idle_tracker0 tracker0_empty(1) room cells refl this] show ?thesis .
qed

end
