(* ===== verification/Row_View.thy ===== *)
theory Row_View
  imports Tx_Prelude
begin

text \<open>
  The packed shard row of the evaluation cache as it is read (\<^verbatim>\<open>tecnix/eval-cache.cc\<close>): the integer
  primitives, \<^verbatim>\<open>DependencyBlobView\<close> with its validation in \<^verbatim>\<open>open\<close>, its accessors, the binary search for a
  target, and \<^verbatim>\<open>decodeTecnixDependencyRow\<close>. A row is a byte string. An accessor that the code returns
  \<^verbatim>\<open>std::nullopt\<close> from is \<^const>\<open>None\<close> here; \<^verbatim>\<open>size_t\<close> values are natural numbers (a row is shorter than
  \<open>2 ^ 32\<close>, which \<^verbatim>\<open>open\<close> enforces), and 32-bit index arithmetic is written with \<open>u32\<close>.
\<close>

section \<open>Integers in a row\<close>

definition dependencyBlobMagic :: bytes where
  "dependencyBlobMagic = ''TXDC''"

definition dependencyBlobVersion :: nat where "dependencyBlobVersion = 2"
definition dependencyBlobFlags :: nat where "dependencyBlobFlags = 0"
definition dependencyBlobFieldCount :: nat where "dependencyBlobFieldCount = 16"

definition dependencyBlobHeaderSize :: nat where
  "dependencyBlobHeaderSize = 4 + dependencyBlobFieldCount * 4"

definition dependencyShardCount :: nat where "dependencyShardCount = 256"
definition maxDependencyBlobTargets :: nat where "maxDependencyBlobTargets = 1024"

datatype DependencyBlobField =
    blobVersionField | blobFlagsField | blobTargetCountField | blobPathCountField | blobFingerprintCountField
  | blobPayloadCountField | blobCandidateCountField | blobPairCountField | blobTargetOffsetsOffsetField
  | blobTargetRecordsOffsetField | blobPathOffsetsOffsetField | blobFingerprintOffsetsOffsetField
  | blobPayloadOffsetsOffsetField | blobCandidateRecordsOffsetField | blobPairsOffsetField | blobEndOffsetField

primrec fieldIndex :: "DependencyBlobField \<Rightarrow> nat" where
  "fieldIndex blobVersionField = 0"
| "fieldIndex blobFlagsField = 1"
| "fieldIndex blobTargetCountField = 2"
| "fieldIndex blobPathCountField = 3"
| "fieldIndex blobFingerprintCountField = 4"
| "fieldIndex blobPayloadCountField = 5"
| "fieldIndex blobCandidateCountField = 6"
| "fieldIndex blobPairCountField = 7"
| "fieldIndex blobTargetOffsetsOffsetField = 8"
| "fieldIndex blobTargetRecordsOffsetField = 9"
| "fieldIndex blobPathOffsetsOffsetField = 10"
| "fieldIndex blobFingerprintOffsetsOffsetField = 11"
| "fieldIndex blobPayloadOffsetsOffsetField = 12"
| "fieldIndex blobCandidateRecordsOffsetField = 13"
| "fieldIndex blobPairsOffsetField = 14"
| "fieldIndex blobEndOffsetField = 15"

text \<open>The four bytes of a value, low byte first.\<close>

definition u32le :: "nat \<Rightarrow> bytes" where
  "u32le v = [char_of (v mod 256), char_of (v div 2 ^ 8 mod 256), char_of (v div 2 ^ 16 mod 256), char_of (v div 2 ^ 24 mod 256)]"

definition appendU32 :: "bytes \<Rightarrow> nat \<Rightarrow> bytes" where
  "appendU32 out v = out @ u32le v"

definition readU32 :: "bytes \<Rightarrow> nat \<Rightarrow> nat option" where
  "readU32 blob offset =
     (if length blob < offset + 4 then None
      else Some (of_char (blob ! offset) + of_char (blob ! (offset + 1)) * 2 ^ 8
             + of_char (blob ! (offset + 2)) * 2 ^ 16 + of_char (blob ! (offset + 3)) * 2 ^ 24))"

definition align4 :: "nat \<Rightarrow> nat" where
  "align4 v = (v + 3) div 4 * 4"

section \<open>The view\<close>

record DependencyBlobView =
  blob :: bytes
  targetCount :: nat
  pathCount :: nat
  fingerprintCount :: nat
  payloadCount :: nat
  candidateCount :: nat
  pairCount :: nat
  targetOffsetsOffset :: nat
  targetRecordsOffset :: nat
  pathOffsetsOffset :: nat
  fingerprintOffsetsOffset :: nat
  payloadOffsetsOffset :: nat
  candidateRecordsOffset :: nat
  pairsOffset :: nat
  endOffset :: nat

definition targetRecordU32s :: nat where "targetRecordU32s = 2"
definition candidateRecordU32s :: nat where "candidateRecordU32s = 3"
definition pairRecordU32s :: nat where "pairRecordU32s = 2"

definition blobField :: "bytes \<Rightarrow> DependencyBlobField \<Rightarrow> nat option" where
  "blobField b f = readU32 b (4 + fieldIndex f * 4)"

definition declaredVersion :: "bytes \<Rightarrow> nat option" where
  "declaredVersion b =
     (if length b < dependencyBlobHeaderSize \<or> take (length dependencyBlobMagic) b \<noteq> dependencyBlobMagic then None
      else blobField b blobVersionField)"

definition arrayValue :: "DependencyBlobView \<Rightarrow> nat \<Rightarrow> nat \<Rightarrow> nat option" where
  "arrayValue view offset index = readU32 (blob view) (offset + index * 4)"

definition sectionOk :: "DependencyBlobView \<Rightarrow> nat \<Rightarrow> nat \<Rightarrow> nat \<Rightarrow> bool" where
  "sectionOk view begin end minBytes \<longleftrightarrow>
     dependencyBlobHeaderSize \<le> begin \<and> begin \<le> end \<and> end \<le> endOffset view \<and> minBytes \<le> end - begin"

text \<open>The loop over the \<^verbatim>\<open>count + 1\<close> offsets of a string table, with the previous offset.\<close>

fun offsetsOk :: "DependencyBlobView \<Rightarrow> nat \<Rightarrow> nat \<Rightarrow> nat \<Rightarrow> nat list \<Rightarrow> bool" where
  "offsetsOk view begin byteCount previous [] \<longleftrightarrow> True"
| "offsetsOk view begin byteCount previous (i # is) \<longleftrightarrow>
     (case arrayValue view begin i of
        None \<Rightarrow> False
      | Some current \<Rightarrow>
          (if current < previous \<or> byteCount < current then False else offsetsOk view begin byteCount current is))"

definition stringTableOk :: "DependencyBlobView \<Rightarrow> nat \<Rightarrow> nat \<Rightarrow> nat \<Rightarrow> bool" where
  "stringTableOk view begin end count \<longleftrightarrow>
     sectionOk view begin end ((count + 1) * 4) \<and>
     (let bytesOffset = begin + (count + 1) * 4
      in bytesOffset \<le> end \<and> offsetsOk view begin (u32 (end - bytesOffset)) 0 [0..<count + 1])"

definition exactRecordSection :: "nat \<Rightarrow> nat \<Rightarrow> nat \<Rightarrow> nat \<Rightarrow> bool" where
  "exactRecordSection begin end count recordU32s \<longleftrightarrow> end - begin = count * recordU32s * 4"

definition viewOk :: "DependencyBlobView \<Rightarrow> bool" where
  "viewOk view \<longleftrightarrow>
     \<not> (targetCount view = 0 \<or> maxDependencyBlobTargets < targetCount view \<or> payloadCount view = 0
        \<or> candidateCount view = 0 \<or> endOffset view \<noteq> length (blob view)) \<and>
     stringTableOk view (targetOffsetsOffset view) (targetRecordsOffset view) (targetCount view) \<and>
     sectionOk view (targetRecordsOffset view) (pathOffsetsOffset view) (targetCount view * targetRecordU32s * 4) \<and>
     stringTableOk view (pathOffsetsOffset view) (fingerprintOffsetsOffset view) (pathCount view) \<and>
     stringTableOk view (fingerprintOffsetsOffset view) (payloadOffsetsOffset view) (fingerprintCount view) \<and>
     stringTableOk view (payloadOffsetsOffset view) (candidateRecordsOffset view) (payloadCount view) \<and>
     sectionOk view (candidateRecordsOffset view) (pairsOffset view) (candidateCount view * candidateRecordU32s * 4) \<and>
     sectionOk view (pairsOffset view) (endOffset view) (pairCount view * pairRecordU32s * 4) \<and>
     exactRecordSection (targetRecordsOffset view) (pathOffsetsOffset view) (targetCount view) targetRecordU32s \<and>
     exactRecordSection (candidateRecordsOffset view) (pairsOffset view) (candidateCount view) candidateRecordU32s \<and>
     exactRecordSection (pairsOffset view) (endOffset view) (pairCount view) pairRecordU32s"

definition openBlob :: "bytes \<Rightarrow> DependencyBlobView option" where
  "openBlob b =
     (if length b < dependencyBlobHeaderSize then None
      else if take (length dependencyBlobMagic) b \<noteq> dependencyBlobMagic then None
      else do {
        version \<leftarrow> blobField b blobVersionField;
        flags \<leftarrow> blobField b blobFlagsField;
        (if version \<noteq> dependencyBlobVersion \<or> flags \<noteq> dependencyBlobFlags then None
         else do {
           tc \<leftarrow> blobField b blobTargetCountField;
           pc \<leftarrow> blobField b blobPathCountField;
           fc \<leftarrow> blobField b blobFingerprintCountField;
           yc \<leftarrow> blobField b blobPayloadCountField;
           cc \<leftarrow> blobField b blobCandidateCountField;
           rc \<leftarrow> blobField b blobPairCountField;
           toff \<leftarrow> blobField b blobTargetOffsetsOffsetField;
           troff \<leftarrow> blobField b blobTargetRecordsOffsetField;
           poff \<leftarrow> blobField b blobPathOffsetsOffsetField;
           foff \<leftarrow> blobField b blobFingerprintOffsetsOffsetField;
           yoff \<leftarrow> blobField b blobPayloadOffsetsOffsetField;
           croff \<leftarrow> blobField b blobCandidateRecordsOffsetField;
           roff \<leftarrow> blobField b blobPairsOffsetField;
           eoff \<leftarrow> blobField b blobEndOffsetField;
           let view = \<lparr>blob = b, targetCount = tc, pathCount = pc, fingerprintCount = fc, payloadCount = yc,
                       candidateCount = cc, pairCount = rc, targetOffsetsOffset = toff, targetRecordsOffset = troff,
                       pathOffsetsOffset = poff, fingerprintOffsetsOffset = foff, payloadOffsetsOffset = yoff,
                       candidateRecordsOffset = croff, pairsOffset = roff, endOffset = eoff\<rparr>;
           (if viewOk view then Some view else None)
         })
      })"

section \<open>Accessors\<close>

text \<open>A string is a span of the blob: where it starts and how long it is.\<close>

definition stringSpan :: "DependencyBlobView \<Rightarrow> nat \<Rightarrow> nat \<Rightarrow> nat \<Rightarrow> nat \<Rightarrow> (nat \<times> nat) option" where
  "stringSpan view offsetsOffset count tableEnd i =
     (if count \<le> i then None
      else
        (let bytesOffset = offsetsOffset + (count + 1) * 4
         in if tableEnd < bytesOffset then None
            else do {
              begin \<leftarrow> arrayValue view offsetsOffset i;
              end \<leftarrow> arrayValue view offsetsOffset (u32 (i + 1));
              (if end < begin \<or> tableEnd - bytesOffset < end then None else Some (bytesOffset + begin, end - begin))
            }))"

definition stringFromTable :: "DependencyBlobView \<Rightarrow> nat \<Rightarrow> nat \<Rightarrow> nat \<Rightarrow> nat \<Rightarrow> bytes option" where
  "stringFromTable view offsetsOffset count tableEnd i =
     map_option (\<lambda>(start, len). take len (drop start (blob view))) (stringSpan view offsetsOffset count tableEnd i)"

definition target :: "DependencyBlobView \<Rightarrow> nat \<Rightarrow> bytes option" where
  "target view i = stringFromTable view (targetOffsetsOffset view) (targetCount view) (targetRecordsOffset view) i"

definition targetField :: "DependencyBlobView \<Rightarrow> nat \<Rightarrow> nat \<Rightarrow> nat option" where
  "targetField view targetId field =
     (if targetCount view \<le> targetId \<or> targetRecordU32s \<le> field then None
      else arrayValue view (targetRecordsOffset view) (u32 (targetId * targetRecordU32s + field)))"

definition targetCandidateStart :: "DependencyBlobView \<Rightarrow> nat \<Rightarrow> nat option" where
  "targetCandidateStart view targetId = targetField view targetId 0"

definition targetCandidateCount :: "DependencyBlobView \<Rightarrow> nat \<Rightarrow> nat option" where
  "targetCandidateCount view targetId = targetField view targetId 1"

text \<open>The loop of \<^verbatim>\<open>findTarget\<close>; the outer \<^const>\<open>None\<close> is the early return.\<close>

function findTargetLoop :: "DependencyBlobView \<Rightarrow> bytes \<Rightarrow> nat \<Rightarrow> nat \<Rightarrow> nat option" where
  "findTargetLoop view name low high =
     (if low < high
      then
        (let mid = low + (high - low) div 2
         in case target view mid of
              None \<Rightarrow> None
            | Some current \<Rightarrow>
                (if current < name then findTargetLoop view name (mid + 1) high else findTargetLoop view name low mid))
      else Some low)"
  by pat_completeness auto
termination
  by (relation "measure (\<lambda>(view, name, low, high). high - low)") auto

definition findTarget :: "DependencyBlobView \<Rightarrow> bytes \<Rightarrow> nat option" where
  "findTarget view name =
     do {
       low \<leftarrow> findTargetLoop view name 0 (targetCount view);
       (if targetCount view \<le> low then None
        else do {
          current \<leftarrow> target view low;
          (if current \<noteq> name then None else Some low)
        })
     }"

definition path :: "DependencyBlobView \<Rightarrow> nat \<Rightarrow> bytes option" where
  "path view i = stringFromTable view (pathOffsetsOffset view) (pathCount view) (fingerprintOffsetsOffset view) i"

definition fingerprint :: "DependencyBlobView \<Rightarrow> nat \<Rightarrow> bytes option" where
  "fingerprint view i = stringFromTable view (fingerprintOffsetsOffset view) (fingerprintCount view) (payloadOffsetsOffset view) i"

definition payload :: "DependencyBlobView \<Rightarrow> nat \<Rightarrow> bytes option" where
  "payload view i = stringFromTable view (payloadOffsetsOffset view) (payloadCount view) (candidateRecordsOffset view) i"

definition candidateField :: "DependencyBlobView \<Rightarrow> nat \<Rightarrow> nat \<Rightarrow> nat option" where
  "candidateField view candidateIndex field =
     (if candidateCount view \<le> candidateIndex \<or> candidateRecordU32s \<le> field then None
      else arrayValue view (candidateRecordsOffset view) (u32 (candidateIndex * candidateRecordU32s + field)))"

definition candidatePairStart :: "DependencyBlobView \<Rightarrow> nat \<Rightarrow> nat option" where
  "candidatePairStart view c = candidateField view c 0"

definition candidatePairCount :: "DependencyBlobView \<Rightarrow> nat \<Rightarrow> nat option" where
  "candidatePairCount view c = candidateField view c 1"

definition candidatePayload :: "DependencyBlobView \<Rightarrow> nat \<Rightarrow> nat option" where
  "candidatePayload view c = candidateField view c 2"

definition pairField :: "DependencyBlobView \<Rightarrow> nat \<Rightarrow> nat \<Rightarrow> nat option" where
  "pairField view pairIndex field =
     (if pairCount view \<le> pairIndex \<or> pairRecordU32s \<le> field then None
      else arrayValue view (pairsOffset view) (u32 (pairIndex * pairRecordU32s + field)))"

definition pairPath :: "DependencyBlobView \<Rightarrow> nat \<Rightarrow> nat option" where
  "pairPath view p = pairField view p 0"

definition pairFingerprint :: "DependencyBlobView \<Rightarrow> nat \<Rightarrow> nat option" where
  "pairFingerprint view p = pairField view p 1"

definition pairIds :: "DependencyBlobView \<Rightarrow> nat \<Rightarrow> (nat \<times> nat) option" where
  "pairIds view p =
     do {
       pathId \<leftarrow> pairPath view p;
       fingerprintId \<leftarrow> pairFingerprint view p;
       (if pathCount view \<le> pathId \<or> fingerprintCount view \<le> fingerprintId then None else Some (pathId, fingerprintId))
     }"

definition candidatePayloadValue :: "DependencyBlobView \<Rightarrow> nat \<Rightarrow> bytes option" where
  "candidatePayloadValue view c = do { payloadId \<leftarrow> candidatePayload view c; payload view payloadId }"

section \<open>Decoding\<close>

record DependencyEntry =
  de_path :: bytes
  de_fingerprint :: bytes

type_synonym DependencyClosure = "DependencyEntry list"

record Candidate =
  cd_dependencies :: DependencyClosure
  cd_payload :: bytes

record Target =
  tg_target :: bytes
  tg_candidates :: "Candidate list"

type_synonym TecnixDependencyRow = "Target list"

text \<open>\<^verbatim>\<open>storedCandidatePairs\<close>; the exception it throws is \<^const>\<open>None\<close>.\<close>

definition storedCandidatePairs :: "DependencyBlobView \<Rightarrow> nat \<Rightarrow> (nat \<times> nat) option" where
  "storedCandidatePairs view c =
     do {
       start \<leftarrow> candidatePairStart view c;
       count \<leftarrow> candidatePairCount view c;
       (if pairCount view < start \<or> pairCount view - start < count then None else Some (start, count))
     }"

definition decodePair :: "DependencyBlobView \<Rightarrow> nat \<Rightarrow> DependencyEntry option" where
  "decodePair view p =
     do {
       (pathId, fingerprintId) \<leftarrow> pairIds view p;
       pa \<leftarrow> path view pathId;
       fp \<leftarrow> fingerprint view fingerprintId;
       Some \<lparr>de_path = pa, de_fingerprint = fp\<rparr>
     }"

definition decodeCandidate :: "DependencyBlobView \<Rightarrow> nat \<Rightarrow> Candidate option" where
  "decodeCandidate view c =
     do {
       py \<leftarrow> candidatePayloadValue view c;
       (start, count) \<leftarrow> storedCandidatePairs view c;
       deps \<leftarrow> those (map (\<lambda>i. decodePair view (u32 (start + i))) [0..<count]);
       Some \<lparr>cd_dependencies = deps, cd_payload = py\<rparr>
     }"

definition targetCandidates :: "DependencyBlobView \<Rightarrow> nat \<Rightarrow> (bytes \<times> nat \<times> nat) option" where
  "targetCandidates view t =
     do {
       name \<leftarrow> target view t;
       start \<leftarrow> targetCandidateStart view t;
       count \<leftarrow> targetCandidateCount view t;
       (if candidateCount view < start \<or> candidateCount view - start < count then None else Some (name, start, count))
     }"

definition decodeTarget :: "DependencyBlobView \<Rightarrow> nat \<Rightarrow> Target option" where
  "decodeTarget view t =
     do {
       (name, start, count) \<leftarrow> targetCandidates view t;
       cs \<leftarrow> those (map (decodeCandidate view) [start..<u32 (start + count)]);
       Some \<lparr>tg_target = name, tg_candidates = cs\<rparr>
     }"

definition decodeView :: "DependencyBlobView \<Rightarrow> TecnixDependencyRow option" where
  "decodeView view = those (map (decodeTarget view) [0..<targetCount view])"

definition decodeTecnixDependencyRow :: "bytes \<Rightarrow> TecnixDependencyRow option" where
  "decodeTecnixDependencyRow b = do { view \<leftarrow> openBlob b; decodeView view }"

section \<open>Bounds\<close>

lemma readU32_None_iff: "readU32 b offset = None \<longleftrightarrow> length b < offset + 4"
  by (simp add: readU32_def)

lemma of_char_le: "of_char c \<le> (255::nat)"
proof -
  have "(of_char c :: nat) mod 256 < 256" by (rule mod_less_divisor) simp
  then have "(of_char c :: nat) < 256" by (simp only: of_char_mod_256)
  then show ?thesis by linarith
qed

lemma readU32_less: "readU32 b offset = Some v \<Longrightarrow> v < 2 ^ 32"
proof -
  have "of_char a + of_char b * 256 + of_char c * 65536 + of_char d * 16777216 < (4294967296::nat)" for a b c d :: char
    using of_char_le [of a] of_char_le [of b] of_char_le [of c] of_char_le [of d] by linarith
  then show "readU32 b offset = Some v \<Longrightarrow> v < 2 ^ 32"
    by (auto simp: readU32_def split: if_splits)
qed

lemma arrayValue_less: "arrayValue view offset i = Some v \<Longrightarrow> v < 2 ^ 32"
  unfolding arrayValue_def by (rule readU32_less)

lemma openBlob_view:
  assumes "openBlob b = Some view"
  shows "blob view = b" "viewOk view" "length b < 2 ^ 32" "take (length dependencyBlobMagic) b = dependencyBlobMagic" "blobField b blobVersionField = Some 2"
proof -
  from assms have e: "viewOk view \<and> blob view = b \<and> blobField b blobEndOffsetField = Some (endOffset view)
      \<and> take (length dependencyBlobMagic) b = dependencyBlobMagic \<and> blobField b blobVersionField = Some dependencyBlobVersion"
    unfolding openBlob_def Let_def by (auto split: if_splits bind_splits)
  then show "blob view = b" "viewOk view" "length b < 2 ^ 32" "take (length dependencyBlobMagic) b = dependencyBlobMagic" "blobField b blobVersionField = Some 2"
    by (auto simp: dependencyBlobVersion_def blobField_def viewOk_def dest!: readU32_less)
qed

text \<open>The parts of a view that \<^verbatim>\<open>open\<close> has checked.\<close>

lemma viewOkD:
  assumes "viewOk view"
  shows "0 < targetCount view" "targetCount view \<le> 1024" "0 < payloadCount view" "0 < candidateCount view"
    "endOffset view = length (blob view)"
    "stringTableOk view (targetOffsetsOffset view) (targetRecordsOffset view) (targetCount view)"
    "stringTableOk view (pathOffsetsOffset view) (fingerprintOffsetsOffset view) (pathCount view)"
    "stringTableOk view (fingerprintOffsetsOffset view) (payloadOffsetsOffset view) (fingerprintCount view)"
    "stringTableOk view (payloadOffsetsOffset view) (candidateRecordsOffset view) (payloadCount view)"
    "candidateCount view * 12 = pairsOffset view - candidateRecordsOffset view" "pairsOffset view \<le> length (blob view)"
    "pairCount view * 8 = length (blob view) - pairsOffset view"
    "targetCount view * 8 = pathOffsetsOffset view - targetRecordsOffset view" "pathOffsetsOffset view \<le> length (blob view)"
    "targetRecordsOffset view \<le> pathOffsetsOffset view" "candidateRecordsOffset view \<le> pairsOffset view"
  using assms
  by (auto simp: viewOk_def exactRecordSection_def sectionOk_def maxDependencyBlobTargets_def targetRecordU32s_def
      candidateRecordU32s_def pairRecordU32s_def)

lemma stringTableOkD:
  assumes "stringTableOk view bg en count"
  shows "bg + (count + 1) * 4 \<le> en" "en \<le> endOffset view"
    "offsetsOk view bg (u32 (en - (bg + (count + 1) * 4))) 0 [0..<count + 1]"
  using assms by (auto simp: stringTableOk_def sectionOk_def Let_def)

lemma offsetsOk_nth:
  assumes "offsetsOk view bg byteCount previous is" "i < length is"
  shows "\<exists>v. arrayValue view bg (is ! i) = Some v \<and> previous \<le> v \<and> v \<le> byteCount"
  using assms
proof (induction view bg byteCount previous "is" arbitrary: i rule: offsetsOk.induct)
  case (2 view bg byteCount previous j js)
  then obtain c where c: "arrayValue view bg j = Some c" "previous \<le> c" "c \<le> byteCount" "offsetsOk view bg byteCount c js"
    by (auto split: option.splits if_splits)
  show ?case
  proof (cases i)
    case (Suc k)
    with "2.prems" have "k < length js" by simp
    from "2.IH" [OF c(1) _ c(4) this] c(2,3) obtain v where "arrayValue view bg (js ! k) = Some v" "c \<le> v" "v \<le> byteCount"
      by auto
    with Suc c show ?thesis by auto
  qed (use c in simp)
qed simp

lemma offsetsOk_mono:
  assumes "offsetsOk view bg byteCount previous is" "i < j" "j < length is"
    and "arrayValue view bg (is ! i) = Some a" "arrayValue view bg (is ! j) = Some b"
  shows "a \<le> b"
  using assms
proof (induction view bg byteCount previous "is" arbitrary: i j rule: offsetsOk.induct)
  case (2 view bg byteCount previous k js)
  then obtain c where c: "arrayValue view bg k = Some c" "offsetsOk view bg byteCount c js" "\<not> (c < previous \<or> byteCount < c)"
    by (auto split: option.splits if_splits)
  show ?case
  proof (cases i)
    case 0
    with "2.prems" c offsetsOk_nth [OF c(2), of "j - 1"] show ?thesis by auto
  next
    case (Suc i')
    with "2.prems" "2.IH" [OF c(1,3,2), of i' "j - 1"] show ?thesis by auto
  qed
qed simp

lemma stringTable_total:
  assumes v: "viewOk view" and t: "stringTableOk view bg en count" and len: "length (blob view) < 2 ^ 32" and i: "i < count"
  shows "\<exists>start len. stringSpan view bg count en i = Some (start, len) \<and> bg \<le> start \<and> start + len \<le> en"
proof -
  note d = stringTableOkD [OF t]
  from d(1,2) v len have "en < 2 ^ 32" by (auto dest: viewOkD(5))
  then have u: "u32 (en - (bg + (count + 1) * 4)) = en - (bg + (count + 1) * 4)" "u32 (i + 1) = i + 1"
    using d(1) i by auto
  from offsetsOk_nth [OF d(3), of i] offsetsOk_nth [OF d(3), of "i + 1"] i obtain a b where
    ab: "arrayValue view bg i = Some a" "arrayValue view bg (i + 1) = Some b" "b \<le> en - (bg + (count + 1) * 4)"
    unfolding u by (auto simp del: upt_Suc)
  have "a \<le> b" using offsetsOk_mono [OF d(3), of i "i + 1" a b] ab i by (simp del: upt_Suc)
  with ab d(1) i show ?thesis using u(2) by (auto simp: stringSpan_def Let_def)
qed

section \<open>The binary search\<close>

definition names_sorted :: "DependencyBlobView \<Rightarrow> bool" where
  "names_sorted view \<longleftrightarrow> (\<forall>i j a b. i < j \<longrightarrow> j < targetCount view \<longrightarrow> target view i = Some a \<longrightarrow> target view j = Some b \<longrightarrow> a < b)"

lemma target_total: "openBlob b = Some view \<Longrightarrow> i < targetCount view \<Longrightarrow> \<exists>name. target view i = Some name"
  using stringTable_total [of view "targetOffsetsOffset view" "targetRecordsOffset view" "targetCount view" i]
    openBlob_view [of b view] viewOkD(6) [of view]
  by (auto simp: target_def stringFromTable_def)

lemma findTargetLoop_lower:
  assumes "\<And>i. i < targetCount view \<Longrightarrow> \<exists>n. target view i = Some n" "names_sorted view" "high \<le> targetCount view" "low \<le> high"
    and "\<And>i n. i < low \<Longrightarrow> target view i = Some n \<Longrightarrow> n < name"
    and "\<And>i n. high \<le> i \<Longrightarrow> i < targetCount view \<Longrightarrow> target view i = Some n \<Longrightarrow> name \<le> n"
  shows "\<exists>k \<le> targetCount view. findTargetLoop view name low high = Some k \<and>
    (\<forall>i n. i < k \<longrightarrow> target view i = Some n \<longrightarrow> n < name) \<and>
    (\<forall>i n. k \<le> i \<longrightarrow> i < targetCount view \<longrightarrow> target view i = Some n \<longrightarrow> name \<le> n)"
  using assms
proof (induction view name low high rule: findTargetLoop.induct)
  case (1 view name low high)
  show ?case
  proof (cases "low < high")
    case False
    with "1.prems" show ?thesis by (auto intro!: exI [of _ low])
  next
    case True
    define mid where "mid = low + (high - low) div 2"
    with True have mid: "low \<le> mid" "mid < high" by auto
    with "1.prems"(1,3) obtain n where n: "target view mid = Some n" by (meson le_trans less_le_trans)
    have sorted: "a < n'" if "i < j" "j < targetCount view" "target view i = Some a" "target view j = Some n'" for i j a n'
      using "1.prems"(2) that unfolding names_sorted_def by blast
    show ?thesis
    proof (cases "n < name")
      case lt: True
      have "\<exists>k \<le> targetCount view. findTargetLoop view name (mid + 1) high = Some k \<and>
        (\<forall>i n. i < k \<longrightarrow> target view i = Some n \<longrightarrow> n < name) \<and>
        (\<forall>i n. k \<le> i \<longrightarrow> i < targetCount view \<longrightarrow> target view i = Some n \<longrightarrow> name \<le> n)"
      proof (rule "1.IH"(1) [OF True mid_def n lt "1.prems"(1,2,3)])
        fix i n' assume i: "i < mid + 1" "target view i = Some n'"
        show "n' < name"
        proof (cases "i = mid")
          case False
          with i sorted [of i mid n' n] n mid "1.prems"(3) lt show ?thesis by force
        qed (use i n lt in simp)
      qed (use mid "1.prems" in auto)
      then show ?thesis using True lt n by (subst findTargetLoop.simps) (simp add: mid_def [symmetric] Let_def)
    next
      case ge: False
      have "\<exists>k \<le> targetCount view. findTargetLoop view name low mid = Some k \<and>
        (\<forall>i n. i < k \<longrightarrow> target view i = Some n \<longrightarrow> n < name) \<and>
        (\<forall>i n. k \<le> i \<longrightarrow> i < targetCount view \<longrightarrow> target view i = Some n \<longrightarrow> name \<le> n)"
      proof (rule "1.IH"(2) [OF True mid_def n ge "1.prems"(1,2)])
        fix i n' assume i: "mid \<le> i" "i < targetCount view" "target view i = Some n'"
        show "name \<le> n'"
        proof (cases "i = mid")
          case False
          with i sorted [of mid i n n'] n ge show ?thesis by force
        qed (use i n ge in simp)
      qed (use mid "1.prems" in auto)
      then show ?thesis using True ge n by (subst findTargetLoop.simps) (simp add: mid_def [symmetric] Let_def)
    qed
  qed
qed

lemma findTarget_sound: "findTarget view name = Some i \<Longrightarrow> i < targetCount view \<and> target view i = Some name"
  by (auto simp: findTarget_def split: bind_splits if_splits)

lemma findTarget_complete:
  assumes "openBlob b = Some view" "names_sorted view" "i < targetCount view" "target view i = Some name"
  shows "findTarget view name = Some i"
proof -
  from findTargetLoop_lower [of view "targetCount view" 0 name] target_total [OF assms(1)] assms(2)
  obtain k where k: "k \<le> targetCount view" "findTargetLoop view name 0 (targetCount view) = Some k"
      "\<forall>i n. i < k \<longrightarrow> target view i = Some n \<longrightarrow> n < name"
      "\<forall>i n. k \<le> i \<longrightarrow> i < targetCount view \<longrightarrow> target view i = Some n \<longrightarrow> name \<le> n" by auto
  have "k \<le> i" using k(3) assms(4) by (meson less_irrefl not_le)
  with assms(3) obtain n where n: "target view k = Some n" using target_total [OF assms(1)] by (meson le_less_trans)
  from k(4) n \<open>k \<le> i\<close> assms(3) have "name \<le> n" by auto
  moreover have "\<not> k < i" using assms(2-4) n \<open>name \<le> n\<close> unfolding names_sorted_def by (meson leD)
  ultimately have "k = i" using \<open>k \<le> i\<close> by simp
  with k(2) assms(3,4) show ?thesis by (simp add: findTarget_def)
qed

end
