(* ===== verification/Row_Write.thy ===== *)
theory Row_Write
  imports Row_View
begin

text \<open>
  The packed shard row as it is written (\<^verbatim>\<open>tecnix/eval-cache.cc\<close>, \<^verbatim>\<open>eval-cache-row.hh\<close>): normalising fresh
  closures, planning the merged row, merging string tables with the remap of stored ids, serialising,
  and \<^verbatim>\<open>mergedShardRow\<close> with its outcomes. An exception is the left side of a sum. A view pointer that may
  be null is an option; \<^verbatim>\<open>std::lower_bound\<close> on a range is the length of the prefix of smaller elements.
\<close>

datatype cache_error =
    MalformedTecnixCacheRow
  | ConflictingFingerprints bytes
  | TooLarge string
  | MissingString bytes
  | NotCarried nat
  | NoTargets
  | TooManyTargets
  | RowTooLarge nat nat
  | BadAccess

section \<open>Primitives\<close>

definition writeU32 :: "bytes \<Rightarrow> nat \<Rightarrow> nat \<Rightarrow> bytes" where
  "writeU32 out offset v =
     out[offset := char_of (v mod 256), offset + 1 := char_of (v div 2 ^ 8 mod 256),
         offset + 2 := char_of (v div 2 ^ 16 mod 256), offset + 3 := char_of (v div 2 ^ 24 mod 256)]"

definition padTo4 :: "bytes \<Rightarrow> bytes" where
  "padTo4 out = out @ replicate (align4 (length out) - length out) (CHR 0x00)"

definition u32Fits :: "nat \<Rightarrow> bool" where
  "u32Fits v \<longleftrightarrow> v \<le> 2 ^ 32 - 1"

definition checkedU32 :: "nat \<Rightarrow> string \<Rightarrow> cache_error + nat" where
  "checkedU32 v what = (if \<not> u32Fits v then Inl (TooLarge what) else Inr v)"

definition setBlobField :: "bytes \<Rightarrow> DependencyBlobField \<Rightarrow> nat \<Rightarrow> bytes" where
  "setBlobField out field v = writeU32 out (4 + fieldIndex field * 4) v"

primrec tableOffsets :: "nat \<Rightarrow> bytes list \<Rightarrow> cache_error + nat list" where
  "tableOffsets n [] = Inr []"
| "tableOffsets n (v # vs) =
     (if \<not> u32Fits (n + length v) then Inl (TooLarge ''row string table'')
      else ebind (tableOffsets (n + length v) vs) (\<lambda>rest. Inr ((n + length v) # rest)))"

definition appendStringTable :: "bytes \<Rightarrow> bytes list \<Rightarrow> cache_error + bytes" where
  "appendStringTable out values =
     ebind (tableOffsets 0 values)
       (\<lambda>offsets. Inr (padTo4 (fold (\<lambda>v o'. o' @ v) values (fold (\<lambda>v o'. appendU32 o' v) (0 # offsets) out))))"

section \<open>Planning\<close>

record TecnixDependencyUpsert =
  up_target :: bytes
  up_dependencies :: DependencyClosure
  up_payload :: bytes

record FreshCandidate =
  fc_target :: bytes
  fc_pairs :: "(bytes \<times> bytes) list"
  fc_payload :: bytes

fun dedupePairs :: "(bytes \<times> bytes) list \<Rightarrow> (bytes \<times> bytes) list \<Rightarrow> cache_error + (bytes \<times> bytes) list" where
  "dedupePairs kept [] = Inr kept"
| "dedupePairs kept (pair # rest) =
     (if kept \<noteq> [] \<and> fst (last kept) = fst pair
      then (if snd (last kept) \<noteq> snd pair then Inl (ConflictingFingerprints (fst pair)) else dedupePairs kept rest)
      else dedupePairs (kept @ [pair]) rest)"

definition freshCandidate :: "TecnixDependencyUpsert \<Rightarrow> cache_error + FreshCandidate" where
  "freshCandidate update =
     ebind (dedupePairs [] (sort (map (\<lambda>d. (de_path d, de_fingerprint d)) (up_dependencies update))))
       (\<lambda>pairs. Inr \<lparr>fc_target = up_target update, fc_pairs = pairs, fc_payload = up_payload update\<rparr>)"

datatype CandidateSource = StoredCandidate nat | FreshCandidateRef nat

record PlannedTarget =
  pt_name :: bytes
  pt_candidates :: "CandidateSource list"

fun samePairs :: "DependencyBlobView \<Rightarrow> nat \<Rightarrow> (bytes \<times> bytes) list \<Rightarrow> nat list \<Rightarrow> cache_error + bool" where
  "samePairs view start pairs [] = Inr True"
| "samePairs view start pairs (i # is) =
     ebind (require MalformedTecnixCacheRow (decodePair view (u32 (start + i))))
       (\<lambda>e. if de_path e \<noteq> fst (pairs ! i) \<or> de_fingerprint e \<noteq> snd (pairs ! i) then Inr False
            else samePairs view start pairs is)"

definition sameCandidate ::
  "DependencyBlobView option \<Rightarrow> CandidateSource \<Rightarrow> FreshCandidate list \<Rightarrow> FreshCandidate \<Rightarrow> cache_error + bool" where
  "sameCandidate view source allFresh fresh =
     (case source of
        FreshCandidateRef i \<Rightarrow>
          ebind (require BadAccess (at allFresh i))
            (\<lambda>other. Inr (fc_payload other = fc_payload fresh \<and> fc_pairs other = fc_pairs fresh))
      | StoredCandidate stored \<Rightarrow>
          ebind (require BadAccess view) (\<lambda>vw.
          ebind (require MalformedTecnixCacheRow (candidatePayloadValue vw stored)) (\<lambda>py.
          ebind (require MalformedTecnixCacheRow (storedCandidatePairs vw stored)) (\<lambda>(start, count).
            if py \<noteq> fc_payload fresh \<or> count \<noteq> length (fc_pairs fresh) then Inr False
            else samePairs vw start (fc_pairs fresh) [0..<count]))))"

fun planStored :: "DependencyBlobView \<Rightarrow> nat \<Rightarrow> PlannedTarget list \<Rightarrow> nat list \<Rightarrow> cache_error + PlannedTarget list" where
  "planStored view keep targets [] = Inr targets"
| "planStored view keep targets (t # ts) =
     ebind (require MalformedTecnixCacheRow (targetCandidates view t)) (\<lambda>(name, start, count).
       if targets \<noteq> [] \<and> name \<le> pt_name (last targets) then Inl MalformedTecnixCacheRow
       else planStored view keep
              (targets @ [\<lparr>pt_name = name, pt_candidates = map (\<lambda>i. StoredCandidate (u32 (start + i))) [0..<min count keep]\<rparr>]) ts)"

fun historyLoop ::
  "DependencyBlobView option \<Rightarrow> FreshCandidate list \<Rightarrow> FreshCandidate \<Rightarrow> nat \<Rightarrow> CandidateSource list \<Rightarrow> CandidateSource list
     \<Rightarrow> cache_error + CandidateSource list" where
  "historyLoop view allFresh fresh keep history [] = Inr history"
| "historyLoop view allFresh fresh keep history (candidate # rest) =
     (if keep \<le> length history then Inr history
      else ebind (sameCandidate view candidate allFresh fresh) (\<lambda>same.
        historyLoop view allFresh fresh keep (if same then history else history @ [candidate]) rest))"

definition lowerBound :: "('a \<Rightarrow> bool) \<Rightarrow> 'a list \<Rightarrow> nat" where
  "lowerBound smaller xs = length (takeWhile smaller xs)"

definition insertAt :: "'a list \<Rightarrow> nat \<Rightarrow> 'a \<Rightarrow> 'a list" where
  "insertAt xs i x = take i xs @ x # drop i xs"

definition planFreshStep ::
  "DependencyBlobView option \<Rightarrow> FreshCandidate list \<Rightarrow> nat \<Rightarrow> PlannedTarget list \<Rightarrow> nat \<Rightarrow> cache_error + PlannedTarget list" where
  "planFreshStep view fresh keep targets f =
     ebind (require BadAccess (at fresh f)) (\<lambda>fr.
       let it = lowerBound (\<lambda>entry. pt_name entry < fc_target fr) targets;
           targets' = (if it = length targets \<or> pt_name (targets ! it) \<noteq> fc_target fr
                       then insertAt targets it \<lparr>pt_name = fc_target fr, pt_candidates = []\<rparr> else targets)
       in ebind (historyLoop view fresh fr keep [FreshCandidateRef f] (pt_candidates (targets' ! it)))
            (\<lambda>history. Inr (targets'[it := (targets' ! it)\<lparr>pt_candidates := history\<rparr>])))"

fun planFresh ::
  "DependencyBlobView option \<Rightarrow> FreshCandidate list \<Rightarrow> nat \<Rightarrow> PlannedTarget list \<Rightarrow> nat list \<Rightarrow> cache_error + PlannedTarget list" where
  "planFresh view fresh keep targets [] = Inr targets"
| "planFresh view fresh keep targets (f # fs) =
     ebind (planFreshStep view fresh keep targets f) (\<lambda>targets'. planFresh view fresh keep targets' fs)"

definition planShardRow ::
  "DependencyBlobView option \<Rightarrow> FreshCandidate list \<Rightarrow> nat \<Rightarrow> cache_error + PlannedTarget list" where
  "planShardRow view fresh keep =
     ebind (case view of None \<Rightarrow> Inr [] | Some vw \<Rightarrow> planStored vw keep [] [0..<targetCount vw])
       (\<lambda>targets. planFresh view fresh keep targets [0..<length fresh])"

section \<open>Merging string tables\<close>

record MergedStrings =
  ms_strings :: "bytes list"
  ms_storedIdMap :: "nat list"
  ms_bytes :: nat

definition unmapped :: nat where "unmapped = 2 ^ 32 - 1"

definition idOf :: "MergedStrings \<Rightarrow> bytes \<Rightarrow> cache_error + nat" where
  "idOf m s =
     (let it = lowerBound (\<lambda>x. x < s) (ms_strings m)
      in if it = length (ms_strings m) \<or> ms_strings m ! it \<noteq> s then Inl (MissingString s) else Inr (u32 it))"

definition mappedId :: "MergedStrings \<Rightarrow> nat \<Rightarrow> cache_error + nat" where
  "mappedId m storedId =
     ebind (require BadAccess (at (ms_storedIdMap m) storedId))
       (\<lambda>i. if i = unmapped then Inl (NotCarried storedId) else Inr i)"

fun mergeLoop ::
  "(nat \<Rightarrow> bytes option) \<Rightarrow> bool list \<Rightarrow> nat list \<Rightarrow> bytes list \<Rightarrow> bytes list \<Rightarrow> nat list \<Rightarrow> bytes option
     \<Rightarrow> cache_error + (bytes list \<times> bytes list \<times> nat list)" where
  "mergeLoop storedAt used [] fresh strings idMap previous = Inr (fresh, strings, idMap)"
| "mergeLoop storedAt used (i # is) fresh strings idMap previous =
     ebind (require MalformedTecnixCacheRow (storedAt i)) (\<lambda>stored.
       if (case previous of None \<Rightarrow> False | Some p \<Rightarrow> stored \<le> p) then Inl MalformedTecnixCacheRow
       else
         (let fresh1 = dropWhile (\<lambda>x. x < stored) fresh;
              strings1 = strings @ takeWhile (\<lambda>x. x < stored) fresh;
              equal = (fresh1 \<noteq> [] \<and> hd fresh1 = stored)
          in if \<not> used ! i \<and> \<not> equal then mergeLoop storedAt used is fresh1 strings1 idMap (Some stored)
             else ebind (checkedU32 (length strings1) ''string count'') (\<lambda>n.
               mergeLoop storedAt used is (if equal then tl fresh1 else fresh1) (strings1 @ [stored]) (idMap[i := n]) (Some stored))))"

definition mergeStrings ::
  "nat \<Rightarrow> (nat \<Rightarrow> bytes option) \<Rightarrow> bool list \<Rightarrow> bytes list \<Rightarrow> cache_error + MergedStrings" where
  "mergeStrings storedCount storedAt used fresh =
     ebind (mergeLoop storedAt used [0..<storedCount] (sort_unique fresh) [] (replicate storedCount unmapped) None)
       (\<lambda>(rest, strings, idMap).
          Inr \<lparr>ms_strings = strings @ rest, ms_storedIdMap = idMap, ms_bytes = sum_list (map length (strings @ rest))\<rparr>)"

section \<open>Serialising\<close>

record Marks =
  usedPaths :: "bool list"
  usedFingerprints :: "bool list"
  usedPayloads :: "bool list"
  freshPaths :: "bytes list"
  freshFingerprints :: "bytes list"
  freshPayloads :: "bytes list"
  mk_candidateCount :: nat
  mk_pairCount :: nat

definition countOf :: "(DependencyBlobView \<Rightarrow> nat) \<Rightarrow> DependencyBlobView option \<Rightarrow> nat" where
  "countOf count view = (case view of None \<Rightarrow> 0 | Some vw \<Rightarrow> count vw)"

definition initialMarks :: "DependencyBlobView option \<Rightarrow> Marks" where
  "initialMarks view =
     \<lparr>usedPaths = replicate (countOf pathCount view) False, usedFingerprints = replicate (countOf fingerprintCount view) False,
      usedPayloads = replicate (countOf payloadCount view) False, freshPaths = [], freshFingerprints = [],
      freshPayloads = [], mk_candidateCount = 0, mk_pairCount = 0\<rparr>"

fun markPairs :: "DependencyBlobView \<Rightarrow> nat \<Rightarrow> nat list \<Rightarrow> Marks \<Rightarrow> cache_error + Marks" where
  "markPairs view start [] m = Inr m"
| "markPairs view start (i # is) m =
     ebind (require MalformedTecnixCacheRow (pairIds view (u32 (start + i)))) (\<lambda>(pathId, fingerprintId).
       markPairs view start is
         (m\<lparr>usedPaths := (usedPaths m)[pathId := True], usedFingerprints := (usedFingerprints m)[fingerprintId := True]\<rparr>))"

definition markCandidate ::
  "DependencyBlobView option \<Rightarrow> FreshCandidate list \<Rightarrow> CandidateSource \<Rightarrow> Marks \<Rightarrow> cache_error + Marks" where
  "markCandidate view fresh candidate m0 =
     (let m = m0\<lparr>mk_candidateCount := mk_candidateCount m0 + 1\<rparr>
      in case candidate of
           FreshCandidateRef i \<Rightarrow>
             ebind (require BadAccess (at fresh i)) (\<lambda>f.
               Inr (m\<lparr>freshPaths := freshPaths m @ map fst (fc_pairs f),
                     freshFingerprints := freshFingerprints m @ map snd (fc_pairs f),
                     freshPayloads := freshPayloads m @ [fc_payload f],
                     mk_pairCount := mk_pairCount m + length (fc_pairs f)\<rparr>))
         | StoredCandidate stored \<Rightarrow>
             ebind (require BadAccess view) (\<lambda>vw.
             ebind (require MalformedTecnixCacheRow (candidatePayload vw stored)) (\<lambda>payloadId.
               if payloadCount vw \<le> payloadId then Inl MalformedTecnixCacheRow
               else
                 ebind (require MalformedTecnixCacheRow (storedCandidatePairs vw stored)) (\<lambda>(start, count).
                 ebind (markPairs vw start [0..<count] (m\<lparr>usedPayloads := (usedPayloads m)[payloadId := True]\<rparr>)) (\<lambda>m'.
                   Inr (m'\<lparr>mk_pairCount := mk_pairCount m' + count\<rparr>))))))"

fun markCandidates :: "DependencyBlobView option \<Rightarrow> FreshCandidate list \<Rightarrow> CandidateSource list \<Rightarrow> Marks \<Rightarrow> cache_error + Marks" where
  "markCandidates view fresh [] m = Inr m"
| "markCandidates view fresh (c # cs) m =
     ebind (markCandidate view fresh c m) (\<lambda>m'. markCandidates view fresh cs m')"

fun emitTargets :: "nat \<Rightarrow> PlannedTarget list \<Rightarrow> bytes \<Rightarrow> cache_error + bytes" where
  "emitTargets nextCandidate [] out = Inr out"
| "emitTargets nextCandidate (t # ts) out =
     ebind (checkedU32 (length (pt_candidates t)) ''target candidate count'') (\<lambda>n.
       emitTargets (u32 (nextCandidate + n)) ts (appendU32 (appendU32 out nextCandidate) n))"

definition candidateRecord ::
  "DependencyBlobView option \<Rightarrow> FreshCandidate list \<Rightarrow> MergedStrings \<Rightarrow> CandidateSource \<Rightarrow> cache_error + (nat \<times> nat)" where
  "candidateRecord view fresh payloads candidate =
     (case candidate of
        FreshCandidateRef i \<Rightarrow>
          ebind (require BadAccess (at fresh i)) (\<lambda>f.
          ebind (checkedU32 (length (fc_pairs f)) ''candidate pair count'') (\<lambda>count.
          ebind (idOf payloads (fc_payload f)) (\<lambda>payloadId. Inr (count, payloadId))))
      | StoredCandidate stored \<Rightarrow>
          ebind (require BadAccess view) (\<lambda>vw.
          ebind (require MalformedTecnixCacheRow (storedCandidatePairs vw stored)) (\<lambda>(start, count).
          ebind (require BadAccess (candidatePayload vw stored)) (\<lambda>storedPayload.
          ebind (mappedId payloads storedPayload) (\<lambda>payloadId. Inr (count, payloadId))))))"

fun emitCandidates ::
  "DependencyBlobView option \<Rightarrow> FreshCandidate list \<Rightarrow> MergedStrings \<Rightarrow> nat \<Rightarrow> CandidateSource list \<Rightarrow> bytes \<Rightarrow> cache_error + bytes" where
  "emitCandidates view fresh payloads nextPair [] out = Inr out"
| "emitCandidates view fresh payloads nextPair (c # cs) out =
     ebind (candidateRecord view fresh payloads c) (\<lambda>(count, payloadId).
       emitCandidates view fresh payloads (u32 (nextPair + count)) cs
         (appendU32 (appendU32 (appendU32 out nextPair) count) payloadId))"

definition candidatePairs ::
  "DependencyBlobView option \<Rightarrow> FreshCandidate list \<Rightarrow> MergedStrings \<Rightarrow> MergedStrings \<Rightarrow> CandidateSource
     \<Rightarrow> cache_error + (nat \<times> nat) list" where
  "candidatePairs view fresh paths fingerprints candidate =
     (case candidate of
        FreshCandidateRef i \<Rightarrow>
          ebind (require BadAccess (at fresh i)) (\<lambda>f.
            mapE (\<lambda>(p, fp). ebind (idOf paths p) (\<lambda>a. ebind (idOf fingerprints fp) (\<lambda>b. Inr (a, b)))) (fc_pairs f))
      | StoredCandidate stored \<Rightarrow>
          ebind (require BadAccess view) (\<lambda>vw.
          ebind (require MalformedTecnixCacheRow (storedCandidatePairs vw stored)) (\<lambda>(start, count).
            mapE (\<lambda>i. ebind (require BadAccess (pairIds vw (u32 (start + i)))) (\<lambda>(p, fp).
                    ebind (mappedId paths p) (\<lambda>a. ebind (mappedId fingerprints fp) (\<lambda>b. Inr (a, b))))) [0..<count])))"

fun emitPairs ::
  "DependencyBlobView option \<Rightarrow> FreshCandidate list \<Rightarrow> MergedStrings \<Rightarrow> MergedStrings \<Rightarrow> CandidateSource list \<Rightarrow> bytes
     \<Rightarrow> cache_error + bytes" where
  "emitPairs view fresh paths fingerprints [] out = Inr out"
| "emitPairs view fresh paths fingerprints (c # cs) out =
     ebind (candidatePairs view fresh paths fingerprints c) (\<lambda>pairs.
       emitPairs view fresh paths fingerprints cs (fold (\<lambda>(a, b) o'. appendU32 (appendU32 o' a) b) pairs out))"

definition setSize :: "DependencyBlobField \<Rightarrow> bytes \<Rightarrow> cache_error + bytes" where
  "setSize field out = ebind (checkedU32 (length out) ''row'') (\<lambda>n. Inr (setBlobField out field n))"

definition setCount :: "DependencyBlobField \<Rightarrow> nat \<Rightarrow> string \<Rightarrow> bytes \<Rightarrow> cache_error + bytes" where
  "setCount field n what out = ebind (checkedU32 n what) (\<lambda>v. Inr (setBlobField out field v))"

definition emptyHeader :: bytes where
  "emptyHeader = fold (\<lambda>_ o'. appendU32 o' 0) [0..<dependencyBlobFieldCount] dependencyBlobMagic"

definition writeShardRow ::
  "DependencyBlobView option \<Rightarrow> PlannedTarget list \<Rightarrow> FreshCandidate list \<Rightarrow> nat \<Rightarrow> cache_error + bytes" where
  "writeShardRow view targets fresh maxRowBytes =
     (if targets = [] then Inl NoTargets
      else if maxDependencyBlobTargets < length targets then Inl TooManyTargets
      else
        (let candidates = concat (map pt_candidates targets)
         in ebind (markCandidates view fresh candidates (initialMarks view)) (\<lambda>m.
            ebind (mergeStrings (countOf pathCount view) (\<lambda>i. Option.bind view (\<lambda>vw. path vw i)) (usedPaths m) (freshPaths m)) (\<lambda>paths.
            ebind (mergeStrings (countOf fingerprintCount view) (\<lambda>i. Option.bind view (\<lambda>vw. fingerprint vw i)) (usedFingerprints m) (freshFingerprints m)) (\<lambda>fingerprints.
            ebind (mergeStrings (countOf payloadCount view) (\<lambda>i. Option.bind view (\<lambda>vw. payload vw i)) (usedPayloads m) (freshPayloads m)) (\<lambda>payloads.
            ebind (setCount blobTargetCountField (length targets) ''target count''
                     (setBlobField (setBlobField emptyHeader blobVersionField dependencyBlobVersion) blobFlagsField dependencyBlobFlags)) (\<lambda>out.
            ebind (setCount blobPathCountField (length (ms_strings paths)) ''path count'' out) (\<lambda>out.
            ebind (setCount blobFingerprintCountField (length (ms_strings fingerprints)) ''fingerprint count'' out) (\<lambda>out.
            ebind (setCount blobPayloadCountField (length (ms_strings payloads)) ''payload count'' out) (\<lambda>out.
            ebind (setCount blobCandidateCountField (mk_candidateCount m) ''candidate count'' out) (\<lambda>out.
            ebind (setCount blobPairCountField (mk_pairCount m) ''pair count'' out) (\<lambda>out.
            ebind (setSize blobTargetOffsetsOffsetField out) (\<lambda>out.
            ebind (appendStringTable out (map pt_name targets)) (\<lambda>out.
            ebind (setSize blobTargetRecordsOffsetField out) (\<lambda>out.
            ebind (emitTargets 0 targets out) (\<lambda>out.
            ebind (setSize blobPathOffsetsOffsetField out) (\<lambda>out.
            ebind (appendStringTable out (ms_strings paths)) (\<lambda>out.
            ebind (setSize blobFingerprintOffsetsOffsetField out) (\<lambda>out.
            ebind (appendStringTable out (ms_strings fingerprints)) (\<lambda>out.
            ebind (setSize blobPayloadOffsetsOffsetField out) (\<lambda>out.
            ebind (appendStringTable out (ms_strings payloads)) (\<lambda>out.
            ebind (setSize blobCandidateRecordsOffsetField out) (\<lambda>out.
            ebind (emitCandidates view fresh payloads 0 candidates out) (\<lambda>out.
            ebind (setSize blobPairsOffsetField out) (\<lambda>out.
            ebind (emitPairs view fresh paths fingerprints candidates out) (\<lambda>out.
              if maxRowBytes < length out then Inl (RowTooLarge (length out) maxRowBytes)
              else setSize blobEndOffsetField out))))))))))))))))))))))))))"

section \<open>The merged row\<close>

datatype TecnixRowMergeOutcome = Fresh | Merged | ReplacedOtherVersion | ReplacedUnreadable | ReplacedFull

definition freshRow ::
  "FreshCandidate list \<Rightarrow> nat \<Rightarrow> nat \<Rightarrow> TecnixRowMergeOutcome \<Rightarrow> cache_error + (TecnixRowMergeOutcome \<times> bytes)" where
  "freshRow fresh keep maxRowBytes outcome =
     ebind (planShardRow None fresh keep) (\<lambda>targets.
     ebind (writeShardRow None targets fresh maxRowBytes) (\<lambda>out. Inr (outcome, out)))"

text \<open>\<^verbatim>\<open>catch (MalformedTecnixCacheRow &)\<close>: the malformed row is replaced, any other exception propagates.\<close>

definition mergedShardRow ::
  "bytes option \<Rightarrow> TecnixDependencyUpsert list \<Rightarrow> nat \<Rightarrow> nat \<Rightarrow> cache_error + (TecnixRowMergeOutcome \<times> bytes)" where
  "mergedShardRow existingBlob updates historyLimit maxRowBytes =
     ebind (mapE freshCandidate updates) (\<lambda>fresh.
       let keep = max historyLimit 1
       in case existingBlob of
            None \<Rightarrow> freshRow fresh keep maxRowBytes Fresh
          | Some b \<Rightarrow>
              (case openBlob b of
                 None \<Rightarrow>
                   freshRow fresh keep maxRowBytes
                     (case declaredVersion b of
                        Some version \<Rightarrow> (if version \<noteq> dependencyBlobVersion then ReplacedOtherVersion else ReplacedUnreadable)
                      | None \<Rightarrow> ReplacedUnreadable)
               | Some view \<Rightarrow>
                   (case ebind (planShardRow (Some view) fresh keep) (\<lambda>targets.
                           if length targets \<le> maxDependencyBlobTargets
                           then ebind (writeShardRow (Some view) targets fresh maxRowBytes) (\<lambda>out. Inr (Some out))
                           else Inr None) of
                      Inr (Some out) \<Rightarrow> Inr (Merged, out)
                    | Inr None \<Rightarrow> freshRow fresh keep maxRowBytes ReplacedFull
                    | Inl MalformedTecnixCacheRow \<Rightarrow> freshRow fresh keep maxRowBytes ReplacedUnreadable
                    | Inl e \<Rightarrow> Inl e)))"

end
