(* ===== verification/Row_Layout.thy ===== *)
theory Row_Layout
  imports Row_Write
begin

text \<open>
  The layout of a written row. A row that \<^verbatim>\<open>writeShardRow\<close> emits is a header followed by seven sections;
  this theory gives that layout as one expression over the sections' contents and shows that the
  reader, opened on it, returns those contents: every string of the four tables and every integer of
  the three record arrays.
\<close>

section \<open>Arrays of integers\<close>

definition arr :: "nat list \<Rightarrow> bytes" where
  "arr xs = concat (map u32le xs)"

lemma length_u32le [simp]: "length (u32le v) = 4"
  by (simp add: u32le_def)

lemma arr_simps [simp]: "arr [] = []" "arr (x # xs) = u32le x @ arr xs" "arr (xs @ ys) = arr xs @ arr ys"
  by (simp_all add: arr_def)

lemma length_arr [simp]: "length (arr xs) = 4 * length xs"
  by (induction xs) simp_all

lemma u32le_value: "v < 2 ^ 32 \<Longrightarrow> v mod 256 + v div 2 ^ 8 mod 256 * 2 ^ 8 + v div 2 ^ 16 mod 256 * 2 ^ 16 + v div 2 ^ 24 mod 256 * 2 ^ 24 = (v::nat)"
proof -
  assume v: "v < 2 ^ 32"
  have a: "v = v div 256 * 256 + v mod 256" by simp
  have b: "v div 256 = v div 65536 * 256 + v div 256 mod 256" using div_mult_mod_eq [of "v div 256" 256] by (simp add: div_mult2_eq [symmetric])
  have c: "v div 65536 = v div 16777216 * 256 + v div 65536 mod 256" using div_mult_mod_eq [of "v div 65536" 256] by (simp add: div_mult2_eq [symmetric])
  have d: "v div 16777216 mod 256 = v div 16777216" using v by simp
  have "v mod 256 + v div 256 mod 256 * 256 + v div 65536 mod 256 * 65536 + v div 16777216 mod 256 * 16777216 = v"
    using a b c d by linarith
  then show ?thesis by (simp add: d)
qed

lemma readU32_here:
  assumes "v < 2 ^ 32"
  shows "readU32 (pre @ u32le v @ post) (length pre) = Some v"
proof -
  have "v div 16777216 mod 256 = v div 16777216" using assms by simp
  with u32le_value [OF assms] show ?thesis by (simp add: readU32_def u32le_def nth_append)
qed

lemma readU32_append: "offset + 4 \<le> length b \<Longrightarrow> readU32 (b @ c) offset = readU32 b offset"
  by (simp add: readU32_def nth_append)

lemma readU32_arr:
  assumes "i < length xs" "xs ! i < 2 ^ 32"
  shows "readU32 (pre @ arr xs @ post) (length pre + i * 4) = Some (xs ! i)"
proof -
  have "xs = take i xs @ xs ! i # drop (Suc i) xs" using assms(1) by (simp add: id_take_nth_drop)
  then have "pre @ arr xs @ post = (pre @ arr (take i xs)) @ u32le (xs ! i) @ arr (drop (Suc i) xs) @ post"
    by (metis append.assoc arr_simps(2,3))
  moreover have "length (pre @ arr (take i xs)) = length pre + i * 4" using assms(1) by simp
  ultimately show ?thesis using readU32_here [OF assms(2)] by metis
qed

lemma writeU32_here: "writeU32 (pre @ u32le w @ post) (length pre) v = pre @ u32le v @ post"
  by (simp add: writeU32_def u32le_def list_update_append)

lemma writeU32_arr:
  assumes "i < length xs"
  shows "writeU32 (pre @ arr xs @ post) (length pre + i * 4) v = pre @ arr (xs[i := v]) @ post"
proof -
  have xs: "xs = take i xs @ xs ! i # drop (Suc i) xs" using assms by (simp add: id_take_nth_drop)
  have "pre @ arr xs @ post = (pre @ arr (take i xs)) @ u32le (xs ! i) @ arr (drop (Suc i) xs) @ post"
    by (metis append.assoc arr_simps(2,3) xs)
  moreover have "length (pre @ arr (take i xs)) = length pre + i * 4" using assms by simp
  ultimately have "writeU32 (pre @ arr xs @ post) (length pre + i * 4) v = (pre @ arr (take i xs)) @ u32le v @ arr (drop (Suc i) xs) @ post"
    using writeU32_here by metis
  then show ?thesis using assms by (simp add: upd_conv_take_nth_drop)
qed

lemma fold_appendU32: "fold (\<lambda>v out. appendU32 out v) xs out = out @ arr xs"
  by (induction xs arbitrary: out) (simp_all add: appendU32_def)

section \<open>The header\<close>

definition hdr :: "nat list \<Rightarrow> bytes" where
  "hdr fs = dependencyBlobMagic @ arr fs"

lemma length_magic [simp]: "length dependencyBlobMagic = 4"
  by (simp add: dependencyBlobMagic_def)

lemma length_hdr [simp]: "length (hdr fs) = 4 + 4 * length fs"
  by (simp add: hdr_def)

lemma fieldIndex_less [simp]: "fieldIndex f < 16"
  by (cases f) simp_all

lemma setBlobField_hdr: "length fs = 16 \<Longrightarrow> setBlobField (hdr fs @ b) f v = hdr (fs[fieldIndex f := v]) @ b"
  using writeU32_arr [of "fieldIndex f" fs dependencyBlobMagic b v]
  by (simp add: setBlobField_def hdr_def)

lemma blobField_hdr: "length fs = 16 \<Longrightarrow> fs ! fieldIndex f < 2 ^ 32 \<Longrightarrow> blobField (hdr fs @ b) f = Some (fs ! fieldIndex f)"
  using readU32_arr [of "fieldIndex f" fs dependencyBlobMagic b]
  by (simp add: blobField_def hdr_def)

lemma emptyHeader_hdr: "emptyHeader = hdr (replicate 16 0)"
proof -
  have "fold (\<lambda>_ out. appendU32 out 0) xs out = out @ arr (replicate (length xs) 0)" for xs :: "nat list" and out
    by (induction xs arbitrary: out) (simp_all add: appendU32_def)
  then show ?thesis by (simp add: emptyHeader_def hdr_def dependencyBlobFieldCount_def)
qed

section \<open>String tables\<close>

definition sums :: "nat \<Rightarrow> bytes list \<Rightarrow> nat list" where
  "sums n vs = map (\<lambda>i. n + length (concat (take i vs))) [0..<Suc (length vs)]"

definition table :: "bytes list \<Rightarrow> bytes" where
  "table vs = arr (sums 0 vs) @ padTo4 (concat vs)"

lemma length_sums [simp]: "length (sums n vs) = Suc (length vs)"
  by (simp add: sums_def)

lemma nth_sums: "i \<le> length vs \<Longrightarrow> sums n vs ! i = n + length (concat (take i vs))"
  unfolding sums_def by (subst nth_map) (simp_all del: upt_Suc)

lemma sums_Cons: "sums n (v # vs) = n # sums (n + length v) vs"
proof (rule nth_equalityI)
  fix i assume "i < length (sums n (v # vs))"
  then show "sums n (v # vs) ! i = (n # sums (n + length v) vs) ! i"
    by (cases i) (simp_all add: nth_sums)
qed simp

lemma tableOffsets_sums: "tableOffsets n vs = Inr offsets \<Longrightarrow> n # offsets = sums n vs \<and> (\<forall>x \<in> set offsets. x < 2 ^ 32)"
proof (induction vs arbitrary: n offsets)
  case (Cons v vs)
  then obtain rest where r: "tableOffsets (n + length v) vs = Inr rest" "offsets = (n + length v) # rest" "u32Fits (n + length v)"
    by (auto simp: bind_defs split: if_splits)
  from Cons.IH [OF r(1)] have "sums (n + length v) vs = (n + length v) # rest" "\<forall>x \<in> set rest. x < 2 ^ 32" by simp_all
  with r show ?case by (simp add: sums_Cons u32Fits_def)
qed (simp add: sums_def)

lemma align4_ge: "n \<le> align4 n" and align4_dvd: "4 dvd align4 n" and align4_less: "align4 n < n + 4"
  by (auto simp: align4_def)

lemma align4_add: "4 dvd m \<Longrightarrow> align4 (m + n) = m + align4 n"
proof (elim dvdE)
  fix k assume "m = 4 * k"
  moreover have "(4 * k + (n + 3)) div 4 = k + (n + 3) div 4" by simp
  ultimately show ?thesis by (simp add: align4_def add.assoc)
qed

lemma length_padTo4: "length (padTo4 out) = align4 (length out)"
  using align4_ge [of "length out"] by (simp add: padTo4_def)

lemma padTo4_append: "4 dvd length out \<Longrightarrow> padTo4 (out @ b) = out @ padTo4 b"
  by (simp add: padTo4_def align4_add)

lemma length_table: "length (table vs) = 4 * (length vs + 1) + align4 (length (concat vs))"
  by (simp add: table_def length_padTo4)

lemma dvd_table [simp]: "4 dvd length (table vs)"
  by (simp add: length_table align4_dvd)

lemma appendStringTable_table:
  assumes "appendStringTable out vs = Inr out'" "4 dvd length out"
  shows "out' = out @ table vs" "length (concat vs) < 2 ^ 32"
proof -
  from assms(1) obtain offsets where o: "tableOffsets 0 vs = Inr offsets"
    and out': "out' = padTo4 (fold (\<lambda>v out. out @ v) vs (fold (\<lambda>v out. appendU32 out v) (0 # offsets) out))"
    by (auto simp: appendStringTable_def bind_defs)
  note s = tableOffsets_sums [OF o]
  have f: "fold (\<lambda>v out. out @ v) vs b = b @ concat vs" for b by (induction vs arbitrary: b) simp_all
  have "4 dvd length (out @ arr (sums 0 vs))" using assms(2) by simp
  from padTo4_append [OF this] show "out' = out @ table vs"
    unfolding out' fold_appendU32 f s [THEN conjunct1] by (simp add: table_def)
  have "sums 0 vs \<noteq> []" by (simp add: sums_def)
  then have "last (0 # offsets) = length (concat vs)" using s by (simp add: last_conv_nth nth_sums)
  moreover have "last (0 # offsets) \<in> set (0 # offsets)" by (rule last_in_set) simp
  ultimately have "length (concat vs) = 0 \<or> length (concat vs) \<in> set offsets" by (metis set_ConsD)
  then show "length (concat vs) < 2 ^ 32" using s by (elim disjE) (simp_all del: length_concat length_0_conv)
qed

lemma sums_le: "i \<le> length vs \<Longrightarrow> sums 0 vs ! i \<le> length (concat vs)"
proof -
  have "length (concat vs) = length (concat (take i vs)) + length (concat (drop i vs))"
    by (metis append_take_drop_id concat_append length_append)
  then show "i \<le> length vs \<Longrightarrow> sums 0 vs ! i \<le> length (concat vs)" by (simp add: nth_sums)
qed

lemma concat_nth:
  assumes "i < length vs"
  shows "take (length (vs ! i)) (drop (length (concat (take i vs))) (concat vs @ rest)) = vs ! i"
proof -
  have "vs = take i vs @ vs ! i # drop (Suc i) vs" using assms by (simp add: id_take_nth_drop)
  then have "concat vs = concat (take i vs) @ vs ! i @ concat (drop (Suc i) vs)"
    by (metis concat.simps(2) concat_append)
  then show ?thesis by simp
qed

lemma take_Suc_length: "i < length vs \<Longrightarrow> length (concat (take (Suc i) vs)) = length (concat (take i vs)) + length (vs ! i)"
  by (simp add: take_Suc_conv_app_nth)

text \<open>A table written at offset \<^verbatim>\<open>length pre\<close> of a blob.\<close>

definition tableAt :: "DependencyBlobView \<Rightarrow> nat \<Rightarrow> bytes list \<Rightarrow> bool" where
  "tableAt view offset vs \<longleftrightarrow> (\<exists>pre post. blob view = pre @ table vs @ post \<and> offset = length pre) \<and>
     length (concat vs) < 2 ^ 32 \<and> length vs < 2 ^ 32 - 1 \<and> offset + length (table vs) < 2 ^ 32"

lemma tableAt_offset:
  assumes "tableAt view offset vs" "i \<le> length vs"
  shows "arrayValue view offset i = Some (length (concat (take i vs)))"
proof -
  from assms(1) obtain pre post where b: "blob view = pre @ table vs @ post" "offset = length pre" by (auto simp: tableAt_def)
  have "sums 0 vs ! i < 2 ^ 32" using sums_le [OF assms(2)] assms(1) by (auto simp: tableAt_def)
  then show ?thesis
    using readU32_arr [of i "sums 0 vs" pre "padTo4 (concat vs) @ post"] assms(2) nth_sums [OF assms(2), of 0]
    by (simp add: arrayValue_def b table_def)
qed

lemma tableAt_string:
  assumes t: "tableAt view offset vs"
  shows "stringFromTable view offset (length vs) (offset + length (table vs)) i = (if i < length vs then Some (vs ! i) else None)"
proof (cases "i < length vs")
  case True
  from t obtain pre post where b: "blob view = pre @ table vs @ post" "offset = length pre" by (auto simp: tableAt_def)
  have u: "u32 (Suc i) = Suc i" using t True by (auto simp: tableAt_def)
  have "stringSpan view offset (length vs) (offset + length (table vs)) i
      = Some (offset + (length vs + 1) * 4 + length (concat (take i vs)), length (vs ! i))"
    using True tableAt_offset [OF t, of i] tableAt_offset [OF t, of "i + 1"] take_Suc_length [OF True] sums_le [of "i + 1" vs]
      nth_sums [of "i + 1" vs 0] align4_ge [of "length (concat vs)"]
    by (simp add: stringSpan_def u length_table del: u32_id)
  moreover have "drop (offset + (length vs + 1) * 4 + length (concat (take i vs))) (blob view)
      = drop (length (concat (take i vs))) (padTo4 (concat vs) @ post)"
    by (simp add: b table_def add.assoc [symmetric] drop_drop [symmetric] mult.commute del: drop_drop)
  moreover have "take (length (vs ! i)) (drop (length (concat (take i vs))) (padTo4 (concat vs) @ post)) = vs ! i"
    unfolding padTo4_def append_assoc by (rule concat_nth [OF True])
  ultimately show ?thesis using True by (simp only: stringFromTable_def option.map prod.case if_True)
qed (simp add: stringFromTable_def stringSpan_def)

lemma offsetsOk_upt:
  assumes "\<And>i. a \<le> i \<Longrightarrow> i < b \<Longrightarrow> arrayValue view offset i = Some (g i)"
    and "\<And>i. a \<le> i \<Longrightarrow> i < b \<Longrightarrow> g i \<le> byteCount" "\<And>i j. i \<le> j \<Longrightarrow> j < b \<Longrightarrow> g i \<le> g j"
    and "a < b \<Longrightarrow> previous \<le> g a"
  shows "offsetsOk view offset byteCount previous [a..<b]"
  using assms
proof (induction "b - a" arbitrary: a previous)
  case (Suc n)
  then have "a < b" by simp
  moreover have "offsetsOk view offset byteCount (g a) [Suc a..<b]"
    by (rule Suc.hyps(1)) (use Suc.prems Suc.hyps(2) in auto)
  ultimately show ?case using Suc.prems(1,2,4) by (simp add: upt_conv_Cons not_less)
qed simp

lemma tableAt_ok:
  assumes t: "tableAt view offset vs" and s: "dependencyBlobHeaderSize \<le> offset" "offset + length (table vs) \<le> endOffset view"
  shows "stringTableOk view offset (offset + length (table vs)) (length vs)"
proof -
  have len: "offset + length (table vs) - (offset + (length vs + 1) * 4) = align4 (length (concat vs))"
    "offset + (length vs + 1) * 4 \<le> offset + length (table vs)" by (simp_all add: length_table)
  have small: "align4 (length (concat vs)) < 2 ^ 32" using t len unfolding tableAt_def by linarith
  have mono: "length (concat (take i vs)) \<le> length (concat (take j vs))" if "i \<le> j" for i j
  proof -
    have "take j vs = take i vs @ take (j - i) (drop i vs)" using that by (metis le_add_diff_inverse take_add)
    then show ?thesis by (metis concat_append le_add1 length_append)
  qed
  have "offsetsOk view offset (align4 (length (concat vs))) 0 [0..<length vs + 1]"
  proof (rule offsetsOk_upt [where g = "\<lambda>i. length (concat (take i vs))"])
    show "arrayValue view offset i = Some (length (concat (take i vs)))" if "i < length vs + 1" for i
      using tableAt_offset [OF t, of i] that by simp
    show "length (concat (take i vs)) \<le> align4 (length (concat vs))" for i
      using align4_ge [of "length (concat vs)"] mono [of i "max i (length vs)"] by simp
  qed (simp_all add: mono)
  then show ?thesis using s len small by (simp add: stringTableOk_def sectionOk_def Let_def del: upt_Suc)
qed

section \<open>The layout of a row\<close>

record RowParts =
  rp_names :: "bytes list"
  rp_targets :: "(nat \<times> nat) list"
  rp_paths :: "bytes list"
  rp_fingerprints :: "bytes list"
  rp_payloads :: "bytes list"
  rp_candidates :: "(nat \<times> nat \<times> nat) list"
  rp_pairs :: "(nat \<times> nat) list"

definition flat2 :: "(nat \<times> nat) list \<Rightarrow> nat list" where
  "flat2 ps = concat (map (\<lambda>(a, b). [a, b]) ps)"

definition flat3 :: "(nat \<times> nat \<times> nat) list \<Rightarrow> nat list" where
  "flat3 ps = concat (map (\<lambda>(a, b, c). [a, b, c]) ps)"

lemma length_flat2 [simp]: "length (flat2 ps) = 2 * length ps"
  by (induction ps) (auto simp: flat2_def)

lemma length_flat3 [simp]: "length (flat3 ps) = 3 * length ps"
  by (induction ps) (auto simp: flat3_def)

lemma nth_flat2: "i < length ps \<Longrightarrow> flat2 ps ! (i * 2) = fst (ps ! i) \<and> flat2 ps ! (i * 2 + 1) = snd (ps ! i)"
proof (induction ps arbitrary: i)
  case (Cons p ps)
  then show ?case by (cases i; cases p) (auto simp: flat2_def)
qed simp

lemma nth_flat3: "i < length ps \<Longrightarrow> flat3 ps ! (i * 3) = fst (ps ! i) \<and> flat3 ps ! (i * 3 + 1) = fst (snd (ps ! i))
    \<and> flat3 ps ! (i * 3 + 2) = snd (snd (ps ! i))"
proof (induction ps arbitrary: i)
  case (Cons p ps)
  then show ?case by (cases i; cases p) (auto simp: flat3_def numeral_eq_Suc)
qed simp

definition offT :: "RowParts \<Rightarrow> nat" where "offT R = 68 + length (table (rp_names R))"
definition offP :: "RowParts \<Rightarrow> nat" where "offP R = offT R + 8 * length (rp_targets R)"
definition offF :: "RowParts \<Rightarrow> nat" where "offF R = offP R + length (table (rp_paths R))"
definition offY :: "RowParts \<Rightarrow> nat" where "offY R = offF R + length (table (rp_fingerprints R))"
definition offC :: "RowParts \<Rightarrow> nat" where "offC R = offY R + length (table (rp_payloads R))"
definition offR :: "RowParts \<Rightarrow> nat" where "offR R = offC R + 12 * length (rp_candidates R)"
definition offE :: "RowParts \<Rightarrow> nat" where "offE R = offR R + 8 * length (rp_pairs R)"

definition fieldsOf :: "RowParts \<Rightarrow> nat list" where
  "fieldsOf R = [2, 0, length (rp_names R), length (rp_paths R), length (rp_fingerprints R), length (rp_payloads R),
     length (rp_candidates R), length (rp_pairs R), 68, offT R, offP R, offF R, offY R, offC R, offR R, offE R]"

definition layout :: "RowParts \<Rightarrow> bytes" where
  "layout R = hdr (fieldsOf R) @ table (rp_names R) @ arr (flat2 (rp_targets R)) @ table (rp_paths R)
     @ table (rp_fingerprints R) @ table (rp_payloads R) @ arr (flat3 (rp_candidates R)) @ arr (flat2 (rp_pairs R))"

definition viewOf :: "RowParts \<Rightarrow> DependencyBlobView" where
  "viewOf R = \<lparr>blob = layout R, targetCount = length (rp_names R), pathCount = length (rp_paths R),
     fingerprintCount = length (rp_fingerprints R), payloadCount = length (rp_payloads R),
     candidateCount = length (rp_candidates R), pairCount = length (rp_pairs R), targetOffsetsOffset = 68,
     targetRecordsOffset = offT R, pathOffsetsOffset = offP R, fingerprintOffsetsOffset = offF R,
     payloadOffsetsOffset = offY R, candidateRecordsOffset = offC R, pairsOffset = offR R, endOffset = offE R\<rparr>"

lemma viewOf_sel:
  "blob (viewOf R) = layout R" "targetCount (viewOf R) = length (rp_names R)" "pathCount (viewOf R) = length (rp_paths R)"
  "fingerprintCount (viewOf R) = length (rp_fingerprints R)" "payloadCount (viewOf R) = length (rp_payloads R)"
  "candidateCount (viewOf R) = length (rp_candidates R)" "pairCount (viewOf R) = length (rp_pairs R)"
  "targetOffsetsOffset (viewOf R) = 68" "targetRecordsOffset (viewOf R) = offT R" "pathOffsetsOffset (viewOf R) = offP R"
  "fingerprintOffsetsOffset (viewOf R) = offF R" "payloadOffsetsOffset (viewOf R) = offY R"
  "candidateRecordsOffset (viewOf R) = offC R" "pairsOffset (viewOf R) = offR R" "endOffset (viewOf R) = offE R"
  by (simp_all add: viewOf_def)

definition parts_ok :: "RowParts \<Rightarrow> bool" where
  "parts_ok R \<longleftrightarrow> rp_names R \<noteq> [] \<and> length (rp_names R) \<le> 1024 \<and> length (rp_targets R) = length (rp_names R) \<and>
     rp_payloads R \<noteq> [] \<and> rp_candidates R \<noteq> [] \<and> offE R < 2 ^ 32 \<and>
     (\<forall>x \<in> set (flat2 (rp_targets R)) \<union> set (flat3 (rp_candidates R)) \<union> set (flat2 (rp_pairs R)). x < 2 ^ 32)"

lemmas off_defs = offT_def offP_def offF_def offY_def offC_def offR_def offE_def

lemma length_layout: "length (layout R) = offE R"
  by (simp add: layout_def off_defs fieldsOf_def)

lemma table_bound: "length vs < length (table vs)" "length (concat vs) \<le> length (table vs)"
  using align4_ge [of "length (concat vs)"] by (simp_all add: length_table)

lemma tableAtI:
  assumes "blob view = pre @ table vs @ post" "offset = length pre" "offset + length (table vs) < 2 ^ 32"
  shows "tableAt view offset vs"
  unfolding tableAt_def using assms table_bound [of vs] by (auto simp del: length_concat)

lemma layout_tables:
  assumes "parts_ok R"
  shows "tableAt (viewOf R) 68 (rp_names R)" "tableAt (viewOf R) (offP R) (rp_paths R)"
    "tableAt (viewOf R) (offF R) (rp_fingerprints R)" "tableAt (viewOf R) (offY R) (rp_payloads R)"
proof -
  note b = assms [unfolded parts_ok_def]
  show "tableAt (viewOf R) 68 (rp_names R)"
    by (rule tableAtI [of _ "hdr (fieldsOf R)"]) (use b in \<open>auto simp: viewOf_def layout_def off_defs fieldsOf_def\<close>)
  show "tableAt (viewOf R) (offP R) (rp_paths R)"
    by (rule tableAtI [of _ "hdr (fieldsOf R) @ table (rp_names R) @ arr (flat2 (rp_targets R))"])
      (use b in \<open>auto simp: viewOf_def layout_def off_defs fieldsOf_def\<close>)
  show "tableAt (viewOf R) (offF R) (rp_fingerprints R)"
    by (rule tableAtI [of _ "hdr (fieldsOf R) @ table (rp_names R) @ arr (flat2 (rp_targets R)) @ table (rp_paths R)"])
      (use b in \<open>auto simp: viewOf_def layout_def off_defs fieldsOf_def\<close>)
  show "tableAt (viewOf R) (offY R) (rp_payloads R)"
    by (rule tableAtI [of _ "hdr (fieldsOf R) @ table (rp_names R) @ arr (flat2 (rp_targets R)) @ table (rp_paths R) @ table (rp_fingerprints R)"])
      (use b in \<open>auto simp: viewOf_def layout_def off_defs fieldsOf_def\<close>)
qed

lemma layout_strings:
  assumes "parts_ok R"
  shows "target (viewOf R) i = (if i < length (rp_names R) then Some (rp_names R ! i) else None)"
    "path (viewOf R) i = (if i < length (rp_paths R) then Some (rp_paths R ! i) else None)"
    "fingerprint (viewOf R) i = (if i < length (rp_fingerprints R) then Some (rp_fingerprints R ! i) else None)"
    "payload (viewOf R) i = (if i < length (rp_payloads R) then Some (rp_payloads R ! i) else None)"
  using layout_tables [OF assms, THEN tableAt_string, of i]
  by (simp_all add: target_def path_def fingerprint_def payload_def viewOf_def offT_def offF_def offY_def offC_def)

lemma array_layout:
  assumes "layout R = pre @ arr xs @ post" "length pre = offset" "i < length xs" "\<forall>x \<in> set xs. x < 2 ^ 32" "length (layout R) < 2 ^ 32"
  shows "arrayValue (viewOf R) offset (u32 i) = Some (xs ! i)"
proof -
  have "i < 2 ^ 32" using assms(1,3,5) by simp
  then show ?thesis
    using readU32_arr [of i xs pre post] assms(2-4) by (simp add: arrayValue_def viewOf_def assms(1))
qed

lemma layout_records:
  assumes ok: "parts_ok R"
  shows "i < length (rp_names R) \<Longrightarrow> targetCandidateStart (viewOf R) i = Some (fst (rp_targets R ! i))"
    "i < length (rp_names R) \<Longrightarrow> targetCandidateCount (viewOf R) i = Some (snd (rp_targets R ! i))"
    "i < length (rp_candidates R) \<Longrightarrow> candidatePairStart (viewOf R) i = Some (fst (rp_candidates R ! i))"
    "i < length (rp_candidates R) \<Longrightarrow> candidatePairCount (viewOf R) i = Some (fst (snd (rp_candidates R ! i)))"
    "i < length (rp_candidates R) \<Longrightarrow> candidatePayload (viewOf R) i = Some (snd (snd (rp_candidates R ! i)))"
    "i < length (rp_pairs R) \<Longrightarrow> pairPath (viewOf R) i = Some (fst (rp_pairs R ! i))"
    "i < length (rp_pairs R) \<Longrightarrow> pairFingerprint (viewOf R) i = Some (snd (rp_pairs R ! i))"
proof -
  have E: "length (layout R) < 2 ^ 32" using ok by (simp add: length_layout parts_ok_def)
  have T: "arrayValue (viewOf R) (offT R) (u32 k) = Some (flat2 (rp_targets R) ! k)" if "k < length (flat2 (rp_targets R))" for k
    by (rule array_layout [where pre = "hdr (fieldsOf R) @ table (rp_names R)"
          and post = "table (rp_paths R) @ table (rp_fingerprints R) @ table (rp_payloads R) @ arr (flat3 (rp_candidates R)) @ arr (flat2 (rp_pairs R))"])
      (use ok E that in \<open>auto simp: layout_def parts_ok_def offT_def fieldsOf_def\<close>)
  have C: "arrayValue (viewOf R) (offC R) (u32 k) = Some (flat3 (rp_candidates R) ! k)" if "k < length (flat3 (rp_candidates R))" for k
    by (rule array_layout [where pre = "hdr (fieldsOf R) @ table (rp_names R) @ arr (flat2 (rp_targets R)) @ table (rp_paths R) @ table (rp_fingerprints R) @ table (rp_payloads R)"
          and post = "arr (flat2 (rp_pairs R))"])
      (use ok E that in \<open>auto simp: layout_def parts_ok_def off_defs fieldsOf_def\<close>)
  have P: "arrayValue (viewOf R) (offR R) (u32 k) = Some (flat2 (rp_pairs R) ! k)" if "k < length (flat2 (rp_pairs R))" for k
    by (rule array_layout [where pre = "hdr (fieldsOf R) @ table (rp_names R) @ arr (flat2 (rp_targets R)) @ table (rp_paths R) @ table (rp_fingerprints R) @ table (rp_payloads R) @ arr (flat3 (rp_candidates R))"
          and post = "[]"])
      (use ok E that in \<open>auto simp: layout_def parts_ok_def off_defs fieldsOf_def\<close>)
  have nt: "length (rp_targets R) = length (rp_names R)" using ok by (simp add: parts_ok_def)
  show "i < length (rp_names R) \<Longrightarrow> targetCandidateStart (viewOf R) i = Some (fst (rp_targets R ! i))"
    "i < length (rp_names R) \<Longrightarrow> targetCandidateCount (viewOf R) i = Some (snd (rp_targets R ! i))"
    using T [of "i * 2"] T [of "i * 2 + 1"] nth_flat2 [of i "rp_targets R"] nt
    by (simp_all add: targetCandidateStart_def targetCandidateCount_def targetField_def targetRecordU32s_def viewOf_def)
  show "i < length (rp_candidates R) \<Longrightarrow> candidatePairStart (viewOf R) i = Some (fst (rp_candidates R ! i))"
    "i < length (rp_candidates R) \<Longrightarrow> candidatePairCount (viewOf R) i = Some (fst (snd (rp_candidates R ! i)))"
    "i < length (rp_candidates R) \<Longrightarrow> candidatePayload (viewOf R) i = Some (snd (snd (rp_candidates R ! i)))"
    using C [of "i * 3"] C [of "i * 3 + 1"] C [of "i * 3 + 2"] nth_flat3 [of i "rp_candidates R"]
    by (simp_all add: candidatePairStart_def candidatePairCount_def candidatePayload_def candidateField_def candidateRecordU32s_def viewOf_def)
  show "i < length (rp_pairs R) \<Longrightarrow> pairPath (viewOf R) i = Some (fst (rp_pairs R ! i))"
    "i < length (rp_pairs R) \<Longrightarrow> pairFingerprint (viewOf R) i = Some (snd (rp_pairs R ! i))"
    using P [of "i * 2"] P [of "i * 2 + 1"] nth_flat2 [of i "rp_pairs R"]
    by (simp_all add: pairPath_def pairFingerprint_def pairField_def pairRecordU32s_def viewOf_def)
qed

lemma open_layout:
  assumes ok: "parts_ok R"
  shows "openBlob (layout R) = Some (viewOf R)"
proof -
  have le: "offE R < 2 ^ 32" "68 \<le> offT R" "offT R \<le> offP R" "offP R \<le> offF R" "offF R \<le> offY R" "offY R \<le> offC R" "offC R \<le> offR R" "offR R \<le> offE R"
    using ok by (auto simp: parts_ok_def off_defs)
  have "length (rp_names R) < offE R" "length (rp_paths R) < offE R" "length (rp_fingerprints R) < offE R" "length (rp_payloads R) < offE R"
      "length (rp_candidates R) \<le> offE R" "length (rp_pairs R) \<le> offE R"
    using table_bound(1) [of "rp_names R"] table_bound(1) [of "rp_paths R"] table_bound(1) [of "rp_fingerprints R"] table_bound(1) [of "rp_payloads R"]
    by (simp_all add: off_defs)
  with le have small: "\<forall>x \<in> set (fieldsOf R). x < 2 ^ 32" by (simp add: fieldsOf_def)
  have len: "length (fieldsOf R) = 16" by (simp add: fieldsOf_def)
  have f: "blobField (layout R) g = Some (fieldsOf R ! fieldIndex g)" for g
    unfolding layout_def by (rule blobField_hdr [OF len]) (use small len in simp)
  have magic: "take (length dependencyBlobMagic) (layout R) = dependencyBlobMagic" by (simp add: layout_def hdr_def)
  note t = layout_tables [OF ok, THEN tableAt_ok]
  have sizes: "offT R = 68 + length (table (rp_names R))" "offF R = offP R + length (table (rp_paths R))"
      "offY R = offF R + length (table (rp_fingerprints R))" "offC R = offY R + length (table (rp_payloads R))" by (simp_all add: off_defs)
  have h: "dependencyBlobHeaderSize = 68" by (simp add: dependencyBlobHeaderSize_def dependencyBlobFieldCount_def)
  have T: "stringTableOk (viewOf R) 68 (offT R) (length (rp_names R))" "stringTableOk (viewOf R) (offP R) (offF R) (length (rp_paths R))"
      "stringTableOk (viewOf R) (offF R) (offY R) (length (rp_fingerprints R))" "stringTableOk (viewOf R) (offY R) (offC R) (length (rp_payloads R))"
    using t [unfolded viewOf_sel h sizes [symmetric]] le by simp_all
  have rec: "offP R - offT R = length (rp_names R) * 8" "offR R - offC R = length (rp_candidates R) * 12" "offE R - offR R = length (rp_pairs R) * 8"
    using ok by (simp_all add: offP_def offR_def offE_def parts_ok_def)
  have "viewOk (viewOf R)"
    using ok T le rec length_layout [of R]
    by (simp add: viewOk_def sectionOk_def exactRecordSection_def viewOf_sel parts_ok_def maxDependencyBlobTargets_def h
        targetRecordU32s_def candidateRecordU32s_def pairRecordU32s_def)
  moreover have "blobField (layout R) blobVersionField = Some 2" "blobField (layout R) blobFlagsField = Some 0"
      "blobField (layout R) blobTargetCountField = Some (length (rp_names R))" "blobField (layout R) blobPathCountField = Some (length (rp_paths R))"
      "blobField (layout R) blobFingerprintCountField = Some (length (rp_fingerprints R))"
      "blobField (layout R) blobPayloadCountField = Some (length (rp_payloads R))"
      "blobField (layout R) blobCandidateCountField = Some (length (rp_candidates R))"
      "blobField (layout R) blobPairCountField = Some (length (rp_pairs R))" "blobField (layout R) blobTargetOffsetsOffsetField = Some 68"
      "blobField (layout R) blobTargetRecordsOffsetField = Some (offT R)" "blobField (layout R) blobPathOffsetsOffsetField = Some (offP R)"
      "blobField (layout R) blobFingerprintOffsetsOffsetField = Some (offF R)" "blobField (layout R) blobPayloadOffsetsOffsetField = Some (offY R)"
      "blobField (layout R) blobCandidateRecordsOffsetField = Some (offC R)" "blobField (layout R) blobPairsOffsetField = Some (offR R)"
      "blobField (layout R) blobEndOffsetField = Some (offE R)"
    by (simp_all add: f fieldsOf_def)
  moreover have "\<not> length (layout R) < dependencyBlobHeaderSize" using length_layout [of R] le h by simp
  ultimately show ?thesis
    using magic unfolding openBlob_def viewOf_def by (simp add: dependencyBlobVersion_def dependencyBlobFlags_def del: length_magic)
qed

section \<open>What the writer emits\<close>

primrec targetRecords :: "nat \<Rightarrow> PlannedTarget list \<Rightarrow> (nat \<times> nat) list" where
  "targetRecords n [] = []"
| "targetRecords n (t # ts) = (n, length (pt_candidates t)) # targetRecords (n + length (pt_candidates t)) ts"

primrec candidateRecords :: "nat \<Rightarrow> (nat \<times> nat) list \<Rightarrow> (nat \<times> nat \<times> nat) list" where
  "candidateRecords n [] = []"
| "candidateRecords n (r # rs) = (n, fst r, snd r) # candidateRecords (n + fst r) rs"

lemma length_targetRecords [simp]: "length (targetRecords n ts) = length ts"
  by (induction ts arbitrary: n) simp_all

lemma length_candidateRecords [simp]: "length (candidateRecords n rs) = length rs"
  by (induction rs arbitrary: n) simp_all

lemma flat_simps [simp]: "flat2 [] = []" "flat2 ((a, b) # ps) = a # b # flat2 ps" "flat3 [] = []" "flat3 ((a, b, c) # qs) = a # b # c # flat3 qs"
    "flat2 (ps @ ps') = flat2 ps @ flat2 ps'"
  by (simp_all add: flat2_def flat3_def)

lemma emitTargets_records:
  "emitTargets n ts out = Inr out' \<Longrightarrow> n + length (concat (map pt_candidates ts)) < 2 ^ 32 \<Longrightarrow>
    out' = out @ arr (flat2 (targetRecords n ts)) \<and> (\<forall>x \<in> set (flat2 (targetRecords n ts)). x < 2 ^ 32)"
proof (induction ts arbitrary: n out)
  case (Cons t ts)
  let ?k = "length (pt_candidates t)"
  from Cons.prems(1) have e: "emitTargets (u32 (n + ?k)) ts (appendU32 (appendU32 out n) ?k) = Inr out'"
    by (auto simp: bind_defs checkedU32_def split: if_splits)
  have u: "u32 (n + ?k) = n + ?k" "n + ?k + length (concat (map pt_candidates ts)) < 2 ^ 32" using Cons.prems(2) by simp_all
  from Cons.IH [OF e [unfolded u(1)] u(2)] Cons.prems(2) show ?case by (simp add: appendU32_def)
qed simp

lemma emitCandidates_records:
  "emitCandidates view fresh payloads n cs out = Inr out' \<Longrightarrow>
    (\<And>c r. c \<in> set cs \<Longrightarrow> candidateRecord view fresh payloads c = Inr r \<Longrightarrow> fst r = size_of c \<and> snd r < 2 ^ 32) \<Longrightarrow>
    n + sum_list (map size_of cs) < 2 ^ 32 \<Longrightarrow>
    \<exists>rs. mapE (candidateRecord view fresh payloads) cs = Inr rs \<and> map fst rs = map size_of cs \<and>
      out' = out @ arr (flat3 (candidateRecords n rs)) \<and> (\<forall>x \<in> set (flat3 (candidateRecords n rs)). x < 2 ^ 32)"
proof (induction cs arbitrary: n out)
  case (Cons c cs)
  from Cons.prems(1) obtain count payloadId where r: "candidateRecord view fresh payloads c = Inr (count, payloadId)"
    and e: "emitCandidates view fresh payloads (u32 (n + count)) cs (appendU32 (appendU32 (appendU32 out n) count) payloadId) = Inr out'"
    by (auto simp: bind_defs)
  from Cons.prems(2) [OF _ r] have c: "count = size_of c" "payloadId < 2 ^ 32" by auto
  have u: "u32 (n + count) = n + count" using Cons.prems(3) c by simp
  from Cons.IH [OF e [unfolded u]] Cons.prems(2,3) c obtain rs where
    "mapE (candidateRecord view fresh payloads) cs = Inr rs" "map fst rs = map size_of cs"
    "out' = appendU32 (appendU32 (appendU32 out n) count) payloadId @ arr (flat3 (candidateRecords (n + count) rs))"
    "\<forall>x \<in> set (flat3 (candidateRecords (n + count) rs)). x < 2 ^ 32" by auto
  with r c Cons.prems(3) show ?case by (auto simp: appendU32_def)
qed simp

lemma emitPairs_records:
  "emitPairs view fresh paths fingerprints cs out = Inr out' \<Longrightarrow>
    \<exists>pss. mapE (candidatePairs view fresh paths fingerprints) cs = Inr pss \<and> out' = out @ arr (flat2 (concat pss))"
proof (induction cs arbitrary: out)
  case (Cons c cs)
  have "fold (\<lambda>(a, b) out. appendU32 (appendU32 out a) b) ps out = out @ arr (flat2 ps)" for ps out
    by (induction ps arbitrary: out) (auto simp: appendU32_def)
  with Cons show ?case by (fastforce simp: bind_defs)
qed simp

text \<open>The fields are set in the order of the header, so the fields still unset are the zeros at its end.\<close>

definition part :: "nat list \<Rightarrow> bytes" where
  "part vs = hdr (vs @ replicate (16 - length vs) 0)"

lemma length_part [simp]: "length vs \<le> 16 \<Longrightarrow> length (part vs) = 68"
  by (simp add: part_def)

lemma setBlobField_part:
  assumes "fieldIndex f = length vs"
  shows "setBlobField (part vs @ b) f v = part (vs @ [v]) @ b"
proof -
  have n: "length vs < 16" using fieldIndex_less [of f] assms by simp
  then have "replicate (16 - length vs) (0::nat) = 0 # replicate (16 - length (vs @ [v])) 0"
    by (simp add: Suc_diff_le flip: replicate_Suc)
  then have "(vs @ replicate (16 - length vs) 0)[length vs := v] = (vs @ [v]) @ replicate (16 - length (vs @ [v])) 0"
    by (simp only: list_update_append) simp
  with assms n show ?thesis by (simp add: part_def setBlobField_hdr)
qed

lemma setSize_part:
  "setSize f (part vs @ b) = Inr out' \<Longrightarrow> fieldIndex f = length vs \<Longrightarrow> out' = part (vs @ [68 + length b]) @ b \<and> 68 + length b < 2 ^ 32"
  using fieldIndex_less [of f]
  by (auto simp: setSize_def checkedU32_def bind_defs u32Fits_def setBlobField_part split: if_splits)

lemma setCount_part:
  "setCount f n what (part vs @ b) = Inr out' \<Longrightarrow> fieldIndex f = length vs \<Longrightarrow> out' = part (vs @ [n]) @ b \<and> n < 2 ^ 32"
  by (auto simp: setCount_def checkedU32_def bind_defs u32Fits_def setBlobField_part split: if_splits)

lemmas setCount_part0 = setCount_part [where b = "[]", unfolded append_Nil2]

lemma appendStringTable_part:
  "appendStringTable (part fs @ b) vs = Inr out' \<Longrightarrow> length fs \<le> 16 \<Longrightarrow> 4 dvd length b \<Longrightarrow> out' = part fs @ b @ table vs"
  using appendStringTable_table(1) [of "part fs @ b" vs out'] by simp

definition partsOf :: "PlannedTarget list \<Rightarrow> MergedStrings \<Rightarrow> MergedStrings \<Rightarrow> MergedStrings \<Rightarrow> (nat \<times> nat) list \<Rightarrow> (nat \<times> nat) list list \<Rightarrow> RowParts" where
  "partsOf targets paths fingerprints payloads rs pss =
     \<lparr>rp_names = map pt_name targets, rp_targets = targetRecords 0 targets, rp_paths = ms_strings paths,
      rp_fingerprints = ms_strings fingerprints, rp_payloads = ms_strings payloads,
      rp_candidates = candidateRecords 0 rs, rp_pairs = concat pss\<rparr>"

lemma ebind_InrE: "ebind m g = Inr b \<Longrightarrow> (\<And>a. m = Inr a \<Longrightarrow> g a = Inr b \<Longrightarrow> P) \<Longrightarrow> P"
  by (auto simp: bind_defs)

text \<open>The part of \<^verbatim>\<open>writeShardRow\<close> that writes bytes.\<close>

definition serialise ::
  "DependencyBlobView option \<Rightarrow> PlannedTarget list \<Rightarrow> FreshCandidate list \<Rightarrow> nat \<Rightarrow> Marks \<Rightarrow> MergedStrings \<Rightarrow> MergedStrings \<Rightarrow> MergedStrings \<Rightarrow> bytes \<Rightarrow> bool" where
  "serialise view targets fresh maxRowBytes m paths fingerprints payloads out \<longleftrightarrow>
     (\<exists>rs pss. mapE (candidateRecord view fresh payloads) (concat (map pt_candidates targets)) = Inr rs \<and>
        mapE (candidatePairs view fresh paths fingerprints) (concat (map pt_candidates targets)) = Inr pss \<and>
        out = layout (partsOf targets paths fingerprints payloads rs pss) \<and> length out \<le> maxRowBytes \<and> length out < 2 ^ 32 \<and>
        (\<forall>x \<in> set (flat2 (targetRecords 0 targets)) \<union> set (flat3 (candidateRecords 0 rs)). x < 2 ^ 32))"

lemma writeShardRow_layout:
  assumes w: "writeShardRow view targets fresh maxRowBytes = Inr out"
    and count: "\<And>m. markCandidates view fresh (concat (map pt_candidates targets)) (initialMarks view) = Inr m \<Longrightarrow>
      mk_candidateCount m = length (concat (map pt_candidates targets)) \<and> mk_pairCount m = sum_list (map size_of (concat (map pt_candidates targets)))"
    and rec: "\<And>payloads c r. c \<in> set (concat (map pt_candidates targets)) \<Longrightarrow> candidateRecord view fresh payloads c = Inr r \<Longrightarrow>
      fst r = size_of c"
    and recid: "\<And>payloads c r. (\<forall>x \<in> set (ms_storedIdMap payloads). x < 2 ^ 32) \<Longrightarrow> candidateRecord view fresh payloads c = Inr r \<Longrightarrow> snd r < 2 ^ 32"
    and small: "\<And>n stored used fr ms. mergeStrings n stored used fr = Inr ms \<Longrightarrow> \<forall>x \<in> set (ms_storedIdMap ms). x < 2 ^ 32"
    and len: "\<And>paths fingerprints c ps. c \<in> set (concat (map pt_candidates targets)) \<Longrightarrow> candidatePairs view fresh paths fingerprints c = Inr ps \<Longrightarrow>
      length ps = size_of c"
  shows "targets \<noteq> [] \<and> length targets \<le> 1024 \<and>
    (\<exists>m paths fingerprints payloads. markCandidates view fresh (concat (map pt_candidates targets)) (initialMarks view) = Inr m \<and>
      mergeStrings (countOf pathCount view) (\<lambda>i. Option.bind view (\<lambda>vw. path vw i)) (usedPaths m) (freshPaths m) = Inr paths \<and>
      mergeStrings (countOf fingerprintCount view) (\<lambda>i. Option.bind view (\<lambda>vw. fingerprint vw i)) (usedFingerprints m) (freshFingerprints m) = Inr fingerprints \<and>
      mergeStrings (countOf payloadCount view) (\<lambda>i. Option.bind view (\<lambda>vw. payload vw i)) (usedPayloads m) (freshPayloads m) = Inr payloads \<and>
      serialise view targets fresh maxRowBytes m paths fingerprints payloads out)"
  using w unfolding writeShardRow_def Let_def
  apply (split if_split_asm, simp)
  apply (split if_split_asm, simp)
  apply (elim ebind_InrE)
  subgoal premises p for m paths fingerprints payloads a1 a2 a3 a4 a5 a6 a7 a8 a9 a10 a11 a12 a13 a14 a15 a16 a17 a18 a19 a20
  proof -
    let ?cs = "concat (map pt_candidates targets)"
    let ?N = "map pt_name targets" and ?T = "targetRecords 0 targets"
    let ?v1 = "[2, 0, length targets, length (ms_strings paths), length (ms_strings fingerprints), length (ms_strings payloads), length ?cs, mk_pairCount m]"
    have h0: "setBlobField (setBlobField emptyHeader blobVersionField dependencyBlobVersion) blobFlagsField dependencyBlobFlags = part [2, 0]"
    proof -
      have "emptyHeader = part [] @ []" by (simp add: emptyHeader_hdr part_def)
      then show ?thesis using setBlobField_part [of blobVersionField "[]" "[]" 2] setBlobField_part [of blobFlagsField "[2]" "[]" 0]
        by (simp add: dependencyBlobVersion_def dependencyBlobFlags_def)
    qed
    have c: "mk_candidateCount m = length ?cs" "mk_pairCount m = sum_list (map size_of ?cs)" using count [OF p(3)] by simp_all
    let ?v = "[2, 0, length targets, length (ms_strings paths), length (ms_strings fingerprints), length (ms_strings payloads), length ?cs, mk_pairCount m]"
    have a1: "a1 = part (take 3 ?v)" using setCount_part0 [OF p(7) [unfolded h0]] by simp
    have a2: "a2 = part (take 4 ?v)" using setCount_part0 [OF p(8) [unfolded a1]] by simp
    have a3: "a3 = part (take 5 ?v)" using setCount_part0 [OF p(9) [unfolded a2]] by simp
    have a4: "a4 = part (take 6 ?v)" using setCount_part0 [OF p(10) [unfolded a3]] by simp
    have a5: "a5 = part (take 7 ?v)" and n5: "length ?cs < 2 ^ 32" using setCount_part0 [OF p(11) [unfolded a4]] c(1) by simp_all
    have a6: "a6 = part ?v @ []" and n6: "sum_list (map size_of ?cs) < 2 ^ 32" using setCount_part0 [OF p(12) [unfolded a5]] c(2) by simp_all
    have a7: "a7 = part (?v @ [68]) @ []" using setSize_part [OF p(13) [unfolded a6]] by simp
    let ?b1 = "table ?N" let ?o1 = "68 + length ?b1"
    have a8: "a8 = part (?v @ [68]) @ ?b1" using appendStringTable_part [OF p(14) [unfolded a7]] by simp
    have a9: "a9 = part (?v @ [68, ?o1]) @ ?b1" using setSize_part [OF p(15) [unfolded a8]] by simp
    have e10: "a10 = a9 @ arr (flat2 ?T)" and small1: "\<forall>x \<in> set (flat2 ?T). x < 2 ^ 32"
      using emitTargets_records [OF p(16)] n5 by simp_all
    let ?b2 = "?b1 @ arr (flat2 ?T)" let ?o2 = "68 + length ?b2"
    have a10: "a10 = part (?v @ [68, ?o1]) @ ?b2" unfolding e10 a9 by simp
    have a11: "a11 = part (?v @ [68, ?o1, ?o2]) @ ?b2" using setSize_part [OF p(17) [unfolded a10]] by simp
    let ?b3 = "?b2 @ table (ms_strings paths)" let ?o3 = "68 + length ?b3"
    have a12: "a12 = part (?v @ [68, ?o1, ?o2]) @ ?b3" using appendStringTable_part [OF p(18) [unfolded a11]] by simp
    have a13: "a13 = part (?v @ [68, ?o1, ?o2, ?o3]) @ ?b3" using setSize_part [OF p(19) [unfolded a12]] by simp
    let ?b4 = "?b3 @ table (ms_strings fingerprints)" let ?o4 = "68 + length ?b4"
    have a14: "a14 = part (?v @ [68, ?o1, ?o2, ?o3]) @ ?b4" using appendStringTable_part [OF p(20) [unfolded a13]] by simp
    have a15: "a15 = part (?v @ [68, ?o1, ?o2, ?o3, ?o4]) @ ?b4" using setSize_part [OF p(21) [unfolded a14]] by simp
    let ?b5 = "?b4 @ table (ms_strings payloads)" let ?o5 = "68 + length ?b5"
    have a16: "a16 = part (?v @ [68, ?o1, ?o2, ?o3, ?o4]) @ ?b5" using appendStringTable_part [OF p(22) [unfolded a15]] by simp
    have a17: "a17 = part (?v @ [68, ?o1, ?o2, ?o3, ?o4, ?o5]) @ ?b5" using setSize_part [OF p(23) [unfolded a16]] by simp
    have sm: "fst r = size_of c \<and> snd r < 2 ^ 32" if "c \<in> set ?cs" "candidateRecord view fresh payloads c = Inr r" for c r
      using rec [OF that] recid [OF small [OF p(6)] that(2)] by simp
    from emitCandidates_records [where size_of = size_of, OF p(24)] sm n6 obtain rs where rs: "mapE (candidateRecord view fresh payloads) ?cs = Inr rs"
        "map fst rs = map size_of ?cs" "a18 = a17 @ arr (flat3 (candidateRecords 0 rs))" "\<forall>x \<in> set (flat3 (candidateRecords 0 rs)). x < 2 ^ 32"
      unfolding add_0 by blast
    let ?b6 = "?b5 @ arr (flat3 (candidateRecords 0 rs))" let ?o6 = "68 + length ?b6"
    have a18: "a18 = part (?v @ [68, ?o1, ?o2, ?o3, ?o4, ?o5]) @ ?b6" unfolding rs(3) a17 by simp
    have a19: "a19 = part (?v @ [68, ?o1, ?o2, ?o3, ?o4, ?o5, ?o6]) @ ?b6" using setSize_part [OF p(25) [unfolded a18]] by simp
    from emitPairs_records [OF p(26)] obtain pss where pss: "mapE (candidatePairs view fresh paths fingerprints) ?cs = Inr pss"
        "a20 = a19 @ arr (flat2 (concat pss))" by auto
    let ?b7 = "?b6 @ arr (flat2 (concat pss))" let ?o7 = "68 + length ?b7"
    have a20: "a20 = part (?v @ [68, ?o1, ?o2, ?o3, ?o4, ?o5, ?o6]) @ ?b7" unfolding pss(2) a19 by simp
    from p(27) have bytes: "length a20 \<le> maxRowBytes" and fin: "setSize blobEndOffsetField a20 = Inr out" by (auto split: if_splits)
    have out: "out = part (?v @ [68, ?o1, ?o2, ?o3, ?o4, ?o5, ?o6, ?o7]) @ ?b7" and last: "?o7 < 2 ^ 32"
      using setSize_part [OF fin [unfolded a20]] by simp_all
    let ?R = "partsOf targets paths fingerprints payloads rs pss"
    have lens: "length rs = length ?cs" "length (concat pss) = sum_list (map size_of ?cs)"
    proof -
      show "length rs = length ?cs" using rs(2) by (metis length_map)
      have "map length pss = map size_of ?cs"
      proof (rule nth_equalityI)
        have l: "length pss = length ?cs" using pss(1) by (simp add: mapE_Inr_iff list_all2_conv_all_nth)
        then show "length (map length pss) = length (map size_of ?cs)" by simp
        fix i assume "i < length (map length pss)"
        with l have i: "i < length ?cs" by simp
        then have "candidatePairs view fresh paths fingerprints (?cs ! i) = Inr (pss ! i)"
          using pss(1) by (simp add: mapE_Inr_iff list_all2_conv_all_nth)
        from len [OF nth_mem [OF i] this] i l show "map length pss ! i = map size_of ?cs ! i" by simp
      qed
      then show "length (concat pss) = sum_list (map size_of ?cs)" by (simp add: length_concat)
    qed
    have "out = layout ?R"
      unfolding out using lens c(2) by (simp add: layout_def part_def fieldsOf_def partsOf_def off_defs add.assoc)
    moreover have "length out \<le> maxRowBytes" "length out < 2 ^ 32" using bytes last unfolding out a20 by simp_all
    ultimately show ?thesis
      using p(1-6) rs(1,4) pss(1) small1 unfolding serialise_def by (auto simp: maxDependencyBlobTargets_def)
  qed
  done

end
