(* ===== verification/Row_Correct.thy ===== *)
theory Row_Correct
  imports Row_Layout
begin

text \<open>
  Correctness of the writer. A planned candidate stands for a candidate of the abstract row (\<open>meant\<close>):
  the fresh closure, or the candidate the old row decodes to. The theory shows that the merged string
  tables give every carried string one id, and that the bytes \<^verbatim>\<open>writeShardRow\<close> returns decode to exactly
  what was planned, whatever ids, remaps and tables the writer went through.
\<close>

section \<open>Merged string tables\<close>

definition interleaved :: "bytes option \<Rightarrow> bytes list \<Rightarrow> bytes list \<Rightarrow> bool" where
  "interleaved previous fresh strings \<longleftrightarrow> sorted_wrt (<) fresh \<and> sorted_wrt (<) strings \<and>
     (\<forall>x \<in> set strings. \<forall>y \<in> set fresh. x < y) \<and> (previous = None \<longrightarrow> strings = []) \<and>
     (\<forall>p. previous = Some p \<longrightarrow> (\<forall>x \<in> set strings. x \<le> p) \<and> (\<forall>y \<in> set fresh. p < y))"

lemma sorted_wrt_take_dropWhile:
  assumes "sorted_wrt (<) (xs :: ('a::linorder) list)"
  shows "\<forall>y \<in> set (dropWhile (\<lambda>x. x < s) xs). s \<le> y" "\<forall>x \<in> set (takeWhile (\<lambda>x. x < s) xs). x < s"
    "sorted_wrt (<) (dropWhile (\<lambda>x. x < s) xs)" "sorted_wrt (<) (takeWhile (\<lambda>x. x < s) xs)"
proof -
  show "\<forall>y \<in> set (dropWhile (\<lambda>x. x < s) xs). s \<le> y"
    using assms by (induction xs) auto
  show "\<forall>x \<in> set (takeWhile (\<lambda>x. x < s) xs). x < s" by (auto dest: set_takeWhileD)
  show "sorted_wrt (<) (dropWhile (\<lambda>x. x < s) xs)" "sorted_wrt (<) (takeWhile (\<lambda>x. x < s) xs)"
    using assms by (metis sorted_wrt_append takeWhile_dropWhile_id)+
qed

lemma interleaved_step:
  assumes i: "interleaved previous fresh strings" and p: "\<not> (case previous of None \<Rightarrow> False | Some p \<Rightarrow> stored \<le> p)"
    and fresh1: "fresh1 = dropWhile (\<lambda>x. x < stored) fresh" and strings1: "strings1 = strings @ takeWhile (\<lambda>x. x < stored) fresh"
    and equal: "equal = (fresh1 \<noteq> [] \<and> hd fresh1 = stored)"
  shows "\<not> equal \<Longrightarrow> interleaved (Some stored) fresh1 strings1"
    and "interleaved (Some stored) (if equal then tl fresh1 else fresh1) (strings1 @ [stored])"
proof -
  from i have s: "sorted_wrt (<) fresh" "sorted_wrt (<) strings" "\<forall>x \<in> set strings. \<forall>y \<in> set fresh. x < y"
    by (simp_all add: interleaved_def)
  note td = sorted_wrt_take_dropWhile [OF s(1), of stored, folded fresh1]
  have lt: "\<forall>x \<in> set strings1. x < stored"
  proof
    fix x assume "x \<in> set strings1"
    then consider "x \<in> set strings" | "x < stored" using td(2) by (auto simp: strings1)
    then show "x < stored"
    proof cases
      case 1
      show ?thesis
      proof (cases previous)
        case None
        with i 1 show ?thesis by (simp add: interleaved_def)
      next
        case (Some p)
        with i 1 p show ?thesis by (fastforce simp: interleaved_def)
      qed
    qed
  qed
  have sub: "set (takeWhile (\<lambda>x. x < stored) fresh) \<subseteq> set fresh" by (auto dest: set_takeWhileD)
  then have sorted1: "sorted_wrt (<) strings1" using s td(4) by (auto simp: strings1 sorted_wrt_append)
  have ge: "\<forall>y \<in> set fresh1. stored \<le> y" by (rule td(1))
  have gt: "\<forall>y \<in> set (if equal then tl fresh1 else fresh1). stored < y"
  proof (cases fresh1)
    case (Cons y ys)
    with td(3) ge show ?thesis by (auto simp: equal)
  qed simp
  have tl: "sorted_wrt (<) (if equal then tl fresh1 else fresh1)" using td(3) by (cases fresh1) auto
  show "\<not> equal \<Longrightarrow> interleaved (Some stored) fresh1 strings1"
    using sorted1 td(3) lt gt by (fastforce simp: interleaved_def)
  show "interleaved (Some stored) (if equal then tl fresh1 else fresh1) (strings1 @ [stored])"
    using sorted1 lt gt tl unfolding interleaved_def sorted_wrt_append by (fastforce simp: le_less)
qed

text \<open>What a run of the loop guarantees, given the table so far.\<close>

definition placed :: "(nat \<Rightarrow> bytes option) \<Rightarrow> bytes list \<Rightarrow> nat list \<Rightarrow> nat \<Rightarrow> bool" where
  "placed storedAt strings idMap i \<longleftrightarrow> idMap ! i < length strings \<and> idMap ! i < 2 ^ 32 \<and> storedAt i = Some (strings ! (idMap ! i))"

definition loopOk ::
  "(nat \<Rightarrow> bytes option) \<Rightarrow> bool list \<Rightarrow> nat list \<Rightarrow> bytes list \<Rightarrow> bytes list \<Rightarrow> nat list \<Rightarrow> bytes list \<times> bytes list \<times> nat list \<Rightarrow> bool" where
  "loopOk storedAt used is fresh strings idMap r \<longleftrightarrow> (case r of (rest, strings', idMap') \<Rightarrow>
     sorted_wrt (<) (strings' @ rest) \<and> set strings \<union> set fresh \<subseteq> set (strings' @ rest) \<and> (\<exists>extra. strings' = strings @ extra) \<and>
     length idMap' = length idMap \<and>
     (\<forall>i < length idMap. idMap' ! i = idMap ! i \<or> placed storedAt strings' idMap' i) \<and>
     (\<forall>i \<in> set is. i < length idMap \<longrightarrow> used ! i \<longrightarrow> placed storedAt strings' idMap' i))"

lemma placed_mono: "placed storedAt strings idMap i \<Longrightarrow> strings' = strings @ extra \<Longrightarrow> idMap' ! i = idMap ! i \<Longrightarrow> placed storedAt strings' idMap' i"
  by (auto simp: placed_def nth_append)

lemma mergeLoop_ok:
  assumes "mergeLoop storedAt used is fresh strings idMap previous = Inr r" "interleaved previous fresh strings"
  shows "loopOk storedAt used is fresh strings idMap r"
  using assms
proof (induction storedAt used "is" fresh strings idMap previous rule: mergeLoop.induct)
  case (1 storedAt used fresh strings idMap previous)
  then show ?case by (auto simp: loopOk_def interleaved_def sorted_wrt_append)
next
  case (2 storedAt used i "is" fresh strings idMap previous)
  from "2.prems"(1) obtain stored where st: "storedAt i = Some stored" by (auto simp: bind_defs)
  define fresh1 where "fresh1 = dropWhile (\<lambda>x. x < stored) fresh"
  define strings1 where "strings1 = strings @ takeWhile (\<lambda>x. x < stored) fresh"
  define equal where "equal = (fresh1 \<noteq> [] \<and> hd fresh1 = stored)"
  have p: "\<not> (case previous of None \<Rightarrow> False | Some p \<Rightarrow> stored \<le> p)"
    using "2.prems"(1) st by (auto split: if_splits)
  have run: "(if \<not> used ! i \<and> \<not> equal then mergeLoop storedAt used is fresh1 strings1 idMap (Some stored)
      else ebind (checkedU32 (length strings1) ''string count'') (\<lambda>n.
        mergeLoop storedAt used is (if equal then tl fresh1 else fresh1) (strings1 @ [stored]) (idMap[i := n]) (Some stored))) = Inr r"
    using "2.prems"(1) p unfolding mergeLoop.simps st require_simps ebind_simps Let_def fresh1_def [symmetric] strings1_def [symmetric]
      equal_def [symmetric] by (simp only: if_False not_False_eq_True simp_thms)
  note step = interleaved_step [OF "2.prems"(2) p fresh1_def strings1_def equal_def]
  have cover: "set strings \<union> set fresh = set strings1 \<union> set fresh1"
    unfolding strings1_def fresh1_def by (metis Un_assoc set_append takeWhile_dropWhile_id)
  obtain rest strings' idMap' where r: "r = (rest, strings', idMap')" by (cases r)
  show ?case
  proof (cases "\<not> used ! i \<and> \<not> equal")
    case True
    with run have "mergeLoop storedAt used is fresh1 strings1 idMap (Some stored) = Inr r" by simp
    moreover have "interleaved (Some stored) fresh1 strings1" using True step(1) by simp
    ultimately have "loopOk storedAt used is fresh1 strings1 idMap r"
      by (rule "2.IH"(1) [OF p fresh1_def strings1_def equal_def True])
    with True cover show ?thesis unfolding loopOk_def r by (auto simp: strings1_def)
  next
    case False
    with run obtain n where n: "n = length strings1" "n < 2 ^ 32"
      and e: "mergeLoop storedAt used is (if equal then tl fresh1 else fresh1) (strings1 @ [stored]) (idMap[i := n]) (Some stored) = Inr r"
      by (auto simp: bind_defs checkedU32_def u32Fits_def split: if_splits)
    have ok: "loopOk storedAt used is (if equal then tl fresh1 else fresh1) (strings1 @ [stored]) (idMap[i := n]) r"
      by (rule "2.IH"(2) [OF p fresh1_def strings1_def equal_def False e step(2)])
    then obtain extra where extra: "strings' = (strings1 @ [stored]) @ extra" and len: "length idMap' = length idMap"
      by (auto simp: loopOk_def r)
    have here: "placed storedAt strings' idMap' i" if "i < length idMap"
    proof -
      have "placed storedAt (strings1 @ [stored]) (idMap[i := n]) i" using that n st by (simp add: placed_def)
      from placed_mono [OF this extra, of idMap'] ok that show ?thesis unfolding loopOk_def r by force
    qed
    have "set fresh1 \<subseteq> insert stored (set (if equal then tl fresh1 else fresh1))"
      by (cases fresh1) (auto simp: equal_def)
    with ok cover extra have "set strings \<union> set fresh \<subseteq> set (strings' @ rest)" unfolding loopOk_def r by auto
    moreover have "idMap' ! j = idMap ! j \<or> placed storedAt strings' idMap' j" if "j < length idMap" for j
      using ok here that unfolding loopOk_def r by (cases "j = i") auto
    ultimately show ?thesis using ok here extra len unfolding loopOk_def r by (auto simp: strings1_def)
  qed
qed

lemma mergeStrings_ok:
  assumes "mergeStrings storedCount storedAt used fresh = Inr ms"
  shows "sorted_wrt (<) (ms_strings ms)" "set fresh \<subseteq> set (ms_strings ms)"
    "length (ms_storedIdMap ms) = storedCount" "\<forall>x \<in> set (ms_storedIdMap ms). x < 2 ^ 32"
    "mappedId ms i = Inr j \<Longrightarrow> j < length (ms_strings ms) \<and> storedAt i = Some (ms_strings ms ! j)"
proof -
  from assms obtain rest strings idMap where
    r: "mergeLoop storedAt used [0..<storedCount] (sort_unique fresh) [] (replicate storedCount unmapped) None = Inr (rest, strings, idMap)"
    and ms: "ms_strings ms = strings @ rest" "ms_storedIdMap ms = idMap"
    by (auto simp: mergeStrings_def bind_defs)
  have "interleaved None (sort_unique fresh) []" by (simp add: interleaved_def)
  note ok = mergeLoop_ok [OF r this]
  show "sorted_wrt (<) (ms_strings ms)" "set fresh \<subseteq> set (ms_strings ms)" "length (ms_storedIdMap ms) = storedCount"
    using ok by (auto simp: loopOk_def ms)
  show "\<forall>x \<in> set (ms_storedIdMap ms). x < 2 ^ 32"
    using ok by (fastforce simp: loopOk_def ms in_set_conv_nth placed_def unmapped_def)
  show "mappedId ms i = Inr j \<Longrightarrow> j < length (ms_strings ms) \<and> storedAt i = Some (ms_strings ms ! j)"
    using ok by (auto simp: mappedId_def bind_defs at_eq_Some loopOk_def ms placed_def nth_append split: if_splits)
qed

lemma idOf_ok: "idOf ms s = Inr j \<Longrightarrow> length (ms_strings ms) < 2 ^ 32 \<Longrightarrow> j < length (ms_strings ms) \<and> ms_strings ms ! j = s"
proof -
  assume r: "idOf ms s = Inr j" and len: "length (ms_strings ms) < 2 ^ 32"
  let ?k = "length (takeWhile (\<lambda>x. x < s) (ms_strings ms))"
  have "?k \<le> length (ms_strings ms)" by (rule length_takeWhile_le)
  with r len show "j < length (ms_strings ms) \<and> ms_strings ms ! j = s"
    by (auto simp: idOf_def lowerBound_def Let_def split: if_splits)
qed

lemma idOf_less: "idOf ms s = Inr j \<Longrightarrow> j < 2 ^ 32"
  by (auto simp: idOf_def Let_def split: if_splits)

section \<open>What a planned candidate stands for\<close>

definition entryOf :: "bytes \<times> bytes \<Rightarrow> DependencyEntry" where
  "entryOf p = \<lparr>de_path = fst p, de_fingerprint = snd p\<rparr>"

definition candidateOf :: "FreshCandidate \<Rightarrow> Candidate" where
  "candidateOf f = \<lparr>cd_dependencies = map entryOf (fc_pairs f), cd_payload = fc_payload f\<rparr>"

definition meant :: "DependencyBlobView option \<Rightarrow> FreshCandidate list \<Rightarrow> CandidateSource \<Rightarrow> Candidate option" where
  "meant view fresh c = (case c of FreshCandidateRef i \<Rightarrow> map_option candidateOf (at fresh i)
     | StoredCandidate i \<Rightarrow> Option.bind view (\<lambda>vw. decodeCandidate vw i))"

definition sizeOf :: "DependencyBlobView option \<Rightarrow> FreshCandidate list \<Rightarrow> CandidateSource \<Rightarrow> nat" where
  "sizeOf view fresh c = (case c of FreshCandidateRef i \<Rightarrow> length (fc_pairs (the (at fresh i)))
     | StoredCandidate i \<Rightarrow> snd (the (storedCandidatePairs (the view) i)))"

lemma entryOf_inj [simp]: "entryOf p = entryOf q \<longleftrightarrow> p = q"
  by (cases p; cases q) (simp add: entryOf_def)

lemma map_entryOf_inj [simp]: "map entryOf ps = map entryOf qs \<longleftrightarrow> ps = qs"
  by (rule inj_map_eq_map) (simp add: inj_def)

lemma markPairs_counts: "markPairs vw start is m = Inr m' \<Longrightarrow> mk_candidateCount m' = mk_candidateCount m \<and> mk_pairCount m' = mk_pairCount m"
  by (induction vw start "is" m rule: markPairs.induct) (auto simp: bind_defs)

lemma markCandidates_counts:
  "markCandidates view fresh cs m = Inr m' \<Longrightarrow> mk_candidateCount m' = mk_candidateCount m + length cs \<and>
     mk_pairCount m' = mk_pairCount m + sum_list (map (sizeOf view fresh) cs)"
proof (induction view fresh cs m rule: markCandidates.induct)
  case (2 view fresh c cs m)
  then obtain m1 where m1: "markCandidate view fresh c m = Inr m1" "markCandidates view fresh cs m1 = Inr m'" by (auto simp: bind_defs)
  have "mk_candidateCount m1 = mk_candidateCount m + 1 \<and> mk_pairCount m1 = mk_pairCount m + sizeOf view fresh c"
    using m1(1) by (auto simp: markCandidate_def sizeOf_def Let_def bind_defs split: CandidateSource.splits if_splits dest!: markPairs_counts)
  with "2.IH" [OF m1(2)] show ?case by simp
qed simp

lemma candidateRecord_size: "candidateRecord view fresh payloads c = Inr r \<Longrightarrow> fst r = sizeOf view fresh c"
  by (auto simp: candidateRecord_def sizeOf_def checkedU32_def bind_defs split: CandidateSource.splits if_splits)

lemma mappedId_less: "\<forall>x \<in> set (ms_storedIdMap ms). x < 2 ^ 32 \<Longrightarrow> mappedId ms i = Inr j \<Longrightarrow> j < 2 ^ 32"
  by (auto simp: mappedId_def bind_defs at_eq_Some split: if_splits)

lemma candidateRecord_id: "\<forall>x \<in> set (ms_storedIdMap payloads). x < 2 ^ 32 \<Longrightarrow> candidateRecord view fresh payloads c = Inr r \<Longrightarrow> snd r < 2 ^ 32"
  using mappedId_less [of payloads] by (auto simp: candidateRecord_def bind_defs split: CandidateSource.splits if_splits dest: idOf_less)

lemma candidatePairs_size: "candidatePairs view fresh paths fingerprints c = Inr ps \<Longrightarrow> length ps = sizeOf view fresh c"
  by (auto simp: candidatePairs_def sizeOf_def bind_defs mapE_Inr_iff split: CandidateSource.splits dest!: list_all2_lengthD)

section \<open>A written row decodes to what was planned\<close>

text \<open>What the ids of a record stand for in the tables the row is written with.\<close>

definition denotes :: "MergedStrings \<Rightarrow> MergedStrings \<Rightarrow> MergedStrings \<Rightarrow> nat \<times> nat \<Rightarrow> (nat \<times> nat) list \<Rightarrow> Candidate \<Rightarrow> bool" where
  "denotes paths fingerprints payloads r ps cand \<longleftrightarrow> fst r = length ps \<and>
     at (ms_strings payloads) (snd r) = Some (cd_payload cand) \<and>
     list_all2 (\<lambda>(a, b) d. at (ms_strings paths) a = Some (de_path d) \<and> at (ms_strings fingerprints) b = Some (de_fingerprint d)) ps (cd_dependencies cand)"

text \<open>Every id that the writer resolves is that of the string it stands for.\<close>

definition faithful :: "(nat \<Rightarrow> bytes option) \<Rightarrow> MergedStrings \<Rightarrow> bool" where
  "faithful storedAt ms \<longleftrightarrow> (\<forall>i j. mappedId ms i = Inr j \<longrightarrow> (\<exists>s. storedAt i = Some s \<and> at (ms_strings ms) j = Some s) \<and> j < 2 ^ 32) \<and>
     (\<forall>s j. idOf ms s = Inr j \<longrightarrow> at (ms_strings ms) j = Some s \<and> j < 2 ^ 32)"

lemma mergeStrings_faithful:
  assumes "mergeStrings n storedAt used fresh = Inr ms" "length (ms_strings ms) < 2 ^ 32"
  shows "faithful storedAt ms"
proof -
  note ok = mergeStrings_ok [OF assms(1)]
  have "storedAt i = Some (ms_strings ms ! j) \<and> at (ms_strings ms) j = Some (ms_strings ms ! j) \<and> j < 2 ^ 32" if "mappedId ms i = Inr j" for i j
    using ok(5) [OF that] mappedId_less [OF ok(4) that] by simp
  moreover have "at (ms_strings ms) j = Some s \<and> j < 2 ^ 32" if "idOf ms s = Inr j" for s j
    using idOf_ok [OF that assms(2)] idOf_less [OF that] by auto
  ultimately show ?thesis unfolding faithful_def by blast
qed

lemma faithfulD:
  assumes "faithful storedAt ms"
  shows "mappedId ms i = Inr j \<Longrightarrow> storedAt i = Some s \<Longrightarrow> at (ms_strings ms) j = Some s"
    "mappedId ms i = Inr j \<Longrightarrow> \<exists>s. storedAt i = Some s" "idOf ms s = Inr j \<Longrightarrow> at (ms_strings ms) j = Some s"
    "mappedId ms i = Inr j \<Longrightarrow> j < 2 ^ 32" "idOf ms s = Inr j \<Longrightarrow> j < 2 ^ 32"
  using assms unfolding faithful_def by fastforce+

lemma those_Some_iff: "those xs = Some ys \<longleftrightarrow> list_all2 (\<lambda>x y. x = Some y) xs ys"
  by (induction xs arbitrary: ys) (auto simp: list_all2_Cons1 split: option.splits)

lemma candidate_denotes_fresh:
  assumes r: "candidateRecord view fresh payloads (FreshCandidateRef i) = Inr r"
    and p: "candidatePairs view fresh paths fingerprints (FreshCandidateRef i) = Inr ps"
    and f: "faithful sp paths" "faithful sf fingerprints" "faithful sy payloads"
  shows "\<exists>cand. meant view fresh (FreshCandidateRef i) = Some cand \<and> denotes paths fingerprints payloads r ps cand"
proof -
  from r obtain fc where fc: "at fresh i = Some fc" "fst r = length (fc_pairs fc)" "idOf payloads (fc_payload fc) = Inr (snd r)"
    by (auto simp: candidateRecord_def bind_defs checkedU32_def split: if_splits)
  from p fc(1) have l: "list_all2 (\<lambda>q ab. idOf paths (fst q) = Inr (fst ab) \<and> idOf fingerprints (snd q) = Inr (snd ab)) (fc_pairs fc) ps"
    by (auto simp: candidatePairs_def bind_defs mapE_Inr_iff elim!: list_all2_mono)
  have "list_all2 (\<lambda>ab d. at (ms_strings paths) (fst ab) = Some (de_path d) \<and> at (ms_strings fingerprints) (snd ab) = Some (de_fingerprint d)) ps (map entryOf (fc_pairs fc))"
    using l faithfulD(3) [OF f(1)] faithfulD(3) [OF f(2)] unfolding list_all2_conv_all_nth by (auto simp: entryOf_def)
  moreover have "length (fc_pairs fc) = length ps" using l by (rule list_all2_lengthD)
  ultimately show ?thesis using fc faithfulD(3) [OF f(3) fc(3)]
    by (simp add: meant_def denotes_def candidateOf_def case_prod_unfold)
qed

lemma candidate_denotes_stored:
  assumes r: "candidateRecord (Some vw) fresh payloads (StoredCandidate c) = Inr r"
    and p: "candidatePairs (Some vw) fresh paths fingerprints (StoredCandidate c) = Inr ps"
    and f: "faithful (path vw) paths" "faithful (fingerprint vw) fingerprints" "faithful (payload vw) payloads"
  shows "\<exists>cand. meant (Some vw) fresh (StoredCandidate c) = Some cand \<and> denotes paths fingerprints payloads r ps cand"
proof -
  from r obtain start count pid where s: "storedCandidatePairs vw c = Some (start, count)" "fst r = count"
    and y: "candidatePayload vw c = Some pid" "mappedId payloads pid = Inr (snd r)"
    by (auto simp: candidateRecord_def bind_defs)
  from p s(1) have l: "list_all2 (\<lambda>i ab. \<exists>q. pairIds vw (u32 (start + i)) = Some q \<and> mappedId paths (fst q) = Inr (fst ab) \<and> mappedId fingerprints (snd q) = Inr (snd ab)) [0..<count] ps"
    by (auto simp: candidatePairs_def bind_defs mapE_Inr_iff elim!: list_all2_mono)
  from faithfulD(2) [OF f(3) y(2)] obtain py where py: "payload vw pid = Some py" ..
  have "\<exists>d. decodePair vw (u32 (start + i)) = Some d \<and> at (ms_strings paths) (fst ab) = Some (de_path d) \<and> at (ms_strings fingerprints) (snd ab) = Some (de_fingerprint d)"
    if "\<exists>q. pairIds vw (u32 (start + i)) = Some q \<and> mappedId paths (fst q) = Inr (fst ab) \<and> mappedId fingerprints (snd q) = Inr (snd ab)" for i ab
  proof -
    from that obtain a b where q: "pairIds vw (u32 (start + i)) = Some (a, b)" "mappedId paths a = Inr (fst ab)" "mappedId fingerprints b = Inr (snd ab)" by auto
    from faithfulD(2) [OF f(1) q(2)] faithfulD(2) [OF f(2) q(3)] obtain s t where st: "path vw a = Some s" "fingerprint vw b = Some t" by auto
    with q faithfulD(1) [OF f(1) q(2) st(1)] faithfulD(1) [OF f(2) q(3) st(2)] show ?thesis by (simp add: decodePair_def)
  qed
  with l have "list_all2 (\<lambda>i ab. \<exists>d. decodePair vw (u32 (start + i)) = Some d \<and> at (ms_strings paths) (fst ab) = Some (de_path d) \<and> at (ms_strings fingerprints) (snd ab) = Some (de_fingerprint d)) [0..<count] ps"
    by (auto elim!: list_all2_mono)
  then obtain ds where ds: "list_all2 (\<lambda>i d. decodePair vw (u32 (start + i)) = Some d) [0..<count] ds"
      "list_all2 (\<lambda>ab d. at (ms_strings paths) (fst ab) = Some (de_path d) \<and> at (ms_strings fingerprints) (snd ab) = Some (de_fingerprint d)) ps ds"
    unfolding list_all2_conv_all_nth
  proof -
    assume h: "length [0..<count] = length ps \<and> (\<forall>k<length [0..<count]. \<exists>d. decodePair vw (u32 (start + [0..<count] ! k)) = Some d \<and>
        at (ms_strings paths) (fst (ps ! k)) = Some (de_path d) \<and> at (ms_strings fingerprints) (snd (ps ! k)) = Some (de_fingerprint d))"
      and t: "\<And>ds. length [0..<count] = length ds \<and> (\<forall>i<length [0..<count]. decodePair vw (u32 (start + [0..<count] ! i)) = Some (ds ! i)) \<Longrightarrow>
        length ps = length ds \<and> (\<forall>i<length ps. at (ms_strings paths) (fst (ps ! i)) = Some (de_path (ds ! i)) \<and> at (ms_strings fingerprints) (snd (ps ! i)) = Some (de_fingerprint (ds ! i))) \<Longrightarrow> thesis"
    show thesis
      by (rule t [of "map (\<lambda>k. the (decodePair vw (u32 (start + k)))) [0..<count]"]) (use h in fastforce)+
  qed
  from ds(1) have "those (map (\<lambda>i. decodePair vw (u32 (start + i))) [0..<count]) = Some ds"
    by (simp add: those_Some_iff list_all2_map1)
  with s y py ds(2) faithfulD(1) [OF f(3) y(2) py] list_all2_lengthD [OF l] show ?thesis
    by (simp add: meant_def decodeCandidate_def candidatePayloadValue_def denotes_def case_prod_unfold)
qed

lemma targetRecords_nth:
  "t < length ts \<Longrightarrow> targetRecords n ts ! t = (n + length (concat (map pt_candidates (take t ts))), length (pt_candidates (ts ! t)))"
proof (induction ts arbitrary: n t)
  case (Cons u ts)
  then show ?case by (cases t) (auto simp: add.assoc)
qed simp

lemma candidateRecords_nth:
  "k < length rs \<Longrightarrow> candidateRecords n rs ! k = (n + sum_list (map fst (take k rs)), rs ! k)"
proof (induction rs arbitrary: n k)
  case (Cons u rs)
  then show ?case by (cases k) (auto simp: add.assoc)
qed simp

lemma concat_nth_at:
  assumes "k < length xss" "i < length (xss ! k)"
  shows "concat xss ! (length (concat (take k xss)) + i) = xss ! k ! i" "length (concat (take k xss)) + i < length (concat xss)"
proof -
  have c: "concat xss = concat (take k xss) @ xss ! k @ concat (drop (Suc k) xss)"
    using assms(1) by (metis concat.simps(2) concat_append id_take_nth_drop)
  show "concat xss ! (length (concat (take k xss)) + i) = xss ! k ! i"
    using assms(2) by (subst c) (simp add: nth_append del: length_concat)
  show "length (concat (take k xss)) + i < length (concat xss)"
    using assms(2) arg_cong [OF c, of length] by (simp del: length_concat)
qed

lemma decodeCandidate_layout:
  assumes ok: "parts_ok R" and k: "k < length rs" "length pss = length rs"
    and R: "rp_candidates R = candidateRecords 0 rs" "rp_pairs R = concat pss" "rp_payloads R = ms_strings payloads"
      "rp_paths R = ms_strings paths" "rp_fingerprints R = ms_strings fingerprints"
    and sizes: "map fst rs = map length pss" and d: "denotes paths fingerprints payloads (rs ! k) (pss ! k) cand"
  shows "decodeCandidate (viewOf R) k = Some cand"
proof -
  let ?s = "length (concat (take k pss))"
  have start: "sum_list (map fst (take k rs)) = ?s" by (simp add: length_concat take_map [symmetric] sizes)
  from k sizes have n: "fst (rs ! k) = length (pss ! k)" by (metis nth_map)
  have le: "?s + length (pss ! k) \<le> length (concat pss)"
  proof -
    have "concat pss = concat (take k pss) @ pss ! k @ concat (drop (Suc k) pss)"
      using k by (metis concat.simps(2) concat_append id_take_nth_drop)
    then have "length (concat pss) = ?s + (length (pss ! k) + length (concat (drop (Suc k) pss)))" by (metis length_append)
    then show ?thesis by simp
  qed
  have kc: "k < length (rp_candidates R)" using k R by simp
  have rk: "rp_candidates R ! k = (?s, rs ! k)" using k R candidateRecords_nth [of k rs 0] start by simp
  note rec = layout_records(3-5) [OF ok kc, unfolded rk fst_conv snd_conv n]
  have pc: "pairCount (viewOf R) = length (concat pss)" by (simp only: viewOf_sel R)
  have stored: "storedCandidatePairs (viewOf R) k = Some (?s, length (pss ! k))"
    using le by (simp add: storedCandidatePairs_def rec pc del: length_concat)
  have "payload (viewOf R) (snd (rs ! k)) = Some (cd_payload cand)"
    using d by (simp add: denotes_def layout_strings(4) [OF ok] R at_eq_Some)
  then have py: "candidatePayloadValue (viewOf R) k = Some (cd_payload cand)" by (simp add: candidatePayloadValue_def rec)
  have small: "length (concat pss) < 2 ^ 32" using ok R unfolding parts_ok_def off_defs by (simp del: length_concat)
  have deps: "list_all2 (\<lambda>i d. decodePair (viewOf R) (u32 (?s + i)) = Some d) [0..<length (pss ! k)] (cd_dependencies cand)"
    unfolding list_all2_conv_all_nth
  proof (intro conjI allI impI)
    from d have l: "length (pss ! k) = length (cd_dependencies cand)" by (auto simp: denotes_def dest: list_all2_lengthD)
    then show "length [0..<length (pss ! k)] = length (cd_dependencies cand)" by simp
    fix i assume "i < length [0..<length (pss ! k)]"
    then have i: "i < length (pss ! k)" by simp
    obtain a b where ab: "pss ! k ! i = (a, b)" by (cases "pss ! k ! i")
    from d i ab have st: "at (ms_strings paths) a = Some (de_path (cd_dependencies cand ! i))" "at (ms_strings fingerprints) b = Some (de_fingerprint (cd_dependencies cand ! i))"
      unfolding denotes_def list_all2_conv_all_nth by fastforce+
    have c: "concat pss ! (?s + i) = (a, b)" "?s + i < length (concat pss)" using concat_nth_at [of k pss i] k i ab by (simp_all del: length_concat)
    have u: "u32 (?s + i) = ?s + i" using c(2) small by simp
    have pr: "?s + i < length (rp_pairs R)" using c(2) R by simp
    have "pairPath (viewOf R) (?s + i) = Some a" "pairFingerprint (viewOf R) (?s + i) = Some b"
      using layout_records(6,7) [OF ok pr] c(1) by (simp_all add: R(2) del: length_concat)
    with st have "decodePair (viewOf R) (?s + i) = Some (cd_dependencies cand ! i)"
      by (simp add: decodePair_def pairIds_def viewOf_sel R layout_strings(2,3) [OF ok] at_eq_Some del: length_concat)
    with u i show "decodePair (viewOf R) (u32 (?s + [0..<length (pss ! k)] ! i)) = Some (cd_dependencies cand ! i)" by (simp del: length_concat)
  qed
  then have "those (map (\<lambda>i. decodePair (viewOf R) (u32 (?s + i))) [0..<length (pss ! k)]) = Some (cd_dependencies cand)"
    by (simp add: those_Some_iff list_all2_map1 del: length_concat)
  with py stored show ?thesis by (simp add: decodeCandidate_def del: length_concat)
qed

definition meantTarget :: "DependencyBlobView option \<Rightarrow> FreshCandidate list \<Rightarrow> PlannedTarget \<Rightarrow> Target option" where
  "meantTarget view fresh t = map_option (\<lambda>cs. \<lparr>tg_target = pt_name t, tg_candidates = cs\<rparr>) (those (map (meant view fresh) (pt_candidates t)))"

lemma decodeTarget_layout:
  assumes ok: "parts_ok R" and t: "t < length targets"
    and R: "rp_names R = map pt_name targets" "rp_targets R = targetRecords 0 targets"
      "length (rp_candidates R) = length (concat (map pt_candidates targets))"
    and cands: "\<And>k. k < length (concat (map pt_candidates targets)) \<Longrightarrow> decodeCandidate (viewOf R) k = meant view fresh (concat (map pt_candidates targets) ! k)"
  shows "decodeTarget (viewOf R) t = meantTarget view fresh (targets ! t)"
proof -
  let ?cs = "map pt_candidates targets" let ?s = "length (concat (take t ?cs))" let ?n = "length (pt_candidates (targets ! t))"
  have tn: "t < length (rp_names R)" using t R by simp
  have rt: "rp_targets R ! t = (?s, ?n)" using targetRecords_nth [OF t, of 0] R by (simp add: take_map del: length_concat)
  have le: "?s + ?n \<le> length (concat ?cs)"
  proof -
    have "concat ?cs = concat (take t ?cs) @ ?cs ! t @ concat (drop (Suc t) ?cs)"
      using t by (metis concat.simps(2) concat_append id_take_nth_drop length_map)
    then have "length (concat ?cs) = ?s + (length (?cs ! t) + length (concat (drop (Suc t) ?cs)))" by (metis length_append)
    then show ?thesis using t by (simp del: length_concat)
  qed
  have small: "length (concat ?cs) < 2 ^ 32" using ok R(3) unfolding parts_ok_def off_defs by (simp del: length_concat)
  have "targetCandidates (viewOf R) t = Some (pt_name (targets ! t), ?s, ?n)"
    using le t by (simp add: targetCandidates_def layout_records(1,2) [OF ok tn] rt layout_strings(1) [OF ok] R(1,3) viewOf_sel del: length_concat)
  moreover have "u32 (?s + ?n) = ?s + ?n" using le small by simp
  moreover have "map (decodeCandidate (viewOf R)) [?s..<?s + ?n] = map (meant view fresh) (pt_candidates (targets ! t))"
  proof (rule nth_equalityI)
    fix i assume "i < length (map (decodeCandidate (viewOf R)) [?s..<?s + ?n])"
    then have i: "i < length (?cs ! t)" using t by (simp del: length_concat)
    from concat_nth_at [of t ?cs i] t i have "concat ?cs ! (?s + i) = pt_candidates (targets ! t) ! i" "?s + i < length (concat ?cs)"
      by (simp_all del: length_concat)
    with cands [of "?s + i"] i t show "map (decodeCandidate (viewOf R)) [?s..<?s + ?n] ! i = map (meant view fresh) (pt_candidates (targets ! t)) ! i"
      by (simp del: length_concat)
  qed (simp del: length_concat)
  ultimately show ?thesis by (simp add: decodeTarget_def meantTarget_def del: length_concat) (simp add: map_option_case split: option.splits)
qed

lemma candidate_denotes:
  assumes "candidateRecord view fresh payloads c = Inr r" "candidatePairs view fresh paths fingerprints c = Inr ps"
    and "faithful (\<lambda>i. Option.bind view (\<lambda>vw. path vw i)) paths" "faithful (\<lambda>i. Option.bind view (\<lambda>vw. fingerprint vw i)) fingerprints"
      "faithful (\<lambda>i. Option.bind view (\<lambda>vw. payload vw i)) payloads"
  shows "\<exists>cand. meant view fresh c = Some cand \<and> denotes paths fingerprints payloads r ps cand"
proof (cases c)
  case (FreshCandidateRef i)
  with assms show ?thesis using candidate_denotes_fresh by blast
next
  case (StoredCandidate i)
  with assms(1) obtain vw where "view = Some vw" by (cases view) (auto simp: candidateRecord_def)
  with assms StoredCandidate show ?thesis by (simp add: candidate_denotes_stored)
qed

lemma set_flat2: "set (flat2 ps) = fst ` set ps \<union> snd ` set ps"
  by (induction ps) (auto simp: flat2_def)

lemma list_all2_forall: "list_all2 Q xs ys \<Longrightarrow> (\<And>x y. Q x y \<Longrightarrow> P y) \<Longrightarrow> \<forall>y \<in> set ys. P y"
  by (induction xs arbitrary: ys) (auto simp: list_all2_Cons1)

lemma candidatePairs_ids:
  assumes p: "candidatePairs view fresh paths fingerprints c = Inr ps" and f: "faithful sp paths" "faithful sf fingerprints"
  shows "\<forall>x \<in> set (flat2 ps). x < 2 ^ 32"
proof -
  have "\<forall>y \<in> set ps. fst y < 2 ^ 32 \<and> snd y < 2 ^ 32"
  proof (cases c)
    case (FreshCandidateRef i)
    with p obtain fc where fc: "at fresh i = Some fc" by (auto simp: candidatePairs_def bind_defs)
    with p FreshCandidateRef have "list_all2 (\<lambda>q ab. idOf paths (fst q) = Inr (fst ab) \<and> idOf fingerprints (snd q) = Inr (snd ab)) (fc_pairs fc) ps"
      by (auto simp: candidatePairs_def bind_defs mapE_Inr_iff elim!: list_all2_mono)
    then show ?thesis by (rule list_all2_forall) (use faithfulD(5) [OF f(1)] faithfulD(5) [OF f(2)] in blast)
  next
    case (StoredCandidate i)
    with p obtain js where "list_all2 (\<lambda>j ab. \<exists>q. mappedId paths (fst q) = Inr (fst ab) \<and> mappedId fingerprints (snd q) = Inr (snd ab)) (js :: nat list) ps"
      by (fastforce simp: candidatePairs_def bind_defs mapE_Inr_iff elim!: list_all2_mono)
    then show ?thesis by (rule list_all2_forall) (use faithfulD(4) [OF f(1)] faithfulD(4) [OF f(2)] in blast)
  qed
  then show ?thesis unfolding set_flat2 by blast
qed

lemma set_flat2_concat: "set (flat2 (concat pss)) = (\<Union>ps \<in> set pss. set (flat2 ps))"
  by (induction pss) simp_all

lemma written_parts:
  assumes w: "writeShardRow view targets fresh maxRowBytes = Inr out" and ne: "concat (map pt_candidates targets) \<noteq> []"
  shows "\<exists>R. parts_ok R \<and> out = layout R \<and> length out \<le> maxRowBytes \<and> rp_names R = map pt_name targets \<and>
    rp_targets R = targetRecords 0 targets \<and> length (rp_candidates R) = length (concat (map pt_candidates targets)) \<and>
    (\<forall>k < length (concat (map pt_candidates targets)).
       \<exists>cand. meant view fresh (concat (map pt_candidates targets) ! k) = Some cand \<and> decodeCandidate (viewOf R) k = Some cand)"
proof -
  let ?cs = "concat (map pt_candidates targets)"
  let ?path = "\<lambda>i. Option.bind view (\<lambda>vw. path vw i)" let ?fp = "\<lambda>i. Option.bind view (\<lambda>vw. fingerprint vw i)"
  let ?py = "\<lambda>i. Option.bind view (\<lambda>vw. payload vw i)"
  have count: "mk_candidateCount m = length ?cs \<and> mk_pairCount m = sum_list (map (sizeOf view fresh) ?cs)"
    if "markCandidates view fresh ?cs (initialMarks view) = Inr m" for m
    using markCandidates_counts [OF that] by (simp add: initialMarks_def del: length_concat)
  have "targets \<noteq> [] \<and> length targets \<le> 1024 \<and>
    (\<exists>m paths fingerprints payloads. markCandidates view fresh ?cs (initialMarks view) = Inr m \<and>
      mergeStrings (countOf pathCount view) ?path (usedPaths m) (freshPaths m) = Inr paths \<and>
      mergeStrings (countOf fingerprintCount view) ?fp (usedFingerprints m) (freshFingerprints m) = Inr fingerprints \<and>
      mergeStrings (countOf payloadCount view) ?py (usedPayloads m) (freshPayloads m) = Inr payloads \<and>
      serialise view targets fresh maxRowBytes m paths fingerprints payloads out)"
    by (rule writeShardRow_layout [where size_of = "sizeOf view fresh", OF w count])
      (assumption | rule candidateRecord_size candidateRecord_id mergeStrings_ok(4) candidatePairs_size)+
  then obtain m paths fingerprints payloads where t: "targets \<noteq> []" "length targets \<le> 1024"
    and ms: "mergeStrings (countOf pathCount view) ?path (usedPaths m) (freshPaths m) = Inr paths"
      "mergeStrings (countOf fingerprintCount view) ?fp (usedFingerprints m) (freshFingerprints m) = Inr fingerprints"
      "mergeStrings (countOf payloadCount view) ?py (usedPayloads m) (freshPayloads m) = Inr payloads"
    and s: "serialise view targets fresh maxRowBytes m paths fingerprints payloads out" by blast
  from s obtain rs pss where rs: "mapE (candidateRecord view fresh payloads) ?cs = Inr rs"
    and pss: "mapE (candidatePairs view fresh paths fingerprints) ?cs = Inr pss"
    and out: "out = layout (partsOf targets paths fingerprints payloads rs pss)" "length out \<le> maxRowBytes" "length out < 2 ^ 32"
    and small: "\<forall>x \<in> set (flat2 (targetRecords 0 targets)) \<union> set (flat3 (candidateRecords 0 rs)). x < 2 ^ 32"
    unfolding serialise_def by blast
  define R where "R = partsOf targets paths fingerprints payloads rs pss"
  have R: "rp_names R = map pt_name targets" "rp_targets R = targetRecords 0 targets" "rp_paths R = ms_strings paths"
      "rp_fingerprints R = ms_strings fingerprints" "rp_payloads R = ms_strings payloads" "rp_candidates R = candidateRecords 0 rs" "rp_pairs R = concat pss"
    by (simp_all add: R_def partsOf_def)
  have E: "offE R < 2 ^ 32" using out(1,3) by (simp add: R_def length_layout)
  have "length (ms_strings paths) < 2 ^ 32" "length (ms_strings fingerprints) < 2 ^ 32" "length (ms_strings payloads) < 2 ^ 32"
    using E table_bound(1) [of "rp_paths R"] table_bound(1) [of "rp_fingerprints R"] table_bound(1) [of "rp_payloads R"]
    unfolding off_defs R by simp_all
  with ms have f: "faithful ?path paths" "faithful ?fp fingerprints" "faithful ?py payloads" by (blast intro: mergeStrings_faithful)+
  have r: "length rs = length ?cs" "\<And>k. k < length ?cs \<Longrightarrow> candidateRecord view fresh payloads (?cs ! k) = Inr (rs ! k)"
    using rs by (simp_all add: mapE_Inr_iff list_all2_conv_all_nth del: length_concat)
  have p: "length pss = length ?cs" "\<And>k. k < length ?cs \<Longrightarrow> candidatePairs view fresh paths fingerprints (?cs ! k) = Inr (pss ! k)"
    using pss by (simp_all add: mapE_Inr_iff list_all2_conv_all_nth del: length_concat)
  have sizes: "map fst rs = map length pss"
    by (rule nth_equalityI) (use r p candidateRecord_size [OF r(2)] candidatePairs_size [OF p(2)] in \<open>simp_all del: length_concat\<close>)
  have den: "\<exists>cand. meant view fresh (?cs ! k) = Some cand \<and> denotes paths fingerprints payloads (rs ! k) (pss ! k) cand" if "k < length ?cs" for k
    by (rule candidate_denotes [OF r(2) p(2) f]) (use that in simp_all)
  have "\<forall>ps \<in> set pss. \<forall>x \<in> set (flat2 ps). x < 2 ^ 32"
    using candidatePairs_ids [OF p(2) f(1,2)] p(1) by (metis in_set_conv_nth)
  then have smallP: "\<forall>x \<in> set (flat2 (rp_pairs R)). x < 2 ^ 32" by (simp add: R set_flat2_concat)
  have c0: "0 < length ?cs" using ne by (rule length_greater_0_conv [THEN iffD2])
  then have "ms_strings payloads \<noteq> []" using den [of 0] by (auto simp: denotes_def at_eq_Some)
  moreover have "rs \<noteq> []" using c0 r(1) by auto
  then have "rp_candidates R \<noteq> []" by (cases rs) (simp_all add: R)
  ultimately have ok: "parts_ok R" using t E small smallP unfolding parts_ok_def by (auto simp: R)
  have "\<exists>cand. meant view fresh (?cs ! k) = Some cand \<and> decodeCandidate (viewOf R) k = Some cand" if k: "k < length ?cs" for k
  proof -
    from den [OF k] obtain cand where c: "meant view fresh (?cs ! k) = Some cand" "denotes paths fingerprints payloads (rs ! k) (pss ! k) cand" by blast
    have "decodeCandidate (viewOf R) k = Some cand"
      by (rule decodeCandidate_layout [OF ok _ _ R(6,7,5,3,4) sizes c(2)]) (use k r(1) p(1) in simp_all)
    with c show ?thesis by blast
  qed
  then show ?thesis using ok out r(1) R by (intro exI [of _ R]) (simp add: R_def [symmetric])
qed

lemma writeShardRow_decodes:
  assumes w: "writeShardRow view targets fresh maxRowBytes = Inr out" and ne: "concat (map pt_candidates targets) \<noteq> []"
  shows "decodeTecnixDependencyRow out = those (map (meantTarget view fresh) targets)" (is ?decode)
    "\<exists>row. those (map (meantTarget view fresh) targets) = Some row" (is ?total)
    "length out \<le> maxRowBytes" "\<exists>R. openBlob out = Some (viewOf R) \<and> parts_ok R \<and> rp_names R = map pt_name targets"
proof -
  let ?cs = "concat (map pt_candidates targets)"
  from written_parts [OF assms] obtain R where ok: "parts_ok R" and out: "out = layout R" "length out \<le> maxRowBytes"
    and R: "rp_names R = map pt_name targets" "rp_targets R = targetRecords 0 targets" "length (rp_candidates R) = length ?cs"
    and c: "\<And>k. k < length ?cs \<Longrightarrow> \<exists>cand. meant view fresh (?cs ! k) = Some cand \<and> decodeCandidate (viewOf R) k = Some cand" by blast
  have o: "openBlob out = Some (viewOf R)" using ok by (simp add: out open_layout)
  have "map (decodeTarget (viewOf R)) [0..<targetCount (viewOf R)] = map (meantTarget view fresh) targets"
  proof (rule nth_equalityI)
    fix t assume "t < length (map (decodeTarget (viewOf R)) [0..<targetCount (viewOf R)])"
    then have t: "t < length targets" by (simp add: viewOf_sel R)
    have "decodeCandidate (viewOf R) k = meant view fresh (?cs ! k)" if "k < length ?cs" for k using c [OF that] by auto
    from decodeTarget_layout [OF ok t R this] t
    show "map (decodeTarget (viewOf R)) [0..<targetCount (viewOf R)] ! t = map (meantTarget view fresh) targets ! t"
      by (simp add: viewOf_sel R)
  qed (simp add: viewOf_sel R)
  then show ?decode by (simp add: decodeTecnixDependencyRow_def o decodeView_def)
  have all: "\<exists>cand. meant view fresh x = Some cand" if "x \<in> set ?cs" for x using c that by (metis in_set_conv_nth)
  have total: "\<exists>ys. those (map f xs) = Some ys" if "\<And>x. x \<in> set xs \<Longrightarrow> \<exists>y. f x = Some y" for f :: "'x \<Rightarrow> 'y option" and xs
    using that by (induction xs) fastforce+
  have tt: "\<exists>y. meantTarget view fresh t = Some y" if "t \<in> set targets" for t
    using total [of "pt_candidates t" "meant view fresh"] all that by (fastforce simp: meantTarget_def)
  show ?total using tt by (rule total)
  show "length out \<le> maxRowBytes" by (rule out)
  show "\<exists>R. openBlob out = Some (viewOf R) \<and> parts_ok R \<and> rp_names R = map pt_name targets" using o ok R by blast
qed

end
