(* ===== verification/Row_Merge.thy ===== *)
theory Row_Merge
  imports Row_Correct
begin

text \<open>
  What merging a row means. The abstract row is the decoded one: targets in name order with their
  candidate histories. Merging is specified on it by \<open>learn\<close>: a fresh closure becomes the newest
  candidate of its target, an equal candidate is dropped, the history is cut to the bound. The theory
  shows that \<^verbatim>\<open>mergedShardRow\<close> on bytes implements it, and which exceptions can leave it.
\<close>

section \<open>The specification\<close>

definition learnCandidate :: "nat \<Rightarrow> Candidate \<Rightarrow> Candidate list \<Rightarrow> Candidate list" where
  "learnCandidate keep c history = c # take (keep - 1) (filter (\<lambda>d. d \<noteq> c) history)"

fun learn :: "nat \<Rightarrow> bytes \<Rightarrow> Candidate \<Rightarrow> TecnixDependencyRow \<Rightarrow> TecnixDependencyRow" where
  "learn keep name c [] = [\<lparr>tg_target = name, tg_candidates = [c]\<rparr>]"
| "learn keep name c (t # ts) =
     (if tg_target t < name then t # learn keep name c ts
      else if tg_target t = name then \<lparr>tg_target = name, tg_candidates = learnCandidate keep c (tg_candidates t)\<rparr> # ts
      else \<lparr>tg_target = name, tg_candidates = [c]\<rparr> # t # ts)"

definition learnAll :: "nat \<Rightarrow> FreshCandidate list \<Rightarrow> TecnixDependencyRow \<Rightarrow> TecnixDependencyRow" where
  "learnAll keep = fold (\<lambda>f. learn keep (fc_target f) (candidateOf f))"

definition trimRow :: "nat \<Rightarrow> TecnixDependencyRow \<Rightarrow> TecnixDependencyRow" where
  "trimRow keep = map (\<lambda>t. t\<lparr>tg_candidates := take keep (tg_candidates t)\<rparr>)"

definition wf_row :: "nat \<Rightarrow> TecnixDependencyRow \<Rightarrow> bool" where
  "wf_row keep row \<longleftrightarrow> sorted_wrt (<) (map tg_target row) \<and> (\<forall>t \<in> set row. length (tg_candidates t) \<le> keep)"

definition lookupRow :: "TecnixDependencyRow \<Rightarrow> bytes \<Rightarrow> Candidate list option" where
  "lookupRow row name = map_option tg_candidates (find (\<lambda>t. tg_target t = name) row)"

section \<open>Planned targets and the rows they stand for\<close>

definition planned :: "DependencyBlobView option \<Rightarrow> FreshCandidate list \<Rightarrow> PlannedTarget list \<Rightarrow> TecnixDependencyRow \<Rightarrow> bool" where
  "planned view fresh = list_all2 (\<lambda>p t. meantTarget view fresh p = Some t)"

abbreviation meantAll :: "DependencyBlobView option \<Rightarrow> FreshCandidate list \<Rightarrow> CandidateSource list \<Rightarrow> Candidate list \<Rightarrow> bool" where
  "meantAll view fresh \<equiv> list_all2 (\<lambda>c d. meant view fresh c = Some d)"

lemma those_map_Some: "those (map f xs) = Some ys \<longleftrightarrow> list_all2 (\<lambda>x y. f x = Some y) xs ys"
  by (simp add: those_Some_iff list_all2_map1)

lemma meantTarget_Some:
  "meantTarget view fresh p = Some t \<longleftrightarrow> tg_target t = pt_name p \<and> meantAll view fresh (pt_candidates p) (tg_candidates t)"
  by (cases t) (auto simp: meantTarget_def those_map_Some)

lemma planned_those: "those (map (meantTarget view fresh) ps) = Some row \<longleftrightarrow> planned view fresh ps row"
  by (simp add: those_map_Some planned_def)

lemma planned_names: "planned view fresh ps row \<Longrightarrow> map tg_target row = map pt_name ps"
  unfolding planned_def by (induction ps arbitrary: row) (auto simp: list_all2_Cons1 meantTarget_Some)

subsection \<open>Comparing candidates\<close>

lemma samePairs_ok:
  "samePairs vw start pairs is = Inr b \<Longrightarrow> (\<And>i. i \<in> set is \<Longrightarrow> decodePair vw (u32 (start + i)) = Some (g i)) \<Longrightarrow>
    b \<longleftrightarrow> (\<forall>i \<in> set is. g i = entryOf (pairs ! i))"
proof (induction vw start pairs "is" rule: samePairs.induct)
  case (2 vw start pairs i "is")
  from "2.prems"(2) have g: "decodePair vw (u32 (start + i)) = Some (g i)" by simp
  show ?case
  proof (cases "de_path (g i) \<noteq> fst (pairs ! i) \<or> de_fingerprint (g i) \<noteq> snd (pairs ! i)")
    case True
    with "2.prems"(1) g show ?thesis by (auto simp: bind_defs entryOf_def)
  next
    case False
    with "2.prems"(1) g have "samePairs vw start pairs is = Inr b" by (simp add: bind_defs)
    from "2.IH" [OF False this] g "2.prems"(2) have "b \<longleftrightarrow> (\<forall>i \<in> set is. g i = entryOf (pairs ! i))" by simp
    with False show ?thesis by (cases "g i") (auto simp: entryOf_def)
  qed
qed simp

lemma sameCandidate_ok:
  assumes s: "sameCandidate view c fresh fr = Inr b" and m: "meant view fresh c = Some d"
  shows "b \<longleftrightarrow> d = candidateOf fr"
proof (cases c)
  case (FreshCandidateRef i)
  with s m show ?thesis by (auto simp: sameCandidate_def meant_def bind_defs candidateOf_def)
next
  case (StoredCandidate i)
  with m obtain vw where v: "view = Some vw" "decodeCandidate vw i = Some d" by (auto simp: meant_def split: bind_splits)
  then obtain py start count ds where d: "candidatePayloadValue vw i = Some py" "storedCandidatePairs vw i = Some (start, count)"
      "list_all2 (\<lambda>k e. decodePair vw (u32 (start + k)) = Some e) [0..<count] ds" "d = \<lparr>cd_dependencies = ds, cd_payload = py\<rparr>"
    by (auto simp: decodeCandidate_def those_map_Some split: bind_splits)
  from d(3) have len: "length ds = count" by (simp add: list_all2_conv_all_nth)
  show ?thesis
  proof (cases "py \<noteq> fc_payload fr \<or> count \<noteq> length (fc_pairs fr)")
    case True
    with s StoredCandidate v(1) d len show ?thesis by (auto simp: sameCandidate_def bind_defs candidateOf_def dest: arg_cong [of _ _ length])
  next
    case False
    with s StoredCandidate v(1) d(1,2) have p: "samePairs vw start (fc_pairs fr) [0..<count] = Inr b" by (simp add: sameCandidate_def bind_defs)
    have "decodePair vw (u32 (start + k)) = Some (ds ! k)" if "k \<in> set [0..<count]" for k
      using d(3) that by (auto simp: list_all2_conv_all_nth)
    from samePairs_ok [OF p this] have "b \<longleftrightarrow> (\<forall>k < count. ds ! k = entryOf (fc_pairs fr ! k))" by auto
    also have "\<dots> \<longleftrightarrow> ds = map entryOf (fc_pairs fr)" using len False by (auto simp: list_eq_iff_nth_eq)
    finally show ?thesis using False d(4) by (simp add: candidateOf_def)
  qed
qed

lemma historyLoop_ok:
  assumes "historyLoop view fresh fr keep history rest = Inr history'" "meantAll view fresh history H" "meantAll view fresh rest D"
    "length H \<le> keep"
  shows "meantAll view fresh history' (H @ take (keep - length H) (filter (\<lambda>d. d \<noteq> candidateOf fr) D))"
  using assms
proof (induction view fresh fr keep history rest arbitrary: H D rule: historyLoop.induct)
  case (2 view fresh fr keep history c rest)
  from "2.prems"(3) obtain d D' where D: "D = d # D'" "meant view fresh c = Some d" "meantAll view fresh rest D'" by (auto simp: list_all2_Cons1)
  have len: "length history = length H" using "2.prems"(2) by (rule list_all2_lengthD)
  show ?case
  proof (cases "keep \<le> length history")
    case True
    with "2.prems" len show ?thesis by simp
  next
    case False
    with "2.prems"(1) obtain same where same: "sameCandidate view c fresh fr = Inr same"
        "historyLoop view fresh fr keep (if same then history else history @ [c]) rest = Inr history'" by (auto simp: bind_defs)
    note eq = sameCandidate_ok [OF same(1) D(2)]
    have "meantAll view fresh (if same then history else history @ [c]) (if same then H else H @ [d])"
      using "2.prems"(2) D(2) by (simp add: list_all2_appendI)
    from "2.IH" [OF False same(2) this D(3)] False len
    have "meantAll view fresh history' ((if same then H else H @ [d]) @ take (keep - length (if same then H else H @ [d])) (filter (\<lambda>d. d \<noteq> candidateOf fr) D'))" by auto
    moreover have "keep - length H = Suc (keep - Suc (length H))" using False len by simp
    ultimately show ?thesis using eq by (auto simp: D(1) split: if_splits)
  qed
qed simp

subsection \<open>The plan of the stored targets\<close>

lemma candidateCount_less: "openBlob b = Some vw \<Longrightarrow> candidateCount vw < 2 ^ 32"
  using openBlob_view [of b vw] viewOkD(10,11) [of vw] by fastforce

lemma decodeTarget_planned:
  assumes o: "openBlob b = Some vw" and t: "targetCandidates vw k = Some (name, start, count)" and d: "decodeTarget vw k = Some T"
  shows "meantTarget (Some vw) fresh \<lparr>pt_name = name, pt_candidates = map (\<lambda>i. StoredCandidate (u32 (start + i))) [0..<min count keep]\<rparr>
    = Some (T\<lparr>tg_candidates := take keep (tg_candidates T)\<rparr>)"
proof -
  from t have le: "start + count \<le> candidateCount vw" by (auto simp: targetCandidates_def split: bind_splits if_splits)
  with candidateCount_less [OF o] have u: "start + count < 2 ^ 32" by simp
  from d t have cs: "list_all2 (\<lambda>i d. decodeCandidate vw i = Some d) [start..<start + count] (tg_candidates T)" and n: "tg_target T = name"
    using u by (auto simp: decodeTarget_def those_map_Some split: bind_splits)
  have "meantAll (Some vw) fresh (map (\<lambda>i. StoredCandidate (u32 (start + i))) [0..<min count keep]) (take keep (tg_candidates T))"
    using cs u by (auto simp: list_all2_conv_all_nth meant_def)
  with n show ?thesis by (simp add: meantTarget_Some)
qed

lemma planStored_ok:
  assumes "planStored vw keep ps ks = Inr ps'" "openBlob b = Some vw"
    and "list_all2 (\<lambda>k t. decodeTarget vw k = Some t) ks row" "planned (Some vw) fresh ps prefix" "sorted_wrt (<) (map pt_name ps)"
  shows "planned (Some vw) fresh ps' (prefix @ trimRow keep row) \<and> sorted_wrt (<) (map pt_name ps')"
  using assms
proof (induction vw keep ps ks arbitrary: prefix row rule: planStored.induct)
  case (2 vw keep ps k ks)
  from "2.prems"(1) obtain name start count where t: "targetCandidates vw k = Some (name, start, count)"
      "\<not> (ps \<noteq> [] \<and> name \<le> pt_name (last ps))" by (auto simp: bind_defs split: if_splits)
  let ?p = "\<lparr>pt_name = name, pt_candidates = map (\<lambda>i. StoredCandidate (u32 (start + i))) [0..<min count keep]\<rparr>"
  from "2.prems"(1) t have run: "planStored vw keep (ps @ [?p]) ks = Inr ps'" by (simp add: bind_defs)
  from "2.prems"(3) obtain T row' where row: "row = T # row'" "decodeTarget vw k = Some T" "list_all2 (\<lambda>k t. decodeTarget vw k = Some t) ks row'"
    by (auto simp: list_all2_Cons1)
  let ?T = "T\<lparr>tg_candidates := take keep (tg_candidates T)\<rparr>"
  have "planned (Some vw) fresh (ps @ [?p]) (prefix @ [?T])"
    using "2.prems"(4) decodeTarget_planned [OF "2.prems"(2) t(1) row(2)] by (simp add: planned_def list_all2_appendI)
  moreover have "sorted_wrt (<) (map pt_name (ps @ [?p]))"
  proof -
    have "x < name" if "x \<in> set (map pt_name ps)" for x
    proof -
      have "x \<le> pt_name (last ps)" using that "2.prems"(5)
        by (cases ps rule: rev_cases) (auto simp: sorted_wrt_append less_imp_le)
      with that t(2) show ?thesis by (cases ps) auto
    qed
    with "2.prems"(5) show ?thesis by (auto simp: sorted_wrt_append)
  qed
  ultimately have "planned (Some vw) fresh ps' ((prefix @ [?T]) @ trimRow keep row') \<and> sorted_wrt (<) (map pt_name ps')"
    using "2.IH" [OF t(2) run "2.prems"(2) row(3)] by blast
  then show ?case by (simp add: row(1) trimRow_def)
qed (simp add: trimRow_def)

subsection \<open>The plan of the fresh closures\<close>

lemma learn_append: "\<forall>t \<in> set pre. tg_target t < name \<Longrightarrow> learn keep name c (pre @ post) = pre @ learn keep name c post"
  by (induction pre) auto

text \<open>The two ways a fresh closure enters the plan: at an existing target or as a new one.\<close>

lemma planFreshStepE:
  assumes step: "planFreshStep view fresh keep ps f = Inr ps'" and f: "f < length fresh"
  obtains (old) pre e es history where "ps = pre @ e # es" "pt_name e = fc_target (fresh ! f)" "\<forall>d \<in> set pre. pt_name d < fc_target (fresh ! f)"
      "historyLoop view fresh (fresh ! f) keep [FreshCandidateRef f] (pt_candidates e) = Inr history" "ps' = pre @ e\<lparr>pt_candidates := history\<rparr> # es"
  | (new) pre post history where "ps = pre @ post" "post \<noteq> [] \<Longrightarrow> fc_target (fresh ! f) < pt_name (hd post)" "\<forall>d \<in> set pre. pt_name d < fc_target (fresh ! f)"
      "historyLoop view fresh (fresh ! f) keep [FreshCandidateRef f] [] = Inr history"
      "ps' = pre @ \<lparr>pt_name = fc_target (fresh ! f), pt_candidates = history\<rparr> # post"
proof -
  let ?n = "fc_target (fresh ! f)"
  define pre where "pre = takeWhile (\<lambda>e. pt_name e < ?n) ps"
  define post where "post = dropWhile (\<lambda>e. pt_name e < ?n) ps"
  have ps: "ps = pre @ post" by (simp add: pre_def post_def)
  have it: "lowerBound (\<lambda>e. pt_name e < ?n) ps = length pre" by (simp add: lowerBound_def pre_def)
  have lt: "\<forall>e \<in> set pre. pt_name e < ?n" by (auto simp: pre_def dest: set_takeWhileD)
  have ge: "post \<noteq> [] \<Longrightarrow> \<not> pt_name (hd post) < ?n" unfolding post_def by (rule hd_dropWhile)
  let ?old = "post \<noteq> [] \<and> pt_name (hd post) = ?n"
  define q where "q = (if ?old then hd post else \<lparr>pt_name = ?n, pt_candidates = []\<rparr>)"
  define rest where "rest = (if ?old then tl post else post)"
  have t': "(if length pre = length ps \<or> pt_name (ps ! length pre) \<noteq> ?n then insertAt ps (length pre) \<lparr>pt_name = ?n, pt_candidates = []\<rparr> else ps) = pre @ q # rest"
    by (cases post) (auto simp: ps insertAt_def q_def rest_def)
  from step f obtain history where h: "historyLoop view fresh (fresh ! f) keep [FreshCandidateRef f] (pt_candidates q) = Inr history"
      "ps' = pre @ q\<lparr>pt_candidates := history\<rparr> # rest"
    unfolding planFreshStep_def it at_Some [OF f] require_simps ebind_simps Let_def t' by (auto simp: bind_defs)
  show thesis
  proof (cases ?old)
    case True
    then show thesis using h ps lt by (intro old [of pre "hd post" "tl post" history]) (auto simp: q_def rest_def)
  next
    case False
    then show thesis using h ps lt ge by (intro new [of pre post history]) (auto simp: q_def rest_def not_less le_less)
  qed
qed

lemma planned_appendE: "planned view fresh (ps @ qs) row \<Longrightarrow> \<exists>r1 r2. row = r1 @ r2 \<and> planned view fresh ps r1 \<and> planned view fresh qs r2"
  unfolding planned_def by (auto simp: list_all2_append1)

lemma planned_appendI: "planned view fresh ps r1 \<Longrightarrow> planned view fresh qs r2 \<Longrightarrow> planned view fresh (ps @ qs) (r1 @ r2)"
  unfolding planned_def by (rule list_all2_appendI)

lemma planned_simps [simp]: "planned view fresh [] row \<longleftrightarrow> row = []"
    "planned view fresh (p # ps) (t # ts) \<longleftrightarrow> meantTarget view fresh p = Some t \<and> planned view fresh ps ts"
  by (simp_all add: planned_def)

lemma planned_ConsE: "planned view fresh (p # ps) row \<Longrightarrow> \<exists>t ts. row = t # ts \<and> meantTarget view fresh p = Some t \<and> planned view fresh ps ts"
  unfolding planned_def by (auto simp: list_all2_Cons1)

lemma planned_less: "planned view fresh ps row \<Longrightarrow> \<forall>p \<in> set ps. pt_name p < n \<Longrightarrow> \<forall>t \<in> set row. tg_target t < n"
  by (induction ps arbitrary: row) (auto simp: meantTarget_Some dest!: planned_ConsE)

lemma planFreshStep_ok:
  assumes step: "planFreshStep view fresh keep ps f = Inr ps'" and f: "f < length fresh" and keep: "0 < keep" and p: "planned view fresh ps row"
  shows "planned view fresh ps' (learn keep (fc_target (fresh ! f)) (candidateOf (fresh ! f)) row)"
proof -
  let ?n = "fc_target (fresh ! f)" let ?c = "candidateOf (fresh ! f)"
  have mf: "meantAll view fresh [FreshCandidateRef f] [?c]" using f by (simp add: meant_def)
  from step f show ?thesis
  proof (cases rule: planFreshStepE)
    case (old pre e es history)
    with p obtain r1 t ts where r: "row = r1 @ t # ts" "planned view fresh pre r1" "meantTarget view fresh e = Some t" "planned view fresh es ts"
      by (blast dest: planned_appendE planned_ConsE)
    from historyLoop_ok [OF old(4) mf, of "tg_candidates t"] r(3) keep
    have "meantAll view fresh history (learnCandidate keep ?c (tg_candidates t))"
      by (simp add: meantTarget_Some learnCandidate_def Suc_le_eq)
    with r old(2,5) planned_less [OF r(2) old(3)] show ?thesis
      by (auto simp: learn_append meantTarget_Some intro!: planned_appendI)
  next
    case (new pre post history)
    with p obtain r1 r2 where r: "row = r1 @ r2" "planned view fresh pre r1" "planned view fresh post r2" by (blast dest: planned_appendE)
    from historyLoop_ok [OF new(4) mf, of "[]"] keep have hist: "meantAll view fresh history [?c]" by (simp add: Suc_le_eq)
    have "learn keep ?n ?c r2 = \<lparr>tg_target = ?n, tg_candidates = [?c]\<rparr> # r2"
    proof (cases post)
      case (Cons e es)
      with r(3) new(2) show ?thesis by (auto simp: meantTarget_Some dest!: planned_ConsE)
    qed (use r(3) in simp)
    with hist r new(5) planned_less [OF r(2) new(3)] show ?thesis
      by (auto simp: learn_append meantTarget_Some intro!: planned_appendI)
  qed
qed

lemma learn_names:
  assumes "sorted_wrt (<) (map tg_target row)"
  shows "sorted_wrt (<) (map tg_target (learn keep name c row))" "set (map tg_target (learn keep name c row)) = insert name (set (map tg_target row))"
proof -
  have names: "tg_target ` set (learn keep name c row) = insert name (tg_target ` set row)" for keep name c row
    by (induction keep name c row rule: learn.induct) auto
  then show "set (map tg_target (learn keep name c row)) = insert name (set (map tg_target row))" by simp
  show "sorted_wrt (<) (map tg_target (learn keep name c row))"
    using assms
  proof (induction keep name c row rule: learn.induct)
    case (2 keep name c t ts)
    then show ?case using names [of keep name c ts] by auto
  qed simp
qed

lemma planFresh_ok:
  assumes "planFresh view fresh keep ps fs = Inr ps'" "\<forall>f \<in> set fs. f < length fresh" "0 < keep"
    "planned view fresh ps row" "sorted_wrt (<) (map pt_name ps)"
  shows "planned view fresh ps' (learnAll keep (map ((!) fresh) fs) row) \<and> sorted_wrt (<) (map pt_name ps')"
  using assms
proof (induction view fresh keep ps fs arbitrary: row rule: planFresh.induct)
  case (2 view fresh keep ps f fs)
  from "2.prems"(1) obtain ps1 where r: "planFreshStep view fresh keep ps f = Inr ps1" "planFresh view fresh keep ps1 fs = Inr ps'" by (auto simp: bind_defs)
  let ?row = "learn keep (fc_target (fresh ! f)) (candidateOf (fresh ! f)) row"
  have p: "planned view fresh ps1 ?row" using planFreshStep_ok [OF r(1)] "2.prems" by simp
  have "sorted_wrt (<) (map tg_target row)" using "2.prems"(4,5) planned_names by metis
  then have "sorted_wrt (<) (map pt_name ps1)" using learn_names(1) planned_names [OF p] by metis
  with "2.IH" [OF r(2)] "2.prems" p show ?case by (simp add: learnAll_def)
qed (simp add: learnAll_def)

lemma planShardRow_ok:
  assumes "planShardRow view fresh keep = Inr ps" "0 < keep"
    and "case view of None \<Rightarrow> row = [] | Some vw \<Rightarrow> (\<exists>b. openBlob b = Some vw) \<and> decodeView vw = Some row"
  shows "planned view fresh ps (learnAll keep fresh (trimRow keep row)) \<and> sorted_wrt (<) (map pt_name ps)"
proof -
  from assms(1) obtain ps0 where r: "(case view of None \<Rightarrow> Inr [] | Some vw \<Rightarrow> planStored vw keep [] [0..<targetCount vw]) = Inr ps0"
      "planFresh view fresh keep ps0 [0..<length fresh] = Inr ps" by (auto simp: planShardRow_def bind_defs)
  have "planned view fresh ps0 (trimRow keep row) \<and> sorted_wrt (<) (map pt_name ps0)"
  proof (cases view)
    case None
    with r assms(3) show ?thesis by (simp add: planned_def trimRow_def)
  next
    case (Some vw)
    with r assms(3) planStored_ok [of vw keep "[]" _ ps0 _ row fresh "[]"] show ?thesis
      by (auto simp: decodeView_def those_map_Some planned_def)
  qed
  with planFresh_ok [OF r(2) _ assms(2)] show ?thesis by (auto simp: map_nth)
qed

section \<open>Merging implements the specification\<close>

lemma learn_has_candidate: "\<exists>t \<in> set (learn keep name c row). tg_target t = name \<and> c \<in> set (tg_candidates t)"
  by (induction keep name c row rule: learn.induct) (auto simp: learnCandidate_def)

lemma learnAll_nonempty: "fresh \<noteq> [] \<Longrightarrow> \<exists>t \<in> set (learnAll keep fresh row). tg_candidates t \<noteq> []"
proof (cases fresh rule: rev_cases)
  case (snoc xs f)
  then have "learnAll keep fresh row = learn keep (fc_target f) (candidateOf f) (learnAll keep xs row)" by (simp add: learnAll_def)
  with learn_has_candidate [of keep "fc_target f" "candidateOf f" "learnAll keep xs row"] show ?thesis
    by (metis empty_iff list.set(1))
qed simp

lemma planned_nonempty:
  assumes "planned view fresh ps row" "\<exists>t \<in> set row. tg_candidates t \<noteq> []"
  shows "concat (map pt_candidates ps) \<noteq> []"
  using assms unfolding planned_def
proof (induction ps arbitrary: row)
  case (Cons p ps)
  then show ?case by (fastforce simp: list_all2_Cons1 meantTarget_Some)
qed simp

lemma written_row:
  assumes "planShardRow view fresh keep = Inr ps" "0 < keep" "fresh \<noteq> []" "writeShardRow view ps fresh maxRowBytes = Inr out"
    and "case view of None \<Rightarrow> row = [] | Some vw \<Rightarrow> (\<exists>b. openBlob b = Some vw) \<and> decodeView vw = Some row"
  shows "decodeTecnixDependencyRow out = Some (learnAll keep fresh (trimRow keep row))"
proof -
  from planShardRow_ok [OF assms(1,2,5)] have p: "planned view fresh ps (learnAll keep fresh (trimRow keep row))" by simp
  from planned_nonempty [OF p learnAll_nonempty [OF assms(3)]] writeShardRow_decodes(1) [OF assms(4)] p
  show ?thesis by (simp add: planned_those [symmetric])
qed

lemma freshRow_decodes:
  assumes "freshRow fresh keep maxRowBytes outcome = Inr (outcome', out)" "0 < keep" "fresh \<noteq> []"
  shows "outcome' = outcome" "decodeTecnixDependencyRow out = Some (learnAll keep fresh [])"
  using assms written_row [of None fresh keep _ maxRowBytes out "[]"] by (auto simp: freshRow_def bind_defs trimRow_def)

text \<open>The ways a merge can return.\<close>

lemma mergedShardRow_cases:
  assumes "mergedShardRow existing updates historyLimit maxRowBytes = Inr (outcome, out)"
  obtains fresh where "mapE freshCandidate updates = Inr fresh" "outcome \<noteq> Merged" "freshRow fresh (max historyLimit 1) maxRowBytes outcome = Inr (outcome, out)"
  | fresh b vw ps where "mapE freshCandidate updates = Inr fresh" "outcome = Merged" "existing = Some b" "openBlob b = Some vw"
      "planShardRow (Some vw) fresh (max historyLimit 1) = Inr ps" "writeShardRow (Some vw) ps fresh maxRowBytes = Inr out"
proof -
  have fr: "outcome' = o1" if "freshRow f k m o1 = Inr (outcome', out')" for f k m o1 outcome' out'
    using that by (auto simp: freshRow_def bind_defs)
  from assms obtain fresh where f: "mapE freshCandidate updates = Inr fresh" by (auto simp: mergedShardRow_def bind_defs)
  have "(outcome \<noteq> Merged \<and> freshRow fresh (max historyLimit 1) maxRowBytes outcome = Inr (outcome, out)) \<or>
    (\<exists>b vw ps. outcome = Merged \<and> existing = Some b \<and> openBlob b = Some vw \<and> planShardRow (Some vw) fresh (max historyLimit 1) = Inr ps \<and>
       writeShardRow (Some vw) ps fresh maxRowBytes = Inr out)"
    using assms f
    by (auto simp: mergedShardRow_def Let_def bind_defs ebind_def [of "planShardRow _ _ _"] ebind_def [of "writeShardRow _ _ _ _"] split: option.splits if_splits sum.splits cache_error.splits dest: fr)
  with f that show thesis by blast
qed

lemma learn_bound:
  assumes "0 < keep" "\<forall>t \<in> set row. length (tg_candidates t) \<le> keep"
  shows "\<forall>t \<in> set (learn keep name c row). length (tg_candidates t) \<le> keep"
proof -
  have "length (learnCandidate keep c xs) \<le> keep" for xs using assms(1) by (simp add: learnCandidate_def min_le_iff_disj)
  with assms show ?thesis by (induction row) auto
qed

lemma wf_row_learn: "0 < keep \<Longrightarrow> wf_row keep row \<Longrightarrow> wf_row keep (learn keep name c row)"
  unfolding wf_row_def using learn_names(1) learn_bound by blast

lemma wf_row_learnAll: "0 < keep \<Longrightarrow> wf_row keep row \<Longrightarrow> wf_row keep (learnAll keep fresh row)"
  unfolding learnAll_def by (induction fresh arbitrary: row) (simp_all add: wf_row_learn)

lemma trimRow_names [simp]: "map tg_target (trimRow keep row) = map tg_target row"
  by (simp add: trimRow_def)

lemma wf_row_trim: "sorted_wrt (<) (map tg_target row) \<Longrightarrow> wf_row keep (trimRow keep row)"
  by (simp add: wf_row_def) (auto simp: trimRow_def)

lemma planStored_sorted:
  assumes "planStored vw keep [] [0..<targetCount vw] = Inr ps" "openBlob b = Some vw" "decodeView vw = Some row"
  shows "sorted_wrt (<) (map tg_target row)"
proof -
  have "planned (Some vw) [] ps (trimRow keep row) \<and> sorted_wrt (<) (map pt_name ps)"
    using planStored_ok [OF assms(1,2), of row "[]" "[]"] assms(3) by (simp add: decodeView_def those_map_Some planned_def)
  then show ?thesis using planned_names trimRow_names by metis
qed

text \<open>\<^verbatim>\<open>freshCandidate\<close> keeps the closure as a set of pairs in path order, each path once.\<close>

lemma dedupePairs_ok:
  assumes "dedupePairs kept ps = Inr out" "sorted (kept @ ps)" "sorted_wrt (<) (map fst kept)"
  shows "sorted_wrt (<) (map fst out) \<and> set out = set kept \<union> set ps"
  using assms
proof (induction kept ps rule: dedupePairs.induct)
  case (2 kept p ps)
  show ?case
  proof (cases "kept \<noteq> [] \<and> fst (last kept) = fst p")
    case True
    with "2.prems"(1) have eq: "last kept = p" "dedupePairs kept ps = Inr out" by (auto simp: prod_eq_iff split: if_splits)
    from "2.prems"(2) have "sorted (kept @ ps)" by (simp add: sorted_append)
    with "2.IH"(1) [OF True _ eq(2)] eq(1) "2.prems"(3) have "sorted_wrt (<) (map fst out) \<and> set out = set kept \<union> set ps" by simp
    moreover have "p \<in> set kept" using True eq(1) last_in_set by blast
    ultimately show ?thesis by auto
  next
    case False
    with "2.prems"(1) have run: "dedupePairs (kept @ [p]) ps = Inr out" by (auto split: if_splits)
    have "x < fst p" if "x \<in> set (map fst kept)" for x
    proof -
      from that have ne: "kept \<noteq> []" by auto
      have "x \<le> fst (last kept)" using that "2.prems"(3) by (cases kept rule: rev_cases) (auto simp: sorted_wrt_append less_imp_le)
      moreover have "last kept \<le> p" using "2.prems"(2) ne by (simp add: sorted_append)
      ultimately show ?thesis using False ne by (auto simp: less_eq_prod_def)
    qed
    with "2.prems"(3) have "sorted_wrt (<) (map fst (kept @ [p]))" by (auto simp: sorted_wrt_append)
    with "2.IH"(2) [OF False run] "2.prems"(2) show ?thesis by simp
  qed
qed simp

lemma dedupePairs_conflict:
  "dedupePairs kept ps = Inl e \<Longrightarrow> \<exists>p a b. e = ConflictingFingerprints p \<and> (p, a) \<in> set kept \<union> set ps \<and> (p, b) \<in> set kept \<union> set ps \<and> a \<noteq> b"
proof (induction kept ps rule: dedupePairs.induct)
  case (2 kept p ps)
  show ?case
  proof (cases "kept \<noteq> [] \<and> fst (last kept) = fst p")
    case True
    show ?thesis
    proof (cases "snd (last kept) = snd p")
      case eq: True
      with "2.prems" True have "dedupePairs kept ps = Inl e" by simp
      from "2.IH"(1) [OF True _ this] eq show ?thesis by (meson UnI1 UnI2 Un_iff list.set_intros(2))
    next
      case False
      have "(fst p, snd (last kept)) \<in> set kept" using True by (metis last_in_set prod.collapse)
      moreover have "e = ConflictingFingerprints (fst p)" using "2.prems" True False by simp
      ultimately show ?thesis using False by (intro exI [of _ "fst p"] exI [of _ "snd (last kept)"] exI [of _ "snd p"]) simp
    qed
  next
    case False
    with "2.prems" have "dedupePairs (kept @ [p]) ps = Inl e" by auto
    from "2.IH"(2) [OF False this] show ?thesis by (simp add: insert_commute)
  qed
qed simp

lemma freshCandidate_ok:
  assumes "freshCandidate u = Inr f"
  shows "fc_target f = up_target u" "fc_payload f = up_payload u" "sorted_wrt (<) (map fst (fc_pairs f))"
    "set (fc_pairs f) = (\<lambda>d. (de_path d, de_fingerprint d)) ` set (up_dependencies u)"
  using assms dedupePairs_ok [of "[]" "sort (map (\<lambda>d. (de_path d, de_fingerprint d)) (up_dependencies u))" "fc_pairs f"]
  by (auto simp: freshCandidate_def bind_defs)

end
