(* ===== verification/Row_Total.thy ===== *)
theory Row_Total
  imports Row_Merge
begin

text \<open>
  The writer returns. When the strings and records of a planned row exist and the row fits its bounds,
  \<^verbatim>\<open>writeShardRow\<close> returns the layout of the row; the exceptions that guard its internal invariants are
  never thrown. The theorems on merging a row are stated here, on the bytes.
\<close>

section \<open>Writing forward\<close>

lemma setCount_fwd: "n < 2 ^ 32 \<Longrightarrow> fieldIndex f = length vs \<Longrightarrow> setCount f n what (part vs @ b) = Inr (part (vs @ [n]) @ b)"
  by (simp add: setCount_def checkedU32_def u32Fits_def setBlobField_part)

lemmas setCount_fwd0 = setCount_fwd [where b = "[]", unfolded append_Nil2]

lemma setSize_fwd: "68 + length b < 2 ^ 32 \<Longrightarrow> fieldIndex f = length vs \<Longrightarrow> setSize f (part vs @ b) = Inr (part (vs @ [68 + length b]) @ b)"
  using fieldIndex_less [of f] by (simp add: setSize_def checkedU32_def u32Fits_def setBlobField_part)

lemma tableOffsets_fwd: "n + length (concat vs) < 2 ^ 32 \<Longrightarrow> \<exists>offsets. tableOffsets n vs = Inr offsets"
proof (induction vs arbitrary: n)
  case (Cons v vs)
  then have "n + length v + length (concat vs) < 2 ^ 32" by (simp del: length_concat)
  from Cons.IH [OF this] this show ?case by (auto simp: u32Fits_def simp del: length_concat)
qed simp

lemma appendStringTable_fwd:
  assumes "length (table vs) < 2 ^ 32" "4 dvd length out"
  shows "appendStringTable out vs = Inr (out @ table vs)"
proof -
  have "length (concat vs) < 2 ^ 32" using assms(1) table_bound(2) [of vs] by simp
  with tableOffsets_fwd [of 0 vs] obtain o' where "tableOffsets 0 vs = Inr o'" by (auto simp del: length_concat)
  then obtain out' where "appendStringTable out vs = Inr out'" by (simp add: appendStringTable_def)
  with appendStringTable_table(1) [OF _ assms(2)] show ?thesis by fastforce
qed

lemma emitTargets_fwd:
  "n + length (concat (map pt_candidates ts)) < 2 ^ 32 \<Longrightarrow> emitTargets n ts out = Inr (out @ arr (flat2 (targetRecords n ts)))"
proof (induction ts arbitrary: n out)
  case (Cons t ts)
  let ?k = "length (pt_candidates t)"
  have "n + ?k + length (concat (map pt_candidates ts)) < 2 ^ 32" using Cons.prems by (simp del: length_concat)
  then show ?case using Cons.IH [of "n + ?k"] by (simp add: checkedU32_def u32Fits_def appendU32_def del: length_concat)
qed simp

lemma emitCandidates_fwd:
  "mapE (candidateRecord view fresh payloads) cs = Inr rs \<Longrightarrow> n + sum_list (map fst rs) < 2 ^ 32 \<Longrightarrow>
    emitCandidates view fresh payloads n cs out = Inr (out @ arr (flat3 (candidateRecords n rs)))"
proof (induction cs arbitrary: n out rs)
  case (Cons c cs)
  from Cons.prems(1) obtain r rs' where r: "candidateRecord view fresh payloads c = Inr r" "mapE (candidateRecord view fresh payloads) cs = Inr rs'" "rs = r # rs'"
    by (auto simp: bind_defs)
  obtain a b where "r = (a, b)" by (cases r)
  with r Cons.prems(2) Cons.IH [OF r(2), of "n + a"] show ?case by (simp add: appendU32_def)
qed simp

lemma emitPairs_fwd:
  "mapE (candidatePairs view fresh paths fingerprints) cs = Inr pss \<Longrightarrow>
    emitPairs view fresh paths fingerprints cs out = Inr (out @ arr (flat2 (concat pss)))"
proof (induction cs arbitrary: out pss)
  case (Cons c cs)
  have "fold (\<lambda>(a, b) o'. appendU32 (appendU32 o' a) b) ps o1 = o1 @ arr (flat2 ps)" for ps o1
    by (induction ps arbitrary: o1) (auto simp: appendU32_def)
  with Cons show ?case by (fastforce simp: bind_defs)
qed simp

lemma writeShardRow_total:
  assumes t: "targets \<noteq> []" "length targets \<le> 1024"
    and m: "markCandidates view fresh (concat (map pt_candidates targets)) (initialMarks view) = Inr m"
    and paths: "mergeStrings (countOf pathCount view) (\<lambda>i. Option.bind view (\<lambda>vw. path vw i)) (usedPaths m) (freshPaths m) = Inr paths"
    and fingerprints: "mergeStrings (countOf fingerprintCount view) (\<lambda>i. Option.bind view (\<lambda>vw. fingerprint vw i)) (usedFingerprints m) (freshFingerprints m) = Inr fingerprints"
    and payloads: "mergeStrings (countOf payloadCount view) (\<lambda>i. Option.bind view (\<lambda>vw. payload vw i)) (usedPayloads m) (freshPayloads m) = Inr payloads"
    and rs: "mapE (candidateRecord view fresh payloads) (concat (map pt_candidates targets)) = Inr rs"
    and pss: "mapE (candidatePairs view fresh paths fingerprints) (concat (map pt_candidates targets)) = Inr pss"
    and size: "offE (partsOf targets paths fingerprints payloads rs pss) \<le> maxRowBytes" "offE (partsOf targets paths fingerprints payloads rs pss) < 2 ^ 32"
  shows "writeShardRow view targets fresh maxRowBytes = Inr (layout (partsOf targets paths fingerprints payloads rs pss))"
proof -
  let ?cs = "concat (map pt_candidates targets)"
  let ?R = "partsOf targets paths fingerprints payloads rs pss"
  let ?sz = "map (sizeOf view fresh) ?cs"
  have R: "rp_names ?R = map pt_name targets" "rp_targets ?R = targetRecords 0 targets" "rp_paths ?R = ms_strings paths"
      "rp_fingerprints ?R = ms_strings fingerprints" "rp_payloads ?R = ms_strings payloads" "rp_candidates ?R = candidateRecords 0 rs" "rp_pairs ?R = concat pss"
    by (simp_all add: partsOf_def)
  have r: "length rs = length ?cs" "\<And>k. k < length ?cs \<Longrightarrow> candidateRecord view fresh payloads (?cs ! k) = Inr (rs ! k)"
    using rs by (simp_all add: mapE_Inr_iff list_all2_conv_all_nth del: length_concat)
  have p: "length pss = length ?cs" "\<And>k. k < length ?cs \<Longrightarrow> candidatePairs view fresh paths fingerprints (?cs ! k) = Inr (pss ! k)"
    using pss by (simp_all add: mapE_Inr_iff list_all2_conv_all_nth del: length_concat)
  have fst: "map fst rs = ?sz" by (rule nth_equalityI) (use r candidateRecord_size [OF r(2)] in \<open>simp_all del: length_concat\<close>)
  have "map length pss = ?sz" by (rule nth_equalityI) (use p candidatePairs_size [OF p(2)] in \<open>simp_all del: length_concat\<close>)
  then have lp: "length (concat pss) = sum_list ?sz" by (simp add: length_concat)
  have c: "mk_candidateCount m = length ?cs" "mk_pairCount m = sum_list ?sz"
    using markCandidates_counts [OF m] by (simp_all add: initialMarks_def del: length_concat)
  note E = size(2) [unfolded off_defs R length_targetRecords length_candidateRecords length_map r(1) lp]
  let ?N = "map pt_name targets" let ?T = "arr (flat2 (targetRecords 0 targets))"
  let ?v = "[2, 0, length targets, length (ms_strings paths), length (ms_strings fingerprints), length (ms_strings payloads), length ?cs, sum_list ?sz]"
  have lens: "length targets < 2 ^ 32" "length (ms_strings paths) < 2 ^ 32" "length (ms_strings fingerprints) < 2 ^ 32" "length (ms_strings payloads) < 2 ^ 32"
      "length ?cs < 2 ^ 32" "sum_list ?sz < 2 ^ 32"
    using t(2) E table_bound(1) [of "ms_strings paths"] table_bound(1) [of "ms_strings fingerprints"] table_bound(1) [of "ms_strings payloads"]
    by (simp_all del: length_concat)
  have h0: "setBlobField (setBlobField emptyHeader blobVersionField dependencyBlobVersion) blobFlagsField dependencyBlobFlags = part [2, 0]"
  proof -
    have "emptyHeader = part [] @ []" by (simp add: emptyHeader_hdr part_def)
    then show ?thesis using setBlobField_part [of blobVersionField "[]" "[]" 2] setBlobField_part [of blobFlagsField "[2]" "[]" 0]
      by (simp add: dependencyBlobVersion_def dependencyBlobFlags_def)
  qed
  define b1 where "b1 = table ?N"
  define b2 where "b2 = b1 @ ?T"
  define b3 where "b3 = b2 @ table (ms_strings paths)"
  define b4 where "b4 = b3 @ table (ms_strings fingerprints)"
  define b5 where "b5 = b4 @ table (ms_strings payloads)"
  define b6 where "b6 = b5 @ arr (flat3 (candidateRecords 0 rs))"
  define b7 where "b7 = b6 @ arr (flat2 (concat pss))"
  note bs = b1_def b2_def b3_def b4_def b5_def b6_def b7_def
  have len7: "68 + length b7 = offE ?R" unfolding bs off_defs R by (simp del: length_concat)
  then have small: "68 + length b < 2 ^ 32" if "length b \<le> length b7" for b :: bytes using that size(2) by linarith
  have le: "length b1 \<le> length b7" "length b2 \<le> length b7" "length b3 \<le> length b7" "length b4 \<le> length b7" "length b5 \<le> length b7" "length b6 \<le> length b7"
    unfolding bs by simp_all
  have dvd: "4 dvd length b1" "4 dvd length b2" "4 dvd length b3" "4 dvd length b4" "4 dvd length b5" "4 dvd length b6"
    unfolding bs by (simp_all add: dvd_table)
  have tab: "appendStringTable (part vs @ b) xs = Inr (part vs @ b @ table xs)"
    if "length (table xs) \<le> length b7" "4 dvd length b" "length vs \<le> 16" for vs b xs
    using appendStringTable_fwd [of xs "part vs @ b"] small [of "table xs"] that by simp
  have ts: "length (table ?N) \<le> length b7" "length (table (ms_strings paths)) \<le> length b7" "length (table (ms_strings fingerprints)) \<le> length b7"
      "length (table (ms_strings payloads)) \<le> length b7" unfolding bs by simp_all
  have pr: "sum_list (map fst rs) < 2 ^ 32" using fst lens(6) by simp
  have s1: "setCount blobTargetCountField (length targets) w (part [2, 0]) = Inr (part (take 3 ?v))"
    "setCount blobPathCountField (length (ms_strings paths)) w (part (take 3 ?v)) = Inr (part (take 4 ?v))"
    "setCount blobFingerprintCountField (length (ms_strings fingerprints)) w (part (take 4 ?v)) = Inr (part (take 5 ?v))"
    "setCount blobPayloadCountField (length (ms_strings payloads)) w (part (take 5 ?v)) = Inr (part (take 6 ?v))"
    "setCount blobCandidateCountField (length ?cs) w (part (take 6 ?v)) = Inr (part (take 7 ?v))"
    "setCount blobPairCountField (sum_list ?sz) w (part (take 7 ?v)) = Inr (part ?v)" for w
    using lens by (simp_all add: setCount_fwd0 del: length_concat)
  have s2: "setSize blobTargetOffsetsOffsetField (part ?v) = Inr (part (?v @ [68]))"
    using setSize_fwd [of "[]" blobTargetOffsetsOffsetField ?v] by simp
  have s3: "appendStringTable (part (?v @ [68])) ?N = Inr (part (?v @ [68]) @ b1)"
    using tab [OF ts(1), of "[]" "?v @ [68]"] by (simp add: b1_def)
  have s4: "setSize blobTargetRecordsOffsetField (part (?v @ [68]) @ b1) = Inr (part (?v @ [68, 68 + length b1]) @ b1)"
    using setSize_fwd [OF small [OF le(1)], of blobTargetRecordsOffsetField "?v @ [68]"] by simp
  have s5: "emitTargets 0 targets (part vs @ b1) = Inr (part vs @ b2)" for vs
    using emitTargets_fwd [of 0 targets] lens(5) by (simp add: b2_def del: length_concat)
  let ?w2 = "?v @ [68, 68 + length b1, 68 + length b2]"
  have s6: "setSize blobPathOffsetsOffsetField (part (?v @ [68, 68 + length b1]) @ b2) = Inr (part ?w2 @ b2)"
    using setSize_fwd [OF small [OF le(2)], of blobPathOffsetsOffsetField "?v @ [68, 68 + length b1]"] by simp
  have s7: "appendStringTable (part ?w2 @ b2) (ms_strings paths) = Inr (part ?w2 @ b3)"
    using tab [OF ts(2) dvd(2), of ?w2] by (simp add: b3_def)
  let ?w3 = "?w2 @ [68 + length b3]"
  have s8: "setSize blobFingerprintOffsetsOffsetField (part ?w2 @ b3) = Inr (part ?w3 @ b3)"
    using setSize_fwd [OF small [OF le(3)], of blobFingerprintOffsetsOffsetField ?w2] by simp
  have s9: "appendStringTable (part ?w3 @ b3) (ms_strings fingerprints) = Inr (part ?w3 @ b4)"
    using tab [OF ts(3) dvd(3), of ?w3] by (simp add: b4_def)
  let ?w4 = "?w3 @ [68 + length b4]"
  have s10: "setSize blobPayloadOffsetsOffsetField (part ?w3 @ b4) = Inr (part ?w4 @ b4)"
    using setSize_fwd [OF small [OF le(4)], of blobPayloadOffsetsOffsetField ?w3] by simp
  have s11: "appendStringTable (part ?w4 @ b4) (ms_strings payloads) = Inr (part ?w4 @ b5)"
    using tab [OF ts(4) dvd(4), of ?w4] by (simp add: b5_def)
  let ?w5 = "?w4 @ [68 + length b5]"
  have s12: "setSize blobCandidateRecordsOffsetField (part ?w4 @ b5) = Inr (part ?w5 @ b5)"
    using setSize_fwd [OF small [OF le(5)], of blobCandidateRecordsOffsetField ?w4] by simp
  have s13: "emitCandidates view fresh payloads 0 ?cs (part ?w5 @ b5) = Inr (part ?w5 @ b6)"
    using emitCandidates_fwd [OF rs, of 0] pr by (simp add: b6_def)
  let ?w6 = "?w5 @ [68 + length b6]"
  have s14: "setSize blobPairsOffsetField (part ?w5 @ b6) = Inr (part ?w6 @ b6)"
    using setSize_fwd [OF small [OF le(6)], of blobPairsOffsetField ?w5] by simp
  have s15: "emitPairs view fresh paths fingerprints ?cs (part ?w6 @ b6) = Inr (part ?w6 @ b7)"
    using emitPairs_fwd [OF pss] by (simp add: b7_def)
  let ?w7 = "?w6 @ [68 + length b7]"
  have s16: "setSize blobEndOffsetField (part ?w6 @ b7) = Inr (part ?w7 @ b7)"
    using setSize_fwd [OF small [OF order_refl], of blobEndOffsetField ?w6] by simp
  have fits: "\<not> maxRowBytes < length (part ?w6 @ b7)" using size(1) len7 by simp
  have lay: "part ?w7 @ b7 = layout ?R"
    by (simp add: layout_def part_def fieldsOf_def R off_defs bs r(1) lp add.assoc del: length_concat)
  have "writeShardRow view targets fresh maxRowBytes = Inr (part ?w7 @ b7)"
    unfolding writeShardRow_def Let_def using t
    by (simp only: if_False if_not_P [OF fits] m paths fingerprints payloads ebind_simps c h0 s1 s2 s3 s4 s5 s6 s7 s8 s9 s10 s11 s12 s13 s14 s15 s16
        maxDependencyBlobTargets_def linorder_not_less [THEN iffD2] not_False_eq_True)
  then show ?thesis by (simp only: lay)
qed

text \<open>The sections of the row, computed without writing bytes.\<close>

definition rowParts :: "DependencyBlobView option \<Rightarrow> PlannedTarget list \<Rightarrow> FreshCandidate list \<Rightarrow> cache_error + RowParts" where
  "rowParts view targets fresh =
     (let candidates = concat (map pt_candidates targets)
      in ebind (markCandidates view fresh candidates (initialMarks view)) (\<lambda>m.
         ebind (mergeStrings (countOf pathCount view) (\<lambda>i. Option.bind view (\<lambda>vw. path vw i)) (usedPaths m) (freshPaths m)) (\<lambda>paths.
         ebind (mergeStrings (countOf fingerprintCount view) (\<lambda>i. Option.bind view (\<lambda>vw. fingerprint vw i)) (usedFingerprints m) (freshFingerprints m)) (\<lambda>fingerprints.
         ebind (mergeStrings (countOf payloadCount view) (\<lambda>i. Option.bind view (\<lambda>vw. payload vw i)) (usedPayloads m) (freshPayloads m)) (\<lambda>payloads.
         ebind (mapE (candidateRecord view fresh payloads) candidates) (\<lambda>rs.
         ebind (mapE (candidatePairs view fresh paths fingerprints) candidates) (\<lambda>pss.
           Inr (partsOf targets paths fingerprints payloads rs pss))))))))"

lemma writeShardRow_parts:
  assumes "rowParts view targets fresh = Inr R" "targets \<noteq> []" "length targets \<le> 1024" "offE R \<le> maxRowBytes" "offE R < 2 ^ 32"
  shows "writeShardRow view targets fresh maxRowBytes = Inr (layout R)"
proof -
  let ?cs = "concat (map pt_candidates targets)"
  from assms(1) obtain m paths fingerprints payloads rs pss where
    "markCandidates view fresh ?cs (initialMarks view) = Inr m"
    "mergeStrings (countOf pathCount view) (\<lambda>i. Option.bind view (\<lambda>vw. path vw i)) (usedPaths m) (freshPaths m) = Inr paths"
    "mergeStrings (countOf fingerprintCount view) (\<lambda>i. Option.bind view (\<lambda>vw. fingerprint vw i)) (usedFingerprints m) (freshFingerprints m) = Inr fingerprints"
    "mergeStrings (countOf payloadCount view) (\<lambda>i. Option.bind view (\<lambda>vw. payload vw i)) (usedPayloads m) (freshPayloads m) = Inr payloads"
    "mapE (candidateRecord view fresh payloads) ?cs = Inr rs" "mapE (candidatePairs view fresh paths fingerprints) ?cs = Inr pss"
    and R: "R = partsOf targets paths fingerprints payloads rs pss"
    unfolding rowParts_def Let_def by (elim ebind_InrE) blast
  with assms(2-5) show ?thesis unfolding R by (intro writeShardRow_total) auto
qed

section \<open>A sample\<close>

definition sampleOld :: "TecnixDependencyUpsert list" where
  "sampleOld = [\<lparr>up_target = ''b'', up_dependencies = [\<lparr>de_path = ''x'', de_fingerprint = ''1''\<rparr>], up_payload = ''p''\<rparr>]"

definition sampleNew :: "TecnixDependencyUpsert list" where
  "sampleNew = [\<lparr>up_target = ''b'', up_dependencies = [\<lparr>de_path = ''y'', de_fingerprint = ''1''\<rparr>, \<lparr>de_path = ''x'', de_fingerprint = ''2''\<rparr>], up_payload = ''q''\<rparr>]"

definition oldParts :: RowParts where
  "oldParts = \<lparr>rp_names = [''b''], rp_targets = [(0, 1)], rp_paths = [''x''], rp_fingerprints = [''1''], rp_payloads = [''p''],
     rp_candidates = [(0, 1, 0)], rp_pairs = [(0, 0)]\<rparr>"

definition newParts :: RowParts where
  "newParts = \<lparr>rp_names = [''b''], rp_targets = [(0, 2)], rp_paths = [''x'', ''y''], rp_fingerprints = [''1'', ''2''], rp_payloads = [''p'', ''q''],
     rp_candidates = [(0, 2, 1), (2, 1, 0)], rp_pairs = [(0, 1), (1, 0), (0, 0)]\<rparr>"

definition oldFresh :: "FreshCandidate list" where
  "oldFresh = [\<lparr>fc_target = ''b'', fc_pairs = [(''x'', ''1'')], fc_payload = ''p''\<rparr>]"

definition newFresh :: "FreshCandidate list" where
  "newFresh = [\<lparr>fc_target = ''b'', fc_pairs = [(''x'', ''2''), (''y'', ''1'')], fc_payload = ''q''\<rparr>]"

lemma sample_fresh: "mapE freshCandidate sampleOld = Inr oldFresh" "mapE freshCandidate sampleNew = Inr newFresh"
  by code_simp+

lemma sample_old:
  "planShardRow None oldFresh 2 = Inr [\<lparr>pt_name = ''b'', pt_candidates = [FreshCandidateRef 0]\<rparr>]"
  "rowParts None [\<lparr>pt_name = ''b'', pt_candidates = [FreshCandidateRef 0]\<rparr>] oldFresh = Inr oldParts"
  by code_simp+

lemma sample_ok: "parts_ok oldParts" by code_simp

text \<open>The view of the old row, read through the layout lemmas.\<close>

lemma oldParts_sel:
  "rp_names oldParts = [''b'']" "rp_targets oldParts = [(0, 1)]" "rp_paths oldParts = [''x'']" "rp_fingerprints oldParts = [''1'']"
  "rp_payloads oldParts = [''p'']" "rp_candidates oldParts = [(0, 1, 0)]" "rp_pairs oldParts = [(0, 0)]"
  by (simp_all add: oldParts_def)

lemma sample_view:
  "targetCandidates (viewOf oldParts) 0 = Some (''b'', 0, 1)" "targetCount (viewOf oldParts) = 1" "pathCount (viewOf oldParts) = 1"
  "fingerprintCount (viewOf oldParts) = 1" "payloadCount (viewOf oldParts) = 1" "candidatePayloadValue (viewOf oldParts) 0 = Some ''p''"
  "candidatePayload (viewOf oldParts) 0 = Some 0" "storedCandidatePairs (viewOf oldParts) 0 = Some (0, 1)" "pairIds (viewOf oldParts) 0 = Some (0, 0)"
  "path (viewOf oldParts) 0 = Some ''x''" "fingerprint (viewOf oldParts) 0 = Some ''1''" "payload (viewOf oldParts) 0 = Some ''p''"
  by (simp_all add: targetCandidates_def candidatePayloadValue_def storedCandidatePairs_def pairIds_def viewOf_sel
      layout_strings [OF sample_ok] layout_records [OF sample_ok, of 0] oldParts_sel)

lemma sample_plan: "planShardRow (Some (viewOf oldParts)) newFresh 2 = Inr [\<lparr>pt_name = ''b'', pt_candidates = [FreshCandidateRef 0, StoredCandidate 0]\<rparr>]"
  by (simp add: planShardRow_def planFreshStep_def sample_view newFresh_def lowerBound_def sameCandidate_def at_def Let_def insertAt_def)

lemma sample_sorted: "sort_unique [''q''] = [''q'']" "sort_unique [''2'', ''1''] = [''1'', ''2'']" "sort_unique [''x'', ''y''] = [''x'', ''y'']"
  by code_simp+

lemma sample_new: "rowParts (Some (viewOf oldParts)) [\<lparr>pt_name = ''b'', pt_candidates = [FreshCandidateRef 0, StoredCandidate 0]\<rparr>] newFresh = Inr newParts"
  by (simp add: rowParts_def Let_def initialMarks_def countOf_def markCandidate_def sample_view newFresh_def at_def mergeStrings_def sample_sorted checkedU32_def
      u32Fits_def candidateRecord_def candidatePairs_def idOf_def lowerBound_def mappedId_def unmapped_def partsOf_def newParts_def)

section \<open>Which exceptions are thrown\<close>

definition raisesOnly :: "('e \<Rightarrow> bool) \<Rightarrow> 'e + 'a \<Rightarrow> bool" where
  "raisesOnly P m \<longleftrightarrow> (\<forall>e. m = Inl e \<longrightarrow> P e)"

lemma raisesOnly_simps [simp]: "raisesOnly P (Inl e) \<longleftrightarrow> P e" "raisesOnly P (Inr a)"
  by (auto simp: raisesOnly_def)

lemma raisesOnly_ebind: "raisesOnly P m \<Longrightarrow> (\<And>a. m = Inr a \<Longrightarrow> raisesOnly P (f a)) \<Longrightarrow> raisesOnly P (ebind m f)"
  by (cases m) (auto simp: raisesOnly_def)

lemma raisesOnly_require: "(x = None \<Longrightarrow> P e) \<Longrightarrow> raisesOnly P (require e x)"
  by (cases x) simp_all

lemma raisesOnly_mono: "raisesOnly P m \<Longrightarrow> (\<And>e. P e \<Longrightarrow> Q e) \<Longrightarrow> raisesOnly Q m"
  by (auto simp: raisesOnly_def)

lemma raisesOnly_mapE: "(\<And>x. x \<in> set xs \<Longrightarrow> raisesOnly P (f x)) \<Longrightarrow> raisesOnly P (mapE f xs)"
  by (induction xs) (auto intro!: raisesOnly_ebind)

lemmas raises_intros = raisesOnly_ebind raisesOnly_require

text \<open>A row that does not fit.\<close>

definition sizeError :: "cache_error \<Rightarrow> bool" where
  "sizeError e \<longleftrightarrow> (\<exists>w. e = TooLarge w) \<or> e = TooManyTargets \<or> (\<exists>n m. e = RowTooLarge n m)"

text \<open>What may leave planning and writing: a malformed old row, if there is one, or a size error.\<close>

definition rowError :: "DependencyBlobView option \<Rightarrow> cache_error \<Rightarrow> bool" where
  "rowError view e \<longleftrightarrow> (e = MalformedTecnixCacheRow \<and> view \<noteq> None) \<or> sizeError e"

lemma rowError_simps [simp]: "rowError (Some vw) MalformedTecnixCacheRow" "rowError view (TooLarge w)" "rowError view TooManyTargets" "rowError view (RowTooLarge n k)"
  by (simp_all add: rowError_def sizeError_def)

subsection \<open>Planning\<close>

definition refOk :: "DependencyBlobView option \<Rightarrow> FreshCandidate list \<Rightarrow> CandidateSource \<Rightarrow> bool" where
  "refOk view fresh c \<longleftrightarrow> (case c of FreshCandidateRef i \<Rightarrow> i < length fresh | StoredCandidate _ \<Rightarrow> view \<noteq> None)"

lemma samePairs_raises: "raisesOnly (rowError (Some vw)) (samePairs vw start pairs is)"
  by (induction vw start pairs "is" rule: samePairs.induct) (auto intro!: raises_intros)

lemma sameCandidate_raises: "refOk view fresh c \<Longrightarrow> raisesOnly (rowError view) (sameCandidate view c fresh fr)"
proof (cases c)
  case (FreshCandidateRef i)
  moreover assume "refOk view fresh c"
  ultimately show ?thesis by (simp add: sameCandidate_def refOk_def)
next
  case (StoredCandidate i)
  moreover assume "refOk view fresh c"
  ultimately obtain vw where "view = Some vw" by (auto simp: refOk_def)
  with StoredCandidate show ?thesis by (auto simp: sameCandidate_def intro!: raises_intros samePairs_raises)
qed

lemma historyLoop_nonempty: "historyLoop view fresh fr keep hs cs = Inr hs' \<Longrightarrow> hs \<noteq> [] \<Longrightarrow> hs' \<noteq> []"
  by (induction cs arbitrary: hs) (auto simp: bind_defs split: if_splits)

lemma historyLoop_raises:
  assumes "\<forall>c \<in> set rest. refOk view fresh c"
  shows "raisesOnly (rowError view) (historyLoop view fresh fr keep history rest)"
    and "historyLoop view fresh fr keep history rest = Inr history' \<Longrightarrow> set history' \<subseteq> set history \<union> set rest"
proof -
  show "raisesOnly (rowError view) (historyLoop view fresh fr keep history rest)"
    using assms by (induction view fresh fr keep history rest rule: historyLoop.induct) (auto intro!: raises_intros sameCandidate_raises)
  show "historyLoop view fresh fr keep history rest = Inr history' \<Longrightarrow> set history' \<subseteq> set history \<union> set rest"
  proof (induction view fresh fr keep history rest rule: historyLoop.induct)
    case (2 view fresh fr keep history c rest)
    show ?case
    proof (cases "keep \<le> length history")
      case False
      with "2.prems" obtain same where "historyLoop view fresh fr keep (if same then history else history @ [c]) rest = Inr history'" by (auto simp: bind_defs)
      from "2.IH" [OF False this] show ?thesis by (cases same) auto
    qed (use "2.prems" in auto)
  qed simp
qed

definition refsOk :: "DependencyBlobView option \<Rightarrow> FreshCandidate list \<Rightarrow> PlannedTarget list \<Rightarrow> bool" where
  "refsOk view fresh ps \<longleftrightarrow> (\<forall>p \<in> set ps. \<forall>c \<in> set (pt_candidates p). refOk view fresh c)"

lemma planStored_raises:
  "raisesOnly (rowError (Some vw)) (planStored vw keep ps ks)"
  "planStored vw keep ps ks = Inr ps' \<Longrightarrow> refsOk (Some vw) fresh ps \<Longrightarrow> refsOk (Some vw) fresh ps'"
proof -
  show "raisesOnly (rowError (Some vw)) (planStored vw keep ps ks)"
    by (induction vw keep ps ks rule: planStored.induct) (auto intro!: raises_intros)
  show "planStored vw keep ps ks = Inr ps' \<Longrightarrow> refsOk (Some vw) fresh ps \<Longrightarrow> refsOk (Some vw) fresh ps'"
  proof (induction vw keep ps ks rule: planStored.induct)
    case (2 vw keep ps k ks)
    from "2.prems"(1) obtain name start count where t: "\<not> (ps \<noteq> [] \<and> name \<le> pt_name (last ps))"
        "planStored vw keep (ps @ [\<lparr>pt_name = name, pt_candidates = map (\<lambda>i. StoredCandidate (u32 (start + i))) [0..<min count keep]\<rparr>]) ks = Inr ps'"
      by (auto simp: bind_defs split: if_splits)
    show ?case by (rule "2.IH" [OF t]) (use "2.prems"(2) in \<open>auto simp: refsOk_def refOk_def\<close>)
  qed simp
qed

lemma planFreshStep_raises:
  assumes f: "f < length fresh" and ok: "refsOk view fresh ps"
  shows "raisesOnly (rowError view) (planFreshStep view fresh keep ps f)"
    and "planFreshStep view fresh keep ps f = Inr ps' \<Longrightarrow> refsOk view fresh ps' \<and> concat (map pt_candidates ps') \<noteq> []"
proof -
  let ?n = "fc_target (fresh ! f)"
  define it where "it = lowerBound (\<lambda>e. pt_name e < ?n) ps"
  define qs where "qs = (if it = length ps \<or> pt_name (ps ! it) \<noteq> ?n then insertAt ps it \<lparr>pt_name = ?n, pt_candidates = []\<rparr> else ps)"
  have le: "it \<le> length ps" by (simp add: it_def lowerBound_def length_takeWhile_le)
  have "set qs \<subseteq> insert \<lparr>pt_name = ?n, pt_candidates = []\<rparr> (set ps)"
    by (auto simp: qs_def insertAt_def dest: in_set_takeD in_set_dropD)
  moreover have "it < length qs" using le by (auto simp: qs_def insertAt_def)
  then have "qs ! it \<in> set qs" by (rule nth_mem)
  ultimately have cands: "\<forall>c \<in> set (pt_candidates (qs ! it)). refOk view fresh c" using ok by (fastforce simp: refsOk_def)
  have step: "planFreshStep view fresh keep ps f = ebind (historyLoop view fresh (fresh ! f) keep [FreshCandidateRef f] (pt_candidates (qs ! it)))
      (\<lambda>history. Inr (qs[it := (qs ! it)\<lparr>pt_candidates := history\<rparr>]))"
    unfolding planFreshStep_def at_Some [OF f] require_simps ebind_simps Let_def it_def [symmetric] qs_def [symmetric] by (rule refl)
  show "raisesOnly (rowError view) (planFreshStep view fresh keep ps f)"
    unfolding step by (intro raisesOnly_ebind historyLoop_raises(1) cands) simp
next
  have first: "refOk view fresh (FreshCandidateRef f)" using f by (simp add: refOk_def)
  assume "planFreshStep view fresh keep ps f = Inr ps'"
  from this f show "refsOk view fresh ps' \<and> concat (map pt_candidates ps') \<noteq> []"
  proof (cases rule: planFreshStepE)
    case (old pre e es history)
    then have e: "\<forall>c \<in> set (pt_candidates e). refOk view fresh c" using ok by (simp add: refsOk_def)
    from historyLoop_raises(2) [OF e old(4)] e first have "\<forall>c \<in> set history. refOk view fresh c" by auto
    with ok old(1) show ?thesis unfolding old(5) refsOk_def using historyLoop_nonempty [OF old(4)] by auto
  next
    case (new pre post history)
    from historyLoop_raises(2) [OF _ new(4)] first have "\<forall>c \<in> set history. refOk view fresh c" by auto
    with ok new(1) show ?thesis unfolding new(5) refsOk_def using historyLoop_nonempty [OF new(4)] by auto
  qed
qed

lemma planFresh_raises:
  assumes "\<forall>f \<in> set fs. f < length fresh" "refsOk view fresh ps"
  shows "raisesOnly (rowError view) (planFresh view fresh keep ps fs)"
    and "planFresh view fresh keep ps fs = Inr ps' \<Longrightarrow> refsOk view fresh ps' \<and> (fs \<noteq> [] \<longrightarrow> concat (map pt_candidates ps') \<noteq> [])"
proof -
  show "raisesOnly (rowError view) (planFresh view fresh keep ps fs)"
    using assms by (induction view fresh keep ps fs rule: planFresh.induct) (auto intro!: raisesOnly_ebind planFreshStep_raises(1) dest: planFreshStep_raises(2))
  show "planFresh view fresh keep ps fs = Inr ps' \<Longrightarrow> refsOk view fresh ps' \<and> (fs \<noteq> [] \<longrightarrow> concat (map pt_candidates ps') \<noteq> [])"
    using assms
  proof (induction view fresh keep ps fs rule: planFresh.induct)
    case (2 view fresh keep ps f fs)
    from "2.prems"(1) obtain ps1 where r: "planFreshStep view fresh keep ps f = Inr ps1" "planFresh view fresh keep ps1 fs = Inr ps'" by (auto simp: bind_defs)
    from planFreshStep_raises(2) [OF _ "2.prems"(3) r(1)] "2.prems"(2) have one: "refsOk view fresh ps1" "concat (map pt_candidates ps1) \<noteq> []" by auto
    show ?case
    proof (cases fs)
      case Nil
      with r(2) one show ?thesis by simp
    next
      case (Cons g gs)
      with "2.IH" [OF r(2)] one(1) "2.prems"(2) show ?thesis by simp
    qed
  qed simp
qed

lemma planShardRow_raises:
  shows "raisesOnly (rowError view) (planShardRow view fresh keep)"
    and "planShardRow view fresh keep = Inr ps \<Longrightarrow> refsOk view fresh ps"
    and "planShardRow view fresh keep = Inr ps \<Longrightarrow> fresh \<noteq> [] \<Longrightarrow> concat (map pt_candidates ps) \<noteq> []"
proof -
  let ?stored = "case view of None \<Rightarrow> Inr [] | Some vw \<Rightarrow> planStored vw keep [] [0..<targetCount vw]"
  have r: "raisesOnly (rowError view) ?stored" using planStored_raises(1) by (auto split: option.split)
  have ok: "refsOk view fresh ps0" if "?stored = Inr ps0" for ps0
    using that planStored_raises(2) [of _ keep "[]"] by (auto simp: refsOk_def split: option.splits)
  show "raisesOnly (rowError view) (planShardRow view fresh keep)"
    unfolding planShardRow_def by (intro raisesOnly_ebind r planFresh_raises(1) ok) auto
  assume "planShardRow view fresh keep = Inr ps"
  then obtain ps0 where p: "?stored = Inr ps0" "planFresh view fresh keep ps0 [0..<length fresh] = Inr ps"
    unfolding planShardRow_def by (auto simp: bind_defs)
  from planFresh_raises(2) [OF _ ok [OF p(1)] p(2)] show "refsOk view fresh ps" and "fresh \<noteq> [] \<Longrightarrow> concat (map pt_candidates ps) \<noteq> []"
    by auto
qed

subsection \<open>Marking\<close>

definition sized :: "DependencyBlobView option \<Rightarrow> Marks \<Rightarrow> bool" where
  "sized view m \<longleftrightarrow> length (usedPaths m) = countOf pathCount view \<and> length (usedFingerprints m) = countOf fingerprintCount view \<and>
     length (usedPayloads m) = countOf payloadCount view"

definition grows :: "Marks \<Rightarrow> Marks \<Rightarrow> bool" where
  "grows m m' \<longleftrightarrow> (\<forall>i. at (usedPaths m) i = Some True \<longrightarrow> at (usedPaths m') i = Some True) \<and>
     (\<forall>i. at (usedFingerprints m) i = Some True \<longrightarrow> at (usedFingerprints m') i = Some True) \<and>
     (\<forall>i. at (usedPayloads m) i = Some True \<longrightarrow> at (usedPayloads m') i = Some True) \<and>
     set (freshPaths m) \<subseteq> set (freshPaths m') \<and> set (freshFingerprints m) \<subseteq> set (freshFingerprints m') \<and> set (freshPayloads m) \<subseteq> set (freshPayloads m')"

definition markedPair :: "DependencyBlobView \<Rightarrow> Marks \<Rightarrow> nat \<Rightarrow> bool" where
  "markedPair vw m k \<longleftrightarrow> (\<exists>p q. pairIds vw k = Some (p, q) \<and> at (usedPaths m) p = Some True \<and> at (usedFingerprints m) q = Some True)"

definition marked :: "DependencyBlobView option \<Rightarrow> FreshCandidate list \<Rightarrow> Marks \<Rightarrow> CandidateSource \<Rightarrow> bool" where
  "marked view fresh m c \<longleftrightarrow> (case c of
     FreshCandidateRef i \<Rightarrow> i < length fresh \<and> fst ` set (fc_pairs (fresh ! i)) \<subseteq> set (freshPaths m) \<and>
       snd ` set (fc_pairs (fresh ! i)) \<subseteq> set (freshFingerprints m) \<and> fc_payload (fresh ! i) \<in> set (freshPayloads m)
   | StoredCandidate s \<Rightarrow> (\<exists>vw pid start count. view = Some vw \<and> candidatePayload vw s = Some pid \<and> at (usedPayloads m) pid = Some True \<and>
       storedCandidatePairs vw s = Some (start, count) \<and> (\<forall>i < count. markedPair vw m (u32 (start + i)))))"

lemma grows_refl [simp]: "grows m m" and grows_trans: "grows m1 m2 \<Longrightarrow> grows m2 m3 \<Longrightarrow> grows m1 m3"
  by (auto simp: grows_def)

lemma grows_marked: "grows m m' \<Longrightarrow> marked view fresh m c \<Longrightarrow> marked view fresh m' c"
proof (cases c)
  case (FreshCandidateRef i)
  moreover assume "grows m m'" "marked view fresh m c"
  ultimately show ?thesis unfolding marked_def grows_def by (simp add: subset_iff)
next
  case (StoredCandidate s)
  assume g: "grows m m'" and m: "marked view fresh m c"
  have pair: "markedPair vw m k \<Longrightarrow> markedPair vw m' k" for vw k using g unfolding grows_def markedPair_def by blast
  from g have "at (usedPayloads m) i = Some True \<Longrightarrow> at (usedPayloads m') i = Some True" for i by (simp add: grows_def)
  with m pair show ?thesis unfolding marked_def StoredCandidate by (simp, blast)
qed

lemma at_update: "at (xs[i := True]) j = Some True \<longleftrightarrow> j < length xs \<and> (j = i \<or> xs ! j)"
  by (cases "i = j") (auto simp: at_eq_Some)

lemma markPairs_marked:
  assumes "markPairs vw start ks m = Inr m'" "sized (Some vw) m"
  shows "sized (Some vw) m' \<and> grows m m' \<and> (\<forall>k \<in> set ks. markedPair vw m' (u32 (start + k)))"
  using assms
proof (induction vw start ks m rule: markPairs.induct)
  case (2 vw start k ks m)
  from "2.prems"(1) obtain p q where pq: "pairIds vw (u32 (start + k)) = Some (p, q)"
      "markPairs vw start ks (m\<lparr>usedPaths := (usedPaths m)[p := True], usedFingerprints := (usedFingerprints m)[q := True]\<rparr>) = Inr m'" by (auto simp: bind_defs)
  let ?m = "m\<lparr>usedPaths := (usedPaths m)[p := True], usedFingerprints := (usedFingerprints m)[q := True]\<rparr>"
  from pq(1) have "p < pathCount vw" "q < fingerprintCount vw" by (auto simp: pairIds_def split: bind_splits if_splits)
  then have here: "at (usedPaths ?m) p = Some True" "at (usedFingerprints ?m) q = Some True" and s: "sized (Some vw) ?m"
    using "2.prems"(2) by (simp_all add: sized_def countOf_def at_update)
  have g: "grows m ?m" by (simp add: grows_def at_update) (simp add: at_eq_Some)
  from "2.IH" [OF pq(2) s] have ih: "sized (Some vw) m'" "grows ?m m'" "\<forall>k \<in> set ks. markedPair vw m' (u32 (start + k))" by simp_all
  have "markedPair vw m' (u32 (start + k))" unfolding markedPair_def using pq(1) here ih(2) unfolding grows_def by blast
  with ih grows_trans [OF g ih(2)] show ?case by simp
qed simp

lemma markPairs_raises: "raisesOnly (rowError (Some vw)) (markPairs vw start ks m)"
  by (induction vw start ks m rule: markPairs.induct) (auto intro!: raises_intros)

lemma markCandidate_marked:
  assumes "markCandidate view fresh c m = Inr m'" "sized view m"
  shows "sized view m' \<and> grows m m' \<and> marked view fresh m' c"
proof (cases c)
  case (FreshCandidateRef i)
  with assms show ?thesis by (simp add: markCandidate_def bind_defs at_eq_Some sized_def grows_def marked_def) (elim conjE, hypsubst, simp add: subset_insertI)
next
  case (StoredCandidate s)
  let ?m0 = "m\<lparr>mk_candidateCount := mk_candidateCount m + 1\<rparr>"
  from assms(1) StoredCandidate obtain vw pid start count m1 where v: "view = Some vw" "candidatePayload vw s = Some pid" "pid < payloadCount vw"
      "storedCandidatePairs vw s = Some (start, count)" "markPairs vw start [0..<count] (?m0\<lparr>usedPayloads := (usedPayloads ?m0)[pid := True]\<rparr>) = Inr m1"
      "m' = m1\<lparr>mk_pairCount := mk_pairCount m1 + count\<rparr>"
    by (auto simp: markCandidate_def Let_def bind_defs split: if_splits)
  let ?m = "?m0\<lparr>usedPayloads := (usedPayloads ?m0)[pid := True]\<rparr>"
  have s: "sized (Some vw) ?m" using assms(2) v(1) by (simp add: sized_def)
  have py: "at (usedPayloads ?m) pid = Some True" using assms(2) v(1,3) by (simp add: sized_def countOf_def at_update)
  have g: "grows m ?m" by (simp add: grows_def at_update) (simp add: at_eq_Some)
  note mp = markPairs_marked [OF v(5) s]
  have "at (usedPayloads m1) pid = Some True" using mp py unfolding grows_def by blast
  with v mp have "marked view fresh m' c" by (auto simp: marked_def StoredCandidate markedPair_def)
  moreover have "grows m m'" using grows_trans [OF g] mp by (simp add: v(6) grows_def)
  moreover have "sized view m'" using mp v(1,6) by (simp add: sized_def)
  ultimately show ?thesis by simp
qed

lemma markCandidate_raises: "refOk view fresh c \<Longrightarrow> raisesOnly (rowError view) (markCandidate view fresh c m)"
proof (cases c)
  case (FreshCandidateRef i)
  moreover assume "refOk view fresh c"
  ultimately show ?thesis by (simp add: markCandidate_def refOk_def)
next
  case (StoredCandidate s)
  moreover assume "refOk view fresh c"
  ultimately obtain vw where "view = Some vw" by (auto simp: refOk_def)
  with StoredCandidate show ?thesis by (auto simp: markCandidate_def Let_def intro!: raises_intros markPairs_raises)
qed

lemma markCandidates_marked:
  assumes "markCandidates view fresh cs m = Inr m'" "sized view m"
  shows "sized view m' \<and> grows m m' \<and> (\<forall>c \<in> set cs. marked view fresh m' c)"
  using assms
proof (induction view fresh cs m rule: markCandidates.induct)
  case (2 view fresh c cs m)
  from "2.prems"(1) obtain m1 where m1: "markCandidate view fresh c m = Inr m1" "markCandidates view fresh cs m1 = Inr m'" by (auto simp: bind_defs)
  note one = markCandidate_marked [OF m1(1) "2.prems"(2)]
  from "2.IH" [OF m1(2)] one have ih: "sized view m' \<and> grows m1 m' \<and> (\<forall>c \<in> set cs. marked view fresh m' c)" by simp
  then have "grows m m'" "marked view fresh m' c" using one grows_trans grows_marked by blast+
  with ih show ?case by simp
qed simp

lemma markCandidates_raises: "\<forall>c \<in> set cs. refOk view fresh c \<Longrightarrow> raisesOnly (rowError view) (markCandidates view fresh cs m)"
  by (induction view fresh cs m rule: markCandidates.induct) (auto intro!: raisesOnly_ebind markCandidate_raises)

lemma sized_initial: "sized view (initialMarks view)"
  by (simp add: sized_def initialMarks_def)

subsection \<open>Resolving strings\<close>

lemma mergeLoop_raises: "raisesOnly (rowError (Some vw)) (mergeLoop storedAt used is fresh strings idMap previous)"
proof (induction "is" arbitrary: fresh strings idMap previous)
  case (Cons i "is")
  show ?case unfolding mergeLoop.simps Let_def
    by (intro raisesOnly_ebind raisesOnly_require) (auto intro!: raisesOnly_ebind Cons.IH simp: checkedU32_def)
qed simp

lemma mergeStrings_raises: "raisesOnly (rowError view) (mergeStrings (countOf count view) storedAt used fresh)"
proof (cases view)
  case (Some vw)
  then show ?thesis unfolding mergeStrings_def by (auto intro!: raisesOnly_ebind mergeLoop_raises)
qed (simp add: mergeStrings_def countOf_def)

text \<open>With fewer than \<open>2\<^sup>3\<^sup>2\<close> strings every marked stored id and every fresh string resolves.\<close>

lemma mergeStrings_resolves:
  assumes ms: "mergeStrings n storedAt used fresh = Inr ms" and len: "length (ms_strings ms) < 2 ^ 32" and used: "length used = n"
  shows "at used i = Some True \<Longrightarrow> \<exists>j. mappedId ms i = Inr j" "s \<in> set fresh \<Longrightarrow> \<exists>j. idOf ms s = Inr j"
proof -
  from ms obtain rest strings idMap where
    r: "mergeLoop storedAt used [0..<n] (sort_unique fresh) [] (replicate n unmapped) None = Inr (rest, strings, idMap)"
    and eq: "ms_strings ms = strings @ rest" "ms_storedIdMap ms = idMap" by (auto simp: mergeStrings_def bind_defs)
  have "interleaved None (sort_unique fresh) []" by (simp add: interleaved_def)
  note ok = mergeLoop_ok [OF r this]
  assume "at used i = Some True"
  then have i: "i < n" "used ! i" using used by (auto simp: at_eq_Some)
  then have "placed storedAt strings idMap i" "length idMap = n" using ok by (auto simp: loopOk_def)
  then have "idMap ! i < length (ms_strings ms)" using eq by (simp add: placed_def)
  with len have "idMap ! i \<noteq> unmapped" by (simp add: unmapped_def)
  then show "\<exists>j. mappedId ms i = Inr j" using i(1) \<open>length idMap = n\<close> eq by (simp add: mappedId_def)
next
  assume s: "s \<in> set fresh"
  note ok = mergeStrings_ok [OF ms]
  let ?xs = "ms_strings ms" let ?k = "length (takeWhile (\<lambda>x. x < s) ?xs)"
  have "s \<in> set ?xs" using ok(2) s by blast
  then have ne: "dropWhile (\<lambda>x. x < s) ?xs \<noteq> []" by (auto simp: dropWhile_eq_Nil_conv)
  then have lt: "?k < length ?xs" by (metis length_append length_greater_0_conv less_add_same_cancel1 takeWhile_dropWhile_id)
  have nth: "?xs ! ?k = hd (dropWhile (\<lambda>x. x < s) ?xs)" by (metis hd_conv_nth append_Nil2 lt ne nth_append_length_plus takeWhile_dropWhile_id add_0_right)
  have "s \<in> set (dropWhile (\<lambda>x. x < s) ?xs)"
    using \<open>s \<in> set ?xs\<close> by (metis UnE less_irrefl set_append set_takeWhileD takeWhile_dropWhile_id)
  then have "hd (dropWhile (\<lambda>x. x < s) ?xs) \<le> s"
    using sorted_wrt_take_dropWhile(3) [OF ok(1), of s] by (cases "dropWhile (\<lambda>x. x < s) ?xs") (auto simp: less_imp_le)
  moreover have "s \<le> hd (dropWhile (\<lambda>x. x < s) ?xs)" using sorted_wrt_take_dropWhile(1) [OF ok(1), of s] ne by simp
  ultimately have "?xs ! ?k = s" using nth by simp
  with lt show "\<exists>j. idOf ms s = Inr j" by (simp add: idOf_def lowerBound_def Let_def)
qed

subsection \<open>Writing\<close>

lemma setCount_raises: "raisesOnly (rowError view) (setCount f n what out)"
  and setSize_raises: "raisesOnly (rowError view) (setSize f out)"
  by (auto simp: setCount_def setSize_def checkedU32_def)

lemma appendStringTable_raises: "raisesOnly (rowError view) (appendStringTable out vs)"
proof -
  have "raisesOnly (rowError view) (tableOffsets n vs)" for n
    by (induction vs arbitrary: n) (auto intro!: raisesOnly_ebind)
  then show ?thesis by (auto simp: appendStringTable_def intro!: raisesOnly_ebind)
qed

lemma emitTargets_raises: "raisesOnly (rowError view) (emitTargets n ts out)"
  by (induction n ts out rule: emitTargets.induct) (auto intro!: raisesOnly_ebind simp: checkedU32_def)

text \<open>The three string tables of a row resolve everything that was marked.\<close>

definition resolving :: "Marks \<Rightarrow> MergedStrings \<Rightarrow> MergedStrings \<Rightarrow> MergedStrings \<Rightarrow> bool" where
  "resolving m paths fingerprints payloads \<longleftrightarrow>
     (\<forall>i. at (usedPaths m) i = Some True \<longrightarrow> (\<exists>j. mappedId paths i = Inr j)) \<and> (\<forall>s \<in> set (freshPaths m). \<exists>j. idOf paths s = Inr j) \<and>
     (\<forall>i. at (usedFingerprints m) i = Some True \<longrightarrow> (\<exists>j. mappedId fingerprints i = Inr j)) \<and> (\<forall>s \<in> set (freshFingerprints m). \<exists>j. idOf fingerprints s = Inr j) \<and>
     (\<forall>i. at (usedPayloads m) i = Some True \<longrightarrow> (\<exists>j. mappedId payloads i = Inr j)) \<and> (\<forall>s \<in> set (freshPayloads m). \<exists>j. idOf payloads s = Inr j)"

lemma candidateRecord_raises:
  assumes "marked view fresh m c" "resolving m paths fingerprints payloads"
  shows "raisesOnly (rowError view) (candidateRecord view fresh payloads c)"
proof (cases c)
  case (FreshCandidateRef i)
  with assms obtain j where "i < length fresh" "idOf payloads (fc_payload (fresh ! i)) = Inr j" by (auto simp: marked_def resolving_def)
  with FreshCandidateRef show ?thesis by (auto simp: candidateRecord_def checkedU32_def)
next
  case (StoredCandidate s)
  with assms(1) obtain vw pid start count where v: "view = Some vw" "candidatePayload vw s = Some pid" "at (usedPayloads m) pid = Some True"
      "storedCandidatePairs vw s = Some (start, count)" by (auto simp: marked_def)
  with assms(2) obtain j where "mappedId payloads pid = Inr j" unfolding resolving_def by blast
  with v StoredCandidate show ?thesis by (simp add: candidateRecord_def)
qed

lemma candidatePairs_raises:
  assumes "marked view fresh m c" "resolving m paths fingerprints payloads"
  shows "raisesOnly (rowError view) (candidatePairs view fresh paths fingerprints c)"
proof (cases c)
  case (FreshCandidateRef i)
  with assms have i: "i < length fresh" "\<forall>p \<in> set (fc_pairs (fresh ! i)). (\<exists>j. idOf paths (fst p) = Inr j) \<and> (\<exists>j. idOf fingerprints (snd p) = Inr j)"
    unfolding marked_def resolving_def by auto
  with FreshCandidateRef show ?thesis by (fastforce simp: candidatePairs_def intro!: raisesOnly_mapE)
next
  case (StoredCandidate s)
  with assms(1) obtain vw start count where v: "view = Some vw" "storedCandidatePairs vw s = Some (start, count)"
      "\<forall>i < count. markedPair vw m (u32 (start + i))" by (auto simp: marked_def)
  have "\<exists>p q a b. pairIds vw (u32 (start + i)) = Some (p, q) \<and> mappedId paths p = Inr a \<and> mappedId fingerprints q = Inr b" if "i < count" for i
  proof -
    from v(3) that obtain p q where pq: "pairIds vw (u32 (start + i)) = Some (p, q)" "at (usedPaths m) p = Some True" "at (usedFingerprints m) q = Some True"
      unfolding markedPair_def by blast
    with assms(2) show ?thesis unfolding resolving_def by blast
  qed
  with v(1,2) StoredCandidate show ?thesis by (fastforce simp: candidatePairs_def intro!: raisesOnly_mapE)
qed

lemma emitCandidates_raises:
  "(\<And>c. c \<in> set cs \<Longrightarrow> raisesOnly P (candidateRecord view fresh payloads c)) \<Longrightarrow> raisesOnly P (emitCandidates view fresh payloads n cs out)"
  by (induction cs arbitrary: n out) (auto intro!: raisesOnly_ebind)

lemma emitPairs_raises:
  "(\<And>c. c \<in> set cs \<Longrightarrow> raisesOnly P (candidatePairs view fresh paths fingerprints c)) \<Longrightarrow> raisesOnly P (emitPairs view fresh paths fingerprints cs out)"
  by (induction cs arbitrary: out) (auto intro!: raisesOnly_ebind)

lemma setCount_Inr: "setCount f n what out = Inr out' \<Longrightarrow> n < 2 ^ 32"
  by (auto simp: setCount_def checkedU32_def u32Fits_def bind_defs split: if_splits)

lemma writeShardRow_raises:
  assumes refs: "refsOk view fresh targets" and ne: "targets \<noteq> []"
  shows "raisesOnly (rowError view) (writeShardRow view targets fresh maxRowBytes)"
proof -
  let ?cs = "concat (map pt_candidates targets)"
  have cs: "\<forall>c \<in> set ?cs. refOk view fresh c" using refs by (auto simp: refsOk_def)
  have res: "resolving m paths fingerprints payloads \<and> (\<forall>c \<in> set ?cs. marked view fresh m c)"
    if m: "markCandidates view fresh ?cs (initialMarks view) = Inr m"
      and p: "mergeStrings (countOf pathCount view) sp (usedPaths m) (freshPaths m) = Inr paths" "length (ms_strings paths) < 2 ^ 32"
      and f: "mergeStrings (countOf fingerprintCount view) sf (usedFingerprints m) (freshFingerprints m) = Inr fingerprints" "length (ms_strings fingerprints) < 2 ^ 32"
      and y: "mergeStrings (countOf payloadCount view) sy (usedPayloads m) (freshPayloads m) = Inr payloads" "length (ms_strings payloads) < 2 ^ 32"
    for m sp sf sy paths fingerprints payloads
  proof -
    from markCandidates_marked [OF m sized_initial] have s: "sized view m" "\<forall>c \<in> set ?cs. marked view fresh m c" by blast+
    from s(1) have "resolving m paths fingerprints payloads" unfolding resolving_def sized_def
      using mergeStrings_resolves [OF p] mergeStrings_resolves [OF f] mergeStrings_resolves [OF y] by blast
    with s(2) show ?thesis by blast
  qed
  show ?thesis
    unfolding writeShardRow_def Let_def using ne
    apply (simp only: if_False)
    apply (split if_split, intro conjI impI, simp)
    apply (rule raisesOnly_ebind [OF markCandidates_raises [OF cs]])
    apply (rule raisesOnly_ebind [OF mergeStrings_raises])+
    apply (rule raisesOnly_ebind [OF setCount_raises])+
    subgoal premises q for m paths fingerprints payloads o1 o2 o3 o4 o5 o6
    proof -
      note r = res [OF q(3,4) setCount_Inr [OF q(8)] q(5) setCount_Inr [OF q(9)] q(6) setCount_Inr [OF q(10)]]
      have rec: "raisesOnly (rowError view) (emitCandidates view fresh payloads n ?cs out)" for n out
        by (rule emitCandidates_raises) (use r candidateRecord_raises in blast)
      have prs: "raisesOnly (rowError view) (emitPairs view fresh paths fingerprints ?cs out)" for out
        by (rule emitPairs_raises) (use r candidatePairs_raises in blast)
      show ?thesis
        by (intro raisesOnly_ebind setSize_raises appendStringTable_raises emitTargets_raises rec prs) (simp add: setSize_raises)
    qed
    done
qed

subsection \<open>The shape of a plan, whatever the old row holds\<close>

definition shaped :: "nat \<Rightarrow> PlannedTarget list \<Rightarrow> bool" where
  "shaped keep ps \<longleftrightarrow> sorted_wrt (<) (map pt_name ps) \<and> (\<forall>p \<in> set ps. length (pt_candidates p) \<le> keep)"

lemma historyLoop_bound: "historyLoop view fresh fr keep hs cs = Inr hs' \<Longrightarrow> length hs \<le> keep \<Longrightarrow> length hs' \<le> keep"
  by (induction cs arbitrary: hs) (auto simp: bind_defs split: if_splits)

lemma planFreshStep_shaped:
  assumes step: "planFreshStep view fresh keep ps f = Inr ps'" and f: "f < length fresh" and keep: "0 < keep" and s: "shaped keep ps"
  shows "shaped keep ps'"
  using step f
proof (cases rule: planFreshStepE)
  case (old pre e es history)
  from historyLoop_bound [OF old(4)] keep s show ?thesis by (auto simp: old(1,5) shaped_def sorted_wrt_append)
next
  case (new pre post history)
  have "\<forall>d \<in> set post. fc_target (fresh ! f) < pt_name d"
  proof (cases post)
    case (Cons e es)
    with s new(1,2) show ?thesis by (fastforce simp: shaped_def sorted_wrt_append)
  qed simp
  with historyLoop_bound [OF new(4)] keep s new(3) show ?thesis by (auto simp: new(1,5) shaped_def sorted_wrt_append)
qed

lemma planStored_shaped:
  assumes "planStored vw keep ps ks = Inr ps'" "shaped keep ps"
  shows "shaped keep ps'"
  using assms
proof (induction vw keep ps ks rule: planStored.induct)
  case (2 vw keep ps k ks)
  from "2.prems"(1) obtain name start count where t: "\<not> (ps \<noteq> [] \<and> name \<le> pt_name (last ps))"
      "planStored vw keep (ps @ [\<lparr>pt_name = name, pt_candidates = map (\<lambda>i. StoredCandidate (u32 (start + i))) [0..<min count keep]\<rparr>]) ks = Inr ps'"
    by (auto simp: bind_defs split: if_splits)
  have "x < name" if "x \<in> set (map pt_name ps)" for x
  proof -
    have "x \<le> pt_name (last ps)" using that "2.prems"(2)
      by (cases ps rule: rev_cases) (auto simp: shaped_def sorted_wrt_append less_imp_le)
    with that t(1) show ?thesis by (cases ps) auto
  qed
  with "2.prems"(2) show ?case by (intro "2.IH" [OF t]) (auto simp: shaped_def sorted_wrt_append)
qed simp

lemma planShardRow_shaped:
  assumes "planShardRow view fresh keep = Inr ps" "0 < keep"
  shows "shaped keep ps"
proof -
  have fr: "planFresh view fresh keep qs fs = Inr qs' \<Longrightarrow> \<forall>f \<in> set fs. f < length fresh \<Longrightarrow> shaped keep qs \<Longrightarrow> shaped keep qs'" for qs fs qs'
    by (induction fs arbitrary: qs) (auto simp: bind_defs dest: planFreshStep_shaped [OF _ _ assms(2)])
  from assms(1) obtain ps0 where r: "(case view of None \<Rightarrow> Inr [] | Some vw \<Rightarrow> planStored vw keep [] [0..<targetCount vw]) = Inr ps0"
      "planFresh view fresh keep ps0 [0..<length fresh] = Inr ps" by (auto simp: planShardRow_def bind_defs)
  have "shaped keep ps0" using r(1) by (auto simp: shaped_def split: option.splits dest!: planStored_shaped)
  with fr [OF r(2)] show ?thesis by auto
qed

lemma planned_shaped: "planned view fresh ps row \<Longrightarrow> shaped keep ps \<Longrightarrow> wf_row keep row"
  using planned_names [of view fresh ps row] unfolding wf_row_def shaped_def planned_def
  by (auto simp: list_all2_conv_all_nth meantTarget_Some in_set_conv_nth) (metis list_all2_lengthD nth_mem)


section \<open>The theorems on merging\<close>

lemma mapE_nonempty: "mapE f xs = Inr ys \<Longrightarrow> xs \<noteq> [] \<Longrightarrow> ys \<noteq> []"
  by (auto simp: mapE_Inr_iff)

lemma mergedShardRow_None:
  "mergedShardRow None updates historyLimit maxRowBytes = ebind (mapE freshCandidate updates) (\<lambda>fresh. freshRow fresh (max historyLimit 1) maxRowBytes Fresh)"
  by (simp add: mergedShardRow_def)

lemma mergedShardRow_Merged:
  assumes "mapE freshCandidate updates = Inr fresh" "openBlob b = Some vw" "planShardRow (Some vw) fresh (max historyLimit 1) = Inr targets"
    "length targets \<le> 1024" "writeShardRow (Some vw) targets fresh maxRowBytes = Inr out"
  shows "mergedShardRow (Some b) updates historyLimit maxRowBytes = Inr (Merged, out)"
  using assms by (simp add: mergedShardRow_def maxDependencyBlobTargets_def)

lemma sample_keep: "max 2 (Suc 0) = (2::nat)"
  by simp

lemma sample_rows:
  "mergedShardRow None sampleOld 2 1000 = Inr (Fresh, layout oldParts)"
  "mergedShardRow (Some (layout oldParts)) sampleNew 2 1000 = Inr (Merged, layout newParts)"
proof -
  have size: "offE oldParts \<le> 1000" "offE newParts \<le> 1000" by code_simp+
  show "mergedShardRow None sampleOld 2 1000 = Inr (Fresh, layout oldParts)"
    using writeShardRow_parts [OF sample_old(2), of 1000] size by (simp add: mergedShardRow_None sample_fresh freshRow_def sample_old(1) sample_keep del: max_numeral_Suc)
  show "mergedShardRow (Some (layout oldParts)) sampleNew 2 1000 = Inr (Merged, layout newParts)"
    using writeShardRow_parts [OF sample_new, of 1000] size sample_plan
    by (intro mergedShardRow_Merged [OF sample_fresh(2) open_layout [OF sample_ok]]) (simp_all add: sample_keep del: max_numeral_Suc)
qed

lemma sample_decoded:
  "decodeTecnixDependencyRow (layout oldParts) = Some [\<lparr>tg_target = ''b'', tg_candidates = [candidateOf (oldFresh ! 0)]\<rparr>]"
proof -
  have "freshRow oldFresh 2 1000 Fresh = Inr (Fresh, layout oldParts)"
    using sample_rows(1) by (simp add: mergedShardRow_None sample_fresh sample_keep del: max_numeral_Suc)
  from freshRow_decodes(2) [OF this] show ?thesis by (simp add: learnAll_def oldFresh_def)
qed

text \<open>
  C4: merging fresh closures into a readable row implements the specification on bytes: the returned
  row decodes to the old row with its histories cut to the bound and every fresh closure learned in
  order, whatever ids, string tables and remaps the two rows use.
\<close>
theorem merge_learns:
  assumes "mergedShardRow (Some old) updates historyLimit maxRowBytes = Inr (Merged, out)" "updates \<noteq> []"
    and "mapE freshCandidate updates = Inr fresh" "decodeTecnixDependencyRow old = Some row"
  shows "decodeTecnixDependencyRow out = Some (learnAll (max historyLimit 1) fresh (trimRow (max historyLimit 1) row))"
  using assms(1)
proof (cases rule: mergedShardRow_cases)
  case (2 fresh' b vw ps)
  with assms(3) mapE_nonempty [OF assms(3,2)] have f: "fresh' = fresh" "fresh \<noteq> []" "b = old" by simp_all
  from 2(4) assms(4) f have d: "decodeView vw = Some row" by (simp add: decodeTecnixDependencyRow_def)
  show ?thesis
    by (rule written_row [where view = "Some vw"]) (use 2 f d in auto)
qed simp

theorem merge_learns_witness:
  "mergedShardRow (Some (layout oldParts)) sampleNew 2 1000 = Inr (Merged, layout newParts) \<and>
   decodeTecnixDependencyRow (layout newParts) = Some [\<lparr>tg_target = ''b'',
     tg_candidates = [\<lparr>cd_dependencies = [\<lparr>de_path = ''x'', de_fingerprint = ''2''\<rparr>, \<lparr>de_path = ''y'', de_fingerprint = ''1''\<rparr>], cd_payload = ''q''\<rparr>,
       \<lparr>cd_dependencies = [\<lparr>de_path = ''x'', de_fingerprint = ''1''\<rparr>], cd_payload = ''p''\<rparr>]\<rparr>]"
  using merge_learns [OF sample_rows(2) _ sample_fresh(2) sample_decoded] sample_rows(2)
  by (simp add: sampleNew_def learnAll_def newFresh_def oldFresh_def trimRow_def candidateOf_def entryOf_def learnCandidate_def)

text \<open>
  When there is no old row, or it is unreadable, of another version, or full, the returned row
  holds exactly the fresh closures: nothing of unreadable bytes survives.
\<close>
theorem merge_replaces:
  assumes "mergedShardRow existing updates historyLimit maxRowBytes = Inr (outcome, out)" "outcome \<noteq> Merged" "updates \<noteq> []"
    and "mapE freshCandidate updates = Inr fresh"
  shows "decodeTecnixDependencyRow out = Some (learnAll (max historyLimit 1) fresh [])"
  using assms(1)
proof (cases rule: mergedShardRow_cases)
  case (1 fresh')
  then show ?thesis using freshRow_decodes(2) [of fresh' _ maxRowBytes outcome outcome out] mapE_nonempty [OF assms(4,3)] assms(4) by simp
qed (use assms(2) in simp)

theorem merge_replaces_witness:
  "mergedShardRow (Some ''junk'') sampleOld 2 1000 = Inr (ReplacedUnreadable, layout oldParts) \<and>
   decodeTecnixDependencyRow (layout oldParts) = Some [\<lparr>tg_target = ''b'', tg_candidates = [candidateOf (oldFresh ! 0)]\<rparr>]"
proof -
  have "mergedShardRow (Some ''junk'') sampleOld 2 1000 = ebind (mapE freshCandidate sampleOld) (\<lambda>fresh. freshRow fresh 2 1000 ReplacedUnreadable)"
    by (simp add: mergedShardRow_def openBlob_def declaredVersion_def dependencyBlobHeaderSize_def dependencyBlobFieldCount_def sample_keep del: max_numeral_Suc)
  also have "\<dots> = Inr (ReplacedUnreadable, layout oldParts)"
    using sample_rows(1) by (auto simp: mergedShardRow_None sample_fresh freshRow_def bind_defs sample_keep simp del: max_numeral_Suc)
  finally have m: "mergedShardRow (Some ''junk'') sampleOld 2 1000 = Inr (ReplacedUnreadable, layout oldParts)" .
  with merge_replaces [OF m _ _ sample_fresh(1)] show ?thesis by (simp add: sampleOld_def learnAll_def oldFresh_def)
qed

text \<open>
  C9: every row a merge returns, also over old bytes that are malformed or hostile, opens and decodes,
  has between one and 1024 targets in strictly increasing name order, keeps every history within the
  bound, and respects the byte limit.
\<close>
theorem merge_invariant:
  assumes "mergedShardRow existing updates historyLimit maxRowBytes = Inr (outcome, out)" "updates \<noteq> []"
  shows "\<exists>row. decodeTecnixDependencyRow out = Some row \<and> wf_row (max historyLimit 1) row \<and> row \<noteq> [] \<and> length row \<le> 1024 \<and> length out \<le> maxRowBytes"
proof -
  let ?keep = "max historyLimit 1"
  obtain view fresh ps where v: "planShardRow view fresh ?keep = Inr ps" "writeShardRow view ps fresh maxRowBytes = Inr out" "fresh \<noteq> []"
    using assms(1)
  proof (cases rule: mergedShardRow_cases)
    case (1 fresh)
    then show thesis using that mapE_nonempty [OF 1(1) assms(2)] by (auto simp: freshRow_def bind_defs)
  next
    case (2 fresh b vw ps)
    then show thesis using that mapE_nonempty [OF 2(1) assms(2)] by blast
  qed
  note w = writeShardRow_decodes [OF v(2) planShardRow_raises(3) [OF v(1,3)]]
  from w(2) obtain row where row: "those (map (meantTarget view fresh) ps) = Some row" by blast
  then have p: "planned view fresh ps row" by (simp add: planned_those)
  have "wf_row ?keep row" using planned_shaped [OF p planShardRow_shaped [OF v(1)]] by simp
  moreover have "length row = length ps" using p by (simp add: planned_def list_all2_lengthD)
  moreover have "ps \<noteq> []" "length ps \<le> 1024" using v(2) by (auto simp: writeShardRow_def maxDependencyBlobTargets_def split: if_splits)
  ultimately show ?thesis using w(1,3) row by (intro exI [of _ row]) auto
qed

theorem merge_invariant_witness:
  "\<exists>row. decodeTecnixDependencyRow (layout newParts) = Some row \<and> wf_row (max 2 1) row \<and> row \<noteq> [] \<and> length row \<le> 1024 \<and> length (layout newParts) \<le> 1000"
  using merge_invariant [OF sample_rows(2)] by (simp add: sampleNew_def)

text \<open>
  C21: the exceptions of a merge. Only two paths with different fingerprints in one closure, or a row
  that does not fit its bounds, can make it fail; the guards of the writer's internal invariants
  (a string without an id, an id that was not carried over, a row without targets) never fire, and a
  malformed old row is never an error.
\<close>
theorem merge_errors:
  assumes "mergedShardRow existing updates historyLimit maxRowBytes = Inl e" "updates \<noteq> []"
  shows "(\<exists>u \<in> set updates. \<exists>d \<in> set (up_dependencies u). \<exists>d' \<in> set (up_dependencies u).
      de_path d = de_path d' \<and> de_fingerprint d \<noteq> de_fingerprint d' \<and> e = ConflictingFingerprints (de_path d)) \<or> sizeError e"
proof (cases "mapE freshCandidate updates")
  case (Inl e')
  then have e: "e' = e" using assms(1) by (simp add: mergedShardRow_def)
  have "mapE freshCandidate us = Inl e \<Longrightarrow> \<exists>u \<in> set us. freshCandidate u = Inl e" for us
    by (induction us) (auto simp: ebind_def split: sum.splits)
  with Inl e obtain u where u: "u \<in> set updates" "freshCandidate u = Inl e" by blast
  from u(2) have "dedupePairs [] (sort (map (\<lambda>d. (de_path d, de_fingerprint d)) (up_dependencies u))) = Inl e"
    by (auto simp: freshCandidate_def ebind_def split: sum.splits)
  from dedupePairs_conflict [OF this] u(1) show ?thesis by fastforce
next
  case (Inr fresh)
  let ?keep = "max historyLimit 1"
  have ne: "fresh \<noteq> []" using mapE_nonempty [OF Inr assms(2)] .
  have wr: "raisesOnly (rowError view) (writeShardRow view ps fresh maxRowBytes)" if "planShardRow view fresh ?keep = Inr ps" for view ps
    by (rule writeShardRow_raises) (use planShardRow_raises(2,3) [OF that] ne in auto)
  have fr: "raisesOnly sizeError (freshRow fresh ?keep maxRowBytes oc)" for oc
    by (rule raisesOnly_mono [of "rowError None"]) (auto simp: freshRow_def rowError_def [of None] intro!: raisesOnly_ebind planShardRow_raises(1) wr
        elim: raisesOnly_mono)
  have mg: "raisesOnly (rowError (Some vw)) (ebind (planShardRow (Some vw) fresh ?keep) (\<lambda>targets.
      if length targets \<le> maxDependencyBlobTargets then ebind (writeShardRow (Some vw) targets fresh maxRowBytes) (\<lambda>out. Inr (Some out)) else Inr None))" for vw
    by (auto intro!: raisesOnly_ebind planShardRow_raises(1) wr)
  have "sizeError e"
    using assms(1) fr mg Inr unfolding mergedShardRow_def Inr ebind_simps Let_def
    by (auto simp: raisesOnly_def rowError_def split: option.splits sum.splits cache_error.splits)
  then show ?thesis ..
qed

theorem merge_errors_witness:
  "mergedShardRow None [\<lparr>up_target = ''t'', up_dependencies = [\<lparr>de_path = ''x'', de_fingerprint = ''1''\<rparr>, \<lparr>de_path = ''x'', de_fingerprint = ''2''\<rparr>], up_payload = ''''\<rparr>] 2 1000
     = Inl (ConflictingFingerprints ''x'') \<and> \<not> sizeError (ConflictingFingerprints ''x'')"
proof -
  let ?u = "\<lparr>up_target = ''t'', up_dependencies = [\<lparr>de_path = ''x'', de_fingerprint = ''1''\<rparr>, \<lparr>de_path = ''x'', de_fingerprint = ''2''\<rparr>], up_payload = ''''\<rparr>"
  have f: "freshCandidate ?u = Inl (ConflictingFingerprints ''x'')" by code_simp
  have "mergedShardRow None [?u] 2 1000 = Inl (ConflictingFingerprints ''x'')" by (simp add: mergedShardRow_None f)
  with merge_errors [OF this] show ?thesis by (auto simp: sizeError_def)
qed

end
