(* ===== verification/Canon_Path.thy ===== *)
theory Canon_Path
  imports Tx_Prelude "HOL-Library.Sublist"
begin

text \<open>
  Canonical paths (\<^verbatim>\<open>src/libutil/canon-path.cc\<close>, \<^verbatim>\<open>canon-path.hh\<close>, and the algorithm
  \<^verbatim>\<open>canonPathInner\<close> of \<^verbatim>\<open>file-path-impl.hh\<close> on Unix paths). A \<^verbatim>\<open>CanonPath\<close> is its only field, a
  byte string; the specification is the list of its components. Exceptions are \<open>BadCanonPath\<close> and
  \<open>OutOfRange\<close>, a failed \<^verbatim>\<open>assert\<close> is \<open>Aborted\<close>. Bytes are compared as the code compares them, as
  values of the signed type \<^verbatim>\<open>char\<close>. A \<^verbatim>\<open>std::set\<close> of paths is the list of its elements in the
  order of \<^verbatim>\<open>operator<=>\<close>.
\<close>

section \<open>Data\<close>

type_synonym CanonPath = bytes

datatype CanonError = BadCanonPath bytes | OutOfRange | Aborted

abbreviation SLASH :: char where
  "SLASH \<equiv> CHR ''/''"

abbreviation NUL :: char where
  "NUL \<equiv> CHR 0x00"

text \<open>\<^verbatim>\<open>rfind(c)\<close>: the position of the last occurrence.\<close>

definition rfind :: "char \<Rightarrow> bytes \<Rightarrow> nat option" where
  "rfind c s = (case breakOn c (rev s) of None \<Rightarrow> None | Some (_, b) \<Rightarrow> Some (length b))"

section \<open>Canonicalisation\<close>

text \<open>
  The loop of \<^verbatim>\<open>canonPathInner\<close>, on the text still to read and the result so far. \<^verbatim>\<open>erase\<close> at a
  position past the end throws.
\<close>

lemma drop_shorter:
  "dropWhile P xs \<noteq> [] \<Longrightarrow> 0 < k \<Longrightarrow> length (dropWhile P xs) - k < length xs"
  using length_dropWhile_le [of P xs] by (cases "dropWhile P xs") auto

function canonLoop :: "bytes \<Rightarrow> bytes \<Rightarrow> CanonError + bytes" where
  "canonLoop remaining res =
     (let rem = dropWhile (\<lambda>c. c = SLASH) remaining; nextComp = takeWhile (\<lambda>c. c \<noteq> SLASH) rem in
      if rem = [] then Inr res
      else if nextComp = ''.'' then canonLoop (drop 1 rem) res
      else if nextComp = ''..'' then
        (if res = [] then canonLoop (drop 2 rem) res
         else case rfind SLASH res of
           None \<Rightarrow> Inl OutOfRange
         | Some i \<Rightarrow> canonLoop (drop 2 rem) (take i res))
      else canonLoop (dropWhile (\<lambda>c. c \<noteq> SLASH) rem) (res @ SLASH # nextComp))"
  by pat_completeness auto
termination
proof (relation "measure (\<lambda>(remaining, res). length remaining)", goal_cases)
  case (5 remaining res rem nextComp)
  have "rem \<noteq> []" "hd rem \<noteq> SLASH" using 5 hd_dropWhile [of "\<lambda>c. c = SLASH" remaining] by auto
  then have "length (dropWhile (\<lambda>c. c \<noteq> SLASH) rem) < length rem"
    by (cases rem) (auto simp: less_Suc_eq_le length_dropWhile_le)
  also have "\<dots> \<le> length remaining" using 5 by (simp add: length_dropWhile_le)
  finally show ?case by simp
qed (auto simp: Let_def simp del: dropWhile_eq_Nil_conv intro!: drop_shorter)

declare canonLoop.simps [simp del]

definition canonPathInner :: "bytes \<Rightarrow> CanonError + bytes" where
  "canonPathInner remaining =
     (if remaining = [] then Inl Aborted
      else ebind (canonLoop remaining []) (\<lambda>res. Inr (if res = [] then [SLASH] else res)))"

definition ensureNoNullBytes :: "bytes \<Rightarrow> CanonError + unit" where
  "ensureNoNullBytes s = (if NUL \<in> set s then Inl (BadCanonPath s) else Inr ())"

section \<open>Operations\<close>

definition newCanonPath :: "bytes \<Rightarrow> CanonError + CanonPath" where
  "newCanonPath raw = ebind (canonPathInner (SLASH # raw)) (\<lambda>p. ebind (ensureNoNullBytes raw) (\<lambda>_. Inr p))"

definition newCanonPathAt :: "bytes \<Rightarrow> CanonPath \<Rightarrow> CanonError + CanonPath" where
  "newCanonPathAt raw root =
     ebind (canonPathInner (if length raw > 0 \<and> raw ! 0 = SLASH then raw else root @ SLASH # raw)) (\<lambda>p.
       ebind (ensureNoNullBytes raw) (\<lambda>_. Inr p))"

definition rootPath :: CanonPath where
  "rootPath = ''/''"

definition isRoot :: "CanonPath \<Rightarrow> bool" where
  "isRoot p = (length p \<le> 1)"

definition absOrEmpty :: "CanonPath \<Rightarrow> bytes" where
  "absOrEmpty p = (if isRoot p then [] else p)"

definition rel :: "CanonPath \<Rightarrow> bytes" where
  "rel p = drop 1 p"

text \<open>The iterator is the text that remains; it is at the end when nothing remains.\<close>

definition deref :: "bytes \<Rightarrow> bytes" where
  "deref remaining = takeWhile (\<lambda>c. c \<noteq> SLASH) remaining"

definition advance :: "bytes \<Rightarrow> bytes" where
  "advance remaining = (case breakOn SLASH remaining of None \<Rightarrow> [] | Some (_, r) \<Rightarrow> r)"

lemma advance_length: "remaining \<noteq> [] \<Longrightarrow> length (advance remaining) < length remaining"
  by (auto simp: advance_def split: option.split dest: breakOn_length)

function elements :: "bytes \<Rightarrow> bytes list" where
  "elements remaining = (if remaining = [] then [] else deref remaining # elements (advance remaining))"
  by pat_completeness auto
termination
  by (relation "measure length") (auto simp: advance_length)

declare elements.simps [simp del]

definition fromFilename :: "bytes \<Rightarrow> CanonError + CanonPath" where
  "fromFilename segment =
     ebind (newCanonPath segment) (\<lambda>res.
       if segment \<noteq> rel res \<or> length (elements (rel res)) \<noteq> 1 then Inl (BadCanonPath segment) else Inr res)"

definition parent :: "CanonPath \<Rightarrow> CanonPath option" where
  "parent p =
     (if isRoot p then None
      else Some (take (max 1 (case rfind SLASH p of Some i \<Rightarrow> i | None \<Rightarrow> length p)) p))"

definition pop :: "CanonPath \<Rightarrow> CanonError + CanonPath" where
  "pop p =
     (if isRoot p then Inl Aborted
      else case rfind SLASH p of
        Some i \<Rightarrow> Inr (take (max 1 i) p)
      | None \<Rightarrow> Inl OutOfRange)"

definition dirOf :: "CanonPath \<Rightarrow> bytes option" where
  "dirOf p = (if isRoot p then None else Some (take (case rfind SLASH p of Some i \<Rightarrow> i | None \<Rightarrow> length p) p))"

definition canonBaseName :: "CanonPath \<Rightarrow> bytes option" where
  "canonBaseName p = (if isRoot p then None else Some (drop (case rfind SLASH p of Some i \<Rightarrow> i + 1 | None \<Rightarrow> 0) p))"

definition isWithin :: "CanonPath \<Rightarrow> CanonPath \<Rightarrow> bool" where
  "isWithin p par =
     (\<not> (length p < length par \<or> take (length par) p \<noteq> par \<or>
         (length par > 1 \<and> length p > length par \<and> p ! length par \<noteq> SLASH)))"

definition removePrefix :: "CanonPath \<Rightarrow> CanonPath \<Rightarrow> CanonError + CanonPath" where
  "removePrefix p prefix' =
     (if \<not> isWithin p prefix' then Inl Aborted
      else if isRoot prefix' then Inr p
      else if length p = length prefix' then Inr rootPath
      else Inr (drop (length prefix') p))"

definition extend :: "CanonPath \<Rightarrow> CanonPath \<Rightarrow> CanonPath" where
  "extend p x = (if isRoot x then p else if isRoot p then p @ rel x else p @ x)"

definition push :: "CanonPath \<Rightarrow> bytes \<Rightarrow> CanonError + CanonPath" where
  "push p c =
     (if SLASH \<in> set c \<or> c = ''.'' \<or> c = ''..'' then Inl Aborted
      else ebind (ensureNoNullBytes c) (\<lambda>_. Inr ((if isRoot p then p else p @ [SLASH]) @ c)))"

text \<open>The operator \<^verbatim>\<open>/\<close>, with a path and with a name.\<close>

definition slashPath :: "CanonPath \<Rightarrow> CanonPath \<Rightarrow> CanonPath" where
  "slashPath p x = extend p x"

definition slashName :: "CanonPath \<Rightarrow> bytes \<Rightarrow> CanonError + CanonPath" where
  "slashName p c = push p c"

primrec pushAll :: "CanonPath \<Rightarrow> bytes list \<Rightarrow> CanonError + CanonPath" where
  "pushAll p [] = Inr p"
| "pushAll p (s # elems) = ebind (push p s) (\<lambda>p'. pushAll p' elems)"

definition fromElements :: "bytes list \<Rightarrow> CanonError + CanonPath" where
  "fromElements elems = pushAll ''/'' elems"

section \<open>Order and access\<close>

text \<open>The value compared: a signed byte, and zero for the separator.\<close>

definition rank :: "char \<Rightarrow> int" where
  "rank c = (if c = SLASH then 0 else let n = of_char c :: nat in if n < 128 then int n else int n - 256)"

fun comparePath :: "CanonPath \<Rightarrow> CanonPath \<Rightarrow> Ordering" where
  "comparePath (a # p) (b # q) = (if rank a \<noteq> rank b then threeWay (rank a) (rank b) else comparePath p q)"
| "comparePath p q = threeWay (p \<noteq> []) (q \<noteq> [])"

definition lowerBound :: "CanonPath list \<Rightarrow> CanonPath \<Rightarrow> CanonPath option" where
  "lowerBound s p = find (\<lambda>x. comparePath x p \<noteq> Less) s"

function parentAllowed :: "CanonPath list \<Rightarrow> CanonPath \<Rightarrow> CanonError + bool" where
  "parentAllowed allowed p =
     (if isRoot p then Inr False
      else case pop p of
        Inl e \<Rightarrow> Inl e
      | Inr q \<Rightarrow> if q \<in> set allowed then Inr True else parentAllowed allowed q)"
  by pat_completeness auto
termination
proof (relation "measure (\<lambda>(allowed, p). length p)", goal_cases)
  case (2 allowed p q)
  then show ?case
    by (auto simp: pop_def isRoot_def rfind_def split: option.splits dest!: breakOn_length)
qed simp

declare parentAllowed.simps [simp del]

definition isAllowed :: "CanonPath \<Rightarrow> CanonPath list \<Rightarrow> CanonError + bool" where
  "isAllowed p allowed =
     (case lowerBound allowed p of
        Some lb \<Rightarrow> if isWithin lb p then Inr True else parentAllowed allowed p
      | None \<Rightarrow> parentAllowed allowed p)"

section \<open>Relative paths\<close>

function skipCommon :: "bytes \<Rightarrow> bytes \<Rightarrow> bytes \<times> bytes" where
  "skipCommon p1 p2 =
     (if p1 \<noteq> [] \<and> p2 \<noteq> [] \<and> deref p1 = deref p2 then skipCommon (advance p1) (advance p2) else (p1, p2))"
  by pat_completeness auto
termination
  by (relation "measure (\<lambda>(p1, p2). length p1)") (auto simp: advance_length)

function dots :: "bytes \<Rightarrow> bytes \<Rightarrow> bytes" where
  "dots p1 res =
     (if p1 = [] then res else dots (advance p1) ((if res = [] then res else res @ [SLASH]) @ ''..''))"
  by pat_completeness auto
termination
  by (relation "measure (\<lambda>(p1, res). length p1)") (auto simp: advance_length)

declare skipCommon.simps [simp del] dots.simps [simp del]

definition makeRelative :: "CanonPath \<Rightarrow> CanonPath \<Rightarrow> bytes" where
  "makeRelative this p =
     (case skipCommon (rel this) (rel p) of (p1, p2) \<Rightarrow>
        if p1 = [] \<and> p2 = [] then ''.''
        else if p1 = [] then p2
        else let res = dots p1 [] in
          if p2 = [] then res else (if res = [] then res else res @ [SLASH]) @ p2)"

section \<open>Components\<close>

text \<open>The specification: the components of a text, their normal form, and the path of a list of components.\<close>

fun splitOn :: "char \<Rightarrow> bytes \<Rightarrow> bytes list" where
  "splitOn c [] = [[]]"
| "splitOn c (x # xs) = (if x = c then [] # splitOn c xs else (x # hd (splitOn c xs)) # tl (splitOn c xs))"

definition comps :: "bytes \<Rightarrow> bytes list" where
  "comps s = filter (\<lambda>c. c \<noteq> []) (splitOn SLASH s)"

definition normStep :: "bytes list \<Rightarrow> bytes \<Rightarrow> bytes list" where
  "normStep st c = (if c = ''.'' then st else if c = ''..'' then butlast st else st @ [c])"

definition normalise :: "bytes list \<Rightarrow> bytes list" where
  "normalise cs = foldl normStep [] cs"

definition slashed :: "bytes list \<Rightarrow> bytes" where
  "slashed cs = concat (map (\<lambda>c. SLASH # c) cs)"

definition canonical :: "bytes list \<Rightarrow> CanonPath" where
  "canonical cs = (if cs = [] then [SLASH] else slashed cs)"

fun joined :: "bytes list \<Rightarrow> bytes" where
  "joined [] = []"
| "joined (c # cs) = c @ slashed cs"

text \<open>A name between slashes, and a component of a canonical path.\<close>

definition isName :: "bytes \<Rightarrow> bool" where
  "isName c = (c \<noteq> [] \<and> SLASH \<notin> set c)"

definition isComp :: "bytes \<Rightarrow> bool" where
  "isComp c = (isName c \<and> c \<noteq> ''.'' \<and> c \<noteq> ''..'')"

lemma isComp_isName: "isComp c \<Longrightarrow> isName c"
  by (simp add: isComp_def)

lemma list_isComp_isName: "list_all isComp cs \<Longrightarrow> list_all isName cs"
  by (auto simp: list_all_iff isComp_def)

lemma slashed_simps [simp]: "slashed [] = []" "slashed (c # cs) = SLASH # c @ slashed cs" "slashed (cs @ ds) = slashed cs @ slashed ds"
  by (simp_all add: slashed_def)

lemma slashed_eq_Nil [simp]: "slashed cs = [] \<longleftrightarrow> cs = []"
  by (cases cs) auto

lemma splitOn_ne [simp]: "splitOn c s \<noteq> []"
  by (cases s) auto

lemma splitOn_free: "c \<notin> set a \<Longrightarrow> splitOn c a = [a]"
  by (induction a) auto

lemma splitOn_append: "c \<notin> set a \<Longrightarrow> splitOn c (a @ c # b) = a # splitOn c b"
  by (induction a) auto

lemma comps_slash [simp]: "comps [] = []" "comps (SLASH # s) = comps s"
  by (simp_all add: comps_def)

lemma comps_dropWhile: "comps (dropWhile (\<lambda>c. c = SLASH) s) = comps s"
  by (induction s) auto

lemma comps_name: "isName a \<Longrightarrow> comps (a @ SLASH # s) = a # comps s" "isName a \<Longrightarrow> comps a = [a]"
  by (simp_all add: comps_def isName_def splitOn_append splitOn_free)

lemma comps_slashed: "list_all isName cs \<Longrightarrow> comps (slashed cs @ s) = cs @ comps s" if "s = [] \<or> hd s = SLASH" for s
  using that
proof (induction cs)
  case (Cons c cs)
  have "slashed cs @ s = [] \<or> (\<exists>t. slashed cs @ s = SLASH # t)"
    using Cons.prems(2) by (cases cs; cases s) auto
  then show ?case
  proof
    assume "slashed cs @ s = []"
    then show ?thesis using Cons by (simp add: comps_name)
  next
    assume "\<exists>t. slashed cs @ s = SLASH # t"
    then obtain t where t: "slashed cs @ s = SLASH # t" by blast
    have "comps (c @ slashed cs @ s) = c # comps (slashed cs @ s)"
      using Cons.prems(1) by (simp add: t comps_name)
    then show ?thesis using Cons by simp
  qed
qed simp

lemma comps_canonical: "list_all isName cs \<Longrightarrow> comps (canonical cs) = cs"
  using comps_slashed [of "[]" cs] by (simp add: canonical_def)

lemma canonical_inject: "list_all isName cs \<Longrightarrow> list_all isName ds \<Longrightarrow> canonical cs = canonical ds \<longleftrightarrow> cs = ds"
  by (metis comps_canonical)

lemma comps_names: "list_all isName (comps s)"
proof -
  have "\<forall>a \<in> set (splitOn SLASH s). SLASH \<notin> set a"
  proof (induction s)
    case (Cons x xs)
    then have "SLASH \<notin> set (hd (splitOn SLASH xs))" "\<forall>a \<in> set (tl (splitOn SLASH xs)). SLASH \<notin> set a"
      by (auto dest: list.set_sel(2) [OF splitOn_ne])
    then show ?case using Cons by auto
  qed simp
  then show ?thesis by (auto simp: comps_def isName_def list_all_iff)
qed

lemma normStep_comps: "list_all isComp st \<Longrightarrow> isName c \<Longrightarrow> list_all isComp (normStep st c)"
  by (auto simp: normStep_def isComp_def list_all_iff dest: in_set_butlastD)

lemma foldl_normStep_comps: "list_all isComp st \<Longrightarrow> list_all isName cs \<Longrightarrow> list_all isComp (foldl normStep st cs)"
  by (induction cs arbitrary: st) (auto simp: normStep_comps)

lemma foldl_normStep_id: "list_all isComp cs \<Longrightarrow> foldl normStep st cs = st @ cs"
  by (induction cs arbitrary: st) (auto simp: normStep_def isComp_def)

lemma normalise_id: "list_all isComp cs \<Longrightarrow> normalise cs = cs"
  by (simp add: normalise_def foldl_normStep_id)

section \<open>Canonicalisation computes the normal form\<close>

lemma rfind_append: "SLASH \<notin> set b \<Longrightarrow> rfind SLASH (a @ SLASH # b) = Some (length a)"
  by (simp add: rfind_def)

lemma rfind_slashed:
  assumes "list_all isName st" "st \<noteq> []"
  shows "rfind SLASH (slashed st) = Some (length (slashed (butlast st)))" "take (length (slashed (butlast st))) (slashed st) = slashed (butlast st)"
proof -
  have st: "slashed st = slashed (butlast st) @ SLASH # last st"
    using assms(2) slashed_simps(3) [of "butlast st" "[last st]"] by simp
  have "SLASH \<notin> set (last st)" using assms by (auto simp: list_all_iff isName_def)
  then show "rfind SLASH (slashed st) = Some (length (slashed (butlast st)))" using rfind_append st by metis
  show "take (length (slashed (butlast st))) (slashed st) = slashed (butlast st)" by (simp add: st)
qed

lemma next_component:
  assumes "rem \<noteq> []" "hd rem \<noteq> SLASH"
  shows "comps rem = takeWhile (\<lambda>c. c \<noteq> SLASH) rem # comps (dropWhile (\<lambda>c. c \<noteq> SLASH) rem)"
    and "isName (takeWhile (\<lambda>c. c \<noteq> SLASH) rem)"
proof -
  let ?a = "takeWhile (\<lambda>c. c \<noteq> SLASH) rem" and ?t = "dropWhile (\<lambda>c. c \<noteq> SLASH) rem"
  show name: "isName ?a" using assms by (cases rem) (auto simp: isName_def dest: set_takeWhileD)
  have rem: "rem = ?a @ ?t" by simp
  have "?t = [] \<or> ?t = SLASH # tl ?t"
    using hd_dropWhile [of "\<lambda>c. c \<noteq> SLASH" rem] by (cases ?t) auto
  then show "comps rem = ?a # comps ?t"
  proof
    assume "?t = []"
    then have "rem = ?a" "comps ?t = []" using rem by (metis append_Nil2) (use \<open>?t = []\<close> in \<open>simp only: comps_slash\<close>)
    then show ?thesis using comps_name(2) [OF name] by metis
  next
    assume t: "?t = SLASH # tl ?t"
    have "comps (?a @ ?t) = ?a # comps ?t" by (subst t, subst (2) t) (simp add: comps_name(1) [OF name])
    then show ?thesis using rem by simp
  qed
qed

lemma canonLoop_spec:
  assumes "list_all isComp st"
  shows "canonLoop remaining (slashed st) = Inr (slashed (foldl normStep st (comps remaining)))"
  using assms
proof (induction "length remaining" arbitrary: remaining st rule: less_induct)
  case less
  define rem where "rem = dropWhile (\<lambda>c. c = SLASH) remaining"
  define a where "a = takeWhile (\<lambda>c. c \<noteq> SLASH) rem"
  define t where "t = dropWhile (\<lambda>c. c \<noteq> SLASH) rem"
  note unfold = canonLoop.simps [of remaining "slashed st", unfolded Let_def, folded rem_def, folded a_def t_def]
  have comps: "comps remaining = comps rem" by (simp add: rem_def comps_dropWhile)
  show ?case
  proof (cases "rem = []")
    case True
    then show ?thesis using unfold comps by simp
  next
    case False
    have "hd rem \<noteq> SLASH" using hd_dropWhile [of "\<lambda>c. c = SLASH" remaining] False by (simp add: rem_def)
    note next' = next_component [OF False this, folded a_def t_def]
    have rem: "rem = a @ t" by (simp add: a_def t_def)
    have "length rem \<le> length remaining" by (simp add: rem_def length_dropWhile_le)
    moreover have "a \<noteq> []" using next'(2) by (simp add: isName_def)
    ultimately have short: "length t < length remaining" using rem by (cases a) auto
    note IH = less.hyps [OF short]
    consider (dot) "a = ''.''" | (dots) "a = ''..''" | (comp) "a \<noteq> ''.''" "a \<noteq> ''..''" by blast
    then show ?thesis
    proof cases
      case dot
      then show ?thesis using unfold False comps next'(1) IH [OF less.prems] rem by (simp add: normStep_def)
    next
      case dots
      have "list_all isComp (butlast st)" using less.prems by (auto simp: list_all_iff dest: in_set_butlastD)
      from IH [OF this] show ?thesis
        using dots unfold False comps next'(1) rem rfind_slashed [OF list_isComp_isName [OF less.prems]]
        by (cases "st = []") (simp_all add: normStep_def)
    next
      case comp
      then have "list_all isComp (st @ [a])" using less.prems next'(2) by (simp add: isComp_def)
      from IH [OF this] show ?thesis using comp unfold False comps next'(1) by (simp add: normStep_def)
    qed
  qed
qed

lemma canonPathInner_spec: "s \<noteq> [] \<Longrightarrow> canonPathInner s = Inr (canonical (normalise (comps s)))"
  using canonLoop_spec [of "[]" s] by (simp add: canonPathInner_def canonical_def normalise_def)

text \<open>A canonical path: the path of components.\<close>

definition wfCanon :: "CanonPath \<Rightarrow> bool" where
  "wfCanon p = (list_all isComp (comps p) \<and> p = canonical (comps p))"

lemma wfCanon_canonical: "list_all isComp cs \<Longrightarrow> wfCanon (canonical cs)"
  by (simp add: wfCanon_def comps_canonical list_isComp_isName)

lemma wfCanonE:
  assumes "wfCanon p"
  obtains cs where "p = canonical cs" "list_all isComp cs" "comps p = cs"
  using assms that [OF _ _ refl] unfolding wfCanon_def by blast

lemma normalise_comps: "list_all isComp (normalise (comps s))"
  unfolding normalise_def by (rule foldl_normStep_comps) (simp_all add: comps_names)

lemma newCanonPath_spec:
  "newCanonPath raw = (if NUL \<in> set raw then Inl (BadCanonPath raw) else Inr (canonical (normalise (comps raw))))"
  by (simp add: newCanonPath_def canonPathInner_spec ensureNoNullBytes_def)

section \<open>Operations on components\<close>

lemma isRoot_canonical: "list_all isName cs \<Longrightarrow> isRoot (canonical cs) \<longleftrightarrow> cs = []"
  by (cases cs) (auto simp: isRoot_def canonical_def isName_def)

lemma rel_canonical: "rel (canonical cs) = joined cs"
  by (cases cs) (auto simp: rel_def canonical_def)

lemma joined_eq_Nil: "list_all isName cs \<Longrightarrow> joined cs = [] \<longleftrightarrow> cs = []"
  by (cases cs) (auto simp: isName_def)

lemma deref_joined: "isName c \<Longrightarrow> deref (joined (c # cs)) = c"
  by (cases cs) (auto simp: deref_def isName_def takeWhile_append takeWhile_eq_all_conv)

lemma advance_joined: "isName c \<Longrightarrow> advance (joined (c # cs)) = joined cs"
  by (cases cs) (auto simp: advance_def isName_def breakOn_eq_None [THEN iffD2])

lemma elements_joined: "list_all isName cs \<Longrightarrow> elements (joined cs) = cs"
proof (induction cs)
  case (Cons c cs)
  then show ?case using joined_eq_Nil [of "c # cs"] deref_joined [of c cs] advance_joined [of c cs]
    by (subst elements.simps) (simp del: joined.simps)
qed (simp add: elements.simps)

lemma pop_canonical:
  assumes "list_all isName cs" "cs \<noteq> []"
  shows "pop (canonical cs) = Inr (canonical (butlast cs))"
proof -
  have "max 1 (length (slashed (butlast cs))) = (if butlast cs = [] then 1 else length (slashed (butlast cs)))"
    using assms by (cases "butlast cs") auto
  moreover have "take 1 (slashed cs) = [SLASH]" using assms(2) by (cases cs) auto
  ultimately show ?thesis using assms isRoot_canonical [OF assms(1)] rfind_slashed [OF assms]
    by (auto simp: pop_def canonical_def)
qed

lemma parent_canonical:
  assumes "list_all isName cs"
  shows "parent (canonical cs) = (if cs = [] then None else Some (canonical (butlast cs)))"
proof (cases "cs = []")
  case False
  then obtain i where "rfind SLASH (canonical cs) = Some i" "pop (canonical cs) = Inr (take (max 1 i) (canonical cs))"
    using pop_canonical [OF assms False] by (auto simp: pop_def split: if_splits option.splits)
  then show ?thesis using pop_canonical [OF assms False] False isRoot_canonical [OF assms] by (simp add: parent_def)
qed (simp add: parent_def isRoot_canonical)

lemma extend_canonical:
  "list_all isName cs \<Longrightarrow> list_all isName ds \<Longrightarrow> extend (canonical cs) (canonical ds) = canonical (cs @ ds)"
  using isRoot_canonical [of cs] isRoot_canonical [of ds]
  by (cases ds) (auto simp: extend_def rel_def canonical_def)

lemma push_canonical:
  "list_all isName cs \<Longrightarrow> isComp c \<Longrightarrow> NUL \<notin> set c \<Longrightarrow> push (canonical cs) c = Inr (canonical (cs @ [c]))"
  using isRoot_canonical [of cs]
  by (auto simp: push_def ensureNoNullBytes_def isComp_def isName_def canonical_def)

lemma pushAll_canonical:
  "list_all isName cs \<Longrightarrow> list_all isComp ds \<Longrightarrow> \<forall>d \<in> set ds. NUL \<notin> set d \<Longrightarrow> pushAll (canonical cs) ds = Inr (canonical (cs @ ds))"
proof (induction ds arbitrary: cs)
  case (Cons d ds)
  then show ?case using push_canonical [of cs d] Cons.IH [of "cs @ [d]"] by (simp add: isComp_def)
qed simp

text \<open>Two texts split at their first slashes.\<close>

lemma name_split:
  assumes "a @ x = b @ y" "SLASH \<notin> set a" "SLASH \<notin> set b" "x = [] \<or> hd x = SLASH" "y = [] \<or> hd y = SLASH"
  shows "a = b \<and> x = y"
proof -
  have "takeWhile (\<lambda>c. c \<noteq> SLASH) (a @ x) = a" if "SLASH \<notin> set a" "x = [] \<or> hd x = SLASH" for a x
    using that by (cases x) (auto simp: takeWhile_append takeWhile_eq_all_conv)
  then have "a = b" using assms by metis
  then show ?thesis using assms(1) by simp
qed

lemma slashed_hd: "slashed cs = [] \<or> hd (slashed cs) = SLASH"
  by (cases cs) auto

lemma slashed_prefix:
  assumes "slashed cs = slashed ds @ t" "t = [] \<or> hd t = SLASH" "list_all isName cs" "list_all isName ds"
  shows "prefix ds cs"
  using assms
proof (induction ds arbitrary: cs)
  case (Cons d ds)
  then obtain c cs' where cs: "cs = c # cs'" by (cases cs) auto
  have "c @ slashed cs' = d @ (slashed ds @ t)" using Cons.prems(1) by (simp add: cs)
  moreover have "slashed ds @ t = [] \<or> hd (slashed ds @ t) = SLASH" using Cons.prems(2) slashed_hd [of ds] by (cases "slashed ds") auto
  ultimately have "c = d" "slashed cs' = slashed ds @ t"
    using name_split [of c "slashed cs'" d] slashed_hd [of cs'] Cons.prems(3,4) by (auto simp: cs isName_def)
  then show ?case using Cons.IH [of cs'] Cons.prems by (simp add: cs)
qed simp

lemma isWithin_canonical:
  assumes "list_all isName cs" "list_all isName ds"
  shows "isWithin (canonical cs) (canonical ds) \<longleftrightarrow> prefix ds cs"
proof
  assume "prefix ds cs"
  then obtain es where cs: "cs = ds @ es" by (auto simp: prefix_def)
  show "isWithin (canonical cs) (canonical ds)"
    by (cases ds; cases es) (auto simp: cs isWithin_def canonical_def)
next
  assume w: "isWithin (canonical cs) (canonical ds)"
  show "prefix ds cs"
  proof (cases "ds = []")
    case False
    then obtain d ds' where ds: "ds = d # ds'" "d \<noteq> []" using assms(2) by (cases ds) (auto simp: isName_def)
    have "1 < length (canonical ds)" using ds by (cases d) (auto simp: canonical_def)
    then have "cs \<noteq> []" using w by (auto simp: isWithin_def canonical_def)
    let ?t = "drop (length (slashed ds)) (slashed cs)"
    have len: "length (slashed ds) \<le> length (slashed cs)" and tk: "take (length (slashed ds)) (slashed cs) = slashed ds"
      using w \<open>cs \<noteq> []\<close> False by (auto simp: isWithin_def canonical_def)
    have "slashed cs = slashed ds @ ?t" using tk by (metis append_take_drop_id)
    moreover have "?t = [] \<or> hd ?t = SLASH"
      using w \<open>cs \<noteq> []\<close> False len \<open>1 < length (canonical ds)\<close>
      by (cases "length (slashed cs) = length (slashed ds)") (auto simp: isWithin_def canonical_def hd_drop_conv_nth)
    ultimately show ?thesis using slashed_prefix assms by blast
  qed simp
qed

lemma removePrefix_canonical:
  assumes "list_all isName ds" "list_all isName es"
  shows "removePrefix (canonical (ds @ es)) (canonical ds) = Inr (canonical es)"
proof -
  have "isWithin (canonical (ds @ es)) (canonical ds)" using isWithin_canonical [of "ds @ es" ds] assms by simp
  then show ?thesis using isRoot_canonical [OF assms(1)] by (cases ds; cases es) (auto simp: removePrefix_def canonical_def rootPath_def)
qed

section \<open>The order\<close>

lemma comparePath_key: "comparePath p q = threeWay (map rank p) (map rank q)"
  by (induction p q rule: comparePath.induct) (auto simp: threeWay_def neq_Nil_conv)

definition plainPath :: "CanonPath \<Rightarrow> bool" where
  "plainPath p = list_all (\<lambda>c. (of_char c :: nat) < 128 \<and> c \<noteq> NUL) p"

lemma rank_plain:
  assumes "(of_char c :: nat) < 128" "c \<noteq> NUL"
  shows "0 \<le> rank c" "rank c = 0 \<longleftrightarrow> c = SLASH"
proof -
  have "(of_char c :: nat) \<noteq> 0"
  proof
    assume "(of_char c :: nat) = 0"
    then have "(of_char c :: nat) = of_char NUL" by simp
    then show False using assms(2) by (simp only: of_char_eq_iff)
  qed
  then show "0 \<le> rank c" "rank c = 0 \<longleftrightarrow> c = SLASH" using assms(1) by (auto simp: rank_def Let_def)
qed

lemma map_rank_inject:
  assumes "plainPath p" "plainPath q" "map rank p = map rank q"
  shows "p = q"
proof -
  have inj: "a = b" if "(of_char a :: nat) < 128" "(of_char b :: nat) < 128" "a \<noteq> NUL" "b \<noteq> NUL" "rank a = rank b" for a b
  proof (cases "a = SLASH \<or> b = SLASH")
    case True
    then show ?thesis using rank_plain(2) that by metis
  next
    case False
    then have "(of_char a :: nat) = of_char b" using that by (simp add: rank_def Let_def)
    then show ?thesis by simp
  qed
  have "list_all2 (\<lambda>a b. rank a = rank b) p q" using assms(3) by (simp add: list_all2_conv_all_nth list_eq_iff_nth_eq)
  then show ?thesis using assms(1,2) by (induction rule: list_all2_induct) (auto simp: plainPath_def intro: inj)
qed

lemma between:
  fixes k l r :: "int list"
  assumes "k \<le> l" "l \<le> k @ 0 # r" "\<forall>x \<in> set l. 0 \<le> x"
  shows "l = k \<or> (\<exists>t. l = k @ 0 # t)"
  using assms
proof (induction k arbitrary: l)
  case Nil
  then show ?case by (cases l) auto
next
  case (Cons a k)
  then show ?case by (cases l) auto
qed

lemma append_le: "k \<le> k @ (r :: 'a::linorder list)"
  by (induction k) auto

text \<open>Every element of a strictly ordered list that passes a test is at or after the first one that does.\<close>

lemma find_sorted:
  "sorted_wrt R xs \<Longrightarrow> a \<in> set xs \<Longrightarrow> P a \<Longrightarrow> \<exists>b. find P xs = Some b \<and> b \<in> set xs \<and> P b \<and> (b = a \<or> R b a)"
  by (induction xs) auto

definition sortedPaths :: "CanonPath list \<Rightarrow> bool" where
  "sortedPaths s = sorted_wrt (\<lambda>x y. comparePath x y = Less) s"

lemma lowerBound_within:
  assumes "sortedPaths s" "list_all plainPath s" "list_all wfCanon s" "plainPath p" "wfCanon p" "a \<in> set s" "isWithin a p"
  shows "\<exists>lb. lowerBound s p = Some lb \<and> isWithin lb p"
proof -
  have wa: "wfCanon a" "plainPath a" using assms by (auto simp: list_all_iff)
  obtain cs ds where cs: "a = canonical cs" "list_all isName cs" and ds: "p = canonical ds" "list_all isName ds"
    using wa(1) assms(5) by (metis wfCanonE list_isComp_isName)
  then obtain es where es: "cs = ds @ es" using assms(7) by (auto simp: isWithin_canonical prefix_def)
  have pa: "map rank p \<le> map rank a"
  proof (cases "ds = []")
    case True
    then show ?thesis using cs(1) by (cases cs) (auto simp: ds canonical_def)
  next
    case False
    then have "map rank a = map rank p @ map rank (slashed es)" by (simp add: cs ds es canonical_def)
    then show ?thesis by (simp add: append_le)
  qed
  then have "comparePath a p \<noteq> Less" by (simp add: comparePath_key threeWay_simps)
  from find_sorted [OF assms(1) [unfolded sortedPaths_def] assms(6), of "\<lambda>x. comparePath x p \<noteq> Less", OF this]
  obtain lb where lb: "lowerBound s p = Some lb" "lb \<in> set s" "comparePath lb p \<noteq> Less" "lb = a \<or> comparePath lb a = Less"
    by (auto simp: lowerBound_def)
  have keys: "map rank p \<le> map rank lb" "map rank lb \<le> map rank a" using lb(3,4) by (auto simp: comparePath_key threeWay_simps)
  have wlb: "wfCanon lb" "plainPath lb" using lb(2) assms(2,3) by (auto simp: list_all_iff)
  have "isWithin lb p"
  proof (cases "ds = []")
    case True
    then show ?thesis using wlb(1) isWithin_canonical [of _ "[]"] ds by (metis list_isComp_isName prefix_bot.extremum wfCanonE)
  next
    case False
    have nonneg: "\<forall>x \<in> set (map rank lb). 0 \<le> x" using wlb(2) rank_plain(1) by (auto simp: plainPath_def list_all_iff)
    have "map rank lb = map rank p \<or> (\<exists>t. map rank lb = map rank p @ 0 # t)"
    proof (cases es)
      case Nil
      then show ?thesis using keys by (simp add: cs ds es)
    next
      case (Cons e es')
      then have "map rank a = map rank p @ 0 # map rank (e @ slashed es')"
        using False by (simp add: cs ds es canonical_def rank_def)
      then show ?thesis using between keys nonneg by metis
    qed
    then show ?thesis
    proof
      assume "map rank lb = map rank p"
      then have "lb = p" using map_rank_inject wlb(2) assms(4) by blast
      then show ?thesis using ds by (simp add: isWithin_canonical)
    next
      assume "\<exists>t. map rank lb = map rank p @ 0 # t"
      then obtain t where t: "map rank lb = map rank p @ 0 # t" by blast
      then obtain u c v where u: "lb = u @ c # v" "map rank u = map rank p" "rank c = 0"
        by (auto simp: map_eq_append_conv map_eq_Cons_conv)
      then have "u = p" "c = SLASH" using wlb(2) map_rank_inject [of u p] assms(4) rank_plain(2) [of c]
        by (auto simp: plainPath_def)
      then show ?thesis using u(1) by (simp add: isWithin_def)
    qed
  qed
  then show ?thesis using lb(1) by blast
qed

lemma parentAllowed_canonical:
  assumes "list_all isName cs"
  shows "parentAllowed s (canonical cs) = Inr (\<exists>n < length cs. canonical (take n cs) \<in> set s)"
  using assms
proof (induction cs rule: rev_induct)
  case Nil
  then show ?case by (subst parentAllowed.simps) (simp add: isRoot_canonical)
next
  case (snoc c cs)
  have pop: "pop (canonical (cs @ [c])) = Inr (canonical cs)" using pop_canonical [OF snoc.prems] by simp
  have "parentAllowed s (canonical (cs @ [c])) = (if canonical cs \<in> set s then Inr True else parentAllowed s (canonical cs))"
    using isRoot_canonical [OF snoc.prems] by (subst parentAllowed.simps) (simp add: pop)
  moreover have "(\<exists>n < length (cs @ [c]). canonical (take n (cs @ [c])) \<in> set s) \<longleftrightarrow>
      canonical cs \<in> set s \<or> (\<exists>n < length cs. canonical (take n cs) \<in> set s)"
    by (auto simp: less_Suc_eq)
  ultimately show ?case using snoc by simp
qed

section \<open>Relative paths\<close>

lemma joined_append: "xs \<noteq> [] \<Longrightarrow> ys \<noteq> [] \<Longrightarrow> joined (xs @ ys) = joined xs @ SLASH # joined ys"
  by (cases xs; cases ys) auto

lemma skipCommon_joined:
  assumes "list_all isName xs" "list_all isName ys"
  shows "\<exists>zs us vs. xs = zs @ us \<and> ys = zs @ vs \<and> skipCommon (joined xs) (joined ys) = (joined us, joined vs)"
  using assms
proof (induction xs arbitrary: ys)
  case Nil
  then show ?case by (subst skipCommon.simps) (intro exI [of _ "[]"] exI [of _ ys], simp)
next
  case (Cons x xs)
  have jx: "joined (x # xs) \<noteq> []" using joined_eq_Nil [OF Cons.prems(1)] by simp
  show ?case
  proof (cases "\<exists>ys'. ys = x # ys'")
    case True
    then obtain ys' where ys: "ys = x # ys'" by blast
    then obtain zs us vs where IH: "xs = zs @ us" "ys' = zs @ vs" "skipCommon (joined xs) (joined ys') = (joined us, joined vs)"
      using Cons.IH [of ys'] Cons.prems by auto
    have jy: "joined ys \<noteq> []" using joined_eq_Nil [OF Cons.prems(2)] ys by simp
    have "isName x" using Cons.prems(1) by simp
    then have "skipCommon (joined (x # xs)) (joined ys) = (joined us, joined vs)"
      using deref_joined [of x] advance_joined [of x] jx jy IH(3) by (subst skipCommon.simps) (simp add: ys del: joined.simps)
    then show ?thesis using IH ys by (intro exI [of _ "x # zs"] exI [of _ us] exI [of _ vs]) simp
  next
    case False
    have "deref (joined ys) \<noteq> x" if ne: "joined ys \<noteq> []"
    proof -
      obtain y ys' where y: "ys = y # ys'" using ne by (cases ys) auto
      then show ?thesis using False deref_joined [of y ys'] Cons.prems(2) by auto
    qed
    moreover have "deref (joined (x # xs)) = x" using Cons.prems(1) deref_joined [of x xs] by simp
    ultimately have "skipCommon (joined (x # xs)) (joined ys) = (joined (x # xs), joined ys)"
      by (subst skipCommon.simps) auto
    then show ?thesis by (intro exI [of _ "[]"] exI [of _ "x # xs"] exI [of _ ys]) simp
  qed
qed

lemma dots_joined:
  assumes "list_all isName xs" "list_all isName rs"
  shows "dots (joined xs) (joined rs) = joined (rs @ replicate (length xs) ''..'')"
  using assms
proof (induction xs arbitrary: rs)
  case (Cons x xs)
  have dd: "isName ''..''" by (simp add: isName_def)
  have "(if joined rs = [] then joined rs else joined rs @ [SLASH]) @ ''..'' = joined (rs @ [''..''])"
    using joined_eq_Nil [OF Cons.prems(2)] joined_append [of rs "[''..'']"] by (cases "rs = []") auto
  then have "dots (joined (x # xs)) (joined rs) = dots (joined xs) (joined (rs @ [''..'']))"
    using joined_eq_Nil [OF Cons.prems(1)] advance_joined [of x xs] Cons.prems(1)
    by (subst dots.simps) (simp del: joined.simps)
  also have "\<dots> = joined ((rs @ [''..'']) @ replicate (length xs) ''..'')"
    using Cons.IH [of "rs @ [''..'']"] Cons.prems dd by simp
  finally show ?case by simp
qed (simp add: dots.simps)

lemma normStep_dots: "foldl normStep (zs @ us) (replicate (length us) ''..'') = zs"
proof (induction us rule: rev_induct)
  case (snoc u us)
  have "normStep (zs @ us @ [u]) ''..'' = zs @ us"
    using butlast_snoc [of "zs @ us" u] by (simp add: normStep_def)
  then show ?case using snoc by simp
qed simp

lemma comps_joined: "list_all isName cs \<Longrightarrow> comps (p @ SLASH # joined cs) = comps (p @ [SLASH]) @ cs"
proof -
  have "comps (p @ SLASH # s) = comps p @ comps s" for s
  proof (induction "length p" arbitrary: p rule: less_induct)
    case less
    show ?case
    proof (cases "breakOn SLASH p")
      case None
      then have "SLASH \<notin> set p" by (simp add: breakOn_eq_None)
      then show ?thesis by (simp add: comps_def splitOn_append splitOn_free)
    next
      case (Some ab)
      then obtain a b where p: "p = a @ SLASH # b" "SLASH \<notin> set a" by (cases ab) (auto simp: breakOn_eq_Some)
      then have "comps (a @ SLASH # b @ SLASH # s) = filter (\<lambda>c. c \<noteq> []) [a] @ comps (b @ SLASH # s)"
        "comps (a @ SLASH # b) = filter (\<lambda>c. c \<noteq> []) [a] @ comps b"
        by (simp_all add: comps_def splitOn_append)
      then show ?thesis using less [of b] by (simp add: p)
    qed
  qed
  moreover assume "list_all isName cs"
  ultimately show "comps (p @ SLASH # joined cs) = comps (p @ [SLASH]) @ cs"
    using comps_canonical [of cs] by (cases cs) (simp_all add: canonical_def)
qed

lemma makeRelative_joined:
  assumes "list_all isComp cs" "list_all isComp ds"
  obtains zs us vs where "cs = zs @ us" "ds = zs @ vs"
    "makeRelative (canonical cs) (canonical ds) =
       (if us = [] \<and> vs = [] then ''.'' else joined (replicate (length us) ''..'' @ vs))"
proof -
  have n: "list_all isName cs" "list_all isName ds" using assms list_isComp_isName by auto
  obtain zs us vs where z: "cs = zs @ us" "ds = zs @ vs" "skipCommon (joined cs) (joined ds) = (joined us, joined vs)"
    using skipCommon_joined [OF n] by blast
  have nn: "list_all isName us" "list_all isName vs" using n z(1,2) by auto
  have e: "joined us = [] \<longleftrightarrow> us = []" "joined vs = [] \<longleftrightarrow> vs = []" using joined_eq_Nil nn by auto
  have d: "dots (joined us) [] = joined (replicate (length us) ''..'')" using dots_joined [OF nn(1), of "[]"] by simp
  have "joined (replicate (length us) ''..'') = [] \<longleftrightarrow> us = []"
    using joined_eq_Nil [of "replicate (length us) ''..''"] by (auto simp: list_all_iff isName_def)
  then have "makeRelative (canonical cs) (canonical ds) =
       (if us = [] \<and> vs = [] then ''.'' else joined (replicate (length us) ''..'' @ vs))"
    using z(3) e d joined_append [of "replicate (length us) ''..''" vs]
    by (auto simp: makeRelative_def rel_canonical Let_def)
  then show ?thesis using that z by blast
qed

lemma newCanonPathAt_relative:
  assumes "list_all isComp cs" "list_all isName rs" "NUL \<notin> set (joined rs)"
  shows "newCanonPathAt (joined rs) (canonical cs) = Inr (canonical (foldl normStep cs rs))"
proof -
  have head: "\<not> (length (joined rs) > 0 \<and> joined rs ! 0 = SLASH)"
  proof (cases rs)
    case (Cons r rs')
    then obtain x r' where "r = x # r'" "x \<noteq> SLASH" using assms(2) by (cases r) (auto simp: isName_def)
    then show ?thesis using Cons by simp
  qed simp
  have n: "list_all isName cs" using assms(1) by (rule list_isComp_isName)
  have "comps (canonical cs @ [SLASH]) = cs"
    using comps_slashed [of "[SLASH]" cs] n by (simp add: canonical_def)
  then have "comps (canonical cs @ SLASH # joined rs) = cs @ rs" using comps_joined [OF assms(2)] by simp
  then have "canonPathInner (canonical cs @ SLASH # joined rs) = Inr (canonical (foldl normStep cs rs))"
    by (simp add: canonPathInner_spec normalise_def foldl_normStep_id [OF assms(1)])
  then show ?thesis using head assms(3) unfolding newCanonPathAt_def if_not_P [OF head] by (simp add: ensureNoNullBytes_def)
qed

section \<open>Properties\<close>

text \<open>
  C31: every path the constructor makes from a text is canonical - a slash, or components that are not
  empty, contain no slash and are not dots, each after a slash - and it is the path of the text's
  components with the dots resolved; only a NUL in the text is an error.
\<close>
theorem canon_normal:
  "newCanonPath raw = (if NUL \<in> set raw then Inl (BadCanonPath raw) else Inr (canonical (normalise (comps raw)))) \<and>
   list_all isComp (normalise (comps raw)) \<and> wfCanon (canonical (normalise (comps raw)))"
  using newCanonPath_spec normalise_comps wfCanon_canonical by blast

text \<open>
  On canonical paths the operations on bytes are the operations on lists of components: containment
  is the prefix order, extending appends, removing a prefix drops it, popping and the parent drop the
  last component, iterating gives the components.
\<close>
theorem canon_operations:
  assumes "list_all isComp cs" "list_all isComp ds"
  shows "(isWithin (canonical cs) (canonical ds) \<longleftrightarrow> prefix ds cs) \<and>
    extend (canonical cs) (canonical ds) = canonical (cs @ ds) \<and>
    removePrefix (extend (canonical cs) (canonical ds)) (canonical cs) = Inr (canonical ds) \<and>
    (cs = [] \<or> pop (canonical cs) = Inr (canonical (butlast cs))) \<and>
    parent (canonical cs) = (if cs = [] then None else Some (canonical (butlast cs))) \<and>
    elements (rel (canonical cs)) = cs \<and> (canonical cs = canonical ds \<longleftrightarrow> cs = ds)"
proof -
  have n: "list_all isName cs" "list_all isName ds" using assms list_isComp_isName by auto
  show ?thesis using n isWithin_canonical [OF n] extend_canonical [OF n] removePrefix_canonical [OF n]
      pop_canonical [OF n(1)] parent_canonical [OF n(1)] elements_joined [OF n(1)] canonical_inject [OF n]
    by (cases "cs = []") (simp_all add: rel_canonical)
qed

theorem canon_operations_witness:
  "isWithin ''/a/b'' ''/a'' \<and> \<not> isWithin ''/ab'' ''/a''"
proof -
  have c: "list_all isComp [''a'', ''b'']" "list_all isComp [''ab'']" "list_all isComp [''a'']" by (simp_all add: isComp_def isName_def)
  show ?thesis using canon_operations [OF c(1,3)] canon_operations [OF c(2,3)] by (simp add: canonical_def)
qed

text \<open>
  Reading the relative path from one canonical path to another, starting at the first, gives the
  second.
\<close>
theorem relative_roundtrip:
  assumes "wfCanon this" "wfCanon p" "NUL \<notin> set p"
  shows "newCanonPathAt (makeRelative this p) this = Inr p"
proof -
  obtain cs where cs: "this = canonical cs" "list_all isComp cs" using assms(1) by (rule wfCanonE)
  obtain ds where ds: "p = canonical ds" "list_all isComp ds" using assms(2) by (rule wfCanonE)
  obtain zs us vs where z: "cs = zs @ us" "ds = zs @ vs"
    "makeRelative (canonical cs) (canonical ds) = (if us = [] \<and> vs = [] then ''.'' else joined (replicate (length us) ''..'' @ vs))"
    using makeRelative_joined [OF cs(2) ds(2)] .
  let ?rs = "if us = [] \<and> vs = [] then [''.''] else replicate (length us) ''..'' @ vs"
  have m: "makeRelative this p = joined ?rs" using z(3) by (simp add: cs ds)
  have "list_all isComp vs" using ds(2) unfolding z(2) by simp
  then have "list_all isName vs" by (rule list_isComp_isName)
  moreover have "isName ''.''" "isName ''..''" by (simp_all add: isName_def)
  ultimately have names: "list_all isName ?rs" by (auto simp: list_all_iff)
  have free: "NUL \<notin> set (joined (replicate n ''..'' @ vs))" for n
  proof -
    have "NUL \<notin> set (slashed ds)" using assms(3) by (cases "ds = []") (simp_all add: ds(1) canonical_def)
    then have "NUL \<notin> set (slashed vs)" by (simp add: z(2))
    moreover have "NUL \<notin> set (slashed (replicate k ''..''))" for k by (induction k) auto
    ultimately show ?thesis by (cases n; cases vs) auto
  qed
  have "list_all isComp vs" using ds(2) unfolding z(2) by simp
  then have "foldl normStep cs ?rs = ds"
    using normStep_dots [of zs us] foldl_normStep_id [of vs zs] by (cases "us = [] \<and> vs = []") (simp_all add: z normStep_def)
  moreover have "NUL \<notin> set (joined ?rs)" using free [of "length us"] by simp
  ultimately have "newCanonPathAt (joined ?rs) this = Inr p"
    using newCanonPathAt_relative [OF cs(2) names] by (simp add: cs(1) ds(1))
  then show ?thesis by (simp only: m)
qed

theorem relative_roundtrip_witness:
  "newCanonPathAt (makeRelative ''/a/b'' ''/a/c/d'') ''/a/b'' = Inr ''/a/c/d''"
  by (rule relative_roundtrip; code_simp)

text \<open>
  On paths of ASCII characters access is allowed exactly to the allowed paths, what is below them and
  their ancestors, although only one element of the ordered set is looked at below the path.
\<close>
theorem allowed_exact:
  assumes "sortedPaths allowed" "list_all wfCanon allowed" "list_all plainPath allowed" "wfCanon p" "plainPath p"
  shows "isAllowed p allowed = Inr (list_ex (\<lambda>a. isWithin a p \<or> isWithin p a) allowed)"
proof -
  obtain cs where cs: "p = canonical cs" "list_all isComp cs" using assms(4) by (rule wfCanonE)
  have n: "list_all isName cs" using cs(2) by (rule list_isComp_isName)
  have up: "(\<exists>k < length cs. canonical (take k cs) \<in> set allowed) \<longleftrightarrow> (\<exists>a \<in> set allowed. isWithin p a \<and> a \<noteq> p)"
  proof
    assume "\<exists>k < length cs. canonical (take k cs) \<in> set allowed"
    then obtain k where k: "k < length cs" "canonical (take k cs) \<in> set allowed" by blast
    have tk: "list_all isName (take k cs)" using n by (auto simp: list_all_iff dest: in_set_takeD)
    have "canonical (take k cs) \<noteq> p" using canonical_inject [OF tk n] k(1) by (auto simp: cs dest: arg_cong [of _ _ length])
    then show "\<exists>a \<in> set allowed. isWithin p a \<and> a \<noteq> p"
      using k(2) isWithin_canonical [OF n tk] by (auto simp: cs take_is_prefix)
  next
    assume "\<exists>a \<in> set allowed. isWithin p a \<and> a \<noteq> p"
    then obtain a where a: "a \<in> set allowed" "isWithin p a" "a \<noteq> p" by blast
    then have "wfCanon a" using assms(2) by (simp add: list_all_iff)
    then obtain ds where ds: "a = canonical ds" "list_all isComp ds" by (rule wfCanonE)
    then have "prefix ds cs" using a(2) isWithin_canonical [OF n list_isComp_isName] by (simp add: cs)
    then obtain es where es: "cs = ds @ es" by (auto simp: prefix_def)
    then have "es \<noteq> []" using a(3) ds cs by auto
    then show "\<exists>k < length cs. canonical (take k cs) \<in> set allowed"
      using a(1) by (intro exI [of _ "length ds"]) (simp add: es ds)
  qed
  have par: "parentAllowed allowed p = Inr (\<exists>a \<in> set allowed. isWithin p a \<and> a \<noteq> p)"
    using parentAllowed_canonical [OF n] up by (simp add: cs)
  show ?thesis
  proof (cases "\<exists>a \<in> set allowed. isWithin a p")
    case True
    then obtain a where "a \<in> set allowed" "isWithin a p" by blast
    from lowerBound_within [OF assms(1,3,2,5,4) this] show ?thesis
      using True by (auto simp: isAllowed_def list_ex_iff)
  next
    case False
    have "isWithin p p" using isWithin_canonical [OF n n] by (simp add: cs)
    then have "\<not> (\<exists>a \<in> set allowed. a = p)" using False by blast
    moreover have "lb \<in> set allowed" if "lowerBound allowed p = Some lb" for lb
      using that unfolding lowerBound_def by (auto simp: find_Some_iff)
    ultimately show ?thesis using False par by (auto simp: isAllowed_def list_ex_iff split: option.split)
  qed
qed

theorem allowed_exact_witness:
  "isAllowed ''/a'' [''/a!'', ''/b/c''] = Inr False \<and> isAllowed ''/b'' [''/a!'', ''/b/c''] = Inr True"
proof -
  have s: "sortedPaths [''/a!'', ''/b/c'']" "list_all wfCanon [''/a!'', ''/b/c'']" "list_all plainPath [''/a!'', ''/b/c'']"
    "wfCanon ''/a''" "plainPath ''/a''" "wfCanon ''/b''" "plainPath ''/b''" by code_simp+
  show ?thesis using allowed_exact [OF s(1-3) s(4,5)] allowed_exact [OF s(1-3) s(6,7)] by (simp add: isWithin_def)
qed

text \<open>
  Outside ASCII the order is not the one that the search relies on: a byte from 0x80 on sorts before
  the separator, so an allowed path with such a byte after the name of a directory hides the allowed
  paths in that directory.
\<close>
theorem allowed_misses:
  "isAllowed ''/a'' [''/a'' @ [CHR 0xC3], ''/a/b''] = Inr False \<and> isWithin ''/a/b'' ''/a'' \<and>
   sortedPaths [''/a'' @ [CHR 0xC3], ''/a/b''] \<and> list_all wfCanon [''/a'' @ [CHR 0xC3], ''/a/b'']"
  by code_simp

end
