(* ===== verification/Eval_Cache.thy ===== *)
theory Eval_Cache
  imports Row_Total Canon_Path
begin

text \<open>
  The dependency cache (\<^verbatim>\<open>tecnix/eval-cache.cc\<close>): fingerprints of paths with their per-run memo, proving a
  stored candidate against them, looking up keys shard by shard, and learning closures. The table
  \<^verbatim>\<open>DependencyShards\<close> is a map from (resolver, args key, shard) to a row; a transaction on it is atomic, and
  a shard whose database calls throw keeps its row. What is outside the sources is a parameter: the
  accessor of the evaluated tree, the JSON library and SHA-256. Fingerprinting a path can throw, and the
  exception ends the lookup that asked for it: a lookup returns the calls of its callback, in order, and the
  exception that ended it, if there was one.
\<close>

section \<open>Fingerprints of paths\<close>

text \<open>
  The accessor of the evaluated tree: reading a file, where every exception is caught (\<^const>\<open>None\<close>), and the
  fingerprint of a path, which may throw an error of its own. A path with a zero byte cannot be asked for at all.
\<close>

datatype fingerprint_error = PathThrows CanonError | AccessorThrows bytes | FailedToFingerprint bytes

record SourceAccessor =
  readFile :: "CanonPath \<Rightarrow> bytes option"
  getFingerprint :: "CanonPath \<Rightarrow> bytes + bytes option"

text \<open>A JSON value; a floating-point number is the word of its double.\<close>

datatype json =
    JNull
  | JBool bool
  | JInteger int
  | JFloat "64 word"
  | JString bytes
  | JArray "json list"
  | JObject "(bytes \<times> json) list"

text \<open>The library's functions: parsing (\<^const>\<open>None\<close> when it throws), serialising, and the SHA-256 hash in base 64.\<close>

record JsonLibrary =
  parseJson :: "bytes \<Rightarrow> json option"
  dumpJson :: "json \<Rightarrow> bytes"
  sha256Base64 :: "bytes \<Rightarrow> bytes"

text \<open>\<^verbatim>\<open>json::items()\<close>: the elements with their keys; array elements have their index as key.\<close>

fun items :: "json \<Rightarrow> (bytes \<times> json) list" where
  "items JNull = []"
| "items (JArray js) = zip (map decimal [0..<length js]) js"
| "items (JObject kvs) = kvs"
| "items j = [([], j)]"

definition objectField :: "json \<Rightarrow> bytes \<Rightarrow> json option" where
  "objectField j key = (case j of JObject kvs \<Rightarrow> map_of kvs key | _ \<Rightarrow> None)"

definition manifestPathFingerprint :: "JsonLibrary \<Rightarrow> json \<Rightarrow> bytes \<Rightarrow> bytes option" where
  "manifestPathFingerprint lib manifest suffix' =
     (if suffix' = ''keys'' then
        (let keys = sort (map fst (items manifest));
             concatenated = concat (map (\<lambda>k. k @ [CHR 0x0A]) keys)
         in Some (''manifest-keys:'' @ sha256Base64 lib concatenated))
      else if startsWith suffix' ''id/'' then
        (let zoneId = drop (length ''id/'') suffix'
         in case find (\<lambda>(p, v). objectField v ''id'' = Some (JString zoneId)) (items manifest) of
              Some (p, v) \<Rightarrow> Some (''manifest-id:'' @ zoneId @ ''='' @ p)
            | None \<Rightarrow> Some (''manifest-id:'' @ zoneId @ ''=absent''))
      else
        (case objectField manifest suffix' of
           None \<Rightarrow> Some (''manifest-entry:'' @ suffix' @ ''=absent'')
         | Some entry \<Rightarrow> Some (''manifest-entry:'' @ suffix' @ ''='' @ sha256Base64 lib (dumpJson lib entry))))"

definition manifestPrefix :: bytes where "manifestPrefix = ''.meta/manifest.json#''"
definition manifestPath :: bytes where "manifestPath = ''.meta/manifest.json''"

record FingerprintMemo =
  fm_generation :: nat
  fm_fingerprints :: "bytes \<Rightarrow> bytes option option"
  fm_cachedManifest :: "json option"
  fm_manifestChecked :: bool

definition getDependencyFingerprintThreadCache :: "nat \<Rightarrow> FingerprintMemo \<Rightarrow> FingerprintMemo" where
  "getDependencyFingerprintThreadCache generation m =
     (if fm_generation m \<noteq> generation
      then m\<lparr>fm_generation := generation, fm_fingerprints := (\<lambda>_. None), fm_cachedManifest := None, fm_manifestChecked := False\<rparr>
      else m)"

text \<open>Reading and parsing the manifest; whatever goes wrong is caught.\<close>

definition readManifest :: "JsonLibrary \<Rightarrow> SourceAccessor \<Rightarrow> json option" where
  "readManifest lib accessor =
     (case newCanonPath manifestPath of
        Inl _ \<Rightarrow> None
      | Inr p \<Rightarrow> Option.bind (readFile accessor p) (parseJson lib))"

text \<open>The fingerprint of a path of the tree: \<^verbatim>\<open>accessor->getFingerprint(CanonPath(path))\<close>.\<close>

definition accessorFingerprint :: "SourceAccessor \<Rightarrow> bytes \<Rightarrow> fingerprint_error + bytes option" where
  "accessorFingerprint accessor p =
     (case newCanonPath p of
        Inl e \<Rightarrow> Inl (PathThrows e)
      | Inr q \<Rightarrow> (case getFingerprint accessor q of Inl e \<Rightarrow> Inl (AccessorThrows e) | Inr fp \<Rightarrow> Inr fp))"

text \<open>An exception leaves the memo without an entry for the path.\<close>

definition dependencyFingerprintCached ::
  "JsonLibrary \<Rightarrow> SourceAccessor \<Rightarrow> bytes \<Rightarrow> nat \<Rightarrow> FingerprintMemo \<Rightarrow> (fingerprint_error + bytes option) \<times> FingerprintMemo" where
  "dependencyFingerprintCached lib accessor p generation memo =
     (let m = getDependencyFingerprintThreadCache generation memo
      in case fm_fingerprints m p of
           Some fp \<Rightarrow> (Inr fp, m)
         | None \<Rightarrow>
             (let m' = (if startsWith p manifestPrefix \<and> \<not> fm_manifestChecked m
                        then m\<lparr>fm_manifestChecked := True, fm_cachedManifest := readManifest lib accessor\<rparr> else m)
              in case (if startsWith p manifestPrefix
                       then Inr (Option.bind (fm_cachedManifest m') (\<lambda>j. manifestPathFingerprint lib j (drop (length manifestPrefix) p)))
                       else accessorFingerprint accessor p) of
                   Inl e \<Rightarrow> (Inl e, m')
                 | Inr fp \<Rightarrow> (Inr fp, m'\<lparr>fm_fingerprints := (fm_fingerprints m')(p \<mapsto> fp)\<rparr>)))"

fun dependencyFingerprints ::
  "JsonLibrary \<Rightarrow> SourceAccessor \<Rightarrow> bytes list \<Rightarrow> nat \<Rightarrow> FingerprintMemo \<Rightarrow> (fingerprint_error + DependencyClosure) \<times> FingerprintMemo" where
  "dependencyFingerprints lib accessor [] generation m = (Inr [], m)"
| "dependencyFingerprints lib accessor (p # ps) generation m =
     (case dependencyFingerprintCached lib accessor p generation m of
        (Inl e, m') \<Rightarrow> (Inl e, m')
      | (Inr None, m') \<Rightarrow> (Inl (FailedToFingerprint p), m')
      | (Inr (Some fp), m') \<Rightarrow>
          (case dependencyFingerprints lib accessor ps generation m' of
             (Inl e, m'') \<Rightarrow> (Inl e, m'')
           | (Inr rest, m'') \<Rightarrow> (Inr (\<lparr>de_path = p, de_fingerprint = fp\<rparr> # rest), m'')))"

section \<open>Proving a candidate\<close>

record CurrentFingerprints =
  cf_library :: JsonLibrary
  cf_accessor :: SourceAccessor
  cf_generation :: nat

definition currentFingerprint ::
  "DependencyBlobView \<Rightarrow> nat \<Rightarrow> CurrentFingerprints \<Rightarrow> FingerprintMemo \<Rightarrow> (fingerprint_error + bytes option) \<times> FingerprintMemo" where
  "currentFingerprint view pathId cur m =
     (case path view pathId of
        None \<Rightarrow> (Inr None, m)
      | Some p \<Rightarrow> dependencyFingerprintCached (cf_library cur) (cf_accessor cur) p (cf_generation cur) m)"

fun matchPairs ::
  "DependencyBlobView \<Rightarrow> nat \<Rightarrow> nat list \<Rightarrow> CurrentFingerprints \<Rightarrow> FingerprintMemo \<Rightarrow> (fingerprint_error + bool) \<times> FingerprintMemo" where
  "matchPairs view start [] cur m = (Inr True, m)"
| "matchPairs view start (i # is) cur m =
     (case pairIds view (u32 (start + i)) of
        None \<Rightarrow> (Inr False, m)
      | Some (pathId, fingerprintId) \<Rightarrow>
          (case currentFingerprint view pathId cur m of
             (Inl e, m') \<Rightarrow> (Inl e, m')
           | (Inr currentFp, m') \<Rightarrow>
               (case fingerprint view fingerprintId of
                  None \<Rightarrow> (Inr False, m')
                | Some expectedFp \<Rightarrow> (if currentFp \<noteq> Some expectedFp then (Inr False, m') else matchPairs view start is cur m'))))"

definition candidateMatches ::
  "DependencyBlobView \<Rightarrow> nat \<Rightarrow> CurrentFingerprints \<Rightarrow> FingerprintMemo \<Rightarrow> (fingerprint_error + bool) \<times> FingerprintMemo" where
  "candidateMatches view c cur m =
     (case (candidatePairStart view c, candidatePairCount view c, candidatePayload view c) of
        (Some pairStart, Some count, Some payloadId) \<Rightarrow>
          (if pairCount view < pairStart \<or> pairCount view - pairStart < count \<or> payloadCount view \<le> payloadId then (Inr False, m)
           else matchPairs view pairStart [0..<count] cur m)
      | _ \<Rightarrow> (Inr False, m))"

fun firstMatch ::
  "DependencyBlobView \<Rightarrow> nat \<Rightarrow> nat list \<Rightarrow> CurrentFingerprints \<Rightarrow> FingerprintMemo \<Rightarrow> (fingerprint_error + nat option) \<times> FingerprintMemo" where
  "firstMatch view start [] cur m = (Inr None, m)"
| "firstMatch view start (i # is) cur m =
     (let candidateIndex = u32 (start + i)
      in case candidateMatches view candidateIndex cur m of
           (Inl e, m') \<Rightarrow> (Inl e, m')
         | (Inr True, m') \<Rightarrow> (Inr (Some candidateIndex), m')
         | (Inr False, m') \<Rightarrow> firstMatch view start is cur m')"

definition findMatchingCandidate ::
  "DependencyBlobView \<Rightarrow> bytes \<Rightarrow> CurrentFingerprints \<Rightarrow> FingerprintMemo \<Rightarrow> (fingerprint_error + nat option) \<times> FingerprintMemo" where
  "findMatchingCandidate view name cur m =
     (case findTarget view name of
        None \<Rightarrow> (Inr None, m)
      | Some targetId \<Rightarrow>
          (case (targetCandidateStart view targetId, targetCandidateCount view targetId) of
             (Some start, Some count) \<Rightarrow>
               (if candidateCount view < start \<or> candidateCount view - start < count then (Inr None, m)
                else firstMatch view start [0..<count] cur m)
           | _ \<Rightarrow> (Inr None, m)))"

section \<open>The table\<close>

definition fnvOffset :: "64 word" where "fnvOffset = 1469598103934665603"
definition fnvPrime :: "64 word" where "fnvPrime = 1099511628211"

definition fnv :: "bytes \<Rightarrow> 64 word" where
  "fnv s = fold (\<lambda>c h. xor h (of_nat (of_char c)) * fnvPrime) s fnvOffset"

definition dependencyShardForTarget :: "bytes \<Rightarrow> nat" where
  "dependencyShardForTarget s = unat (fnv s mod of_nat dependencyShardCount)"

record TecnixCacheScope =
  sc_resolver :: bytes
  sc_argsKey :: bytes

type_synonym DependencyShards = "TecnixCacheScope \<times> nat \<Rightarrow> bytes option"

definition keysByShard :: "bytes list \<Rightarrow> (nat \<times> nat list) list" where
  "keysByShard keys =
     map (\<lambda>shard. (shard, filter (\<lambda>i. dependencyShardForTarget (keys ! i) = shard) [0..<length keys]))
       (sort_unique (map dependencyShardForTarget keys))"

definition readShardRow :: "DependencyShards \<Rightarrow> TecnixCacheScope \<Rightarrow> nat \<Rightarrow> bytes option" where
  "readShardRow db scope shard = db (scope, shard)"

record DependencyCacheHit =
  hit_view :: DependencyBlobView
  hit_candidate :: nat

definition hitPayload :: "DependencyCacheHit \<Rightarrow> bytes option" where
  "hitPayload hit = candidatePayloadValue (hit_view hit) (hit_candidate hit)"

text \<open>\<^verbatim>\<open>toValue\<close>: the attribute set of paths and fingerprints; \<^const>\<open>None\<close> is \<^verbatim>\<open>MalformedTecnixCacheRow\<close>.\<close>

definition toValue :: "DependencyCacheHit \<Rightarrow> (bytes \<times> bytes) list option" where
  "toValue hit =
     do {
       (start, count) \<leftarrow> storedCandidatePairs (hit_view hit) (hit_candidate hit);
       deps \<leftarrow> those (map (\<lambda>i. decodePair (hit_view hit) (u32 (start + i))) [0..<count]);
       Some (map (\<lambda>d. (de_path d, de_fingerprint d)) deps)
     }"

text \<open>The calls of \<^verbatim>\<open>onHit\<close> in order, the exception that ends the loop, and the memo.\<close>

type_synonym LookupRun = "(nat \<times> DependencyCacheHit) list \<times> fingerprint_error option \<times> FingerprintMemo"

fun lookupIndices ::
  "DependencyBlobView \<Rightarrow> bytes list \<Rightarrow> nat list \<Rightarrow> CurrentFingerprints \<Rightarrow> FingerprintMemo \<Rightarrow> LookupRun" where
  "lookupIndices view keys [] cur m = ([], None, m)"
| "lookupIndices view keys (i # is) cur m =
     (case findMatchingCandidate view (keys ! i) cur m of
        (Inl e, m') \<Rightarrow> ([], Some e, m')
      | (Inr found, m') \<Rightarrow>
          (case lookupIndices view keys is cur m' of
             (hits, e, m'') \<Rightarrow>
               ((case found of None \<Rightarrow> hits | Some c \<Rightarrow> (i, \<lparr>hit_view = view, hit_candidate = c\<rparr>) # hits), e, m'')))"

fun lookupShards ::
  "(nat \<Rightarrow> bool) \<Rightarrow> DependencyShards \<Rightarrow> TecnixCacheScope \<Rightarrow> bytes list \<Rightarrow> (nat \<times> nat list) list \<Rightarrow> CurrentFingerprints \<Rightarrow> FingerprintMemo \<Rightarrow> LookupRun" where
  "lookupShards readFails db scope keys [] cur m = ([], None, m)"
| "lookupShards readFails db scope keys ((shard, indices) # rest) cur m =
     (if readFails shard then lookupShards readFails db scope keys rest cur m
      else
        (case Option.bind (readShardRow db scope shard) openBlob of
           None \<Rightarrow> lookupShards readFails db scope keys rest cur m
         | Some view \<Rightarrow>
             (case lookupIndices view keys indices cur m of
                (hits, Some e, m') \<Rightarrow> (hits, Some e, m')
              | (hits, None, m') \<Rightarrow>
                  (case lookupShards readFails db scope keys rest cur m' of (others, e, m'') \<Rightarrow> (hits @ others, e, m'')))))"

text \<open>
  A database that cannot be opened means no calls; only the access to the database is guarded, so that an
  exception of fingerprinting ends the whole lookup.
\<close>

definition lookupCachedDependencies ::
  "bool \<Rightarrow> (nat \<Rightarrow> bool) \<Rightarrow> DependencyShards \<Rightarrow> TecnixCacheScope \<Rightarrow> bytes list \<Rightarrow> CurrentFingerprints \<Rightarrow> FingerprintMemo \<Rightarrow> LookupRun" where
  "lookupCachedDependencies openFails readFails db scope keys cur m =
     (if keys = [] \<or> openFails then ([], None, m) else lookupShards readFails db scope keys (keysByShard keys) cur m)"

definition updatesOf :: "nat \<Rightarrow> TecnixDependencyUpsert list \<Rightarrow> TecnixDependencyUpsert list" where
  "updatesOf shard entries = filter (\<lambda>e. dependencyShardForTarget (up_target e) = shard) entries"

text \<open>One shard of \<^verbatim>\<open>upsertMany\<close>: an exception of the merge or of the database leaves the row as it is.\<close>

definition upsertShard ::
  "(nat \<Rightarrow> bool) \<Rightarrow> nat \<Rightarrow> TecnixCacheScope \<Rightarrow> TecnixDependencyUpsert list \<Rightarrow> nat \<Rightarrow> nat \<Rightarrow> DependencyShards \<Rightarrow> DependencyShards" where
  "upsertShard writeFails maxRowBytes scope entries historyLimit shard db =
     (if writeFails shard then db
      else
        (case mergedShardRow (readShardRow db scope shard) (updatesOf shard entries) historyLimit maxRowBytes of
           Inl e \<Rightarrow> db
         | Inr (outcome, out) \<Rightarrow> db((scope, shard) \<mapsto> out)))"

text \<open>The shards are visited in the order of a hash table, which is the parameter \<open>order\<close>.\<close>

definition upsertMany ::
  "(nat \<Rightarrow> bool) \<Rightarrow> nat \<Rightarrow> nat list \<Rightarrow> TecnixCacheScope \<Rightarrow> TecnixDependencyUpsert list \<Rightarrow> nat \<Rightarrow> DependencyShards \<Rightarrow> DependencyShards" where
  "upsertMany writeFails maxRowBytes order scope entries historyLimit db =
     fold (upsertShard writeFails maxRowBytes scope entries historyLimit) order db"

definition upsertDependencyClosures ::
  "bool \<Rightarrow> (nat \<Rightarrow> bool) \<Rightarrow> nat \<Rightarrow> nat list \<Rightarrow> TecnixCacheScope \<Rightarrow> TecnixDependencyUpsert list \<Rightarrow> nat \<Rightarrow> DependencyShards \<Rightarrow> DependencyShards" where
  "upsertDependencyClosures openFails writeFails maxRowBytes order scope entries historyLimit db =
     (if entries = [] \<or> openFails then db else upsertMany writeFails maxRowBytes order scope entries historyLimit db)"

section \<open>The memo is transparent\<close>

definition trueFingerprint :: "CurrentFingerprints \<Rightarrow> bytes \<Rightarrow> fingerprint_error + bytes option" where
  "trueFingerprint cur p =
     (if startsWith p manifestPrefix
      then Inr (Option.bind (readManifest (cf_library cur) (cf_accessor cur))
        (\<lambda>j. manifestPathFingerprint (cf_library cur) j (drop (length manifestPrefix) p)))
      else accessorFingerprint (cf_accessor cur) p)"

definition memoOk :: "CurrentFingerprints \<Rightarrow> FingerprintMemo \<Rightarrow> bool" where
  "memoOk cur m \<longleftrightarrow> (fm_generation m = cf_generation cur \<longrightarrow>
     (\<forall>p fp. fm_fingerprints m p = Some fp \<longrightarrow> trueFingerprint cur p = Inr fp) \<and>
     (fm_manifestChecked m \<longrightarrow> fm_cachedManifest m = readManifest (cf_library cur) (cf_accessor cur)))"

lemma dependencyFingerprintCached_ok:
  assumes ok: "memoOk cur m"
  shows "fst (dependencyFingerprintCached (cf_library cur) (cf_accessor cur) p (cf_generation cur) m) = trueFingerprint cur p"
    and "memoOk cur (snd (dependencyFingerprintCached (cf_library cur) (cf_accessor cur) p (cf_generation cur) m))"
proof -
  define m1 where "m1 = getDependencyFingerprintThreadCache (cf_generation cur) m"
  have g: "fm_generation m1 = cf_generation cur" by (simp add: m1_def getDependencyFingerprintThreadCache_def)
  have ok1: "memoOk cur m1" using ok by (auto simp: m1_def getDependencyFingerprintThreadCache_def memoOk_def)
  define m2 where "m2 = (if startsWith p manifestPrefix \<and> \<not> fm_manifestChecked m1
      then m1\<lparr>fm_manifestChecked := True, fm_cachedManifest := readManifest (cf_library cur) (cf_accessor cur)\<rparr> else m1)"
  have ok2: "memoOk cur m2" "fm_generation m2 = cf_generation cur" using ok1 g by (auto simp: m2_def memoOk_def)
  have man: "fm_cachedManifest m2 = readManifest (cf_library cur) (cf_accessor cur)" if "startsWith p manifestPrefix"
    using ok1 g that by (auto simp: m2_def memoOk_def)
  have fp: "(if startsWith p manifestPrefix then Inr (Option.bind (fm_cachedManifest m2) (\<lambda>j. manifestPathFingerprint (cf_library cur) j (drop (length manifestPrefix) p)))
      else accessorFingerprint (cf_accessor cur) p) = trueFingerprint cur p" using man by (simp add: trueFingerprint_def)
  have eq: "dependencyFingerprintCached (cf_library cur) (cf_accessor cur) p (cf_generation cur) m = (case fm_fingerprints m1 p of Some fp \<Rightarrow> (Inr fp, m1)
      | None \<Rightarrow> (case trueFingerprint cur p of Inl e \<Rightarrow> (Inl e, m2) | Inr fp \<Rightarrow> (Inr fp, m2\<lparr>fm_fingerprints := (fm_fingerprints m2)(p \<mapsto> fp)\<rparr>)))"
    unfolding dependencyFingerprintCached_def Let_def m1_def [symmetric] m2_def [symmetric] fp ..
  show "fst (dependencyFingerprintCached (cf_library cur) (cf_accessor cur) p (cf_generation cur) m) = trueFingerprint cur p"
    using ok1 g by (auto simp: eq memoOk_def split: option.split sum.split)
  show "memoOk cur (snd (dependencyFingerprintCached (cf_library cur) (cf_accessor cur) p (cf_generation cur) m))"
    using ok1 ok2 by (auto simp: eq memoOk_def split: option.split sum.split)
qed

text \<open>Certifying without a memo: every path needs a fingerprint.\<close>

definition certified :: "CurrentFingerprints \<Rightarrow> bytes \<Rightarrow> fingerprint_error + DependencyEntry" where
  "certified cur p =
     ebind (trueFingerprint cur p) (\<lambda>fp. ebind (require (FailedToFingerprint p) fp) (\<lambda>fp. Inr \<lparr>de_path = p, de_fingerprint = fp\<rparr>))"

lemma dependencyFingerprints_ok:
  assumes "memoOk cur m"
  shows "memoOk cur (snd (dependencyFingerprints (cf_library cur) (cf_accessor cur) ps (cf_generation cur) m))"
    and "fst (dependencyFingerprints (cf_library cur) (cf_accessor cur) ps (cf_generation cur) m) = mapE (certified cur) ps"
proof -
  have "memoOk cur m \<Longrightarrow> memoOk cur (snd (dependencyFingerprints (cf_library cur) (cf_accessor cur) ps (cf_generation cur) m)) \<and>
    fst (dependencyFingerprints (cf_library cur) (cf_accessor cur) ps (cf_generation cur) m) = mapE (certified cur) ps" for m
  proof (induction ps arbitrary: m)
    case (Cons p ps)
    obtain fp m1 where one: "dependencyFingerprintCached (cf_library cur) (cf_accessor cur) p (cf_generation cur) m = (fp, m1)" by (meson surj_pair)
    with dependencyFingerprintCached_ok [OF Cons.prems, of p] have ok: "fp = trueFingerprint cur p" "memoOk cur m1" by simp_all
    obtain r m2 where two: "dependencyFingerprints (cf_library cur) (cf_accessor cur) ps (cf_generation cur) m1 = (r, m2)" by (meson surj_pair)
    from Cons.IH [OF ok(2)] two have r: "memoOk cur m2" "mapE (certified cur) ps = r" by simp_all
    have c: "certified cur p = (case fp of Inl e \<Rightarrow> Inl e | Inr None \<Rightarrow> Inl (FailedToFingerprint p) | Inr (Some x) \<Rightarrow> Inr \<lparr>de_path = p, de_fingerprint = x\<rparr>)"
      by (simp add: certified_def ok(1) [symmetric] split: sum.split option.split)
    consider (err) e where "fp = Inl e" | (none) "fp = Inr None" | (some) x where "fp = Inr (Some x)"
      by (cases fp) (auto simp: not_Some_eq)
    then show ?case using one two ok(2) r(1) by cases (simp_all add: c r(2), cases r, simp_all)
  qed simp
  with assms show "memoOk cur (snd (dependencyFingerprints (cf_library cur) (cf_accessor cur) ps (cf_generation cur) m))"
    "fst (dependencyFingerprints (cf_library cur) (cf_accessor cur) ps (cf_generation cur) m) = mapE (certified cur) ps" by blast+
qed

section \<open>Proving candidates\<close>

definition matches :: "CurrentFingerprints \<Rightarrow> Candidate \<Rightarrow> bool" where
  "matches cur cand \<longleftrightarrow> (\<forall>d \<in> set (cd_dependencies cand). trueFingerprint cur (de_path d) = Inr (Some (de_fingerprint d)))"

definition proven :: "DependencyBlobView \<Rightarrow> CurrentFingerprints \<Rightarrow> nat \<Rightarrow> bool" where
  "proven vw cur c \<longleftrightarrow> (\<exists>cand. decodeCandidate vw c = Some cand \<and> matches cur cand)"

lemma strings_total:
  assumes "openBlob b = Some vw"
  shows "i < pathCount vw \<Longrightarrow> \<exists>s. path vw i = Some s" "i < fingerprintCount vw \<Longrightarrow> \<exists>s. fingerprint vw i = Some s"
    "i < payloadCount vw \<Longrightarrow> \<exists>s. payload vw i = Some s"
  using stringTable_total [of vw "pathOffsetsOffset vw" "fingerprintOffsetsOffset vw" "pathCount vw" i]
    stringTable_total [of vw "fingerprintOffsetsOffset vw" "payloadOffsetsOffset vw" "fingerprintCount vw" i]
    stringTable_total [of vw "payloadOffsetsOffset vw" "candidateRecordsOffset vw" "payloadCount vw" i]
    openBlob_view [OF assms] viewOkD(7-9) [of vw]
  by (auto simp: path_def fingerprint_def payload_def stringFromTable_def)

lemma pairIds_less: "pairIds vw k = Some (p, q) \<Longrightarrow> p < pathCount vw \<and> q < fingerprintCount vw"
  by (auto simp: pairIds_def split: bind_splits if_splits)

text \<open>The same checks without the memo.\<close>

fun checkPairs :: "DependencyBlobView \<Rightarrow> nat \<Rightarrow> CurrentFingerprints \<Rightarrow> nat list \<Rightarrow> fingerprint_error + bool" where
  "checkPairs vw start cur [] = Inr True"
| "checkPairs vw start cur (i # is) =
     (case decodePair vw (u32 (start + i)) of
        None \<Rightarrow> Inr False
      | Some d \<Rightarrow> ebind (trueFingerprint cur (de_path d)) (\<lambda>fp.
          if fp = Some (de_fingerprint d) then checkPairs vw start cur is else Inr False))"

definition checkCandidate :: "DependencyBlobView \<Rightarrow> CurrentFingerprints \<Rightarrow> nat \<Rightarrow> fingerprint_error + bool" where
  "checkCandidate vw cur c =
     (case (candidatePairStart vw c, candidatePairCount vw c, candidatePayload vw c) of
        (Some pairStart, Some count, Some payloadId) \<Rightarrow>
          (if pairCount vw < pairStart \<or> pairCount vw - pairStart < count \<or> payloadCount vw \<le> payloadId then Inr False
           else checkPairs vw pairStart cur [0..<count])
      | _ \<Rightarrow> Inr False)"

fun firstProven :: "DependencyBlobView \<Rightarrow> CurrentFingerprints \<Rightarrow> nat list \<Rightarrow> fingerprint_error + nat option" where
  "firstProven vw cur [] = Inr None"
| "firstProven vw cur (c # cs) = ebind (checkCandidate vw cur c) (\<lambda>b. if b then Inr (Some c) else firstProven vw cur cs)"

definition provenCandidate :: "DependencyBlobView \<Rightarrow> CurrentFingerprints \<Rightarrow> bytes \<Rightarrow> fingerprint_error + nat option" where
  "provenCandidate vw cur name =
     (case Option.bind (findTarget vw name) (targetCandidates vw) of
        None \<Rightarrow> Inr None
      | Some (_, start, count) \<Rightarrow> firstProven vw cur (map (\<lambda>i. u32 (start + i)) [0..<count]))"

lemma matchPairs_ok:
  assumes "openBlob b = Some vw" "memoOk cur m" "matchPairs vw start is cur m = (r, m')"
  shows "memoOk cur m' \<and> r = checkPairs vw start cur is"
  using assms(2,3)
proof (induction "is" arbitrary: m)
  case (Cons i "is")
  show ?case
  proof (cases "pairIds vw (u32 (start + i))")
    case None
    with Cons.prems show ?thesis by (auto simp: decodePair_def)
  next
    case (Some ids)
    obtain p q where "ids = (p, q)" by (cases ids)
    with Some have pq: "pairIds vw (u32 (start + i)) = Some (p, q)" by simp
    from pairIds_less [OF pq] strings_total [OF assms(1)] obtain s t where st: "path vw p = Some s" "fingerprint vw q = Some t" by blast
    define c where "c = dependencyFingerprintCached (cf_library cur) (cf_accessor cur) s (cf_generation cur) m"
    note ok = dependencyFingerprintCached_ok [OF Cons.prems(1), of s, folded c_def]
    have d: "decodePair vw (u32 (start + i)) = Some \<lparr>de_path = s, de_fingerprint = t\<rparr>" using pq st by (simp add: decodePair_def)
    have run: "(case fst c of Inl e \<Rightarrow> (Inl e, snd c) | Inr fp \<Rightarrow>
        if fp \<noteq> Some t then (Inr False, snd c) else matchPairs vw start is cur (snd c)) = (r, m')"
      using Cons.prems(2) pq st by (cases c) (auto simp: currentFingerprint_def c_def [symmetric] split: sum.splits if_splits)
    show ?thesis using run ok d Cons.IH [OF ok(2)]
      by (auto split: sum.splits if_splits)
  qed
qed simp

lemma candidateMatches_ok:
  assumes "openBlob b = Some vw" "memoOk cur m" "candidateMatches vw c cur m = (r, m')"
  shows "memoOk cur m' \<and> r = checkCandidate vw cur c"
  using assms(2,3) matchPairs_ok [OF assms(1,2)]
  by (auto simp: candidateMatches_def checkCandidate_def split: option.splits if_splits)

lemma firstMatch_ok:
  assumes "openBlob b = Some vw" "memoOk cur m" "firstMatch vw start is cur m = (r, m')"
  shows "memoOk cur m' \<and> r = firstProven vw cur (map (\<lambda>i. u32 (start + i)) is)"
  using assms(2,3)
proof (induction "is" arbitrary: m)
  case (Cons i "is")
  obtain b1 m1 where one: "candidateMatches vw (u32 (start + i)) cur m = (b1, m1)" by (meson surj_pair)
  from candidateMatches_ok [OF assms(1) Cons.prems(1) one] have ok: "memoOk cur m1" "checkCandidate vw cur (u32 (start + i)) = b1" by simp_all
  show ?case using Cons.prems(2) one ok Cons.IH [OF ok(1)]
    by (auto simp: Let_def split: sum.splits bool.splits)
qed simp

lemma findMatchingCandidate_ok:
  assumes "openBlob b = Some vw" "memoOk cur m" "findMatchingCandidate vw name cur m = (r, m')"
  shows "memoOk cur m' \<and> r = provenCandidate vw cur name"
proof (cases "findTarget vw name")
  case None
  with assms show ?thesis by (simp add: findMatchingCandidate_def provenCandidate_def)
next
  case (Some t)
  from findTarget_sound [OF this] have t: "target vw t = Some name" by simp
  from Some assms(2,3) t show ?thesis
    by (auto simp: findMatchingCandidate_def provenCandidate_def targetCandidates_def split: option.splits if_splits dest: firstMatch_ok [OF assms(1,2)])
qed

section \<open>What the checks prove\<close>

lemma checkPairs_True:
  "checkPairs vw start cur is = Inr True \<longleftrightarrow>
    (\<forall>i \<in> set is. \<exists>d. decodePair vw (u32 (start + i)) = Some d \<and> trueFingerprint cur (de_path d) = Inr (Some (de_fingerprint d)))"
  by (induction "is") (auto simp: bind_defs split: option.splits if_splits)

lemma checkPairs_error: "checkPairs vw start cur is = Inl e \<Longrightarrow> \<exists>p. trueFingerprint cur p = Inl e"
  by (induction "is") (auto simp: ebind_eq_Inl split: option.splits if_splits)

lemma checkCandidate_error: "checkCandidate vw cur c = Inl e \<Longrightarrow> \<exists>p. trueFingerprint cur p = Inl e"
  using checkPairs_error by (auto simp: checkCandidate_def split: option.splits if_splits)

lemma list_all2_choice:
  "(\<forall>x \<in> set xs. \<exists>y. f x = Some y \<and> P y) \<longleftrightarrow> (\<exists>ys. list_all2 (\<lambda>x y. f x = Some y) xs ys \<and> (\<forall>y \<in> set ys. P y))"
proof (induction xs)
  case (Cons x xs)
  have "(\<exists>ys. list_all2 (\<lambda>x y. f x = Some y) (x # xs) ys \<and> (\<forall>y \<in> set ys. P y)) \<longleftrightarrow>
      (\<exists>y ys. f x = Some y \<and> P y \<and> list_all2 (\<lambda>x y. f x = Some y) xs ys \<and> (\<forall>y \<in> set ys. P y))"
    by (auto simp: list_all2_Cons1) (metis list.set_intros(1,2) set_ConsD)
  with Cons show ?case by auto
qed simp

lemma checkCandidate_cases:
  obtains (fields) ps count py where "candidatePairStart vw c = Some ps" "candidatePairCount vw c = Some count" "candidatePayload vw c = Some py"
      "\<not> (pairCount vw < ps \<or> pairCount vw - ps < count \<or> payloadCount vw \<le> py)"
    | (bad) "checkCandidate vw cur c = Inr False" "decodeCandidate vw c = None"
proof (cases "candidatePairStart vw c")
  case None
  then show thesis by (intro bad) (auto simp: checkCandidate_def decodeCandidate_def storedCandidatePairs_def split: bind_splits)
next
  case (Some ps)
  note s = this
  show thesis
  proof (cases "candidatePairCount vw c")
    case None
    then show thesis using s by (intro bad) (auto simp: checkCandidate_def decodeCandidate_def storedCandidatePairs_def split: bind_splits)
  next
    case (Some count)
    note t = this
    show thesis
    proof (cases "candidatePayload vw c")
      case None
      then show thesis using s t by (intro bad) (auto simp: checkCandidate_def decodeCandidate_def candidatePayloadValue_def split: bind_splits)
    next
      case (Some py)
      have "payloadCount vw \<le> py \<Longrightarrow> payload vw py = None" by (simp add: payload_def stringFromTable_def stringSpan_def)
      with s t Some show thesis
        by (cases "pairCount vw < ps \<or> pairCount vw - ps < count \<or> payloadCount vw \<le> py")
          (auto intro: fields bad simp: checkCandidate_def decodeCandidate_def candidatePayloadValue_def storedCandidatePairs_def split: bind_splits)
    qed
  qed
qed

lemma checkCandidate_proven:
  assumes o: "openBlob b = Some vw"
  shows "checkCandidate vw cur c = Inr True \<longleftrightarrow> proven vw cur c"
proof (cases rule: checkCandidate_cases [where vw = vw and c = c and cur = cur])
  case (fields ps count py)
  then obtain s where s: "payload vw py = Some s" using strings_total(3) [OF o, of py] by auto
  from fields have c: "candidatePayloadValue vw c = Some s" "storedCandidatePairs vw c = Some (ps, count)"
    by (simp_all add: candidatePayloadValue_def storedCandidatePairs_def s)
  have e: "checkCandidate vw cur c = checkPairs vw ps cur [0..<count]" using fields by (simp add: checkCandidate_def)
  have "proven vw cur c \<longleftrightarrow> (\<exists>ds. list_all2 (\<lambda>i d. decodePair vw (u32 (ps + i)) = Some d) [0..<count] ds \<and> (\<forall>d \<in> set ds. trueFingerprint cur (de_path d) = Inr (Some (de_fingerprint d))))"
    using c by (auto simp: proven_def decodeCandidate_def those_map_Some matches_def split: bind_splits) (metis those_map_Some not_None_eq option.sel)+
  then show ?thesis by (simp add: e checkPairs_True list_all2_choice [symmetric])
next
  case bad
  then show ?thesis by (simp add: proven_def)
qed

lemma firstProven_Some: "firstProven vw cur cs = Inr (Some c) \<Longrightarrow> c \<in> set cs \<and> checkCandidate vw cur c = Inr True"
  by (induction cs) (auto simp: bind_defs split: if_splits)

lemma firstProven_error: "firstProven vw cur cs = Inl e \<Longrightarrow> \<exists>p. trueFingerprint cur p = Inl e"
  by (induction cs) (auto simp: ebind_eq_Inl checkCandidate_error split: if_splits)

lemma provenCandidate_error: "provenCandidate vw cur name = Inl e \<Longrightarrow> \<exists>p. trueFingerprint cur p = Inl e"
  by (auto simp: provenCandidate_def firstProven_error split: option.splits)

lemma provenCandidateD:
  assumes "openBlob b = Some vw" "provenCandidate vw cur name = Inr (Some c)"
  shows "\<exists>cand t. target vw t = Some name \<and> decodeCandidate vw c = Some cand \<and> matches cur cand"
proof -
  obtain t nm start count where t: "findTarget vw name = Some t" "targetCandidates vw t = Some (nm, start, count)"
      "firstProven vw cur (map (\<lambda>i. u32 (start + i)) [0..<count]) = Inr (Some c)"
    using assms(2) by (auto simp: provenCandidate_def split: option.splits bind_splits)
  then show ?thesis using firstProven_Some [OF t(3)] checkCandidate_proven [OF assms(1)] findTarget_sound [OF t(1)]
    by (auto simp: proven_def)
qed

section \<open>Looking up\<close>

text \<open>Runs one after the other: hits, until one of them ends with an exception.\<close>

definition andThen :: "'h list \<times> 'e option \<Rightarrow> 'h list \<times> 'e option \<Rightarrow> 'h list \<times> 'e option" where
  "andThen r r' = (case snd r of Some e \<Rightarrow> r | None \<Rightarrow> (fst r @ fst r', snd r'))"

definition runHits :: "('a \<Rightarrow> 'h list \<times> 'e option) \<Rightarrow> 'a list \<Rightarrow> 'h list \<times> 'e option" where
  "runHits f xs = foldr (\<lambda>x. andThen (f x)) xs ([], None)"

lemma runHits_simps [simp]: "runHits f [] = ([], None)" "runHits f (x # xs) = andThen (f x) (runHits f xs)"
  by (simp_all add: runHits_def)

lemma runHits_sub: "h \<in> set (fst (runHits f xs)) \<Longrightarrow> \<exists>x \<in> set xs. h \<in> set (fst (f x))"
  by (induction xs) (auto simp: andThen_def split: option.splits)

lemma runHits_all: "snd (runHits f xs) = None \<Longrightarrow> x \<in> set xs \<Longrightarrow> h \<in> set (fst (f x)) \<Longrightarrow> h \<in> set (fst (runHits f xs))"
  by (induction xs) (auto simp: andThen_def split: option.splits)

lemma runHits_error: "snd (runHits f xs) = Some e \<Longrightarrow> \<exists>x \<in> set xs. snd (f x) = Some e"
  by (induction xs) (auto simp: andThen_def split: option.splits)

lemma runHits_None: "snd (runHits f xs) = None \<Longrightarrow> x \<in> set xs \<Longrightarrow> snd (f x) = None"
  by (induction xs) (auto simp: andThen_def split: option.splits)

definition keyHits :: "DependencyBlobView \<Rightarrow> CurrentFingerprints \<Rightarrow> bytes list \<Rightarrow> nat \<Rightarrow> (nat \<times> DependencyCacheHit) list \<times> fingerprint_error option" where
  "keyHits vw cur keys i =
     (case provenCandidate vw cur (keys ! i) of
        Inl e \<Rightarrow> ([], Some e)
      | Inr None \<Rightarrow> ([], None)
      | Inr (Some c) \<Rightarrow> ([(i, \<lparr>hit_view = vw, hit_candidate = c\<rparr>)], None))"

definition shardHits ::
  "(nat \<Rightarrow> bool) \<Rightarrow> DependencyShards \<Rightarrow> TecnixCacheScope \<Rightarrow> CurrentFingerprints \<Rightarrow> bytes list \<Rightarrow> nat \<times> nat list
     \<Rightarrow> (nat \<times> DependencyCacheHit) list \<times> fingerprint_error option" where
  "shardHits readFails db scope cur keys = (\<lambda>(shard, is). if readFails shard then ([], None) else
     (case Option.bind (readShardRow db scope shard) openBlob of
        None \<Rightarrow> ([], None)
      | Some vw \<Rightarrow> runHits (keyHits vw cur keys) is))"

lemma lookupIndices_ok:
  assumes "openBlob b = Some vw" "memoOk cur m" "lookupIndices vw keys is cur m = (hits, e, m')"
  shows "memoOk cur m' \<and> runHits (keyHits vw cur keys) is = (hits, e)"
  using assms(2,3)
proof (induction "is" arbitrary: m m' hits e)
  case (Cons i "is")
  obtain r m1 where one: "findMatchingCandidate vw (keys ! i) cur m = (r, m1)" by (meson surj_pair)
  from findMatchingCandidate_ok [OF assms(1) Cons.prems(1) one]
  have ok: "memoOk cur m1" "provenCandidate vw cur (keys ! i) = r" by simp_all
  obtain hs e1 m2 where two: "lookupIndices vw keys is cur m1 = (hs, e1, m2)" by (metis prod_cases3)
  from Cons.IH [OF ok(1) two] have r: "memoOk cur m2" "runHits (keyHits vw cur keys) is = (hs, e1)" by simp_all
  consider (err) x where "r = Inl x" | (none) "r = Inr None" | (some) c where "r = Inr (Some c)"
    by (cases r) (auto simp: not_Some_eq)
  then show ?case
  proof cases
    case err
    then have "keyHits vw cur keys i = ([], Some x)" using ok(2) by (simp add: keyHits_def)
    then show ?thesis using err Cons.prems(2) one ok(1) by (auto simp add: andThen_def)
  next
    case none
    then have "keyHits vw cur keys i = ([], None)" using ok(2) by (simp add: keyHits_def)
    then show ?thesis using none Cons.prems(2) one two r by (simp add: andThen_def)
  next
    case (some c)
    then have "keyHits vw cur keys i = ([(i, \<lparr>hit_view = vw, hit_candidate = c\<rparr>)], None)" using ok(2) by (simp add: keyHits_def)
    then show ?thesis using some Cons.prems(2) one two r by (simp add: andThen_def)
  qed
qed simp

lemma lookupShards_ok:
  assumes "memoOk cur m" "lookupShards readFails db scope keys ss cur m = (hits, e, m')"
  shows "memoOk cur m' \<and> runHits (shardHits readFails db scope cur keys) ss = (hits, e)"
  using assms
proof (induction ss arbitrary: m m' hits e)
  case (Cons s ss)
  obtain shard "is" where s: "s = (shard, is)" by (cases s)
  show ?case
  proof (cases "readFails shard \<or> Option.bind (readShardRow db scope shard) openBlob = None")
    case True
    with Cons s show ?thesis by (auto simp: shardHits_def andThen_def)
  next
    case False
    then obtain row vw where row: "readShardRow db scope shard = Some row" "openBlob row = Some vw" by (auto split: bind_splits)
    obtain hs e1 m1 where one: "lookupIndices vw keys is cur m = (hs, e1, m1)" by (metis prod_cases3)
    note ok = lookupIndices_ok [OF row(2) Cons.prems(1) one]
    obtain hs2 e2 m2 where two: "lookupShards readFails db scope keys ss cur m1 = (hs2, e2, m2)" by (metis prod_cases3)
    with Cons.IH [of m1] ok have "memoOk cur m2" "runHits (shardHits readFails db scope cur keys) ss = (hs2, e2)" by auto
    with Cons.prems(2) one two ok row False s show ?thesis
      by (cases e1) (auto simp: shardHits_def andThen_def)
  qed
qed simp

text \<open>The whole lookup without a memo.\<close>

definition lookupHits ::
  "(nat \<Rightarrow> bool) \<Rightarrow> DependencyShards \<Rightarrow> TecnixCacheScope \<Rightarrow> bytes list \<Rightarrow> CurrentFingerprints \<Rightarrow> (nat \<times> DependencyCacheHit) list \<times> fingerprint_error option" where
  "lookupHits readFails db scope keys cur = runHits (shardHits readFails db scope cur keys) (keysByShard keys)"

lemma lookup_ok:
  assumes "memoOk cur m" "lookupCachedDependencies False readFails db scope keys cur m = (hits, e, m')"
  shows "memoOk cur m' \<and> lookupHits readFails db scope keys cur = (hits, e)"
proof (cases "keys = []")
  case True
  then show ?thesis using assms by (simp add: lookupCachedDependencies_def lookupHits_def keysByShard_def sort_unique_def)
next
  case False
  then show ?thesis using lookupShards_ok [OF assms(1)] assms(2) by (simp add: lookupCachedDependencies_def lookupHits_def)
qed

lemma keysByShard_iff: "(shard, is) \<in> set (keysByShard keys) \<longleftrightarrow>
    shard \<in> set (map dependencyShardForTarget keys) \<and> is = filter (\<lambda>i. dependencyShardForTarget (keys ! i) = shard) [0..<length keys]"
  by (auto simp: keysByShard_def)

text \<open>A key has a row, and the row proves a candidate.\<close>

definition rowOf :: "(nat \<Rightarrow> bool) \<Rightarrow> DependencyShards \<Rightarrow> TecnixCacheScope \<Rightarrow> bytes \<Rightarrow> DependencyBlobView option" where
  "rowOf readFails db scope key =
     (let s = dependencyShardForTarget key in if readFails s then None else Option.bind (db (scope, s)) openBlob)"

lemma keyHits_sub: "(i, hit) \<in> set (fst (keyHits vw cur keys j)) \<Longrightarrow>
    i = j \<and> hit_view hit = vw \<and> provenCandidate vw cur (keys ! i) = Inr (Some (hit_candidate hit))"
  by (auto simp: keyHits_def split: sum.splits option.splits)

lemma keyHits_error: "snd (keyHits vw cur keys j) = Some e \<Longrightarrow> provenCandidate vw cur (keys ! j) = Inl e"
  by (auto simp: keyHits_def split: sum.splits option.splits)

lemma shardHits_rowOf:
  assumes "s \<in> set (keysByShard keys)"
  shows "(i, hit) \<in> set (fst (shardHits readFails db scope cur keys s)) \<Longrightarrow>
      i \<in> set (snd s) \<and> rowOf readFails db scope (keys ! i) = Some (hit_view hit) \<and>
      provenCandidate (hit_view hit) cur (keys ! i) = Inr (Some (hit_candidate hit))"
    and "snd (shardHits readFails db scope cur keys s) = Some e \<Longrightarrow>
      \<exists>i vw. i \<in> set (snd s) \<and> rowOf readFails db scope (keys ! i) = Some vw \<and> provenCandidate vw cur (keys ! i) = Inl e"
    and "snd (shardHits readFails db scope cur keys s) = None \<Longrightarrow> i \<in> set (snd s) \<Longrightarrow> rowOf readFails db scope (keys ! i) = Some vw \<Longrightarrow>
      provenCandidate vw cur (keys ! i) = Inr (Some c) \<Longrightarrow>
      (i, \<lparr>hit_view = vw, hit_candidate = c\<rparr>) \<in> set (fst (shardHits readFails db scope cur keys s))"
proof -
  obtain shard "is" where s: "s = (shard, is)" by (cases s)
  define v where "v = (if readFails shard then None else Option.bind (readShardRow db scope shard) openBlob)"
  have sh: "shardHits readFails db scope cur keys s = (case v of None \<Rightarrow> ([], None) | Some vw \<Rightarrow> runHits (keyHits vw cur keys) is)"
    by (simp add: s v_def shardHits_def)
  have k: "rowOf readFails db scope (keys ! j) = v" if "j \<in> set is" for j
    using assms that by (auto simp: s keysByShard_iff rowOf_def readShardRow_def v_def)
  show "i \<in> set (snd s) \<and> rowOf readFails db scope (keys ! i) = Some (hit_view hit) \<and>
      provenCandidate (hit_view hit) cur (keys ! i) = Inr (Some (hit_candidate hit))"
    if "(i, hit) \<in> set (fst (shardHits readFails db scope cur keys s))"
  proof (cases v)
    case None
    then show ?thesis using that sh by simp
  next
    case (Some vw)
    then have "(i, hit) \<in> set (fst (runHits (keyHits vw cur keys) is))" using that sh by simp
    from runHits_sub [OF this] obtain j where j: "j \<in> set is" "(i, hit) \<in> set (fst (keyHits vw cur keys j))" by blast
    then show ?thesis using keyHits_sub [OF j(2)] k [OF j(1)] Some by (auto simp: s)
  qed
  show "\<exists>i vw. i \<in> set (snd s) \<and> rowOf readFails db scope (keys ! i) = Some vw \<and> provenCandidate vw cur (keys ! i) = Inl e"
    if "snd (shardHits readFails db scope cur keys s) = Some e"
  proof (cases v)
    case None
    then show ?thesis using that sh by simp
  next
    case (Some vw)
    then have "snd (runHits (keyHits vw cur keys) is) = Some e" using that sh by simp
    from runHits_error [OF this] obtain j where j: "j \<in> set is" "snd (keyHits vw cur keys j) = Some e" by blast
    then show ?thesis using keyHits_error [OF j(2)] k [OF j(1)] Some by (intro exI [of _ j] exI [of _ vw]) (simp add: s)
  qed
  show "(i, \<lparr>hit_view = vw, hit_candidate = c\<rparr>) \<in> set (fst (shardHits readFails db scope cur keys s))"
    if a: "snd (shardHits readFails db scope cur keys s) = None" "i \<in> set (snd s)" "rowOf readFails db scope (keys ! i) = Some vw"
      "provenCandidate vw cur (keys ! i) = Inr (Some c)"
  proof -
    have i: "i \<in> set is" using a(2) by (simp add: s)
    then have "v = Some vw" using k a(3) by simp
    then have e: "shardHits readFails db scope cur keys s = runHits (keyHits vw cur keys) is" using sh by simp
    have "(i, \<lparr>hit_view = vw, hit_candidate = c\<rparr>) \<in> set (fst (keyHits vw cur keys i))" using a(4) by (simp add: keyHits_def)
    from runHits_all [OF a(1) [unfolded e] i this] show ?thesis unfolding e .
  qed
qed

text \<open>The hits are keys whose row holds a proven candidate, all of them unless an exception ends the lookup.\<close>

lemma lookupHits_sound:
  assumes "(i, hit) \<in> set (fst (lookupHits readFails db scope keys cur))"
  shows "i < length keys \<and> rowOf readFails db scope (keys ! i) = Some (hit_view hit) \<and>
    provenCandidate (hit_view hit) cur (keys ! i) = Inr (Some (hit_candidate hit))"
proof -
  obtain s where s: "s \<in> set (keysByShard keys)" "(i, hit) \<in> set (fst (shardHits readFails db scope cur keys s))"
    using runHits_sub [OF assms [unfolded lookupHits_def]] by blast
  from shardHits_rowOf(1) [OF this] s(1) show ?thesis by (cases s) (auto simp: keysByShard_iff)
qed

lemma lookupHits_complete:
  assumes "snd (lookupHits readFails db scope keys cur) = None" "i < length keys" "rowOf readFails db scope (keys ! i) = Some vw"
    "provenCandidate vw cur (keys ! i) = Inr (Some c)"
  shows "(i, \<lparr>hit_view = vw, hit_candidate = c\<rparr>) \<in> set (fst (lookupHits readFails db scope keys cur))"
proof -
  let ?s = "(dependencyShardForTarget (keys ! i), filter (\<lambda>j. dependencyShardForTarget (keys ! j) = dependencyShardForTarget (keys ! i)) [0..<length keys])"
  have s: "?s \<in> set (keysByShard keys)" "i \<in> set (snd ?s)" using assms(2) by (auto simp: keysByShard_iff)
  have n: "snd (shardHits readFails db scope cur keys ?s) = None"
    by (rule runHits_None [OF assms(1) [unfolded lookupHits_def] s(1)])
  show ?thesis unfolding lookupHits_def
    by (rule runHits_all [OF assms(1) [unfolded lookupHits_def] s(1) shardHits_rowOf(3) [OF s(1) n s(2) assms(3,4)]])
qed

lemma lookupHits_error:
  assumes "snd (lookupHits readFails db scope keys cur) = Some e"
  shows "\<exists>i vw. i < length keys \<and> rowOf readFails db scope (keys ! i) = Some vw \<and> provenCandidate vw cur (keys ! i) = Inl e"
proof -
  obtain s where s: "s \<in> set (keysByShard keys)" "snd (shardHits readFails db scope cur keys s) = Some e"
    using runHits_error [OF assms [unfolded lookupHits_def]] by blast
  from shardHits_rowOf(2) [OF this] s(1) show ?thesis by (cases s) (auto simp: keysByShard_iff)
qed

lemma hit_values:
  "decodeCandidate (hit_view hit) (hit_candidate hit) = Some cand \<Longrightarrow>
    hitPayload hit = Some (cd_payload cand) \<and> toValue hit = Some (map (\<lambda>d. (de_path d, de_fingerprint d)) (cd_dependencies cand))"
  by (auto simp: decodeCandidate_def hitPayload_def toValue_def split: bind_splits)

section \<open>Looking up in a decoded row\<close>

lemma provenCandidate_newest:
  assumes o: "openBlob b = Some vw" and d: "decodeView vw = Some row" and s: "sorted_wrt (<) (map tg_target row)"
    and look: "lookupRow row nm = Some (cand # cs)" and ok: "matches cur cand"
  shows "\<exists>c. provenCandidate vw cur nm = Inr (Some c) \<and> decodeCandidate vw c = Some cand"
proof -
  from d have n: "length row = targetCount vw" and dec: "\<And>t. t < targetCount vw \<Longrightarrow> decodeTarget vw t = Some (row ! t)"
    by (auto simp: decodeView_def those_map_Some list_all2_conv_all_nth)
  have name: "target vw t = Some (tg_target (row ! t))" if "t < targetCount vw" for t
    using dec [OF that] by (cases "row ! t") (auto simp: decodeTarget_def targetCandidates_def split: bind_splits if_splits)
  have sorted: "names_sorted vw"
    unfolding names_sorted_def using s name n by (auto simp: sorted_wrt_iff_nth_less)
  obtain t where t: "t < targetCount vw" "tg_target (row ! t) = nm" "cand # cs = tg_candidates (row ! t)"
    using look n by (auto simp: lookupRow_def find_Some_iff)
  have f: "findTarget vw nm = Some t" using findTarget_complete [OF o sorted t(1)] name [OF t(1)] t(2) by simp
  from dec [OF t(1)] t(3) obtain n' start count where tc: "targetCandidates vw t = Some (n', start, count)"
      "list_all2 (\<lambda>i c. decodeCandidate vw i = Some c) [start..<u32 (start + count)] (cand # cs)"
    by (cases "row ! t") (auto simp: decodeTarget_def those_map_Some split: bind_splits)
  from tc(1) have "start + count \<le> candidateCount vw" by (auto simp: targetCandidates_def split: bind_splits if_splits)
  with candidateCount_less [OF o] have small: "start + count < 2 ^ 32" by simp
  have "count \<noteq> 0" using list_all2_lengthD [OF tc(2)] small by auto
  then have is': "map (\<lambda>i. u32 (start + i)) [0..<count] = start # map (\<lambda>i. u32 (start + i)) [1..<count]"
    using small by (simp add: upt_conv_Cons)
  have dc: "decodeCandidate vw start = Some cand"
    using tc(2) small \<open>count \<noteq> 0\<close> by (simp add: upt_conv_Cons)
  then have "checkCandidate vw cur start = Inr True" using checkCandidate_proven [OF o] ok by (auto simp: proven_def)
  then have "provenCandidate vw cur nm = Inr (Some start)" using f tc(1) by (simp add: provenCandidate_def is')
  with dc show ?thesis by blast
qed

section \<open>Learning\<close>

lemma upsertShard_other: "(sc, s) \<noteq> (scope, shard) \<Longrightarrow> upsertShard writeFails mx scope entries h shard db (sc, s) = db (sc, s)"
  by (auto simp: upsertShard_def split: sum.split)

lemma upsertShard_local: "db (scope, shard) = db' (scope, shard) \<Longrightarrow>
    upsertShard writeFails mx scope entries h shard db (scope, shard) = upsertShard writeFails mx scope entries h shard db' (scope, shard)"
  by (auto simp: upsertShard_def readShardRow_def split: sum.split)

lemma upsertMany_at:
  assumes "distinct order"
  shows "upsertMany writeFails mx order scope entries h db (sc, s) =
    (if sc = scope \<and> s \<in> set order then upsertShard writeFails mx scope entries h s db (scope, s) else db (sc, s))"
  unfolding upsertMany_def using assms
proof (induction order arbitrary: db)
  case (Cons x xs)
  show ?case
  proof (cases "sc = scope \<and> s = x")
    case True
    with Cons show ?thesis by simp
  next
    case False
    then have same: "upsertShard writeFails mx scope entries h x db (sc, s) = db (sc, s)" by (auto intro!: upsertShard_other)
    with Cons False show ?thesis by (auto intro!: upsertShard_local)
  qed
qed simp

section \<open>Histories\<close>

text \<open>
  What a client relies on: a table of histories, newest first, in which learning puts the new entry
  first and leaves the other keys alone.
\<close>

locale history =
  fixes lookup :: "'row \<Rightarrow> 'key \<Rightarrow> 'cand list option"
    and learned :: "'key \<Rightarrow> 'cand \<Rightarrow> 'row \<Rightarrow> 'row"
    and inv :: "'row \<Rightarrow> bool"
  assumes inv_learned: "inv row \<Longrightarrow> inv (learned k c row)"
    and lookup_same: "inv row \<Longrightarrow> \<exists>cs. lookup (learned k c row) k = Some (c # cs)"
    and lookup_other: "inv row \<Longrightarrow> k' \<noteq> k \<Longrightarrow> lookup (learned k c row) k' = lookup row k'"
begin

lemma inv_fold: "inv row \<Longrightarrow> inv (fold (\<lambda>(k, c). learned k c) es row)"
  by (induction es arbitrary: row) (auto simp: inv_learned)

lemma untouched: "inv row \<Longrightarrow> k \<notin> fst ` set es \<Longrightarrow> lookup (fold (\<lambda>(k, c). learned k c) es row) k = lookup row k"
  by (induction es arbitrary: row) (auto simp: inv_learned lookup_other)

lemma newest:
  assumes "inv row" "k \<notin> fst ` set post"
  shows "\<exists>cs. lookup (fold (\<lambda>(k, c). learned k c) (pre @ (k, c) # post) row) k = Some (c # cs)"
proof -
  have i: "inv (fold (\<lambda>(k, c). learned k c) pre row)" using assms(1) by (rule inv_fold)
  from untouched [OF inv_learned [OF i] assms(2)] lookup_same [OF i] show ?thesis by auto
qed

end

lemma lookupRow_Cons: "lookupRow (t # ts) k = (if tg_target t = k then Some (tg_candidates t) else lookupRow ts k)"
  by (simp add: lookupRow_def)

interpretation row: history lookupRow "learn keep" "\<lambda>row. sorted_wrt (<) (map tg_target row)" for keep
proof
  fix row :: TecnixDependencyRow and k c k'
  assume s: "sorted_wrt (<) (map tg_target row)"
  show "sorted_wrt (<) (map tg_target (learn keep k c row))" using s by (rule learn_names(1))
  show "\<exists>cs. lookupRow (learn keep k c row) k = Some (c # cs)"
    by (induction row) (auto simp: lookupRow_Cons learnCandidate_def lookupRow_def)
  show "k' \<noteq> k \<Longrightarrow> lookupRow (learn keep k c row) k' = lookupRow row k'"
    by (induction row) (auto simp: lookupRow_Cons lookupRow_def)
qed

lemma learnAll_fold: "learnAll keep fresh = fold (\<lambda>(k, c). learn keep k c) (map (\<lambda>f. (fc_target f, candidateOf f)) fresh)"
  by (simp add: learnAll_def fold_map comp_def)

lemma lookupRow_trim: "lookupRow (trimRow keep row) k = map_option (take keep) (lookupRow row k)"
  by (induction row) (auto simp: lookupRow_def trimRow_def)

section \<open>The newest candidate of a merged row\<close>

definition newestIs :: "PlannedTarget list \<Rightarrow> bytes \<Rightarrow> CandidateSource \<Rightarrow> bool" where
  "newestIs ps n c \<longleftrightarrow> (\<exists>p \<in> set ps. pt_name p = n \<and> (\<exists>cs. pt_candidates p = c # cs))"

lemma historyLoop_first: "historyLoop view fresh fr keep (c # hs) cs = Inr hs' \<Longrightarrow> \<exists>hs''. hs' = c # hs''"
  by (induction cs arbitrary: hs) (auto simp: bind_defs split: if_splits)

lemma planFreshStep_newest:
  assumes "planFreshStep view fresh keep ps f = Inr ps'" "f < length fresh"
  shows "newestIs ps' (fc_target (fresh ! f)) (FreshCandidateRef f)"
    and "newestIs ps n c \<Longrightarrow> n \<noteq> fc_target (fresh ! f) \<Longrightarrow> newestIs ps' n c"
  using assms by (cases rule: planFreshStepE; auto simp: newestIs_def dest: historyLoop_first)+

lemma planFresh_newest:
  assumes "planFresh view fresh keep ps fs = Inr ps'" "\<forall>f \<in> set fs. f < length fresh" "newestIs ps n c" "\<forall>f \<in> set fs. fc_target (fresh ! f) \<noteq> n"
  shows "newestIs ps' n c"
  using assms
proof (induction view fresh keep ps fs rule: planFresh.induct)
  case (2 view fresh keep ps f fs)
  from "2.prems"(1) obtain ps1 where "planFreshStep view fresh keep ps f = Inr ps1" "planFresh view fresh keep ps1 fs = Inr ps'" by (auto simp: bind_defs)
  with 2 planFreshStep_newest(2) [of view fresh keep ps f ps1 n c] show ?case by auto
qed simp

lemma planFresh_append: "planFresh view fresh keep ps (fs @ gs) = ebind (planFresh view fresh keep ps fs) (\<lambda>ps'. planFresh view fresh keep ps' gs)"
  by (induction fs arbitrary: ps) (auto simp: ebind_def split: sum.splits)

lemma planShardRow_newest:
  assumes "planShardRow view fresh keep = Inr ps" "f < length fresh" "\<forall>g. f < g \<longrightarrow> g < length fresh \<longrightarrow> fc_target (fresh ! g) \<noteq> fc_target (fresh ! f)"
  shows "newestIs ps (fc_target (fresh ! f)) (FreshCandidateRef f)"
proof -
  have "[0..<length fresh] = [0..<f] @ f # [Suc f..<length fresh]" using assms(2)
    using upt_add_eq_append [of 0 f "length fresh - f"] by (simp add: upt_conv_Cons)
  with assms(1) obtain ps1 ps2 where "planFreshStep view fresh keep ps1 f = Inr ps2" "planFresh view fresh keep ps2 [Suc f..<length fresh] = Inr ps"
    by (auto simp: planShardRow_def bind_defs planFresh_append)
  with planFresh_newest planFreshStep_newest(1) [OF _ assms(2)] assms(3) show ?thesis by fastforce
qed

lemma merged_newest:
  assumes m: "mergedShardRow existing updates h mx = Inr (outcome, out)" and fr: "mapE freshCandidate updates = Inr fresh"
    and u: "updates = pre @ e # post" "\<forall>x \<in> set post. up_target x \<noteq> up_target e" and e: "freshCandidate e = Inr fe"
  shows "\<exists>vw row cs. openBlob out = Some vw \<and> decodeView vw = Some row \<and> sorted_wrt (<) (map tg_target row) \<and>
    lookupRow row (up_target e) = Some (candidateOf fe # cs)"
proof -
  let ?keep = "max h 1" let ?f = "length pre"
  have all: "list_all2 (\<lambda>u f. freshCandidate u = Inr f) updates fresh" using fr by (simp add: mapE_Inr_iff)
  have len: "length fresh = length updates" using all by (simp add: list_all2_lengthD)
  have nth: "freshCandidate (updates ! g) = Inr (fresh ! g)" if "g < length fresh" for g using all that len by (simp add: list_all2_conv_all_nth)
  have f: "?f < length fresh" "fresh ! ?f = fe" using len u nth [of ?f] e by (auto simp: nth_append)
  have tgt: "fc_target (fresh ! g) = up_target (updates ! g)" if "g < length fresh" for g using freshCandidate_ok(1) [OF nth [OF that]] .
  have later: "\<forall>g. ?f < g \<longrightarrow> g < length fresh \<longrightarrow> fc_target (fresh ! g) \<noteq> fc_target (fresh ! ?f)"
  proof (intro allI impI)
    fix g assume g: "?f < g" "g < length fresh"
    then have "updates ! g \<in> set post" using u len by (auto simp: nth_append nth_Cons' in_set_conv_nth intro!: exI [of _ "g - ?f - 1"])
    with u tgt [OF g(2)] tgt [OF f(1)] show "fc_target (fresh ! g) \<noteq> fc_target (fresh ! ?f)" by (auto simp: nth_append)
  qed
  have name: "fc_target fe = up_target e" using freshCandidate_ok(1) [OF e] .
  obtain view ps where v: "planShardRow view fresh ?keep = Inr ps" "writeShardRow view ps fresh mx = Inr out"
    using m fr by (cases rule: mergedShardRow_cases) (auto simp: freshRow_def bind_defs)
  have ne: "fresh \<noteq> []" using f(1) by auto
  note w = writeShardRow_decodes [OF v(2) planShardRow_raises(3) [OF v(1) ne]]
  from w(2) obtain row where row: "those (map (meantTarget view fresh) ps) = Some row" by blast
  then have p: "planned view fresh ps row" by (simp add: planned_those)
  from w(1) row obtain vw where vw: "openBlob out = Some vw" "decodeView vw = Some row" by (auto simp: decodeTecnixDependencyRow_def split: bind_splits)
  have wf: "sorted_wrt (<) (map tg_target row)" using planned_shaped [OF p planShardRow_shaped [OF v(1)]] by (simp add: wf_row_def)
  from planShardRow_newest [OF v(1) f(1) later] f(2) name obtain t cs where t: "t \<in> set ps" "pt_name t = up_target e" "pt_candidates t = FreshCandidateRef ?f # cs"
    by (auto simp: newestIs_def)
  from t(1) obtain k where k: "k < length ps" "t = ps ! k" by (auto simp: in_set_conv_nth)
  define T where "T = row ! k"
  have T: "T \<in> set row" "meantTarget view fresh t = Some T"
    using p k unfolding planned_def T_def by (auto simp: list_all2_conv_all_nth)
  from T(2) obtain ds where ds: "tg_candidates T = candidateOf fe # ds" "tg_target T = up_target e"
    using t f by (auto simp: meantTarget_Some list_all2_Cons1 meant_def)
  have "lookupRow row (up_target e) = Some (tg_candidates T)"
    using T(1) ds(2) wf by (induction row) (auto simp: lookupRow_def)
  with vw wf ds show ?thesis by auto
qed

section \<open>The theorems\<close>

definition samplePath :: CanonPath where "samplePath = ''/x''"

definition sampleCurrent :: CurrentFingerprints where
  "sampleCurrent = \<lparr>cf_library = \<lparr>parseJson = (\<lambda>_. None), dumpJson = (\<lambda>_. []), sha256Base64 = (\<lambda>_. [])\<rparr>,
     cf_accessor = \<lparr>readFile = (\<lambda>_. None), getFingerprint = (\<lambda>p. if p = samplePath then Inr (Some ''1'') else Inl ''unreadable'')\<rparr>,
     cf_generation = 1\<rparr>"

definition emptyMemo :: FingerprintMemo where
  "emptyMemo = \<lparr>fm_generation = 0, fm_fingerprints = (\<lambda>_. None), fm_cachedManifest = None, fm_manifestChecked = False\<rparr>"

text \<open>A memo that a lookup of this run has filled.\<close>

definition filledMemo :: FingerprintMemo where
  "filledMemo = \<lparr>fm_generation = 1, fm_fingerprints = (\<lambda>_. None)(''x'' \<mapsto> Some ''1''), fm_cachedManifest = None, fm_manifestChecked = False\<rparr>"

definition sampleScope :: TecnixCacheScope where "sampleScope = \<lparr>sc_resolver = ''r'', sc_argsKey = ''a''\<rparr>"

lemma sample_true: "trueFingerprint sampleCurrent ''x'' = Inr (Some ''1'')"
proof -
  have "newCanonPath ''x'' = Inr ''/x''" by code_simp
  then show ?thesis
    by (simp add: trueFingerprint_def startsWith_def manifestPrefix_def sampleCurrent_def samplePath_def accessorFingerprint_def)
qed

lemma sample_memo: "memoOk sampleCurrent emptyMemo" "memoOk sampleCurrent filledMemo"
proof -
  show "memoOk sampleCurrent emptyMemo" by (simp add: memoOk_def sampleCurrent_def emptyMemo_def)
  show "memoOk sampleCurrent filledMemo"
    using sample_true by (auto simp: memoOk_def filledMemo_def)
qed

lemma sample_updates: "updatesOf (dependencyShardForTarget ''b'') sampleOld = sampleOld"
  by (simp add: updatesOf_def sampleOld_def)

text \<open>
  C2: a hit is never stale. Whatever bytes the database holds, a reported hit names a target of the
  row stored for its key, its candidate decodes, the value built from it is its closure, and every path of
  the closure has, in the evaluated tree, exactly the fingerprint recorded for it. This holds as well for the
  hits that were reported before an exception ended the lookup.
\<close>
theorem hit_sound:
  assumes "(i, hit) \<in> set (fst (lookupCachedDependencies openFails readFails db scope keys cur m))" "memoOk cur m"
  shows "\<exists>row cand t. db (scope, dependencyShardForTarget (keys ! i)) = Some row \<and> openBlob row = Some (hit_view hit) \<and>
    target (hit_view hit) t = Some (keys ! i) \<and> decodeCandidate (hit_view hit) (hit_candidate hit) = Some cand \<and>
    hitPayload hit = Some (cd_payload cand) \<and>
    toValue hit = Some (map (\<lambda>d. (de_path d, de_fingerprint d)) (cd_dependencies cand)) \<and>
    (\<forall>d \<in> set (cd_dependencies cand). trueFingerprint cur (de_path d) = Inr (Some (de_fingerprint d)))"
proof -
  have "openFails = False" using assms(1) by (auto simp: lookupCachedDependencies_def split: if_splits)
  obtain hits e m' where run: "lookupCachedDependencies False readFails db scope keys cur m = (hits, e, m')" by (metis prod_cases3)
  have "(i, hit) \<in> set (fst (lookupHits readFails db scope keys cur))"
    using assms(1) lookup_ok [OF assms(2) run] by (simp add: \<open>openFails = False\<close> run)
  from lookupHits_sound [OF this] obtain row where
    row: "db (scope, dependencyShardForTarget (keys ! i)) = Some row" "openBlob row = Some (hit_view hit)"
      "provenCandidate (hit_view hit) cur (keys ! i) = Inr (Some (hit_candidate hit))"
    by (auto simp: rowOf_def Let_def split: if_splits bind_splits)
  from provenCandidateD [OF row(2,3)] obtain cand t where c: "target (hit_view hit) t = Some (keys ! i)"
      "decodeCandidate (hit_view hit) (hit_candidate hit) = Some cand" "matches cur cand" by blast
  with row hit_values [OF c(2)] show ?thesis by (auto simp: matches_def)
qed

text \<open>What an upsert leaves for a key whose newest closure matches the tree: its row proves a candidate.\<close>

lemma upsert_proven:
  assumes entries: "entries = pre @ e # post" "\<forall>x \<in> set post. up_target x \<noteq> up_target e"
    and order: "distinct order" "dependencyShardForTarget (up_target e) \<in> set order"
    and db: "\<not> writeFails (dependencyShardForTarget (up_target e))" "\<not> readFails (dependencyShardForTarget (up_target e))"
    and merged: "mergedShardRow (db (scope, dependencyShardForTarget (up_target e))) (updatesOf (dependencyShardForTarget (up_target e)) entries) h mx = Inr (outcome, out)"
    and current: "\<forall>d \<in> set (up_dependencies e). trueFingerprint cur (de_path d) = Inr (Some (de_fingerprint d))"
  shows "\<exists>vw c. rowOf readFails (upsertDependencyClosures False writeFails mx order scope entries h db) scope (up_target e) = Some vw \<and>
    provenCandidate vw cur (up_target e) = Inr (Some c) \<and> hitPayload \<lparr>hit_view = vw, hit_candidate = c\<rparr> = Some (up_payload e)"
proof -
  let ?s = "dependencyShardForTarget (up_target e)"
  have stored: "upsertDependencyClosures False writeFails mx order scope entries h db (scope, ?s) = Some out"
    using entries(1) order db(1) merged by (simp add: upsertDependencyClosures_def upsertMany_at upsertShard_def readShardRow_def)
  have upd: "updatesOf ?s entries = updatesOf ?s pre @ e # updatesOf ?s post" by (simp add: updatesOf_def entries(1))
  from merged obtain fresh where fr: "mapE freshCandidate (updatesOf ?s entries) = Inr fresh" by (auto simp: mergedShardRow_def bind_defs)
  then obtain fe where fe: "freshCandidate e = Inr fe" by (auto simp: upd mapE_Inr_iff list_all2_append1 list_all2_Cons1)
  have post: "\<forall>x \<in> set (updatesOf ?s post). up_target x \<noteq> up_target e" using entries(2) by (simp add: updatesOf_def)
  from merged_newest [OF merged fr upd post fe] obtain vw row cs where
    v: "openBlob out = Some vw" "decodeView vw = Some row" "sorted_wrt (<) (map tg_target row)" "lookupRow row (up_target e) = Some (candidateOf fe # cs)" by blast
  have "matches cur (candidateOf fe)"
    using current freshCandidate_ok(4) [OF fe] by (auto simp: matches_def candidateOf_def entryOf_def)
  from provenCandidate_newest [OF v this]
  obtain c where c: "provenCandidate vw cur (up_target e) = Inr (Some c)" "decodeCandidate vw c = Some (candidateOf fe)" by blast
  have "hitPayload \<lparr>hit_view = vw, hit_candidate = c\<rparr> = Some (up_payload e)"
    using hit_values [of "\<lparr>hit_view = vw, hit_candidate = c\<rparr>" "candidateOf fe"] c(2) freshCandidate_ok(2) [OF fe] by (simp add: candidateOf_def)
  moreover have "rowOf readFails (upsertDependencyClosures False writeFails mx order scope entries h db) scope (up_target e) = Some vw"
    using stored v(1) db(2) by (simp add: rowOf_def)
  ultimately show ?thesis using c(1) by blast
qed


definition sampleTable :: DependencyShards where
  "sampleTable = upsertDependencyClosures False (\<lambda>_. False) 1000 [dependencyShardForTarget ''b''] sampleScope sampleOld 2 (\<lambda>_. None)"


lemma sample_proven:
  "\<exists>vw c. rowOf (\<lambda>_. False) sampleTable sampleScope ''b'' = Some vw \<and> provenCandidate vw sampleCurrent ''b'' = Inr (Some c) \<and>
    hitPayload \<lparr>hit_view = vw, hit_candidate = c\<rparr> = Some ''p''"
proof -
  have e: "sampleOld = [] @ hd sampleOld # []" "up_target (hd sampleOld) = ''b''" "up_payload (hd sampleOld) = ''p''" by (simp_all add: sampleOld_def)
  have m: "mergedShardRow None (updatesOf (dependencyShardForTarget ''b'') sampleOld) 2 1000 = Inr (Fresh, layout oldParts)"
    using sample_rows(1) by (simp only: sample_updates)
  have c: "\<forall>d \<in> set (up_dependencies (hd sampleOld)). trueFingerprint sampleCurrent (de_path d) = Inr (Some (de_fingerprint d))"
    using sample_true by (simp add: sampleOld_def)
  show ?thesis
    using upsert_proven [of sampleOld "[]" "hd sampleOld" "[]" "[dependencyShardForTarget ''b'']" "\<lambda>_. False" "\<lambda>_. False" "\<lambda>_. None" sampleScope 2 1000
      Fresh "layout oldParts" sampleCurrent] e m c by (simp add: sampleTable_def)
qed

lemma sample_ended: "snd (lookupHits (\<lambda>_. False) sampleTable sampleScope [''b''] sampleCurrent) = None"
proof (rule ccontr)
  assume "snd (lookupHits (\<lambda>_. False) sampleTable sampleScope [''b''] sampleCurrent) \<noteq> None"
  then show False using lookupHits_error [of "\<lambda>_. False" sampleTable sampleScope "[''b'']" sampleCurrent] sample_proven by auto
qed

lemma sample_hit:
  "\<exists>hit. (0, hit) \<in> set (fst (lookupHits (\<lambda>_. False) sampleTable sampleScope [''b''] sampleCurrent)) \<and> hitPayload hit = Some ''p''"
  using sample_proven lookupHits_complete [OF sample_ended, of 0] by fastforce

lemma sample_lookup:
  assumes "memoOk sampleCurrent m"
  shows "\<exists>hit. (0, hit) \<in> set (fst (lookupCachedDependencies False (\<lambda>_. False) sampleTable sampleScope [''b''] sampleCurrent m)) \<and> hitPayload hit = Some ''p''"
proof -
  obtain hits x m' where run: "lookupCachedDependencies False (\<lambda>_. False) sampleTable sampleScope [''b''] sampleCurrent m = (hits, x, m')"
    by (metis prod_cases3)
  then show ?thesis using sample_hit lookup_ok [OF assms run] by simp
qed

theorem hit_sound_witness:
  "\<exists>hit (cand :: Candidate). (0, hit) \<in> set (fst (lookupCachedDependencies False (\<lambda>_. False) sampleTable sampleScope [''b''] sampleCurrent emptyMemo)) \<and>
     hitPayload hit = Some (cd_payload cand) \<and> (\<forall>d \<in> set (cd_dependencies cand). trueFingerprint sampleCurrent (de_path d) = Inr (Some (de_fingerprint d)))"
proof -
  obtain hit where h: "(0, hit) \<in> set (fst (lookupCachedDependencies False (\<lambda>_. False) sampleTable sampleScope [''b''] sampleCurrent emptyMemo))"
    using sample_lookup [OF sample_memo(1)] by blast
  from hit_sound [OF h sample_memo(1)] obtain cand :: Candidate where
    "hitPayload hit = Some (cd_payload cand)" "\<forall>d \<in> set (cd_dependencies cand). trueFingerprint sampleCurrent (de_path d) = Inr (Some (de_fingerprint d))"
    by blast
  with h show ?thesis by blast
qed

text \<open>
  C23: the fingerprint memo is transparent. Two memos that hold only results of this run, in particular
  the empty one and one left over from an earlier run, give the same hits in the same order and the same
  exception, if one ends the lookup.
\<close>
theorem memo_transparent:
  assumes "memoOk cur m" "memoOk cur m'"
    and "lookupCachedDependencies openFails readFails db scope keys cur m = (hits, ended, m1)"
    and "lookupCachedDependencies openFails readFails db scope keys cur m' = (hits', ended', m1')"
  shows "hits = hits' \<and> ended = ended' \<and> memoOk cur m1 \<and> memoOk cur m1'"
proof (cases openFails)
  case True
  then show ?thesis using assms by (simp add: lookupCachedDependencies_def)
next
  case False
  then have r: "lookupCachedDependencies False readFails db scope keys cur m = (hits, ended, m1)"
    "lookupCachedDependencies False readFails db scope keys cur m' = (hits', ended', m1')" using assms(3,4) by simp_all
  show ?thesis using lookup_ok [OF assms(1) r(1)] lookup_ok [OF assms(2) r(2)] by simp
qed

text \<open>
  The empty memo has to ask the accessor for the recorded path, the filled one answers it; and a memo of
  another generation that holds another fingerprint is thrown away. All three find the stored closure.
\<close>

theorem memo_transparent_witness:
  "\<exists>hits hit m1 m2 m3.
    lookupCachedDependencies False (\<lambda>_. False) sampleTable sampleScope [''b''] sampleCurrent emptyMemo = (hits, None, m1) \<and>
    lookupCachedDependencies False (\<lambda>_. False) sampleTable sampleScope [''b''] sampleCurrent filledMemo = (hits, None, m2) \<and>
    lookupCachedDependencies False (\<lambda>_. False) sampleTable sampleScope [''b''] sampleCurrent
      (filledMemo\<lparr>fm_generation := 7, fm_fingerprints := (\<lambda>_. Some (Some ''stale''))\<rparr>) = (hits, None, m3) \<and>
    (0, hit) \<in> set hits \<and> hitPayload hit = Some ''p''"
proof -
  let ?stale = "filledMemo\<lparr>fm_generation := 7, fm_fingerprints := (\<lambda>_. Some (Some ''stale''))\<rparr>"
  let ?look = "lookupCachedDependencies False (\<lambda>_. False) sampleTable sampleScope [''b''] sampleCurrent"
  have stale: "memoOk sampleCurrent ?stale" by (simp add: memoOk_def sampleCurrent_def)
  obtain hits1 x1 m1 where run1: "?look emptyMemo = (hits1, x1, m1)" by (metis prod_cases3)
  obtain hits2 x2 m2 where run2: "?look filledMemo = (hits2, x2, m2)" by (metis prod_cases3)
  obtain hits3 x3 m3 where run3: "?look ?stale = (hits3, x3, m3)" by (metis prod_cases3)
  note run = run1 run2 run3
  have "hits2 = hits1 \<and> x2 = x1" "hits3 = hits1 \<and> x3 = x1"
    using memo_transparent [OF sample_memo(1,2) run(1,2)] memo_transparent [OF sample_memo(1) stale run(1,3)] by simp_all
  moreover have "x1 = None"
    using lookup_ok [OF sample_memo(1) run(1)] sample_ended by simp
  moreover obtain hit where "(0, hit) \<in> set hits1" "hitPayload hit = Some ''p''"
    using sample_lookup [OF sample_memo(1)] run(1) by auto
  ultimately show ?thesis using run by blast
qed

text \<open>
  C19: certifying a closure. \<^verbatim>\<open>dependencyFingerprints\<close> returns every path in order with its fingerprint in
  the evaluated tree, or fails with a path that has none or with what its fingerprint throws; it never returns a
  partial closure.
\<close>
theorem certify_all_or_fail:
  assumes "memoOk cur m"
  shows "case fst (dependencyFingerprints (cf_library cur) (cf_accessor cur) ps (cf_generation cur) m) of
      Inr deps \<Rightarrow> map de_path deps = ps \<and> (\<forall>d \<in> set deps. trueFingerprint cur (de_path d) = Inr (Some (de_fingerprint d)))
    | Inl e \<Rightarrow> (\<exists>p \<in> set ps. trueFingerprint cur p = Inl e \<or> trueFingerprint cur p = Inr None \<and> e = FailedToFingerprint p)"
proof -
  have "case mapE (certified cur) ps of
      Inr deps \<Rightarrow> map de_path deps = ps \<and> (\<forall>d \<in> set deps. trueFingerprint cur (de_path d) = Inr (Some (de_fingerprint d)))
    | Inl e \<Rightarrow> (\<exists>p \<in> set ps. trueFingerprint cur p = Inl e \<or> trueFingerprint cur p = Inr None \<and> e = FailedToFingerprint p)"
  proof (induction ps)
    case (Cons p ps)
    consider (err) x where "trueFingerprint cur p = Inl x" | (none) "trueFingerprint cur p = Inr None"
      | (some) x where "trueFingerprint cur p = Inr (Some x)"
      by (cases "trueFingerprint cur p") (auto simp: not_Some_eq)
    then show ?case
    proof cases
      case err
      then have "certified cur p = Inl x" by (simp add: certified_def)
      then show ?thesis using err by simp
    next
      case none
      then have "certified cur p = Inl (FailedToFingerprint p)" by (simp add: certified_def)
      then show ?thesis using none by simp
    next
      case (some x)
      then have "certified cur p = Inr \<lparr>de_path = p, de_fingerprint = x\<rparr>" by (simp add: certified_def)
      then show ?thesis using some Cons by (cases "mapE (certified cur) ps") auto
    qed
  qed simp
  then show ?thesis by (simp only: dependencyFingerprints_ok(2) [OF assms])
qed

text \<open>
  A merge keeps the histories of the targets it does not learn, cut to the bound, and puts the
  closure learned last for a target first in its history.
\<close>
theorem merge_histories:
  assumes "mergedShardRow (Some old) updates h mx = Inr (Merged, out)" "updates \<noteq> []" "mapE freshCandidate updates = Inr fresh"
    and "decodeTecnixDependencyRow old = Some row" "sorted_wrt (<) (map tg_target row)"
  shows "\<exists>row'. decodeTecnixDependencyRow out = Some row' \<and>
    (\<forall>k. k \<notin> up_target ` set updates \<longrightarrow> lookupRow row' k = map_option (take (max h 1)) (lookupRow row k)) \<and>
    (\<forall>pre f post. fresh = pre @ f # post \<longrightarrow> fc_target f \<notin> fc_target ` set post \<longrightarrow> (\<exists>cs. lookupRow row' (fc_target f) = Some (candidateOf f # cs)))"
proof -
  let ?keep = "max h 1" let ?row' = "learnAll ?keep fresh (trimRow ?keep row)"
  have sorted: "sorted_wrt (<) (map tg_target (trimRow ?keep row))" using assms(5) by simp
  have names: "fst ` set (map (\<lambda>f. (fc_target f, candidateOf f)) fresh) = up_target ` set updates"
  proof -
    have "map fc_target fresh = map up_target updates"
      using assms(3) freshCandidate_ok(1) by (auto simp: mapE_Inr_iff list_all2_conv_all_nth intro!: nth_equalityI)
    then have "set (map fc_target fresh) = set (map up_target updates)" by simp
    then show ?thesis by (simp add: image_image)
  qed
  have "decodeTecnixDependencyRow out = Some ?row'"
  proof (cases rule: mergedShardRow_cases [OF assms(1)])
    case (2 fresh' b vw ps)
    with assms(3,4) mapE_nonempty [OF assms(3,2)] show ?thesis
      by (intro written_row [where view = "Some vw"]) (auto simp: decodeTecnixDependencyRow_def)
  qed simp
  moreover have "lookupRow ?row' k = map_option (take ?keep) (lookupRow row k)" if "k \<notin> up_target ` set updates" for k
    unfolding learnAll_fold using row.untouched [OF sorted] that names by (simp add: lookupRow_trim)
  moreover have "\<exists>cs. lookupRow ?row' (fc_target f) = Some (candidateOf f # cs)" if "fresh = pre @ f # post" "fc_target f \<notin> fc_target ` set post" for pre f post
    unfolding learnAll_fold that(1) map_append list.map
    by (rule row.newest [OF sorted]) (use that(2) in \<open>simp add: image_image\<close>)
  ultimately show ?thesis by blast
qed

theorem merge_histories_witness:
  "\<exists>row'. decodeTecnixDependencyRow (layout newParts) = Some row' \<and> lookupRow row' ''c'' = None \<and> (\<exists>cs. lookupRow row' ''b'' = Some (candidateOf (hd newFresh) # cs))"
proof -
  have "sampleNew \<noteq> []" by (simp add: sampleNew_def)
  from merge_histories [OF sample_rows(2) this sample_fresh(2) sample_decoded] obtain row' where
    r: "decodeTecnixDependencyRow (layout newParts) = Some row'"
      "\<forall>k. k \<notin> up_target ` set sampleNew \<longrightarrow> lookupRow row' k = map_option (take (max 2 1)) (lookupRow [\<lparr>tg_target = ''b'', tg_candidates = [candidateOf (oldFresh ! 0)]\<rparr>] k)"
      "\<forall>pre f post. newFresh = pre @ f # post \<longrightarrow> fc_target f \<notin> fc_target ` set post \<longrightarrow> (\<exists>cs. lookupRow row' (fc_target f) = Some (candidateOf f # cs))"
    by auto
  have "lookupRow row' ''c'' = None" using r(2) by (simp add: sampleNew_def lookupRow_def)
  moreover have "\<exists>cs. lookupRow row' ''b'' = Some (candidateOf (hd newFresh) # cs)"
    using r(3) [rule_format, of "[]" "hd newFresh" "[]"] by (simp add: newFresh_def)
  ultimately show ?thesis using r(1) by blast
qed

text \<open>
  An upsert touches only the rows of its scope and of the shards of its entries; a shard whose
  write fails, or whose merge throws, keeps its row, and the other shards are still written.
\<close>
theorem upsert_isolated:
  assumes "distinct order"
  shows "upsertDependencyClosures openFails writeFails mx order scope entries h db (sc, s) =
    (if sc \<noteq> scope \<or> s \<notin> set order \<or> entries = [] \<or> openFails \<or> writeFails s then db (sc, s)
     else (case mergedShardRow (db (scope, s)) (updatesOf s entries) h mx of Inl e \<Rightarrow> db (scope, s) | Inr (outcome, out) \<Rightarrow> Some out))"
  using assms by (auto simp: upsertDependencyClosures_def upsertMany_at upsertShard_def readShardRow_def split: sum.split)

theorem upsert_isolated_witness:
  "upsertDependencyClosures False (\<lambda>_. False) 1000 [dependencyShardForTarget ''b''] sampleScope sampleOld 2 (\<lambda>_. None) (sampleScope, dependencyShardForTarget ''b'') = Some (layout oldParts)"
  using upsert_isolated [of "[dependencyShardForTarget ''b'']" False "\<lambda>_. False" 1000 sampleScope sampleOld 2 "\<lambda>_. None" sampleScope "dependencyShardForTarget ''b''"]
    sample_rows(1) sample_updates by (simp add: sampleOld_def)

text \<open>
  The shards of a lookup: shard numbers are below 256 and strictly increasing, and every key index
  occurs exactly once, under the shard of its key.
\<close>
theorem keysByShard_partition:
  "sorted_wrt (<) (map fst (keysByShard keys)) \<and> (\<forall>(shard, is) \<in> set (keysByShard keys). shard < 256 \<and> is \<noteq> [] \<and> sorted_wrt (<) is) \<and>
   (\<forall>i < length keys. \<exists>!s. s \<in> set (keysByShard keys) \<and> i \<in> set (snd s)) \<and>
   (\<forall>s \<in> set (keysByShard keys). \<forall>i \<in> set (snd s). i < length keys \<and> dependencyShardForTarget (keys ! i) = fst s)"
proof -
  have less: "dependencyShardForTarget k < 256" for k
    using unat_mod [of "fnv k" "of_nat dependencyShardCount"] by (simp add: dependencyShardForTarget_def dependencyShardCount_def)
  have "map fst (keysByShard keys) = sort_unique (map dependencyShardForTarget keys)" by (simp add: keysByShard_def comp_def)
  moreover have "shard < 256 \<and> is \<noteq> [] \<and> sorted_wrt (<) is" if "(shard, is) \<in> set (keysByShard keys)" for shard "is"
    using that less unfolding keysByShard_iff by (fastforce simp: filter_empty_conv in_set_conv_nth sorted_wrt_filter)
  moreover have "\<exists>!s. s \<in> set (keysByShard keys) \<and> i \<in> set (snd s)" if "i < length keys" for i
    using that by (intro ex1I [of _ "(dependencyShardForTarget (keys ! i), filter (\<lambda>j. dependencyShardForTarget (keys ! j) = dependencyShardForTarget (keys ! i)) [0..<length keys])"])
      (auto simp: keysByShard_iff)
  moreover have "i < length keys \<and> dependencyShardForTarget (keys ! i) = fst s" if "s \<in> set (keysByShard keys)" "i \<in> set (snd s)" for s i
    using that by (auto simp: keysByShard_def)
  ultimately show ?thesis by auto
qed

theorem keysByShard_partition_witness:
  "sorted_wrt (<) (map fst (keysByShard [''a'', ''b'', ''a''])) \<and>
   (\<exists>!s. s \<in> set (keysByShard [''a'', ''b'', ''a'']) \<and> 2 \<in> set (snd s))"
  using keysByShard_partition [of "[''a'', ''b'', ''a'']"] by auto

end
