(* ===== verification/Git_Status.thy ===== *)
theory Git_Status
  imports Tx_Prelude "HOL-Library.Sublist"
begin

text \<open>
  The parser of \<^verbatim>\<open>git status --porcelain=v2 -z\<close> (\<^verbatim>\<open>parseGitPorcelainV2ZStatus\<close> of
  \<^verbatim>\<open>src/libexpr/tecnix/source-deps.cc\<close>), which tells the source accessor which paths of the work
  tree differ from the commit. The position \<^verbatim>\<open>pos\<close> of the code is the suffix of the output still
  to be read; the thrown error is \<open>Malformed\<close> with the record it quotes. The specification is a
  grammar: a datatype of records, its printer, and the paths each record makes dirty.
\<close>

section \<open>Data\<close>

record GitIndexBlob =
  oid :: bytes
  mode :: nat

record GitStatusEntry =
  path :: bytes
  index :: "GitIndexBlob option"

datatype StatusError = Malformed bytes

abbreviation NUL :: char where
  "NUL \<equiv> CHR 0x00"

section \<open>The parser\<close>

definition nextRecord :: "bytes \<Rightarrow> StatusError + (bytes \<times> bytes) option" where
  "nextRecord rest =
     (if rest = [] then Inr None
      else case breakOn NUL rest of
        None \<Rightarrow> Inl (Malformed rest)
      | Some (rec, rest') \<Rightarrow> Inr (Some (rec, rest')))"

primrec splitFields :: "nat \<Rightarrow> bytes \<Rightarrow> (bytes list \<times> bytes) option" where
  "splitFields 0 rec = (if rec = [] then None else Some ([], rec))"
| "splitFields (Suc n) rec =
     (case breakOn CHR '' '' rec of
        None \<Rightarrow> None
      | Some (f, rec') \<Rightarrow> (case splitFields n rec' of
          None \<Rightarrow> None
        | Some (fs, rest) \<Rightarrow> Some (f # fs, rest)))"

definition octal :: "char \<Rightarrow> bool" where
  "octal c = (CHR ''0'' \<le> c \<and> c \<le> CHR ''7'')"

definition octalValue :: "bytes \<Rightarrow> nat" where
  "octalValue s = foldl (\<lambda>v c. v * 8 + (of_char c - 48)) 0 s"

text \<open>\<^verbatim>\<open>std::from_chars\<close> to a \<^verbatim>\<open>uint32_t\<close> in base 8: the longest run of digits, an error when it is empty or too large.\<close>

definition fromChars8 :: "bytes \<Rightarrow> (nat \<times> bytes) option" where
  "fromChars8 s =
     (let digits = takeWhile octal s in
      if digits = [] \<or> 2 ^ 32 \<le> octalValue digits then None
      else Some (octalValue digits, dropWhile octal s))"

definition parseMode :: "bytes \<Rightarrow> nat option" where
  "parseMode field = (case fromChars8 field of Some (m, []) \<Rightarrow> Some m | _ \<Rightarrow> None)"

text \<open>The modes \<^verbatim>\<open>0100644\<close>, \<^verbatim>\<open>0100755\<close> and \<^verbatim>\<open>0120000\<close>.\<close>

definition indexModes :: "nat list" where
  "indexModes = [33188, 33261, 40960]"

definition indexBlob :: "bytes \<Rightarrow> bytes \<Rightarrow> bytes \<Rightarrow> GitIndexBlob option" where
  "indexBlob xy mI hI =
     (case parseMode mI of
        Some m \<Rightarrow> if xy ! 1 = CHR ''.'' \<and> m \<in> set indexModes then Some \<lparr>oid = hI, mode = m\<rparr> else None
      | None \<Rightarrow> None)"

definition changedEntries :: "bytes list \<Rightarrow> bytes \<Rightarrow> bytes option \<Rightarrow> GitStatusEntry list" where
  "changedEntries fs p orig =
     \<lparr>path = p, index = indexBlob (fs ! 1) (fs ! 4) (fs ! 7)\<rparr> #
     (case orig of
        Some q \<Rightarrow> if q \<noteq> [] \<and> \<not> startsWith (fs ! 8) ''C'' then [\<lparr>path = q, index = None\<rparr>] else []
      | None \<Rightarrow> [])"

definition parseChanged :: "bytes \<Rightarrow> bytes \<Rightarrow> StatusError + GitStatusEntry list \<times> bytes" where
  "parseChanged rec rest =
     (let renamed = (rec ! 0 = CHR ''2'') in
      case splitFields (if renamed then 9 else 8) rec of
        None \<Rightarrow> Inl (Malformed rec)
      | Some (fs, p) \<Rightarrow>
          if length (fs ! 1) \<noteq> 2 then Inl (Malformed rec)
          else if renamed then
            (case nextRecord rest of
               Inl e \<Rightarrow> Inl e
             | Inr None \<Rightarrow> Inl (Malformed rec)
             | Inr (Some (orig, rest')) \<Rightarrow> Inr (changedEntries fs p (Some orig), rest'))
          else Inr (changedEntries fs p None, rest))"

definition parseRecord :: "bytes \<Rightarrow> bytes \<Rightarrow> StatusError + GitStatusEntry list \<times> bytes" where
  "parseRecord rec rest =
     (if length rec < 3 \<or> rec ! 1 \<noteq> CHR '' '' then Inl (Malformed rec)
      else if rec ! 0 = CHR ''1'' \<or> rec ! 0 = CHR ''2'' then parseChanged rec rest
      else if rec ! 0 = CHR ''u'' then
        (case splitFields 10 rec of
           None \<Rightarrow> Inl (Malformed rec)
         | Some (fs, p) \<Rightarrow> Inr ([\<lparr>path = p, index = None\<rparr>], rest))
      else if rec ! 0 = CHR ''?'' \<or> rec ! 0 = CHR ''!'' then Inr ([\<lparr>path = drop 2 rec, index = None\<rparr>], rest)
      else Inl (Malformed rec))"

lemma nextRecord_eq_None [simp]: "nextRecord rest = Inr None \<longleftrightarrow> rest = []"
  by (auto simp: nextRecord_def split: option.splits)

lemma nextRecord_eq_Some:
  "nextRecord rest = Inr (Some (rec, rest')) \<longleftrightarrow> rest = rec @ NUL # rest' \<and> NUL \<notin> set rec"
  unfolding breakOn_eq_Some [symmetric] by (auto simp: nextRecord_def split: option.splits)

lemma parseRecord_length: "parseRecord rec rest = Inr (es, rest') \<Longrightarrow> length rest' \<le> length rest"
  by (auto simp: parseRecord_def parseChanged_def Let_def nextRecord_eq_Some split: if_splits option.splits sum.splits)

function parseRecords :: "GitStatusEntry list \<Rightarrow> bytes \<Rightarrow> StatusError + GitStatusEntry list" where
  "parseRecords entries rest =
     (case nextRecord rest of
        Inl e \<Rightarrow> Inl e
      | Inr None \<Rightarrow> Inr entries
      | Inr (Some (rec, rest1)) \<Rightarrow>
          if startsWith rec ''# '' then parseRecords entries rest1
          else case parseRecord rec rest1 of
            Inl e \<Rightarrow> Inl e
          | Inr (es, rest2) \<Rightarrow> parseRecords (entries @ es) rest2)"
  by pat_completeness auto
termination
  by (relation "measure (\<lambda>(entries, rest). length rest)") (auto simp: nextRecord_eq_Some dest!: parseRecord_length)

definition parseGitPorcelainV2ZStatus :: "bytes \<Rightarrow> StatusError + GitStatusEntry list" where
  "parseGitPorcelainV2ZStatus output = parseRecords [] output"

declare parseRecords.simps [simp del]

section \<open>The grammar\<close>

text \<open>
  The records git prints. A field is a run of bytes without space or NUL; a path is not empty and
  has no NUL. An ordinary record has the columns XY, submodule state, modes of HEAD, index and
  work tree, objects of HEAD and index, path; a rename has a score and the original path besides.
\<close>

datatype StatusRecord =
    Header bytes
  | Ordinary bytes bytes bytes bytes bytes bytes bytes bytes
  | Renamed bytes bytes bytes bytes bytes bytes bytes bytes bytes bytes
  | Unmerged "bytes list" bytes
  | Untracked bytes
  | Ignored bytes

definition isField :: "bytes \<Rightarrow> bool" where
  "isField f = (CHR '' '' \<notin> set f \<and> NUL \<notin> set f)"

definition isPath :: "bytes \<Rightarrow> bool" where
  "isPath p = (p \<noteq> [] \<and> NUL \<notin> set p)"

fun spaced :: "bytes list \<Rightarrow> bytes \<Rightarrow> bytes" where
  "spaced [] p = p"
| "spaced (f # fs) p = f @ CHR '' '' # spaced fs p"

fun printRecord :: "StatusRecord \<Rightarrow> bytes" where
  "printRecord (Header h) = ''# '' @ h @ [NUL]"
| "printRecord (Ordinary xy sub mH mI mW hH hI p) = spaced [''1'', xy, sub, mH, mI, mW, hH, hI] p @ [NUL]"
| "printRecord (Renamed xy sub mH mI mW hH hI score p orig) =
     spaced [''2'', xy, sub, mH, mI, mW, hH, hI, score] p @ [NUL] @ orig @ [NUL]"
| "printRecord (Unmerged fs p) = spaced (''u'' # fs) p @ [NUL]"
| "printRecord (Untracked p) = ''? '' @ p @ [NUL]"
| "printRecord (Ignored p) = ''! '' @ p @ [NUL]"

fun wfRecord :: "StatusRecord \<Rightarrow> bool" where
  "wfRecord (Header h) = (NUL \<notin> set h)"
| "wfRecord (Ordinary xy sub mH mI mW hH hI p) =
     (length xy = 2 \<and> list_all isField [xy, sub, mH, mI, mW, hH, hI] \<and> isPath p)"
| "wfRecord (Renamed xy sub mH mI mW hH hI score p orig) =
     (length xy = 2 \<and> list_all isField [xy, sub, mH, mI, mW, hH, hI, score] \<and> isPath p \<and> NUL \<notin> set orig)"
| "wfRecord (Unmerged fs p) = (length fs = 9 \<and> list_all isField fs \<and> isPath p)"
| "wfRecord (Untracked p) = isPath p"
| "wfRecord (Ignored p) = isPath p"

text \<open>What a record makes dirty: both names of a rename, only the new name of a copy.\<close>

fun dirty :: "StatusRecord \<Rightarrow> GitStatusEntry list" where
  "dirty (Header h) = []"
| "dirty (Ordinary xy sub mH mI mW hH hI p) = [\<lparr>path = p, index = indexBlob xy mI hI\<rparr>]"
| "dirty (Renamed xy sub mH mI mW hH hI score p orig) =
     \<lparr>path = p, index = indexBlob xy mI hI\<rparr> #
     (if orig = [] \<or> startsWith score ''C'' then [] else [\<lparr>path = orig, index = None\<rparr>])"
| "dirty (Unmerged fs p) = [\<lparr>path = p, index = None\<rparr>]"
| "dirty (Untracked p) = [\<lparr>path = p, index = None\<rparr>]"
| "dirty (Ignored p) = [\<lparr>path = p, index = None\<rparr>]"

section \<open>The parser recognises the grammar\<close>

lemma spaced_append: "spaced fs p @ t = spaced fs (p @ t)"
  by (induction fs) auto

lemma nul_spaced [simp]: "NUL \<in> set (spaced fs p) \<longleftrightarrow> (\<exists>f \<in> set fs. NUL \<in> set f) \<or> NUL \<in> set p"
  by (induction fs) auto

lemma splitFields_iff:
  "splitFields n rec = Some (fs, p) \<longleftrightarrow>
     length fs = n \<and> p \<noteq> [] \<and> (\<forall>f \<in> set fs. CHR '' '' \<notin> set f) \<and> rec = spaced fs p"
proof (induction n arbitrary: rec fs)
  case (Suc n)
  show ?case
  proof (cases fs)
    case (Cons f fs')
    have "splitFields (Suc n) rec = Some (f # fs', p) \<longleftrightarrow> (\<exists>rec'. breakOn CHR '' '' rec = Some (f, rec') \<and> splitFields n rec' = Some (fs', p))"
      by (auto split: option.splits)
    then show ?thesis by (auto simp: Cons breakOn_eq_Some Suc.IH)
  qed (auto split: option.splits)
qed auto

lemma length_spaced: "length (spaced fs p) = sum_list (map (\<lambda>f. Suc (length f)) fs) + length p"
  by (induction fs) auto

text \<open>A list of known length is a list of that many elements.\<close>

lemma length_8E:
  assumes "length xs = 8" obtains a b c d e f g h where "xs = [a, b, c, d, e, f, g, h]"
  using assms by (auto simp: length_Suc_conv eval_nat_numeral)

lemma length_9E:
  assumes "length xs = 9" obtains a b c d e f g h i where "xs = [a, b, c, d, e, f, g, h, i]"
  using assms by (auto simp: length_Suc_conv eval_nat_numeral)

lemma length_10E:
  assumes "length xs = 10" obtains a ys where "xs = a # ys" "length ys = 9"
  using assms by (cases xs) auto

lemma first_field: "rec ! 1 = CHR '' '' \<Longrightarrow> rec = spaced (f # fs) p \<Longrightarrow> CHR '' '' \<notin> set f \<Longrightarrow> rec ! 0 \<noteq> CHR '' '' \<Longrightarrow> f = [rec ! 0]"
  by (cases f; cases "tl f") auto

lemma parseRecords_Nil [simp]: "parseRecords es [] = Inr es"
  by (subst parseRecords.simps) (simp add: nextRecord_def)

text \<open>One turn of the loop that succeeds: the record it takes, what it appends and what is left.\<close>

definition turn :: "bytes \<Rightarrow> GitStatusEntry list \<Rightarrow> bytes \<Rightarrow> bool" where
  "turn rest ds rest' = (\<exists>rec rest1. rest = rec @ NUL # rest1 \<and> NUL \<notin> set rec \<and>
     (if startsWith rec ''# '' then ds = [] \<and> rest' = rest1 else parseRecord rec rest1 = Inr (ds, rest')))"

lemma turn_parseRecords: "turn rest ds rest' \<Longrightarrow> parseRecords es rest = parseRecords (es @ ds) rest'"
  by (subst parseRecords.simps) (auto simp: turn_def nextRecord_def split: if_splits)

lemma turn_header: "NUL \<notin> set rec \<Longrightarrow> startsWith rec ''# '' \<Longrightarrow> turn (rec @ NUL # rest) [] rest"
  unfolding turn_def by (intro exI [of _ rec] exI [of _ rest]) simp

lemma turn_record:
  "NUL \<notin> set rec \<Longrightarrow> \<not> startsWith rec ''# '' \<Longrightarrow> parseRecord rec rest = Inr (ds, rest') \<Longrightarrow> turn (rec @ NUL # rest) ds rest'"
  by (auto simp: turn_def)

lemma spaced_8_parse:
  assumes "wfRecord (Ordinary a b c d e f g p)"
  shows "splitFields 8 (spaced [''1'', a, b, c, d, e, f, g] p) = Some ([''1'', a, b, c, d, e, f, g], p)"
  using assms unfolding splitFields_iff by (auto simp: isField_def isPath_def)

lemma spaced_9_parse:
  assumes "wfRecord (Renamed a b c d e f g h p q)"
  shows "splitFields 9 (spaced [''2'', a, b, c, d, e, f, g, h] p) = Some ([''2'', a, b, c, d, e, f, g, h], p)"
  using assms unfolding splitFields_iff by (auto simp: isField_def isPath_def)

lemma spaced_10_parse:
  assumes "wfRecord (Unmerged fs p)"
  shows "splitFields 10 (spaced (''u'' # fs) p) = Some (''u'' # fs, p)"
  using assms unfolding splitFields_iff by (auto simp: isField_def isPath_def list_all_iff)

lemma turn_print:
  assumes "wfRecord r"
  shows "turn (printRecord r @ rest) (dirty r) rest"
proof (cases r)
  case (Header h)
  then show ?thesis using assms turn_header [of "''# '' @ h" rest] by (simp add: startsWith_def)
next
  case (Ordinary a b c d e f g p)
  have "parseRecord (spaced [''1'', a, b, c, d, e, f, g] p) rest = Inr (dirty r, rest)"
    using assms spaced_8_parse [of a b c d e f g p] unfolding Ordinary
    by (simp add: parseRecord_def parseChanged_def changedEntries_def)
  then show ?thesis using assms turn_record [of "spaced [''1'', a, b, c, d, e, f, g] p" rest "dirty r" rest]
    by (simp add: Ordinary isField_def isPath_def startsWith_def)
next
  case (Renamed a b c d e f g h p q)
  have "parseRecord (spaced [''2'', a, b, c, d, e, f, g, h] p) (q @ NUL # rest) = Inr (dirty r, rest)"
    using assms spaced_9_parse [of a b c d e f g h p q] unfolding Renamed
    by (simp add: parseRecord_def parseChanged_def changedEntries_def nextRecord_def)
  then show ?thesis using assms turn_record [of "spaced [''2'', a, b, c, d, e, f, g, h] p" "q @ NUL # rest" "dirty r" rest]
    by (simp add: Renamed isField_def isPath_def startsWith_def)
next
  case (Unmerged fs p)
  have "fs \<noteq> []" using assms Unmerged by auto
  then have "parseRecord (spaced (''u'' # fs) p) rest = Inr (dirty r, rest)"
    using assms spaced_10_parse [of fs p] unfolding Unmerged
    by (cases fs) (simp_all add: parseRecord_def)
  then show ?thesis using assms turn_record [of "spaced (''u'' # fs) p" rest "dirty r" rest]
    by (auto simp: Unmerged isField_def isPath_def startsWith_def list_all_iff)
next
  case (Untracked p)
  then show ?thesis using assms turn_record [of "''? '' @ p" rest "dirty r" rest]
    by (auto simp: isPath_def startsWith_def parseRecord_def Suc_le_eq not_less numeral_3_eq_3)
next
  case (Ignored p)
  then show ?thesis using assms turn_record [of "''! '' @ p" rest "dirty r" rest]
    by (auto simp: isPath_def startsWith_def parseRecord_def Suc_le_eq not_less numeral_3_eq_3)
qed

lemma parseRecord_records:
  assumes ok: "parseRecord rec rest = Inr (ds, rest')" and nul: "NUL \<notin> set rec"
  shows "\<exists>r. wfRecord r \<and> rec @ NUL # rest = printRecord r @ rest' \<and> ds = dirty r"
proof -
  have sp: "rec ! 1 = CHR '' ''" and len: "3 \<le> length rec" using ok by (auto simp: parseRecord_def split: if_splits)
  have field: "isField f" if "rec = spaced fs p" "f \<in> set fs" "\<forall>f \<in> set fs. CHR '' '' \<notin> set f" for f fs p
    using that nul by (auto simp: isField_def)
  consider (one) "rec ! 0 = CHR ''1''" | (two) "rec ! 0 = CHR ''2''" | (u) "rec ! 0 = CHR ''u''"
    | (q) "rec ! 0 = CHR ''?'' \<or> rec ! 0 = CHR ''!''"
    using ok by (auto simp: parseRecord_def split: if_splits)
  then show ?thesis
  proof cases
    case one
    then obtain fs p where s: "splitFields 8 rec = Some (fs, p)" "length (fs ! 1) = 2"
      and ds: "ds = changedEntries fs p None" "rest' = rest"
      using ok by (auto simp: parseRecord_def parseChanged_def split: if_splits option.splits)
    note s' = s(1) [unfolded splitFields_iff]
    obtain z a b c d e f g where fs: "fs = [z, a, b, c, d, e, f, g]" using s' by (auto elim: length_8E)
    have "z = ''1''" using first_field [of rec z "[a, b, c, d, e, f, g]" p] s' sp one by (auto simp: fs)
    moreover have "isPath p" using s' nul by (auto simp: isPath_def)
    ultimately show ?thesis using s s' field [of fs p] ds
      by (intro exI [of _ "Ordinary a b c d e f g p"]) (simp add: fs changedEntries_def)
  next
    case two
    then obtain fs p q where s: "splitFields 9 rec = Some (fs, p)" "length (fs ! 1) = 2"
      and q: "rest = q @ NUL # rest'" "NUL \<notin> set q" and ds: "ds = changedEntries fs p (Some q)"
      using ok by (auto simp: parseRecord_def parseChanged_def nextRecord_eq_Some split: if_splits option.splits sum.splits)
    note s' = s(1) [unfolded splitFields_iff]
    obtain z a b c d e f g h where fs: "fs = [z, a, b, c, d, e, f, g, h]" using s' by (auto elim: length_9E)
    have "z = ''2''" using first_field [of rec z "[a, b, c, d, e, f, g, h]" p] s' sp two by (auto simp: fs)
    moreover have "isPath p" using s' nul by (auto simp: isPath_def)
    ultimately show ?thesis using s s' field [of fs p] ds q
      by (intro exI [of _ "Renamed a b c d e f g h p q"]) (simp add: fs changedEntries_def)
  next
    case u
    then obtain fs p where s: "splitFields 10 rec = Some (fs, p)" and ds: "ds = [\<lparr>path = p, index = None\<rparr>]" "rest' = rest"
      using ok by (auto simp: parseRecord_def split: if_splits option.splits)
    note s' = s [unfolded splitFields_iff]
    obtain z gs where fs: "fs = z # gs" "length gs = 9" using s' by (auto elim: length_10E)
    have "z = ''u''" using first_field [of rec z gs p] s' sp u by (auto simp: fs)
    moreover have "isPath p" using s' nul by (auto simp: isPath_def)
    ultimately show ?thesis using s s' field [of fs p] ds fs(2)
      by (intro exI [of _ "Unmerged gs p"]) (simp add: fs list_all_iff)
  next
    case q
    obtain a b p where rec: "rec = a # b # p" "p \<noteq> []" using len by (cases rec; cases "tl rec"; cases "tl (tl rec)") auto
    show ?thesis
    proof (cases "a = CHR ''?''")
      case True
      then show ?thesis using ok sp nul rec by (intro exI [of _ "Untracked p"]) (auto simp: parseRecord_def isPath_def)
    next
      case False
      then show ?thesis using q ok sp nul rec by (intro exI [of _ "Ignored p"]) (auto simp: parseRecord_def isPath_def)
    qed
  qed
qed


lemma turn_iff: "turn rest ds rest' \<longleftrightarrow> (\<exists>r. wfRecord r \<and> rest = printRecord r @ rest' \<and> ds = dirty r)"
proof
  assume "turn rest ds rest'"
  then obtain rec rest1 where r: "rest = rec @ NUL # rest1" "NUL \<notin> set rec"
    and c: "if startsWith rec ''# '' then ds = [] \<and> rest' = rest1 else parseRecord rec rest1 = Inr (ds, rest')"
    by (auto simp: turn_def)
  show "\<exists>r. wfRecord r \<and> rest = printRecord r @ rest' \<and> ds = dirty r"
  proof (cases "startsWith rec ''# ''")
    case True
    then obtain h where "rec = ''# '' @ h" by (auto simp: startsWith_iff)
    then show ?thesis using r c True by (intro exI [of _ "Header h"]) auto
  next
    case False
    then show ?thesis using r c parseRecord_records [of rec rest1 ds rest'] by auto
  qed
qed (auto intro: turn_print)

lemma parseRecords_print:
  "list_all wfRecord rs \<Longrightarrow> parseRecords es (concat (map printRecord rs) @ rest) = parseRecords (es @ concat (map dirty rs)) rest"
  by (induction rs arbitrary: es) (auto simp: turn_parseRecords [OF turn_print])

text \<open>The loop stops where no record can be taken: at the end, or at an error.\<close>

lemma nextRecord_error: "nextRecord rest = Inl e \<longleftrightarrow> rest \<noteq> [] \<and> NUL \<notin> set rest \<and> e = Malformed rest"
  by (auto simp: nextRecord_def breakOn_eq_None breakOn_eq_Some split: option.splits)

lemma parseRecord_error:
  "parseRecord rec rest = Inl e \<Longrightarrow> NUL \<notin> set rec \<Longrightarrow> \<exists>r. e = Malformed r \<and> NUL \<notin> set r \<and> (r = rec \<or> r = rest)"
  by (auto simp: parseRecord_def parseChanged_def nextRecord_error Let_def split: if_splits option.splits sum.splits)

lemma stuck_error:
  assumes "rest \<noteq> []" "\<not> (\<exists>ds t'. turn rest ds t')"
  shows "\<exists>r. parseRecords es rest = Inl (Malformed r) \<and> sublist r rest \<and> NUL \<notin> set r"
proof (cases "nextRecord rest")
  case (Inl e)
  then have "parseRecords es rest = Inl e" by (subst parseRecords.simps) simp
  then show ?thesis using Inl by (auto simp: nextRecord_error)
next
  case (Inr o')
  then obtain rec rest1 where n: "nextRecord rest = Inr (Some (rec, rest1))" using assms by (cases o') auto
  then have r: "rest = rec @ NUL # rest1" "NUL \<notin> set rec" by (simp_all add: nextRecord_eq_Some)
  then have nh: "\<not> startsWith rec ''# ''" and ne: "\<nexists>ds t'. parseRecord rec rest1 = Inr (ds, t')"
    using assms(2) turn_header [of rec rest1] turn_record [of rec rest1] by blast+
  then obtain e where e: "parseRecord rec rest1 = Inl e" by (cases "parseRecord rec rest1") auto
  have "sublist rec rest" "sublist rest1 rest" using r sublist_appendI [of rec "[]" "NUL # rest1"] sublist_appendI [of rest1 "rec @ [NUL]" "[]"] by simp_all
  then show ?thesis using parseRecord_error [OF e r(2)] n nh e by (subst parseRecords.simps) auto
qed

lemma turn_length: "turn rest ds rest' \<Longrightarrow> length rest' < length rest"
  by (auto simp: turn_def split: if_splits dest: parseRecord_length)

lemma parseRecords_run:
  "\<exists>rs t. list_all wfRecord rs \<and> rest = concat (map printRecord rs) @ t \<and>
     (t = [] \<and> parseRecords es rest = Inr (es @ concat (map dirty rs)) \<or>
      t \<noteq> [] \<and> \<not> (\<exists>ds t'. turn t ds t') \<and> (\<exists>r. parseRecords es rest = Inl (Malformed r) \<and> sublist r t \<and> NUL \<notin> set r))"
proof (induction "length rest" arbitrary: es rest rule: less_induct)
  case less
  show ?case
  proof (cases "\<exists>ds t'. turn rest ds t'")
    case True
    then obtain r t' where r: "turn rest (dirty r) t'" "wfRecord r" "rest = printRecord r @ t'" by (auto simp: turn_iff)
    obtain rs t where "list_all wfRecord rs" "t' = concat (map printRecord rs) @ t"
      "t = [] \<and> parseRecords (es @ dirty r) t' = Inr ((es @ dirty r) @ concat (map dirty rs)) \<or>
       t \<noteq> [] \<and> \<not> (\<exists>ds t'. turn t ds t') \<and> (\<exists>e. parseRecords (es @ dirty r) t' = Inl (Malformed e) \<and> sublist e t \<and> NUL \<notin> set e)"
      using less [OF turn_length [OF r(1)], of "es @ dirty r"] by blast
    then show ?thesis using r(2,3) turn_parseRecords [OF r(1), of es]
      by (intro exI [of _ "r # rs"] exI [of _ t]) auto
  next
    case False
    then show ?thesis using stuck_error [of rest es]
      by (intro exI [of _ "[]"] exI [of _ rest]) (cases "rest = []", simp_all)
  qed
qed


section \<open>Properties\<close>

text \<open>
  C24: the parser accepts exactly the outputs of the grammar, and what it returns are the dirty paths
  of the records, in order: no dirty path is lost and none is invented.
\<close>
theorem status_grammar:
  "parseGitPorcelainV2ZStatus out = Inr es \<longleftrightarrow>
     (\<exists>rs. list_all wfRecord rs \<and> out = concat (map printRecord rs) \<and> es = concat (map dirty rs))"
proof
  assume "parseGitPorcelainV2ZStatus out = Inr es"
  then show "\<exists>rs. list_all wfRecord rs \<and> out = concat (map printRecord rs) \<and> es = concat (map dirty rs)"
    using parseRecords_run [where rest = out and es = "[]"] by (auto simp: parseGitPorcelainV2ZStatus_def)
next
  assume "\<exists>rs. list_all wfRecord rs \<and> out = concat (map printRecord rs) \<and> es = concat (map dirty rs)"
  then show "parseGitPorcelainV2ZStatus out = Inr es"
    using parseRecords_print [of _ "[]" "[]"] by (auto simp: parseGitPorcelainV2ZStatus_def)
qed

text \<open>
  C25: a rejected output is well-formed up to some point, no record of the grammar starts there, and the
  error quotes a piece of the text from there on that holds no NUL.
\<close>
theorem status_errors:
  assumes "parseGitPorcelainV2ZStatus out = Inl e"
  shows "\<exists>rs t r. e = Malformed r \<and> list_all wfRecord rs \<and> out = concat (map printRecord rs) @ t \<and> t \<noteq> [] \<and>
    \<not> (\<exists>r' t'. wfRecord r' \<and> t = printRecord r' @ t') \<and> sublist r t \<and> NUL \<notin> set r"
proof -
  obtain rs t where *: "list_all wfRecord rs" "out = concat (map printRecord rs) @ t"
    "t = [] \<and> parseRecords [] out = Inr (concat (map dirty rs)) \<or>
     t \<noteq> [] \<and> \<not> (\<exists>ds t'. turn t ds t') \<and> (\<exists>r. parseRecords [] out = Inl (Malformed r) \<and> sublist r t \<and> NUL \<notin> set r)"
    using parseRecords_run [where rest = out and es = "[]"] by auto
  then obtain r where "e = Malformed r" "t \<noteq> []" "\<not> (\<exists>ds t'. turn t ds t')" "sublist r t" "NUL \<notin> set r"
    using assms by (auto simp: parseGitPorcelainV2ZStatus_def)
  then show ?thesis using * by (intro exI [of _ rs] exI [of _ t] exI [of _ r]) (simp add: turn_iff)
qed

theorem status_errors_witness:
  "\<exists>rs t r. Malformed ''M  a.nix'' = Malformed r \<and> list_all wfRecord rs \<and>
    ''# stash 2'' @ [NUL] @ ''M  a.nix'' @ [NUL] = concat (map printRecord rs) @ t \<and> t \<noteq> [] \<and>
    \<not> (\<exists>r' t'. wfRecord r' \<and> t = printRecord r' @ t') \<and> sublist r t \<and> NUL \<notin> set r"
  by (rule status_errors) code_simp

lemma indexBlob_mode: "indexBlob a m h = Some b \<Longrightarrow> mode b \<in> set indexModes \<and> oid b = h"
  by (auto simp: indexBlob_def split: option.splits if_splits)

lemma dirty_typed:
  assumes "wfRecord r" "entry \<in> set (dirty r)"
  shows "isPath (path entry) \<and> (\<forall>b. index entry = Some b \<longrightarrow> mode b \<in> set indexModes \<and> isField (oid b))"
  using assms by (cases r) (auto simp: isPath_def dest!: indexBlob_mode split: if_splits)

lemma status_example:
  "parseGitPorcelainV2ZStatus (''2 R. N... 100644 100755 100755 d004 0cfb R100 new name'' @ [NUL] @ ''old name'' @ [NUL]) =
     Inr [\<lparr>path = ''new name'', index = Some \<lparr>oid = ''0cfb'', mode = 33261\<rparr>\<rparr>, \<lparr>path = ''old name'', index = None\<rparr>]"
  by code_simp

text \<open>
  Every entry has a path that is not empty and has no NUL; an entry that is served from the index has
  the mode of a regular file, an executable or a symbolic link, and the object name git printed.
\<close>
theorem status_entries:
  assumes "parseGitPorcelainV2ZStatus out = Inr es" "entry \<in> set es"
  shows "path entry \<noteq> [] \<and> NUL \<notin> set (path entry) \<and>
    (case index entry of None \<Rightarrow> True
     | Some b \<Rightarrow> (mode b = 33188 \<or> mode b = 33261 \<or> mode b = 40960) \<and> CHR '' '' \<notin> set (oid b) \<and> NUL \<notin> set (oid b))"
proof -
  obtain rs where "list_all wfRecord rs" "es = concat (map dirty rs)"
    using assms(1) parseRecords_run [where rest = out and es = "[]"] by (auto simp: parseGitPorcelainV2ZStatus_def)
  then obtain r where "wfRecord r" "entry \<in> set (dirty r)" using assms(2) by (auto simp: list_all_iff)
  from dirty_typed [OF this] show ?thesis
    by (auto simp: isPath_def isField_def indexModes_def split: option.splits)
qed

theorem status_entries_witness:
  "let entry = hd (projr (parseGitPorcelainV2ZStatus (''2 R. N... 100644 100755 100755 d004 0cfb R100 new name'' @ [NUL] @ ''old name'' @ [NUL])))
   in path entry \<noteq> [] \<and> NUL \<notin> set (path entry) \<and>
      (case index entry of None \<Rightarrow> False | Some b \<Rightarrow> mode b = 33188 \<or> mode b = 33261 \<or> mode b = 40960)"
  using status_entries [OF status_example, of "\<lparr>path = ''new name'', index = Some \<lparr>oid = ''0cfb'', mode = 33261\<rparr>\<rparr>"]
  unfolding status_example by simp

end
