(* ===== verification/Version_Names.thy ===== *)
theory Version_Names
  imports Tx_Prelude
begin

text \<open>
  Derivation names and the comparison of versions (\<^verbatim>\<open>src/libstore/names.cc\<close>). An iterator into
  the text is the text that remains. The conversion \<^verbatim>\<open>string2Int<int>\<close> calls a library's lexical cast:
  it is the argument \<open>toInt\<close>, of which the proofs use that it rejects the empty string and \<^verbatim>\<open>pre\<close>.
  Matching a regular expression is the argument \<open>regexMatch\<close>, whose \<^const>\<open>None\<close> is an expression that
  does not compile. The loop of the comparison is a partial function, so that its termination is a theorem.
\<close>

section \<open>Names\<close>

record DrvName =
  fullName :: bytes
  name :: bytes
  version :: bytes
  hits :: nat

definition isAlpha :: "char \<Rightarrow> bool" where
  "isAlpha c = ((CHR ''a'' \<le> c \<and> c \<le> CHR ''z'') \<or> (CHR ''A'' \<le> c \<and> c \<le> CHR ''Z''))"

definition isDigit :: "char \<Rightarrow> bool" where
  "isDigit c = (CHR ''0'' \<le> c \<and> c \<le> CHR ''9'')"

text \<open>The first dash that is followed by something other than a letter: what is before and after it.\<close>

fun splitVersion :: "bytes \<Rightarrow> (bytes \<times> bytes) option" where
  "splitVersion (a # b # s) =
     (if a = CHR ''-'' \<and> \<not> isAlpha b then Some ([], b # s)
      else map_option (\<lambda>(n, v). (a # n, v)) (splitVersion (b # s)))"
| "splitVersion _ = None"

definition newDrvName :: "bytes \<Rightarrow> DrvName" where
  "newDrvName s =
     (case splitVersion s of
        None \<Rightarrow> \<lparr>fullName = s, name = s, version = [], hits = 0\<rparr>
      | Some (n, v) \<Rightarrow> \<lparr>fullName = s, name = n, version = v, hits = 0\<rparr>)"

definition matches :: "(bytes \<Rightarrow> bytes \<Rightarrow> bool option) \<Rightarrow> DrvName \<Rightarrow> DrvName \<Rightarrow> bool option" where
  "matches regexMatch d n =
     (case (if name d \<noteq> ''*'' then regexMatch (name d) (name n) else Some True) of
        None \<Rightarrow> None
      | Some False \<Rightarrow> Some False
      | Some True \<Rightarrow> Some (\<not> (version d \<noteq> [] \<and> version d \<noteq> version n)))"

definition drvNamesFromArgs :: "bytes list \<Rightarrow> DrvName list" where
  "drvNamesFromArgs opArgs = map newDrvName opArgs"

section \<open>Versions\<close>

definition isSeparator :: "char \<Rightarrow> bool" where
  "isSeparator c = (c = CHR ''.'' \<or> c = CHR ''-'')"

definition nextComponent :: "bytes \<Rightarrow> bytes \<times> bytes" where
  "nextComponent p =
     (case dropWhile isSeparator p of
        [] \<Rightarrow> ([], [])
      | c # s \<Rightarrow>
          if isDigit c then (takeWhile isDigit (c # s), dropWhile isDigit (c # s))
          else (takeWhile (\<lambda>x. \<not> isDigit x \<and> \<not> isSeparator x) (c # s),
                dropWhile (\<lambda>x. \<not> isDigit x \<and> \<not> isSeparator x) (c # s)))"

definition componentsLT :: "(bytes \<Rightarrow> int option) \<Rightarrow> bytes \<Rightarrow> bytes \<Rightarrow> bool" where
  "componentsLT toInt c1 c2 =
     (case (toInt c1, toInt c2) of
        (Some n1, Some n2) \<Rightarrow> n1 < n2
      | (n1, n2) \<Rightarrow>
          if c1 = [] \<and> n2 \<noteq> None then True
          else if c1 = ''pre'' \<and> c2 \<noteq> ''pre'' then True
          else if c2 = ''pre'' then False
          else if n2 \<noteq> None then True
          else if n1 \<noteq> None then False
          else c1 < c2)"

partial_function (option) compareLoop :: "(bytes \<Rightarrow> int option) \<Rightarrow> bytes \<Rightarrow> bytes \<Rightarrow> Ordering option" where
  "compareLoop toInt p1 p2 =
     (if p1 = [] \<and> p2 = [] then Some Equal
      else let (c1, r1) = nextComponent p1; (c2, r2) = nextComponent p2 in
        if componentsLT toInt c1 c2 then Some Less
        else if componentsLT toInt c2 c1 then Some Greater
        else compareLoop toInt r1 r2)"

declare compareLoop.simps [code]

definition compareVersions :: "(bytes \<Rightarrow> int option) \<Rightarrow> bytes \<Rightarrow> bytes \<Rightarrow> Ordering option" where
  "compareVersions toInt v1 v2 = compareLoop toInt v1 v2"

section \<open>Components\<close>

lemma nextComponent_Nil [simp]: "nextComponent [] = ([], [])"
  by (simp add: nextComponent_def)

lemma nextComponent_shorter: "p \<noteq> [] \<Longrightarrow> nextComponent p = (c, r) \<Longrightarrow> length r < length p"
proof -
  assume p: "p \<noteq> []" and n: "nextComponent p = (c, r)"
  show "length r < length p"
  proof (cases "dropWhile isSeparator p")
    case Nil
    then show ?thesis using p n by (simp add: nextComponent_def del: dropWhile_eq_Nil_conv)
  next
    case (Cons x s)
    have "\<not> isSeparator x" using hd_dropWhile [of isSeparator p] Cons by simp
    then have "length r \<le> length s"
      using n Cons by (auto simp: nextComponent_def length_dropWhile_le split: if_splits)
    also have "length s < length p" using length_dropWhile_le [of isSeparator p] Cons by simp
    finally show ?thesis .
  qed
qed

function components :: "bytes \<Rightarrow> bytes list" where
  "components p = (if p = [] then [] else fst (nextComponent p) # components (snd (nextComponent p)))"
  by pat_completeness auto
termination
  by (relation "measure length") (auto intro: nextComponent_shorter [OF _ surjective_pairing])

declare components.simps [simp del]

lemma components_Nil [simp]: "components [] = []"
  by (simp add: components.simps)

text \<open>
  The place of a component in the order: \<^verbatim>\<open>pre\<close>, then the missing component, then other words by
  their bytes, then numbers by their values.
\<close>

definition componentKey :: "(bytes \<Rightarrow> int option) \<Rightarrow> bytes \<Rightarrow> nat \<times> bytes \<times> int" where
  "componentKey toInt c =
     (case toInt c of
        Some n \<Rightarrow> (3, [], n)
      | None \<Rightarrow> if c = ''pre'' then (0, [], 0) else if c = [] then (1, [], 0) else (2, c, 0))"

definition versionKey :: "(bytes \<Rightarrow> int option) \<Rightarrow> nat \<Rightarrow> bytes \<Rightarrow> (nat \<times> bytes \<times> int) list" where
  "versionKey toInt n v = map (componentKey toInt) (components v @ replicate (n - length (components v)) [])"

definition castOk :: "(bytes \<Rightarrow> int option) \<Rightarrow> bool" where
  "castOk toInt = (toInt [] = None \<and> toInt ''pre'' = None)"

lemma componentsLT_key: "castOk toInt \<Longrightarrow> componentsLT toInt c1 c2 \<longleftrightarrow> componentKey toInt c1 < componentKey toInt c2"
  by (cases "toInt c1"; cases "toInt c2") (auto simp: componentsLT_def componentKey_def castOk_def neq_Nil_conv)

lemma componentKey_inject_words: "castOk toInt \<Longrightarrow> componentKey toInt c = componentKey toInt [] \<longleftrightarrow> c = []"
  by (auto simp: componentKey_def castOk_def split: option.splits if_splits)

lemma versionKey_step:
  assumes "n \<ge> length (components v)" "n > 0"
  shows "versionKey toInt n v = componentKey toInt (fst (nextComponent v)) # versionKey toInt (n - 1) (snd (nextComponent v))"
proof (cases "v = []")
  case True
  then show ?thesis using assms by (cases n) (simp_all add: versionKey_def)
next
  case False
  then have "components v = fst (nextComponent v) # components (snd (nextComponent v))" by (subst components.simps) simp
  then show ?thesis using assms by (simp add: versionKey_def)
qed

lemma components_bound: "length (components v) \<le> length v"
proof (induction "length v" arbitrary: v rule: less_induct)
  case less
  show ?case
  proof (cases "v = []")
    case False
    then have "length (snd (nextComponent v)) < length v" using nextComponent_shorter by (metis prod.collapse)
    then show ?thesis using less [of "snd (nextComponent v)"] False by (subst components.simps) simp
  qed simp
qed

lemma components_snd: "v \<noteq> [] \<Longrightarrow> length (components (snd (nextComponent v))) < length (components v)"
  by (subst (2) components.simps) simp

lemma compareLoop_key:
  assumes "castOk toInt" "n \<ge> length (components p1)" "n \<ge> length (components p2)"
  shows "compareLoop toInt p1 p2 = Some (threeWay (versionKey toInt n p1) (versionKey toInt n p2))"
  using assms(2,3)
proof (induction n arbitrary: p1 p2)
  case 0
  have "p1 = []" "p2 = []" using 0 components.simps [of p1] components.simps [of p2] by (auto split: if_splits)
  then show ?case by (subst compareLoop.simps) (simp add: versionKey_def threeWay_def)
next
  case (Suc n)
  show ?case
  proof (cases "p1 = [] \<and> p2 = []")
    case True
    then show ?thesis by (subst compareLoop.simps) (simp add: threeWay_def)
  next
    case False
    obtain c1 r1 c2 r2 where n: "nextComponent p1 = (c1, r1)" "nextComponent p2 = (c2, r2)" by fastforce
    have b: "length (components r1) \<le> n" "length (components r2) \<le> n"
      using components_snd [of p1] components_snd [of p2] Suc.prems n by (cases "p1 = []"; cases "p2 = []"; simp)+
    have k: "versionKey toInt (Suc n) p1 = componentKey toInt c1 # versionKey toInt n r1"
      "versionKey toInt (Suc n) p2 = componentKey toInt c2 # versionKey toInt n r2"
      using versionKey_step [of p1 "Suc n" toInt] versionKey_step [of p2 "Suc n" toInt] Suc.prems n by simp_all
    show ?thesis using False n Suc.IH [OF b] unfolding k
      by (subst compareLoop.simps) (auto simp: componentsLT_key [OF assms(1)] threeWay_def)
  qed
qed


text \<open>A cast for the examples: decimal digits in the range of \<^verbatim>\<open>int\<close>, as the library reads them.\<close>

definition decimalCast :: "bytes \<Rightarrow> int option" where
  "decimalCast s =
     (let n = foldl (\<lambda>v c. v * 10 + (of_char c - 48)) 0 s in
      if s \<noteq> [] \<and> list_all isDigit s \<and> n < 2 ^ 31 then Some n else None)"

lemma castOk_decimal: "castOk decimalCast"
  by code_simp

text \<open>A number that does not fit is a word, and sorts before every number.\<close>

lemma version_overflow:
  "compareVersions decimalCast ''1.4294967296'' ''1.3'' = Some Less \<and>
   compareVersions decimalCast ''1.42949672'' ''1.3'' = Some Greater"
  by code_simp

section \<open>Properties\<close>

text \<open>
  The comparison of two versions ends with a result, whatever the texts and however numbers are read.
\<close>
theorem versions_terminate: "\<exists>r. compareVersions toInt v1 v2 = Some r"
proof -
  have "\<exists>r. compareLoop toInt p1 p2 = Some r" for p1 p2
  proof (induction "length p1 + length p2" arbitrary: p1 p2 rule: less_induct)
    case less
    obtain c1 r1 c2 r2 where n: "nextComponent p1 = (c1, r1)" "nextComponent p2 = (c2, r2)" by fastforce
    show ?case
    proof (cases "p1 = [] \<and> p2 = []")
      case True
      then show ?thesis by (subst compareLoop.simps) simp
    next
      case False
      have "length r1 \<le> length p1" "length r2 \<le> length p2"
        using n nextComponent_shorter [of p1] nextComponent_shorter [of p2] by (cases "p1 = []"; cases "p2 = []"; fastforce)+
      moreover have "length r1 < length p1 \<or> length r2 < length p2"
        using False n nextComponent_shorter by blast
      ultimately have "length r1 + length r2 < length p1 + length p2" by linarith
      from less [OF this] show ?thesis using False n by (subst compareLoop.simps) auto
    qed
  qed
  then show ?thesis by (simp add: compareVersions_def)
qed

text \<open>
  C33: the comparison is that of the lists of components, padded with missing ones, in the order
  \<^verbatim>\<open>pre\<close>, missing, word, number; so it is a total preorder on versions.
\<close>
theorem versions_order:
  assumes "toInt [] = None" "toInt ''pre'' = None" "length u \<le> n" "length v \<le> n" "length w \<le> n"
  shows "compareVersions toInt u v = Some (threeWay (versionKey toInt n u) (versionKey toInt n v)) \<and>
    compareVersions toInt u u = Some Equal \<and>
    (compareVersions toInt u v = Some Less \<longleftrightarrow> compareVersions toInt v u = Some Greater) \<and>
    (compareVersions toInt u v = Some Greater \<or> compareVersions toInt v w = Some Greater \<or> compareVersions toInt u w \<noteq> Some Greater)"
proof -
  have ok: "castOk toInt" using assms by (simp add: castOk_def)
  have k: "compareVersions toInt a b = Some (threeWay (versionKey toInt n a) (versionKey toInt n b))"
    if "length a \<le> n" "length b \<le> n" for a b
    using compareLoop_key [OF ok le_trans [OF components_bound] le_trans [OF components_bound], of a n b] components_bound [of a] components_bound [of b] that
    by (simp add: compareVersions_def)
  show ?thesis using assms k by (auto simp: threeWay_simps)
qed

theorem versions_order_witness:
  "compareVersions decimalCast ''2.3pre1'' ''2.3'' = Some (threeWay (versionKey decimalCast 7 ''2.3pre1'') (versionKey decimalCast 7 ''2.3'')) \<and>
   compareVersions decimalCast ''2.3pre1'' ''2.3'' = Some Less"
proof -
  have "decimalCast [] = None" "decimalCast ''pre'' = None" using castOk_decimal by (simp_all add: castOk_def)
  from versions_order [OF this, of "''2.3pre1''" 7 "''2.3''" "''2.3''"]
  have "compareVersions decimalCast ''2.3pre1'' ''2.3'' = Some (threeWay (versionKey decimalCast 7 ''2.3pre1'') (versionKey decimalCast 7 ''2.3''))"
    by simp
  moreover have "compareVersions decimalCast ''2.3pre1'' ''2.3'' = Some Less" by code_simp
  ultimately show ?thesis by simp
qed

end
