(* ===== verification/Topo_Sort.thy ===== *)
theory Topo_Sort
  imports Tx_Prelude
begin

text \<open>
  The topological sort of the utilities (\<^verbatim>\<open>src/libutil/include/nix/util/topo-sort.hh\<close>). The recursive
  lambda \<^verbatim>\<open>dfsVisit\<close> and its loop over the references are one function over the references still to
  visit; its fuel bounds the depth of the recursion, and \<open>topoSort\<close> gives as much as there are items.
  \<^const>\<open>None\<close> is fuel exhausted or the null pointer \<^verbatim>\<open>parent\<close> dereferenced; both are shown not to
  happen. \<^verbatim>\<open>std::set\<close>s that are iterated are lists, the others sets.
\<close>

record 'a SortState =
  sorted' :: "'a list"
  visited :: "'a set"
  parents :: "'a set"

record 'a Cycle =
  cyclePath :: 'a
  cycleParent :: 'a

datatype 'a TopoSortResult = Sorted "'a list" | Cyclic "'a Cycle"

fun visitAll ::
    "nat \<Rightarrow> 'a list \<Rightarrow> ('a \<Rightarrow> 'a list) \<Rightarrow> 'a option \<Rightarrow> 'a list \<Rightarrow> 'a SortState \<Rightarrow> ('a Cycle + 'a SortState) option" where
  "visitAll fuel items getChildren par [] s = Some (Inr s)"
| "visitAll 0 items getChildren par (i # references) s = None"
| "visitAll (Suc fuel) items getChildren par (i # references) s =
     (if par = Some i \<or> i \<notin> set items then visitAll (Suc fuel) items getChildren par references s
      else if i \<in> parents s then
        (case par of None \<Rightarrow> None | Some p \<Rightarrow> Some (Inl \<lparr>cyclePath = i, cycleParent = p\<rparr>))
      else if i \<in> visited s then visitAll (Suc fuel) items getChildren par references s
      else case visitAll fuel items getChildren (Some i) (getChildren i)
          (s\<lparr>visited := insert i (visited s), parents := insert i (parents s)\<rparr>) of
        Some (Inr s') \<Rightarrow>
          visitAll (Suc fuel) items getChildren par references
            (s'\<lparr>sorted' := sorted' s' @ [i], parents := parents s' - {i}\<rparr>)
      | r \<Rightarrow> r)"

definition topoSort :: "'a list \<Rightarrow> ('a \<Rightarrow> 'a list) \<Rightarrow> 'a TopoSortResult option" where
  "topoSort items getChildren =
     (case visitAll (Suc (length items)) items getChildren None items \<lparr>sorted' = [], visited = {}, parents = {}\<rparr> of
        None \<Rightarrow> None
      | Some (Inl c) \<Rightarrow> Some (Cyclic c)
      | Some (Inr s) \<Rightarrow> Some (Sorted (rev (sorted' s))))"

section \<open>The invariant of the search\<close>

text \<open>The edges that count: between two different items.\<close>

definition edge :: "'a list \<Rightarrow> ('a \<Rightarrow> 'a list) \<Rightarrow> 'a \<Rightarrow> 'a \<Rightarrow> bool" where
  "edge items getChildren x y = (x \<in> set items \<and> y \<in> set items \<and> y \<in> set (getChildren x) \<and> x \<noteq> y)"

text \<open>Every child of an element comes before it.\<close>

definition postorder :: "('a \<Rightarrow> 'a \<Rightarrow> bool) \<Rightarrow> 'a list \<Rightarrow> bool" where
  "postorder E xs = (\<forall>us x vs. xs = us @ x # vs \<longrightarrow> (\<forall>y. E x y \<longrightarrow> y \<in> set us))"

lemma postorder_snoc: "postorder E (xs @ [x]) \<longleftrightarrow> postorder E xs \<and> (\<forall>y. E x y \<longrightarrow> y \<in> set xs)"
proof
  assume p: "postorder E (xs @ [x])"
  have "postorder E xs" unfolding postorder_def
  proof (intro allI impI)
    fix us z vs y assume "xs = us @ z # vs" "E z y"
    then have "xs @ [x] = us @ z # (vs @ [x])" by simp
    then show "y \<in> set us" using p \<open>E z y\<close> unfolding postorder_def by blast
  qed
  moreover have "\<forall>y. E x y \<longrightarrow> y \<in> set xs" using p unfolding postorder_def by blast
  ultimately show "postorder E xs \<and> (\<forall>y. E x y \<longrightarrow> y \<in> set xs)" ..
next
  assume p: "postorder E xs \<and> (\<forall>y. E x y \<longrightarrow> y \<in> set xs)"
  show "postorder E (xs @ [x])" unfolding postorder_def
  proof (intro allI impI)
    fix us z vs y assume eq: "xs @ [x] = us @ z # vs" and e: "E z y"
    show "y \<in> set us"
    proof (cases vs rule: rev_cases)
      case Nil
      then show ?thesis using eq e p by simp
    next
      case (snoc ws w)
      then have "xs = us @ z # ws" using eq by simp
      then show ?thesis using p e unfolding postorder_def by blast
    qed
  qed
qed

text \<open>The chain of open visits, the innermost first.\<close>

fun chain :: "('a \<Rightarrow> 'a \<Rightarrow> bool) \<Rightarrow> 'a list \<Rightarrow> bool" where
  "chain E (x # y # st) = (E y x \<and> chain E (y # st))"
| "chain E _ = True"

definition sortInv :: "'a list \<Rightarrow> ('a \<Rightarrow> 'a list) \<Rightarrow> 'a list \<Rightarrow> 'a SortState \<Rightarrow> bool" where
  "sortInv items ch st s =
     (parents s = set st \<and> visited s = set (sorted' s) \<union> set st \<and> set (sorted' s) \<inter> set st = {} \<and>
      distinct (sorted' s) \<and> set (sorted' s) \<union> set st \<subseteq> set items \<and> postorder (edge items ch) (sorted' s) \<and>
      chain (edge items ch) st)"

definition parentOf :: "'a list \<Rightarrow> 'a option" where
  "parentOf st = (case st of [] \<Rightarrow> None | p # _ \<Rightarrow> Some p)"

lemma parentOf_simps [simp]: "parentOf [] = None" "parentOf (p # st) = Some p"
  by (simp_all add: parentOf_def)

text \<open>A reported cycle: an edge from the parent back to an item from which the parent is reached.\<close>

definition isCycle :: "('a \<Rightarrow> 'a \<Rightarrow> bool) \<Rightarrow> 'a Cycle \<Rightarrow> bool" where
  "isCycle E c = (E (cycleParent c) (cyclePath c) \<and> E\<^sup>+\<^sup>+ (cyclePath c) (cycleParent c))"

lemma chain_reaches: "chain E (p # st) \<Longrightarrow> x \<in> set st \<Longrightarrow> E\<^sup>+\<^sup>+ x p"
proof (induction st arbitrary: p)
  case (Cons y st)
  then show ?case
  proof (cases "x = y")
    case False
    then have "E\<^sup>+\<^sup>+ x y" using Cons by auto
    then show ?thesis using Cons.prems(1) by (auto intro: tranclp.trancl_into_trancl)
  qed auto
qed simp

definition visitPost ::
    "'a list \<Rightarrow> ('a \<Rightarrow> 'a list) \<Rightarrow> 'a list \<Rightarrow> 'a list \<Rightarrow> 'a SortState \<Rightarrow> ('a Cycle + 'a SortState) option \<Rightarrow> bool" where
  "visitPost items ch st refs s r =
     (case r of
        None \<Rightarrow> False
      | Some (Inl c) \<Rightarrow> isCycle (edge items ch) c
      | Some (Inr s') \<Rightarrow> sortInv items ch st s' \<and> set (sorted' s) \<subseteq> set (sorted' s') \<and>
          (\<forall>i \<in> set refs. i \<in> set items \<and> parentOf st \<noteq> Some i \<longrightarrow> i \<in> set (sorted' s')))"

lemma visitPost_Cons:
  "visitPost items ch st refs s2 r \<Longrightarrow> set (sorted' s) \<subseteq> set (sorted' s2) \<Longrightarrow>
     parentOf st = Some i \<or> i \<notin> set items \<or> i \<in> set (sorted' s2) \<Longrightarrow> visitPost items ch st (i # refs) s r"
  unfolding visitPost_def by (cases r; cases "the r") auto

lemma visitAll_correct:
  assumes "sortInv items ch st s" "par = parentOf st" "card (set items - visited s) < fuel"
    "\<And>i. i \<in> set refs \<Longrightarrow> i \<in> set items \<Longrightarrow> par \<noteq> Some i \<Longrightarrow> (case par of None \<Rightarrow> True | Some p \<Rightarrow> edge items ch p i)"
  shows "visitPost items ch st refs s (visitAll fuel items ch par refs s)"
  using assms
proof (induction fuel items ch par refs s arbitrary: st rule: visitAll.induct)
  case (3 fuel items ch par i references s)
  note inv = "3.prems"(1) and par = "3.prems"(2) and fuel = "3.prems"(3) and refs = "3.prems"(4)
  consider (skip) "par = Some i \<or> i \<notin> set items" | (cycle) "par \<noteq> Some i" "i \<in> set items" "i \<in> parents s"
    | (seen) "par \<noteq> Some i" "i \<in> set items" "i \<notin> parents s" "i \<in> visited s"
    | (new) "par \<noteq> Some i" "i \<in> set items" "i \<notin> parents s" "i \<notin> visited s" by blast
  then show ?case
  proof cases
    case skip
    then show ?thesis using visitPost_Cons [OF "3.IH"(1) [OF skip inv par fuel refs], of s i] par by auto
  next
    case cycle
    then obtain p st' where st: "st = p # st'" using inv by (cases st) (auto simp: sortInv_def)
    have e: "edge items ch p i" using refs [of i] cycle by (simp add: par st)
    have "i \<in> set st'" using cycle inv par by (auto simp: sortInv_def st)
    moreover have "chain (edge items ch) (p # st')" using inv by (simp add: sortInv_def st)
    ultimately have "(edge items ch)\<^sup>+\<^sup>+ i p" by (intro chain_reaches)
    then show ?thesis using e cycle by (simp add: par st isCycle_def visitPost_def)
  next
    case seen
    then have "i \<in> set (sorted' s)" using inv by (auto simp: sortInv_def)
    then show ?thesis using visitPost_Cons [OF "3.IH"(2) [OF _ _ _ inv par fuel refs], of s i] seen by simp
  next
    case new
    let ?s1 = "s\<lparr>visited := insert i (visited s), parents := insert i (parents s)\<rparr>"
    have c: "chain (edge items ch) (i # st)" using inv refs [of i] new(1,2) par by (cases st) (auto simp: sortInv_def)
    have inv1: "sortInv items ch (i # st) ?s1" using inv new c by (auto simp: sortInv_def)
    have "set items - insert i (visited s) \<subset> set items - visited s" using new by blast
    then have "card (set items - insert i (visited s)) < card (set items - visited s)" by (intro psubset_card_mono) auto
    then have fuel1: "card (set items - visited ?s1) < fuel" using fuel by simp
    have refs1: "case Some i of None \<Rightarrow> True | Some p \<Rightarrow> edge items ch p j"
      if "j \<in> set (ch i)" "j \<in> set items" "Some i \<noteq> Some j" for j
      using that new by (simp add: edge_def)
    have post1: "visitPost items ch (i # st) (ch i) ?s1 (visitAll fuel items ch (Some i) (ch i) ?s1)"
      by (rule "3.IH"(3) [OF _ new(3,4) inv1 _ fuel1 refs1]) (use new in simp_all)
    show ?thesis
    proof (cases "visitAll fuel items ch (Some i) (ch i) ?s1")
      case None
      then show ?thesis using post1 by (simp add: visitPost_def)
    next
      case (Some r)
      show ?thesis
      proof (cases r)
        case (Inl cyc)
        then show ?thesis using Some post1 new by (simp add: visitPost_def)
      next
        case (Inr s')
        let ?s2 = "s'\<lparr>sorted' := sorted' s' @ [i], parents := parents s' - {i}\<rparr>"
        have r: "sortInv items ch (i # st) s'" "set (sorted' s) \<subseteq> set (sorted' s')"
          "\<forall>j \<in> set (ch i). j \<in> set items \<and> i \<noteq> j \<longrightarrow> j \<in> set (sorted' s')"
          using Some Inr post1 by (auto simp: visitPost_def)
        have "i \<notin> set st" using new(3) inv by (simp add: sortInv_def)
        moreover have "postorder (edge items ch) (sorted' s' @ [i])"
          using r(1,3) by (auto simp: postorder_snoc sortInv_def edge_def)
        moreover have "chain (edge items ch) st" using c by (cases st) auto
        ultimately have inv2: "sortInv items ch st ?s2" using r(1) by (auto simp: sortInv_def)
        have "visited s \<subseteq> visited s'"
          using inv r(1,2) by (auto simp: sortInv_def)
        then have "card (set items - visited s') \<le> card (set items - visited s)" by (intro card_mono) auto
        then have fuel2: "card (set items - visited ?s2) < Suc fuel" using fuel by simp
        have "visitPost items ch st references ?s2 (visitAll (Suc fuel) items ch par references ?s2)"
          by (rule "3.IH"(4) [OF _ new(3,4) _ _ inv2 par fuel2]) (use new Some Inr refs in auto)
        then have "visitPost items ch st (i # references) s (visitAll (Suc fuel) items ch par references ?s2)"
          by (rule visitPost_Cons) (use r(2) in auto)
        then show ?thesis using Some Inr new by simp
      qed
    qed
  qed
qed (simp_all add: visitPost_def)


lemma topoSort_visits:
  "visitPost items ch [] items \<lparr>sorted' = [], visited = {}, parents = {}\<rparr>
     (visitAll (Suc (length items)) items ch None items \<lparr>sorted' = [], visited = {}, parents = {}\<rparr>)"
proof (rule visitAll_correct)
  show "card (set items - visited \<lparr>sorted' = [], visited = {}, parents = {}\<rparr>) < Suc (length items)"
    by (simp add: card_length less_Suc_eq_le)
  show "sortInv items ch [] \<lparr>sorted' = [], visited = {}, parents = {}\<rparr>" by (simp add: sortInv_def postorder_def)
qed simp_all

lemma postorder_acyclic:
  assumes "postorder E xs" "E\<^sup>+\<^sup>+ x y" "x \<in> set xs" "distinct xs" "\<And>x y. E x y \<Longrightarrow> y \<in> set xs"
  shows "x \<noteq> y"
proof -
  have before: "\<exists>us vs. xs = us @ y # vs \<and> x \<in> set vs" if "E\<^sup>+\<^sup>+ x y" for y
    using that
  proof (induction rule: tranclp_induct)
    case (base y)
    obtain us vs where xs: "xs = us @ x # vs" using assms(3) by (meson split_list)
    then have "y \<in> set us" using assms(1) base unfolding postorder_def by blast
    then obtain a b where "us = a @ y # b" by (meson split_list)
    then show ?case using xs by (intro exI [of _ a] exI [of _ "b @ x # vs"]) simp
  next
    case (step y z)
    obtain us vs where xs: "xs = us @ y # vs" "x \<in> set vs" using step by blast
    then have "z \<in> set us" using assms(1) step unfolding postorder_def by blast
    then obtain a b where "us = a @ z # b" by (meson split_list)
    then show ?case using xs by (intro exI [of _ a] exI [of _ "b @ y # vs"]) simp
  qed
  then show ?thesis using assms(2,4) by fastforce
qed

section \<open>Properties\<close>

text \<open>
  C34: the sort always returns, with fuel for as many nested visits as there are items, and never dereferences
  the null parent; a sorted result holds every item once, each before all the items it refers to; a reported cycle is
  one, an edge back to an item from which its source is reached; so the sort succeeds exactly when no
  item reaches itself through other items.
\<close>
theorem topo_correct:
  "(case topoSort items getChildren of
      None \<Rightarrow> False
    | Some (Sorted xs) \<Rightarrow>
        set xs = set items \<and> distinct xs \<and>
        list_all (\<lambda>i. list_all (\<lambda>j. \<not> edge items getChildren (xs ! j) (xs ! i)) [i..<length xs]) [0..<length xs]
    | Some (Cyclic c) \<Rightarrow> isCycle (edge items getChildren) c) \<and>
   ((\<exists>xs. topoSort items getChildren = Some (Sorted xs)) \<longleftrightarrow> \<not> (\<exists>x. (edge items getChildren)\<^sup>+\<^sup>+ x x))"
proof -
  let ?E = "edge items getChildren"
  let ?r = "visitAll (Suc (length items)) items getChildren None items \<lparr>sorted' = [], visited = {}, parents = {}\<rparr>"
  note post = topoSort_visits [of items getChildren]
  have E: "x \<in> set items \<and> y \<in> set items \<and> x \<noteq> y" if "?E x y" for x y using that by (simp add: edge_def)
  show ?thesis
  proof (cases ?r)
    case None
    then show ?thesis using post by (simp add: visitPost_def)
  next
    case (Some o')
    show ?thesis
    proof (cases o')
      case (Inl c)
      then have c: "isCycle ?E c" "topoSort items getChildren = Some (Cyclic c)" using post Some by (simp_all add: visitPost_def topoSort_def)
      then have "?E\<^sup>+\<^sup>+ (cyclePath c) (cyclePath c)" by (auto simp: isCycle_def intro: tranclp.trancl_into_trancl)
      then show ?thesis using c by auto
    next
      case (Inr s)
      let ?ys = "sorted' s"
      have t: "topoSort items getChildren = Some (Sorted (rev ?ys))" using Some Inr by (simp add: topoSort_def)
      have p: "postorder ?E ?ys" "distinct ?ys" "set ?ys = set items"
        using post Some Inr by (auto simp: visitPost_def sortInv_def)
      have "\<not> ?E (rev ?ys ! j) (rev ?ys ! i)" if "i \<le> j" "j < length ?ys" for i j
      proof
        let ?k = "length ?ys - Suc j"
        assume e: "?E (rev ?ys ! j) (rev ?ys ! i)"
        have k: "?k < length ?ys" "rev ?ys ! j = ?ys ! ?k" "rev ?ys ! i = ?ys ! (length ?ys - Suc i)" using that by (simp_all add: rev_nth)
        have "?ys = take ?k ?ys @ ?ys ! ?k # drop (Suc ?k) ?ys" using k(1) by (rule id_take_nth_drop)
        then have "rev ?ys ! i \<in> set (take ?k ?ys)" using p(1) e k(2) unfolding postorder_def by metis
        then obtain l where "l < ?k" "?ys ! l = ?ys ! (length ?ys - Suc i)" using k by (auto simp: in_set_conv_nth)
        then have "l = length ?ys - Suc i" using p(2) that k(1) by (intro nth_eq_iff_index_eq [THEN iffD1, OF p(2)]) auto
        then show False using \<open>l < ?k\<close> that by simp
      qed
      moreover have "\<not> (\<exists>x. ?E\<^sup>+\<^sup>+ x x)"
      proof
        assume "\<exists>x. ?E\<^sup>+\<^sup>+ x x"
        then obtain x where x: "?E\<^sup>+\<^sup>+ x x" by blast
        then have "x \<in> set ?ys" using E p(3) by (auto dest: tranclpD)
        then show False using postorder_acyclic [OF p(1) x _ p(2)] E p(3) by blast
      qed
      ultimately show ?thesis using t p by (auto simp: list_all_iff)
    qed
  qed
qed

end
