(* ===== verification/Wire.thy ===== *)
theory Wire
  imports Tx_Prelude
begin

text \<open>
  The serialisation that the archives, the hashes and the protocols share (\<^verbatim>\<open>src/libutil/serialise.cc\<close> and its
  header): numbers as eight bytes, the least significant first, and strings with their length and with zeros up
  to a multiple of eight. A sink is the list of the bytes written, a source the bytes still to read; a 64-bit
  host is assumed, so that \<^verbatim>\<open>size_t\<close> holds every \<^verbatim>\<open>uint64_t\<close>.
\<close>

datatype WireError = EndOfFile | StringTooLong | NonZeroPadding

section \<open>Writing\<close>

definition writeNum :: "nat \<Rightarrow> bytes" where
  "writeNum n = map (\<lambda>i. char_of (drop_bit (8 * i) n mod 256)) [0..<8]"

definition writePadding :: "nat \<Rightarrow> bytes" where
  "writePadding len = (if len mod 8 \<noteq> 0 then replicate (8 - len mod 8) (CHR 0x00) else [])"

definition writeString :: "bytes \<Rightarrow> bytes" where
  "writeString s = writeNum (length s) @ s @ writePadding (length s)"

definition writeStrings :: "bytes list \<Rightarrow> bytes" where
  "writeStrings ss = writeNum (length ss) @ concat (map writeString ss)"

section \<open>Reading\<close>

definition readBytes :: "nat \<Rightarrow> bytes \<Rightarrow> WireError + bytes \<times> bytes" where
  "readBytes n src = (if length src < n then Inl EndOfFile else Inr (take n src, drop n src))"

fun littleEndian :: "bytes \<Rightarrow> nat" where
  "littleEndian [] = 0"
| "littleEndian (b # bs) = of_char b + 256 * littleEndian bs"

definition readNum :: "bytes \<Rightarrow> WireError + nat \<times> bytes" where
  "readNum src = ebind (readBytes 8 src) (\<lambda>(buf, rest). Inr (littleEndian buf, rest))"

definition readPadding :: "nat \<Rightarrow> bytes \<Rightarrow> WireError + bytes" where
  "readPadding len src =
     (if len mod 8 \<noteq> 0 then
        ebind (readBytes (8 - len mod 8) src) (\<lambda>(buf, rest). if littleEndian buf \<noteq> 0 then Inl NonZeroPadding else Inr rest)
      else Inr src)"

definition readString :: "nat \<Rightarrow> bytes \<Rightarrow> WireError + bytes \<times> bytes" where
  "readString maxLen src =
     ebind (readNum src) (\<lambda>(len, src1).
       if len > maxLen then Inl StringTooLong
       else ebind (readBytes len src1) (\<lambda>(res, src2). ebind (readPadding len src2) (\<lambda>src3. Inr (res, src3))))"

fun readMany :: "nat \<Rightarrow> bytes \<Rightarrow> WireError + bytes list \<times> bytes" where
  "readMany 0 src = Inr ([], src)"
| "readMany (Suc n) src =
     ebind (readString (2 ^ 64 - 1) src) (\<lambda>(s, src1). ebind (readMany n src1) (\<lambda>(ss, src2). Inr (s # ss, src2)))"

definition readStrings :: "bytes \<Rightarrow> WireError + bytes list \<times> bytes" where
  "readStrings src = ebind (readNum src) (\<lambda>(count, src1). readMany count src1)"

section \<open>Numbers\<close>

lemma length_writeNum [simp]: "length (writeNum n) = 8"
  by (simp add: writeNum_def)

lemma littleEndian_digits:
  "littleEndian (map (\<lambda>i. char_of (drop_bit (8 * i) n mod 256)) [k..<k + m]) = drop_bit (8 * k) n mod 256 ^ m" for n :: nat
proof (induction m arbitrary: k)
  case (Suc m)
  have "[k..<k + Suc m] = k # [Suc k..<Suc k + m]" by (simp add: upt_rec)
  moreover have "drop_bit (8 * Suc k) n = drop_bit (8 * k) n div 256"
    by (simp add: drop_bit_eq_div power_add div_mult2_eq [symmetric] mult.commute)
  moreover have "x mod 256 + 256 * (x div 256 mod 256 ^ m) = x mod 256 ^ Suc m" for x :: nat
    by (metis mod_mult2_eq power_Suc add.commute)
  ultimately show ?case using Suc [of "Suc k"] by simp
qed simp

lemma littleEndian_writeNum: "n < 2 ^ 64 \<Longrightarrow> littleEndian (writeNum n) = n"
  using littleEndian_digits [of n 0 8] by (simp add: writeNum_def)

lemma littleEndian_less: "littleEndian bs < 256 ^ length bs"
proof (induction bs)
  case (Cons b bs)
  have "(of_char b :: nat) < 256" by simp
  then have "of_char b + 256 * littleEndian bs < 256 * Suc (littleEndian bs)" by simp
  also have "\<dots> \<le> 256 * 256 ^ length bs" using Cons by (intro mult_le_mono) simp_all
  finally show ?case by simp
qed simp

lemma littleEndian_inject: "length as = length bs \<Longrightarrow> littleEndian as = littleEndian bs \<Longrightarrow> as = bs"
proof (induction as bs rule: list_induct2)
  case (Cons a as b bs)
  have less: "(of_char a :: nat) < 256" "(of_char b :: nat) < 256" by simp_all
  have eq: "(of_char a :: nat) + 256 * littleEndian as = of_char b + 256 * littleEndian bs" using Cons(3) by simp
  then have "((of_char a :: nat) + 256 * littleEndian as) mod 256 = (of_char b + 256 * littleEndian bs) mod 256" by (rule arg_cong)
  then have h: "(of_char a :: nat) = of_char b" using less by simp
  then have "littleEndian as = littleEndian bs" using eq by simp
  then show ?case using Cons(2) h by simp
qed simp

lemma writeNum_littleEndian: "length bs = 8 \<Longrightarrow> writeNum (littleEndian bs) = bs"
  using littleEndian_less [of bs] by (intro littleEndian_inject) (simp_all add: littleEndian_writeNum)

lemma littleEndian_zero: "littleEndian bs = 0 \<longleftrightarrow> bs = replicate (length bs) (CHR 0x00)"
proof -
  have "littleEndian (replicate n (CHR 0x00)) = 0" for n by (induction n) simp_all
  then show ?thesis using littleEndian_inject [of bs "replicate (length bs) (CHR 0x00)"] by (metis length_replicate)
qed


section \<open>Round trips\<close>

lemma readBytes_append: "length s = n \<Longrightarrow> readBytes n (s @ rest) = Inr (s, rest)"
  by (simp add: readBytes_def)

lemma readBytes_eq_Inr: "readBytes n src = Inr (s, rest) \<longleftrightarrow> src = s @ rest \<and> length s = n"
  by (auto simp: readBytes_def)

lemma readNum_write: "n < 2 ^ 64 \<Longrightarrow> readNum (writeNum n @ rest) = Inr (n, rest)"
  by (simp add: readNum_def readBytes_append littleEndian_writeNum)

lemma readNum_eq_Inr: "readNum src = Inr (n, rest) \<longleftrightarrow> n < 2 ^ 64 \<and> src = writeNum n @ rest"
proof
  assume "readNum src = Inr (n, rest)"
  then obtain b where b: "src = b @ rest" "length b = 8" "n = littleEndian b"
    by (auto simp: readNum_def bind_defs readBytes_eq_Inr)
  then show "n < 2 ^ 64 \<and> src = writeNum n @ rest"
    using littleEndian_less [of b] by (simp add: writeNum_littleEndian)
qed (simp add: readNum_write)

lemma readPadding_eq_Inr: "readPadding len src = Inr rest \<longleftrightarrow> src = writePadding len @ rest"
proof -
  let ?n = "8 - len mod 8"
  have "(\<exists>b. src = b @ rest \<and> length b = ?n \<and> littleEndian b = 0) \<longleftrightarrow> src = replicate ?n (CHR 0x00) @ rest"
    by (metis length_replicate littleEndian_zero)
  then show ?thesis
    by (auto simp: readPadding_def writePadding_def bind_defs readBytes_eq_Inr split: if_splits)
qed

text \<open>Reading accepts exactly what is written: the encoding of a string is unique.\<close>

lemma readString_eq_Inr:
  "readString maxLen src = Inr (s, rest) \<longleftrightarrow> src = writeString s @ rest \<and> length s \<le> maxLen \<and> length s < 2 ^ 64"
proof
  assume "readString maxLen src = Inr (s, rest)"
  then obtain n s1 s2 where "readNum src = Inr (n, s1)" "\<not> n > maxLen" "readBytes n s1 = Inr (s, s2)" "readPadding n s2 = Inr rest"
    by (auto simp: readString_def bind_defs split: if_splits)
  then show "src = writeString s @ rest \<and> length s \<le> maxLen \<and> length s < 2 ^ 64"
    by (auto simp: readNum_eq_Inr readBytes_eq_Inr readPadding_eq_Inr writeString_def)
next
  assume a: "src = writeString s @ rest \<and> length s \<le> maxLen \<and> length s < 2 ^ 64"
  then have "readNum src = Inr (length s, s @ writePadding (length s) @ rest)"
    by (simp add: writeString_def readNum_write)
  moreover have "readPadding (length s) (writePadding (length s) @ rest) = Inr rest" by (simp add: readPadding_eq_Inr)
  ultimately show "readString maxLen src = Inr (s, rest)"
    using a by (simp add: readString_def readBytes_append)
qed

lemma readString_write [simp]:
  "length s \<le> maxLen \<Longrightarrow> length s < 2 ^ 64 \<Longrightarrow> readString maxLen (writeString s @ rest) = Inr (s, rest)"
  by (simp add: readString_eq_Inr)

lemma writeString_inject:
  assumes "writeString s @ x = writeString t @ y" "length s < 2 ^ 64" "length t < 2 ^ 64"
  shows "s = t \<and> x = y"
proof -
  have "Inr (s, x) = readString (2 ^ 64) (writeString s @ x)" using assms(2) by simp
  also have "\<dots> = readString (2 ^ 64) (writeString t @ y)" using assms(1) by simp
  also have "\<dots> = Inr (t, y)" using assms(3) by simp
  finally show ?thesis by simp
qed

lemma readMany_eq_Inr:
  "readMany n src = Inr (ss, rest) \<longleftrightarrow> length ss = n \<and> src = concat (map writeString ss) @ rest \<and> (\<forall>s \<in> set ss. length s < 2 ^ 64)"
proof (induction n arbitrary: src ss)
  case (Suc n)
  have le: "k \<le> 2 ^ 64 - 1 \<and> k < 2 ^ 64 \<longleftrightarrow> k < 2 ^ 64" for k :: nat by auto
  have "readMany (Suc n) src = Inr (ss, rest) \<longleftrightarrow>
      (\<exists>t ts src1. readString (2 ^ 64 - 1) src = Inr (t, src1) \<and> readMany n src1 = Inr (ts, rest) \<and> ss = t # ts)"
    by (auto simp: bind_defs)
  also have "\<dots> \<longleftrightarrow> length ss = Suc n \<and> src = concat (map writeString ss) @ rest \<and> (\<forall>s \<in> set ss. length s < 2 ^ 64)"
    unfolding readString_eq_Inr le Suc.IH by (cases ss) auto
  finally show ?case .
qed auto

lemma readStrings_eq_Inr:
  "readStrings src = Inr (ss, rest) \<longleftrightarrow> src = writeStrings ss @ rest \<and> length ss < 2 ^ 64 \<and> (\<forall>s \<in> set ss. length s < 2 ^ 64)"
  by (auto simp: readStrings_def bind_defs readNum_eq_Inr readMany_eq_Inr writeStrings_def)

text \<open>
  Lists of strings on the wire: reading returns a list exactly when the input starts with what writing that
  list gives, so that what is written is read back with the rest of the input, no other bytes are
  read as it, and a written list cannot be the beginning of another one.
\<close>
theorem wire_strings:
  "readStrings src = Inr (ss, rest) \<longleftrightarrow> src = writeStrings ss @ rest \<and> length ss < 2 ^ 64 \<and> (\<forall>s \<in> set ss. length s < 2 ^ 64)"
  by (rule readStrings_eq_Inr)

lemma wire_strings_witness:
  "readStrings (writeStrings [''nix'', []] @ ''!'') = Inr ([''nix'', []], ''!'') \<longleftrightarrow>
   writeStrings [''nix'', []] @ ''!'' = writeStrings [''nix'', []] @ ''!'' \<and> length [''nix'', []] < 2 ^ 64 \<and>
   (\<forall>s \<in> set [''nix'', []]. length s < 2 ^ 64)"
  by (rule wire_strings)

end
