(* ===== verification/Source_Accessor.thy ===== *)
theory Source_Accessor
  imports Canon_Path "HOL-Library.AList_Mapping"
begin

text \<open>
  The read-only file system interface of the evaluator and the store
  (\<^verbatim>\<open>src/libutil/include/nix/util/source-accessor.hh\<close>, \<^verbatim>\<open>src/libutil/source-accessor.cc\<close>). An
  accessor is the record of its virtual methods; the methods of the base class are functions of that record.
  Exceptions are the left side of a sum. The contract that the documentation of the interface gives is the
  locale \<open>tree_accessor\<close>, which the theories of the accessors interpret.
\<close>

section \<open>Data\<close>

datatype FileType = tRegular | tSymlink | tDirectory | tChar | tBlock | tSocket | tFifo | tUnknown

record Stat =
  statType :: FileType
  fileSize :: "nat option"
  isExecutable :: bool
  narOffset :: "nat option"

definition stat0 :: "FileType \<Rightarrow> Stat" where
  "stat0 t = \<lparr>statType = t, fileSize = None, isExecutable = False, narOffset = None\<rparr>"

lemma stat0_simps [simp]: "statType (stat0 t) = t" "isExecutable (stat0 t) = False" "fileSize (stat0 t) = None"
  by (simp_all add: stat0_def)

datatype AccessError =
    FileNotFound CanonPath
  | NotASymlink CanonPath
  | NotADirectory CanonPath
  | NotARegularFile CanonPath
  | SymlinkNotAllowed CanonPath
  | SymlinkRecursion CanonPath
  | PathError CanonError
  | AccessFailed bytes

text \<open>\<^verbatim>\<open>std::map<std::string, std::optional<Type>>\<close>: the type of an entry may be left out.\<close>

type_synonym DirEntries = "(bytes, FileType option) mapping"

record Accessor =
  maybeLstat :: "CanonPath \<Rightarrow> AccessError + Stat option"
  readFile :: "CanonPath \<Rightarrow> AccessError + bytes"
  readLink :: "CanonPath \<Rightarrow> AccessError + bytes"
  readDirectory :: "CanonPath \<Rightarrow> AccessError + DirEntries"

section \<open>The base class\<close>

definition isNotNARSerialisable :: "Stat \<Rightarrow> bool" where
  "isNotNARSerialisable st = (statType st \<noteq> tRegular \<and> statType st \<noteq> tSymlink \<and> statType st \<noteq> tDirectory)"

fun typeString :: "FileType \<Rightarrow> bytes" where
  "typeString tRegular = ''regular''"
| "typeString tSymlink = ''symlink''"
| "typeString tDirectory = ''directory''"
| "typeString tChar = ''character device''"
| "typeString tBlock = ''block device''"
| "typeString tSocket = ''socket''"
| "typeString tFifo = ''fifo''"
| "typeString tUnknown = ''unknown''"

definition pathExists :: "Accessor \<Rightarrow> CanonPath \<Rightarrow> AccessError + bool" where
  "pathExists A p = ebind (maybeLstat A p) (\<lambda>st. Inr (st \<noteq> None))"

definition lstat :: "Accessor \<Rightarrow> CanonPath \<Rightarrow> AccessError + Stat" where
  "lstat A p = ebind (maybeLstat A p) (require (FileNotFound p))"

definition liftPath :: "CanonError + 'a \<Rightarrow> AccessError + 'a" where
  "liftPath r = (case r of Inl e \<Rightarrow> Inl (PathError e) | Inr x \<Rightarrow> Inr x)"

lemma liftPath_simps [simp]: "liftPath (Inr x) = Inr x" "liftPath (Inl e) = Inl (PathError e)"
  by (simp_all add: liftPath_def)

lemma liftPath_eq_Inr [bind_defs]: "liftPath r = Inr x \<longleftrightarrow> r = Inr x"
  by (cases r) auto

text \<open>\<^verbatim>\<open>tokenizeString(s, "/")\<close>.\<close>

function tokenize :: "char \<Rightarrow> bytes \<Rightarrow> bytes list" where
  "tokenize sep s =
     (let r = dropWhile (\<lambda>c. c = sep) s in
      if r = [] then [] else takeWhile (\<lambda>c. c \<noteq> sep) r # tokenize sep (dropWhile (\<lambda>c. c \<noteq> sep) r))"
  by pat_completeness auto
termination
proof (relation "measure (\<lambda>(sep, s). length s)", goal_cases)
  case (2 sep s r)
  then have "r \<noteq> []" "hd r \<noteq> sep" using hd_dropWhile [of "\<lambda>c. c = sep" s] by auto
  then have "length (dropWhile (\<lambda>c. c \<noteq> sep) r) < length r"
    by (cases r) (auto simp: less_Suc_eq_le length_dropWhile_le)
  also have "\<dots> \<le> length s" using 2 by (simp add: length_dropWhile_le)
  finally show ?case by simp
qed simp

declare tokenize.simps [simp del]

datatype SymlinkResolution = Ancestors | Full

text \<open>
  The loop of \<^verbatim>\<open>resolveSymlinks\<close>: the path \<open>p0\<close> to report, the links still allowed, the result so far and
  the components still to do.
\<close>

function resolveLoop ::
    "Accessor \<Rightarrow> SymlinkResolution \<Rightarrow> CanonPath \<Rightarrow> nat \<Rightarrow> CanonPath \<Rightarrow> bytes list \<Rightarrow> AccessError + CanonPath" where
  "resolveLoop A rm p0 linksAllowed res [] = Inr res"
| "resolveLoop A rm p0 linksAllowed res (c # todo) =
     (if c = [] \<or> c = ''.'' then resolveLoop A rm p0 linksAllowed res todo
      else if c = ''..'' then
        (if isRoot res then resolveLoop A rm p0 linksAllowed res todo
         else case pop res of
           Inl e \<Rightarrow> Inl (PathError e)
         | Inr res' \<Rightarrow> resolveLoop A rm p0 linksAllowed res' todo)
      else case push res c of
        Inl e \<Rightarrow> Inl (PathError e)
      | Inr res' \<Rightarrow>
          (if rm = Full \<or> todo \<noteq> [] then
             (case maybeLstat A res' of
                Inl e \<Rightarrow> Inl e
              | Inr st \<Rightarrow>
                  (if map_option statType st = Some tSymlink then
                     (if linksAllowed = 0 then Inl (SymlinkRecursion p0)
                      else case readLink A res' of
                        Inl e \<Rightarrow> Inl e
                      | Inr target \<Rightarrow>
                          (case (if take 1 target = [SLASH] then Inr rootPath else pop res') of
                             Inl e \<Rightarrow> Inl (PathError e)
                           | Inr res'' \<Rightarrow> resolveLoop A rm p0 (linksAllowed - 1) res'' (tokenize SLASH target @ todo)))
                   else resolveLoop A rm p0 linksAllowed res' todo))
           else resolveLoop A rm p0 linksAllowed res' todo))"
  by pat_completeness auto
termination
  by (relation "measures [\<lambda>(A, rm, p0, linksAllowed, res, todo). linksAllowed, \<lambda>(A, rm, p0, linksAllowed, res, todo). length todo]") auto

declare resolveLoop.simps [simp del]

definition resolveSymlinks :: "Accessor \<Rightarrow> CanonPath \<Rightarrow> SymlinkResolution \<Rightarrow> AccessError + CanonPath" where
  "resolveSymlinks A p rm = resolveLoop A rm p 1024 rootPath (elements (rel p))"

section \<open>The contract of an accessor\<close>

definition validName :: "bytes \<Rightarrow> bool" where
  "validName c = (isComp c \<and> NUL \<notin> set c)"

definition validPath :: "bytes list \<Rightarrow> bool" where
  "validPath cs = list_all validName cs"

lemma validPath_simps [simp]:
  "validPath []" "validPath (c # cs) \<longleftrightarrow> validName c \<and> validPath cs" "validPath (cs @ ds) \<longleftrightarrow> validPath cs \<and> validPath ds"
  by (simp_all add: validPath_def)

lemma validPath_comps: "validPath cs \<Longrightarrow> list_all isComp cs" "validPath cs \<Longrightarrow> list_all isName cs"
  by (auto simp: validPath_def validName_def isComp_def list_all_iff)

lemma validPath_take: "validPath cs \<Longrightarrow> validPath (take k cs)" "validPath cs \<Longrightarrow> validPath (butlast cs)"
  by (auto simp: validPath_def list_all_iff dest: in_set_takeD in_set_butlastD)

lemma push_valid: "validPath cs \<Longrightarrow> validName c \<Longrightarrow> push (canonical cs) c = Inr (canonical (cs @ [c]))"
  using push_canonical [of cs c] by (simp add: validPath_comps validName_def)

definition typeAt :: "Accessor \<Rightarrow> bytes list \<Rightarrow> FileType option" where
  "typeAt A cs = (case maybeLstat A (canonical cs) of Inr (Some st) \<Rightarrow> Some (statType st) | _ \<Rightarrow> None)"

lemma typeAt_eq_Some: "typeAt A cs = Some t \<longleftrightarrow> (\<exists>st. maybeLstat A (canonical cs) = Inr (Some st) \<and> statType st = t)"
  by (auto simp: typeAt_def split: sum.splits option.splits)

text \<open>What a listing says about a name, against the type that is found there.\<close>

definition entryOk :: "FileType option option \<Rightarrow> FileType option \<Rightarrow> bool" where
  "entryOk e t = (case e of None \<Rightarrow> t = None | Some u \<Rightarrow> t \<noteq> None \<and> (u = None \<or> u = t))"

text \<open>
  Files are read exactly where there are files, links where there are links, and directories where there are
  directories; a listing names exactly what is found below the directory; what is found has a parent.
\<close>

locale tree_accessor =
  fixes A :: Accessor
  assumes read_file: "validPath cs \<Longrightarrow> (\<exists>b. readFile A (canonical cs) = Inr b) \<longleftrightarrow> typeAt A cs = Some tRegular"
    and read_link: "validPath cs \<Longrightarrow> (\<exists>b. readLink A (canonical cs) = Inr b) \<longleftrightarrow> typeAt A cs = Some tSymlink"
    and read_directory: "validPath cs \<Longrightarrow> (\<exists>es. readDirectory A (canonical cs) = Inr es) \<longleftrightarrow> typeAt A cs = Some tDirectory"
    and entries: "validPath cs \<Longrightarrow> validName n \<Longrightarrow> readDirectory A (canonical cs) = Inr es \<Longrightarrow> entryOk (Mapping.lookup es n) (typeAt A (cs @ [n]))"
    and parents: "validPath cs \<Longrightarrow> validName n \<Longrightarrow> typeAt A (cs @ [n]) \<noteq> None \<Longrightarrow> typeAt A cs = Some tDirectory"
begin

lemma ancestors:
  assumes "validPath (cs @ ds)" "ds \<noteq> []" "typeAt A (cs @ ds) \<noteq> None"
  shows "typeAt A cs = Some tDirectory"
  using assms
proof (induction ds rule: rev_induct)
  case (snoc d ds)
  then have "typeAt A (cs @ ds) = Some tDirectory" using parents [of "cs @ ds" d] by simp
  then show ?case using snoc by (cases "ds = []") auto
qed simp

lemma reads_fail:
  assumes "validPath cs"
  shows "typeAt A cs \<noteq> Some tRegular \<Longrightarrow> \<exists>e. readFile A (canonical cs) = Inl e"
    and "typeAt A cs \<noteq> Some tSymlink \<Longrightarrow> \<exists>e. readLink A (canonical cs) = Inl e"
    and "typeAt A cs \<noteq> Some tDirectory \<Longrightarrow> \<exists>e. readDirectory A (canonical cs) = Inl e"
  using read_file [OF assms] read_link [OF assms] read_directory [OF assms] by (metis sum.exhaust)+

end

section \<open>Resolving symlinks\<close>

lemma tokenize_comps: "tokenize SLASH s = comps s"
proof (induction "length s" arbitrary: s rule: less_induct)
  case less
  let ?r = "dropWhile (\<lambda>c. c = SLASH) s"
  show ?case
  proof (cases "?r = []")
    case True
    then have "tokenize SLASH s = []" by (subst tokenize.simps) simp
    then show ?thesis using comps_dropWhile [of s] True by simp
  next
    case False
    define r where "r = ?r"
    define a where "a = takeWhile (\<lambda>c. c \<noteq> SLASH) r"
    define b where "b = dropWhile (\<lambda>c. c \<noteq> SLASH) r"
    have ne: "r \<noteq> []" and hd: "hd r \<noteq> SLASH" using False hd_dropWhile [OF False] by (auto simp: r_def)
    have a: "isName a" using ne hd by (cases r) (auto simp: a_def isName_def dest: set_takeWhileD)
    have ab: "r = a @ b" by (simp add: a_def b_def)
    have "length b < length r" using a ab by (simp add: isName_def)
    also have "length r \<le> length s" by (simp add: r_def length_dropWhile_le)
    finally have IH: "tokenize SLASH b = comps b" by (rule less)
    have "comps r = a # comps b"
    proof (cases "b = []")
      case True
      then show ?thesis using comps_name(2) [OF a] ab by simp
    next
      case False
      then have "hd b = SLASH" using hd_dropWhile [of "\<lambda>c. c \<noteq> SLASH" r] by (simp add: b_def)
      then obtain t where t: "b = SLASH # t" using False by (cases b) auto
      then show ?thesis using comps_name(1) [OF a, of t] ab by simp
    qed
    moreover have "tokenize SLASH s = a # tokenize SLASH b"
      using False by (subst tokenize.simps) (simp add: Let_def a_def b_def r_def)
    moreover have "comps s = comps r" by (simp add: r_def comps_dropWhile)
    ultimately show ?thesis using IH by simp
  qed
qed

definition noLink :: "Accessor \<Rightarrow> bytes list \<Rightarrow> bool" where
  "noLink A cs = (\<exists>st. maybeLstat A (canonical cs) = Inr st \<and> map_option statType st \<noteq> Some tSymlink)"

lemma push_Inr:
  assumes "validPath cs" "push (canonical cs) c = Inr p" "c \<noteq> []"
  shows "validName c" "p = canonical (cs @ [c])"
proof -
  show v: "validName c"
    using assms(2,3) by (auto simp: push_def ensureNoNullBytes_def validName_def isComp_def isName_def split: if_splits)
  show "p = canonical (cs @ [c])" using push_valid [OF assms(1) v] assms(2) by simp
qed

lemma resolveLoop_spec:
  assumes "resolveLoop A rm p0 n res todo = Inr q" "res = canonical cs" "validPath cs" "\<forall>k. 0 < k \<and> k \<le> length cs \<longrightarrow> noLink A (take k cs)"
  shows "\<exists>ds. q = canonical ds \<and> validPath ds \<and> (\<forall>k. 0 < k \<and> k < length ds + (if rm = Full then 1 else 0) \<longrightarrow> noLink A (take k ds))"
  using assms
proof (induction A rm p0 n res todo arbitrary: cs rule: resolveLoop.induct)
  case (1 A rm p0 n res)
  then show ?case by (intro exI [of _ cs]) (simp add: resolveLoop.simps)
next
  case (2 A rm p0 n res c todo)
  note res = "2.prems"(2) and v = "2.prems"(3) and nl = "2.prems"(4) and IH = "2.IH"
  have eq: "resolveLoop A rm p0 n res (c # todo) = Inr q" by (rule "2.prems"(1))
  have pops: "pop (canonical es) = Inr (canonical (butlast es))" "validPath (butlast es)"
      "\<forall>k. 0 < k \<and> k \<le> length (butlast es) \<longrightarrow> noLink A (take k (butlast es))"
    if "es \<noteq> []" "validPath es" "\<forall>k. 0 < k \<and> k < length es \<longrightarrow> noLink A (take k es)" for es
  proof -
    show "\<forall>k. 0 < k \<and> k \<le> length (butlast es) \<longrightarrow> noLink A (take k (butlast es))"
    proof (intro allI impI)
      fix k assume k: "0 < k \<and> k \<le> length (butlast es)"
      then have "take k (butlast es) = take k es" using k by (simp add: butlast_conv_take min.absorb1)
      moreover have "k < length es" using k that(1) by (cases es) (auto split: if_splits)
      ultimately show "noLink A (take k (butlast es))" using that(3) k by simp
    qed
  qed (use pop_canonical [OF validPath_comps(2) [OF that(2)] that(1)] validPath_take(2) [OF that(2)] in auto)
  consider (dot) "c = [] \<or> c = ''.''" | (up) "\<not> (c = [] \<or> c = ''.'')" "c = ''..''" | (name) "\<not> (c = [] \<or> c = ''.'')" "c \<noteq> ''..''"
    by blast
  then show ?case
  proof cases
    case dot
    then have "resolveLoop A rm p0 n res todo = Inr q" using eq by (simp add: resolveLoop.simps(2) del: disj_not1)
    then show ?thesis using IH(1) [OF dot _ res v nl] by blast
  next
    case up
    show ?thesis
    proof (cases "isRoot res")
      case True
      then have "resolveLoop A rm p0 n res todo = Inr q" using eq up by (simp add: resolveLoop.simps(2))
      then show ?thesis using IH(2) [OF up True _ res v nl] by blast
    next
      case False
      then have "cs \<noteq> []" using isRoot_canonical validPath_comps(2) [OF v] res by blast
      note p = pops [OF this v] 
      have p1: "pop res = Inr (canonical (butlast cs))" using p(1) nl res by simp
      then have "resolveLoop A rm p0 n (canonical (butlast cs)) todo = Inr q" using eq up False by (simp add: resolveLoop.simps(2))
      then show ?thesis using IH(3) [OF up False p1 _ refl] p nl by fastforce
    qed
  next
    case name
    show ?thesis
    proof (cases "push res c")
      case (Inl e)
      then show ?thesis using eq name by (simp add: resolveLoop.simps(2))
    next
      case (Inr res')
      have c: "validName c" and res': "res' = canonical (cs @ [c])" using push_Inr [OF v] Inr res name(1) by auto
      have vc: "validPath (cs @ [c])" using v c by simp
      show ?thesis
      proof (cases "rm = Full \<or> todo \<noteq> []")
        case False
        then have "q = res'" using eq name Inr by (auto simp: resolveLoop.simps)
        then show ?thesis using res' vc nl False by (intro exI [of _ "cs @ [c]"]) auto
      next
        case True
        then obtain st where st: "maybeLstat A res' = Inr st" using eq name Inr by (auto simp: resolveLoop.simps split: sum.splits)
        show ?thesis
        proof (cases "map_option statType st = Some tSymlink")
          case False
          then have "resolveLoop A rm p0 n res' todo = Inr q" using eq name Inr True st by (cases st) (auto simp: resolveLoop.simps(2))
          moreover have "\<forall>k. 0 < k \<and> k \<le> length (cs @ [c]) \<longrightarrow> noLink A (take k (cs @ [c]))"
            using nl False st res' by (auto simp: noLink_def le_Suc_eq)
          ultimately show ?thesis using IH(5) [OF name Inr True st False _ res' vc] by blast
        next
          case sym: True
          then obtain target res'' where t: "n \<noteq> 0" "readLink A res' = Inr target"
              "(if take 1 target = [SLASH] then Inr rootPath else pop res') = Inr res''"
              "resolveLoop A rm p0 (n - 1) res'' (tokenize SLASH target @ todo) = Inr q"
            using eq name Inr True st by (auto simp: resolveLoop.simps(2) split: sum.splits if_splits)
          have pp: "pop res' = Inr (canonical cs)" using pop_canonical [OF validPath_comps(2) [OF vc]] res' by simp
          show ?thesis
          proof (cases "take 1 target = [SLASH]")
            case True
            then have "res'' = canonical []" using t(3) by (simp add: rootPath_def canonical_def)
            then show ?thesis using IH(4) [OF name Inr \<open>rm = Full \<or> todo \<noteq> []\<close> st sym t(1,2,3,4)] by auto
          next
            case False
            then have "res'' = canonical cs" using t(3) pp by simp
            then show ?thesis using IH(4) [OF name Inr \<open>rm = Full \<or> todo \<noteq> []\<close> st sym t(1,2,3,4)] v nl by blast
          qed
        qed
      qed
    qed
  qed
qed


text \<open>A path without symlinks resolves to itself.\<close>

lemma resolveLoop_self:
  assumes "validPath (cs @ ds)" "\<And>k. length cs < k \<Longrightarrow> k \<le> length (cs @ ds) \<Longrightarrow> noLink A (take k (cs @ ds))"
  shows "resolveLoop A rm p0 n (canonical cs) ds = Inr (canonical (cs @ ds))"
  using assms
proof (induction ds arbitrary: cs)
  case (Cons d ds)
  have d: "d \<noteq> []" "d \<noteq> ''.''" "d \<noteq> ''..''" "validName d"
    using Cons.prems(1) by (auto simp: validName_def isComp_def isName_def)
  have "noLink A (cs @ [d])" using Cons.prems(2) [of "Suc (length cs)"] by simp
  then obtain st where st: "maybeLstat A (canonical (cs @ [d])) = Inr st" "map_option statType st \<noteq> Some tSymlink"
    unfolding noLink_def by blast
  have "resolveLoop A rm p0 n (canonical (cs @ [d])) ds = Inr (canonical ((cs @ [d]) @ ds))"
    using Cons.prems by (intro Cons.IH) auto
  then show ?case using push_valid [of cs d] d Cons.prems(1) st
    by (cases st; cases ds) (auto simp: resolveLoop.simps(2))
qed (simp add: resolveLoop.simps)

lemma resolveSymlinks_start:
  "validPath cs \<Longrightarrow> resolveSymlinks A (canonical cs) rm = resolveLoop A rm (canonical cs) 1024 (canonical []) cs"
  by (simp add: resolveSymlinks_def rel_canonical elements_joined validPath_comps rootPath_def canonical_def [of "[]"])

section \<open>The rules of resolution\<close>

text \<open>
  One rule for each thing a component can be. The components resolved so far stand before the components still
  to do, and the number counts the links that were followed. A link continues with the components of its target,
  below the directory of the link or, when the target is absolute, below the root.
\<close>

definition followed :: "SymlinkResolution \<Rightarrow> bytes list \<Rightarrow> bool" where
  "followed rm todo = (rm = Full \<or> todo \<noteq> [])"

definition isAbsolute :: "bytes \<Rightarrow> bool" where
  "isAbsolute target = (take 1 target = [SLASH])"

inductive moves :: "Accessor \<Rightarrow> SymlinkResolution \<Rightarrow> nat \<Rightarrow> bytes list \<times> bytes list \<Rightarrow> bytes list \<times> bytes list \<Rightarrow> bool"
  for A rm where
  here: "moves A rm 0 s s"
| skip: "c = [] \<or> c = ''.'' \<Longrightarrow> moves A rm n (r, todo) s \<Longrightarrow> moves A rm n (r, c # todo) s"
| up: "moves A rm n (butlast r, todo) s \<Longrightarrow> moves A rm n (r, ''..'' # todo) s"
| name: "validName c \<Longrightarrow> followed rm todo \<longrightarrow> noLink A (r @ [c]) \<Longrightarrow> moves A rm n (r @ [c], todo) s \<Longrightarrow>
    moves A rm n (r, c # todo) s"
| link: "validName c \<Longrightarrow> followed rm todo \<Longrightarrow> typeAt A (r @ [c]) = Some tSymlink \<Longrightarrow>
    readLink A (canonical (r @ [c])) = Inr target \<Longrightarrow>
    moves A rm n (if isAbsolute target then [] else r, comps target @ todo) s \<Longrightarrow> moves A rm (Suc n) (r, c # todo) s"

text \<open>The exceptions at a component that is a name, when \<open>left\<close> more links may be followed.\<close>

definition stuck :: "Accessor \<Rightarrow> SymlinkResolution \<Rightarrow> CanonPath \<Rightarrow> nat \<Rightarrow> bytes list \<Rightarrow> bytes \<Rightarrow> bytes list \<Rightarrow> AccessError \<Rightarrow> bool" where
  "stuck A rm p0 left r c todo e =
     (c \<noteq> [] \<and> c \<noteq> ''.'' \<and> c \<noteq> ''..'' \<and>
      ((\<exists>e'. push (canonical r) c = Inl e' \<and> e = PathError e') \<or>
       validName c \<and> followed rm todo \<and>
        (maybeLstat A (canonical (r @ [c])) = Inl e \<or>
         typeAt A (r @ [c]) = Some tSymlink \<and>
          (left = 0 \<and> e = SymlinkRecursion p0 \<or> left > 0 \<and> readLink A (canonical (r @ [c])) = Inl e))))"

lemma validName_special: "validName c \<Longrightarrow> c \<noteq> [] \<and> c \<noteq> ''.'' \<and> c \<noteq> ''..''"
  by (auto simp: validName_def isComp_def isName_def)

lemma noLink_typeAt: "maybeLstat A (canonical cs) = Inr st \<Longrightarrow> noLink A cs \<longleftrightarrow> typeAt A cs \<noteq> Some tSymlink"
  by (cases st) (auto simp: noLink_def typeAt_def)

text \<open>The loop, one component at a time, on the components of the path.\<close>

lemma resolveLoop_skip: "c = [] \<or> c = ''.'' \<Longrightarrow> resolveLoop A rm p0 k res (c # todo) = resolveLoop A rm p0 k res todo"
  by (simp add: resolveLoop.simps(2) del: disj_not1)

lemma resolveLoop_up:
  assumes "validPath r"
  shows "resolveLoop A rm p0 k (canonical r) (''..'' # todo) = resolveLoop A rm p0 k (canonical (butlast r)) todo"
proof (cases "r = []")
  case True
  then show ?thesis using isRoot_canonical [of "[]"] by (simp add: resolveLoop.simps(2))
next
  case False
  then have "\<not> isRoot (canonical r)" using isRoot_canonical validPath_comps(2) [OF assms] by blast
  then show ?thesis using pop_canonical [OF validPath_comps(2) [OF assms] False] by (simp add: resolveLoop.simps(2))
qed

lemma resolveLoop_name:
  assumes "validPath r" "validName c"
  shows "\<not> followed rm todo \<Longrightarrow> resolveLoop A rm p0 k (canonical r) (c # todo) = resolveLoop A rm p0 k (canonical (r @ [c])) todo"
    and "followed rm todo \<Longrightarrow> resolveLoop A rm p0 k (canonical r) (c # todo) =
      (case maybeLstat A (canonical (r @ [c])) of
         Inl e \<Rightarrow> Inl e
       | Inr st \<Rightarrow>
           (if typeAt A (r @ [c]) \<noteq> Some tSymlink then resolveLoop A rm p0 k (canonical (r @ [c])) todo
            else if k = 0 then Inl (SymlinkRecursion p0)
            else case readLink A (canonical (r @ [c])) of
              Inl e \<Rightarrow> Inl e
            | Inr target \<Rightarrow> resolveLoop A rm p0 (k - 1) (canonical (if isAbsolute target then [] else r)) (comps target @ todo)))"
proof -
  note c = validName_special [OF assms(2)] and p = push_valid [OF assms]
  have v: "validPath (r @ [c])" using assms by simp
  have pop: "pop (canonical (r @ [c])) = Inr (canonical r)" using pop_canonical [OF validPath_comps(2) [OF v]] by simp
  show "resolveLoop A rm p0 k (canonical r) (c # todo) = resolveLoop A rm p0 k (canonical (r @ [c])) todo" if "\<not> followed rm todo"
    using that c p by (simp add: resolveLoop.simps(2) followed_def)
  assume f: "followed rm todo"
  then have f': "rm = Full \<or> todo \<noteq> []" by (simp add: followed_def)
  show "resolveLoop A rm p0 k (canonical r) (c # todo) =
      (case maybeLstat A (canonical (r @ [c])) of
         Inl e \<Rightarrow> Inl e
       | Inr st \<Rightarrow>
           (if typeAt A (r @ [c]) \<noteq> Some tSymlink then resolveLoop A rm p0 k (canonical (r @ [c])) todo
            else if k = 0 then Inl (SymlinkRecursion p0)
            else case readLink A (canonical (r @ [c])) of
              Inl e \<Rightarrow> Inl e
            | Inr target \<Rightarrow> resolveLoop A rm p0 (k - 1) (canonical (if isAbsolute target then [] else r)) (comps target @ todo)))"
  proof (cases "maybeLstat A (canonical (r @ [c]))")
    case (Inl e)
    then show ?thesis using c p f' by (simp only: resolveLoop.simps(2)) simp
  next
    case (Inr st)
    have t: "map_option statType st = Some tSymlink \<longleftrightarrow> typeAt A (r @ [c]) = Some tSymlink"
      using Inr by (cases st) (simp_all add: typeAt_def)
    show ?thesis
    proof (cases "readLink A (canonical (r @ [c]))")
      case (Inl e)
      then show ?thesis using c p f' Inr t by (simp only: resolveLoop.simps(2)) simp
    next
      case (Inr target)
      then show ?thesis using c p f' \<open>maybeLstat A (canonical (r @ [c])) = Inr st\<close> t pop
        by (simp only: resolveLoop.simps(2)) (simp add: isAbsolute_def tokenize_comps rootPath_def canonical_def [of "[]"])
    qed
  qed
qed

lemma moves_loop:
  assumes "moves A rm n (r, todo) (r', todo')" "validPath r" "n \<le> k"
  shows "validPath r' \<and> resolveLoop A rm p0 k (canonical r) todo = resolveLoop A rm p0 (k - n) (canonical r') todo'"
  using assms
proof (induction n "(r, todo)" "(r', todo')" arbitrary: r todo k rule: moves.induct)
  case (skip c n r todo)
  then show ?case by (simp add: resolveLoop_skip)
next
  case (up n r todo)
  then show ?case by (simp add: resolveLoop_up validPath_take)
next
  case (name c todo r n)
  note v = name(5) name(1)
  have "resolveLoop A rm p0 k (canonical r) (c # todo) = resolveLoop A rm p0 k (canonical (r @ [c])) todo"
  proof (cases "followed rm todo")
    case True
    then obtain st where st: "maybeLstat A (canonical (r @ [c])) = Inr st" using name(2) by (auto simp: noLink_def)
    then have "typeAt A (r @ [c]) \<noteq> Some tSymlink" using noLink_typeAt [OF st] name(2) True by blast
    then show ?thesis using resolveLoop_name(2) [OF v True] st by simp
  qed (rule resolveLoop_name(1) [OF v])
  then show ?case using name v by simp
next
  case (link c todo r target n)
  note v = link(7) link(1)
  obtain st where st: "maybeLstat A (canonical (r @ [c])) = Inr st" using link(3) by (auto simp: typeAt_eq_Some)
  obtain k' where k: "k = Suc k'" using link(8) by (cases k) auto
  have "resolveLoop A rm p0 k (canonical r) (c # todo) =
      resolveLoop A rm p0 k' (canonical (if isAbsolute target then [] else r)) (comps target @ todo)"
    using resolveLoop_name(2) [OF v link(2)] st link(3,4) k by simp
  moreover have "validPath (if isAbsolute target then [] else r)" using link(7) by simp
  ultimately show ?case using link(6) [of k'] link(8) k by simp
qed simp

definition explained :: "Accessor \<Rightarrow> SymlinkResolution \<Rightarrow> CanonPath \<Rightarrow> nat \<Rightarrow> bytes list \<times> bytes list \<Rightarrow> AccessError + CanonPath \<Rightarrow> bool" where
  "explained A rm p0 k s w = (case w of
     Inr q \<Rightarrow> (\<exists>n out. n \<le> k \<and> q = canonical out \<and> moves A rm n s (out, []))
   | Inl e \<Rightarrow> (\<exists>n r c todo. n \<le> k \<and> moves A rm n s (r, c # todo) \<and> stuck A rm p0 (k - n) r c todo e))"

lemma explained_mono:
  assumes "explained A rm p0 k s w" "\<And>n s'. moves A rm n s s' \<Longrightarrow> moves A rm n s0 s'"
  shows "explained A rm p0 k s0 w"
  using assms unfolding explained_def by (cases w) (simp; blast)+

lemma explained_link:
  assumes "explained A rm p0 k s w" "\<And>n s'. moves A rm n s s' \<Longrightarrow> moves A rm (Suc n) s0 s'"
  shows "explained A rm p0 (Suc k) s0 w"
proof (cases w)
  case (Inl e)
  then obtain n r c todo where "n \<le> k" "moves A rm n s (r, c # todo)" "stuck A rm p0 (k - n) r c todo e"
    using assms(1) by (auto simp: explained_def)
  then have "Suc n \<le> Suc k" "moves A rm (Suc n) s0 (r, c # todo)" "stuck A rm p0 (Suc k - Suc n) r c todo e"
    using assms(2) by auto
  then have "\<exists>n r c todo. n \<le> Suc k \<and> moves A rm n s0 (r, c # todo) \<and> stuck A rm p0 (Suc k - n) r c todo e" by blast
  then show ?thesis by (simp add: explained_def Inl)
next
  case (Inr q)
  then obtain n out where "n \<le> k" "q = canonical out" "moves A rm n s (out, [])" using assms(1) by (auto simp: explained_def)
  then have "Suc n \<le> Suc k" "q = canonical out" "moves A rm (Suc n) s0 (out, [])" using assms(2) by auto
  then show ?thesis using Inr unfolding explained_def by auto
qed

lemma explained_stuck: "stuck A rm p0 k r c todo e \<Longrightarrow> explained A rm p0 k (r, c # todo) (Inl e)"
  unfolding explained_def using moves.here by fastforce

lemma loop_explained: "validPath r \<Longrightarrow> explained A rm p0 k (r, todo) (resolveLoop A rm p0 k (canonical r) todo)"
proof (induction k arbitrary: r todo rule: less_induct)
  case (less k)
  note IHk = less.IH
  from less.prems show ?case
  proof (induction todo arbitrary: r)
    case Nil
    have "moves A rm 0 (r, []) (r, [])" by (rule moves.here)
    then show ?case unfolding explained_def resolveLoop.simps(1) by auto
  next
    case (Cons c todo)
    note v = Cons.prems
    show ?case
    proof (cases "c = [] \<or> c = ''.'' \<or> c = ''..''")
      case True
      then consider (skip) "c = [] \<or> c = ''.''" | (up) "c = ''..''" by blast
      then show ?thesis
      proof cases
        case skip
        show ?thesis unfolding resolveLoop_skip [OF skip]
          by (rule explained_mono [OF Cons.IH [OF v]]) (rule moves.skip [OF skip])
      next
        case up
        show ?thesis unfolding up resolveLoop_up [OF v]
          by (rule explained_mono [OF Cons.IH [OF validPath_take(2) [OF v]]]) (rule moves.up)
      qed
    next
      case False
      then have n: "c \<noteq> []" "c \<noteq> ''.''" "c \<noteq> ''..''" by auto
      show ?thesis
      proof (cases "push (canonical r) c")
        case (Inl e)
        then have "resolveLoop A rm p0 k (canonical r) (c # todo) = Inl (PathError e)"
          using n by (simp add: resolveLoop.simps(2))
        moreover have "stuck A rm p0 k r c todo (PathError e)" using n Inl by (simp add: stuck_def)
        ultimately show ?thesis by (simp add: explained_stuck)
      next
        case (Inr p)
        have c: "validName c" using push_Inr(1) [OF v Inr n(1)] .
        have IH: "explained A rm p0 k (r @ [c], todo) (resolveLoop A rm p0 k (canonical (r @ [c])) todo)"
          using Cons.IH v c by simp
        show ?thesis
        proof (cases "followed rm todo")
          case False
          show ?thesis unfolding resolveLoop_name(1) [OF v c False]
            by (rule explained_mono [OF IH]) (use moves.name [OF c] False in blast)
        next
          case f: True
          note eq = resolveLoop_name(2) [OF v c f, of A p0 k]
          show ?thesis
          proof (cases "maybeLstat A (canonical (r @ [c]))")
            case (Inl e)
            then have "stuck A rm p0 k r c todo e" using n c f by (simp add: stuck_def)
            then show ?thesis using eq Inl by (simp add: explained_stuck)
          next
            case st: (Inr st)
            show ?thesis
            proof (cases "typeAt A (r @ [c]) = Some tSymlink")
              case False
              then have "noLink A (r @ [c])" using noLink_typeAt [OF st] by blast
              then show ?thesis using eq st False explained_mono [OF IH] moves.name [OF c] by simp
            next
              case True
              show ?thesis
              proof (cases "k = 0")
                case z: True
                then have "stuck A rm p0 k r c todo (SymlinkRecursion p0)" using n c f True by (simp add: stuck_def)
                then show ?thesis using eq st True z by (simp add: explained_stuck)
              next
                case False
                then obtain k' where k: "k = Suc k'" by (cases k) auto
                show ?thesis
                proof (cases "readLink A (canonical (r @ [c]))")
                  case (Inl e)
                  then have "stuck A rm p0 k r c todo e" using n c f True k by (simp add: stuck_def)
                  then show ?thesis using eq st True Inl k by (simp add: explained_stuck)
                next
                  case (Inr target)
                  let ?r = "if isAbsolute target then [] else r"
                  have "explained A rm p0 k' (?r, comps target @ todo)
                      (resolveLoop A rm p0 k' (canonical ?r) (comps target @ todo))"
                    by (rule IHk) (use k v in auto)
                  from explained_link [OF this, of "(r, c # todo)"] moves.link [OF c f True Inr]
                  show ?thesis using eq st True Inr k by simp
                qed
              qed
            qed
          qed
        qed
      qed
    qed
  qed
qed

lemma stuck_loop:
  assumes "validPath r" "stuck A rm p0 k r c todo e"
  shows "resolveLoop A rm p0 k (canonical r) (c # todo) = Inl e"
proof (cases "push (canonical r) c")
  case (Inl e')
  then have "e = PathError e'" "c \<noteq> []" "c \<noteq> ''.''" "c \<noteq> ''..''"
    using assms push_valid [OF assms(1), of c] by (auto simp: stuck_def)
  then show ?thesis using Inl by (simp add: resolveLoop.simps(2))
next
  case (Inr p)
  then have c: "validName c" "followed rm todo" using assms(2) by (auto simp: stuck_def)
  show ?thesis using resolveLoop_name(2) [OF assms(1) c] assms(2) Inr
    by (auto simp: stuck_def typeAt_eq_Some)
qed

lemma loop_Inr:
  assumes "validPath r"
  shows "resolveLoop A rm p0 k (canonical r) todo = Inr q \<longleftrightarrow> (\<exists>n out. n \<le> k \<and> q = canonical out \<and> moves A rm n (r, todo) (out, []))"
proof
  assume "resolveLoop A rm p0 k (canonical r) todo = Inr q"
  then show "\<exists>n out. n \<le> k \<and> q = canonical out \<and> moves A rm n (r, todo) (out, [])"
    using loop_explained [OF assms, of A rm p0 k todo] by (simp add: explained_def)
next
  assume "\<exists>n out. n \<le> k \<and> q = canonical out \<and> moves A rm n (r, todo) (out, [])"
  then show "resolveLoop A rm p0 k (canonical r) todo = Inr q"
    using moves_loop [OF _ assms] by (auto simp: resolveLoop.simps(1))
qed

lemma loop_Inl:
  assumes "validPath r"
  shows "resolveLoop A rm p0 k (canonical r) todo = Inl e \<longleftrightarrow>
    (\<exists>n r' c todo'. n \<le> k \<and> moves A rm n (r, todo) (r', c # todo') \<and> stuck A rm p0 (k - n) r' c todo' e)"
proof
  assume "resolveLoop A rm p0 k (canonical r) todo = Inl e"
  then show "\<exists>n r' c todo'. n \<le> k \<and> moves A rm n (r, todo) (r', c # todo') \<and> stuck A rm p0 (k - n) r' c todo' e"
    using loop_explained [OF assms, of A rm p0 k todo] by (simp add: explained_def)
next
  assume "\<exists>n r' c todo'. n \<le> k \<and> moves A rm n (r, todo) (r', c # todo') \<and> stuck A rm p0 (k - n) r' c todo' e"
  then obtain n r' c todo' where m: "n \<le> k" "moves A rm n (r, todo) (r', c # todo')" "stuck A rm p0 (k - n) r' c todo' e" by blast
  show "resolveLoop A rm p0 k (canonical r) todo = Inl e"
    using moves_loop [OF m(2) assms m(1)] stuck_loop m(3) by metis
qed

text \<open>
  C35: Resolving the symlinks of a path always ends. It returns exactly what the rules reach with at most 1024
  links: a component of a name is entered, \<open>..\<close> leaves one, and a link, the last component in the mode for
  ancestors excepted, goes on with its target below its own directory or the root. The exceptions are exactly
  those of the component where the rules stop: one that is no valid name, a failing \<open>lstat\<close> or \<open>readLink\<close>, or
  the recursion error at the link after the 1024th. A returned path has no symlink in it, except that in the mode
  for ancestors the last component may be one; a path without symlinks resolves to itself.
\<close>
theorem resolve_symlinks:
  assumes "validPath cs"
  shows "(resolveSymlinks A (canonical cs) rm = Inr q \<longleftrightarrow>
      (\<exists>n out. n \<le> 1024 \<and> q = canonical out \<and> moves A rm n ([], cs) (out, []))) \<and>
    (resolveSymlinks A (canonical cs) rm = Inl e \<longleftrightarrow>
      (\<exists>n r c todo. n \<le> 1024 \<and> moves A rm n ([], cs) (r, c # todo) \<and> stuck A rm (canonical cs) (1024 - n) r c todo e)) \<and>
    (resolveSymlinks A (canonical cs) rm = Inr q \<longrightarrow>
      (\<exists>ds. q = canonical ds \<and> validPath ds \<and> (\<forall>k. 0 < k \<and> k < length ds \<longrightarrow> noLink A (take k ds)) \<and>
        (rm = Full \<and> ds \<noteq> [] \<longrightarrow> noLink A ds))) \<and>
    ((\<forall>k. 0 < k \<and> k \<le> length cs \<longrightarrow> noLink A (take k cs)) \<longrightarrow> resolveSymlinks A (canonical cs) rm = Inr (canonical cs))"
proof (intro conjI impI)
  note start = resolveSymlinks_start [OF assms, of A rm]
  show "resolveSymlinks A (canonical cs) rm = Inr q \<longleftrightarrow>
      (\<exists>n out. n \<le> 1024 \<and> q = canonical out \<and> moves A rm n ([], cs) (out, []))"
    unfolding start by (rule loop_Inr) simp
  show "resolveSymlinks A (canonical cs) rm = Inl e \<longleftrightarrow>
      (\<exists>n r c todo. n \<le> 1024 \<and> moves A rm n ([], cs) (r, c # todo) \<and> stuck A rm (canonical cs) (1024 - n) r c todo e)"
    unfolding start by (rule loop_Inl) simp
next
  assume "resolveSymlinks A (canonical cs) rm = Inr q"
  then have "resolveLoop A rm (canonical cs) 1024 (canonical []) cs = Inr q" by (simp add: resolveSymlinks_start assms)
  from resolveLoop_spec [OF this refl] obtain ds where ds: "q = canonical ds" "validPath ds"
      "\<forall>k. 0 < k \<and> k < length ds + (if rm = Full then 1 else 0) \<longrightarrow> noLink A (take k ds)" by auto
  then show "\<exists>ds. q = canonical ds \<and> validPath ds \<and> (\<forall>k. 0 < k \<and> k < length ds \<longrightarrow> noLink A (take k ds)) \<and>
        (rm = Full \<and> ds \<noteq> [] \<longrightarrow> noLink A ds)"
    by (intro exI [of _ ds] conjI ds allI impI) (use ds(3) [rule_format, of "length ds"] in auto)
next
  assume "\<forall>k. 0 < k \<and> k \<le> length cs \<longrightarrow> noLink A (take k cs)"
  then show "resolveSymlinks A (canonical cs) rm = Inr (canonical cs)"
    using resolveLoop_self [of "[]" cs A rm "canonical cs" 1024] assms by (simp add: resolveSymlinks_start)
qed

end
