(* ===== verification/Memory_Accessor.thy ===== *)
theory Memory_Accessor
  imports Source_Accessor
begin

text \<open>
  The in-memory file system (\<^verbatim>\<open>src/libutil/memory-source-accessor.cc\<close> and its header): the tree of file
  system objects, the accessor over it, \<^verbatim>\<open>addFile\<close> and the operations of \<^verbatim>\<open>MemorySink\<close>. The entries of a
  directory, a \<^verbatim>\<open>std::map\<close>, are the list of its pairs in the order of the names. \<^verbatim>\<open>open\<close> returns a pointer
  into the tree; without a file to create it is a lookup, with one it is a traversal that applies what the
  caller does with the pointer, and returns the changed tree with the result, also when an exception is thrown.
\<close>

section \<open>Data\<close>

datatype File = Regular bool bytes | Directory "(bytes \<times> File) list" | Symlink bytes

type_synonym Root = "File option"

fun fileLstat :: "File \<Rightarrow> Stat" where
  "fileLstat (Regular x c) = \<lparr>statType = tRegular, fileSize = Some (length c), isExecutable = x, narOffset = None\<rparr>"
| "fileLstat (Directory es) = stat0 tDirectory"
| "fileLstat (Symlink t) = stat0 tSymlink"

text \<open>Assignment to an entry that exists, and insertion of one at its place in the order.\<close>

definition setEntry :: "bytes \<Rightarrow> File \<Rightarrow> (bytes \<times> File) list \<Rightarrow> (bytes \<times> File) list" where
  "setEntry n f es = map (\<lambda>(k, v). if k = n then (k, f) else (k, v)) es"

fun insertEntry :: "bytes \<Rightarrow> File \<Rightarrow> (bytes \<times> File) list \<Rightarrow> (bytes \<times> File) list" where
  "insertEntry n f [] = [(n, f)]"
| "insertEntry n f ((k, v) # es) = (if n < k then (n, f) # (k, v) # es else (k, v) # insertEntry n f es)"

section \<open>Opening a file\<close>

definition atDir :: "(CanonPath \<Rightarrow> AccessError) \<Rightarrow> bytes list \<Rightarrow> AccessError + 'a" where
  "atDir err names = (case pushAll rootPath names of Inl e \<Rightarrow> Inl (PathError e) | Inr p \<Rightarrow> Inl (err p))"

fun walk :: "File \<Rightarrow> bytes list \<Rightarrow> bytes list \<Rightarrow> AccessError + File option" where
  "walk cur dirs [] = Inr (Some cur)"
| "walk cur dirs (name # names) =
     (case cur of
        Directory es \<Rightarrow>
          (case map_of es name of
             None \<Rightarrow> Inr None
           | Some f \<Rightarrow> walk f (dirs @ [name]) names)
      | Symlink _ \<Rightarrow> atDir SymlinkNotAllowed dirs
      | Regular _ _ \<Rightarrow> Inr None)"

definition openFile :: "Root \<Rightarrow> CanonPath \<Rightarrow> AccessError + File option" where
  "openFile root p = (case root of None \<Rightarrow> Inr None | Some f \<Rightarrow> walk f [] (elements (rel p)))"

fun walkCreate ::
    "File \<Rightarrow> (File \<Rightarrow> File \<times> (AccessError + 'r)) \<Rightarrow> bool \<Rightarrow> File \<Rightarrow> bytes list \<Rightarrow> bytes list \<Rightarrow> File \<times> (AccessError + 'r)" where
  "walkCreate create k newF cur dirs [] = k (if newF then create else cur)"
| "walkCreate create k newF cur dirs (name # names) =
     (case cur of
        Directory es \<Rightarrow>
          (case map_of es name of
             Some f \<Rightarrow>
               (case walkCreate create k newF f (dirs @ [name]) names of (f', r) \<Rightarrow> (Directory (setEntry name f' es), r))
           | None \<Rightarrow>
               (case walkCreate create k True (Directory []) (dirs @ [name]) names of
                  (f', r) \<Rightarrow> (Directory (insertEntry name f' es), r)))
      | Symlink _ \<Rightarrow> (cur, atDir SymlinkNotAllowed dirs)
      | Regular _ _ \<Rightarrow> (cur, atDir NotADirectory dirs))"

text \<open>The caller throws when the returned pointer is null.\<close>

definition openCreate :: "Root \<Rightarrow> CanonPath \<Rightarrow> File \<Rightarrow> (File \<Rightarrow> File \<times> (AccessError + 'r)) \<Rightarrow> Root \<times> (AccessError + 'r)" where
  "openCreate root p create k =
     (case root of
        None \<Rightarrow>
          (if isRoot p then (case k create of (f, r) \<Rightarrow> (Some f, r))
           else (None, Inl (AccessFailed p)))
      | Some f \<Rightarrow> (case walkCreate create k False f [] (elements (rel p)) of (f', r) \<Rightarrow> (Some f', r)))"

section \<open>The accessor\<close>

definition memLstat :: "Root \<Rightarrow> CanonPath \<Rightarrow> AccessError + Stat option" where
  "memLstat root p = ebind (openFile root p) (\<lambda>f. Inr (map_option fileLstat f))"

definition memReadFile :: "Root \<Rightarrow> CanonPath \<Rightarrow> AccessError + bytes" where
  "memReadFile root p =
     ebind (openFile root p) (\<lambda>f. case f of
       None \<Rightarrow> Inl (FileNotFound p)
     | Some (Regular _ c) \<Rightarrow> Inr c
     | Some (Directory _) \<Rightarrow> Inl (NotARegularFile p)
     | Some (Symlink _) \<Rightarrow> Inl (SymlinkNotAllowed p))"

definition memPathExists :: "Root \<Rightarrow> CanonPath \<Rightarrow> AccessError + bool" where
  "memPathExists root p = ebind (openFile root p) (\<lambda>f. Inr (f \<noteq> None))"

definition memReadDirectory :: "Root \<Rightarrow> CanonPath \<Rightarrow> AccessError + DirEntries" where
  "memReadDirectory root p =
     ebind (openFile root p) (\<lambda>f. case f of
       None \<Rightarrow> Inl (FileNotFound p)
     | Some (Directory es) \<Rightarrow> Inr (Mapping.map_values (\<lambda>_ g. Some (statType (fileLstat g))) (Mapping.of_alist es))
     | Some (Regular _ _) \<Rightarrow> Inl (NotADirectory p)
     | Some (Symlink _) \<Rightarrow> Inl (SymlinkNotAllowed p))"

definition memReadLink :: "Root \<Rightarrow> CanonPath \<Rightarrow> AccessError + bytes" where
  "memReadLink root p =
     ebind (openFile root p) (\<lambda>f. case f of
       None \<Rightarrow> Inl (FileNotFound p)
     | Some (Symlink t) \<Rightarrow> Inr t
     | Some _ \<Rightarrow> Inl (NotASymlink p))"

definition memoryAccessor :: "Root \<Rightarrow> Accessor" where
  "memoryAccessor root =
     \<lparr>maybeLstat = memLstat root, readFile = memReadFile root, readLink = memReadLink root,
      readDirectory = memReadDirectory root\<rparr>"

section \<open>Writing\<close>

definition addFile :: "Root \<Rightarrow> CanonPath \<Rightarrow> bytes \<Rightarrow> Root \<times> (AccessError + unit)" where
  "addFile root p contents =
     (let root1 = (if root = None \<and> \<not> isRoot p then fst (openCreate root rootPath (Directory []) (\<lambda>f. (f, Inr ()))) else root)
      in openCreate root1 p (Regular False [])
           (\<lambda>f. case f of Regular x c \<Rightarrow> (Regular x contents, Inr ()) | _ \<Rightarrow> (f, Inl (NotARegularFile p))))"

definition createDirectory :: "Root \<Rightarrow> CanonPath \<Rightarrow> Root \<times> (AccessError + unit)" where
  "createDirectory root p =
     openCreate root p (Directory [])
       (\<lambda>f. case f of Directory _ \<Rightarrow> (f, Inr ()) | _ \<Rightarrow> (f, Inl (NotADirectory p)))"

text \<open>
  \<^verbatim>\<open>CreateMemoryRegularFile\<close>, on the executable flag and the contents of the file. Reserving memory has no
  effect on them. The callback works on the open file and returns or throws an exception of its own; what it wrote
  before stays in the tree. \<open>thrown\<close> puts the exceptions of the traversal and those of the callback side by side.
\<close>

definition crfData :: "bool \<times> bytes \<Rightarrow> bytes \<Rightarrow> bool \<times> bytes" where
  "crfData r d = (fst r, snd r @ d)"

definition crfExecutable :: "bool \<times> bytes \<Rightarrow> bool \<times> bytes" where
  "crfExecutable r = (True, snd r)"

definition thrown :: "AccessError + ('e + 'r) \<Rightarrow> (AccessError + 'e) + 'r" where
  "thrown w = (case w of Inl e \<Rightarrow> Inl (Inl e) | Inr (Inl e) \<Rightarrow> Inl (Inr e) | Inr (Inr r) \<Rightarrow> Inr r)"

lemma thrown_simps [simp]: "thrown (Inl a) = Inl (Inl a)" "thrown (Inr (Inl e)) = Inl (Inr e)" "thrown (Inr (Inr r)) = Inr r"
  by (simp_all add: thrown_def)

lemma thrown_eq [simp]: "thrown w = Inr r \<longleftrightarrow> w = Inr (Inr r)" "thrown w = Inl (Inr e) \<longleftrightarrow> w = Inr (Inl e)"
  by (auto simp: thrown_def split: sum.splits)

definition createRegularFile ::
    "Root \<Rightarrow> CanonPath \<Rightarrow> (bool \<times> bytes \<Rightarrow> (bool \<times> bytes) \<times> ('e + 'r)) \<Rightarrow> Root \<times> ((AccessError + 'e) + 'r)" where
  "createRegularFile root p func =
     map_prod (\<lambda>root'. root') thrown
       (openCreate root p (Regular False [])
         (\<lambda>f. case f of
            Regular x c \<Rightarrow> (case func (x, c) of ((x', c'), r) \<Rightarrow> (Regular x' c', Inr r))
          | _ \<Rightarrow> (f, Inl (NotARegularFile p))))"

definition createSymlink :: "Root \<Rightarrow> CanonPath \<Rightarrow> bytes \<Rightarrow> Root \<times> (AccessError + unit)" where
  "createSymlink root p target =
     openCreate root p (Symlink [])
       (\<lambda>f. case f of Symlink _ \<Rightarrow> (Symlink target, Inr ()) | _ \<Rightarrow> (f, Inl (NotASymlink p)))"

definition makeEmptySourceAccessor :: Root where
  "makeEmptySourceAccessor = fst (createDirectory None rootPath)"

section \<open>The tree as a partial map\<close>

fun look :: "File \<Rightarrow> bytes list \<Rightarrow> File option" where
  "look f [] = Some f"
| "look f (n # ns) = (case f of Directory es \<Rightarrow> Option.bind (map_of es n) (\<lambda>g. look g ns) | _ \<Rightarrow> None)"

definition lookRoot :: "Root \<Rightarrow> bytes list \<Rightarrow> File option" where
  "lookRoot root cs = Option.bind root (\<lambda>f. look f cs)"

lemma walk_look: "walk f dirs cs = Inr (look f cs) \<or> (look f cs = None \<and> (\<exists>e. walk f dirs cs = Inl e))"
  by (induction f dirs cs rule: walk.induct) (auto simp: atDir_def split: File.splits option.splits sum.splits)

lemma openFile_look:
  assumes "validPath cs"
  shows "openFile root (canonical cs) = Inr (lookRoot root cs) \<or>
    (lookRoot root cs = None \<and> (\<exists>e. openFile root (canonical cs) = Inl e))"
  using walk_look [of _ "[]" cs] validPath_comps(2) [OF assms]
  by (cases root) (auto simp: openFile_def lookRoot_def rel_canonical elements_joined)

lemma look_append: "look f (cs @ ds) = Option.bind (look f cs) (\<lambda>g. look g ds)"
  by (induction f cs rule: look.induct) (auto split: File.splits bind_splits)

lemma typeAt_memory:
  assumes "validPath cs"
  shows "typeAt (memoryAccessor root) cs = map_option (\<lambda>f. statType (fileLstat f)) (lookRoot root cs)"
  using openFile_look [OF assms, of root]
  by (auto simp: typeAt_def memoryAccessor_def memLstat_def split: option.splits)

interpretation mem: tree_accessor "memoryAccessor root" for root
proof
  fix cs :: "bytes list" assume v: "validPath cs"
  note o = openFile_look [OF v, of root] and t = typeAt_memory [OF v, of root]
  show "(\<exists>b. readFile (memoryAccessor root) (canonical cs) = Inr b) = (typeAt (memoryAccessor root) cs = Some tRegular)"
    unfolding t using o by (auto simp: memoryAccessor_def memReadFile_def split: option.splits File.splits)
  show "(\<exists>b. readLink (memoryAccessor root) (canonical cs) = Inr b) = (typeAt (memoryAccessor root) cs = Some tSymlink)"
    unfolding t using o by (auto simp: memoryAccessor_def memReadLink_def split: option.splits File.splits)
  show "(\<exists>es. readDirectory (memoryAccessor root) (canonical cs) = Inr es) = (typeAt (memoryAccessor root) cs = Some tDirectory)"
    unfolding t using o by (auto simp: memoryAccessor_def memReadDirectory_def split: option.splits File.splits)
next
  fix cs n es assume v: "validPath cs" "validName n" and r: "readDirectory (memoryAccessor root) (canonical cs) = Inr es"
  have vn: "validPath (cs @ [n])" using v by simp
  have "\<exists>fs. lookRoot root cs = Some (Directory fs) \<and> es = Mapping.map_values (\<lambda>_ g. Some (statType (fileLstat g))) (Mapping.of_alist fs)"
    using r openFile_look [OF v(1), of root] by (auto simp: memoryAccessor_def memReadDirectory_def split: option.splits File.splits)
  then show "entryOk (Mapping.lookup es n) (typeAt (memoryAccessor root) (cs @ [n]))"
    by (auto simp: typeAt_memory [OF vn] lookRoot_def look_append entryOk_def lookup_map_values lookup_of_alist split: option.splits bind_splits)
next
  fix cs n assume v: "validPath cs" "validName n" and t: "typeAt (memoryAccessor root) (cs @ [n]) \<noteq> None"
  then have "lookRoot root (cs @ [n]) \<noteq> None" using typeAt_memory [of "cs @ [n]" root] by simp
  then have "\<exists>fs. lookRoot root cs = Some (Directory fs)"
    by (auto simp: lookRoot_def look_append split: bind_splits File.splits)
  then show "typeAt (memoryAccessor root) cs = Some tDirectory" using typeAt_memory [OF v(1), of root] by auto
qed


section \<open>Creating files\<close>

fun wfFile :: "File \<Rightarrow> bool" where
  "wfFile (Directory es) \<longleftrightarrow> sorted_wrt (<) (map fst es) \<and> (\<forall>e \<in> set es. validName (fst e) \<and> wfFile (snd e))"
| "wfFile (Regular x c) = True"
| "wfFile (Symlink t) = True"

definition wfRoot :: "Root \<Rightarrow> bool" where
  "wfRoot root = (case root of None \<Rightarrow> True | Some f \<Rightarrow> wfFile f)"

lemma map_of_setEntry:
  "map_of (setEntry n f es) m = (if m = n then map_option (\<lambda>_. f) (map_of es n) else map_of es m)"
  by (induction es) (auto simp: setEntry_def)

lemma map_of_insertEntry: "map_of es n = None \<Longrightarrow> map_of (insertEntry n f es) m = (if m = n then Some f else map_of es m)"
  by (induction n f es rule: insertEntry.induct) (auto split: if_splits)

lemma set_insertEntry: "set (insertEntry n f es) = insert (n, f) (set es)"
  by (induction n f es rule: insertEntry.induct) auto

lemma fst_setEntry [simp]: "map fst (setEntry n f es) = map fst es"
  by (auto simp: setEntry_def)

lemma sorted_insertEntry:
  "sorted_wrt (<) (map fst es) \<Longrightarrow> map_of es n = None \<Longrightarrow> sorted_wrt (<) (map fst (insertEntry n f es))"
proof (induction n f es rule: insertEntry.induct)
  case (2 n f k v es)
  then have "n \<noteq> k" by auto
  then show ?case using 2 by (auto simp: set_insertEntry map_of_eq_None_iff less_le)
qed simp

lemma setEntry_same: "sorted_wrt (<) (map fst es) \<Longrightarrow> map_of es n = Some f \<Longrightarrow> setEntry n f es = es"
  by (induction es) (auto simp: setEntry_def split: if_splits intro!: map_idI)

lemma wf_set: "wfFile (Directory es) \<Longrightarrow> map_of es n = Some g \<Longrightarrow> wfFile f \<Longrightarrow> wfFile (Directory (setEntry n f es))"
  using fst_setEntry [of n f es] by (simp del: fst_setEntry) (auto simp: setEntry_def)

lemma wf_insert: "wfFile (Directory es) \<Longrightarrow> map_of es n = None \<Longrightarrow> validName n \<Longrightarrow> wfFile f \<Longrightarrow> wfFile (Directory (insertEntry n f es))"
  using sorted_insertEntry [of es n f] by (auto simp: set_insertEntry)

lemma wf_entry: "wfFile (Directory es) \<Longrightarrow> map_of es n = Some f \<Longrightarrow> wfFile f \<and> validName n"
  by (auto dest!: map_of_SomeD)

lemma look_wf: "wfFile f \<Longrightarrow> look f cs = Some g \<Longrightarrow> wfFile g"
proof (induction f cs rule: look.induct)
  case (2 f n ns)
  obtain es h where d: "f = Directory es" "map_of es n = Some h" "look h ns = Some g"
    using "2.prems"(2) by (cases f) (auto split: bind_splits)
  then have "wfFile h" using wf_entry "2.prems"(1) by blast
  then show ?case using "2.IH" d by blast
qed simp

lemma walkCreate_wf:
  assumes "wfFile cur" "wfFile create" "\<And>h h' r. wfFile h \<Longrightarrow> k h = (h', r) \<Longrightarrow> wfFile h'" "validPath cs"
    "walkCreate create k newF cur dirs cs = (f', r)"
  shows "wfFile f'"
  using assms
proof (induction create k newF cur dirs cs arbitrary: f' r rule: walkCreate.induct)
  case (1 create k newF cur dirs)
  then show ?case by (metis walkCreate.simps(1))
next
  case (2 create k newF cur dirs name names)
  show ?case
  proof (cases cur)
    case (Directory es)
    show ?thesis
    proof (cases "map_of es name")
      case None
      obtain g r' where g: "walkCreate create k True (Directory []) (dirs @ [name]) names = (g, r')" by fastforce
      have "wfFile g" using 2(1) [OF Directory None _ _ _ _ g] 2(4-6) by simp
      then have "wfFile (Directory (insertEntry name g es))" using wf_insert [OF 2(3) [unfolded Directory] None] 2(6) by simp
      moreover have "f' = Directory (insertEntry name g es)" using 2(7) Directory None g by simp
      ultimately show ?thesis by blast
    next
      case (Some h)
      obtain g r' where g: "walkCreate create k newF h (dirs @ [name]) names = (g, r')" by fastforce
      have "wfFile g" using 2(2) [OF Directory Some _ _ _ _ g] 2(4-6) wf_entry [OF 2(3) [unfolded Directory] Some] by simp
      then have "wfFile (Directory (setEntry name g es))" using wf_set [OF 2(3) [unfolded Directory] Some] by simp
      moreover have "f' = Directory (setEntry name g es)" using 2(7) Directory Some g by simp
      ultimately show ?thesis by blast
    qed
  qed (use 2 in auto)
qed


text \<open>What is found after a traversal: the file the caller made, directories above it, and the rest as before.\<close>

definition created :: "File option \<Rightarrow> bytes list \<Rightarrow> File \<Rightarrow> File \<Rightarrow> bool" where
  "created cur cs g f' =
     (look f' cs = Some g \<and>
      (\<forall>ds. \<not> prefix cs ds \<and> \<not> prefix ds cs \<longrightarrow> look f' ds = Option.bind cur (\<lambda>f. look f ds)) \<and>
      (\<forall>ds. strict_prefix ds cs \<longrightarrow> (\<exists>es. look f' ds = Some (Directory es))))"

lemma created_Cons:
  assumes "created (map_of es n) ns g h" "\<And>m. m \<noteq> n \<Longrightarrow> map_of es' m = map_of es m" "map_of es' n = Some h"
  shows "created (Some (Directory es)) (n # ns) g (Directory es')"
  unfolding created_def
proof (intro conjI allI impI)
  show "look (Directory es') (n # ns) = Some g" using assms by (simp add: created_def)
next
  fix ds assume ds: "\<not> prefix (n # ns) ds \<and> \<not> prefix ds (n # ns)"
  then obtain m ms where m: "ds = m # ms" by (cases ds) auto
  show "look (Directory es') ds = Option.bind (Some (Directory es)) (\<lambda>f. look f ds)"
    using assms ds m by (cases "m = n") (auto simp: created_def)
next
  fix ds assume ds: "strict_prefix ds (n # ns)"
  show "\<exists>fs. look (Directory es') ds = Some (Directory fs)"
  proof (cases ds)
    case (Cons m ms)
    then show ?thesis using assms ds by (auto simp: created_def)
  qed simp
qed

text \<open>A traversal is stopped by the first file above its path that is no directory.\<close>

definition inTheWay :: "Root \<Rightarrow> bytes list \<Rightarrow> bytes list \<Rightarrow> File \<Rightarrow> bool" where
  "inTheWay root cs ds g = (strict_prefix ds cs \<and> lookRoot root ds = Some g \<and> (\<forall>es. g \<noteq> Directory es))"

definition wayError :: "bytes list \<Rightarrow> File \<Rightarrow> AccessError" where
  "wayError ds g = (case g of Symlink t \<Rightarrow> SymlinkNotAllowed (canonical ds) | _ \<Rightarrow> NotADirectory (canonical ds))"

lemma atDir_canonical: "validPath ds \<Longrightarrow> atDir err ds = Inl (err (canonical ds))"
  using pushAll_canonical [of "[]" ds]
  by (simp add: atDir_def validPath_comps rootPath_def canonical_def [of "[]"] validPath_def validName_def list_all_iff)

lemma walkCreate_blocked:
  assumes "look cur ds = Some g" "\<forall>es. g \<noteq> Directory es" "validPath (dirs @ ds)" "wfFile cur"
  shows "walkCreate create k newF cur dirs (ds @ n # ns) = (cur, Inl (wayError (dirs @ ds) g))"
  using assms
proof (induction ds arbitrary: cur dirs)
  case Nil
  then show ?case by (cases g) (simp_all add: wayError_def atDir_canonical)
next
  case (Cons d ds)
  obtain es v where v: "cur = Directory es" "map_of es d = Some v" "look v ds = Some g"
    using Cons.prems(1) by (cases cur) (auto split: bind_splits)
  have "wfFile v" using wf_entry [OF Cons.prems(4) [unfolded v(1)] v(2)] by blast
  then have "walkCreate create k newF v (dirs @ [d]) (ds @ n # ns) = (v, Inl (wayError ((dirs @ [d]) @ ds) g))"
    by (intro Cons.IH) (use v(3) Cons.prems(2,3) in simp_all)
  then show ?case using v(1,2) setEntry_same [of es d v] Cons.prems(4) by simp
qed

text \<open>An existing file that the caller leaves alone leaves the tree alone.\<close>

lemma walkCreate_same:
  assumes "look cur cs = Some h" "k h = (h, r)" "wfFile cur"
  shows "walkCreate create k False cur dirs cs = (cur, r)"
  using assms
proof (induction cs arbitrary: cur dirs)
  case (Cons d ds)
  obtain es v where v: "cur = Directory es" "map_of es d = Some v" "look v ds = Some h"
    using Cons.prems(1) by (cases cur) (auto split: bind_splits)
  have "wfFile v" using wf_entry [OF Cons.prems(3) [unfolded v(1)] v(2)] by blast
  then have "walkCreate create k False v (dirs @ [d]) ds = (v, r)" by (intro Cons.IH v(3) Cons.prems(2))
  then show ?case using v(1,2) setEntry_same [of es d v] Cons.prems(3) by simp
qed simp

lemma walkCreate_created:
  assumes "\<And>ds g. strict_prefix ds cs \<Longrightarrow> look cur ds = Some g \<Longrightarrow> \<exists>es. g = Directory es" "newF \<longrightarrow> cur = Directory []"
    "k (case (if newF then None else look cur cs) of Some h \<Rightarrow> h | None \<Rightarrow> create) = (g, r)"
  shows "\<exists>f'. walkCreate create k newF cur dirs cs = (f', r) \<and> created (if newF \<and> cs = [] then None else Some cur) cs g f'"
  using assms
proof (induction cs arbitrary: newF cur dirs)
  case Nil
  then show ?case by (auto simp: created_def)
next
  case (Cons name names)
  obtain es where es: "cur = Directory es" using Cons.prems(1) [of "[]"] by (auto simp: strict_prefix_def)
  show ?case
  proof (cases "map_of es name")
    case None
    have e: "look (Directory []) ds = None" if "\<not> prefix ds xs" for ds xs using that by (cases ds) auto
    have "k (case (if True then None else look (Directory []) names) of Some h \<Rightarrow> h | None \<Rightarrow> create) = (g, r)"
      using Cons.prems(3) es None by (simp split: if_splits)
    moreover have "\<exists>es. g = Directory es" if "look (Directory []) ds = Some g" for ds g
      using that by (cases ds) auto
    ultimately obtain h where
      h: "walkCreate create k True (Directory []) (dirs @ [name]) names = (h, r)"
        "created (if names = [] then None else Some (Directory [])) names g h"
      using Cons.IH [of "Directory []" True "dirs @ [name]"] by auto
    have "created (map_of es name) names g h" using h(2) None by (cases "names = []") (auto simp: created_def e)
    then have "created (Some cur) (name # names) g (Directory (insertEntry name h es))"
      unfolding es by (rule created_Cons) (simp_all add: map_of_insertEntry None)
    then show ?thesis using h(1) es None by simp
  next
    case (Some v)
    then have nf: "\<not> newF" using Cons.prems(2) es by auto
    have "\<exists>es. g = Directory es" if "strict_prefix ds names" "look v ds = Some g" for ds g
      using Cons.prems(1) [of "name # ds" g] that es Some by simp
    moreover have "k (case (if False then None else look v names) of Some h \<Rightarrow> h | None \<Rightarrow> create) = (g, r)"
      using Cons.prems(3) nf es Some by simp
    ultimately obtain h where h: "walkCreate create k False v (dirs @ [name]) names = (h, r)" "created (Some v) names g h"
      using Cons.IH [of v False "dirs @ [name]"] by auto
    have "created (map_of es name) names g h" using h(2) Some by simp
    then have "created (Some cur) (name # names) g (Directory (setEntry name h es))"
      unfolding es by (rule created_Cons) (simp_all add: map_of_setEntry Some)
    then show ?thesis using h(1) es Some nf by simp
  qed
qed

lemma openCreate_wf:
  assumes "openCreate root (canonical cs) create k = (root', r)" "validPath cs" "wfRoot root" "wfFile create"
    "\<And>h h' r. wfFile h \<Longrightarrow> k h = (h', r) \<Longrightarrow> wfFile h'"
  shows "wfRoot root'"
proof (cases root)
  case None
  then show ?thesis using assms by (auto simp: openCreate_def wfRoot_def split: if_splits prod.splits)
next
  case (Some f)
  then obtain f' where w: "walkCreate create k False f [] cs = (f', r)" "root' = Some f'"
    using assms(1) validPath_comps(2) [OF assms(2)] by (auto simp: openCreate_def rel_canonical elements_joined split: prod.splits)
  have "wfFile f" using Some assms(3) by (simp add: wfRoot_def)
  from walkCreate_wf [OF this assms(4) assms(5) assms(2) w(1)] show ?thesis using w(2) by (simp add: wfRoot_def)
qed

definition stored :: "Root \<Rightarrow> bytes list \<Rightarrow> File \<Rightarrow> Root \<Rightarrow> bool" where
  "stored root cs g root' = (wfRoot root' \<and> (\<exists>f'. root' = Some f' \<and> created root cs g f'))"

text \<open>
  What a write does, over the change that the operation makes: from the file at the path, or none, to the file to
  leave there and the result. \<open>raise\<close> throws an exception of the traversal.
\<close>

definition writes :: "Root \<Rightarrow> bytes list \<Rightarrow> (File option \<Rightarrow> File \<times> 'w) \<Rightarrow> (AccessError \<Rightarrow> 'w) \<Rightarrow> Root \<times> 'w \<Rightarrow> bool" where
  "writes root cs change raise w =
     (if root = None \<and> cs \<noteq> [] then w = (None, raise (AccessFailed (canonical cs)))
      else (\<forall>ds g. inTheWay root cs ds g \<longrightarrow> w = (root, raise (wayError ds g))) \<and>
        ((\<forall>ds g. \<not> inTheWay root cs ds g) \<longrightarrow>
          snd w = snd (change (lookRoot root cs)) \<and> stored root cs (fst (change (lookRoot root cs))) (fst w) \<and>
          (lookRoot root cs = Some (fst (change (lookRoot root cs))) \<longrightarrow> fst w = root)))"

definition directoryChange :: "CanonPath \<Rightarrow> File option \<Rightarrow> File \<times> (AccessError + unit)" where
  "directoryChange p f = (case f of
     None \<Rightarrow> (Directory [], Inr ())
   | Some (Directory es) \<Rightarrow> (Directory es, Inr ())
   | Some g \<Rightarrow> (g, Inl (NotADirectory p)))"

definition symlinkChange :: "CanonPath \<Rightarrow> bytes \<Rightarrow> File option \<Rightarrow> File \<times> (AccessError + unit)" where
  "symlinkChange p t f = (case f of
     None \<Rightarrow> (Symlink t, Inr ())
   | Some (Symlink _) \<Rightarrow> (Symlink t, Inr ())
   | Some g \<Rightarrow> (g, Inl (NotASymlink p)))"

definition contentsChange :: "CanonPath \<Rightarrow> bytes \<Rightarrow> File option \<Rightarrow> File \<times> (AccessError + unit)" where
  "contentsChange p d f = (case f of
     None \<Rightarrow> (Regular False d, Inr ())
   | Some (Regular x c) \<Rightarrow> (Regular x d, Inr ())
   | Some g \<Rightarrow> (g, Inl (NotARegularFile p)))"

definition regularChange ::
    "CanonPath \<Rightarrow> (bool \<times> bytes \<Rightarrow> (bool \<times> bytes) \<times> ('e + 'r)) \<Rightarrow> File option \<Rightarrow> File \<times> ((AccessError + 'e) + 'r)" where
  "regularChange p func f = (case f of
     None \<Rightarrow> map_prod (\<lambda>(x, c). Regular x c) (map_sum Inr (\<lambda>r. r)) (func (False, []))
   | Some (Regular x c) \<Rightarrow> map_prod (\<lambda>(x, c). Regular x c) (map_sum Inr (\<lambda>r. r)) (func (x, c))
   | Some g \<Rightarrow> (g, Inl (Inl (NotARegularFile p))))"

lemma inTheWay_split: "inTheWay root cs ds g \<Longrightarrow> \<exists>n ns. cs = ds @ n # ns"
  unfolding inTheWay_def by (metis strict_prefixE')

lemma openCreate_writes:
  assumes "validPath cs" "wfRoot root" "wfFile create" "\<And>h h' r. wfFile h \<Longrightarrow> k h = (h', r) \<Longrightarrow> wfFile h'"
  shows "writes root cs (\<lambda>f. k (case f of Some h \<Rightarrow> h | None \<Rightarrow> create)) Inl (openCreate root (canonical cs) create k)"
proof -
  note names = validPath_comps(2) [OF assms(1)]
  have r: "isRoot (canonical cs) \<longleftrightarrow> cs = []" by (rule isRoot_canonical [OF names])
  obtain g r' where k: "k (case lookRoot root cs of Some h \<Rightarrow> h | None \<Rightarrow> create) = (g, r')" by fastforce
  show ?thesis
  proof (cases root)
    case None
    show ?thesis
    proof (cases "cs = []")
      case True
      have "k create = (g, r')" using k None True by (simp add: lookRoot_def)
      moreover have "wfFile g" by (rule assms(4) [OF assms(3) \<open>k create = (g, r')\<close>])
      ultimately show ?thesis using None True r
        by (simp add: writes_def openCreate_def inTheWay_def stored_def created_def wfRoot_def lookRoot_def)
    qed (simp add: None r writes_def openCreate_def)
  next
    case (Some f)
    have o: "openCreate root (canonical cs) create k = map_prod Some (\<lambda>r. r) (walkCreate create k False f [] cs)"
      using Some names by (simp add: openCreate_def rel_canonical elements_joined case_prod_beta map_prod_def)
    have wf: "wfFile f" using Some assms(2) by (simp add: wfRoot_def)
    show ?thesis unfolding writes_def Some
    proof (simp, intro conjI allI impI)
      fix ds h assume w: "inTheWay (Some f) cs ds h"
      then obtain n ns where cs: "cs = ds @ n # ns" using inTheWay_split by blast
      have "walkCreate create k False f [] cs = (f, Inl (wayError ([] @ ds) h))"
        unfolding cs by (rule walkCreate_blocked) (use w assms(1) cs wf in \<open>auto simp: inTheWay_def lookRoot_def\<close>)
      then show "openCreate (Some f) (canonical cs) create k = (Some f, Inl (wayError ds h))" using o Some by simp
    next
      assume free: "\<forall>ds g. \<not> inTheWay (Some f) cs ds g"
      have "\<exists>es. g = Directory es" if "strict_prefix ds cs" "look f ds = Some g" for ds g
        using free that by (auto simp: inTheWay_def lookRoot_def)
      moreover have k': "k (case (if False then None else look f cs) of Some h \<Rightarrow> h | None \<Rightarrow> create) = (g, r')"
        using k Some by (simp add: lookRoot_def)
      ultimately obtain f' where f': "walkCreate create k False f [] cs = (f', r')" "created (Some f) cs g f'"
        using walkCreate_created [of cs f False k create g r' "[]"] by auto
      have "wfFile f'" by (rule walkCreate_wf [OF wf assms(3,4,1) f'(1)])
      then show "snd (openCreate (Some f) (canonical cs) create k) = snd (k (case lookRoot (Some f) cs of Some h \<Rightarrow> h | None \<Rightarrow> create))"
        and "stored (Some f) cs (fst (k (case lookRoot (Some f) cs of Some h \<Rightarrow> h | None \<Rightarrow> create)))
          (fst (openCreate (Some f) (canonical cs) create k))"
        using f' k o Some by (simp_all add: stored_def wfRoot_def)
      assume "lookRoot (Some f) cs = Some (fst (k (case lookRoot (Some f) cs of Some h \<Rightarrow> h | None \<Rightarrow> create)))"
      then have l: "look f cs = Some g" using k Some by (simp add: lookRoot_def)
      then have "k g = (g, r')" using k' by simp
      have "walkCreate create k False f [] cs = (f, r')" by (rule walkCreate_same) (fact l, fact \<open>k g = (g, r')\<close>, fact wf)
      then show "fst (openCreate (Some f) (canonical cs) create k) = Some f" using o Some by simp
    qed
  qed
qed

lemma writes_map:
  assumes "writes root cs change raise w"
  shows "writes root cs (\<lambda>f. map_prod (\<lambda>g. g) h (change f)) (\<lambda>e. h (raise e)) (map_prod (\<lambda>g. g) h w)"
  using assms by (cases w) (auto simp: writes_def split: if_splits)

lemma write_cases:
  assumes "validPath cs" "wfRoot root"
  shows "writes root cs (directoryChange (canonical cs)) Inl (createDirectory root (canonical cs))"
    and "writes root cs (symlinkChange (canonical cs) t) Inl (createSymlink root (canonical cs) t)"
    and "writes root cs (regularChange (canonical cs) func) (\<lambda>e. Inl (Inl e)) (createRegularFile root (canonical cs) func)"
proof -
  have d: "directoryChange (canonical cs) = (\<lambda>f. case (case f of Some h \<Rightarrow> h | None \<Rightarrow> Directory []) of
      Directory es \<Rightarrow> (case f of Some h \<Rightarrow> h | None \<Rightarrow> Directory [], Inr ())
    | _ \<Rightarrow> (case f of Some h \<Rightarrow> h | None \<Rightarrow> Directory [], Inl (NotADirectory (canonical cs))))"
    by (rule ext) (simp add: directoryChange_def split: option.split File.split)
  show "writes root cs (directoryChange (canonical cs)) Inl (createDirectory root (canonical cs))"
    unfolding createDirectory_def d by (rule openCreate_writes [OF assms]) (auto split: File.splits)
  have s: "symlinkChange (canonical cs) t = (\<lambda>f. case (case f of Some h \<Rightarrow> h | None \<Rightarrow> Symlink []) of
      Symlink _ \<Rightarrow> (Symlink t, Inr ())
    | _ \<Rightarrow> (case f of Some h \<Rightarrow> h | None \<Rightarrow> Symlink [], Inl (NotASymlink (canonical cs))))"
    by (rule ext) (simp add: symlinkChange_def split: option.split File.split)
  show "writes root cs (symlinkChange (canonical cs) t) Inl (createSymlink root (canonical cs) t)"
    unfolding createSymlink_def s by (rule openCreate_writes [OF assms]) (auto split: File.splits)
  let ?k = "\<lambda>f. case f of Regular x c \<Rightarrow> (case func (x, c) of ((x', c'), r) \<Rightarrow> (Regular x' c', Inr r))
    | _ \<Rightarrow> (f, Inl (NotARegularFile (canonical cs)))"
  have "writes root cs (\<lambda>f. ?k (case f of Some h \<Rightarrow> h | None \<Rightarrow> Regular False [])) Inl
      (openCreate root (canonical cs) (Regular False []) ?k)"
    by (rule openCreate_writes [OF assms]) (auto split: File.splits prod.splits)
  from writes_map [where h = thrown, OF this]
  have w: "writes root cs (\<lambda>f. map_prod (\<lambda>g. g) thrown (?k (case f of Some h \<Rightarrow> h | None \<Rightarrow> Regular False [])))
      (\<lambda>e. thrown (Inl e)) (createRegularFile root (canonical cs) func)"
    unfolding createRegularFile_def .
  have c: "regularChange (canonical cs) func =
      (\<lambda>f. map_prod (\<lambda>g. g) thrown (?k (case f of Some h \<Rightarrow> h | None \<Rightarrow> Regular False [])))"
    by (rule ext) (auto simp: regularChange_def thrown_def split: option.split File.split prod.split sum.split)
  show "writes root cs (regularChange (canonical cs) func) (\<lambda>e. Inl (Inl e)) (createRegularFile root (canonical cs) func)"
    using w unfolding c thrown_simps .
qed

lemma addFile_writes:
  assumes "validPath cs" "wfRoot root" "base = (if root = None \<and> cs \<noteq> [] then Some (Directory []) else root)"
  shows "writes base cs (contentsChange (canonical cs) contents) Inl (addFile root (canonical cs) contents)"
proof -
  have r: "isRoot (canonical cs) \<longleftrightarrow> cs = []" using isRoot_canonical validPath_comps(2) [OF assms(1)] by blast
  have "fst (openCreate None rootPath (Directory []) (\<lambda>f. (f, Inr ()))) = Some (Directory [])"
    by (simp add: openCreate_def isRoot_def rootPath_def)
  then have b: "(if root = None \<and> \<not> isRoot (canonical cs)
      then fst (openCreate root rootPath (Directory []) (\<lambda>f. (f, Inr ()))) else root) = base"
    unfolding r assms(3) by auto
  have "wfRoot base" using assms(2) by (simp add: assms(3) wfRoot_def)
  have a: "contentsChange (canonical cs) contents = (\<lambda>f. case (case f of Some h \<Rightarrow> h | None \<Rightarrow> Regular False []) of
      Regular x c \<Rightarrow> (Regular x contents, Inr ())
    | _ \<Rightarrow> (case f of Some h \<Rightarrow> h | None \<Rightarrow> Regular False [], Inl (NotARegularFile (canonical cs))))"
    by (rule ext) (simp add: contentsChange_def split: option.split File.split)
  show "writes base cs (contentsChange (canonical cs) contents) Inl (addFile root (canonical cs) contents)"
    unfolding addFile_def b Let_def a
    by (rule openCreate_writes [OF assms(1) \<open>wfRoot base\<close>]) (auto split: File.splits)
qed


text \<open>
  A callback that throws after it wrote one byte: the file is there with that byte, and so is the new parent. A link
  and a file in the way are told apart.
\<close>

definition halfWritten :: "bool \<times> bytes \<Rightarrow> (bool \<times> bytes) \<times> (bytes + unit)" where
  "halfWritten c = (crfData c ''z'', Inl ''stop'')"


lemma writes_example:
  "createRegularFile (Some (Directory [])) ''/a/l'' halfWritten =
     (Some (Directory [(''a'', Directory [(''l'', Regular False ''z'')])]), Inl (Inr ''stop''))"
  "createDirectory (Some (Directory [(''a'', Symlink ''x'')])) ''/a/b'' =
     (Some (Directory [(''a'', Symlink ''x'')]), Inl (SymlinkNotAllowed ''/a''))"
  "createDirectory (Some (Directory [(''a'', Regular True [])])) ''/a/b/c'' =
     (Some (Directory [(''a'', Regular True [])]), Inl (NotADirectory ''/a''))"
  "addFile None ''/a'' ''y'' = (Some (Directory [(''a'', Regular False ''y'')]), Inr ())"
  by code_simp+

text \<open>
  A link is followed to its target; a link to itself is followed 1024 times and then reported. Both by the theorem on
  resolution.
\<close>

definition linked :: Accessor where
  "linked = memoryAccessor (Some (Directory [(''d'', Directory []), (''l'', Symlink ''d''), (''s'', Symlink ''s'')]))"

lemma linked_facts:
  "typeAt linked [''l''] = Some tSymlink" "readLink linked (canonical [''l'']) = Inr ''d''"
  "typeAt linked [''s''] = Some tSymlink" "readLink linked (canonical [''s'']) = Inr ''s''"
  "comps ''d'' = [''d'']" "comps ''s'' = [''s'']" "isAbsolute ''d'' = False" "isAbsolute ''s'' = False"
  "maybeLstat linked (canonical [''d'']) = Inr (Some (stat0 tDirectory))"
  by code_simp+

lemma names_valid: "validName ''d''" "validName ''l''" "validName ''s''"
  by (simp_all add: validName_def isComp_def isName_def)

lemma linked_moves: "moves linked Full 1 ([], [''l'']) ([''d''], [])"
proof -
  have "noLink linked [''d'']" using noLink_typeAt [OF linked_facts(9)] linked_facts(9) by (simp add: typeAt_def)
  then have "moves linked Full 0 ([], [''d'']) ([''d''], [])"
    by (intro moves.name names_valid) (auto intro: moves.here)
  then have "moves linked Full (Suc 0) ([], [''l'']) ([''d''], [])"
    by (intro moves.link [where target = "''d''"] names_valid) (simp_all add: linked_facts followed_def)
  then show ?thesis by simp
qed

lemma self_moves: "moves linked Full n ([], [''s'']) ([], [''s''])"
proof (induction n)
  case (Suc n)
  then show ?case
    by (intro moves.link [where target = "''s''"] names_valid) (simp_all add: linked_facts followed_def)
qed (rule moves.here)

lemma resolve_symlinks_witness:
  "resolveSymlinks linked (canonical [''l'']) Full = Inr (canonical [''d'']) \<and>
   resolveSymlinks linked (canonical [''s'']) Full = Inl (SymlinkRecursion (canonical [''s'']))"
proof
  have "\<exists>n out. n \<le> 1024 \<and> canonical [''d''] = canonical out \<and> moves linked Full n ([], [''l'']) (out, [])"
    using linked_moves by (intro exI [of _ 1] exI [of _ "[''d'']"]) simp
  then show "resolveSymlinks linked (canonical [''l'']) Full = Inr (canonical [''d''])"
    by (intro resolve_symlinks [THEN conjunct1, THEN iffD2]) (simp_all add: names_valid)
  have "stuck linked Full (canonical [''s'']) (1024 - 1024) [] ''s'' [] (SymlinkRecursion (canonical [''s'']))"
    using names_valid(3) linked_facts(3) by (simp add: stuck_def followed_def)
  then have "\<exists>n r c todo. n \<le> 1024 \<and> moves linked Full n ([], [''s'']) (r, c # todo) \<and>
      stuck linked Full (canonical [''s'']) (1024 - n) r c todo (SymlinkRecursion (canonical [''s'']))"
    using self_moves [of 1024] by blast
  then show "resolveSymlinks linked (canonical [''s'']) Full = Inl (SymlinkRecursion (canonical [''s'']))"
    by (intro resolve_symlinks [THEN conjunct2, THEN conjunct1, THEN iffD2]) (simp_all add: names_valid)
qed

end
