(* ===== verification/Fs_Sink.thy ===== *)
theory Fs_Sink
  imports Memory_Accessor
begin

text \<open>
  Receiving a file system object (\<^verbatim>\<open>src/libutil/include/nix/util/fs-sink.hh\<close>, \<^verbatim>\<open>src/libutil/fs-sink.cc\<close>):
  the interface of a sink as the record of its virtual methods over a state, the sink that
  writes into memory, the one that ignores everything, and \<^verbatim>\<open>copyRecursive\<close>. The callback of
  \<^verbatim>\<open>createRegularFile\<close> works on the state of the open file and returns or throws an exception of its own, which
  passes through the sink.
  The recursion of \<^verbatim>\<open>copyRecursive\<close> follows the source as deep as it goes; here it has fuel.
\<close>

section \<open>Sinks\<close>

record ('s, 'c, 'e, 'r) FileSystemObjectSink =
  mkDirectory :: "'s \<Rightarrow> CanonPath \<Rightarrow> 's \<times> (AccessError + unit)"
  mkRegular :: "'s \<Rightarrow> CanonPath \<Rightarrow> ('c \<Rightarrow> 'c \<times> ('e + 'r)) \<Rightarrow> 's \<times> ((AccessError + 'e) + 'r)"
  mkSymlink :: "'s \<Rightarrow> CanonPath \<Rightarrow> bytes \<Rightarrow> 's \<times> (AccessError + unit)"
  crfSetExecutable :: "'c \<Rightarrow> 'c"
  crfReceive :: "'c \<Rightarrow> bytes \<Rightarrow> 'c"
  skipContents :: bool

definition memorySink :: "(Root, bool \<times> bytes, 'e, 'r) FileSystemObjectSink" where
  "memorySink =
     \<lparr>mkDirectory = createDirectory, mkRegular = createRegularFile, mkSymlink = createSymlink,
      crfSetExecutable = crfExecutable, crfReceive = crfData, skipContents = False\<rparr>"

definition nullCreateRegularFile :: "unit \<Rightarrow> CanonPath \<Rightarrow> (unit \<Rightarrow> unit \<times> ('e + 'r)) \<Rightarrow> unit \<times> ((AccessError + 'e) + 'r)" where
  "nullCreateRegularFile s p func = ((), thrown (Inr (snd (func ()))))"

definition nullSink :: "(unit, unit, 'e, 'r) FileSystemObjectSink" where
  "nullSink =
     \<lparr>mkDirectory = (\<lambda>s p. (s, Inr ())), mkRegular = nullCreateRegularFile, mkSymlink = (\<lambda>s p t. (s, Inr ())),
      crfSetExecutable = (\<lambda>c. c), crfReceive = (\<lambda>c d. c), skipContents = True\<rparr>"

lemma memorySink_simps [simp]:
  "mkDirectory memorySink = createDirectory" "mkRegular memorySink = createRegularFile" "mkSymlink memorySink = createSymlink"
  "crfSetExecutable memorySink = crfExecutable" "crfReceive memorySink = crfData" "skipContents memorySink = False"
  by (simp_all add: memorySink_def)

lemma nullSink_simps [simp]:
  "mkDirectory nullSink s p = (s, Inr ())" "mkRegular nullSink = nullCreateRegularFile" "mkSymlink nullSink s p t = (s, Inr ())"
  "crfSetExecutable nullSink = (\<lambda>c. c)" "crfReceive nullSink c d = c" "skipContents nullSink = True"
  by (simp_all add: nullSink_def)

section \<open>Copying\<close>

text \<open>The names of a listing in the order of the map.\<close>

definition entryNames :: "DirEntries \<Rightarrow> bytes list" where
  "entryNames es = Mapping.ordered_keys es"

datatype CopyError = CopyAccess AccessError | CopyUnsupported CanonPath FileType | CopyFuel

text \<open>The exceptions of a sink and of its callback are thrown alike.\<close>

definition raised :: "(AccessError \<Rightarrow> 'e) \<Rightarrow> (AccessError + 'e) + 'r \<Rightarrow> 'e + 'r" where
  "raised wrap w = (case w of Inl (Inl e) \<Rightarrow> Inl (wrap e) | Inl (Inr e) \<Rightarrow> Inl e | Inr r \<Rightarrow> Inr r)"

lemma raised_simps [simp]:
  "raised wrap (Inl (Inl a)) = Inl (wrap a)" "raised wrap (Inl (Inr e)) = Inl e" "raised wrap (Inr r) = Inr r"
  by (simp_all add: raised_def)

lemma raised_eq_Inr [bind_defs]: "raised wrap w = Inr r \<longleftrightarrow> w = Inr r"
  by (auto simp: raised_def split: sum.splits)

definition copyAccess :: "AccessError + 'a \<Rightarrow> CopyError + 'a" where
  "copyAccess r = (case r of Inl e \<Rightarrow> Inl (CopyAccess e) | Inr x \<Rightarrow> Inr x)"

fun copyAll :: "('s \<Rightarrow> bytes \<Rightarrow> 's \<times> (CopyError + unit)) \<Rightarrow> 's \<Rightarrow> bytes list \<Rightarrow> 's \<times> (CopyError + unit)" where
  "copyAll f s [] = (s, Inr ())"
| "copyAll f s (n # ns) = (case f s n of (s', Inl e) \<Rightarrow> (s', Inl e) | (s', Inr _) \<Rightarrow> copyAll f s' ns)"

definition copyRegular ::
    "Accessor \<Rightarrow> ('s, 'c, AccessError, unit) FileSystemObjectSink \<Rightarrow> Stat \<Rightarrow> CanonPath \<Rightarrow> 'c \<Rightarrow> 'c \<times> (AccessError + unit)" where
  "copyRegular A sink st p c =
     (let c1 = (if isExecutable st then crfSetExecutable sink c else c)
      in case readFile A p of Inl e \<Rightarrow> (c1, Inl e) | Inr d \<Rightarrow> (crfReceive sink c1 d, Inr ()))"

primrec copyRecursive ::
    "nat \<Rightarrow> Accessor \<Rightarrow> ('s, 'c, AccessError, unit) FileSystemObjectSink \<Rightarrow> 's \<Rightarrow> CanonPath \<Rightarrow> CanonPath \<Rightarrow> 's \<times> (CopyError + unit)"
where
  "copyRecursive 0 A sink s p q = (s, Inl CopyFuel)"
| "copyRecursive (Suc d) A sink s p q =
     (case lstat A p of
        Inl e \<Rightarrow> (s, Inl (CopyAccess e))
      | Inr st \<Rightarrow>
          (case statType st of
             tSymlink \<Rightarrow>
               (case readLink A p of
                  Inl e \<Rightarrow> (s, Inl (CopyAccess e))
                | Inr t \<Rightarrow> (case mkSymlink sink s q t of (s', r) \<Rightarrow> (s', copyAccess r)))
           | tRegular \<Rightarrow>
               (case mkRegular sink s q (copyRegular A sink st p) of (s', r) \<Rightarrow> (s', copyAccess (raised (\<lambda>e. e) r)))
           | tDirectory \<Rightarrow>
               (case mkDirectory sink s q of
                  (s', Inl e) \<Rightarrow> (s', Inl (CopyAccess e))
                | (s', Inr _) \<Rightarrow>
                    (case readDirectory A p of
                       Inl e \<Rightarrow> (s', Inl (CopyAccess e))
                     | Inr es \<Rightarrow>
                         copyAll (\<lambda>s'' n.
                             case (liftPath (slashName p n), liftPath (slashName q n)) of
                               (Inr p', Inr q') \<Rightarrow> copyRecursive d A sink s'' p' q'
                             | (Inl e, _) \<Rightarrow> (s'', Inl (CopyAccess e))
                             | (_, Inl e) \<Rightarrow> (s'', Inl (CopyAccess e)))
                           s' (entryNames es)))
           | t \<Rightarrow> (s, Inl (CopyUnsupported p t))))"

section \<open>Trees that grow by one entry\<close>

text \<open>Trees with the names in order are determined by what is found in them.\<close>

lemma map_of_sorted_eq:
  assumes "sorted_wrt (<) (map fst xs)" "sorted_wrt (<) (map fst ys)" "map_of xs = map_of ys"
  shows "xs = (ys :: ('a::linorder \<times> 'b) list)"
proof -
  have "set xs = {(k, v). map_of xs k = Some v}" "set ys = {(k, v). map_of ys k = Some v}"
    using assms(1,2) by (auto simp: strict_sorted_iff)
  then have e: "set xs = set ys" using assms(3) by simp
  have "distinct (map fst xs)" "distinct (map fst ys)" using assms(1,2) by (simp_all add: strict_sorted_iff)
  then have "inj_on fst (set xs \<union> set ys)" unfolding e by (simp add: distinct_map)
  then show ?thesis
    by (rule map_sorted_distinct_set_unique) (use assms(1,2) e in \<open>simp_all add: strict_sorted_iff\<close>)
qed

definition fresh :: "Root \<Rightarrow> bytes list \<Rightarrow> bool" where
  "fresh root cs =
     (if cs = [] then root = None
      else \<exists>es. lookRoot root (butlast cs) = Some (Directory es) \<and> map_of es (last cs) = None)"

lemma fresh_free:
  assumes "fresh root cs"
  shows "\<not> inTheWay root cs ds g" "lookRoot root cs = None" "root = None \<Longrightarrow> cs = []"
proof -
  show n: "lookRoot root cs = None"
    using assms look_append [of _ "butlast cs" "[last cs]"]
    by (cases "cs = []") (auto simp: fresh_def lookRoot_def split: bind_splits option.splits)
  show "root = None \<Longrightarrow> cs = []" using assms by (simp add: fresh_def lookRoot_def split: if_splits)
  show "\<not> inTheWay root cs ds g"
  proof
    assume w: "inTheWay root cs ds g"
    then have "cs \<noteq> []" by (auto simp: inTheWay_def)
    then obtain es where es: "lookRoot root (butlast cs) = Some (Directory es)" using assms by (auto simp: fresh_def)
    have "prefix ds (butlast cs)" using w unfolding inTheWay_def by (metis prefix_order.less_le prefix_snoc snoc_eq_iff_butlast \<open>cs \<noteq> []\<close>)
    then obtain xs where xs: "butlast cs = ds @ xs" by (auto simp: prefix_def)
    show False
    proof (cases xs)
      case Nil
      then show ?thesis using es w xs by (auto simp: inTheWay_def)
    next
      case (Cons x ys)
      then show ?thesis using es w xs
        by (cases g) (auto simp: inTheWay_def lookRoot_def look_append split: bind_splits)
    qed
  qed
qed

lemma writes_fresh:
  assumes "fresh root cs" "writes root cs change raise w" "change None = (g, r)"
  shows "\<exists>root'. w = (root', r) \<and> stored root cs g root'"
proof -
  have "snd w = r \<and> stored root cs g (fst w)"
    using assms(2,3) fresh_free [OF assms(1)] by (auto simp: writes_def split: if_splits)
  then show ?thesis by (cases w) simp
qed

text \<open>The operations of the memory sink on a path that is free.\<close>

lemma sink_fresh:
  assumes "fresh root cs" "validPath cs" "wfRoot root"
  shows "\<exists>root'. createDirectory root (canonical cs) = (root', Inr ()) \<and> stored root cs (Directory []) root'"
    and "\<exists>root'. createSymlink root (canonical cs) t = (root', Inr ()) \<and> stored root cs (Symlink t) root'"
    and "func (False, []) = ((x, c), Inr r) \<Longrightarrow>
      \<exists>root'. createRegularFile root (canonical cs) func = (root', Inr r) \<and> stored root cs (Regular x c) root'"
proof -
  note w = write_cases [OF assms(2,3)]
  show "\<exists>root'. createDirectory root (canonical cs) = (root', Inr ()) \<and> stored root cs (Directory []) root'"
    by (rule writes_fresh [OF assms(1) w(1)]) (simp add: directoryChange_def)
  show "\<exists>root'. createSymlink root (canonical cs) t = (root', Inr ()) \<and> stored root cs (Symlink t) root'"
    by (rule writes_fresh [OF assms(1) w(2)]) (simp add: symlinkChange_def)
  show "\<exists>root'. createRegularFile root (canonical cs) func = (root', Inr r) \<and> stored root cs (Regular x c) root'"
    if "func (False, []) = ((x, c), Inr r)"
    by (rule writes_fresh [OF assms(1) w(3)]) (simp add: regularChange_def that)
qed

text \<open>A directory that was stored and an entry stored behind its last one are the larger directory stored.\<close>

lemma stored_entry:
  assumes "stored root cs (Directory es) r1" "stored r1 (cs @ [n]) g r2" "\<And>m. m \<in> fst ` set es \<Longrightarrow> m < n"
  shows "stored root cs (Directory (es @ [(n, g)])) r2"
proof -
  obtain f1 f2 where f: "r1 = Some f1" "r2 = Some f2" "wfFile f1" "wfFile f2"
      and c1: "created root cs (Directory es) f1" and c2: "created r1 (cs @ [n]) g f2"
    using assms(1,2) by (auto simp: stored_def wfRoot_def)
  have "strict_prefix cs (cs @ [n])" by (simp add: strict_prefix_def)
  then obtain fs where fs: "look f2 cs = Some (Directory fs)" using c2 unfolding created_def by blast
  have l1: "look f1 (cs @ [m]) = map_of es m" and l2: "look f2 (cs @ [m]) = map_of fs m" for m
    using c1 fs by (auto simp: created_def look_append split: bind_splits)
  have m: "map_of fs m = (if m = n then Some g else map_of es m)" for m
  proof (cases "m = n")
    case True
    then show ?thesis using l2 [of n] c2 by (simp add: created_def)
  next
    case False
    then have "look f2 (cs @ [m]) = Option.bind r1 (\<lambda>f. look f (cs @ [m]))" using c2 by (auto simp: created_def)
    then show ?thesis using False l1 l2 f(1) by simp
  qed
  have w: "wfFile (Directory es)" "wfFile (Directory fs)" using look_wf [OF f(3), of cs] look_wf [OF f(4) fs] c1 unfolding created_def by blast+
  have n: "n \<notin> fst ` set es" using assms(3) by blast
  have "fs = es @ [(n, g)]"
  proof (rule map_of_sorted_eq)
    show "sorted_wrt (<) (map fst (es @ [(n, g)]))" using w(1) assms(3) by (auto simp: sorted_wrt_append)
    have "map_of es n = None" using n by (simp add: map_of_eq_None_iff)
    then show "map_of fs = map_of (es @ [(n, g)])" by (intro ext) (auto simp: m map_add_def split: option.splits)
  qed (use w in simp)
  have "look f2 ds = Option.bind root (\<lambda>f. look f ds)" if "\<not> prefix cs ds" "\<not> prefix ds cs" for ds
  proof -
    have "look f2 ds = look f1 ds" using c2 f(1) that by (auto simp: created_def prefix_append prefix_snoc intro: append_prefixD)
    then show ?thesis using c1 that by (simp add: created_def)
  qed
  moreover have "\<exists>es. look f2 ds = Some (Directory es)" if "strict_prefix ds cs" for ds
    using c2 that by (auto simp: created_def strict_prefix_def)
  ultimately have "created root cs (Directory (es @ [(n, g)])) f2"
    using fs \<open>fs = es @ [(n, g)]\<close> by (simp add: created_def)
  then show ?thesis using f by (simp add: stored_def wfRoot_def)
qed

lemma stored_fresh:
  assumes "stored root cs (Directory es) r1" "\<And>m. m \<in> fst ` set es \<Longrightarrow> m < n"
  shows "fresh r1 (cs @ [n])" "wfRoot r1"
proof -
  have "n \<notin> fst ` set es" using assms(2) by blast
  then show "fresh r1 (cs @ [n])" "wfRoot r1"
    using assms(1) by (auto simp: stored_def created_def fresh_def lookRoot_def map_of_eq_None_iff)
qed

section \<open>The contract of a sink\<close>

text \<open>
  What the writers of file system objects rely on: a sink that is ready at a path accepts an object there; the
  callback of a regular file decides the result and the file; and an entry can be put behind the last one of a
  directory. \<open>put s cs f s'\<close> is what the sink promises after the object \<open>f\<close> was written at the path, \<open>holds c x d\<close> what the
  open file \<open>c\<close> has received.
\<close>

locale fs_sink =
  fixes sink :: "('s, 'c, 'e, 'r) FileSystemObjectSink"
    and ready :: "'s \<Rightarrow> bytes list \<Rightarrow> bool"
    and put :: "'s \<Rightarrow> bytes list \<Rightarrow> File \<Rightarrow> 's \<Rightarrow> bool"
    and holds :: "'c \<Rightarrow> bool \<Rightarrow> bytes \<Rightarrow> bool"
  assumes callback: "mkRegular sink s p func = (s', Inr r) \<Longrightarrow> \<exists>c. snd (func c) = Inr r"
    and exception: "mkRegular sink s p func = (s', Inl (Inr e)) \<Longrightarrow> \<exists>c. snd (func c) = Inl e"
    and directory: "ready s cs \<Longrightarrow> validPath cs \<Longrightarrow>
      \<exists>s'. mkDirectory sink s (canonical cs) = (s', Inr ()) \<and> put s cs (Directory []) s'"
    and symlink: "ready s cs \<Longrightarrow> validPath cs \<Longrightarrow>
      \<exists>s'. mkSymlink sink s (canonical cs) t = (s', Inr ()) \<and> put s cs (Symlink t) s'"
    and regular: "ready s cs \<Longrightarrow> validPath cs \<Longrightarrow> (\<And>c. holds c False [] \<Longrightarrow> \<exists>c'. func c = (c', Inr r) \<and> holds c' x d) \<Longrightarrow>
      \<exists>s'. mkRegular sink s (canonical cs) func = (s', Inr r) \<and> put s cs (Regular x d) s'"
    and executable: "holds c x d \<Longrightarrow> holds (crfSetExecutable sink c) True d"
    and receive: "holds c x d \<Longrightarrow> holds (crfReceive sink c b) x (d @ b)"
    and skip: "skipContents sink \<Longrightarrow> holds c x d \<Longrightarrow> holds c x (d @ b)"
    and ready_entry: "put s cs (Directory es) s1 \<Longrightarrow> (\<forall>m \<in> fst ` set es. m < n) \<Longrightarrow> ready s1 (cs @ [n])"
    and put_entry: "put s cs (Directory es) s1 \<Longrightarrow> put s1 (cs @ [n]) g s2 \<Longrightarrow> (\<forall>m \<in> fst ` set es. m < n) \<Longrightarrow>
      put s cs (Directory (es @ [(n, g)])) s2"

lemma walkCreate_result: "snd (walkCreate create k newF cur dirs cs) = Inr r \<Longrightarrow> \<exists>h. snd (k h) = Inr r"
proof (induction create k newF cur dirs cs rule: walkCreate.induct)
  case (2 create k newF cur dirs name names)
  then show ?case by (auto simp: atDir_def split: File.splits option.splits prod.splits sum.splits)
qed (auto split: if_splits)

lemma openCreate_result: "openCreate root p create k = (root', Inr r) \<Longrightarrow> \<exists>h. snd (k h) = Inr r"
  using walkCreate_result [of create k False _ "[]" "elements (rel p)" r]
  by (auto simp: openCreate_def split: option.splits if_splits prod.splits) (metis snd_conv)+

lemma createRegularFile_result:
  "createRegularFile root p func = (root', Inr r) \<Longrightarrow> \<exists>c. snd (func c) = Inr r"
  "createRegularFile root p func = (root', Inl (Inr e)) \<Longrightarrow> \<exists>c. snd (func c) = Inl e"
proof -
  let ?k = "\<lambda>f. case f of Regular x c \<Rightarrow> (case func (x, c) of ((x', c'), r) \<Rightarrow> (Regular x' c', Inr r))
    | _ \<Rightarrow> (f, Inl (NotARegularFile p))"
  have k: "\<exists>c. snd (func c) = q" if "snd (?k h) = Inr q" for h q
    using that by (cases h) (simp_all add: case_prod_beta, blast)
  obtain root1 w where o: "openCreate root p (Regular False []) ?k = (root1, w)" by fastforce
  have c: "createRegularFile root p func = (root1, thrown w)" by (simp add: createRegularFile_def o)
  show "\<exists>c. snd (func c) = Inr r" if "createRegularFile root p func = (root', Inr r)"
  proof -
    have "w = Inr (Inr r)" using that c by simp
    then show ?thesis using openCreate_result [of root p "Regular False []" ?k] o k by blast
  qed
  show "\<exists>c. snd (func c) = Inl e" if "createRegularFile root p func = (root', Inl (Inr e))"
  proof -
    have "w = Inr (Inl e)" using that c by simp
    then show ?thesis using openCreate_result [of root p "Regular False []" ?k] o k by blast
  qed
qed

definition memoryReady :: "Root \<Rightarrow> bytes list \<Rightarrow> bool" where
  "memoryReady root cs = (fresh root cs \<and> wfRoot root)"

interpretation memory: fs_sink memorySink memoryReady stored "\<lambda>c x d. c = (x, d)"
proof
  fix root :: Root and p and func :: "bool \<times> bytes \<Rightarrow> (bool \<times> bytes) \<times> ('e + 'r)" and root' r e
  show "mkRegular memorySink root p func = (root', Inr r) \<Longrightarrow> \<exists>c. snd (func c) = Inr r"
    by (simp del: split_paired_Ex) (rule createRegularFile_result(1))
  show "mkRegular memorySink root p func = (root', Inl (Inr e)) \<Longrightarrow> \<exists>c. snd (func c) = Inl e"
    by (simp del: split_paired_Ex) (rule createRegularFile_result(2))
next
  fix root cs assume "memoryReady root cs" "validPath cs"
  then show "\<exists>s'. mkDirectory memorySink root (canonical cs) = (s', Inr ()) \<and> stored root cs (Directory []) s'"
    and "\<exists>s'. mkSymlink memorySink root (canonical cs) t = (s', Inr ()) \<and> stored root cs (Symlink t) s'" for t
    using sink_fresh by (simp_all add: memoryReady_def)
next
  fix root cs and func :: "bool \<times> bytes \<Rightarrow> (bool \<times> bytes) \<times> ('e + 'r)" and r x d
  assume r: "memoryReady root cs" "validPath cs" and f: "\<And>c. c = (False, []) \<Longrightarrow> \<exists>c'. func c = (c', Inr r) \<and> c' = (x, d)"
  have "func (False, []) = ((x, d), Inr r)" using f by blast
  from sink_fresh(3) [where func = func, OF _ _ _ this] r
  show "\<exists>s'. mkRegular memorySink root (canonical cs) func = (s', Inr r) \<and> stored root cs (Regular x d) s'"
    by (simp add: memoryReady_def)
next
  fix root cs es s1 n assume "stored root cs (Directory es) s1" "\<forall>m \<in> fst ` set es. m < n"
  then show "memoryReady s1 (cs @ [n])" using stored_fresh [of root cs es s1 n] by (auto simp: memoryReady_def)
  show "stored s1 (cs @ [n]) g s2 \<Longrightarrow> stored root cs (Directory (es @ [(n, g)])) s2" for g s2
    using stored_entry [of root cs es s1 n g s2] \<open>stored root cs (Directory es) s1\<close> \<open>\<forall>m \<in> fst ` set es. m < n\<close> by blast
qed (auto simp: crfExecutable_def crfData_def)

interpretation null: fs_sink nullSink "\<lambda>_ _. True" "\<lambda>_ _ _ _. True" "\<lambda>_ _ _. True"
  by unfold_locales (auto simp: nullCreateRegularFile_def)

section \<open>Copying a tree in memory\<close>

text \<open>A tree with at most the given number of levels.\<close>

primrec levels :: "nat \<Rightarrow> File \<Rightarrow> bool" where
  "levels 0 f = False"
| "levels (Suc d) f = (case f of Directory es \<Rightarrow> (\<forall>e \<in> set es. levels d (snd e)) | _ \<Rightarrow> True)"

lemma levels_exist: "\<exists>d. levels d f"
proof (induction f)
  case (Directory es)
  have "\<exists>d. \<forall>e \<in> set es. levels d (snd e)"
    using Directory
  proof (induction es)
    case (Cons e es)
    have mono: "levels d g \<Longrightarrow> levels (d + k) g" for d k g
      by (induction d arbitrary: g) (auto split: File.splits)
    obtain d where d: "\<forall>e \<in> set es. levels d (snd e)" using Cons by (metis list.set_intros(2))
    obtain d' where d': "levels d' (snd e)" using Cons.prems by (metis list.set_intros(1) snds.intros surjective_pairing)
    show ?case
      by (rule exI [of _ "d + d'"]) (use d d' mono [of d _ d'] mono [of d' _ d] in \<open>auto simp: add.commute\<close>)
  qed simp
  then obtain d where "\<forall>e \<in> set es. levels d (snd e)" ..
  then have "levels (Suc d) (Directory es)" by simp
  then show ?case ..
next
  case (Regular x c)
  have "levels (Suc 0) (Regular x c)" by simp
  then show ?case ..
next
  case (Symlink t)
  have "levels (Suc 0) (Symlink t)" by simp
  then show ?case ..
qed

lemma entryNames_sorted:
  assumes "sorted_wrt (<) (map fst es)"
  shows "entryNames (Mapping.map_values g (Mapping.of_alist es)) = map fst es"
proof -
  have "Mapping.keys (Mapping.map_values g (Mapping.of_alist es)) = set (map fst es)"
    using dom_map_of_conv_image_fst [of es] by (auto simp: keys_dom_lookup lookup_map_values lookup_of_alist dom_def)
  then show ?thesis
    unfolding entryNames_def ordered_keys_def using assms sorted_list_of_set.idem_if_sorted_distinct [of "map fst es"]
    by (simp add: strict_sorted_iff)
qed

lemma memory_at:
  assumes "validPath cs" "lookRoot src cs = Some f"
  shows "lstat (memoryAccessor src) (canonical cs) = Inr (fileLstat f)"
    and "f = Regular x c \<Longrightarrow> readFile (memoryAccessor src) (canonical cs) = Inr c"
    and "f = Symlink t \<Longrightarrow> readLink (memoryAccessor src) (canonical cs) = Inr t"
    and "f = Directory es \<Longrightarrow> readDirectory (memoryAccessor src) (canonical cs) =
      Inr (Mapping.map_values (\<lambda>_ g. Some (statType (fileLstat g))) (Mapping.of_alist es))"
proof -
  have o: "openFile src (canonical cs) = Inr (Some f)" using openFile_look [OF assms(1), of src] assms(2) by simp
  show "lstat (memoryAccessor src) (canonical cs) = Inr (fileLstat f)"
    using o by (simp add: lstat_def memoryAccessor_def memLstat_def)
  show "f = Regular x c \<Longrightarrow> readFile (memoryAccessor src) (canonical cs) = Inr c"
    and "f = Symlink t \<Longrightarrow> readLink (memoryAccessor src) (canonical cs) = Inr t"
    and "f = Directory es \<Longrightarrow> readDirectory (memoryAccessor src) (canonical cs) =
      Inr (Mapping.map_values (\<lambda>_ g. Some (statType (fileLstat g))) (Mapping.of_alist es))"
    using o by (simp_all add: memoryAccessor_def memReadFile_def memReadLink_def memReadDirectory_def)
qed

lemma lookRoot_entry: "lookRoot src cs = Some (Directory es) \<Longrightarrow> map_of es n = Some g \<Longrightarrow> lookRoot src (cs @ [n]) = Some g"
  by (auto simp: lookRoot_def look_append split: bind_splits)

context fs_sink
begin

lemma copyAll_put:
  assumes "\<And>n g s. (n, g) \<in> set es \<Longrightarrow> ready s (qs @ [n]) \<Longrightarrow> \<exists>s'. copyEntry s n = (s', Inr ()) \<and> put s (qs @ [n]) g s'"
    and "put s0 qs (Directory made) s" "sorted_wrt (<) (map fst (made @ es))"
  shows "\<exists>s'. copyAll copyEntry s (map fst es) = (s', Inr ()) \<and> put s0 qs (Directory (made @ es)) s'"
  using assms
proof (induction es arbitrary: made s)
  case (Cons e es)
  obtain n g where e: "e = (n, g)" by (cases e)
  have less: "\<forall>m \<in> fst ` set made. m < n" using Cons.prems(3) e by (auto simp: sorted_wrt_append)
  obtain s1 where s1: "copyEntry s n = (s1, Inr ())" "put s (qs @ [n]) g s1"
    using Cons.prems(1) [of n g s] ready_entry [OF Cons.prems(2) less] e by auto
  have "\<exists>s'. copyAll copyEntry s1 (map fst es) = (s', Inr ()) \<and> put s0 qs (Directory ((made @ [(n, g)]) @ es)) s'"
    by (rule Cons.IH [OF _ put_entry [OF Cons.prems(2) s1(2) less]]) (use Cons.prems(1,3) e in auto)
  then show ?case using s1(1) e by simp
qed simp

end

text \<open>The callback of a copy returns nothing.\<close>

locale copy_sink = fs_sink sink ready put holds
  for sink :: "('s, 'c, AccessError, unit) FileSystemObjectSink" and ready put holds
begin

lemma copy_put:
  assumes "levels d f" "wfFile f" "lookRoot src cs = Some f" "validPath cs" "validPath qs" "ready s qs"
  shows "\<exists>s'. copyRecursive d (memoryAccessor src) sink s (canonical cs) (canonical qs) = (s', Inr ()) \<and> put s qs f s'"
  using assms
proof (induction d arbitrary: f cs qs s)
  case (Suc d)
  note at = memory_at [OF Suc.prems(4,3)] and rdy = Suc.prems(6,5)
  show ?case
  proof (cases f)
    case (Regular x c)
    let ?func = "copyRegular (memoryAccessor src) sink (fileLstat f) (canonical cs)"
    have "\<exists>k'. ?func k = (k', Inr ()) \<and> holds k' x c" if "holds k False []" for k
      using at(2) [OF Regular] receive [OF that, of c] receive [OF executable [OF that], of c]
      by (cases x) (simp_all add: copyRegular_def Regular)
    from regular [where func = ?func, OF rdy this] show ?thesis
      using at(1) by (auto simp: Regular copyAccess_def)
  next
    case (Symlink t)
    then show ?thesis using at(1) at(3) [OF Symlink] symlink [OF rdy, of t] by (auto simp: copyAccess_def)
  next
    case (Directory es)
    obtain s1 where s1: "mkDirectory sink s (canonical qs) = (s1, Inr ())" "put s qs (Directory []) s1" using directory [OF rdy] by blast
    have sorted: "sorted_wrt (<) (map fst es)" using Suc.prems(2) Directory by simp
    let ?step = "\<lambda>s'' n. case (liftPath (slashName (canonical cs) n), liftPath (slashName (canonical qs) n)) of
       (Inr p', Inr q') \<Rightarrow> copyRecursive d (memoryAccessor src) sink s'' p' q'
     | (Inl e, _) \<Rightarrow> (s'', Inl (CopyAccess e))
     | (_, Inl e) \<Rightarrow> (s'', Inl (CopyAccess e))"
    have "\<exists>s'. ?step s n = (s', Inr ()) \<and> put s (qs @ [n]) g s'"
      if e: "(n, g) \<in> set es" and s: "ready s (qs @ [n])" for n g s
    proof -
      have v: "validName n" "wfFile g" "levels d g" using Suc.prems(1,2) Directory e by auto
      have "map_of es n = Some g" using e sorted by (simp add: strict_sorted_iff)
      then have "lookRoot src (cs @ [n]) = Some g" using Suc.prems(3) Directory lookRoot_entry by blast
      from Suc.IH [OF v(3,2) this _ _ s] show ?thesis
        using v(1) Suc.prems(4,5) by (simp add: slashName_def push_valid)
    qed
    from copyAll_put [of es qs ?step, OF this s1(2)] sorted obtain s' where
      s': "copyAll ?step s1 (map fst es) = (s', Inr ())" "put s qs (Directory es) s'" by auto
    have "copyRecursive (Suc d) (memoryAccessor src) sink s (canonical cs) (canonical qs) = copyAll ?step s1 (map fst es)"
      using at(1) at(4) [OF Directory] s1(1) entryNames_sorted [OF sorted] by (simp add: Directory)
    then show ?thesis using s' Directory by simp
  qed
qed simp

end

interpretation memory_copy: copy_sink memorySink memoryReady stored "\<lambda>c x d. c = (x, d)"
  by unfold_locales

interpretation null_copy: copy_sink nullSink "\<lambda>_ _. True" "\<lambda>_ _ _ _. True" "\<lambda>_ _ _. True"
  by unfold_locales

text \<open>
  C37: Copying a tree in memory to a free place of another one returns without an exception once the fuel covers
  the levels of the tree, leaves there exactly that tree, and changes nothing beside the place.
\<close>
theorem copy_exact:
  assumes "wfFile f" "lookRoot src cs = Some f" "validPath cs" "validPath qs" "fresh root qs" "wfRoot root"
  shows "\<exists>d0. \<forall>d \<ge> d0. \<exists>root'. copyRecursive d (memoryAccessor src) memorySink root (canonical cs) (canonical qs) = (root', Inr ()) \<and>
    stored root qs f root'"
proof -
  have mono: "levels d g \<Longrightarrow> d \<le> e \<Longrightarrow> levels e g" for d e g
  proof (induction d arbitrary: e g)
    case (Suc d)
    then show ?case by (cases e) (auto split: File.splits)
  qed simp
  obtain d0 where "levels d0 f" using levels_exist by blast
  have "memoryReady root qs" using assms(5,6) by (simp add: memoryReady_def)
  then show ?thesis using memory_copy.copy_put [OF mono [OF \<open>levels d0 f\<close>] assms(1-4)] by blast
qed

definition copySource :: File where
  "copySource = Directory [(''l'', Symlink ''x''), (''x'', Regular True ''1'')]"

lemma copy_exact_witness:
  "\<exists>d0. \<forall>d \<ge> d0. \<exists>root'. copyRecursive d (memoryAccessor (Some copySource)) memorySink (Some (Directory [])) (canonical []) (canonical [''c'']) =
     (root', Inr ()) \<and> stored (Some (Directory [])) [''c''] copySource root'"
proof (rule copy_exact)
  show "wfFile copySource" by (simp add: copySource_def validName_def isComp_def isName_def)
  show "validPath [''c'']" by (simp add: validName_def isComp_def isName_def)
qed (simp_all add: lookRoot_def fresh_def wfRoot_def)

lemma copy_example:
  "copyRecursive 2 (memoryAccessor (Some copySource)) memorySink None ''/'' ''/'' = (Some copySource, Inr ())"
  by code_simp

end
