(* ===== verification/Nar.thy ===== *)
theory Nar
  imports Wire Fs_Sink
begin

text \<open>
  Nix archives (\<^verbatim>\<open>src/libutil/archive.cc\<close>, \<^verbatim>\<open>src/libutil/include/nix/util/archive.hh\<close>): the dump of a file
  system object, the parser that replays an archive into a sink, and the copy of an archive. The setting
  \<^verbatim>\<open>use-case-hack\<close> is the parameter \<open>hack\<close>. The dump yields the bytes written, what was written before an exception is
  not kept; the parser returns the state of the sink and the rest of the source. The nesting bound
  \<^verbatim>\<open>narMaxDepth\<close> is the number of levels left, on which both recursions are structural; the loop over the entries of a
  directory has the length of its input as fuel.
\<close>

section \<open>Data\<close>

datatype NarError =
    WireFailed WireError
  | FileAccess AccessError
  | DepthExceeded
  | UnsupportedType CanonPath
  | NameCollision bytes bytes
  | NotAnArchive
  | UnexpectedTag bytes
  | NonEmptyMarker
  | UnknownType bytes
  | InvalidName bytes
  | NotSorted
  | HackCollision bytes
  | InvalidTarget
  | EntriesFuel

definition wire :: "WireError + 'a \<Rightarrow> NarError + 'a" where
  "wire r = (case r of Inl e \<Rightarrow> Inl (WireFailed e) | Inr x \<Rightarrow> Inr x)"

definition fileAccess :: "AccessError + 'a \<Rightarrow> NarError + 'a" where
  "fileAccess r = (case r of Inl e \<Rightarrow> Inl (FileAccess e) | Inr x \<Rightarrow> Inr x)"

lemma wire_simps [simp]: "wire (Inl e) = Inl (WireFailed e)" "wire (Inr x) = Inr x"
  by (simp_all add: wire_def)

lemma fileAccess_simps [simp]: "fileAccess (Inl e) = Inl (FileAccess e)" "fileAccess (Inr x) = Inr x"
  by (simp_all add: fileAccess_def)

lemma wire_eq_Inr [bind_defs]: "wire r = Inr x \<longleftrightarrow> r = Inr x"
  by (cases r) auto

lemma fileAccess_eq_Inr [bind_defs]: "fileAccess r = Inr x \<longleftrightarrow> r = Inr x"
  by (cases r) auto

definition narVersionMagic1 :: bytes where "narVersionMagic1 = ''nix-archive-1''"
definition caseHackSuffix :: bytes where "caseHackSuffix = ''~nix~case~hack~''"
definition narMaxDepth :: nat where "narMaxDepth = 64"
definition narMaxTag :: nat where "narMaxTag = 32"
definition narMaxName :: nat where "narMaxName = 255"
definition narMaxTarget :: nat where "narMaxTarget = 4095"

section \<open>Dumping\<close>

text \<open>Cutting a name at the first occurrence of the suffix.\<close>

fun cutAt :: "bytes \<Rightarrow> bytes \<Rightarrow> bytes" where
  "cutAt suff [] = []"
| "cutAt suff (c # cs) = (if startsWith (c # cs) suff then [] else c # cutAt suff cs)"

text \<open>The map from the names in the archive to those of the entries, in order.\<close>

fun unhackEntries :: "bool \<Rightarrow> bytes list \<Rightarrow> (bytes \<times> bytes) list \<Rightarrow> NarError + (bytes \<times> bytes) list" where
  "unhackEntries hack [] unhacked = Inr unhacked"
| "unhackEntries hack (n # ns) unhacked =
     (if hack then
        (let name = cutAt caseHackSuffix n in
         case map_of unhacked name of
           Some m \<Rightarrow> Inl (NameCollision m n)
         | None \<Rightarrow> unhackEntries hack ns (insort_key fst (name, n) unhacked))
      else unhackEntries hack ns (insort_key fst (n, n) unhacked))"

definition dumpContents :: "Accessor \<Rightarrow> CanonPath \<Rightarrow> NarError + bytes" where
  "dumpContents A p =
     ebind (fileAccess (readFile A p)) (\<lambda>c.
       Inr (writeString ''contents'' @ writeNum (length c) @ c @ writePadding (length c)))"

primrec dumpNode :: "bool \<Rightarrow> (bytes \<Rightarrow> bool) \<Rightarrow> Accessor \<Rightarrow> nat \<Rightarrow> CanonPath \<Rightarrow> CanonPath \<Rightarrow> NarError + bytes" where
  "dumpNode hack pathFilter A 0 p fp = Inl DepthExceeded"
| "dumpNode hack pathFilter A (Suc d) p fp =
     ebind (fileAccess (lstat A p)) (\<lambda>st.
       ebind
         (case statType st of
            tRegular \<Rightarrow>
              ebind (dumpContents A p) (\<lambda>c.
                Inr (writeString ''type'' @ writeString ''regular'' @
                  (if isExecutable st then writeString ''executable'' @ writeString [] else []) @ c))
          | tDirectory \<Rightarrow>
              ebind (fileAccess (readDirectory A p)) (\<lambda>es.
                ebind (unhackEntries hack (entryNames es) []) (\<lambda>unhacked.
                  ebind (mapE (\<lambda>(name, entry).
                      ebind (fileAccess (liftPath (slashName fp name))) (\<lambda>k.
                        if pathFilter k then
                          ebind (fileAccess (liftPath (slashName p entry))) (\<lambda>p'.
                            ebind (fileAccess (liftPath (slashName fp entry))) (\<lambda>fp'.
                              ebind (dumpNode hack pathFilter A d p' fp') (\<lambda>b.
                                Inr (writeString ''entry'' @ writeString ''('' @ writeString ''name'' @ writeString name @
                                  writeString ''node'' @ b @ writeString '')''))))
                        else Inr []))
                    unhacked) (\<lambda>bs. Inr (writeString ''type'' @ writeString ''directory'' @ concat bs))))
          | tSymlink \<Rightarrow>
              ebind (fileAccess (readLink A p)) (\<lambda>t.
                Inr (writeString ''type'' @ writeString ''symlink'' @ writeString ''target'' @ writeString t))
          | _ \<Rightarrow> Inl (UnsupportedType p))
         (\<lambda>b. Inr (writeString ''('' @ b @ writeString '')'')))"

definition dumpPath :: "bool \<Rightarrow> (bytes \<Rightarrow> bool) \<Rightarrow> Accessor \<Rightarrow> CanonPath \<Rightarrow> NarError + bytes" where
  "dumpPath hack pathFilter A p =
     ebind (dumpNode hack pathFilter A narMaxDepth p p) (\<lambda>b. Inr (writeString narVersionMagic1 @ b))"

definition dumpString :: "bytes \<Rightarrow> bytes" where
  "dumpString s =
     writeString narVersionMagic1 @ writeString ''('' @ writeString ''type'' @ writeString ''regular'' @
     writeString ''contents'' @ writeString s @ writeString '')''"

text \<open>\<^verbatim>\<open>SourceAccessor::hashPath\<close>, over the digest of a byte string.\<close>

definition hashPath :: "(bytes \<Rightarrow> 'h) \<Rightarrow> bool \<Rightarrow> (bytes \<Rightarrow> bool) \<Rightarrow> Accessor \<Rightarrow> CanonPath \<Rightarrow> NarError + 'h" where
  "hashPath digest hack pathFilter A p = ebind (dumpPath hack pathFilter A p) (\<lambda>b. Inr (digest b))"

section \<open>Parsing\<close>

definition expectTag :: "bytes \<Rightarrow> bytes \<Rightarrow> NarError + bytes" where
  "expectTag expected src =
     ebind (wire (readString narMaxTag src)) (\<lambda>(tag, rest). if tag \<noteq> expected then Inl (UnexpectedTag tag) else Inr rest)"

text \<open>The contents of a file into an open file of the sink, which has received a part of them at the end of the input.\<close>

definition parseContents :: "('s, 'c, 'e, 'r) FileSystemObjectSink \<Rightarrow> 'c \<Rightarrow> bytes \<Rightarrow> 'c \<times> (NarError + bytes)" where
  "parseContents sink c src =
     (case readNum src of
        Inl e \<Rightarrow> (c, Inl (WireFailed e))
      | Inr (sz, src1) \<Rightarrow>
          (let c1 = (if skipContents sink then c else crfReceive sink c (take sz src1))
           in (c1, wire (ebind (readBytes sz src1) (\<lambda>(_, src2). readPadding sz src2)))))"

definition parseRegular :: "('s, 'c, 'e, 'r) FileSystemObjectSink \<Rightarrow> bytes \<Rightarrow> 'c \<Rightarrow> 'c \<times> (NarError + bytes)" where
  "parseRegular sink src c =
     (case readString narMaxTag src of
        Inl e \<Rightarrow> (c, Inl (WireFailed e))
      | Inr (tag, src1) \<Rightarrow>
          (case (if tag = ''executable'' then
                   ebind (wire (readString 0 src1)) (\<lambda>(s2, src2). if s2 \<noteq> [] then Inl NonEmptyMarker else Inr (True, src2))
                 else Inr (False, src1)) of
             Inl e \<Rightarrow> (c, Inl e)
           | Inr (executable, src2) \<Rightarrow>
               (let c1 = (if executable then crfSetExecutable sink c else c)
                in case (if executable then wire (readString narMaxTag src2) else Inr (tag, src2)) of
                     Inl e \<Rightarrow> (c1, Inl e)
                   | Inr (tag', src3) \<Rightarrow>
                       (if tag' \<noteq> ''contents'' then (c1, Inl (UnexpectedTag tag'))
                        else case parseContents sink c1 src3 of (c2, r) \<Rightarrow> (c2, ebind r (expectTag '')''))))))"

text \<open>
  The name of the next entry against the map of the names seen, compared as \<^verbatim>\<open>strcasecmp\<close> does in the C locale:
  the name to use and the map with the name or with its count increased.
\<close>

definition toLower :: "char \<Rightarrow> char" where
  "toLower c = (if CHR ''A'' \<le> c \<and> c \<le> CHR ''Z'' then char_of (of_char c + (32 :: nat)) else c)"

definition findName :: "(bytes \<times> nat) list \<Rightarrow> bytes \<Rightarrow> (bytes \<times> nat) option" where
  "findName names name = List.find (\<lambda>(k, _). map toLower k = map toLower name) names"

definition hackName :: "bool \<Rightarrow> (bytes \<times> nat) list \<Rightarrow> bytes \<Rightarrow> NarError + bytes \<times> (bytes \<times> nat) list" where
  "hackName hack names name =
     (if \<not> hack then Inr (name, names)
      else case findName names name of
             None \<Rightarrow> Inr (name, names @ [(name, 0)])
           | Some (k, i) \<Rightarrow>
               (let name' = name @ caseHackSuffix @ decimal (i + 1);
                    names' = map (\<lambda>(k', j). if k' = k then (k', i + 1) else (k', j)) names
                in case findName names' name' of Some (j, _) \<Rightarrow> Inl (HackCollision j) | None \<Rightarrow> Inr (name', names')))"

text \<open>An entry up to its node: the name in the archive, the name to use and the map of names.\<close>

definition entryHead :: "bool \<Rightarrow> (bytes \<times> nat) list \<Rightarrow> bytes \<Rightarrow> bytes \<Rightarrow> NarError + bytes \<times> bytes \<times> (bytes \<times> nat) list \<times> bytes" where
  "entryHead hack names prevName src =
     ebind (expectTag ''('' src) (\<lambda>src1. ebind (expectTag ''name'' src1) (\<lambda>src2.
       ebind (wire (readString narMaxName src2)) (\<lambda>(name, src3).
         if name = [] \<or> name = ''.'' \<or> name = ''..'' \<or> SLASH \<in> set name \<or> NUL \<in> set name then Inl (InvalidName name)
         else if name \<le> prevName then Inl NotSorted
         else ebind (hackName hack names name) (\<lambda>(name', names').
           ebind (expectTag ''node'' src3) (\<lambda>src4. Inr (name, name', names', src4))))))"

text \<open>The loop over the entries, over the parser of a node one level down.\<close>

primrec parseEntries ::
    "('s \<Rightarrow> CanonPath \<Rightarrow> bytes \<Rightarrow> 's \<times> (NarError + bytes)) \<Rightarrow> bool \<Rightarrow> CanonPath \<Rightarrow> nat \<Rightarrow> 's \<Rightarrow> (bytes \<times> nat) list \<Rightarrow> bytes \<Rightarrow> bytes \<Rightarrow>
     's \<times> (NarError + bytes)"
where
  "parseEntries node hack p 0 s names prevName src = (s, Inl EntriesFuel)"
| "parseEntries node hack p (Suc k) s names prevName src =
     (case readString narMaxTag src of
        Inl e \<Rightarrow> (s, Inl (WireFailed e))
      | Inr (tag, src1) \<Rightarrow>
          (if tag = '')'' then (s, Inr src1)
           else if tag \<noteq> ''entry'' then (s, Inl (UnexpectedTag tag))
           else case entryHead hack names prevName src1 of
                  Inl e \<Rightarrow> (s, Inl e)
                | Inr (name, name', names', src2) \<Rightarrow>
                    (case liftPath (slashName p name') of
                       Inl e \<Rightarrow> (s, Inl (FileAccess e))
                     | Inr p' \<Rightarrow>
                         (case node s p' src2 of
                            (s', Inl e) \<Rightarrow> (s', Inl e)
                          | (s', Inr src3) \<Rightarrow>
                              (case expectTag '')'' src3 of
                                 Inl e \<Rightarrow> (s', Inl e)
                               | Inr src4 \<Rightarrow> parseEntries node hack p k s' names' name src4)))))"

primrec parseNode ::
    "('s, 'c, NarError, bytes) FileSystemObjectSink \<Rightarrow> bool \<Rightarrow> nat \<Rightarrow> 's \<Rightarrow> CanonPath \<Rightarrow> bytes \<Rightarrow> 's \<times> (NarError + bytes)"
where
  "parseNode sink hack 0 s p src = (s, Inl DepthExceeded)"
| "parseNode sink hack (Suc d) s p src =
     (case ebind (expectTag ''('' src) (\<lambda>src1. ebind (expectTag ''type'' src1) (\<lambda>src2. wire (readString narMaxTag src2))) of
        Inl e \<Rightarrow> (s, Inl e)
      | Inr (ty, src3) \<Rightarrow>
          (if ty = ''regular'' then
             (case mkRegular sink s p (parseRegular sink src3) of (s', r) \<Rightarrow> (s', raised FileAccess r))
           else if ty = ''directory'' then
             (case mkDirectory sink s p of
                (s', Inl e) \<Rightarrow> (s', Inl (FileAccess e))
              | (s', Inr _) \<Rightarrow> parseEntries (parseNode sink hack d) hack p (Suc (length src3)) s' [] [] src3)
           else if ty = ''symlink'' then
             (case ebind (expectTag ''target'' src3) (\<lambda>src4. wire (readString narMaxTarget src4)) of
                Inl e \<Rightarrow> (s, Inl e)
              | Inr (tgt, src5) \<Rightarrow>
                  (if tgt = [] \<or> NUL \<in> set tgt then (s, Inl InvalidTarget)
                   else case mkSymlink sink s p tgt of
                          (s', Inl e) \<Rightarrow> (s', Inl (FileAccess e))
                        | (s', Inr _) \<Rightarrow> (s', expectTag '')'' src5)))
           else (s, Inl (UnknownType ty))))"

text \<open>An exception of the serialisation is dropped, and the version is then empty; the end of the input is another exception.\<close>

definition parseDump ::
    "('s, 'c, NarError, bytes) FileSystemObjectSink \<Rightarrow> bool \<Rightarrow> 's \<Rightarrow> bytes \<Rightarrow> 's \<times> (NarError + bytes)" where
  "parseDump sink hack s src =
     (case readString (length narVersionMagic1) src of
        Inl EndOfFile \<Rightarrow> (s, Inl (WireFailed EndOfFile))
      | Inl _ \<Rightarrow> (s, Inl NotAnArchive)
      | Inr (version, src1) \<Rightarrow>
          (if version \<noteq> narVersionMagic1 then (s, Inl NotAnArchive)
           else parseNode sink hack narMaxDepth s rootPath src1))"

text \<open>The copy parses into the sink that ignores everything, and passes on what it reads.\<close>

definition copyNAR :: "bool \<Rightarrow> bytes \<Rightarrow> NarError + bytes \<times> bytes" where
  "copyNAR hack src =
     ebind (snd (parseDump nullSink hack () src)) (\<lambda>rest. Inr (take (length src - length rest) src, rest))"

section \<open>The format\<close>

definition regularBody :: "bool \<Rightarrow> bytes \<Rightarrow> bytes" where
  "regularBody x c =
     (if x then writeString ''executable'' @ writeString [] else []) @ writeString ''contents'' @ writeString c @ writeString '')''"

fun nodeBytes :: "File \<Rightarrow> bytes" where
  "nodeBytes (Regular x c) = writeString ''('' @ writeString ''type'' @ writeString ''regular'' @ regularBody x c"
| "nodeBytes (Directory es) =
     writeString ''('' @ writeString ''type'' @ writeString ''directory'' @
     concat (map (\<lambda>e. writeString ''entry'' @ writeString ''('' @ writeString ''name'' @ writeString (fst e) @ writeString ''node'' @
       nodeBytes (snd e) @ writeString '')'') es) @ writeString '')''"
| "nodeBytes (Symlink t) =
     writeString ''('' @ writeString ''type'' @ writeString ''symlink'' @ writeString ''target'' @ writeString t @ writeString '')''"

definition entriesBytes :: "(bytes \<times> File) list \<Rightarrow> bytes" where
  "entriesBytes es =
     concat (map (\<lambda>e. writeString ''entry'' @ writeString ''('' @ writeString ''name'' @ writeString (fst e) @ writeString ''node'' @
       nodeBytes (snd e) @ writeString '')'') es) @ writeString '')''"

lemma entriesBytes_simps [simp]:
  "entriesBytes [] = writeString '')''"
  "entriesBytes ((n, f) # es) = writeString ''entry'' @ writeString ''('' @ writeString ''name'' @ writeString n @ writeString ''node'' @
     nodeBytes f @ writeString '')'' @ entriesBytes es"
  by (simp_all add: entriesBytes_def)

lemma nodeBytes_directory:
  "nodeBytes (Directory es) = writeString ''('' @ writeString ''type'' @ writeString ''directory'' @ entriesBytes es"
  by (simp add: entriesBytes_def)

definition narText :: "File \<Rightarrow> bytes" where
  "narText f = writeString narVersionMagic1 @ nodeBytes f"

text \<open>The trees that an archive can hold, with a number of levels.\<close>

primrec narOk :: "nat \<Rightarrow> File \<Rightarrow> bool" where
  "narOk 0 f = False"
| "narOk (Suc d) f =
     (case f of
        Regular x c \<Rightarrow> length c < 2 ^ 64
      | Symlink t \<Rightarrow> t \<noteq> [] \<and> NUL \<notin> set t \<and> length t \<le> narMaxTarget
      | Directory es \<Rightarrow>
          sorted_wrt (<) (map fst es) \<and> (\<forall>e \<in> set es. validName (fst e) \<and> length (fst e) \<le> narMaxName \<and> narOk d (snd e)))"

lemma narOk_wf: "narOk d f \<Longrightarrow> wfFile f"
proof (induction d arbitrary: f)
  case (Suc d)
  then show ?case by (cases f) auto
qed simp

section \<open>Tags\<close>

lemma readTag [simp]: "length t \<le> 32 \<Longrightarrow> readString narMaxTag (writeString t @ rest) = Inr (t, rest)"
  by (simp add: narMaxTag_def)

lemma expectTag_write [simp]: "length t \<le> 32 \<Longrightarrow> expectTag t (writeString t @ rest) = Inr rest"
  by (simp add: expectTag_def)

lemma expectTag_eq_Inr [bind_defs]: "expectTag t src = Inr rest \<longleftrightarrow> src = writeString t @ rest \<and> length t \<le> 32"
  by (auto simp: expectTag_def bind_defs readString_eq_Inr narMaxTag_def split: if_splits)

lemma readTag_eq_Inr: "readString narMaxTag src = Inr (t, rest) \<longleftrightarrow> src = writeString t @ rest \<and> length t \<le> 32"
  by (auto simp: readString_eq_Inr narMaxTag_def)

lemma validName_iff: "validName n \<longleftrightarrow> \<not> (n = [] \<or> n = ''.'' \<or> n = ''..'' \<or> SLASH \<in> set n \<or> NUL \<in> set n)"
  by (auto simp: validName_def isComp_def isName_def)

lemma contents_eq_Inr:
  "parseContents sink c src = (c', Inr rest) \<longleftrightarrow>
     (\<exists>d. src = writeString d @ rest \<and> length d < 2 ^ 64 \<and> c' = (if skipContents sink then c else crfReceive sink c d))"
proof
  assume "parseContents sink c src = (c', Inr rest)"
  then obtain n src1 where n: "readNum src = Inr (n, src1)" "c' = (if skipContents sink then c else crfReceive sink c (take n src1))"
      "ebind (readBytes n src1) (\<lambda>(_, src2). readPadding n src2) = Inr rest"
    by (auto simp: parseContents_def wire_eq_Inr split: sum.splits prod.splits)
  then obtain d src2 where "src1 = d @ src2" "length d = n" "src2 = writePadding n @ rest"
    by (auto simp: bind_defs readBytes_eq_Inr readPadding_eq_Inr)
  then show "\<exists>d. src = writeString d @ rest \<and> length d < 2 ^ 64 \<and> c' = (if skipContents sink then c else crfReceive sink c d)"
    using n(1,2) by (intro exI [of _ d]) (auto simp: readNum_eq_Inr writeString_def)
next
  assume "\<exists>d. src = writeString d @ rest \<and> length d < 2 ^ 64 \<and> c' = (if skipContents sink then c else crfReceive sink c d)"
  then obtain d where d: "src = writeString d @ rest" "length d < 2 ^ 64" "c' = (if skipContents sink then c else crfReceive sink c d)"
    by blast
  have "readNum src = Inr (length d, d @ writePadding (length d) @ rest)" using d(1,2) by (simp add: writeString_def readNum_write)
  moreover have "readPadding (length d) (writePadding (length d) @ rest) = Inr rest" by (simp add: readPadding_eq_Inr)
  ultimately show "parseContents sink c src = (c', Inr rest)" using d(3) by (simp add: parseContents_def readBytes_append)
qed

text \<open>The file that the callback makes of an open one.\<close>

definition received :: "('s, 'c, 'e, 'r) FileSystemObjectSink \<Rightarrow> bool \<Rightarrow> bytes \<Rightarrow> 'c \<Rightarrow> 'c" where
  "received sink x d c =
     (let c1 = (if x then crfSetExecutable sink c else c) in if skipContents sink then c1 else crfReceive sink c1 d)"

lemma regular_eq_Inr:
  "parseRegular sink src c = (c', Inr rest) \<longleftrightarrow>
     (\<exists>x d. src = regularBody x d @ rest \<and> length d < 2 ^ 64 \<and> c' = received sink x d c)"
proof
  assume a: "parseRegular sink src c = (c', Inr rest)"
  obtain tag src1 where r: "readString narMaxTag src = Inr (tag, src1)"
    using a by (cases "readString narMaxTag src") (auto simp: parseRegular_def)
  then have t: "src = writeString tag @ src1" "length tag \<le> 32" "readString narMaxTag src = Inr (tag, src1)"
    by (simp_all add: readTag_eq_Inr)
  show "\<exists>x d. src = regularBody x d @ rest \<and> length d < 2 ^ 64 \<and> c' = received sink x d c"
  proof (cases "tag = ''executable''")
    case True
    obtain b where "readString 0 src1 = Inr b"
      using a t(3) True by (cases "readString 0 src1") (simp_all add: parseRegular_def)
    then obtain s2 src2 where r0: "readString 0 src1 = Inr (s2, src2)" by (cases b) simp
    then have s2: "s2 = []" "src1 = writeString [] @ src2" by (simp_all add: readString_eq_Inr)
    obtain b where "readString narMaxTag src2 = Inr b"
      using a t(3) True r0 s2(1) by (cases "readString narMaxTag src2") (simp_all add: parseRegular_def)
    then obtain tag' src3 where r1: "readString narMaxTag src2 = Inr (tag', src3)" by (cases b) simp
    have r2: "tag' = ''contents''"
      using a t(3) True r0 s2(1) r1 by (simp add: parseRegular_def Let_def split: if_splits)
    have "(case parseContents sink (crfSetExecutable sink c) src3 of (c2, r) \<Rightarrow> (c2, ebind r (expectTag '')''))) = (c', Inr rest)"
      using a t(3) True r0 s2(1) r1 r2 by (simp add: parseRegular_def Let_def)
    then obtain src4 where s: "src1 = writeString [] @ src2" "src2 = writeString ''contents'' @ src3" "src4 = writeString '')'' @ rest"
        "parseContents sink (crfSetExecutable sink c) src3 = (c', Inr src4)"
      using s2(2) r1 r2 by (auto simp: bind_defs readTag_eq_Inr split: prod.splits)
    then obtain d where "src3 = writeString d @ src4" "length d < 2 ^ 64"
        "c' = (if skipContents sink then crfSetExecutable sink c else crfReceive sink (crfSetExecutable sink c) d)"
      by (auto simp: contents_eq_Inr)
    then show ?thesis using t(1) s(1-3) True by (intro exI [of _ True] exI [of _ d]) (simp add: regularBody_def received_def Let_def)
  next
    case False
    then have "tag = ''contents''" "(case parseContents sink c src1 of (c2, r) \<Rightarrow> (c2, ebind r (expectTag '')''))) = (c', Inr rest)"
      using a t(3) by (auto simp: parseRegular_def split: if_splits)
    then obtain src4 where s: "tag = ''contents''" "src4 = writeString '')'' @ rest" "parseContents sink c src1 = (c', Inr src4)"
      by (auto simp: bind_defs split: prod.splits)
    then obtain d where "src1 = writeString d @ src4" "length d < 2 ^ 64" "c' = (if skipContents sink then c else crfReceive sink c d)"
      by (auto simp: contents_eq_Inr)
    then show ?thesis using t(1) s(1,2) by (intro exI [of _ False] exI [of _ d]) (simp add: regularBody_def received_def Let_def)
  qed
next
  assume "\<exists>x d. src = regularBody x d @ rest \<and> length d < 2 ^ 64 \<and> c' = received sink x d c"
  then obtain x d where s: "src = regularBody x d @ rest" "length d < 2 ^ 64" "c' = received sink x d c" by blast
  have "parseContents sink (if x then crfSetExecutable sink c else c) (writeString d @ writeString '')'' @ rest) = (c', Inr (writeString '')'' @ rest))"
    using s(2,3) by (auto simp: contents_eq_Inr received_def Let_def)
  then show "parseRegular sink src c = (c', Inr rest)"
    by (cases x) (simp_all add: s(1) regularBody_def parseRegular_def)
qed

section \<open>What the parser accepts\<close>

lemma entryHead_sound:
  assumes "entryHead hack names prevName src = Inr (name, name', names', rest)"
  shows "src = writeString ''('' @ writeString ''name'' @ writeString name @ writeString ''node'' @ rest"
    "validName name" "length name \<le> narMaxName" "prevName < name"
  using assms by (auto simp: entryHead_def bind_defs readString_eq_Inr validName_iff split: if_splits)

lemma entryHead_plain:
  assumes "validName name" "length name \<le> narMaxName" "prevName < name"
  shows "entryHead False names prevName (writeString ''('' @ writeString ''name'' @ writeString name @ writeString ''node'' @ rest) =
    Inr (name, name, names, rest)"
proof -
  have "readString narMaxName (writeString name @ x) = Inr (name, x)" for x
    using assms(2) by (simp add: narMaxName_def)
  then show ?thesis using assms(1,3) by (auto simp: entryHead_def hackName_def validName_iff)
qed

definition entriesOk :: "nat \<Rightarrow> bytes \<Rightarrow> (bytes \<times> File) list \<Rightarrow> bool" where
  "entriesOk d prevName es =
     (sorted_wrt (<) (prevName # map fst es) \<and> (\<forall>e \<in> set es. validName (fst e) \<and> length (fst e) \<le> narMaxName \<and> narOk d (snd e)))"

lemma entriesOk_simps [simp]:
  "entriesOk d prevName []"
  "entriesOk d prevName ((n, f) # es) \<longleftrightarrow> prevName < n \<and> validName n \<and> length n \<le> narMaxName \<and> narOk d f \<and> entriesOk d n es"
  by (auto simp: entriesOk_def)

lemma entriesOk_start: "entriesOk d [] es \<longleftrightarrow> narOk (Suc d) (Directory es)"
  by (auto simp: entriesOk_def validName_iff neq_Nil_conv)

lemma entries_sound:
  assumes "\<And>s p src s' rest. node s p src = (s', Inr rest) \<Longrightarrow> \<exists>f. narOk d f \<and> src = nodeBytes f @ rest"
    and "parseEntries node hack p k s names prevName src = (s', Inr rest)"
  shows "\<exists>es. src = entriesBytes es @ rest \<and> entriesOk d prevName es"
  using assms(2)
proof (induction k arbitrary: s names prevName src)
  case (Suc k)
  obtain b where "readString narMaxTag src = Inr b" using Suc.prems by (cases "readString narMaxTag src") auto
  then obtain tag src1 where r1: "readString narMaxTag src = Inr (tag, src1)" by (cases b) simp
  then have src: "src = writeString tag @ src1" by (simp add: readTag_eq_Inr)
  show ?case
  proof (cases "tag = '')''")
    case True
    then show ?thesis using Suc.prems r1 src by (intro exI [of _ "[]"]) simp
  next
    case False
    then have tag: "tag = ''entry''" using Suc.prems r1 by (auto split: if_splits)
    obtain h where "entryHead hack names prevName src1 = Inr h"
      using Suc.prems r1 tag by (cases "entryHead hack names prevName src1") auto
    then obtain name name' names' src2 where h: "entryHead hack names prevName src1 = Inr (name, name', names', src2)" by (cases h) auto
    obtain p' where p': "liftPath (slashName p name') = Inr p'"
      using Suc.prems r1 tag h by (cases "liftPath (slashName p name')") auto
    obtain s1 r where n: "node s p' src2 = (s1, r)" by fastforce
    then obtain src3 where n: "node s p' src2 = (s1, Inr src3)" using Suc.prems r1 tag h p' by (cases r) auto
    obtain src4 where e: "expectTag '')'' src3 = Inr src4"
      using Suc.prems r1 tag h p' n by (cases "expectTag '')'' src3") auto
    have "parseEntries node hack p k s1 names' name src4 = (s', Inr rest)"
      using Suc.prems r1 tag h p' n e by simp
    then obtain es where es: "src4 = entriesBytes es @ rest" "entriesOk d name es" using Suc.IH by blast
    obtain f where f: "narOk d f" "src2 = nodeBytes f @ src3" using assms(1) [OF n] by blast
    have "src3 = writeString '')'' @ src4" using e by (simp add: expectTag_eq_Inr)
    then show ?thesis
      using entryHead_sound [OF h] es f src tag by (intro exI [of _ "(name, f) # es"]) simp
  qed
qed simp

locale nar_sink = fs_sink sink ready put holds
  for sink :: "('s, 'c, NarError, bytes) FileSystemObjectSink" and ready put holds
begin

lemma node_sound: "parseNode sink hack d s p src = (s', Inr rest) \<Longrightarrow> \<exists>f. narOk d f \<and> src = nodeBytes f @ rest"
proof (induction d arbitrary: s p src s' rest)
  case (Suc d)
  let ?head = "ebind (expectTag ''('' src) (\<lambda>src1. ebind (expectTag ''type'' src1) (\<lambda>src2. wire (readString narMaxTag src2)))"
  obtain b where "?head = Inr b" using Suc.prems by (cases ?head) auto
  then obtain ty src3 where h: "?head = Inr (ty, src3)" by (cases b) simp
  then have src: "src = writeString ''('' @ writeString ''type'' @ writeString ty @ src3"
    by (auto simp: bind_defs readTag_eq_Inr)
  consider "ty = ''regular''" | "ty = ''directory''" | "ty = ''symlink''" using Suc.prems h by (auto split: if_splits)
  then show ?case
  proof cases
    case 1
    obtain s1 r where m: "mkRegular sink s p (parseRegular sink src3) = (s1, r)" by fastforce
    then have "raised FileAccess r = Inr rest" using Suc.prems h 1 by simp
    then have "r = Inr rest" by (simp add: bind_defs)
    then obtain c where "snd (parseRegular sink src3 c) = Inr rest" using callback [of s p _ s1 rest] m by blast
    then obtain c' where "parseRegular sink src3 c = (c', Inr rest)" by (cases "parseRegular sink src3 c") simp
    then obtain x e where "src3 = regularBody x e @ rest" "length e < 2 ^ 64" by (auto simp: regular_eq_Inr)
    then show ?thesis using src 1 by (intro exI [of _ "Regular x e"]) simp
  next
    case 2
    obtain s1 r where m: "mkDirectory sink s p = (s1, r)" by fastforce
    then have "parseEntries (parseNode sink hack d) hack p (Suc (length src3)) s1 [] [] src3 = (s', Inr rest)"
      using Suc.prems h 2 by (cases r) simp_all
    from entries_sound [OF _ this] Suc.IH obtain es where "src3 = entriesBytes es @ rest" "entriesOk d [] es" by blast
    then show ?thesis using src 2 unfolding entriesOk_start by (intro exI [of _ "Directory es"]) (simp only: nodeBytes_directory append_assoc simp_thms)
  next
    case 3
    let ?tgt = "ebind (expectTag ''target'' src3) (\<lambda>src4. wire (readString narMaxTarget src4))"
    obtain b where "?tgt = Inr b" using Suc.prems h 3 by (cases ?tgt) auto
    then obtain t src5 where t: "?tgt = Inr (t, src5)" by (cases b) simp
    obtain s1 r where m: "mkSymlink sink s p t = (s1, r)" by fastforce
    have ok: "t \<noteq> []" "NUL \<notin> set t" "expectTag '')'' src5 = Inr rest"
      using Suc.prems h 3 t m by (cases r; auto split: if_splits)+
    have "src3 = writeString ''target'' @ writeString t @ src5" "length t \<le> narMaxTarget"
      using t by (auto simp: bind_defs readString_eq_Inr)
    then show ?thesis using src 3 ok by (intro exI [of _ "Symlink t"]) (simp add: expectTag_eq_Inr)
  qed
qed simp

lemma regular_holds:
  assumes "holds c False []"
  shows "holds (received sink x d c) x d"
proof -
  have "holds (if x then crfSetExecutable sink c else c) x []" using assms executable by (cases x) auto
  then show ?thesis using receive skip by (fastforce simp: received_def Let_def)
qed

lemma entries_complete:
  assumes "\<And>n g s rest. (n, g) \<in> set es \<Longrightarrow> ready s (cs @ [n]) \<Longrightarrow>
      \<exists>s'. node s (canonical (cs @ [n])) (nodeBytes g @ rest) = (s', Inr rest) \<and> put s (cs @ [n]) g s'"
    and "put s0 cs (Directory made) s" "sorted_wrt (<) (map fst (made @ es))" "entriesOk d prevName es" "length es < k" "validPath cs"
  shows "\<exists>s'. parseEntries node False (canonical cs) k s names prevName (entriesBytes es @ rest) = (s', Inr rest) \<and>
    put s0 cs (Directory (made @ es)) s'"
  using assms
proof (induction es arbitrary: made s prevName k)
  case Nil
  then show ?case by (cases k) simp_all
next
  case (Cons e es)
  obtain n g k' where e: "e = (n, g)" "k = Suc k'" using Cons.prems(5) by (cases e; cases k) auto
  have less: "\<forall>m \<in> fst ` set made. m < n" using Cons.prems(3) e by (auto simp: sorted_wrt_append)
  have ok: "prevName < n" "validName n" "length n \<le> narMaxName" "entriesOk d n es" using Cons.prems(4) e by auto
  have path: "liftPath (slashName (canonical cs) n) = Inr (canonical (cs @ [n]))"
    using ok(2) Cons.prems(6) by (simp add: slashName_def push_valid)
  obtain s1 where s1: "node s (canonical (cs @ [n])) (nodeBytes g @ writeString '')'' @ entriesBytes es @ rest) =
      (s1, Inr (writeString '')'' @ entriesBytes es @ rest))" "put s (cs @ [n]) g s1"
    using Cons.prems(1) [of n g s] ready_entry [OF Cons.prems(2) less] e by (metis list.set_intros(1))
  have "\<exists>s'. parseEntries node False (canonical cs) k' s1 names n (entriesBytes es @ rest) = (s', Inr rest) \<and>
      put s0 cs (Directory ((made @ [(n, g)]) @ es)) s'"
    by (rule Cons.IH [OF _ put_entry [OF Cons.prems(2) s1(2) less] _ ok(4)]) (use Cons.prems e in auto)
  moreover have "parseEntries node False (canonical cs) k s names prevName (entriesBytes (e # es) @ rest) =
      parseEntries node False (canonical cs) k' s1 names n (entriesBytes es @ rest)"
    using entryHead_plain [OF ok(2,3,1), of names "nodeBytes g @ writeString '')'' @ entriesBytes es @ rest"] path s1(1)
    by (simp add: e)
  ultimately show ?case using e by simp
qed

lemma node_complete:
  assumes "narOk d f" "ready s cs" "validPath cs"
  shows "\<exists>s'. parseNode sink False d s (canonical cs) (nodeBytes f @ rest) = (s', Inr rest) \<and> put s cs f s'"
  using assms
proof (induction d arbitrary: f s cs rest)
  case (Suc d)
  note rdy = Suc.prems(2,3)
  show ?case
  proof (cases f)
    case (Regular x c)
    let ?func = "parseRegular sink (regularBody x c @ rest)"
    have "\<exists>k'. ?func k = (k', Inr rest) \<and> holds k' x c" if "holds k False []" for k
      using regular_holds [OF that, of x c] Suc.prems(1) Regular
      by (intro exI [of _ "received sink x c k"]) (auto simp: regular_eq_Inr)
    from regular [where func = ?func, OF rdy this] show ?thesis by (auto simp: Regular)
  next
    case (Symlink t)
    then have "readString narMaxTarget (writeString t @ x) = Inr (t, x)" for x
      using Suc.prems(1) by (simp add: narMaxTarget_def)
    then show ?thesis using symlink [OF rdy, of t] Suc.prems(1) by (auto simp: Symlink)
  next
    case (Directory es)
    obtain s1 where s1: "mkDirectory sink s (canonical cs) = (s1, Inr ())" "put s cs (Directory []) s1" using directory [OF rdy] by blast
    have ok: "entriesOk d [] es" "sorted_wrt (<) (map fst ([] @ es))" using Suc.prems(1) Directory entriesOk_start [of d es] by auto
    have "length es \<le> length (entriesBytes es)" by (induction es) (auto simp: writeString_def)
    then have len: "length es < Suc (length (entriesBytes es @ rest))" by simp
    have "\<exists>s'. parseNode sink False d s (canonical (cs @ [n])) (nodeBytes g @ rest) = (s', Inr rest) \<and> put s (cs @ [n]) g s'"
      if "(n, g) \<in> set es" "ready s (cs @ [n])" for n g s rest
      by (rule Suc.IH) (use that ok(1) Suc.prems(3) in \<open>auto simp: entriesOk_def\<close>)
    from entries_complete [OF this s1(2) ok(2,1) len Suc.prems(3), of "[]" rest] show ?thesis
      using s1(1) by (simp add: Directory nodeBytes_directory del: nodeBytes.simps(2) parseEntries.simps)
  qed
qed simp

lemma dump_complete:
  assumes "narOk narMaxDepth f" "ready s []"
  shows "\<exists>s'. parseDump sink False s (narText f @ rest) = (s', Inr rest) \<and> put s [] f s'"
proof -
  have "readString (length narVersionMagic1) (writeString narVersionMagic1 @ x) = Inr (narVersionMagic1, x)" for x
    by (simp add: narVersionMagic1_def)
  moreover have "rootPath = canonical []" by (simp add: rootPath_def canonical_def)
  ultimately show ?thesis using node_complete [OF assms, of rest] by (simp add: parseDump_def narText_def)
qed

lemma dump_sound:
  assumes "parseDump sink hack s src = (s', Inr rest)"
  shows "\<exists>f. narOk narMaxDepth f \<and> src = narText f @ rest"
proof -
  obtain src1 where r: "readString (length narVersionMagic1) src = Inr (narVersionMagic1, src1)"
      "parseNode sink hack narMaxDepth s rootPath src1 = (s', Inr rest)"
    using assms by (auto simp: parseDump_def split: sum.splits WireError.splits if_splits)
  from node_sound [OF r(2)] r(1) show ?thesis by (auto simp: narText_def readString_eq_Inr)
qed

end

interpretation memory_nar: nar_sink memorySink memoryReady stored "\<lambda>c x d. c = (x, d)"
  by unfold_locales

interpretation null_nar: nar_sink nullSink "\<lambda>_ _. True" "\<lambda>_ _ _ _. True" "\<lambda>_ _ _. True"
  by unfold_locales

section \<open>The loop over the entries has enough fuel\<close>

lemma expectTag_fuel [simp]: "expectTag t src \<noteq> Inl EntriesFuel"
  by (auto simp: expectTag_def wire_def ebind_eq_Inl split: sum.splits if_splits)

lemma wire_fuel [simp]: "wire r \<noteq> Inl EntriesFuel"
  by (simp add: wire_def split: sum.splits)

lemma hackName_fuel [simp]: "hackName hack names name \<noteq> Inl EntriesFuel"
  by (auto simp: hackName_def Let_def split: option.splits)

lemma entryHead_fuel [simp]: "entryHead hack names prevName src \<noteq> Inl EntriesFuel"
  by (auto simp: entryHead_def ebind_eq_Inl split: prod.splits if_splits)

lemma regular_fuel: "snd (parseRegular sink src c) \<noteq> Inl EntriesFuel"
proof -
  have c: "snd (parseContents sink c1 s) \<noteq> Inl EntriesFuel" for c1 s
    by (auto simp: parseContents_def Let_def split: sum.splits prod.splits)
  then have "snd (case parseContents sink c1 s of (c2, r) \<Rightarrow> (c2, ebind r (expectTag '')''))) \<noteq> Inl EntriesFuel" for c1 s
    using c [of c1 s] by (cases "parseContents sink c1 s"; cases "snd (parseContents sink c1 s)") auto
  then show ?thesis
    by (auto simp: parseRegular_def Let_def ebind_eq_Inl wire_def split: sum.splits prod.splits if_splits)
qed

lemma entries_fuel:
  assumes "\<And>s p src. snd (node s p src) \<noteq> Inl EntriesFuel"
    and "\<And>s p src s' rest. node s p src = (s', Inr rest) \<Longrightarrow> length rest \<le> length src"
    and "length src < k"
  shows "snd (parseEntries node hack p k s names prevName src) \<noteq> Inl EntriesFuel"
  using assms(3)
proof (induction k arbitrary: s names prevName src)
  case (Suc k)
  show ?case
  proof (cases "readString narMaxTag src")
    case (Inr b)
    obtain tag src1 where r: "readString narMaxTag src = Inr (tag, src1)" using Inr by (cases b) simp
    show ?thesis
    proof (cases "entryHead hack names prevName src1")
      case (Inr h)
      obtain name name' names' src2 where h: "entryHead hack names prevName src1 = Inr (name, name', names', src2)"
        using Inr by (cases h) auto
      show ?thesis
      proof (cases "liftPath (slashName p name')")
        case (Inr p')
        obtain s1 q where n: "node s p' src2 = (s1, q)" by fastforce
        show ?thesis
        proof (cases q)
          case (Inl e)
          then show ?thesis using r h Inr n assms(1) [of s p' src2] by simp
        next
          case q: (Inr src3)
          show ?thesis
          proof (cases "expectTag '')'' src3")
            case (Inl e)
            then show ?thesis using r h \<open>liftPath _ = _\<close> n q expectTag_fuel [of "'')''" src3] by simp
          next
            case e: (Inr src4)
            have "length src1 < length src" using r by (auto simp: readTag_eq_Inr writeString_def)
            moreover have "length src2 < length src1" using entryHead_sound(1) [OF h] by (simp add: writeString_def)
            moreover have "length src3 \<le> length src2" by (rule assms(2)) (use n q in simp)
            moreover have "length src4 \<le> length src3" using e by (simp add: expectTag_eq_Inr)
            ultimately have "length src4 < k" using Suc.prems by simp
            then show ?thesis using r h \<open>liftPath _ = _\<close> n q e Suc.IH [of src4] by simp
          qed
        qed
      qed (simp add: r h)
    qed (use r entryHead_fuel [of hack names prevName src1] in simp)
  qed simp
qed simp

context nar_sink
begin

lemma node_fuel: "snd (parseNode sink hack d s p src) \<noteq> Inl EntriesFuel"
proof (induction d arbitrary: s p src)
  case (Suc d)
  have e: "snd (parseEntries (parseNode sink hack d) hack p (Suc (length src)) s1 [] [] src) \<noteq> Inl EntriesFuel" for s1 src
  proof (rule entries_fuel [OF Suc.IH])
    fix s p src s' rest assume "parseNode sink hack d s p src = (s', Inr rest)"
    from node_sound [OF this] show "length rest \<le> length src" by auto
  qed simp
  have m: "snd (case mkRegular sink s p (parseRegular sink src3) of (s', r) \<Rightarrow> (s', raised FileAccess r)) \<noteq> Inl EntriesFuel" for src3
  proof -
    obtain s1 r where m: "mkRegular sink s p (parseRegular sink src3) = (s1, r)" by fastforce
    have "r \<noteq> Inl (Inr EntriesFuel)"
    proof
      assume "r = Inl (Inr EntriesFuel)"
      then obtain c where "snd (parseRegular sink src3 c) = Inl EntriesFuel" using exception m by blast
      then show False using regular_fuel [of sink src3 c] by simp
    qed
    then show ?thesis using m by (auto simp: raised_def split: sum.splits)
  qed
  let ?head = "ebind (expectTag ''('' src) (\<lambda>src1. ebind (expectTag ''type'' src1) (\<lambda>src2. wire (readString narMaxTag src2)))"
  show ?case
  proof (cases ?head)
    case (Inl x)
    moreover have "?head \<noteq> Inl EntriesFuel" by (auto simp: ebind_eq_Inl)
    ultimately show ?thesis by simp
  next
    case (Inr b)
    then obtain ty src3 where h: "?head = Inr (ty, src3)" by (cases b) simp
    let ?tgt = "ebind (expectTag ''target'' src3) (\<lambda>src4. wire (readString narMaxTarget src4))"
    have t: "?tgt \<noteq> Inl EntriesFuel" by (auto simp: ebind_eq_Inl)
    show ?thesis
    proof (cases "ty = ''regular''")
      case True
      then show ?thesis using h m [of src3] by simp
    next
      case False
      then show ?thesis using h e [of src3] t by (auto split: prod.splits sum.splits simp del: parseEntries.simps)
    qed
  qed
qed simp

end

section \<open>Dumping a tree in memory\<close>

lemma mapE_cases:
  assumes "\<And>x. x \<in> set xs \<Longrightarrow> f x = (if ok x then Inr (g x) else Inl e)"
  shows "mapE f xs = (if \<forall>x \<in> set xs. ok x then Inr (map g xs) else Inl e)"
  using assms by (induction xs) auto

lemma insort_last: "(\<forall>y \<in> set ys. fst y < fst x) \<Longrightarrow> insort_key fst x ys = ys @ [x]"
  by (induction ys) auto

lemma unhack_plain:
  "sorted_wrt (<) (map fst done' @ ns) \<Longrightarrow> unhackEntries False ns done' = Inr (done' @ map (\<lambda>n. (n, n)) ns)"
proof (induction ns arbitrary: done')
  case (Cons n ns)
  have "\<forall>y \<in> set done'. fst y < n" using Cons.prems by (auto simp: sorted_wrt_append)
  then have "insort_key fst (n, n) done' = done' @ [(n, n)]" by (simp add: insort_last)
  then show ?case using Cons.IH [of "done' @ [(n, n)]"] Cons.prems by simp
qed simp

lemma dump_memory:
  assumes "wfFile f" "lookRoot root cs = Some f" "validPath cs" "validPath fs"
  shows "dumpNode False (\<lambda>_. True) (memoryAccessor root) d (canonical cs) (canonical fs) =
    (if levels d f then Inr (nodeBytes f) else Inl DepthExceeded)"
  using assms
proof (induction d arbitrary: f cs fs)
  case (Suc d)
  note at = memory_at [OF Suc.prems(3,2)]
  show ?case
  proof (cases f)
    case (Regular x c)
    then show ?thesis using at(1) at(2) [OF Regular] by (simp add: dumpContents_def writeString_def regularBody_def)
  next
    case (Symlink t)
    then show ?thesis using at(1) at(3) [OF Symlink] by simp
  next
    case (Directory es)
    have sorted: "sorted_wrt (<) (map fst es)" using Suc.prems(1) Directory by simp
    let ?entry = "\<lambda>(name, entry). ebind (fileAccess (liftPath (slashName (canonical fs) name))) (\<lambda>k.
        if True then ebind (fileAccess (liftPath (slashName (canonical cs) entry))) (\<lambda>p'.
          ebind (fileAccess (liftPath (slashName (canonical fs) entry))) (\<lambda>fp'.
            ebind (dumpNode False (\<lambda>_. True) (memoryAccessor root) d p' fp') (\<lambda>b.
              Inr (writeString ''entry'' @ writeString ''('' @ writeString ''name'' @ writeString name @ writeString ''node'' @ b @ writeString '')''))))
        else Inr [])"
    have e: "?entry (n, n) = (if levels d g then
          Inr (writeString ''entry'' @ writeString ''('' @ writeString ''name'' @ writeString n @ writeString ''node'' @ nodeBytes g @ writeString '')'')
        else Inl DepthExceeded)" if "(n, g) \<in> set es" for n g
    proof -
      have v: "validName n" "wfFile g" using Suc.prems(1) Directory that by auto
      have "map_of es n = Some g" using that sorted by (simp add: strict_sorted_iff)
      then have "lookRoot root (cs @ [n]) = Some g" using Suc.prems(2) Directory lookRoot_entry by blast
      from Suc.IH [OF v(2) this, of "fs @ [n]"] show ?thesis
        using v(1) Suc.prems(3,4) by (simp add: slashName_def push_valid)
    qed
    have "mapE ?entry (map (\<lambda>n. (n, n)) (map fst es)) = mapE (\<lambda>e. ?entry (fst e, fst e)) es"
      by (induction es) simp_all
    also have "\<dots> = (if \<forall>x \<in> set es. levels d (snd x) then Inr (map (\<lambda>e. writeString ''entry'' @ writeString ''('' @ writeString ''name'' @
        writeString (fst e) @ writeString ''node'' @ nodeBytes (snd e) @ writeString '')'') es) else Inl DepthExceeded)"
    proof (rule mapE_cases)
      fix x assume "x \<in> set es"
      then show "?entry (fst x, fst x) = (if levels d (snd x) then
          Inr (writeString ''entry'' @ writeString ''('' @ writeString ''name'' @ writeString (fst x) @ writeString ''node'' @
            nodeBytes (snd x) @ writeString '')'') else Inl DepthExceeded)"
        using e [of "fst x" "snd x"] unfolding prod.collapse by blast
    qed
    finally show ?thesis
      using at(1) at(4) [OF Directory] entryNames_sorted [OF sorted] unhack_plain [of "[]" "map fst es"] sorted
      by (simp add: Directory)
  qed
qed simp

lemma narOk_levels: "narOk d f \<Longrightarrow> levels d f"
proof (induction d arbitrary: f)
  case (Suc d)
  then show ?case by (cases f) auto
qed simp

section \<open>Properties of the format\<close>

lemma rootPath_canonical: "rootPath = canonical []"
  by (simp add: rootPath_def canonical_def)

lemma stored_root: "stored root [] f root' \<Longrightarrow> root' = Some f"
  by (auto simp: stored_def created_def)

lemma fresh_root: "memoryReady None []"
  by (simp add: memoryReady_def fresh_def wfRoot_def)

lemma parse_written: "narOk narMaxDepth f \<Longrightarrow> parseDump memorySink False None (narText f @ rest) = (Some f, Inr rest)"
proof -
  assume "narOk narMaxDepth f"
  then obtain root' where r: "parseDump memorySink False None (narText f @ rest) = (root', Inr rest)" "stored None [] f root'"
    using memory_nar.dump_complete [OF _ fresh_root] by blast
  have "root' = Some f" by (rule stored_root [OF r(2)])
  then show ?thesis using r(1) by simp
qed

lemma narText_inject:
  assumes "narOk narMaxDepth f" "narOk narMaxDepth g" "narText f @ x = narText g @ y"
  shows "f = g \<and> x = y"
proof -
  have "(Some f, Inr x) = parseDump memorySink False None (narText f @ x)" by (rule parse_written [OF assms(1), symmetric])
  also have "\<dots> = parseDump memorySink False None (narText g @ y)" by (simp only: assms(3))
  also have "\<dots> = (Some g, Inr y)" by (rule parse_written [OF assms(2)])
  finally show ?thesis by simp
qed

text \<open>
  C6: An archive is accepted exactly when it is the archive of a tree within the limits, and what the parser has then
  built in an empty memory accessor is that tree: every tree has one archive, no archive has two readings, and no
  archive is the beginning of another.
\<close>
theorem nar_accepted:
  "parseDump memorySink False None src = (root', Inr rest) \<longleftrightarrow>
     (\<exists>f. narOk narMaxDepth f \<and> src = narText f @ rest \<and> root' = Some f)"
proof
  assume a: "parseDump memorySink False None src = (root', Inr rest)"
  from memory_nar.dump_sound [OF a] obtain f where "narOk narMaxDepth f" "src = narText f @ rest" by blast
  then show "\<exists>f. narOk narMaxDepth f \<and> src = narText f @ rest \<and> root' = Some f"
    using a parse_written [of f rest] by auto
qed (use parse_written in auto)

text \<open>
  C14: Dumping a tree in memory writes its archive when it has at most 64 levels, and fails on a deeper one; within the
  limits on names, targets and sizes the parser restores exactly that tree, and leaves what follows the archive.
\<close>
theorem nar_roundtrip:
  assumes "wfFile f"
  shows "dumpPath False (\<lambda>_. True) (memoryAccessor (Some f)) rootPath =
      (if levels narMaxDepth f then Inr (narText f) else Inl DepthExceeded) \<and>
    (narOk narMaxDepth f \<longrightarrow> parseDump memorySink False None (narText f @ rest) = (Some f, Inr rest))"
proof -
  have "lookRoot (Some f) [] = Some f" by (simp add: lookRoot_def)
  from dump_memory [OF assms this, of "[]" narMaxDepth] show ?thesis
    using parse_written [of f rest] by (simp add: dumpPath_def rootPath_canonical narText_def)
qed

definition sampleTree :: File where
  "sampleTree = Directory [(''a'', Regular True ''hello''), (''d'', Directory [(''l'', Symlink ''../a'')])]"

lemma sampleTree_ok: "narOk narMaxDepth sampleTree"
  by code_simp

lemma sampleTree_wf: "wfFile sampleTree"
  by (simp add: sampleTree_def validName_def isComp_def isName_def)

lemma nar_roundtrip_witness:
  "dumpPath False (\<lambda>_. True) (memoryAccessor (Some sampleTree)) rootPath =
      (if levels narMaxDepth sampleTree then Inr (narText sampleTree) else Inl DepthExceeded) \<and>
    parseDump memorySink False None (narText sampleTree @ ''x'') = (Some sampleTree, Inr ''x'')"
  using nar_roundtrip [OF sampleTree_wf, of "''x''"] sampleTree_ok by blast

text \<open>
  Copying an archive passes on exactly one archive of a tree within the limits, byte for byte, and leaves
  the rest of the input; any other input is an exception.
\<close>
theorem copy_nar:
  "copyNAR False src = Inr (n, rest) \<longleftrightarrow> (\<exists>f. narOk narMaxDepth f \<and> n = narText f \<and> src = n @ rest)"
proof
  assume "copyNAR False src = Inr (n, rest)"
  then have "snd (parseDump nullSink False () src) = Inr rest" and n: "n = take (length src - length rest) src"
    by (auto simp: copyNAR_def bind_defs)
  then have "parseDump nullSink False () src = ((), Inr rest)" by (cases "parseDump nullSink False () src") simp
  from null_nar.dump_sound [OF this] n show "\<exists>f. narOk narMaxDepth f \<and> n = narText f \<and> src = n @ rest" by auto
next
  assume "\<exists>f. narOk narMaxDepth f \<and> n = narText f \<and> src = n @ rest"
  then obtain f where f: "narOk narMaxDepth f" "n = narText f" "src = n @ rest" by blast
  have "snd (parseDump nullSink False () src) = Inr rest"
    using null_nar.dump_complete [OF f(1), of "()" rest] f(2,3) by auto
  then show "copyNAR False src = Inr (n, rest)" using f(3) by (simp add: copyNAR_def)
qed

text \<open>
  Parsing always ends: the loop over the entries of a directory never exhausts the fuel given by the length of
  its input, in the sink that writes into memory and in the one that ignores everything, whatever the input is.
\<close>
theorem parse_terminates:
  "snd (parseDump memorySink hack root src) \<noteq> Inl EntriesFuel \<and> snd (parseDump nullSink hack s src) \<noteq> Inl EntriesFuel"
proof
  show "snd (parseDump memorySink hack root src) \<noteq> Inl EntriesFuel"
    using memory_nar.node_fuel [of hack narMaxDepth root rootPath]
    by (simp add: parseDump_def split: sum.split WireError.split prod.split)
  show "snd (parseDump nullSink hack s src) \<noteq> Inl EntriesFuel"
    using null_nar.node_fuel [of hack narMaxDepth s rootPath]
    by (simp add: parseDump_def split: sum.split WireError.split prod.split)
qed

text \<open>What the dump writes is not always accepted: links without a target are dumped and refused.\<close>

lemma dump_refused:
  "(case dumpPath False (\<lambda>_. True) (memoryAccessor (Some (Symlink []))) rootPath of
      Inr n \<Rightarrow> snd (parseDump memorySink False None n) = Inl InvalidTarget
    | Inl _ \<Rightarrow> False)"
  by code_simp

text \<open>
  With the case hack, an entry whose name is the one that the hack gave to an earlier entry is not noticed when it
  comes later: both get the same name.
\<close>

lemma hack_collision:
  "hackName True [(''A'', 0)] ''a'' = Inr (''a~nix~case~hack~1'', [(''A'', 1)]) \<and>
   hackName True [(''A'', 1)] ''a~nix~case~hack~1'' = Inr (''a~nix~case~hack~1'', [(''A'', 1), (''a~nix~case~hack~1'', 0)])"
  by code_simp

end
