(* ===== verification/Base_N.thy ===== *)
theory Base_N
  imports Tx_Prelude
begin

unbundle bit_operations_syntax

text \<open>
  The text encodings of binary data (\<^verbatim>\<open>src/libutil/base-n.cc\<close> and
  \<^verbatim>\<open>src/libutil/base-nix-32.cc\<close>): base 16, base 64 and Nix's own base 32, which reads the
  bytes as one little-endian number and prints its digits from the highest. Binary data is a list of
  8-bit words, text is a byte string. The accumulators of base 64 are the 32-bit machine integers of
  the code, which lose their high bits when shifted. The counters of base 16 and base 32 have 32 bits as
  well: their products wrap at \<open>2 ^ 32\<close>, and a loop that compares one of them with a larger size never
  ends, which is the result \<open>Unending\<close>. The multiplication of the signed counter of the base 32 encoder
  is undefined in C++ from \<open>2 ^ 31\<close> on; the theorems about it stay below.
\<close>

type_synonym octets = "8 word list"

datatype BaseError = InvalidCharacter char | AssertionFailed | Unending

text \<open>\<^verbatim>\<open>map[characters[i]] = i\<close> for all \<open>i\<close>: the last index wins.\<close>

definition reverseMap :: "bytes \<Rightarrow> char \<Rightarrow> nat option" where
  "reverseMap characters = map_of (rev (zip characters [0..<length characters]))"

section \<open>Base 16\<close>

definition base16Chars :: bytes where
  "base16Chars = ''0123456789abcdef''"

definition base16_encodedLength :: "nat \<Rightarrow> nat" where
  "base16_encodedLength origSize = origSize * 2"

definition base16_encode :: "octets \<Rightarrow> bytes" where
  "base16_encode bs = concat (map (\<lambda>b. [base16Chars ! unat (drop_bit 4 b), base16Chars ! unat (b AND 0x0f)]) bs)"

definition parseHexDigit :: "char \<Rightarrow> BaseError + nat" where
  "parseHexDigit c =
     (if CHR ''0'' \<le> c \<and> c \<le> CHR ''9'' then Inr (of_char c - of_char CHR ''0'')
      else if CHR ''A'' \<le> c \<and> c \<le> CHR ''F'' then Inr (of_char c - of_char CHR ''A'' + 10)
      else if CHR ''a'' \<le> c \<and> c \<le> CHR ''f'' then Inr (of_char c - of_char CHR ''a'' + 10)
      else Inl (InvalidCharacter c))"

text \<open>The counter \<^verbatim>\<open>unsigned int i\<close> of the decoder, and the indices \<^verbatim>\<open>i * 2\<close> it computes.\<close>

definition base16_pair :: "bytes \<Rightarrow> nat \<Rightarrow> BaseError + 8 word" where
  "base16_pair s i =
     ebind (parseHexDigit (s ! (i * 2 mod 2 ^ 32))) (\<lambda>x.
     ebind (parseHexDigit (s ! ((i * 2 + 1) mod 2 ^ 32))) (\<lambda>y. Inr (of_nat (push_bit 4 x OR y))))"

definition base16_decode :: "bytes \<Rightarrow> BaseError + octets" where
  "base16_decode s =
     (if odd (length s) then Inl AssertionFailed
      else let decodedSize = length s div 2 in
        ebind (mapE (base16_pair s) [0..<min decodedSize (2 ^ 32)]) (\<lambda>res.
          if decodedSize < 2 ^ 32 then Inr res else Inl Unending))"

section \<open>Base 64\<close>

definition base64Chars :: bytes where
  "base64Chars = ''ABCDEFGHIJKLMNOPQRSTUVWXYZabcdefghijklmnopqrstuvwxyz0123456789+/''"

definition base64_encodedLength :: "nat \<Rightarrow> nat" where
  "base64_encodedLength origSize = (4 * origSize div 3 + 3) div 4 * 4"

text \<open>
  \<open>base64_drain\<close> is the inner \<^verbatim>\<open>while (nbits >= 6)\<close>; it returns the characters it appends and the
  bits that stay. The shift of the signed \<^verbatim>\<open>data\<close> to the right is arithmetic.
\<close>

definition base64_digit :: "32 word \<Rightarrow> nat \<Rightarrow> char" where
  "base64_digit data n = base64Chars ! unat (signed_drop_bit n data AND 0x3f)"

fun base64_drain :: "32 word \<Rightarrow> nat \<Rightarrow> bytes \<times> nat" where
  "base64_drain data nbits =
     (if nbits < 6 then ([], nbits)
      else let (cs, n) = base64_drain data (nbits - 6) in (base64_digit data (nbits - 6) # cs, n))"

declare base64_drain.simps [simp del]

primrec base64_loop :: "octets \<Rightarrow> 32 word \<Rightarrow> nat \<Rightarrow> bytes" where
  "base64_loop [] data nbits =
     (if nbits = 0 then [] else [base64Chars ! unat (push_bit (6 - nbits) data AND 0x3f)])"
| "base64_loop (c # s) data nbits =
     (let data' = push_bit 8 data OR ucast c; (cs, n) = base64_drain data' (nbits + 8)
      in cs @ base64_loop s data' n)"

text \<open>The final \<^verbatim>\<open>while (res.size() % 4)\<close>.\<close>

definition base64_pad :: "bytes \<Rightarrow> bytes" where
  "base64_pad res = res @ replicate ((4 - length res mod 4) mod 4) CHR ''=''"

definition base64_encode :: "octets \<Rightarrow> bytes" where
  "base64_encode s = base64_pad (base64_loop s 0 0)"

primrec base64_decodeLoop :: "bytes \<Rightarrow> 32 word \<Rightarrow> nat \<Rightarrow> BaseError + octets" where
  "base64_decodeLoop [] d bits = Inr []"
| "base64_decodeLoop (c # s) d bits =
     (if c = CHR ''='' then Inr []
      else if c = CHR 0x0A then base64_decodeLoop s d bits
      else case reverseMap base64Chars c of
        None \<Rightarrow> Inl (InvalidCharacter c)
      | Some digit \<Rightarrow>
          let bits' = bits + 6; d' = push_bit 6 d OR of_nat digit in
          if 8 \<le> bits' then
            ebind (base64_decodeLoop s d' (bits' - 8)) (\<lambda>res.
              Inr (ucast (drop_bit (bits' - 8) d' AND 0xff) # res))
          else base64_decodeLoop s d' bits')"

definition base64_decode :: "bytes \<Rightarrow> BaseError + octets" where
  "base64_decode s = base64_decodeLoop s 0 0"

section \<open>Nix's base 32\<close>

definition nix32Chars :: bytes where
  "nix32Chars = ''0123456789abcdfghijklmnpqrsvwxyz''"

definition nix32_lookupReverse :: "char \<Rightarrow> nat option" where
  "nix32_lookupReverse c = reverseMap nix32Chars c"

text \<open>The subtraction wraps for empty data.\<close>

definition nix32_encodedLength :: "nat \<Rightarrow> nat" where
  "nix32_encodedLength originalLength = (originalLength * 8 + (2 ^ 64 - 1)) mod 2 ^ 64 div 5 + 1"

text \<open>The conversion of a size to \<^verbatim>\<open>int\<close>, and the bit offset of a digit.\<close>

definition intOf :: "nat \<Rightarrow> int" where
  "intOf n = (int n + 2 ^ 31) mod 2 ^ 32 - 2 ^ 31"

definition digitOffset :: "nat \<Rightarrow> nat" where
  "digitOffset n = n * 5 mod 2 ^ 32"

definition nix32_encodeDigit :: "octets \<Rightarrow> nat \<Rightarrow> char" where
  "nix32_encodeDigit bs n =
     (let b = digitOffset n; i = b div 8; j = b mod 8;
          c = drop_bit j (bs ! i) OR (if i \<ge> length bs - 1 then 0 else push_bit (8 - j) (bs ! (i + 1)))
      in nix32Chars ! unat (c AND 0x1f))"

definition nix32_encode :: "octets \<Rightarrow> bytes" where
  "nix32_encode bs =
     (if bs = [] then []
      else map (nix32_encodeDigit bs) (rev [0..<nat (intOf (nix32_encodedLength (length bs)))]))"

text \<open>One turn of the decoding loop; \<^verbatim>\<open>resize\<close> may also cut, and appends zeros.\<close>

definition nix32_decodeDigit :: "nat \<Rightarrow> nat \<Rightarrow> octets \<Rightarrow> octets" where
  "nix32_decodeDigit n digit res =
     (let b = digitOffset n; i = b div 8; j = b mod 8;
          res1 = resize res (i + 1) 0;
          res2 = res1[i := (res1 ! i) OR of_nat (push_bit j digit)]
      in if drop_bit (8 - j) digit \<noteq> 0 then
           (let res3 = resize res2 (i + 2) 0 in res3[i + 1 := (res3 ! (i + 1)) OR of_nat (drop_bit (8 - j) digit)])
         else res2)"

primrec nix32_decodeLoop :: "bytes \<Rightarrow> nat \<Rightarrow> octets \<Rightarrow> BaseError + octets" where
  "nix32_decodeLoop [] n res = Inr res"
| "nix32_decodeLoop (c # s) n res =
     (case nix32_lookupReverse c of
        None \<Rightarrow> Inl (InvalidCharacter c)
      | Some digit \<Rightarrow> nix32_decodeLoop s (n + 1) (nix32_decodeDigit n digit res))"

text \<open>
  The characters are taken from the last to the first. After \<open>2 ^ 32\<close> turns the counter is zero again, and
  the same characters are read once more.
\<close>

definition nix32_decode :: "bytes \<Rightarrow> BaseError + octets" where
  "nix32_decode s =
     (if length s < 2 ^ 32 then nix32_decodeLoop (rev s) 0 []
      else ebind (nix32_decodeLoop (take (2 ^ 32) (rev s)) 0 []) (\<lambda>_. Inl Unending))"

section \<open>Bits\<close>

text \<open>The low \<open>n\<close> bits of a number, the highest first: what one digit or byte stands for in the stream.\<close>

definition lowbits :: "nat \<Rightarrow> 'a::semiring_bit_operations \<Rightarrow> bool list" where
  "lowbits n w = map (bit w) (rev [0..<n])"

lemma length_lowbits [simp]: "length (lowbits n w) = n"
  by (simp add: lowbits_def)

lemma lowbits_0 [simp]: "lowbits 0 w = []"
  by (simp add: lowbits_def)

lemma lowbits_eq_iff: "lowbits n v = lowbits n w \<longleftrightarrow> (\<forall>i < n. bit v i = bit w i)"
  by (auto simp: lowbits_def)

lemma lowbits_split: "lowbits (n + k) w = lowbits n (drop_bit k w) @ lowbits k w"
proof -
  have "[0..<n + k] = [0..<k] @ map (\<lambda>i. i + k) [0..<n]"
    using upt_add_eq_append [of 0 k n] by (simp add: map_add_upt add.commute)
  then show ?thesis by (simp add: lowbits_def rev_map bit_drop_bit_eq comp_def add.commute)
qed

lemma lowbits_or:
  fixes d x :: "'a::len word"
  assumes "n + k \<le> LENGTH('a)" "\<And>i. k \<le> i \<Longrightarrow> \<not> bit x i"
  shows "lowbits (n + k) (push_bit k d OR x) = lowbits n d @ lowbits k x"
  unfolding lowbits_split using assms
  by (auto simp: lowbits_eq_iff bit_simps)

lemma reverseMap_eq_Some:
  assumes "distinct cs"
  shows "reverseMap cs c = Some i \<longleftrightarrow> i < length cs \<and> cs ! i = c"
proof -
  have "distinct (map fst (rev (zip cs [0..<length cs])))" using assms by (simp flip: rev_map)
  then show ?thesis unfolding reverseMap_def by (auto simp: map_of_eq_Some_iff in_set_zip)
qed

lemma base64Chars_props: "length base64Chars = 64" "distinct base64Chars" "CHR ''='' \<notin> set base64Chars" "CHR 0x0A \<notin> set base64Chars"
  by (simp_all add: base64Chars_def)

lemma nix32Chars_props: "length nix32Chars = 32" "distinct nix32Chars"
  by (simp_all add: nix32Chars_def)

lemma all_less_Suc: "(\<forall>i < Suc n. P i) \<longleftrightarrow> P n \<and> (\<forall>i < n. P i)"
  by (auto simp: less_Suc_eq)

section \<open>Base 16\<close>

lemma parseHexDigit_chars: "n < 16 \<Longrightarrow> parseHexDigit (base16Chars ! n) = Inr n"
proof -
  have "\<forall>i < 16. parseHexDigit (base16Chars ! i) = Inr i" by code_simp
  then show "n < 16 \<Longrightarrow> ?thesis" by simp
qed

lemma nibbles:
  fixes b :: "8 word"
  shows "of_nat (push_bit 4 (unat (drop_bit 4 b)) OR unat (b AND 0x0f)) = b"
proof -
  have "b AND 0x0f = take_bit 4 b" using take_bit_eq_mask [of 4 b] by (simp add: mask_eq_exp_minus_1)
  then have "push_bit 4 (unat (drop_bit 4 b)) OR unat (b AND 0x0f) = unat b"
    by (intro bit_eqI) (auto simp: bit_simps unsigned_drop_bit_eq unsigned_take_bit_eq dest: bit_imp_le_length)
  then show ?thesis by simp
qed

lemma unat_lt2p': "unat (w :: 'a::len word) < 2 ^ LENGTH('a)"
  by (rule unsigned_less)

lemma nibbles_less: "unat (drop_bit 4 (b :: 8 word)) < 16" "unat (b AND 0x0f) < 16"
proof -
  show "unat (drop_bit 4 b) < 16" using unat_lt2p' [of b] by (simp add: drop_bit_eq_div unat_div)
  show "unat (b AND 0x0f) < 16"
    using word_and_le1 [of b "0x0f"] by (simp add: word_le_nat_alt)
qed

text \<open>The pairs of a text without a counter; the decoder reads the same ones while the counter does not wrap.\<close>

fun hexPairs :: "bytes \<Rightarrow> BaseError + octets" where
  "hexPairs (a # b # s) =
     ebind (parseHexDigit a) (\<lambda>x. ebind (parseHexDigit b) (\<lambda>y. ebind (hexPairs s) (\<lambda>res.
       Inr (of_nat (push_bit 4 x OR y) # res))))"
| "hexPairs _ = Inr []"

lemma base16_pair_Suc:
  "i * 2 + 3 < 2 ^ 32 \<Longrightarrow> base16_pair (a # b # s) (Suc i) = base16_pair s i"
  by (simp add: base16_pair_def)

lemma base16_pairs:
  assumes "even (length s)" "length s \<le> 2 ^ 32"
  shows "mapE (base16_pair s) [0..<length s div 2] = hexPairs s"
  using assms
proof (induction s rule: hexPairs.induct)
  case (1 a b s)
  have l: "length s + 2 \<le> 4294967296" "even (length s)" using "1.prems" by simp_all
  have "mapE (base16_pair (a # b # s)) (map Suc [0..<length s div 2]) = mapE (base16_pair s) [0..<length s div 2]"
    unfolding mapE_map by (rule mapE_cong) (use l base16_pair_Suc in auto)
  also have "\<dots> = hexPairs s" using "1.IH" l by auto
  finally have rest: "mapE (base16_pair (a # b # s)) (map Suc [0..<length s div 2]) = hexPairs s" .
  have is': "[0..<length (a # b # s) div 2] = 0 # map Suc [0..<length s div 2]"
    by (simp add: upt_conv_Cons map_Suc_upt del: upt_Suc)
  have first: "base16_pair (a # b # s) 0 = ebind (parseHexDigit a) (\<lambda>x. ebind (parseHexDigit b) (\<lambda>y. Inr (of_nat (push_bit 4 x OR y))))"
    by (simp add: base16_pair_def)
  show ?case unfolding is' mapE.simps rest first hexPairs.simps
    by (cases "parseHexDigit a"; cases "parseHexDigit b") simp_all
qed simp_all

lemma base16_decode_pairs:
  assumes "length s \<le> 2 ^ 32"
  shows "base16_decode s = (if odd (length s) then Inl AssertionFailed else hexPairs s)"
proof -
  have "length s div 2 < 4294967296" using assms by simp
  then show ?thesis using base16_pairs [of s] assms by (simp add: base16_decode_def Let_def min_def ebind_Inr_right)
qed

lemma hexPairs_encode: "hexPairs (base16_encode bs) = Inr bs"
proof (induction bs)
  case (Cons b bs)
  have "base16_encode (b # bs) = base16Chars ! unat (drop_bit 4 b) # base16Chars ! unat (b AND 0x0f) # base16_encode bs"
    by (simp add: base16_encode_def)
  then show ?case using Cons nibbles [of b] nibbles_less [of b] by (simp add: parseHexDigit_chars)
qed (simp add: base16_encode_def)

lemma length_base16_encode: "length (base16_encode bs) = base16_encodedLength (length bs)"
  by (induction bs) (simp_all add: base16_encode_def base16_encodedLength_def)

lemma base16_decode_encode: "length bs \<le> 2 ^ 31 \<Longrightarrow> base16_decode (base16_encode bs) = Inr bs"
  by (simp add: base16_decode_pairs hexPairs_encode length_base16_encode base16_encodedLength_def)

text \<open>From \<open>2 ^ 32\<close> bytes on the loop never ends.\<close>

lemma base16_decode_unending:
  assumes "2 ^ 33 \<le> length s"
  shows "base16_decode s \<noteq> Inr r"
  using assms by (auto simp: base16_decode_def Let_def bind_defs split: if_splits)

section \<open>Base 64\<close>

definition bits6 :: "nat list \<Rightarrow> bool list" where
  "bits6 ds = concat (map (lowbits 6) ds)"

definition bits8 :: "octets \<Rightarrow> bool list" where
  "bits8 bs = concat (map (lowbits 8) bs)"

lemma bits_simps [simp]:
  "bits6 [] = []" "bits6 (d # ds) = lowbits 6 d @ bits6 ds" "bits6 (ds @ es) = bits6 ds @ bits6 es"
  "bits8 [] = []" "bits8 (b # bs) = lowbits 8 b @ bits8 bs"
  by (simp_all add: bits6_def bits8_def)

lemma length_bits [simp]: "length (bits6 ds) = 6 * length ds" "length (bits8 bs) = 8 * length bs"
  by (induction ds, simp_all, induction bs, simp_all)

lemma byte_eqI: "lowbits 8 (v :: 8 word) = lowbits 8 w \<Longrightarrow> v = w"
  by (intro bit_word_eqI) (simp add: lowbits_eq_iff)

text \<open>A stream of whole bytes determines them, whatever less than a byte follows.\<close>

lemma bits8_inj:
  assumes "bits8 bs @ r = bits8 cs @ t" "length r < 8" "length t < 8"
  shows "bs = cs"
  using assms
proof (induction bs arbitrary: cs)
  case Nil
  then have "length r = 8 * length cs + length t" by (metis append_Nil bits_simps(4) length_append length_bits(2))
  then show ?case using Nil by (cases cs) auto
next
  case (Cons b bs)
  have "8 * Suc (length bs) + length r = 8 * length cs + length t"
    using arg_cong [OF Cons.prems(1), of length] by simp
  then obtain c cs' where cs: "cs = c # cs'" using Cons.prems(3) by (cases cs) auto
  then have "lowbits 8 b = lowbits 8 c" "bits8 bs @ r = bits8 cs' @ t" using Cons.prems(1) by simp_all
  then show ?case using Cons cs byte_eqI by blast
qed

lemma bit_word_of_nat: "bit (of_nat x :: 'a::len word) i \<longleftrightarrow> i < LENGTH('a) \<and> bit x i"
  by transfer (simp add: bit_of_nat_iff)

lemma bit_masks [simp]: "bit (63 :: int) i \<longleftrightarrow> i < 6" "bit (255 :: int) i \<longleftrightarrow> i < 8"
  using bit_mask_iff [where 'a = int and m = 6 and n = i] bit_mask_iff [where 'a = int and m = 8 and n = i]
  by (simp_all add: mask_eq_exp_minus_1)

lemma sextet:
  fixes w :: "32 word"
  shows "unat (w AND 0x3f) < 64" "bit (unat (w AND 0x3f)) i \<longleftrightarrow> i < 6 \<and> bit w i"
proof -
  have m: "w AND 0x3f = take_bit 6 w" using take_bit_eq_mask [of 6 w] by (simp add: mask_eq_exp_minus_1)
  show "unat (w AND 0x3f) < 64" using word_and_le1 [of w "0x3f"] by (simp add: word_le_nat_alt)
  show "bit (unat (w AND 0x3f)) i \<longleftrightarrow> i < 6 \<and> bit w i"
    unfolding m by (auto simp: bit_simps unsigned_take_bit_eq dest: bit_imp_le_length)
qed

lemma base64_digit_lowbits:
  assumes "n + 6 \<le> 32"
  shows "lowbits 6 (unat (signed_drop_bit n data AND 0x3f :: 32 word)) = lowbits 6 (drop_bit n data)"
  unfolding lowbits_eq_iff sextet(2) using assms by (auto simp: bit_simps)

lemma base64_drain_bits:
  assumes "nbits < 32" "base64_drain data nbits = (cs, n)"
  shows "n < 6 \<and> (\<exists>ds. cs = map ((!) base64Chars) ds \<and> (\<forall>d \<in> set ds. d < 64) \<and> bits6 ds @ lowbits n data = lowbits nbits data)"
  using assms
proof (induction data nbits arbitrary: cs n rule: base64_drain.induct)
  case (1 data nbits)
  show ?case
  proof (cases "nbits < 6")
    case True
    then have "cs = []" "n = nbits" using "1.prems" base64_drain.simps [of data nbits] by auto
    then show ?thesis using True by simp
  next
    case False
    obtain cs' where r: "base64_drain data (nbits - 6) = (cs', n)" "cs = base64_digit data (nbits - 6) # cs'"
      using "1.prems"(2) False base64_drain.simps [of data nbits] by (auto split: prod.splits)
    have "nbits - 6 < 32" using "1.prems"(1) by simp
    from "1.IH" [OF False this r(1)] obtain ds where n: "n < 6" and
      ds: "cs' = map ((!) base64Chars) ds" "\<forall>d \<in> set ds. d < 64" "bits6 ds @ lowbits n data = lowbits (nbits - 6) data"
      by auto
    let ?d = "unat (signed_drop_bit (nbits - 6) data AND 0x3f)"
    have "lowbits 6 ?d @ lowbits (nbits - 6) data = lowbits nbits data"
      using base64_digit_lowbits [of "nbits - 6" data] lowbits_split [of 6 "nbits - 6" data] "1.prems"(1) False by simp
    then show ?thesis using n ds r(2) sextet(1)
      by (intro conjI exI [of _ "?d # ds"]) (auto simp: base64_digit_def)
  qed
qed

lemma ucast_byte: "bit (ucast (c :: 8 word) :: 32 word) i \<longleftrightarrow> bit c i"
  by (auto simp: bit_simps dest: bit_imp_le_length)

lemma lowbits_ucast: "lowbits n (ucast (c :: 8 word) :: 32 word) = lowbits n c"
  by (simp add: lowbits_eq_iff ucast_byte)

lemma base64_loop_bits:
  assumes "nbits < 6"
  shows "\<exists>ds k. base64_loop s data nbits = map ((!) base64Chars) ds \<and> (\<forall>d \<in> set ds. d < 64) \<and> k < 6 \<and>
    bits6 ds = lowbits nbits data @ bits8 s @ replicate k False"
  using assms
proof (induction s arbitrary: data nbits)
  case Nil
  show ?case
  proof (cases "nbits = 0")
    case True
    then show ?thesis by (intro exI [of _ "[]"] exI [of _ 0]) simp
  next
    case False
    let ?d = "unat (push_bit (6 - nbits) data AND 0x3f)"
    have "lowbits (nbits + (6 - nbits)) ?d = lowbits nbits data @ replicate (6 - nbits) False"
    proof -
      have "lowbits nbits (drop_bit (6 - nbits) ?d) = lowbits nbits data"
        unfolding lowbits_eq_iff bit_drop_bit_eq comp_def sextet(2) using Nil by (auto simp: bit_simps)
      moreover have "\<not> bit ?d i" if "i < 6 - nbits" for i
        unfolding sextet(2) using that by (simp add: bit_simps)
      ultimately show ?thesis unfolding lowbits_split
        by (auto simp: lowbits_def rev_nth intro!: nth_equalityI)
    qed
    then show ?thesis using Nil False sextet(1)
      by (intro exI [of _ "[?d]"] exI [of _ "6 - nbits"]) simp
  qed
next
  case (Cons c s)
  let ?data = "push_bit 8 data OR ucast c"
  obtain cs n where dr: "base64_drain ?data (nbits + 8) = (cs, n)" by (cases "base64_drain ?data (nbits + 8)")
  then obtain ds where n: "n < 6" and ds: "cs = map ((!) base64Chars) ds" "\<forall>d \<in> set ds. d < 64"
    "bits6 ds @ lowbits n ?data = lowbits (nbits + 8) ?data"
    using base64_drain_bits [of "nbits + 8" ?data cs n] Cons.prems by auto
  obtain es k where es: "base64_loop s ?data n = map ((!) base64Chars) es" "\<forall>d \<in> set es. d < 64" "k < 6"
    "bits6 es = lowbits n ?data @ bits8 s @ replicate k False"
    using Cons.IH [OF n] by blast
  have "lowbits (nbits + 8) ?data = lowbits nbits data @ lowbits 8 c"
    using Cons.prems by (subst lowbits_or) (auto simp: lowbits_ucast ucast_byte dest: bit_imp_le_length)
  then show ?case using dr ds es by (intro exI [of _ "ds @ es"] exI [of _ k]) (auto simp: Let_def)
qed

lemma bit_nat_less: "bit (x :: nat) i \<Longrightarrow> x < 64 \<Longrightarrow> i < 6"
  using bit_take_bit_iff [of 6 x i] take_bit_nat_eq_self [of x 6] by simp

lemma byte_of_word: "lowbits 8 (ucast (w AND 0xff :: 32 word) :: 8 word) = lowbits 8 w"
  unfolding lowbits_eq_iff bit_ucast_iff bit_and_iff by simp

lemma base64_decodeLoop_bits:
  assumes "\<forall>d \<in> set ds. d < 64" "bits < 8"
  shows "\<exists>bs r. base64_decodeLoop (map ((!) base64Chars) ds @ replicate p CHR ''='') d bits = Inr bs \<and> length r < 8 \<and>
    bits8 bs @ r = lowbits bits d @ bits6 ds"
  using assms
proof (induction ds arbitrary: d bits)
  case Nil
  then show ?case by (cases p) auto
next
  case (Cons x ds)
  let ?d = "push_bit 6 d OR of_nat x"
  have x: "x < 64" using Cons.prems by simp
  have c: "base64Chars ! x \<noteq> CHR ''=''" "base64Chars ! x \<noteq> CHR 0x0A" "reverseMap base64Chars (base64Chars ! x) = Some x"
    using x base64Chars_props by (auto simp: reverseMap_eq_Some in_set_conv_nth)
  have bx: "bit (of_nat x :: 32 word) i \<longleftrightarrow> bit x i" for i
    using x take_bit_nat_eq_self [of x 6] by (auto simp: bit_word_of_nat dest: bit_nat_less)
  have l: "lowbits (bits + 6) ?d = lowbits bits d @ lowbits 6 x"
    using Cons.prems(2) x by (subst lowbits_or) (auto simp: lowbits_eq_iff bx dest: bit_nat_less)
  show ?case
  proof (cases "8 \<le> bits + 6")
    case True
    let ?b = "ucast (drop_bit (bits + 6 - 8) ?d AND 0xff) :: 8 word"
    obtain bs r where "base64_decodeLoop (map ((!) base64Chars) ds @ replicate p CHR ''='') ?d (bits + 6 - 8) = Inr bs" "length r < 8"
       "bits8 bs @ r = lowbits (bits + 6 - 8) ?d @ bits6 ds"
      using Cons.IH [of "bits + 6 - 8" ?d] Cons.prems by force
    moreover have "lowbits (bits + 6) ?d = lowbits 8 ?b @ lowbits (bits + 6 - 8) ?d"
      using True lowbits_split [of 8 "bits + 6 - 8" ?d] byte_of_word [of "drop_bit (bits + 6 - 8) ?d"] by (simp add: add.commute)
    ultimately show ?thesis using True c l by (intro exI [of _ "?b # bs"] exI [of _ r]) (simp add: Let_def)
  next
    case False
    then show ?thesis using Cons.IH [of "bits + 6" ?d] Cons.prems c l by (simp add: Let_def)
  qed
qed


lemma base64_decode_encode: "base64_decode (base64_encode s) = Inr s"
proof -
  obtain ds k where ds: "base64_loop s 0 0 = map ((!) base64Chars) ds" "\<forall>d \<in> set ds. d < 64" "k < 6"
    "bits6 ds = bits8 s @ replicate k False"
    using base64_loop_bits [of 0 s 0] by auto
  obtain p where "base64_encode s = map ((!) base64Chars) ds @ replicate p CHR ''=''"
    by (simp add: base64_encode_def base64_pad_def ds(1))
  moreover obtain bs r where bs: "base64_decodeLoop (map ((!) base64Chars) ds @ replicate p CHR ''='') 0 0 = Inr bs"
    "length r < 8" "bits8 bs @ r = bits8 s @ replicate k False"
    using base64_decodeLoop_bits [OF ds(2), of 0 p 0] ds(4) by auto
  ultimately show ?thesis using bits8_inj [OF bs(3)] ds(3) bs(2) by (simp add: base64_decode_def)
qed

lemma pad4: "n + (4 - n mod 4) mod 4 = (n + 3) div 4 * (4 :: nat)"
proof -
  obtain q r where "n = 4 * q + r" "r < 4" using div_mult_mod_eq [of n 4] by (metis mod_less_divisor mult.commute zero_less_numeral)
  then have "r = 0 \<or> r = 1 \<or> r = 2 \<or> r = 3" by auto
  then show ?thesis using \<open>n = 4 * q + r\<close> by auto
qed

lemma base64_size:
  assumes "6 * m = 8 * n + k" "k < 6"
  shows "(m + 3) div 4 * 4 = (4 * n div 3 + 3) div 4 * (4 :: nat)"
proof -
  obtain q r where n: "n = 3 * q + r" "r < 3" using div_mult_mod_eq [of n 3] by (metis mod_less_divisor mult.commute zero_less_numeral)
  then consider "r = 0" | "r = 1" | "r = 2" by linarith
  then show ?thesis
  proof cases
    case 1
    then have "m = 4 * q" "4 * n div 3 = 4 * q" using assms n by auto
    then show ?thesis by simp
  next
    case 2
    then have "m = 4 * q + 2" "4 * n div 3 = 4 * q + 1" using assms n by auto
    then show ?thesis by simp
  next
    case 3
    then have "m = 4 * q + 3" "4 * n div 3 = 4 * q + 2" using assms n by auto
    then show ?thesis by simp
  qed
qed

lemma length_base64_encode: "length (base64_encode s) = base64_encodedLength (length s)"
proof -
  obtain ds k where ds: "base64_loop s 0 0 = map ((!) base64Chars) ds" "k < 6" "bits6 ds = bits8 s @ replicate k False"
    using base64_loop_bits [of 0 s 0] by auto
  have m: "6 * length ds = 8 * length s + k" using arg_cong [OF ds(3), of length] by simp
  have "length ds + (4 - length ds mod 4) mod 4 = (length ds + 3) div 4 * 4" by (rule pad4)
  also have "\<dots> = (4 * length s div 3 + 3) div 4 * 4" using m ds(2) by (rule base64_size)
  finally show ?thesis by (simp add: base64_encode_def base64_pad_def base64_encodedLength_def ds(1))
qed

text \<open>
  Decoding reads the text up to the first \<^verbatim>\<open>=\<close>, line feeds aside, and fails at the first other
  character that is not in the alphabet.
\<close>

lemma base64_decodeLoop_error:
  "base64_decodeLoop s d bits = Inl e \<longleftrightarrow>
     (\<exists>c. find (\<lambda>c. c \<notin> set base64Chars) (filter (\<lambda>c. c \<noteq> CHR 0x0A) (takeWhile (\<lambda>c. c \<noteq> CHR ''='') s)) = Some c \<and> e = InvalidCharacter c)"
proof (induction s arbitrary: d bits)
  case (Cons x s)
  show ?case
  proof (cases "reverseMap base64Chars x")
    case None
    then have "x \<notin> set base64Chars"
      using reverseMap_eq_Some [OF base64Chars_props(2), of x] by (auto simp: in_set_conv_nth)
    then show ?thesis using None Cons.IH by auto
  next
    case (Some digit)
    then have "x \<in> set base64Chars" using reverseMap_eq_Some [OF base64Chars_props(2), of x digit] nth_mem by blast
    then have "x \<noteq> CHR ''=''" "x \<noteq> CHR 0x0A" "x \<in> set base64Chars" using base64Chars_props by auto
    then have *: "base64_decodeLoop (x # s) d bits = Inl e \<longleftrightarrow>
        base64_decodeLoop s (push_bit 6 d OR of_nat digit) (if 8 \<le> bits + 6 then bits + 6 - 8 else bits + 6) = Inl e"
      using Some by (cases "8 \<le> bits + 6") (simp_all only: base64_decodeLoop.simps Let_def ebind_eq_Inl if_True if_False option.case, simp_all add: ebind_eq_Inl)
    show ?thesis unfolding * Cons.IH using \<open>x \<noteq> CHR ''=''\<close> \<open>x \<noteq> CHR 0x0A\<close> \<open>x \<in> set base64Chars\<close> by simp
  qed
qed simp


section \<open>Nix's base 32\<close>

text \<open>The bits of the data read as one little-endian number.\<close>

definition bitAt :: "octets \<Rightarrow> nat \<Rightarrow> bool" where
  "bitAt bs k = (k div 8 < length bs \<and> bit (bs ! (k div 8)) (k mod 8))"

lemma bitAt_eqI:
  assumes "length bs = length cs" "\<And>k. k < 8 * length bs \<Longrightarrow> bitAt bs k = bitAt cs k"
  shows "bs = cs"
proof (rule nth_equalityI [OF assms(1)])
  fix i assume i: "i < length bs"
  show "bs ! i = cs ! i"
  proof (rule bit_word_eqI)
    fix t assume "t < LENGTH(8)"
    then have "8 * i + t < 8 * length bs" "(8 * i + t) div 8 = i" "(8 * i + t) mod 8 = t" using i by auto
    then show "bit (bs ! i) t = bit (cs ! i) t"
      using assms(2) [of "8 * i + t"] i assms(1) by (simp add: bitAt_def)
  qed
qed

lemma quintet:
  fixes w :: "8 word"
  shows "unat (w AND 0x1f) < 32" "bit (unat (w AND 0x1f)) i \<longleftrightarrow> i < 5 \<and> bit w i"
proof -
  have m: "w AND 0x1f = take_bit 5 w" using take_bit_eq_mask [of 5 w] by (simp add: mask_eq_exp_minus_1)
  show "unat (w AND 0x1f) < 32" using word_and_le1 [of w "0x1f"] by (simp add: word_le_nat_alt)
  show "bit (unat (w AND 0x1f)) i \<longleftrightarrow> i < 5 \<and> bit w i"
    unfolding m by (auto simp: bit_simps unsigned_take_bit_eq dest: bit_imp_le_length)
qed

lemma split8: "a = 8 * q + r \<Longrightarrow> r < 8 \<Longrightarrow> a div 8 = q \<and> a mod 8 = (r :: nat)"
  by simp

lemma digitOffset_small: "n * 5 < 2 ^ 32 \<Longrightarrow> digitOffset n = n * 5"
  by (simp add: digitOffset_def)

lemma intOf_small: "n < 2 ^ 31 \<Longrightarrow> nat (intOf n) = n"
  by (simp add: intOf_def)

lemma nix32_encodedLength_pos: "0 < n \<Longrightarrow> n \<le> 2 ^ 60 \<Longrightarrow> nix32_encodedLength n = (n * 8 - 1) div 5 + 1"
proof -
  assume n: "0 < n" "n \<le> 2 ^ 60"
  then have "n * 8 + (2 ^ 64 - 1) = (n * 8 - 1) + 2 ^ 64" "n * 8 - 1 < 2 ^ 64" by simp_all
  then show ?thesis by (simp only: nix32_encodedLength_def mod_add_self2 mod_less)
qed

text \<open>The digit \<open>n\<close> is the five bits from \<open>5 * n\<close> on.\<close>

lemma nix32_encodeDigit_bits:
  assumes "n * 5 div 8 < length bs" "n * 5 < 2 ^ 32"
  shows "\<exists>d < 32. nix32_encodeDigit bs n = nix32Chars ! d \<and> (\<forall>t. bit d t \<longleftrightarrow> t < 5 \<and> bitAt bs (5 * n + t))"
proof -
  let ?i = "n * 5 div 8" and ?j = "n * 5 mod 8"
  let ?c = "drop_bit ?j (bs ! ?i) OR (if ?i \<ge> length bs - 1 then 0 else push_bit (8 - ?j) (bs ! (?i + 1)))"
  have b: "bit ?c t \<longleftrightarrow> bitAt bs (5 * n + t)" if t: "t < 5" for t
  proof (cases "?j + t < 8")
    case True
    have "5 * n + t = 8 * ?i + (?j + t)" by (simp add: mult.commute)
    then have "(5 * n + t) div 8 = ?i" "(5 * n + t) mod 8 = ?j + t" using split8 True by blast+
    then show ?thesis using assms True t by (auto simp: bitAt_def bit_simps)
  next
    case False
    have "5 * n + t = 8 * (?i + 1) + (?j + t - 8)" using False by (simp add: mult.commute)
    moreover have "?j + t - 8 < 8" using t by simp
    ultimately have k: "(5 * n + t) div 8 = ?i + 1" "(5 * n + t) mod 8 = ?j + t - 8" using split8 by blast+
    have "\<not> bit (bs ! ?i) (?j + t)" using False by (auto dest: bit_imp_le_length)
    then have "bit ?c t \<longleftrightarrow> \<not> length bs - 1 \<le> ?i \<and> bit (push_bit (8 - ?j) (bs ! (?i + 1))) t"
      by (simp add: bit_or_iff bit_drop_bit_eq)
    also have "bit (push_bit (8 - ?j) (bs ! (?i + 1))) t \<longleftrightarrow> bit (bs ! (?i + 1)) (?j + t - 8)"
    proof -
      have "t - (8 - ?j) = ?j + t - 8" "8 - ?j \<le> t" using False by auto
      then show ?thesis using t by (simp only: bit_push_bit_iff) simp
    qed
    finally show ?thesis using assms unfolding bitAt_def k by auto
  qed
  show ?thesis using quintet [of ?c] b
    by (intro exI [of _ "unat (?c AND 0x1f)"]) (auto simp: nix32_encodeDigit_def Let_def digitOffset_small [OF assms(2)])
qed

text \<open>A turn of the decoding loop sets the five bits of its digit.\<close>

lemma bitAt_resize_zero: "length res \<le> m \<Longrightarrow> bitAt (resize res m 0) k = bitAt res k"
  by (auto simp: bitAt_def nth_resize split: if_splits)

lemma bitAt_update_or:
  assumes "i < length res"
  shows "bitAt (res[i := (res ! i) OR w]) k \<longleftrightarrow> bitAt res k \<or> (k div 8 = i \<and> bit w (k mod 8))"
  using assms by (auto simp: bitAt_def nth_list_update bit_or_iff)

lemma bit_of_nat_word8: "bit (of_nat x :: 8 word) t \<longleftrightarrow> t < 8 \<and> bit x t"
  by (simp add: bit_word_of_nat)

lemma digit_bit: "(d::nat) < 32 \<Longrightarrow> bit d t \<Longrightarrow> t < 5"
  using bit_take_bit_iff [of 5 d t] take_bit_nat_eq_self [of d 5] by simp

lemma carry_bits:
  assumes "(d::nat) < 32" "b = 8 * i + j" "j < 8"
  shows "b \<le> k \<and> bit d (k - b) \<longleftrightarrow>
    (k div 8 = i \<and> j \<le> k mod 8 \<and> bit d (k mod 8 - j)) \<or> (k div 8 = i + 1 \<and> bit d (8 - j + k mod 8))"
  (is "?l \<longleftrightarrow> ?r")
proof
  assume l: ?l
  then have x: "k - b < 5" using digit_bit [OF assms(1)] by blast
  show ?r
  proof (cases "j + (k - b) < 8")
    case True
    have "k = 8 * i + (j + (k - b))" using l assms by simp
    from split8 [OF this True] have "k div 8 = i" "k mod 8 - j = k - b" "j \<le> k mod 8" using l by auto
    then show ?thesis using l by simp
  next
    case False
    have "k = 8 * (i + 1) + (j + (k - b) - 8)" "j + (k - b) - 8 < 8" using l False x assms by auto
    from split8 [OF this] have "k div 8 = i + 1" "8 - j + k mod 8 = k - b" using l False assms by auto
    then show ?thesis using l by simp
  qed
next
  have k: "k = 8 * (k div 8) + k mod 8" by simp
  assume ?r
  then show ?l
  proof
    assume r: "k div 8 = i \<and> j \<le> k mod 8 \<and> bit d (k mod 8 - j)"
    then have "k - b = k mod 8 - j" "b \<le> k" using k assms(2) by auto
    then show ?thesis using r by simp
  next
    assume r: "k div 8 = i + 1 \<and> bit d (8 - j + k mod 8)"
    then have "k - b = 8 - j + k mod 8" "b \<le> k" using k assms(2,3) by auto
    then show ?thesis using r by simp
  qed
qed

lemma nix32_decodeDigit_bits:
  assumes "d < 32" "length res \<le> n * 5 div 8 + 1" "n * 5 < 2 ^ 32"
  shows "bitAt (nix32_decodeDigit n d res) k \<longleftrightarrow> bitAt res k \<or> (5 * n \<le> k \<and> bit d (k - 5 * n))"
    and "length (nix32_decodeDigit n d res) = (if drop_bit (8 - n * 5 mod 8) d \<noteq> 0 then n * 5 div 8 + 2 else n * 5 div 8 + 1)"
proof -
  let ?i = "n * 5 div 8" and ?j = "n * 5 mod 8"
  define res2 where "res2 = (resize res (?i + 1) 0)[?i := (resize res (?i + 1) 0 ! ?i) OR of_nat (push_bit ?j d)]"
  have l2: "length res2 = ?i + 1" by (simp add: res2_def)
  have b2: "bitAt res2 k \<longleftrightarrow> bitAt res k \<or> (k div 8 = ?i \<and> ?j \<le> k mod 8 \<and> bit d (k mod 8 - ?j))"
    unfolding res2_def
    using bitAt_resize_zero [OF assms(2)]
    by (subst bitAt_update_or) (auto simp: bit_of_nat_word8 bit_push_bit_iff)
  have c: "5 * n \<le> k \<and> bit d (k - 5 * n) \<longleftrightarrow>
    (k div 8 = ?i \<and> ?j \<le> k mod 8 \<and> bit d (k mod 8 - ?j)) \<or> (k div 8 = ?i + 1 \<and> bit d (8 - ?j + k mod 8))"
    using carry_bits [OF assms(1), of "5 * n" ?i ?j k] by (simp add: mult.commute)
  have hi: "bit d (8 - ?j + t) \<longleftrightarrow> bit (drop_bit (8 - ?j) d) t" for t
    by (simp add: bit_drop_bit_eq)
  define res3 where "res3 = (resize res2 (?i + 2) 0)[?i + 1 := (resize res2 (?i + 2) 0 ! (?i + 1)) OR of_nat (drop_bit (8 - ?j) d)]"
  have b3: "bitAt res3 k \<longleftrightarrow> bitAt res2 k \<or> (k div 8 = ?i + 1 \<and> bit (drop_bit (8 - ?j) d) (k mod 8))"
    unfolding res3_def using l2
    by (subst bitAt_update_or) (auto simp: bitAt_resize_zero bit_of_nat_word8)
  have dd: "nix32_decodeDigit n d res = (if drop_bit (8 - ?j) d \<noteq> 0 then res3 else res2)"
    by (simp add: nix32_decodeDigit_def Let_def res2_def res3_def digitOffset_small [OF assms(3)])
  show "bitAt (nix32_decodeDigit n d res) k \<longleftrightarrow> bitAt res k \<or> (5 * n \<le> k \<and> bit d (k - 5 * n))"
    unfolding dd c hi using b2 b3 by auto
  show "length (nix32_decodeDigit n d res) = (if drop_bit (8 - ?j) d \<noteq> 0 then ?i + 2 else ?i + 1)"
    unfolding dd using l2 by (simp add: res3_def)
qed

lemma nix32_lookup: "d < 32 \<Longrightarrow> nix32_lookupReverse (nix32Chars ! d) = Some d"
  using nix32Chars_props by (simp add: nix32_lookupReverse_def reverseMap_eq_Some)

lemma carry_sum: "x = 8 * i + j \<Longrightarrow> j < 8 \<Longrightarrow> x + (8 - j + t) = 8 * (i + 1) + (t :: nat)"
  by simp

lemma carry_le: "5 * n = 8 * i + j \<Longrightarrow> 8 < j + 5 \<Longrightarrow> 8 * (i + 1) \<le> Suc n * (5 :: nat)"
  by simp

lemma nix32_decodeLoop_append:
  "nix32_decodeLoop (xs @ ys) n res = ebind (nix32_decodeLoop xs n res) (nix32_decodeLoop ys (n + length xs))"
  by (induction xs arbitrary: n res) (auto split: option.split)

lemma nix32_decodeLoop_encode:
  assumes "m * 5 < 8 * length bs + 5" "m * 5 \<le> 2 ^ 32"
  shows "\<exists>out. nix32_decodeLoop (map (nix32_encodeDigit bs) [0..<m]) 0 [] = Inr out \<and>
    length out \<le> m * 5 div 8 + 1 \<and> (\<forall>k. bitAt out k \<longleftrightarrow> k < 5 * m \<and> bitAt bs k) \<and>
    (0 < m \<and> 8 * length bs \<le> m * 5 \<longrightarrow> length out = length bs)"
  using assms
proof (induction m)
  case 0
  show ?case by (simp add: bitAt_def)
next
  case (Suc n)
  let ?i = "n * 5 div 8" and ?j = "n * 5 mod 8"
  obtain res where res: "nix32_decodeLoop (map (nix32_encodeDigit bs) [0..<n]) 0 [] = Inr res"
    "length res \<le> ?i + 1" "\<And>k. bitAt res k \<longleftrightarrow> k < 5 * n \<and> bitAt bs k"
    using Suc by auto
  have small: "n * 5 < 2 ^ 32" using Suc.prems(2) by simp
  have "?i < length bs" using Suc.prems(1) by (simp add: div_less_iff_less_mult mult.commute)
  then obtain d where d: "d < 32" "nix32_encodeDigit bs n = nix32Chars ! d" "\<And>t. bit d t \<longleftrightarrow> t < 5 \<and> bitAt bs (5 * n + t)"
    using nix32_encodeDigit_bits [OF _ small] by blast
  let ?out = "nix32_decodeDigit n d res"
  note len = nix32_decodeDigit_bits(2) [OF d(1) res(2) small]
  have run: "nix32_decodeLoop (map (nix32_encodeDigit bs) [0..<Suc n]) 0 [] = Inr ?out"
    using res(1) d(2) nix32_lookup [OF d(1)] by (simp add: nix32_decodeLoop_append)
  have bits: "bitAt ?out k \<longleftrightarrow> k < 5 * Suc n \<and> bitAt bs k" for k
  proof -
    have "5 * n \<le> k \<and> bit d (k - 5 * n) \<longleftrightarrow> 5 * n \<le> k \<and> k < 5 * n + 5 \<and> bitAt bs k"
      unfolding d(3) by auto
    then show ?thesis unfolding nix32_decodeDigit_bits(1) [OF d(1) res(2) small] res(3) by auto
  qed
  have split: "5 * n = 8 * ?i + ?j" by simp
  have carry: "\<exists>t. 8 - ?j + t < 5 \<and> bitAt bs (8 * (?i + 1) + t)" if "drop_bit (8 - ?j) d \<noteq> 0"
  proof -
    have "\<exists>t. bit (drop_bit (8 - ?j) d) t"
    proof (rule ccontr)
      assume "\<nexists>t. bit (drop_bit (8 - ?j) d) t"
      then have "drop_bit (8 - ?j) d = 0" by (intro bit_eqI) simp
      then show False using that by simp
    qed
    then obtain t where "bit (drop_bit (8 - ?j) d) t" by blast
    then have "bit d (8 - ?j + t)" by (simp only: bit_drop_bit_eq comp_def)
    then have "8 - ?j + t < 5" "bitAt bs (5 * n + (8 - ?j + t))" by (simp_all add: d(3))
    moreover have "5 * n + (8 - ?j + t) = 8 * (?i + 1) + t" by (rule carry_sum [OF split]) simp
    ultimately show ?thesis by metis
  qed
  have "length ?out \<le> Suc n * 5 div 8 + 1"
  proof (cases "drop_bit (8 - ?j) d = 0")
    case True
    then show ?thesis using len div_le_mono [of "n * 5" "Suc n * 5" 8] by simp
  next
    case False
    then have "8 < ?j + 5" using carry by auto
    then have "8 * (?i + 1) \<le> Suc n * 5" using carry_le [OF split] by simp
    then have "?i + 1 \<le> Suc n * 5 div 8" by (simp add: less_eq_div_iff_mult_less_eq mult.commute)
    then show ?thesis using len False by simp
  qed
  moreover have "length ?out = length bs" if "8 * length bs \<le> Suc n * 5"
  proof -
    have "8 * length bs \<le> n * 5 + 5" "n * 5 < 8 * length bs" using that Suc.prems(1) by auto
    then have i: "?i + 1 = length bs" by auto
    have "drop_bit (8 - ?j) d = 0"
    proof (rule ccontr)
      assume "drop_bit (8 - ?j) d \<noteq> 0"
      then obtain t where "bitAt bs (8 * (?i + 1) + t)" using carry by blast
      then show False unfolding i by (simp add: bitAt_def)
    qed
    then show ?thesis using len i by simp
  qed
  ultimately show ?case using run bits by blast
qed

lemma nix32_encode_digits:
  assumes "bs \<noteq> []" "length bs \<le> 2 ^ 28"
  shows "nix32_encode bs = map (nix32_encodeDigit bs) (rev [0..<nix32_encodedLength (length bs)])"
    and "nix32_encodedLength (length bs) * 5 < 8 * length bs + 5" "8 * length bs \<le> nix32_encodedLength (length bs) * 5"
proof -
  obtain n where n: "length bs = Suc n" using assms(1) by (cases bs) auto
  have m: "nix32_encodedLength (length bs) = (8 * n + 7) div 5 + 1"
    using assms nix32_encodedLength_pos [of "length bs"] by (simp add: n)
  have "(8 * n + 7) div 5 * 5 \<le> 8 * n + 7" "8 * n + 7 < (8 * n + 7) div 5 * 5 + 5" by presburger+
  then show "nix32_encodedLength (length bs) * 5 < 8 * length bs + 5" "8 * length bs \<le> nix32_encodedLength (length bs) * 5"
    unfolding m by (simp_all add: n)
  moreover have "length bs \<le> 268435456" using assms(2) by simp
  ultimately have "nix32_encodedLength (length bs) < 2 ^ 31" by simp
  then show "nix32_encode bs = map (nix32_encodeDigit bs) (rev [0..<nix32_encodedLength (length bs)])"
    using assms(1) by (simp add: nix32_encode_def intOf_small)
qed

lemma nix32_decode_encode:
  assumes "length bs \<le> 2 ^ 28"
  shows "nix32_decode (nix32_encode bs) = Inr bs"
proof (cases "bs = []")
  case False
  let ?m = "nix32_encodedLength (length bs)"
  note m = nix32_encode_digits [OF False assms]
  have len: "length bs \<le> 268435456" using assms by simp
  have small: "?m * 5 \<le> 2 ^ 32" "0 < ?m" using m(2) len False by (simp_all add: nix32_encodedLength_def)
  obtain out where out: "nix32_decodeLoop (map (nix32_encodeDigit bs) [0..<?m]) 0 [] = Inr out"
    "\<And>k. bitAt out k \<longleftrightarrow> k < 5 * ?m \<and> bitAt bs k" "length out = length bs"
    using nix32_decodeLoop_encode [OF m(2) small(1)] small(2) m(3) by auto
  have "out = bs" using out(2,3) m(3) by (intro bitAt_eqI) auto
  then show ?thesis using out(1) small(1) unfolding m(1) by (simp add: nix32_decode_def rev_map)
qed (simp add: nix32_decode_def nix32_encode_def)

lemma length_nix32_encode:
  "bs \<noteq> [] \<Longrightarrow> length bs \<le> 2 ^ 28 \<Longrightarrow> length (nix32_encode bs) = nix32_encodedLength (length bs)"
  using nix32_encode_digits(1) by simp

lemma nix32_decodeLoop_error:
  "nix32_decodeLoop s n res = Inl e \<longleftrightarrow> (\<exists>c. find (\<lambda>c. c \<notin> set nix32Chars) s = Some c \<and> e = InvalidCharacter c)"
proof (induction s arbitrary: n res)
  case (Cons x s)
  have "nix32_lookupReverse x = None \<longleftrightarrow> x \<notin> set nix32Chars"
    using reverseMap_eq_Some [OF nix32Chars_props(2), of x] unfolding nix32_lookupReverse_def in_set_conv_nth
    by (metis not_None_eq)
  then show ?case using Cons.IH by (auto split: option.split)
qed simp

section \<open>Properties\<close>

text \<open>
  C26: in each of the three encodings decoding gives back the data that was encoded, and the text has the length
  that \<^verbatim>\<open>encodedLength\<close> announces: in base 64 for any data, in base 16 up to \<open>2 ^ 31\<close> bytes and in base 32
  up to \<open>2 ^ 28\<close> bytes, where the 32-bit counters do not overflow. A base 16 text of \<open>2 ^ 33\<close> characters or
  more is never decoded.
\<close>
theorem encodings_roundtrip:
  "(length bs \<le> 2 ^ 31 \<longrightarrow> base16_decode (base16_encode bs) = Inr bs) \<and>
   length (base16_encode bs) = base16_encodedLength (length bs) \<and>
   (2 ^ 33 \<le> length s \<longrightarrow> base16_decode s \<noteq> Inr r) \<and>
   base64_decode (base64_encode bs) = Inr bs \<and> length (base64_encode bs) = base64_encodedLength (length bs) \<and>
   (length bs \<le> 2 ^ 28 \<longrightarrow> nix32_decode (nix32_encode bs) = Inr bs) \<and>
   (bs \<noteq> [] \<and> length bs \<le> 2 ^ 28 \<longrightarrow> length (nix32_encode bs) = nix32_encodedLength (length bs))"
  using base16_decode_encode base64_decode_encode nix32_decode_encode base16_decode_unending
    length_base16_encode length_base64_encode length_nix32_encode by blast

lemma encodings_roundtrip_witness:
  "base16_decode (base16_encode [0xab, 0x01]) = Inr [0xab, 0x01] \<and> nix32_decode (nix32_encode [0xab, 0x01]) = Inr [0xab, 0x01] \<and>
   length (nix32_encode [0xab, 0x01]) = 4"
  using encodings_roundtrip [of "[0xab, 0x01]" "[]" "[]"] by (simp add: nix32_encodedLength_def)

text \<open>
  The decoders fail exactly at a character outside the alphabet and report the first they meet:
  base 64 from the left, skipping line feeds and ignoring whatever follows a \<^verbatim>\<open>=\<close>, base 32 from the right.
\<close>

lemma decode_errors:
  "(base64_decode s = Inl e \<longleftrightarrow>
     (\<exists>c. find (\<lambda>c. c \<notin> set base64Chars) (filter (\<lambda>c. c \<noteq> CHR 0x0A) (takeWhile (\<lambda>c. c \<noteq> CHR ''='') s)) = Some c \<and>
        e = InvalidCharacter c))"
  "length s < 2 ^ 32 \<Longrightarrow>
     nix32_decode s = Inl e \<longleftrightarrow> (\<exists>c. find (\<lambda>c. c \<notin> set nix32Chars) (rev s) = Some c \<and> e = InvalidCharacter c)"
  unfolding base64_decode_def nix32_decode_def base64_decodeLoop_error by (simp_all add: nix32_decodeLoop_error)

end
