(* ===== verification/Hash_Text.thy ===== *)
theory Hash_Text
  imports Base_N
begin

text \<open>
  Hashes as values and as text (\<^verbatim>\<open>src/libutil/hash.cc\<close>, \<^verbatim>\<open>hash.hh\<close>): the fixed array of 64 bytes of
  which \<^verbatim>\<open>hashSize\<close> count, printing in the four formats, parsing with the algorithm given by a prefix,
  by the caller or by both, the encoding guessed from the length, comparison and compression. The
  experimental feature that BLAKE3 needs is the argument \<open>xp\<close>, the digest functions of the
  cryptographic libraries are the argument \<open>digest\<close>. Exceptions are values of \<open>HashError\<close>, one
  constructor per \<^verbatim>\<open>throw\<close>; \<open>Aborted\<close> is a failed \<^verbatim>\<open>assert\<close>.
\<close>

section \<open>Data\<close>

datatype HashAlgorithm = MD5 | SHA1 | SHA256 | SHA512 | BLAKE3

datatype HashFormat = Base64 | Nix32 | Base16 | SRI

datatype HashError =
    MissingFeature
  | UnknownAlgorithm bytes
  | WrongLength bytes HashAlgorithm
  | InvalidHash bytes bytes nat nat
  | NotSRI bytes
  | NoType bytes
  | TypeNotKnown bytes
  | WrongType bytes HashAlgorithm
  | EmptyHash
  | UnknownFormat bytes
  | Aborted
  | Unended

record Hash =
  hashSize :: nat
  hash :: octets
  algo :: HashAlgorithm

definition maxHashSize :: nat where
  "maxHashSize = 64"

text \<open>The numbers of the enumeration, which order the algorithms.\<close>

fun algorithmNumber :: "HashAlgorithm \<Rightarrow> nat" where
  "algorithmNumber MD5 = 42"
| "algorithmNumber SHA1 = 43"
| "algorithmNumber SHA256 = 44"
| "algorithmNumber SHA512 = 45"
| "algorithmNumber BLAKE3 = 46"

lemma algorithmNumber_inject [simp]: "algorithmNumber a = algorithmNumber b \<longleftrightarrow> a = b"
  by (cases a; cases b) simp_all

instantiation HashAlgorithm :: linorder
begin

definition less_eq_HashAlgorithm :: "HashAlgorithm \<Rightarrow> HashAlgorithm \<Rightarrow> bool" where
  "less_eq_HashAlgorithm a b = (algorithmNumber a \<le> algorithmNumber b)"

definition less_HashAlgorithm :: "HashAlgorithm \<Rightarrow> HashAlgorithm \<Rightarrow> bool" where
  "less_HashAlgorithm a b = (algorithmNumber a < algorithmNumber b)"

instance
  by standard (auto simp: less_eq_HashAlgorithm_def less_HashAlgorithm_def)

end

fun regularHashSize :: "HashAlgorithm \<Rightarrow> nat" where
  "regularHashSize BLAKE3 = 32"
| "regularHashSize MD5 = 16"
| "regularHashSize SHA1 = 20"
| "regularHashSize SHA256 = 32"
| "regularHashSize SHA512 = 64"

definition newHash :: "bool \<Rightarrow> HashAlgorithm \<Rightarrow> HashError + Hash" where
  "newHash xp a =
     (if a = BLAKE3 \<and> \<not> xp then Inl MissingFeature
      else if regularHashSize a > maxHashSize then Inl Aborted
      else Inr \<lparr>hashSize = regularHashSize a, hash = replicate maxHashSize 0, algo = a\<rparr>)"

section \<open>Comparison\<close>

definition hashEq :: "Hash \<Rightarrow> Hash \<Rightarrow> bool" where
  "hashEq h1 h2 =
     (hashSize h1 = hashSize h2 \<and> list_all (\<lambda>i. hash h1 ! i = hash h2 ! i) [0..<hashSize h1])"

primrec compareBytes :: "octets \<Rightarrow> octets \<Rightarrow> nat list \<Rightarrow> Ordering" where
  "compareBytes a b [] = Equal"
| "compareBytes a b (i # is) =
     (if a ! i \<noteq> b ! i then threeWay (a ! i) (b ! i) else compareBytes a b is)"

definition compareHash :: "Hash \<Rightarrow> Hash \<Rightarrow> Ordering" where
  "compareHash h1 h2 =
     (if hashSize h1 \<noteq> hashSize h2 then threeWay (hashSize h1) (hashSize h2)
      else case compareBytes (hash h1) (hash h2) [0..<hashSize h1] of
        Equal \<Rightarrow> threeWay (algo h1) (algo h2)
      | c \<Rightarrow> c)"

section \<open>Printing\<close>

fun printHashAlgo :: "HashAlgorithm \<Rightarrow> bytes" where
  "printHashAlgo BLAKE3 = ''blake3''"
| "printHashAlgo MD5 = ''md5''"
| "printHashAlgo SHA1 = ''sha1''"
| "printHashAlgo SHA256 = ''sha256''"
| "printHashAlgo SHA512 = ''sha512''"

fun printHashFormat :: "HashFormat \<Rightarrow> bytes" where
  "printHashFormat Base64 = ''base64''"
| "printHashFormat Nix32 = ''nix32''"
| "printHashFormat Base16 = ''base16''"
| "printHashFormat SRI = ''sri''"

definition hashBytes :: "Hash \<Rightarrow> octets" where
  "hashBytes h = take (hashSize h) (hash h)"

fun encodeBytes :: "HashFormat \<Rightarrow> octets \<Rightarrow> bytes" where
  "encodeBytes Base16 bs = base16_encode bs"
| "encodeBytes Nix32 bs = nix32_encode bs"
| "encodeBytes Base64 bs = base64_encode bs"
| "encodeBytes SRI bs = base64_encode bs"

definition to_string :: "Hash \<Rightarrow> HashFormat \<Rightarrow> bool \<Rightarrow> HashError + bytes" where
  "to_string h hashFormat includeAlgo =
     (let s = (if hashFormat = SRI \<or> includeAlgo
               then printHashAlgo (algo h) @ [if hashFormat = SRI then CHR ''-'' else CHR '':''] else [])
      in if hashSize h = 0 then Inl Aborted else Inr (s @ encodeBytes hashFormat (hashBytes h)))"

section \<open>Parsing\<close>

definition parseHashAlgoOpt :: "bool \<Rightarrow> bytes \<Rightarrow> HashError + HashAlgorithm option" where
  "parseHashAlgoOpt xp s =
     (if s = ''blake3'' then (if xp then Inr (Some BLAKE3) else Inl MissingFeature)
      else if s = ''md5'' then Inr (Some MD5)
      else if s = ''sha1'' then Inr (Some SHA1)
      else if s = ''sha256'' then Inr (Some SHA256)
      else if s = ''sha512'' then Inr (Some SHA512)
      else Inr None)"

definition parseHashAlgo :: "bool \<Rightarrow> bytes \<Rightarrow> HashError + HashAlgorithm" where
  "parseHashAlgo xp s = ebind (parseHashAlgoOpt xp s) (require (UnknownAlgorithm s))"

definition parseHashFormatOpt :: "bytes \<Rightarrow> HashFormat option" where
  "parseHashFormatOpt name =
     (if name = ''base16'' then Some Base16
      else if name = ''nix32'' then Some Nix32
      else if name = ''base32'' then Some Nix32
      else if name = ''base64'' then Some Base64
      else if name = ''sri'' then Some SRI
      else None)"

definition parseHashFormat :: "bytes \<Rightarrow> HashError + HashFormat" where
  "parseHashFormat name = require (UnknownFormat name) (parseHashFormatOpt name)"

type_synonym DecodeNamePair = "(bytes \<Rightarrow> BaseError + octets) \<times> bytes"

fun baseExplicit :: "HashFormat \<Rightarrow> HashError + DecodeNamePair" where
  "baseExplicit Base16 = Inr (base16_decode, ''base16'')"
| "baseExplicit Nix32 = Inr (nix32_decode, ''nix32'')"
| "baseExplicit Base64 = Inr (base64_decode, ''Base64'')"
| "baseExplicit SRI = Inl Aborted"

definition baseFromSize :: "bytes \<Rightarrow> HashAlgorithm \<Rightarrow> HashError + HashFormat" where
  "baseFromSize rest a =
     (let n = regularHashSize a in
      if length rest = base16_encodedLength n then Inr Base16
      else if length rest = nix32_encodedLength n then Inr Nix32
      else if length rest = base64_encodedLength n then Inr Base64
      else Inl (WrongLength rest a))"

text \<open>
  A decoding error is caught, annotated and dropped: \<^verbatim>\<open>d\<close> stays empty and the length check fails.
\<close>

definition parseLowLevel :: "bool \<Rightarrow> bytes \<Rightarrow> HashAlgorithm \<Rightarrow> DecodeNamePair \<Rightarrow> HashError + Hash" where
  "parseLowLevel xp rest a pair =
     ebind (newHash xp a) (\<lambda>res.
       ebind (case fst pair rest of
                Inl AssertionFailed \<Rightarrow> Inl Aborted
              | Inl (InvalidCharacter _) \<Rightarrow> Inr []
              | Inl Unending \<Rightarrow> Inl Unended
              | Inr d \<Rightarrow> Inr d) (\<lambda>d.
         if length d \<noteq> hashSize res then Inl (InvalidHash (snd pair) rest (length d) (hashSize res))
         else if hashSize res = 0 then Inl Aborted
         else Inr (res\<lparr>hash := d @ drop (length d) (hash res)\<rparr>)))"

definition parseSRI :: "bool \<Rightarrow> bytes \<Rightarrow> HashError + Hash" where
  "parseSRI xp original =
     (case breakOn CHR ''-'' original of
        None \<Rightarrow> Inl (NotSRI original)
      | Some (hashRaw, rest) \<Rightarrow>
          ebind (parseHashAlgo xp hashRaw) (\<lambda>a. parseLowLevel xp rest a (base64_decode, ''SRI'')))"

text \<open>The prefix of a hash: whether it is an SRI, the algorithm's name and what follows.\<close>

definition splitHashPrefix :: "bytes \<Rightarrow> bool \<times> bytes option \<times> bytes" where
  "splitHashPrefix rest =
     (case breakOn CHR '':'' rest of
        Some (hashRaw, rest') \<Rightarrow> (False, Some hashRaw, rest')
      | None \<Rightarrow>
          (case breakOn CHR ''-'' rest of
             Some (hashRaw, rest') \<Rightarrow> (True, Some hashRaw, rest')
           | None \<Rightarrow> (False, None, rest)))"

definition parsePrefixAlgo :: "bool \<Rightarrow> bytes option \<Rightarrow> HashError + HashAlgorithm option" where
  "parsePrefixAlgo xp hashRaw =
     (case hashRaw of None \<Rightarrow> Inr None | Some raw \<Rightarrow> ebind (parseHashAlgo xp raw) (\<lambda>a. Inr (Some a)))"

definition decoderFor :: "bool \<Rightarrow> bytes \<Rightarrow> HashAlgorithm \<Rightarrow> HashError + DecodeNamePair \<times> HashFormat" where
  "decoderFor isSRI rest a =
     (if isSRI then Inr ((base64_decode, ''SRI''), SRI)
      else ebind (baseFromSize rest a) (\<lambda>format. ebind (baseExplicit format) (\<lambda>pair. Inr (pair, format))))"

definition parseAnyHelper :: "bool \<Rightarrow> bytes \<Rightarrow> (HashAlgorithm option \<Rightarrow> HashError + HashAlgorithm) \<Rightarrow> HashError + Hash \<times> HashFormat" where
  "parseAnyHelper xp s resolveAlgo =
     (let (isSRI, hashRaw, rest) = splitHashPrefix s in
      ebind (parsePrefixAlgo xp hashRaw) (\<lambda>optParsedAlgo.
        ebind (resolveAlgo optParsedAlgo) (\<lambda>a.
          ebind (decoderFor isSRI rest a) (\<lambda>(pair, format).
            ebind (parseLowLevel xp rest a pair) (\<lambda>h. Inr (h, format))))))"

definition parseAnyPrefixed :: "bool \<Rightarrow> bytes \<Rightarrow> HashError + Hash" where
  "parseAnyPrefixed xp original =
     ebind (parseAnyHelper xp original (require (NoType original))) (\<lambda>(h, _). Inr h)"

definition resolveAny :: "bytes \<Rightarrow> HashAlgorithm option \<Rightarrow> HashAlgorithm option \<Rightarrow> HashError + HashAlgorithm" where
  "resolveAny original optAlgo optParsedAlgo =
     (case (optParsedAlgo, optAlgo) of
        (None, None) \<Rightarrow> Inl (TypeNotKnown original)
      | (Some p, Some a) \<Rightarrow> if p \<noteq> a then Inl (WrongType original a) else Inr p
      | (Some p, None) \<Rightarrow> Inr p
      | (None, Some a) \<Rightarrow> Inr a)"

definition parseAnyReturningFormat :: "bool \<Rightarrow> bytes \<Rightarrow> HashAlgorithm option \<Rightarrow> HashError + Hash \<times> HashFormat" where
  "parseAnyReturningFormat xp original optAlgo = parseAnyHelper xp original (resolveAny original optAlgo)"

definition parseAny :: "bool \<Rightarrow> bytes \<Rightarrow> HashAlgorithm option \<Rightarrow> HashError + Hash" where
  "parseAny xp original optAlgo = ebind (parseAnyReturningFormat xp original optAlgo) (\<lambda>(h, _). Inr h)"

definition parseExplicitFormatUnprefixed :: "bool \<Rightarrow> bytes \<Rightarrow> HashAlgorithm \<Rightarrow> HashFormat \<Rightarrow> HashError + Hash" where
  "parseExplicitFormatUnprefixed xp s a format = ebind (baseExplicit format) (parseLowLevel xp s a)"

definition parseNonSRIUnprefixed :: "bool \<Rightarrow> bytes \<Rightarrow> HashAlgorithm \<Rightarrow> HashError + Hash" where
  "parseNonSRIUnprefixed xp s a = ebind (baseFromSize s a) (parseExplicitFormatUnprefixed xp s a)"

definition newHashAllowEmpty :: "bool \<Rightarrow> bytes \<Rightarrow> HashAlgorithm option \<Rightarrow> HashError + Hash" where
  "newHashAllowEmpty xp hashStr ha =
     (if hashStr = [] then (case ha of None \<Rightarrow> Inl EmptyHash | Some a \<Rightarrow> newHash xp a)
      else parseAny xp hashStr ha)"

section \<open>Digests\<close>

definition hashString :: "(HashAlgorithm \<Rightarrow> bytes \<Rightarrow> octets) \<Rightarrow> bool \<Rightarrow> HashAlgorithm \<Rightarrow> bytes \<Rightarrow> HashError + Hash" where
  "hashString digest xp ha s =
     ebind (newHash xp ha) (\<lambda>h. Inr (h\<lparr>hash := digest ha s @ drop (length (digest ha s)) (hash h)\<rparr>))"

text \<open>\<^verbatim>\<open>h.hash[i % newSize] ^= hash.hash[i]\<close> for all \<open>i\<close>; a division by zero is \<open>Aborted\<close>.\<close>

definition compressHash :: "bool \<Rightarrow> Hash \<Rightarrow> nat \<Rightarrow> HashError + Hash" where
  "compressHash xp h newSize =
     ebind (newHash xp (algo h)) (\<lambda>r.
       if newSize = 0 \<and> 0 < hashSize h then Inl Aborted
       else Inr (r\<lparr>hashSize := newSize,
         hash := foldl (\<lambda>a i. a[i mod newSize := (a ! (i mod newSize)) XOR (hash h ! i)]) (hash r) [0..<hashSize h]\<rparr>))"

section \<open>Well-formed hashes\<close>

text \<open>What the constructors make: the size of the algorithm, and zeros behind the digest.\<close>

definition wfHash :: "Hash \<Rightarrow> bool" where
  "wfHash h =
     (hashSize h = regularHashSize (algo h) \<and> length (hash h) = maxHashSize \<and>
      drop (hashSize h) (hash h) = replicate (maxHashSize - hashSize h) 0)"

definition allowed :: "bool \<Rightarrow> HashAlgorithm \<Rightarrow> bool" where
  "allowed xp a = (a = BLAKE3 \<longrightarrow> xp)"

lemma regularHashSize_bounds: "0 < regularHashSize a" "regularHashSize a \<le> maxHashSize"
  by (cases a; simp add: maxHashSize_def)+

lemma regularHashSize_cases: "regularHashSize a = 16 \<or> regularHashSize a = 20 \<or> regularHashSize a = 32 \<or> regularHashSize a = 64"
  by (cases a) simp_all

lemma newHash_allowed:
  "allowed xp a \<Longrightarrow> newHash xp a = Inr \<lparr>hashSize = regularHashSize a, hash = replicate maxHashSize 0, algo = a\<rparr>"
  using regularHashSize_bounds [of a] by (auto simp: newHash_def allowed_def)

lemma newHash_eq_Inr:
  "newHash xp a = Inr h \<longleftrightarrow> allowed xp a \<and> h = \<lparr>hashSize = regularHashSize a, hash = replicate maxHashSize 0, algo = a\<rparr>"
  using newHash_allowed [of xp a] by (cases "allowed xp a") (auto simp: newHash_def allowed_def)

lemma newHash_not_Aborted: "newHash xp a \<noteq> Inl Aborted"
  using regularHashSize_bounds [of a] by (auto simp: newHash_def)

lemma length_hashBytes: "wfHash h \<Longrightarrow> length (hashBytes h) = regularHashSize (algo h)"
  using regularHashSize_bounds [of "algo h"] by (simp add: wfHash_def hashBytes_def)

lemma parseLowLevel_decoded:
  assumes "fst pair rest = Inr d" "length d = regularHashSize a" "allowed xp a"
  shows "parseLowLevel xp rest a pair =
    Inr \<lparr>hashSize = regularHashSize a, hash = d @ replicate (maxHashSize - regularHashSize a) 0, algo = a\<rparr>"
  using assms regularHashSize_bounds [of a] by (simp add: parseLowLevel_def newHash_allowed)

lemma parseLowLevel_wf: "parseLowLevel xp rest a pair = Inr h \<Longrightarrow> wfHash h \<and> algo h = a \<and> allowed xp a"
  using regularHashSize_bounds [of a]
  by (auto simp: parseLowLevel_def bind_defs newHash_eq_Inr wfHash_def split: if_splits)

lemma hash_rebuild:
  "wfHash h \<Longrightarrow> \<lparr>hashSize = regularHashSize (algo h), hash = hashBytes h @ replicate (maxHashSize - regularHashSize (algo h)) 0, algo = algo h\<rparr> = h"
  unfolding wfHash_def hashBytes_def by (metis Hash.surjective append_take_drop_id old.unit.exhaust)

section \<open>The alphabets\<close>

lemma base64_encode_chars: "set (base64_encode bs) \<subseteq> insert CHR ''='' (set base64Chars)"
proof -
  obtain ds where "base64_loop bs 0 0 = map ((!) base64Chars) ds" "\<forall>d \<in> set ds. d < 64"
    using base64_loop_bits [of 0 bs 0] by auto
  then show ?thesis using base64Chars_props(1) by (auto simp: base64_encode_def base64_pad_def)
qed

lemma nix32_encode_chars: "set (nix32_encode bs) \<subseteq> set nix32Chars"
  using quintet(1) nix32Chars_props(1) by (auto simp: nix32_encode_def nix32_encodeDigit_def Let_def intro!: nth_mem)

lemma base16_encode_chars: "set (base16_encode bs) \<subseteq> set base16Chars"
proof -
  have "length base16Chars = 16" by (simp add: base16Chars_def)
  then show ?thesis using nibbles_less by (auto simp: base16_encode_def intro!: nth_mem)
qed

lemma separators_free:
  "c = CHR '':'' \<or> c = CHR ''-'' \<Longrightarrow> c \<notin> insert CHR ''='' (set base64Chars) \<union> set nix32Chars \<union> set base16Chars"
  by (auto simp: base64Chars_def nix32Chars_def base16Chars_def)

lemma encodeBytes_no_separator: "c = CHR '':'' \<or> c = CHR ''-'' \<Longrightarrow> c \<notin> set (encodeBytes f bs)"
  using base64_encode_chars [of bs] nix32_encode_chars [of bs] base16_encode_chars [of bs] separators_free [of c]
  by (cases f) auto

lemma printHashAlgo_no_separator: "c = CHR '':'' \<or> c = CHR ''-'' \<Longrightarrow> c \<notin> set (printHashAlgo a)"
  by (cases a) auto

lemma parse_printHashAlgo: "allowed xp a \<Longrightarrow> parseHashAlgo xp (printHashAlgo a) = Inr a"
  by (cases a) (simp_all add: parseHashAlgo_def parseHashAlgoOpt_def allowed_def)

lemma parse_printHashFormat: "parseHashFormatOpt (printHashFormat f) = Some f"
  by (cases f) (simp_all add: parseHashFormatOpt_def)

section \<open>Parsing what was printed\<close>

lemma splitHashPrefix_cases:
  "splitHashPrefix (printHashAlgo a @ CHR '':'' # encodeBytes f bs) = (False, Some (printHashAlgo a), encodeBytes f bs)"
  "splitHashPrefix (printHashAlgo a @ CHR ''-'' # encodeBytes f bs) = (True, Some (printHashAlgo a), encodeBytes f bs)"
  "splitHashPrefix (encodeBytes f bs) = (False, None, encodeBytes f bs)"
proof -
  have none: "breakOn CHR '':'' (printHashAlgo a @ CHR ''-'' # encodeBytes f bs) = None"
    "breakOn CHR '':'' (encodeBytes f bs) = None" "breakOn CHR ''-'' (encodeBytes f bs) = None"
    using encodeBytes_no_separator printHashAlgo_no_separator by (auto simp: breakOn_eq_None)
  show "splitHashPrefix (printHashAlgo a @ CHR '':'' # encodeBytes f bs) = (False, Some (printHashAlgo a), encodeBytes f bs)"
    "splitHashPrefix (printHashAlgo a @ CHR ''-'' # encodeBytes f bs) = (True, Some (printHashAlgo a), encodeBytes f bs)"
    "splitHashPrefix (encodeBytes f bs) = (False, None, encodeBytes f bs)"
    using none printHashAlgo_no_separator by (simp_all add: splitHashPrefix_def)
qed

lemma regularHashSize_small: "regularHashSize a \<le> 2 ^ 28"
  using regularHashSize_cases [of a] by auto

lemma length_encodeBytes:
  assumes "bs \<noteq> []" "length bs \<le> 2 ^ 28"
  shows "length (encodeBytes Base16 bs) = base16_encodedLength (length bs)"
    "length (encodeBytes Nix32 bs) = nix32_encodedLength (length bs)"
    "length (encodeBytes Base64 bs) = base64_encodedLength (length bs)"
  using assms by (simp_all add: length_base16_encode length_nix32_encode length_base64_encode)

lemma baseFromSize_encode:
  assumes "length bs = regularHashSize a" "f \<noteq> SRI"
  shows "baseFromSize (encodeBytes f bs) a = Inr f"
proof -
  have ne: "bs \<noteq> []" "length bs \<le> 2 ^ 28"
    using assms(1) regularHashSize_bounds(1) [of a] regularHashSize_small [of a] by auto
  show ?thesis using assms(2) length_encodeBytes [OF ne] regularHashSize_cases [of a] unfolding assms(1)
    by (cases f) (auto simp: baseFromSize_def base16_encodedLength_def nix32_encodedLength_def base64_encodedLength_def)
qed

lemma decoderFor_decodes:
  assumes "length bs = regularHashSize a"
  obtains pair where "decoderFor (f = SRI) (encodeBytes f bs) a = Inr (pair, f)" "fst pair (encodeBytes f bs) = Inr bs"
proof -
  have small: "length bs \<le> 2 ^ 28" "length bs \<le> 2 ^ 31" using assms regularHashSize_small [of a] by simp_all
  show ?thesis
  proof (cases f)
    case SRI
    then show ?thesis using that by (simp add: decoderFor_def base64_decode_encode)
  next
    case Base64
    then show ?thesis using that baseFromSize_encode [OF assms, of f] by (simp add: decoderFor_def base64_decode_encode)
  next
    case Nix32
    then show ?thesis using that baseFromSize_encode [OF assms, of f] by (simp add: decoderFor_def nix32_decode_encode [OF small(1)])
  next
    case Base16
    then show ?thesis using that baseFromSize_encode [OF assms, of f] by (simp add: decoderFor_def base16_decode_encode [OF small(2)])
  qed
qed

lemma parse_to_string:
  assumes "wfHash h" "allowed xp (algo h)" "opt = Some (algo h) \<or> opt = None \<and> (format = SRI \<or> includeAlgo)"
  obtains s where "to_string h format includeAlgo = Inr s" "parseAnyReturningFormat xp s opt = Inr (h, format)"
proof -
  let ?e = "encodeBytes format (hashBytes h)"
  let ?s = "(if format = SRI \<or> includeAlgo then printHashAlgo (algo h) @ [if format = SRI then CHR ''-'' else CHR '':''] else []) @ ?e"
  have len: "length (hashBytes h) = regularHashSize (algo h)" using length_hashBytes [OF assms(1)] .
  obtain pair where pair: "decoderFor (format = SRI) ?e (algo h) = Inr (pair, format)" "fst pair ?e = Inr (hashBytes h)"
    using decoderFor_decodes [OF len] by blast
  have low: "parseLowLevel xp ?e (algo h) pair = Inr h"
    using parseLowLevel_decoded [OF pair(2) len assms(2)] hash_rebuild [OF assms(1)] by simp
  have split: "splitHashPrefix ?s = (format = SRI, if format = SRI \<or> includeAlgo then Some (printHashAlgo (algo h)) else None, ?e)"
  proof (cases "format = SRI")
    case True
    then show ?thesis using splitHashPrefix_cases(2) [where f = SRI] by simp
  next
    case False
    then show ?thesis by (auto simp: splitHashPrefix_cases)
  qed
  have pre: "parsePrefixAlgo xp (if format = SRI \<or> includeAlgo then Some (printHashAlgo (algo h)) else None) =
    Inr (if format = SRI \<or> includeAlgo then Some (algo h) else None)"
    using parse_printHashAlgo [OF assms(2)] by (simp add: parsePrefixAlgo_def)
  have res: "resolveAny ?s opt (if format = SRI \<or> includeAlgo then Some (algo h) else None) = Inr (algo h)"
    using assms(3) by (auto simp: resolveAny_def)
  have "to_string h format includeAlgo = Inr ?s"
    using assms(1) regularHashSize_bounds(1) [of "algo h"] by (simp add: to_string_def wfHash_def)
  moreover have "parseAnyReturningFormat xp ?s opt = Inr (h, format)"
    unfolding parseAnyReturningFormat_def parseAnyHelper_def split using pre res pair(1) low by simp
  ultimately show ?thesis by (rule that)
qed

section \<open>What a parser can return\<close>

lemma resolveAny_eq_Inr: "resolveAny s opt p = Inr a \<Longrightarrow> opt = None \<or> opt = Some a"
  by (auto simp: resolveAny_def split: option.splits if_splits)

lemma parseAny_Inr: "parseAny xp s opt = Inr h \<Longrightarrow> wfHash h \<and> allowed xp (algo h) \<and> (opt = None \<or> opt = Some (algo h))"
  by (auto simp: parseAny_def parseAnyReturningFormat_def parseAnyHelper_def bind_defs split: prod.splits
    dest!: resolveAny_eq_Inr parseLowLevel_wf)

lemma parseHashAlgo_not_Aborted: "parseHashAlgo xp s \<noteq> Inl Aborted"
  by (simp add: parseHashAlgo_def parseHashAlgoOpt_def)

lemma base16_not_assert: "even (length s) \<Longrightarrow> base16_decode s \<noteq> Inl AssertionFailed"
proof -
  have "mapE (base16_pair s) is \<noteq> Inl AssertionFailed" for "is"
    by (induction "is") (auto simp: ebind_eq_Inl base16_pair_def parseHexDigit_def split: if_splits)
  then show "even (length s) \<Longrightarrow> base16_decode s \<noteq> Inl AssertionFailed"
    by (auto simp: base16_decode_def Let_def ebind_eq_Inl split: if_splits)
qed

lemma base64_not_assert: "base64_decode s \<noteq> Inl AssertionFailed"
  by (simp add: base64_decode_def base64_decodeLoop_error)

lemma nix32_not_assert: "nix32_decode s \<noteq> Inl AssertionFailed"
  by (auto simp: nix32_decode_def nix32_decodeLoop_error ebind_eq_Inl)

lemma parseLowLevel_not_Aborted:
  "fst pair rest \<noteq> Inl AssertionFailed \<Longrightarrow> parseLowLevel xp rest a pair \<noteq> Inl Aborted"
  using regularHashSize_bounds [of a]
  by (auto simp: parseLowLevel_def ebind_eq_Inl newHash_not_Aborted newHash_eq_Inr split: sum.splits BaseError.splits if_splits)

lemma decoderFor_not_assert:
  assumes "decoderFor isSRI rest a = Inr (pair, format)"
  shows "fst pair rest \<noteq> Inl AssertionFailed"
proof (cases isSRI)
  case True
  then show ?thesis using assms by (auto simp: decoderFor_def base64_not_assert)
next
  case False
  then have f: "baseFromSize rest a = Inr format" "baseExplicit format = Inr pair"
    using assms by (auto simp: decoderFor_def bind_defs)
  have "even (length rest)" if "format = Base16"
    using f(1) that by (auto simp: baseFromSize_def base16_encodedLength_def Let_def split: if_splits)
  then show ?thesis using f(2)
    by (cases format) (auto simp: base16_not_assert nix32_not_assert base64_not_assert)
qed

lemma decoderFor_not_Aborted: "decoderFor isSRI rest a \<noteq> Inl Aborted"
  by (auto simp: decoderFor_def ebind_eq_Inl baseFromSize_def Let_def split: if_splits)

lemma parseAny_not_Aborted: "parseAny xp s opt \<noteq> Inl Aborted"
proof
  assume "parseAny xp s opt = Inl Aborted"
  then obtain isSRI raw rest where sp: "splitHashPrefix s = (isSRI, raw, rest)" and
    "ebind (parsePrefixAlgo xp raw) (\<lambda>p. ebind (resolveAny s opt p) (\<lambda>a. ebind (decoderFor isSRI rest a) (\<lambda>(pair, format).
       ebind (parseLowLevel xp rest a pair) (\<lambda>h. Inr (h, format))))) = Inl Aborted"
    by (cases "splitHashPrefix s") (auto simp: parseAny_def parseAnyReturningFormat_def parseAnyHelper_def ebind_eq_Inl)
  moreover have "parsePrefixAlgo xp raw \<noteq> Inl Aborted"
    by (auto simp: parsePrefixAlgo_def ebind_eq_Inl parseHashAlgo_not_Aborted split: option.splits)
  moreover have "resolveAny s opt p \<noteq> Inl Aborted" for p
    by (auto simp: resolveAny_def split: option.splits)
  ultimately obtain a pair format where "decoderFor isSRI rest a = Inr (pair, format)" "parseLowLevel xp rest a pair = Inl Aborted"
    by (auto simp: ebind_eq_Inl decoderFor_not_Aborted)
  then show False using parseLowLevel_not_Aborted decoderFor_not_assert by blast
qed

section \<open>The order\<close>

text \<open>The order of hashes is that of their sizes, then bytes, then algorithms.\<close>

definition hashKey :: "Hash \<Rightarrow> nat \<times> octets \<times> HashAlgorithm" where
  "hashKey h = (hashSize h, hashBytes h, algo h)"

lemma compareBytes_append:
  "compareBytes a b (is @ js) = (if compareBytes a b is = Equal then compareBytes a b js else compareBytes a b is)"
  by (induction "is") (auto simp: threeWay_def)

lemma compareBytes_lex:
  assumes "n \<le> length a" "n \<le> length b"
  shows "compareBytes a b [0..<n] = threeWay (take n a) (take n b)"
  using assms
proof (induction n)
  case 0
  show ?case by (simp add: threeWay_def)
next
  case (Suc n)
  then have IH: "compareBytes a b [0..<n] = threeWay (take n a) (take n b)" by simp
  have len: "length (take n a) = length (take n b)" using Suc.prems by simp
  have lex: "xs @ [x] < ys @ [y] \<longleftrightarrow> xs < ys \<or> xs = ys \<and> x < y" if "length xs = length ys" for xs ys :: octets and x y
    using that by (induction xs ys rule: list_induct2) auto
  have step: "compareBytes a b [0..<Suc n] =
      (if threeWay (take n a) (take n b) = Equal then threeWay (a ! n) (b ! n) else threeWay (take n a) (take n b))"
    using IH by (simp add: compareBytes_append threeWay_def)
  have "take (Suc n) a = take n a @ [a ! n]" "take (Suc n) b = take n b @ [b ! n]"
    using Suc.prems by (simp_all add: take_Suc_conv_app_nth)
  then show ?case using lex [OF len] lex [OF len [symmetric]] unfolding step by (auto simp: threeWay_def)
qed

lemma compareHash_key:
  assumes "wfHash h1" "wfHash h2"
  shows "compareHash h1 h2 = threeWay (hashKey h1) (hashKey h2)"
proof -
  have "compareBytes (hash h1) (hash h2) [0..<hashSize h1] = threeWay (hashBytes h1) (hashBytes h2)" if "hashSize h1 = hashSize h2"
    using compareBytes_lex [of "hashSize h1" "hash h1" "hash h2"] that assms regularHashSize_bounds
    by (simp add: wfHash_def hashBytes_def)
  then show ?thesis by (auto simp: compareHash_def hashKey_def threeWay_def split: Ordering.split)
qed

lemma hashEq_bytes:
  assumes "wfHash h1" "wfHash h2"
  shows "hashEq h1 h2 \<longleftrightarrow> hashBytes h1 = hashBytes h2"
proof -
  have len: "length (hash h1) = 64" "length (hash h2) = 64" "hashSize h1 \<le> 64" "hashSize h2 \<le> 64"
    using assms regularHashSize_bounds by (auto simp: wfHash_def maxHashSize_def)
  show ?thesis
  proof
    assume "hashEq h1 h2"
    then show "hashBytes h1 = hashBytes h2" using len
      by (intro nth_equalityI) (auto simp: hashEq_def hashBytes_def list_all_iff)
  next
    assume eq: "hashBytes h1 = hashBytes h2"
    have "length (hashBytes h1) = hashSize h1" "length (hashBytes h2) = hashSize h2" using len by (simp_all add: hashBytes_def)
    then have "hashSize h1 = hashSize h2" using eq by simp
    moreover have "hash h1 ! i = hash h2 ! i" if "i < hashSize h1" for i
      using eq that calculation unfolding hashBytes_def by (metis nth_take)
    ultimately show "hashEq h1 h2" by (simp add: hashEq_def list_all_iff)
  qed
qed

lemma hashKey_inject: "wfHash h1 \<Longrightarrow> wfHash h2 \<Longrightarrow> hashKey h1 = hashKey h2 \<longleftrightarrow> h1 = h2"
  unfolding hashKey_def by (metis hash_rebuild prod.inject)

section \<open>Properties\<close>

text \<open>
  C27: a hash printed in any of the four formats is read back as the same hash, and in the same format,
  when the algorithm is in the text, given by the caller, or both.
\<close>
theorem hash_text_roundtrip:
  assumes "wfHash h" "allowed xp (algo h)" "opt = Some (algo h) \<or> opt = None \<and> (format = SRI \<or> includeAlgo)"
  shows "ebind (to_string h format includeAlgo) (\<lambda>s. parseAnyReturningFormat xp s opt) = Inr (h, format)"
  using parse_to_string [OF assms] by (metis ebind_simps(2))

definition sampleHash :: Hash where
  "sampleHash = \<lparr>hashSize = 16, hash = map of_nat [240..<256] @ replicate 48 0, algo = MD5\<rparr>"

lemma wf_sampleHash: "wfHash sampleHash"
  by (simp add: wfHash_def sampleHash_def maxHashSize_def)

theorem hash_text_roundtrip_witness:
  "ebind (to_string sampleHash SRI False) (\<lambda>s. parseAnyReturningFormat False s None) = Inr (sampleHash, SRI)"
  using hash_text_roundtrip [OF wf_sampleHash, of False None SRI False] by (simp add: allowed_def sampleHash_def)

text \<open>
  C28: whatever text is parsed, a hash that comes out is well formed, has the algorithm the caller asked
  for and one whose feature is enabled; the assertions of the decoders and of the constructor never fail.
\<close>
theorem hash_parse_typed:
  "(case parseAny xp s opt of
      Inr h \<Rightarrow> wfHash h \<and> allowed xp (algo h) \<and> (case opt of None \<Rightarrow> True | Some a \<Rightarrow> algo h = a)
    | Inl e \<Rightarrow> e \<noteq> Aborted)"
proof (cases "parseAny xp s opt")
  case (Inr h)
  then show ?thesis using parseAny_Inr by (auto split: option.split)
next
  case (Inl e)
  then show ?thesis using parseAny_not_Aborted [of xp s opt] by auto
qed

text \<open>
  C28: on well-formed hashes the three-way comparison is the total order by size, bytes and algorithm,
  \<open>Equal\<close> only for the same hash; the equality operator compares the bytes alone, so that it also holds
  between hashes of two algorithms.
\<close>
theorem hash_order:
  assumes "wfHash h1" "wfHash h2"
  shows "(compareHash h1 h2 = Less \<longleftrightarrow> hashKey h1 < hashKey h2) \<and> (compareHash h1 h2 = Greater \<longleftrightarrow> hashKey h2 < hashKey h1) \<and>
    (compareHash h1 h2 = Equal \<longleftrightarrow> h1 = h2) \<and> (hashEq h1 h2 \<longleftrightarrow> hashBytes h1 = hashBytes h2)"
  using assms by (simp add: compareHash_key threeWay_simps hashKey_inject hashEq_bytes)

text \<open>Two digests of zeros, of SHA-256 and of BLAKE3: equal for one operator, ordered by the other.\<close>

theorem hash_order_witness:
  "\<exists>h1 h2. hashEq h1 h2 \<and> compareHash h1 h2 = Less"
proof -
  let ?h = "\<lambda>a. \<lparr>hashSize = 32, hash = replicate 64 0, algo = a\<rparr>"
  have "wfHash (?h SHA256)" "wfHash (?h BLAKE3)" by (simp_all add: wfHash_def maxHashSize_def)
  from hash_order [OF this] show ?thesis
    by (intro exI [of _ "?h SHA256"] exI [of _ "?h BLAKE3"]) (simp add: hashKey_def hashBytes_def less_HashAlgorithm_def)
qed

end
