(* ===== verification/Repo_Overlay.thy ===== *)
theory Repo_Overlay
  imports Source_Accessor Wire Hash_Text Git_Status "HOL-Library.AList"
begin

text \<open>
  The source accessor of an evaluation (\<^verbatim>\<open>src/libexpr/tecnix/repo-accessor.cc\<close>): the tree of the pinned
  revision with the dirty files of the checkout laid over it. \<^verbatim>\<open>GitIndexSourceAccessor\<close> serves the dirty
  files whose content is staged, \<^verbatim>\<open>TecnixSourceAccessor\<close> is the overlay, and \<open>tecnixRepoAccessor\<close> builds it
  from the output of \<^verbatim>\<open>git status\<close>. The clean tree and the checkout are accessors, parameters of the model
  with the contract \<open>tree_accessor\<close>; the blobs and the tree entries of the git repository and the digest are
  functions. The hash sets of paths are lists, in the order of iteration. What a method records in the
  tracking context is returned beside its result.
\<close>

section \<open>Fingerprints\<close>

definition tecnixNormalizeRepoPath :: "bytes \<Rightarrow> bytes" where
  "tecnixNormalizeRepoPath p = (if startsWith p ''//'' then drop 2 p else p)"

definition gitRev :: "Hash \<Rightarrow> AccessError + bytes" where
  "gitRev h = (case to_string h Base16 False of Inl _ \<Rightarrow> Inl (AccessFailed ''hash'') | Inr s \<Rightarrow> Inr s)"

fun octalDigits :: "nat \<Rightarrow> bytes" where
  "octalDigits n = (if n < 8 then [char_of (48 + n)] else octalDigits (n div 8) @ [char_of (48 + n mod 8)])"

definition printMode :: "nat \<Rightarrow> bytes" where
  "printMode m = replicate (6 - length (octalDigits m)) CHR ''0'' @ octalDigits m"

definition gitFingerprintWithMode :: "Hash \<Rightarrow> nat \<Rightarrow> AccessError + bytes" where
  "gitFingerprintWithMode h m = ebind (gitRev h) (\<lambda>r. Inr (''git:'' @ r @ '';mode='' @ printMode m))"

section \<open>The staged files\<close>

record IndexEntry =
  ix_oid :: Hash
  ix_mode :: nat

record GitIndexSourceAccessor =
  ix_blobs :: "Hash \<Rightarrow> AccessError + bytes"
  ix_entries :: "(bytes \<times> IndexEntry) list"
  ix_directories :: "bytes list"

definition symlinkMode :: nat where "symlinkMode = 40960"
definition executableMode :: nat where "executableMode = 33261"

text \<open>The loop over the ancestors of a path that both constructors have; one of them leaves out the root.\<close>

function ancestors :: "bool \<Rightarrow> CanonPath \<Rightarrow> bytes list \<Rightarrow> AccessError + bytes list" where
  "ancestors withRoot p ds =
     (if isRoot p then Inr ds
      else case pop p of
        Inl e \<Rightarrow> Inl (PathError e)
      | Inr q \<Rightarrow> if \<not> withRoot \<and> isRoot q \<or> rel q \<in> set ds then Inr ds else ancestors withRoot q (ds @ [rel q]))"
  by pat_completeness auto
termination
  by (relation "measure (\<lambda>(withRoot, p, ds). length p)")
     (auto simp: pop_def isRoot_def rfind_def split: option.splits dest!: breakOn_length)

declare ancestors.simps [simp del]

definition indexAncestors :: "CanonPath \<Rightarrow> bytes list \<Rightarrow> AccessError + bytes list" where
  "indexAncestors = ancestors False"

definition dirtyAncestors :: "CanonPath \<Rightarrow> bytes list \<Rightarrow> AccessError + bytes list" where
  "dirtyAncestors = ancestors True"

fun indexDirectories :: "(bytes \<times> IndexEntry) list \<Rightarrow> bytes list \<Rightarrow> AccessError + bytes list" where
  "indexDirectories [] ds = Inr ds"
| "indexDirectories ((f, e) # es) ds =
     ebind (liftPath (newCanonPath f)) (\<lambda>p. ebind (indexAncestors p ds) (indexDirectories es))"

definition newIndex :: "(Hash \<Rightarrow> AccessError + bytes) \<Rightarrow> (bytes \<times> IndexEntry) list \<Rightarrow> AccessError + GitIndexSourceAccessor" where
  "newIndex blobs es =
     ebind (indexDirectories es []) (\<lambda>ds. Inr \<lparr>ix_blobs = blobs, ix_entries = es, ix_directories = ds\<rparr>)"

definition containsDirectory :: "GitIndexSourceAccessor \<Rightarrow> CanonPath \<Rightarrow> bool" where
  "containsDirectory ix p = (\<not> isRoot p \<and> rel p \<in> set (ix_directories ix))"

definition findEntry :: "GitIndexSourceAccessor \<Rightarrow> CanonPath \<Rightarrow> IndexEntry option" where
  "findEntry ix p = (if isRoot p then None else map_of (ix_entries ix) (rel p))"

definition indexContains :: "GitIndexSourceAccessor \<Rightarrow> CanonPath \<Rightarrow> bool" where
  "indexContains ix p = (findEntry ix p \<noteq> None)"

definition need :: "GitIndexSourceAccessor \<Rightarrow> CanonPath \<Rightarrow> AccessError + IndexEntry" where
  "need ix p = require (AccessFailed p) (findEntry ix p)"

definition readBlob :: "GitIndexSourceAccessor \<Rightarrow> IndexEntry \<Rightarrow> AccessError + bytes" where
  "readBlob ix e = ix_blobs ix (ix_oid e)"

definition indexLstat :: "GitIndexSourceAccessor \<Rightarrow> CanonPath \<Rightarrow> AccessError + Stat option" where
  "indexLstat ix p =
     (case findEntry ix p of
        None \<Rightarrow> Inr None
      | Some e \<Rightarrow>
          if ix_mode e = symlinkMode then Inr (Some (stat0 tSymlink))
          else Inr (Some ((stat0 tRegular)\<lparr>isExecutable := (ix_mode e = executableMode)\<rparr>)))"

definition indexReadFile :: "GitIndexSourceAccessor \<Rightarrow> CanonPath \<Rightarrow> AccessError + bytes" where
  "indexReadFile ix p =
     ebind (need ix p) (\<lambda>e. if ix_mode e = symlinkMode then Inl (NotARegularFile p) else readBlob ix e)"

definition indexReadLink :: "GitIndexSourceAccessor \<Rightarrow> CanonPath \<Rightarrow> AccessError + bytes" where
  "indexReadLink ix p =
     ebind (need ix p) (\<lambda>e. if ix_mode e \<noteq> symlinkMode then Inl (NotASymlink p) else readBlob ix e)"

definition indexAccessor :: "GitIndexSourceAccessor \<Rightarrow> Accessor" where
  "indexAccessor ix =
     \<lparr>maybeLstat = indexLstat ix, readFile = indexReadFile ix, readLink = indexReadLink ix,
      readDirectory = (\<lambda>p. Inl (NotADirectory p))\<rparr>"

section \<open>The overlay\<close>

text \<open>\<^verbatim>\<open>getPathInfo\<close> of the git repository: the object and the mode at a path of the tree.\<close>

record GitCleanFingerprints =
  treeSha :: Hash
  getPathInfo :: "bytes \<Rightarrow> AccessError + (Hash \<times> nat) option"

record TecnixSourceAccessor =
  ov_clean :: Accessor
  ov_cleanFingerprint :: "CanonPath \<Rightarrow> AccessError + bytes option"
  ov_disk :: Accessor
  ov_git :: "GitCleanFingerprints option"
  ov_repoPrefix :: bytes
  ov_dirtyFiles :: "bytes list"
  ov_dirtyDirs :: "bytes list"
  ov_index :: "GitIndexSourceAccessor option"

fun dirtyDirectories :: "bytes list \<Rightarrow> bytes list \<Rightarrow> AccessError + bytes list" where
  "dirtyDirectories [] ds = Inr ds"
| "dirtyDirectories (f # fs) ds =
     ebind (liftPath (newCanonPath f)) (\<lambda>p. ebind (dirtyAncestors p ds) (dirtyDirectories fs))"

definition newOverlay ::
    "Accessor \<Rightarrow> (CanonPath \<Rightarrow> AccessError + bytes option) \<Rightarrow> Accessor \<Rightarrow> GitCleanFingerprints option \<Rightarrow> bytes \<Rightarrow> bytes list \<Rightarrow>
      GitIndexSourceAccessor option \<Rightarrow> AccessError + TecnixSourceAccessor" where
  "newOverlay clean cleanFp disk git repoPrefix dirtyFiles ix =
     ebind (dirtyDirectories dirtyFiles []) (\<lambda>ds.
       Inr \<lparr>ov_clean = clean, ov_cleanFingerprint = cleanFp, ov_disk = disk, ov_git = git, ov_repoPrefix = repoPrefix,
            ov_dirtyFiles = dirtyFiles, ov_dirtyDirs = ds, ov_index = ix\<rparr>)"

definition isDirty :: "TecnixSourceAccessor \<Rightarrow> CanonPath \<Rightarrow> bool" where
  "isDirty ov p = (rel p \<in> set (ov_dirtyFiles ov))"

definition dirtySource :: "TecnixSourceAccessor \<Rightarrow> CanonPath \<Rightarrow> Accessor" where
  "dirtySource ov p =
     (case ov_index ov of
        Some ix \<Rightarrow> if indexContains ix p then indexAccessor ix else ov_disk ov
      | None \<Rightarrow> ov_disk ov)"

definition dirtyLstat :: "TecnixSourceAccessor \<Rightarrow> CanonPath \<Rightarrow> AccessError + Stat option" where
  "dirtyLstat ov p =
     ebind (maybeLstat (dirtySource ov p) p) (\<lambda>s.
       Inr (if s = None \<and> (case ov_index ov of Some ix \<Rightarrow> containsDirectory ix p | None \<Rightarrow> False)
            then Some (stat0 tDirectory) else s))"

definition source :: "TecnixSourceAccessor \<Rightarrow> CanonPath \<Rightarrow> Accessor" where
  "source ov p = (if isDirty ov p then dirtySource ov p else ov_clean ov)"

definition overlayLstat :: "TecnixSourceAccessor \<Rightarrow> CanonPath \<Rightarrow> AccessError + Stat option" where
  "overlayLstat ov p =
     (if isRoot p then maybeLstat (ov_clean ov) p
      else if isDirty ov p then dirtyLstat ov p
      else ebind (maybeLstat (ov_clean ov) p) (\<lambda>s.
        if s = None \<and> rel p \<in> set (ov_dirtyDirs ov) then dirtyLstat ov p else Inr s))"

text \<open>The two loops of \<^verbatim>\<open>readDirectory\<close> over the dirty files and the dirty directories.\<close>

fun mergeDirtyFiles :: "TecnixSourceAccessor \<Rightarrow> CanonPath \<Rightarrow> bytes \<Rightarrow> bytes list \<Rightarrow> DirEntries \<Rightarrow> AccessError + DirEntries" where
  "mergeDirtyFiles ov p dirPrefix [] es = Inr es"
| "mergeDirtyFiles ov p dirPrefix (f # fs) es =
     (let rest = drop (length dirPrefix) f in
      if \<not> startsWith f dirPrefix \<or> SLASH \<in> set rest then mergeDirtyFiles ov p dirPrefix fs es
      else ebind (liftPath (slashName p rest)) (\<lambda>child. ebind (dirtyLstat ov child) (\<lambda>stat.
        mergeDirtyFiles ov p dirPrefix fs (case stat of None \<Rightarrow> Mapping.delete rest es | Some st \<Rightarrow> Mapping.update rest (Some (statType st)) es))))"

fun mergeDirtyDirs :: "bytes \<Rightarrow> bytes list \<Rightarrow> DirEntries \<Rightarrow> DirEntries" where
  "mergeDirtyDirs dirPrefix [] es = es"
| "mergeDirtyDirs dirPrefix (d # ds) es =
     (let rest = drop (length dirPrefix) d in
      if \<not> startsWith d dirPrefix \<or> SLASH \<in> set rest \<or> rest = [] then mergeDirtyDirs dirPrefix ds es
      else mergeDirtyDirs dirPrefix ds (if Mapping.lookup es rest = None then Mapping.update rest (Some tDirectory) es else es))"

definition mergedEntries :: "TecnixSourceAccessor \<Rightarrow> CanonPath \<Rightarrow> AccessError + DirEntries" where
  "mergedEntries ov p =
     (let r = (if isRoot p then [] else rel p);
          dirPrefix = (if r = [] then [] else r @ [SLASH]);
          es = (case readDirectory (ov_clean ov) p of Inr es \<Rightarrow> es | Inl _ \<Rightarrow> Mapping.empty)
      in ebind (mergeDirtyFiles ov p dirPrefix (ov_dirtyFiles ov) es) (\<lambda>es'. Inr (mergeDirtyDirs dirPrefix (ov_dirtyDirs ov) es')))"

definition overlayReadDirectory :: "TecnixSourceAccessor \<Rightarrow> CanonPath \<Rightarrow> AccessError + DirEntries" where
  "overlayReadDirectory ov p =
     (let listing = (if \<not> isRoot p \<and> rel p \<notin> set (ov_dirtyDirs ov) then readDirectory (ov_clean ov) p else mergedEntries ov p)
      in if \<not> isRoot p \<and> isDirty ov p then
           ebind (dirtyLstat ov p) (\<lambda>st.
             if map_option statType st \<noteq> Some tDirectory then readDirectory (dirtySource ov p) p else listing)
         else listing)"

definition overlayAccessor :: "TecnixSourceAccessor \<Rightarrow> Accessor" where
  "overlayAccessor ov =
     \<lparr>maybeLstat = overlayLstat ov, readFile = (\<lambda>p. readFile (source ov p) p), readLink = (\<lambda>p. readLink (source ov p) p),
      readDirectory = overlayReadDirectory ov\<rparr>"


section \<open>Fingerprints of the overlay\<close>

definition cleanFingerprint :: "TecnixSourceAccessor \<Rightarrow> CanonPath \<Rightarrow> AccessError + bytes option" where
  "cleanFingerprint ov p =
     (case ov_git ov of
        None \<Rightarrow> ov_cleanFingerprint ov p
      | Some g \<Rightarrow>
          if isRoot p then ebind (gitRev (treeSha g)) (\<lambda>r. Inr (Some (''git:'' @ r)))
          else ebind (getPathInfo g (rel p)) (\<lambda>info. case info of
            None \<Rightarrow> Inr (Some ''absent'')
          | Some (h, m) \<Rightarrow> ebind (gitFingerprintWithMode h m) (\<lambda>fp. Inr (Some fp))))"

text \<open>What goes into the digest for one dirty file, after its path.\<close>

definition dirtyContent :: "TecnixSourceAccessor \<Rightarrow> CanonPath \<Rightarrow> AccessError + bytes" where
  "dirtyContent ov p =
     (case Option.bind (ov_index ov) (\<lambda>ix. findEntry ix p) of
        Some e \<Rightarrow> ebind (gitFingerprintWithMode (ix_oid e) (ix_mode e)) (\<lambda>fp. Inr (writeString ''G'' @ writeString fp))
      | None \<Rightarrow>
          ebind (dirtyLstat ov p) (\<lambda>st. case st of
            None \<Rightarrow> Inr (writeString ''D'')
          | Some st \<Rightarrow>
              if statType st = tRegular then
                ebind (readFile (ov_disk ov) p) (\<lambda>c. Inr (writeString (if isExecutable st then ''X'' else ''F'') @ writeString c))
              else if statType st = tSymlink then
                ebind (readLink (ov_disk ov) p) (\<lambda>t. Inr (writeString ''L'' @ writeString t))
              else Inr []))"

fun dirtyStream :: "TecnixSourceAccessor \<Rightarrow> bytes list \<Rightarrow> AccessError + bytes" where
  "dirtyStream ov [] = Inr []"
| "dirtyStream ov (f # fs) =
     ebind (liftPath (newCanonPath f)) (\<lambda>p. ebind (dirtyContent ov p) (\<lambda>c. ebind (dirtyStream ov fs) (\<lambda>r.
       Inr (writeString f @ c @ r))))"

definition dirtyUnderPath :: "TecnixSourceAccessor \<Rightarrow> CanonPath \<Rightarrow> bytes list" where
  "dirtyUnderPath ov p = filter (\<lambda>f. isRoot p \<or> f = rel p \<or> startsWith f (rel p @ [SLASH])) (ov_dirtyFiles ov)"

definition overlayFingerprint :: "(bytes \<Rightarrow> Hash) \<Rightarrow> TecnixSourceAccessor \<Rightarrow> CanonPath \<Rightarrow> AccessError + bytes option" where
  "overlayFingerprint sha256 ov p =
     ebind (cleanFingerprint ov p) (\<lambda>cleanFp. case cleanFp of
       None \<Rightarrow> Inr None
     | Some cfp \<Rightarrow>
         ebind (if \<not> isRoot p \<and> isDirty ov p then ebind (dirtyLstat ov p) (\<lambda>st. Inr (st = None)) else Inr False) (\<lambda>absent.
           if absent then Inr (Some ''absent'')
           else if dirtyUnderPath ov p = [] then Inr (Some cfp)
           else ebind (dirtyStream ov (sort (dirtyUnderPath ov p))) (\<lambda>stream.
             ebind (gitRev (sha256 stream)) (\<lambda>d. Inr (Some (cfp @ '';dirty='' @ d))))))"

section \<open>Recording\<close>

text \<open>The thread state that decides on recording: an active context, and the depth of running dumps.\<close>

record ReadContext =
  tracking :: bool
  dumpPathDepth :: nat

definition trackedRepoPathForAccess :: "TecnixSourceAccessor \<Rightarrow> CanonPath \<Rightarrow> AccessError + bytes" where
  "trackedRepoPathForAccess ov p =
     (if isRoot p then
        if ov_repoPrefix ov = [] then Inl (AccessFailed ''repo root'') else Inr (ov_repoPrefix ov)
      else if ov_repoPrefix ov = [] then Inr (rel p)
      else Inr (ov_repoPrefix ov @ SLASH # rel p))"

definition trackAccess :: "TecnixSourceAccessor \<Rightarrow> ReadContext \<Rightarrow> CanonPath \<Rightarrow> AccessError + bytes list" where
  "trackAccess ov ctx p = (if tracking ctx then ebind (trackedRepoPathForAccess ov p) (\<lambda>r. Inr [r]) else Inr [])"

definition recording :: "TecnixSourceAccessor \<Rightarrow> ReadContext \<Rightarrow> CanonPath \<Rightarrow> (AccessError + 'a) \<Rightarrow> bytes list \<times> (AccessError + 'a)" where
  "recording ov ctx p r = (case trackAccess ov ctx p of Inl e \<Rightarrow> ([], Inl e) | Inr l \<Rightarrow> (l, r))"

definition recordedReadFile :: "TecnixSourceAccessor \<Rightarrow> ReadContext \<Rightarrow> CanonPath \<Rightarrow> bytes list \<times> (AccessError + bytes)" where
  "recordedReadFile ov ctx p =
     (let r = readFile (source ov p) p in if dumpPathDepth ctx = 0 then recording ov ctx p r else ([], r))"

definition recordedReadLink :: "TecnixSourceAccessor \<Rightarrow> ReadContext \<Rightarrow> CanonPath \<Rightarrow> bytes list \<times> (AccessError + bytes)" where
  "recordedReadLink ov ctx p =
     (let r = readLink (source ov p) p in if dumpPathDepth ctx = 0 then recording ov ctx p r else ([], r))"

definition recordedReadDirectory :: "TecnixSourceAccessor \<Rightarrow> ReadContext \<Rightarrow> CanonPath \<Rightarrow> bytes list \<times> (AccessError + DirEntries)" where
  "recordedReadDirectory ov ctx p =
     (let r = overlayReadDirectory ov p in if dumpPathDepth ctx = 0 then recording ov ctx p r else ([], r))"

definition recordedFingerprint ::
    "(bytes \<Rightarrow> Hash) \<Rightarrow> TecnixSourceAccessor \<Rightarrow> ReadContext \<Rightarrow> CanonPath \<Rightarrow> bytes list \<times> (AccessError + bytes option)" where
  "recordedFingerprint sha256 ov ctx p = recording ov ctx p (overlayFingerprint sha256 ov p)"

section \<open>Building the accessor\<close>

text \<open>The dirty files and the staged ones among them; an entry listed twice keeps its last staged blob.\<close>

fun statusEntries ::
    "bool \<Rightarrow> GitStatusEntry list \<Rightarrow> bytes list \<Rightarrow> (bytes \<times> IndexEntry) list \<Rightarrow> AccessError + bytes list \<times> (bytes \<times> IndexEntry) list" where
  "statusEntries hasGit [] files staged = Inr (files, staged)"
| "statusEntries hasGit (e # es) files staged =
     ebind (case index e of
        Some b \<Rightarrow>
          if hasGit then
            (case parseNonSRIUnprefixed False (oid b) SHA1 of
               Inl _ \<Rightarrow> Inl (AccessFailed (oid b))
             | Inr h \<Rightarrow> Inr (AList.update (path e) \<lparr>ix_oid = h, ix_mode = mode b\<rparr> staged))
          else Inr staged
      | None \<Rightarrow> Inr staged)
     (statusEntries hasGit es (if path e \<in> set files then files else files @ [path e]))"

definition tecnixRepoAccessor ::
    "Accessor \<Rightarrow> (CanonPath \<Rightarrow> AccessError + bytes option) \<Rightarrow> Accessor \<Rightarrow> GitCleanFingerprints option \<Rightarrow> (Hash \<Rightarrow> AccessError + bytes) \<Rightarrow>
      bytes option \<Rightarrow> AccessError + TecnixSourceAccessor" where
  "tecnixRepoAccessor clean cleanFp disk git blobs status =
     (case status of
        None \<Rightarrow> newOverlay clean cleanFp clean git [] [] None
      | Some output' \<Rightarrow>
          (case parseGitPorcelainV2ZStatus output' of
             Inl _ \<Rightarrow> Inl (AccessFailed ''git status'')
           | Inr es \<Rightarrow>
               ebind (statusEntries (git \<noteq> None) es [] []) (\<lambda>(files, staged).
               ebind (if staged = [] then Inr None else ebind (newIndex blobs staged) (\<lambda>ix. Inr (Some ix))) (\<lambda>ix.
                 newOverlay clean cleanFp disk git [] files ix))))"


section \<open>Relative paths and their ancestors\<close>

lemma joined_inject: "validPath cs \<Longrightarrow> validPath ds \<Longrightarrow> joined cs = joined ds \<longleftrightarrow> cs = ds"
  by (metis elements_joined validPath_comps(2))

lemma joined_Nil: "validPath cs \<Longrightarrow> joined cs = [] \<longleftrightarrow> cs = []"
  by (simp add: joined_eq_Nil validPath_comps)

lemma isRoot_valid [simp]: "validPath cs \<Longrightarrow> isRoot (canonical cs) \<longleftrightarrow> cs = []"
  by (simp add: isRoot_canonical validPath_comps)

lemma slash_joined: "cs \<noteq> [] \<Longrightarrow> SLASH # joined cs = slashed cs"
  by (cases cs) auto

lemma NUL_joined: "validPath cs \<Longrightarrow> NUL \<notin> set (joined cs)"
proof -
  have "validPath cs \<Longrightarrow> NUL \<notin> set (slashed cs)" by (induction cs) (auto simp: validName_def)
  then show "validPath cs \<Longrightarrow> NUL \<notin> set (joined cs)" by (cases cs) (auto simp: validName_def)
qed

lemma newCanonPath_joined: "validPath cs \<Longrightarrow> newCanonPath (joined cs) = Inr (canonical cs)"
proof -
  assume v: "validPath cs"
  have "comps (joined cs) = cs" using tokenize_comps comps_joined [of cs "[]"] validPath_comps(2) [OF v] by simp
  then show ?thesis using NUL_joined [OF v] normalise_id [of cs] validPath_comps(1) [OF v]
    by (simp add: newCanonPath_spec)
qed

lemma joined_app: "cs \<noteq> [] \<Longrightarrow> joined (cs @ ds) = joined cs @ slashed ds"
  by (cases cs) auto

text \<open>The prefix that the loops of the overlay look for, and what follows it.\<close>

definition dirPrefixOf :: "bytes list \<Rightarrow> bytes" where
  "dirPrefixOf cs = (if cs = [] then [] else joined cs @ [SLASH])"

lemma below_prefix:
  assumes "validPath cs" "validPath ds"
  shows "startsWith (joined ds) (dirPrefixOf cs) \<longleftrightarrow> (if cs = [] then True else strict_prefix cs ds)"
proof (cases "cs = []")
  case False
  have "startsWith (joined ds) (joined cs @ [SLASH]) \<longleftrightarrow> (\<exists>t. joined ds = joined cs @ SLASH # t)"
    by (auto simp: startsWith_iff)
  also have "\<dots> \<longleftrightarrow> strict_prefix cs ds"
  proof
    assume "\<exists>t. joined ds = joined cs @ SLASH # t"
    then obtain t where t: "joined ds = joined cs @ SLASH # t" by blast
    then have ne: "ds \<noteq> []" using False by auto
    have "slashed ds = slashed cs @ SLASH # t" using t slash_joined [OF ne] slash_joined [OF False] by (metis append_Cons)
    then have "prefix cs ds" using slashed_prefix [of ds cs "SLASH # t"] assms validPath_comps(2) by auto
    moreover have "cs \<noteq> ds" using t by auto
    ultimately show "strict_prefix cs ds" by (simp add: strict_prefix_def)
  next
    assume "strict_prefix cs ds"
    then obtain n ns where "ds = cs @ n # ns" by (auto elim: strict_prefixE')
    then show "\<exists>t. joined ds = joined cs @ SLASH # t" using joined_app [OF False, of "n # ns"] by auto
  qed
  finally show ?thesis using False by (simp add: dirPrefixOf_def)
qed (simp add: dirPrefixOf_def startsWith_def)

lemma below_rest: "validPath cs \<Longrightarrow> drop (length (dirPrefixOf cs)) (joined (cs @ ns)) = joined ns"
  by (cases "cs = []"; cases ns) (auto simp: dirPrefixOf_def joined_app)

lemma joined_slash: "validPath ns \<Longrightarrow> SLASH \<in> set (joined ns) \<longleftrightarrow> 1 < length ns"
  by (cases ns; cases "tl ns") (auto simp: validName_def isComp_def isName_def)

definition ancestorsOf :: "bool \<Rightarrow> bytes list \<Rightarrow> bytes set" where
  "ancestorsOf withRoot cs = joined ` {ds. strict_prefix ds cs \<and> (withRoot \<or> ds \<noteq> [])}"

definition closedUp :: "bool \<Rightarrow> bytes set \<Rightarrow> bool" where
  "closedUp withRoot S = (\<forall>cs. validPath cs \<and> joined cs \<in> S \<longrightarrow> ancestorsOf withRoot cs \<subseteq> S)"

lemma ancestorsOf_Nil [simp]: "ancestorsOf w [] = {}"
  by (simp add: ancestorsOf_def)

lemma ancestorsOf_snoc: "ancestorsOf w (cs @ [n]) = ancestorsOf w cs \<union> (if w \<or> cs \<noteq> [] then {joined cs} else {})"
  by (auto simp: ancestorsOf_def strict_prefix_def)

lemma ancestorsOf_mono: "strict_prefix ds cs \<Longrightarrow> ancestorsOf w ds \<subseteq> ancestorsOf w cs"
  by (auto simp: ancestorsOf_def)

lemma closedUp_Un:
  assumes "closedUp w S" "validPath cs"
  shows "closedUp w (S \<union> ancestorsOf w cs)"
  unfolding closedUp_def
proof (intro allI impI)
  fix es assume a: "validPath es \<and> joined es \<in> S \<union> ancestorsOf w cs"
  then consider "joined es \<in> S" | ds where "joined es = joined ds" "strict_prefix ds cs" by (auto simp: ancestorsOf_def)
  then show "ancestorsOf w es \<subseteq> S \<union> ancestorsOf w cs"
  proof cases
    case 1
    then show ?thesis using assms(1) a by (auto simp: closedUp_def)
  next
    case 2
    then obtain ns where "cs = ds @ ns" by (auto simp: strict_prefix_def prefix_def)
    then have "es = ds" using joined_inject [of es ds] 2(1) a assms(2) by simp
    then show ?thesis using ancestorsOf_mono 2(2) by blast
  qed
qed

lemma ancestors_spec:
  assumes "validPath cs" "\<And>es. strict_prefix es cs \<Longrightarrow> joined es \<in> set ds \<Longrightarrow> ancestorsOf w es \<subseteq> set ds"
  shows "\<exists>ds'. ancestors w (canonical cs) ds = Inr ds' \<and> set ds' = set ds \<union> ancestorsOf w cs"
  using assms
proof (induction cs arbitrary: ds rule: rev_induct)
  case Nil
  then show ?case by (subst ancestors.simps) simp
next
  case (snoc n cs)
  have v: "validPath cs" "validPath (cs @ [n])" using snoc.prems(1) by simp_all
  have pop: "pop (canonical (cs @ [n])) = Inr (canonical cs)"
    using pop_canonical [OF validPath_comps(2) [OF v(2)]] by simp
  have step: "ancestors w (canonical (cs @ [n])) ds =
      (if \<not> w \<and> cs = [] \<or> joined cs \<in> set ds then Inr ds else ancestors w (canonical cs) (ds @ [joined cs]))"
    using isRoot_valid [OF v(1)] isRoot_valid [OF v(2)] by (subst ancestors.simps) (simp add: pop rel_canonical)
  consider (stop) "\<not> w \<and> cs = []" | (seen) "joined cs \<in> set ds" "w \<or> cs \<noteq> []" | (go) "w \<or> cs \<noteq> []" "joined cs \<notin> set ds" by blast
  then show ?case
  proof cases
    case stop
    then show ?thesis unfolding step using ancestorsOf_snoc [of w cs n] by simp
  next
    case seen
    then have "ancestorsOf w cs \<subseteq> set ds" using snoc.prems(2) [of cs] by (simp add: strict_prefix_def)
    then show ?thesis unfolding step using seen by (auto simp: ancestorsOf_snoc)
  next
    case go
    have "ancestorsOf w es \<subseteq> set (ds @ [joined cs])" if es: "strict_prefix es cs" "joined es \<in> set (ds @ [joined cs])" for es
    proof -
      obtain ns where "cs = es @ ns" using es(1) by (auto simp: strict_prefix_def prefix_def)
      then have "joined es \<noteq> joined cs" using joined_inject [of es cs] v(1) es(1) by auto
      then have "joined es \<in> set ds" using es(2) by simp
      moreover have "strict_prefix es (cs @ [n])" using es(1) by (auto simp: strict_prefix_def)
      ultimately show ?thesis using snoc.prems(2) by auto
    qed
    from snoc.IH [OF v(1) this] show ?thesis unfolding step using go by (auto simp: ancestorsOf_snoc)
  qed
qed

definition validFiles :: "bytes list \<Rightarrow> bool" where
  "validFiles fs = (\<forall>f \<in> set fs. \<exists>cs. cs \<noteq> [] \<and> validPath cs \<and> f = joined cs)"

text \<open>The directories that both constructors collect: all the ancestors of the files.\<close>

definition directoriesOf :: "bool \<Rightarrow> bytes set \<Rightarrow> bytes set" where
  "directoriesOf w F = {joined es | es cs. validPath cs \<and> joined cs \<in> F \<and> strict_prefix es cs \<and> (w \<or> es \<noteq> [])}"

fun ancestorsOfFiles :: "bool \<Rightarrow> bytes list \<Rightarrow> bytes list \<Rightarrow> AccessError + bytes list" where
  "ancestorsOfFiles w [] ds = Inr ds"
| "ancestorsOfFiles w (f # fs) ds = ebind (liftPath (newCanonPath f)) (\<lambda>p. ebind (ancestors w p ds) (ancestorsOfFiles w fs))"

lemma dirtyDirectories_eq: "dirtyDirectories fs = ancestorsOfFiles True fs"
  by (induction fs) (auto intro!: ext simp: dirtyAncestors_def)

lemma indexDirectories_eq: "indexDirectories es = ancestorsOfFiles False (map fst es)"
proof (induction es)
  case (Cons e es)
  then show ?case by (cases e) (auto intro!: ext simp: indexAncestors_def)
qed (auto intro!: ext)

lemma ancestorsOfFiles_spec:
  assumes "validFiles fs" "closedUp w (set ds)"
  shows "\<exists>ds'. ancestorsOfFiles w fs ds = Inr ds' \<and> closedUp w (set ds') \<and> set ds' = set ds \<union> directoriesOf w (set fs)"
  using assms
proof (induction fs arbitrary: ds)
  case (Cons f fs)
  obtain cs where cs: "validPath cs" "f = joined cs" using Cons.prems(1) by (auto simp: validFiles_def)
  have "ancestorsOf w es \<subseteq> set ds" if "strict_prefix es cs" "joined es \<in> set ds" for es
    using that cs(1) Cons.prems(2) by (auto simp: closedUp_def strict_prefix_def prefix_def)
  from ancestors_spec [OF cs(1) this] obtain ds1 where
    d1: "ancestors w (canonical cs) ds = Inr ds1" "set ds1 = set ds \<union> ancestorsOf w cs" by blast
  have "closedUp w (set ds1)" unfolding d1(2) by (rule closedUp_Un [OF Cons.prems(2) cs(1)])
  then obtain ds' where d': "ancestorsOfFiles w fs ds1 = Inr ds'" "closedUp w (set ds')"
      "set ds' = set ds1 \<union> directoriesOf w (set fs)"
    using Cons.IH [of ds1] Cons.prems(1) by (auto simp: validFiles_def)
  have "directoriesOf w (set (f # fs)) = ancestorsOf w cs \<union> directoriesOf w (set fs)"
    using joined_inject cs by (auto simp: ancestorsOf_def directoriesOf_def)
  then show ?case using d1 d' by (auto simp: newCanonPath_joined cs)
qed (auto simp: directoriesOf_def)

lemmas ancestorsOfFiles_Nil = ancestorsOfFiles_spec [where ds = "[]", simplified closedUp_def, simplified]

lemma directoriesOf_joined:
  assumes "validPath cs"
  shows "joined cs \<in> directoriesOf w F \<longleftrightarrow> (w \<or> cs \<noteq> []) \<and> (\<exists>ds. validPath ds \<and> joined ds \<in> F \<and> strict_prefix cs ds)"
proof -
  have "validPath ds \<Longrightarrow> strict_prefix es ds \<Longrightarrow> joined cs = joined es \<Longrightarrow> cs = es" for es ds
    using joined_inject assms by (auto simp: strict_prefix_def prefix_def)
  then show ?thesis by (auto simp: directoriesOf_def)
qed


section \<open>What the overlay finds\<close>

definition dirtyType :: "TecnixSourceAccessor \<Rightarrow> bytes list \<Rightarrow> FileType option" where
  "dirtyType ov cs = (case dirtyLstat ov (canonical cs) of Inr (Some st) \<Rightarrow> Some (statType st) | _ \<Rightarrow> None)"

text \<open>
  What is at a path whose content the checkout or the index holds, told from these two alone: a staged file or
  symlink, what the checkout has there, or a directory above something that is staged.
\<close>

definition stagedAt :: "TecnixSourceAccessor \<Rightarrow> bytes list \<Rightarrow> IndexEntry option" where
  "stagedAt ov cs = (if cs = [] then None else Option.bind (ov_index ov) (\<lambda>ix. map_of (ix_entries ix) (joined cs)))"

definition stagedBelow :: "TecnixSourceAccessor \<Rightarrow> bytes list \<Rightarrow> bool" where
  "stagedBelow ov cs =
     (cs \<noteq> [] \<and> (\<exists>ix ds. ov_index ov = Some ix \<and> validPath ds \<and> joined ds \<in> fst ` set (ix_entries ix) \<and> strict_prefix cs ds))"

definition statusType :: "TecnixSourceAccessor \<Rightarrow> bytes list \<Rightarrow> FileType option" where
  "statusType ov cs =
     (case stagedAt ov cs of
        Some e \<Rightarrow> Some (if ix_mode e = symlinkMode then tSymlink else tRegular)
      | None \<Rightarrow> if typeAt (ov_disk ov) cs = None \<and> stagedBelow ov cs then Some tDirectory else typeAt (ov_disk ov) cs)"

lemma statusType_disk: "ov_index ov = None \<Longrightarrow> statusType ov cs = typeAt (ov_disk ov) cs"
  by (simp add: statusType_def stagedAt_def stagedBelow_def)

text \<open>
  An overlay as the constructors make it: the directories of the dirty files and of the staged files are all
  their ancestors, and what the checkout has at a dirty path that is not staged can be told.
\<close>

definition indexBuilt :: "GitIndexSourceAccessor \<Rightarrow> bool" where
  "indexBuilt ix = (set (ix_directories ix) = directoriesOf False (fst ` set (ix_entries ix)))"

definition built :: "TecnixSourceAccessor \<Rightarrow> bool" where
  "built ov =
     (validFiles (ov_dirtyFiles ov) \<and> distinct (ov_dirtyFiles ov) \<and>
      set (ov_dirtyDirs ov) = directoriesOf True (set (ov_dirtyFiles ov)) \<and>
      (\<forall>ix. ov_index ov = Some ix \<longrightarrow> indexBuilt ix) \<and>
      (\<forall>cs. validPath cs \<and> joined cs \<in> set (ov_dirtyFiles ov) \<and> stagedAt ov cs = None \<longrightarrow>
         (\<exists>st. maybeLstat (ov_disk ov) (canonical cs) = Inr st)))"

lemma newIndex_built:
  assumes "newIndex blobs es = Inr ix" "validFiles (map fst es)"
  shows "indexBuilt ix"
proof -
  obtain ds where "indexDirectories es [] = Inr ds" "set ds = directoriesOf False (set (map fst es))"
    using ancestorsOfFiles_Nil [OF assms(2)] unfolding indexDirectories_eq by blast
  then show ?thesis using assms(1) by (auto simp: newIndex_def indexBuilt_def)
qed

lemma validFiles_joined:
  "validFiles fs \<Longrightarrow> f \<in> set fs \<Longrightarrow> \<exists>cs. f = joined cs \<and> cs \<noteq> [] \<and> validPath cs"
  by (auto simp: validFiles_def)

lemma built_root: "built ov \<Longrightarrow> [] \<notin> set (ov_dirtyFiles ov)"
  unfolding built_def using joined_Nil by (metis validFiles_joined)

lemma built_dirs:
  assumes "built ov" "validPath cs"
  shows "joined cs \<in> set (ov_dirtyDirs ov) \<longleftrightarrow> (\<exists>ds. validPath ds \<and> joined ds \<in> set (ov_dirtyFiles ov) \<and> strict_prefix cs ds)"
  using assms directoriesOf_joined by (simp add: built_def)

lemma built_dirs_valid: "built ov \<Longrightarrow> d \<in> set (ov_dirtyDirs ov) \<Longrightarrow> \<exists>es. validPath es \<and> d = joined es"
  by (auto simp: built_def directoriesOf_def strict_prefix_def prefix_def)

lemma built_up:
  assumes "built ov" "validPath (cs @ [n])" "joined (cs @ [n]) \<in> set (ov_dirtyFiles ov) \<or> joined (cs @ [n]) \<in> set (ov_dirtyDirs ov)"
  shows "joined cs \<in> set (ov_dirtyDirs ov)"
proof -
  have "\<exists>ds. validPath ds \<and> joined ds \<in> set (ov_dirtyFiles ov) \<and> prefix (cs @ [n]) ds"
    using assms(3)
  proof
    assume "joined (cs @ [n]) \<in> set (ov_dirtyFiles ov)"
    then show ?thesis using assms(2) by (intro exI [of _ "cs @ [n]"]) simp
  next
    assume "joined (cs @ [n]) \<in> set (ov_dirtyDirs ov)"
    then show ?thesis using built_dirs [OF assms(1,2)] by (auto simp: strict_prefix_def)
  qed
  moreover have "prefix (cs @ [n]) ds \<Longrightarrow> strict_prefix cs ds" for ds by (auto simp: strict_prefix_def prefix_def)
  ultimately show ?thesis using built_dirs [OF assms(1)] assms(2) by auto
qed

lemma isDirty_canonical: "isDirty ov (canonical cs) \<longleftrightarrow> joined cs \<in> set (ov_dirtyFiles ov)"
  by (simp add: isDirty_def rel_canonical)

lemma findEntry_staged: "validPath cs \<Longrightarrow> Option.bind (ov_index ov) (\<lambda>ix. findEntry ix (canonical cs)) = stagedAt ov cs"
  by (cases "ov_index ov") (simp_all add: stagedAt_def findEntry_def rel_canonical)

lemma containsDirectory_staged:
  assumes "built ov" "validPath cs"
  shows "(case ov_index ov of Some ix \<Rightarrow> containsDirectory ix (canonical cs) | None \<Rightarrow> False) = stagedBelow ov cs"
proof (cases "ov_index ov")
  case (Some ix)
  then have "indexBuilt ix" using assms(1) by (simp add: built_def)
  then show ?thesis using Some assms(2) directoriesOf_joined [OF assms(2)]
    by (simp add: containsDirectory_def stagedBelow_def rel_canonical indexBuilt_def)
qed (simp add: stagedBelow_def)

text \<open>The method of the overlay agrees with what the checkout and the index have.\<close>

lemma dirtyLstat_status:
  assumes "built ov" "validPath cs"
  shows "dirtyLstat ov (canonical cs) = Inr st \<Longrightarrow> map_option statType st = statusType ov cs"
    and "stagedAt ov cs \<noteq> None \<or> (\<exists>st. maybeLstat (ov_disk ov) (canonical cs) = Inr st) \<Longrightarrow> \<exists>st. dirtyLstat ov (canonical cs) = Inr st"
proof -
  have d: "dirtyLstat ov (canonical cs) =
      (case stagedAt ov cs of
         Some e \<Rightarrow> Inr (Some (if ix_mode e = symlinkMode then stat0 tSymlink else (stat0 tRegular)\<lparr>isExecutable := (ix_mode e = executableMode)\<rparr>))
       | None \<Rightarrow> ebind (maybeLstat (ov_disk ov) (canonical cs)) (\<lambda>s. Inr (if s = None \<and> stagedBelow ov cs then Some (stat0 tDirectory) else s)))"
    unfolding dirtyLstat_def containsDirectory_staged [OF assms] findEntry_staged [OF assms(2), symmetric]
    by (auto simp: dirtySource_def indexContains_def indexAccessor_def indexLstat_def split: option.splits bind_splits)
  show "dirtyLstat ov (canonical cs) = Inr st \<Longrightarrow> map_option statType st = statusType ov cs"
    unfolding d by (auto simp: statusType_def typeAt_def bind_defs split: option.splits if_splits)
  show "stagedAt ov cs \<noteq> None \<or> (\<exists>st. maybeLstat (ov_disk ov) (canonical cs) = Inr st) \<Longrightarrow> \<exists>st. dirtyLstat ov (canonical cs) = Inr st"
    unfolding d by (auto split: option.splits)
qed

lemma dirtyType_lstat:
  assumes "built ov" "validPath cs" "joined cs \<in> set (ov_dirtyFiles ov)"
  shows "\<exists>st. dirtyLstat ov (canonical cs) = Inr st \<and> dirtyType ov cs = map_option statType st"
proof -
  have "stagedAt ov cs \<noteq> None \<or> (\<exists>st. maybeLstat (ov_disk ov) (canonical cs) = Inr st)"
    using assms by (auto simp: built_def)
  then obtain st where "dirtyLstat ov (canonical cs) = Inr st" using dirtyLstat_status(2) [OF assms(1,2)] by blast
  then show ?thesis by (auto simp: dirtyType_def split: option.splits)
qed

lemma dirtyType_status:
  "built ov \<Longrightarrow> validPath cs \<Longrightarrow> joined cs \<in> set (ov_dirtyFiles ov) \<Longrightarrow> dirtyType ov cs = statusType ov cs"
  using dirtyType_lstat [of ov cs] dirtyLstat_status(1) [of ov cs] by metis

lemma mergeDirtyFiles_spec:
  assumes "built ov" "validPath cs" "set fs \<subseteq> set (ov_dirtyFiles ov)"
  shows "\<exists>es'. mergeDirtyFiles ov (canonical cs) (dirPrefixOf cs) fs es = Inr es' \<and>
    (\<forall>n. validName n \<longrightarrow> Mapping.lookup es' n = (if joined (cs @ [n]) \<in> set fs then map_option Some (dirtyType ov (cs @ [n])) else Mapping.lookup es n))"
  using assms(3)
proof (induction fs arbitrary: es)
  case (Cons f fs)
  obtain ds where ds: "f = joined ds" "ds \<noteq> []" "validPath ds"
    using validFiles_joined [of "ov_dirtyFiles ov" f] assms(1) Cons.prems by (auto simp: built_def)
  let ?rest = "drop (length (dirPrefixOf cs)) f"
  have IH: "\<exists>es'. mergeDirtyFiles ov (canonical cs) (dirPrefixOf cs) fs es0 = Inr es' \<and>
    (\<forall>n. validName n \<longrightarrow> Mapping.lookup es' n = (if joined (cs @ [n]) \<in> set fs then map_option Some (dirtyType ov (cs @ [n])) else Mapping.lookup es0 n))" for es0
    using Cons.IH Cons.prems by simp
  show ?case
  proof (cases "\<exists>m. ds = cs @ [m]")
    case False
    have skip: "\<not> startsWith f (dirPrefixOf cs) \<or> SLASH \<in> set ?rest"
    proof (rule ccontr)
      assume a: "\<not> (\<not> startsWith f (dirPrefixOf cs) \<or> SLASH \<in> set ?rest)"
      then have "prefix cs ds" using below_prefix [OF assms(2) ds(3)] ds(1) by (auto simp: strict_prefix_def split: if_splits)
      then obtain ns where ns: "ds = cs @ ns" by (auto simp: prefix_def)
      then have "SLASH \<notin> set (joined ns)" using a below_rest [OF assms(2), of ns] ds(1) by simp
      then have "\<not> 1 < length ns" using joined_slash [of ns] ds(3) ns by simp
      moreover have "ns \<noteq> []"
        using a ns ds below_prefix [OF assms(2) ds(3)] by (auto split: if_splits)
      ultimately show False using False ns by (cases ns) auto
    qed
    have "joined (cs @ [n]) \<noteq> f" if "validName n" for n using joined_inject [of "cs @ [n]" ds] ds that assms(2) False by auto
    then show ?thesis using IH [of es] skip by (auto simp: Let_def)
  next
    case True
    then obtain m where m: "ds = cs @ [m]" by blast
    then have vm: "validName m" using ds(3) by simp
    have rest: "?rest = m" using below_rest [OF assms(2), of "[m]"] ds(1) m by simp
    have go: "startsWith f (dirPrefixOf cs)" "SLASH \<notin> set m"
      using below_prefix [OF assms(2) ds(3)] ds(1) m vm by (auto simp: validName_def isComp_def isName_def strict_prefix_def)
    have "joined ds \<in> set (ov_dirtyFiles ov)" using ds(1) Cons.prems by simp
    from dirtyType_lstat [OF assms(1) ds(3) this] obtain st where
      st: "dirtyLstat ov (canonical (cs @ [m])) = Inr st" "dirtyType ov (cs @ [m]) = map_option statType st" using m by auto
    let ?es = "case st of None \<Rightarrow> Mapping.delete m es | Some st \<Rightarrow> Mapping.update m (Some (statType st)) es"
    have eq: "mergeDirtyFiles ov (canonical cs) (dirPrefixOf cs) (f # fs) es = mergeDirtyFiles ov (canonical cs) (dirPrefixOf cs) fs ?es"
      using rest go push_valid [OF assms(2) vm] st(1) by (simp add: Let_def slashName_def)
    have f: "joined (cs @ [n]) = f \<longleftrightarrow> n = m" if "validName n" for n
      using joined_inject [of "cs @ [n]" ds] ds that assms(2) m by auto
    have e: "Mapping.lookup ?es n = (if n = m then map_option Some (dirtyType ov (cs @ [m])) else Mapping.lookup es n)" for n
      using st(2) by (cases st) (auto simp: lookup_update')
    from IH [of ?es] show ?thesis unfolding eq using f e by (fastforce)
  qed
qed simp

lemma mergeDirtyDirs_spec:
  assumes "validPath cs" "\<forall>d \<in> set ds. \<exists>es. validPath es \<and> d = joined es" "validName n"
  shows "Mapping.lookup (mergeDirtyDirs (dirPrefixOf cs) ds es) n =
    (if joined (cs @ [n]) \<in> set ds \<and> Mapping.lookup es n = None then Some (Some tDirectory) else Mapping.lookup es n)"
  using assms(2)
proof (induction ds arbitrary: es)
  case (Cons d ds)
  obtain fs where fs: "validPath fs" "d = joined fs" using Cons.prems by auto
  let ?rest = "drop (length (dirPrefixOf cs)) d"
  have iff: "\<not> (\<not> startsWith d (dirPrefixOf cs) \<or> SLASH \<in> set ?rest \<or> ?rest = []) \<and> ?rest = n \<longleftrightarrow> fs = cs @ [n]"
  proof
    assume a: "\<not> (\<not> startsWith d (dirPrefixOf cs) \<or> SLASH \<in> set ?rest \<or> ?rest = []) \<and> ?rest = n"
    then have "prefix cs fs" using below_prefix [OF assms(1) fs(1)] fs(2) by (auto simp: strict_prefix_def split: if_splits)
    then obtain ns where ns: "fs = cs @ ns" by (auto simp: prefix_def)
    then have j: "joined ns = n" "validPath ns" using a below_rest [OF assms(1), of ns] fs by auto
    then have "\<not> 1 < length ns" "ns \<noteq> []" using a joined_slash [of ns] ns fs below_rest [OF assms(1), of ns] by auto
    then show "fs = cs @ [n]" using j ns by (cases ns) auto
  next
    assume e: "fs = cs @ [n]"
    have "SLASH \<notin> set n" "n \<noteq> []" using assms(3) by (auto simp: validName_def isComp_def isName_def)
    then show "\<not> (\<not> startsWith d (dirPrefixOf cs) \<or> SLASH \<in> set ?rest \<or> ?rest = []) \<and> ?rest = n"
      using e fs below_rest [OF assms(1), of "[n]"] below_prefix [OF assms(1) fs(1)] by (auto simp: strict_prefix_def)
  qed
  have d: "d = joined (cs @ [n]) \<longleftrightarrow> fs = cs @ [n]" using joined_inject [of fs "cs @ [n]"] fs assms by auto
  show ?case
  proof (cases "\<not> startsWith d (dirPrefixOf cs) \<or> SLASH \<in> set ?rest \<or> ?rest = []")
    case True
    then have "mergeDirtyDirs (dirPrefixOf cs) (d # ds) es = mergeDirtyDirs (dirPrefixOf cs) ds es" by (simp add: Let_def)
    then show ?thesis using Cons iff d True by auto
  next
    case False
    then have "mergeDirtyDirs (dirPrefixOf cs) (d # ds) es =
        mergeDirtyDirs (dirPrefixOf cs) ds (if Mapping.lookup es ?rest = None then Mapping.update ?rest (Some tDirectory) es else es)" by (simp add: Let_def)
    then show ?thesis using Cons iff d False by (cases "?rest = n") auto
  qed
qed simp


text \<open>
  What the output of \<^verbatim>\<open>git status\<close> means for the two trees and the index. A file of the revision that is not
  dirty has nothing dirty below; below a dirty path that is not a directory there is nothing, dirty or not; a
  dirty directory without dirty files, which is a submodule, is a directory of the revision; and a directory
  above dirty files is one of the revision, or else the revision has nothing there and the checkout or the
  index has the directory. The last two clauses are about the index: its files are dirty and its blobs can be
  read. Nothing here speaks of what the overlay answers.
\<close>

definition consistent :: "TecnixSourceAccessor \<Rightarrow> bool" where
  "consistent ov =
     (tree_accessor (ov_clean ov) \<and> tree_accessor (ov_disk ov) \<and> typeAt (ov_clean ov) [] = Some tDirectory \<and>
      (\<forall>cs. validPath cs \<and> joined cs \<notin> set (ov_dirtyFiles ov) \<and> typeAt (ov_clean ov) cs \<noteq> None \<and>
         typeAt (ov_clean ov) cs \<noteq> Some tDirectory \<longrightarrow> joined cs \<notin> set (ov_dirtyDirs ov)) \<and>
      (\<forall>cs n. validPath (cs @ [n]) \<and> joined cs \<in> set (ov_dirtyFiles ov) \<and> statusType ov cs \<noteq> Some tDirectory \<longrightarrow>
         (if joined (cs @ [n]) \<in> set (ov_dirtyFiles ov) then statusType ov (cs @ [n]) = None
          else joined (cs @ [n]) \<notin> set (ov_dirtyDirs ov) \<and> typeAt (ov_clean ov) (cs @ [n]) = None)) \<and>
      (\<forall>cs. validPath cs \<and> joined cs \<in> set (ov_dirtyFiles ov) \<and> joined cs \<notin> set (ov_dirtyDirs ov) \<and>
         statusType ov cs = Some tDirectory \<longrightarrow> typeAt (ov_clean ov) cs = Some tDirectory) \<and>
      (\<forall>cs. validPath cs \<and> joined cs \<in> set (ov_dirtyDirs ov) \<longrightarrow>
         (if joined cs \<in> set (ov_dirtyFiles ov) then statusType ov cs \<noteq> None
          else typeAt (ov_clean ov) cs = Some tDirectory \<or>
            maybeLstat (ov_clean ov) (canonical cs) = Inr None \<and>
            (\<exists>st. maybeLstat (ov_disk ov) (canonical cs) = Inr st) \<and> statusType ov cs = Some tDirectory)) \<and>
      (\<forall>ix cs. ov_index ov = Some ix \<and> validPath cs \<and> indexContains ix (canonical cs) \<longrightarrow> joined cs \<in> set (ov_dirtyFiles ov)) \<and>
      (\<forall>ix f e. ov_index ov = Some ix \<and> map_of (ix_entries ix) f = Some e \<longrightarrow> (\<exists>b. ix_blobs ix (ix_oid e) = Inr b)))"

lemma consistent_raw:
  assumes "consistent ov"
  shows "tree_accessor (ov_clean ov)" "tree_accessor (ov_disk ov)" "typeAt (ov_clean ov) [] = Some tDirectory"
    and "\<And>cs. validPath cs \<Longrightarrow> joined cs \<notin> set (ov_dirtyFiles ov) \<Longrightarrow> joined cs \<in> set (ov_dirtyDirs ov) \<Longrightarrow>
      typeAt (ov_clean ov) cs = None \<or> typeAt (ov_clean ov) cs = Some tDirectory"
    and "\<And>cs n. validPath (cs @ [n]) \<Longrightarrow> joined cs \<in> set (ov_dirtyFiles ov) \<Longrightarrow> statusType ov cs \<noteq> Some tDirectory \<Longrightarrow>
      joined (cs @ [n]) \<in> set (ov_dirtyFiles ov) \<Longrightarrow> statusType ov (cs @ [n]) = None"
    and "\<And>cs n. validPath (cs @ [n]) \<Longrightarrow> joined cs \<in> set (ov_dirtyFiles ov) \<Longrightarrow> statusType ov cs \<noteq> Some tDirectory \<Longrightarrow>
      joined (cs @ [n]) \<notin> set (ov_dirtyFiles ov) \<Longrightarrow>
      joined (cs @ [n]) \<notin> set (ov_dirtyDirs ov) \<and> typeAt (ov_clean ov) (cs @ [n]) = None"
    and "\<And>cs. validPath cs \<Longrightarrow> joined cs \<in> set (ov_dirtyFiles ov) \<Longrightarrow> joined cs \<notin> set (ov_dirtyDirs ov) \<Longrightarrow>
      statusType ov cs = Some tDirectory \<Longrightarrow> typeAt (ov_clean ov) cs = Some tDirectory"
    and "\<And>cs. validPath cs \<Longrightarrow> joined cs \<in> set (ov_dirtyDirs ov) \<Longrightarrow> joined cs \<in> set (ov_dirtyFiles ov) \<Longrightarrow> statusType ov cs \<noteq> None"
    and "\<And>cs. validPath cs \<Longrightarrow> joined cs \<in> set (ov_dirtyDirs ov) \<Longrightarrow> joined cs \<notin> set (ov_dirtyFiles ov) \<Longrightarrow>
      typeAt (ov_clean ov) cs = Some tDirectory \<or>
      maybeLstat (ov_clean ov) (canonical cs) = Inr None \<and>
      (\<exists>st. maybeLstat (ov_disk ov) (canonical cs) = Inr st) \<and> statusType ov cs = Some tDirectory"
    and "\<And>ix cs. ov_index ov = Some ix \<Longrightarrow> validPath cs \<Longrightarrow> indexContains ix (canonical cs) \<Longrightarrow> joined cs \<in> set (ov_dirtyFiles ov)"
    and "\<And>ix f e. ov_index ov = Some ix \<Longrightarrow> map_of (ix_entries ix) f = Some e \<Longrightarrow> \<exists>b. ix_blobs ix (ix_oid e) = Inr b"
  using assms unfolding consistent_def by (blast | metis)+

lemma overlayType_dirty:
  assumes "built ov" "validPath cs" "joined cs \<in> set (ov_dirtyFiles ov)"
  shows "typeAt (overlayAccessor ov) cs = dirtyType ov cs"
proof -
  have "cs \<noteq> []" using built_root [OF assms(1)] assms(3) by auto
  then show ?thesis using assms isDirty_canonical [of ov cs]
    by (simp add: typeAt_def overlayAccessor_def overlayLstat_def dirtyType_def)
qed

lemma overlayType_clean:
  assumes "built ov" "validPath cs" "joined cs \<notin> set (ov_dirtyFiles ov)" "cs = [] \<or> joined cs \<notin> set (ov_dirtyDirs ov)"
  shows "typeAt (overlayAccessor ov) cs = typeAt (ov_clean ov) cs"
  using assms isDirty_canonical [of ov cs]
  by (auto simp: typeAt_def overlayAccessor_def overlayLstat_def rel_canonical split: sum.splits option.splits)

lemma overlayType_dir:
  assumes "consistent ov" "built ov" "validPath cs" "joined cs \<notin> set (ov_dirtyFiles ov)" "typeAt (ov_clean ov) cs \<noteq> None"
  shows "typeAt (overlayAccessor ov) cs = typeAt (ov_clean ov) cs"
  using assms isDirty_canonical [of ov cs]
  by (auto simp: typeAt_def overlayAccessor_def overlayLstat_def rel_canonical split: sum.splits option.splits)


text \<open>
  A clean directory above dirty files: the clean tree has it, or the method falls back to what the checkout and
  the index have.
\<close>

lemma overlayType_above:
  assumes "built ov" "consistent ov" "validPath cs" "joined cs \<in> set (ov_dirtyDirs ov)" "joined cs \<notin> set (ov_dirtyFiles ov)"
  shows "typeAt (overlayAccessor ov) cs = Some tDirectory"
  using consistent_raw(9) [OF assms(2-5)]
proof
  assume "typeAt (ov_clean ov) cs = Some tDirectory"
  then show ?thesis using overlayType_dir [OF assms(2,1,3,5)] by simp
next
  assume a: "maybeLstat (ov_clean ov) (canonical cs) = Inr None \<and>
      (\<exists>st. maybeLstat (ov_disk ov) (canonical cs) = Inr st) \<and> statusType ov cs = Some tDirectory"
  then obtain st where st: "dirtyLstat ov (canonical cs) = Inr st" using dirtyLstat_status(2) [OF assms(1,3)] by blast
  have "typeAt (ov_clean ov) cs = None" using a by (simp add: typeAt_def)
  then have "cs \<noteq> []" using consistent_raw(3) [OF assms(2)] by auto
  then have "overlayLstat ov (canonical cs) = dirtyLstat ov (canonical cs)"
    using a assms(3-5) by (simp add: overlayLstat_def isDirty_canonical rel_canonical)
  then show ?thesis using st dirtyLstat_status(1) [OF assms(1,3) st] a
    by (auto simp: typeAt_def overlayAccessor_def)
qed

lemma consistentD:
  assumes "built ov" "consistent ov"
  shows "tree_accessor (ov_clean ov)" "tree_accessor (ov_disk ov)" "typeAt (ov_clean ov) [] = Some tDirectory"
    and "\<And>cs. validPath cs \<Longrightarrow> joined cs \<notin> set (ov_dirtyFiles ov) \<Longrightarrow> joined cs \<in> set (ov_dirtyDirs ov) \<Longrightarrow>
      typeAt (ov_clean ov) cs = None \<or> typeAt (ov_clean ov) cs = Some tDirectory"
    and "\<And>cs n. validPath (cs @ [n]) \<Longrightarrow> joined cs \<in> set (ov_dirtyFiles ov) \<Longrightarrow> dirtyType ov cs \<noteq> Some tDirectory \<Longrightarrow>
      joined (cs @ [n]) \<in> set (ov_dirtyFiles ov) \<Longrightarrow> dirtyType ov (cs @ [n]) = None"
    and "\<And>cs n. validPath (cs @ [n]) \<Longrightarrow> joined cs \<in> set (ov_dirtyFiles ov) \<Longrightarrow> dirtyType ov cs \<noteq> Some tDirectory \<Longrightarrow>
      joined (cs @ [n]) \<notin> set (ov_dirtyFiles ov) \<Longrightarrow>
      joined (cs @ [n]) \<notin> set (ov_dirtyDirs ov) \<and> typeAt (ov_clean ov) (cs @ [n]) = None"
    and "\<And>cs. validPath cs \<Longrightarrow> joined cs \<in> set (ov_dirtyFiles ov) \<Longrightarrow> joined cs \<notin> set (ov_dirtyDirs ov) \<Longrightarrow>
      dirtyType ov cs = Some tDirectory \<Longrightarrow> typeAt (ov_clean ov) cs = Some tDirectory"
    and "\<And>cs. validPath cs \<Longrightarrow> joined cs \<in> set (ov_dirtyDirs ov) \<Longrightarrow> joined cs \<in> set (ov_dirtyFiles ov) \<Longrightarrow> dirtyType ov cs \<noteq> None"
    and "\<And>cs. validPath cs \<Longrightarrow> joined cs \<in> set (ov_dirtyDirs ov) \<Longrightarrow> joined cs \<notin> set (ov_dirtyFiles ov) \<Longrightarrow>
      typeAt (overlayAccessor ov) cs = Some tDirectory"
    and "\<And>ix cs. ov_index ov = Some ix \<Longrightarrow> validPath cs \<Longrightarrow> indexContains ix (canonical cs) \<Longrightarrow> joined cs \<in> set (ov_dirtyFiles ov)"
    and "\<And>ix f e. ov_index ov = Some ix \<Longrightarrow> map_of (ix_entries ix) f = Some e \<Longrightarrow> \<exists>b. ix_blobs ix (ix_oid e) = Inr b"
  using consistent_raw [OF assms(2)] overlayType_above [OF assms]
  by (simp_all add: dirtyType_status [OF assms(1)])

text \<open>A dirty path: served by the index, or by the checkout.\<close>

lemma dirtySource_cases:
  assumes "built ov" "consistent ov" "validPath cs" "joined cs \<in> set (ov_dirtyFiles ov)"
  obtains (staged) ix e b where "ov_index ov = Some ix" "findEntry ix (canonical cs) = Some e" "ix_blobs ix (ix_oid e) = Inr b"
      "dirtySource ov (canonical cs) = indexAccessor ix"
      "dirtyType ov cs = Some (if ix_mode e = symlinkMode then tSymlink else tRegular)"
    | (disk) "dirtySource ov (canonical cs) = ov_disk ov" "Option.bind (ov_index ov) (\<lambda>ix. findEntry ix (canonical cs)) = None"
      "dirtyType ov cs = typeAt (ov_disk ov) cs \<or> typeAt (ov_disk ov) cs = None \<and> dirtyType ov cs = Some tDirectory"
proof (cases "\<exists>ix. ov_index ov = Some ix \<and> indexContains ix (canonical cs)")
  case True
  then obtain ix e where ix: "ov_index ov = Some ix" "findEntry ix (canonical cs) = Some e"
    by (auto simp: indexContains_def)
  then obtain b where b: "ix_blobs ix (ix_oid e) = Inr b"
    using consistentD(11) [OF assms(1,2) ix(1)] by (auto simp: findEntry_def split: if_splits)
  have d: "dirtySource ov (canonical cs) = indexAccessor ix" using ix by (simp add: dirtySource_def indexContains_def)
  then have "dirtyType ov cs = Some (if ix_mode e = symlinkMode then tSymlink else tRegular)"
    using ix by (simp add: dirtyType_def dirtyLstat_def indexAccessor_def indexLstat_def)
  then show ?thesis using staged ix b d by blast
next
  case False
  then have d: "dirtySource ov (canonical cs) = ov_disk ov" by (auto simp: dirtySource_def split: option.splits)
  obtain st where st: "dirtyLstat ov (canonical cs) = Inr st" using dirtyType_lstat [OF assms(1,3,4)] by blast
  have "Option.bind (ov_index ov) (\<lambda>ix. findEntry ix (canonical cs)) = None"
    using False by (cases "ov_index ov") (auto simp: indexContains_def)
  moreover have "dirtyType ov cs = typeAt (ov_disk ov) cs \<or> typeAt (ov_disk ov) cs = None \<and> dirtyType ov cs = Some tDirectory"
    using st d by (auto simp: dirtyType_def dirtyLstat_def typeAt_def bind_defs split: if_splits option.splits)
  ultimately show ?thesis using disk d by blast
qed

lemma index_reads:
  assumes "findEntry ix (canonical cs) = Some e" "ix_blobs ix (ix_oid e) = Inr b"
  shows "readFile (indexAccessor ix) (canonical cs) = (if ix_mode e = symlinkMode then Inl (NotARegularFile (canonical cs)) else Inr b)"
    and "readLink (indexAccessor ix) (canonical cs) = (if ix_mode e = symlinkMode then Inr b else Inl (NotASymlink (canonical cs)))"
  using assms by (simp_all add: indexAccessor_def indexReadFile_def indexReadLink_def need_def readBlob_def)

lemma overlay_read_file:
  assumes "built ov" "consistent ov" "validPath cs"
  shows "(\<exists>b. readFile (overlayAccessor ov) (canonical cs) = Inr b) \<longleftrightarrow> typeAt (overlayAccessor ov) cs = Some tRegular"
proof (cases "joined cs \<in> set (ov_dirtyFiles ov)")
  case True
  have s: "source ov (canonical cs) = dirtySource ov (canonical cs)" using True by (simp add: source_def isDirty_canonical)
  from assms(1-3) True show ?thesis
  proof (cases rule: dirtySource_cases)
    case (staged ix e b)
    then show ?thesis using index_reads(1) [OF staged(2,3)] overlayType_dirty [OF assms(1,3) True] s
      by (auto simp: overlayAccessor_def)
  next
    case disk
    have "(\<exists>b. readFile (overlayAccessor ov) (canonical cs) = Inr b) \<longleftrightarrow> typeAt (ov_disk ov) cs = Some tRegular"
      using tree_accessor.read_file [OF consistentD(2) [OF assms(1,2)] assms(3)] s disk(1) by (simp add: overlayAccessor_def)
    then show ?thesis using disk(3) overlayType_dirty [OF assms(1,3) True] by auto
  qed
next
  case False
  then have "source ov (canonical cs) = ov_clean ov" by (simp add: source_def isDirty_canonical)
  then have r: "(\<exists>b. readFile (overlayAccessor ov) (canonical cs) = Inr b) \<longleftrightarrow> typeAt (ov_clean ov) cs = Some tRegular"
    using tree_accessor.read_file [OF consistentD(1) [OF assms(1,2)] assms(3)] by (simp add: overlayAccessor_def)
  show ?thesis
  proof (cases "joined cs \<in> set (ov_dirtyDirs ov)")
    case True
    then show ?thesis using r consistentD(4) [OF assms(1-3) False True] consistentD(9) [OF assms(1-3) True False] by auto
  next
    case nd: False
    then show ?thesis using r overlayType_clean [OF assms(1,3) False] by simp
  qed
qed

lemma overlay_read_link:
  assumes "built ov" "consistent ov" "validPath cs"
  shows "(\<exists>b. readLink (overlayAccessor ov) (canonical cs) = Inr b) \<longleftrightarrow> typeAt (overlayAccessor ov) cs = Some tSymlink"
proof (cases "joined cs \<in> set (ov_dirtyFiles ov)")
  case True
  have s: "source ov (canonical cs) = dirtySource ov (canonical cs)" using True by (simp add: source_def isDirty_canonical)
  from assms(1-3) True show ?thesis
  proof (cases rule: dirtySource_cases)
    case (staged ix e b)
    then show ?thesis using index_reads(2) [OF staged(2,3)] overlayType_dirty [OF assms(1,3) True] s
      by (auto simp: overlayAccessor_def)
  next
    case disk
    have "(\<exists>b. readLink (overlayAccessor ov) (canonical cs) = Inr b) \<longleftrightarrow> typeAt (ov_disk ov) cs = Some tSymlink"
      using tree_accessor.read_link [OF consistentD(2) [OF assms(1,2)] assms(3)] s disk(1) by (simp add: overlayAccessor_def)
    then show ?thesis using disk(3) overlayType_dirty [OF assms(1,3) True] by auto
  qed
next
  case False
  then have "source ov (canonical cs) = ov_clean ov" by (simp add: source_def isDirty_canonical)
  then have r: "(\<exists>b. readLink (overlayAccessor ov) (canonical cs) = Inr b) \<longleftrightarrow> typeAt (ov_clean ov) cs = Some tSymlink"
    using tree_accessor.read_link [OF consistentD(1) [OF assms(1,2)] assms(3)] by (simp add: overlayAccessor_def)
  show ?thesis
  proof (cases "joined cs \<in> set (ov_dirtyDirs ov)")
    case True
    then show ?thesis using r consistentD(4) [OF assms(1-3) False True] consistentD(9) [OF assms(1-3) True False] by auto
  next
    case nd: False
    then show ?thesis using r overlayType_clean [OF assms(1,3) False] by simp
  qed
qed

definition cleanListing :: "TecnixSourceAccessor \<Rightarrow> bytes list \<Rightarrow> bytes \<Rightarrow> FileType option option" where
  "cleanListing ov cs = Mapping.lookup (case readDirectory (ov_clean ov) (canonical cs) of Inr es \<Rightarrow> es | Inl _ \<Rightarrow> Mapping.empty)"

lemma mergedEntries_spec:
  assumes "built ov" "validPath cs"
  shows "\<exists>es. mergedEntries ov (canonical cs) = Inr es \<and>
    (\<forall>n. validName n \<longrightarrow>
      (let e = (if joined (cs @ [n]) \<in> set (ov_dirtyFiles ov) then map_option Some (dirtyType ov (cs @ [n])) else cleanListing ov cs n)
       in Mapping.lookup es n = (if joined (cs @ [n]) \<in> set (ov_dirtyDirs ov) \<and> e = None then Some (Some tDirectory) else e)))"
proof -
  have p: "(let r = (if isRoot (canonical cs) then [] else rel (canonical cs)) in if r = [] then [] else r @ [SLASH]) = dirPrefixOf cs"
    using joined_Nil [OF assms(2)] by (simp add: assms(2) rel_canonical dirPrefixOf_def)
  have ds: "\<forall>d \<in> set (ov_dirtyDirs ov). \<exists>es. validPath es \<and> d = joined es"
    using built_dirs_valid [OF assms(1)] by blast
  define E where "E = (case readDirectory (ov_clean ov) (canonical cs) of Inr es \<Rightarrow> es | Inl _ \<Rightarrow> Mapping.empty)"
  have c: "cleanListing ov cs = Mapping.lookup E" by (simp add: cleanListing_def E_def)
  obtain es where es: "mergeDirtyFiles ov (canonical cs) (dirPrefixOf cs) (ov_dirtyFiles ov) E = Inr es"
      "\<forall>n. validName n \<longrightarrow> Mapping.lookup es n = (if joined (cs @ [n]) \<in> set (ov_dirtyFiles ov) then map_option Some (dirtyType ov (cs @ [n])) else cleanListing ov cs n)"
    using mergeDirtyFiles_spec [OF assms subset_refl, of E] unfolding c by blast
  have "mergedEntries ov (canonical cs) = Inr (mergeDirtyDirs (dirPrefixOf cs) (ov_dirtyDirs ov) es)"
    using es(1) p by (simp add: mergedEntries_def E_def Let_def)
  then show ?thesis using mergeDirtyDirs_spec [OF assms(2) ds] es(2) by (auto simp: Let_def)
qed

lemma overlayReadDirectory_cases:
  assumes "built ov" "consistent ov" "validPath cs"
  shows "overlayReadDirectory ov (canonical cs) =
    (if joined cs \<in> set (ov_dirtyFiles ov) \<and> dirtyType ov cs \<noteq> Some tDirectory then readDirectory (dirtySource ov (canonical cs)) (canonical cs)
     else if cs \<noteq> [] \<and> joined cs \<notin> set (ov_dirtyDirs ov) then readDirectory (ov_clean ov) (canonical cs)
     else mergedEntries ov (canonical cs))"
proof (cases "joined cs \<in> set (ov_dirtyFiles ov)")
  case True
  then have "cs \<noteq> []" using built_root [OF assms(1)] by auto
  obtain st where "dirtyLstat ov (canonical cs) = Inr st" "dirtyType ov cs = map_option statType st"
    using dirtyType_lstat [OF assms(1,3) True] by blast
  then show ?thesis using True \<open>cs \<noteq> []\<close> assms(3)
    by (cases st) (auto simp: overlayReadDirectory_def isDirty_canonical rel_canonical Let_def)
next
  case False
  then show ?thesis using assms(3) by (simp add: overlayReadDirectory_def isDirty_canonical rel_canonical Let_def)
qed

lemma dirtySource_no_directory:
  assumes "built ov" "consistent ov" "validPath cs" "joined cs \<in> set (ov_dirtyFiles ov)" "dirtyType ov cs \<noteq> Some tDirectory"
  shows "\<exists>e. readDirectory (dirtySource ov (canonical cs)) (canonical cs) = Inl e"
  using assms(1-4)
proof (cases rule: dirtySource_cases)
  case (staged ix e b)
  then show ?thesis by (simp add: indexAccessor_def)
next
  case disk
  then have "typeAt (ov_disk ov) cs \<noteq> Some tDirectory" using assms(5) by auto
  then show ?thesis using tree_accessor.reads_fail(3) [OF consistentD(2) [OF assms(1,2)] assms(3)] disk(1) by simp
qed

lemma overlay_read_directory:
  assumes "built ov" "consistent ov" "validPath cs"
  shows "(\<exists>es. readDirectory (overlayAccessor ov) (canonical cs) = Inr es) \<longleftrightarrow> typeAt (overlayAccessor ov) cs = Some tDirectory"
proof -
  have rd: "readDirectory (overlayAccessor ov) (canonical cs) = overlayReadDirectory ov (canonical cs)" by (simp add: overlayAccessor_def)
  note cl = tree_accessor.read_directory [OF consistentD(1) [OF assms(1,2)] assms(3)]
  obtain es where es: "mergedEntries ov (canonical cs) = Inr es" using mergedEntries_spec [OF assms(1,3)] by blast
  show ?thesis
  proof (cases "joined cs \<in> set (ov_dirtyFiles ov)")
    case True
    then have "cs \<noteq> []" using built_root [OF assms(1)] by auto
    then show ?thesis unfolding rd overlayReadDirectory_cases [OF assms] overlayType_dirty [OF assms(1,3) True]
      using True es dirtySource_no_directory [OF assms True] cl consistentD(7) [OF assms(1-3) True] by auto
  next
    case False
    show ?thesis
    proof (cases "cs \<noteq> [] \<and> joined cs \<notin> set (ov_dirtyDirs ov)")
      case True
      then show ?thesis unfolding rd overlayReadDirectory_cases [OF assms]
        using False cl overlayType_clean [OF assms(1,3) False] by simp
    next
      case d: False
      then have "typeAt (overlayAccessor ov) cs = Some tDirectory"
        using overlayType_clean [OF assms(1,3) False] consistentD(3) [OF assms(1,2)] consistentD(9) [OF assms(1-3) _ False]
        by (cases "cs = []") auto
      then show ?thesis unfolding rd overlayReadDirectory_cases [OF assms] using False d es by auto
    qed
  qed
qed


text \<open>What the overlay finds below a clean directory that the listing of the clean tree tells.\<close>

lemma cleanListing_type:
  assumes "tree_accessor (ov_clean ov)" "validPath (cs @ [n])"
  shows "entryOk (cleanListing ov cs n) (typeAt (ov_clean ov) (cs @ [n]))"
proof (cases "readDirectory (ov_clean ov) (canonical cs)")
  case (Inr es)
  then show ?thesis using tree_accessor.entries [OF assms(1) _ _ Inr] assms(2) by (simp add: cleanListing_def)
next
  case (Inl e)
  then have "typeAt (ov_clean ov) cs \<noteq> Some tDirectory"
    using tree_accessor.read_directory [OF assms(1), of cs] assms(2) by auto
  then have "typeAt (ov_clean ov) (cs @ [n]) = None"
    using tree_accessor.parents [OF assms(1), of cs n] assms(2) by (metis validPath_simps(1,2,3))
  then show ?thesis using Inl by (simp add: cleanListing_def entryOk_def)
qed

lemma overlay_entries:
  assumes "built ov" "consistent ov" "validPath cs" "validName n" "readDirectory (overlayAccessor ov) (canonical cs) = Inr es"
  shows "entryOk (Mapping.lookup es n) (typeAt (overlayAccessor ov) (cs @ [n]))"
proof -
  have v: "validPath (cs @ [n])" using assms(3,4) by simp
  have r: "overlayReadDirectory ov (canonical cs) = Inr es" using assms(5) by (simp add: overlayAccessor_def)
  note rc = r [unfolded overlayReadDirectory_cases [OF assms(1-3)]]
  let ?D = "set (ov_dirtyFiles ov)" and ?P = "set (ov_dirtyDirs ov)"
  have ok: "\<not> (joined cs \<in> ?D \<and> dirtyType ov cs \<noteq> Some tDirectory)"
  proof
    assume a: "joined cs \<in> ?D \<and> dirtyType ov cs \<noteq> Some tDirectory"
    then have "readDirectory (dirtySource ov (canonical cs)) (canonical cs) = Inr es" using rc by simp
    then show False using dirtySource_no_directory [OF assms(1-3)] a by auto
  qed
  show ?thesis
  proof (cases "cs \<noteq> [] \<and> joined cs \<notin> ?P")
    case True
    then have "readDirectory (ov_clean ov) (canonical cs) = Inr es" using rc ok by simp
    then have "entryOk (Mapping.lookup es n) (typeAt (ov_clean ov) (cs @ [n]))"
      using tree_accessor.entries [OF consistentD(1) [OF assms(1,2)] assms(3,4)] by blast
    moreover have "joined (cs @ [n]) \<notin> ?D \<and> joined (cs @ [n]) \<notin> ?P" using built_up [OF assms(1) v] True by blast
    ultimately show ?thesis using overlayType_clean [OF assms(1) v] by simp
  next
    case False
    then have m: "mergedEntries ov (canonical cs) = Inr es" using rc ok by auto
    have e: "Mapping.lookup es n = (let e = (if joined (cs @ [n]) \<in> ?D then map_option Some (dirtyType ov (cs @ [n])) else cleanListing ov cs n)
       in if joined (cs @ [n]) \<in> ?P \<and> e = None then Some (Some tDirectory) else e)"
      using mergedEntries_spec [OF assms(1,3)] m assms(4) by (auto simp: Let_def)
    show ?thesis
    proof (cases "joined (cs @ [n]) \<in> ?D")
      case True
      then have "joined (cs @ [n]) \<in> ?P \<Longrightarrow> dirtyType ov (cs @ [n]) \<noteq> None" using consistentD(8) [OF assms(1,2) v] by blast
      then show ?thesis using e True overlayType_dirty [OF assms(1) v True] by (auto simp: Let_def entryOk_def split: option.splits)
    next
      case clean: False
      note c = cleanListing_type [OF consistentD(1) [OF assms(1,2)] v]
      show ?thesis
      proof (cases "cleanListing ov cs n")
        case (Some t)
        then show ?thesis using c e clean overlayType_dir [OF assms(2,1) v clean] by (auto simp: entryOk_def)
      next
        case None
        then have t: "typeAt (ov_clean ov) (cs @ [n]) = None" using c by (simp add: entryOk_def)
        show ?thesis
        proof (cases "joined (cs @ [n]) \<in> ?P")
          case True
          then show ?thesis using e clean None consistentD(9) [OF assms(1,2) v True clean] by (simp add: entryOk_def)
        next
          case np: False
          then show ?thesis using e clean None t overlayType_clean [OF assms(1) v clean] by (simp add: entryOk_def)
        qed
      qed
    qed
  qed
qed

lemma overlay_parents:
  assumes "built ov" "consistent ov" "validPath cs" "validName n" "typeAt (overlayAccessor ov) (cs @ [n]) \<noteq> None"
  shows "typeAt (overlayAccessor ov) cs = Some tDirectory"
proof -
  have v: "validPath (cs @ [n])" using assms(3,4) by simp
  let ?D = "set (ov_dirtyFiles ov)" and ?P = "set (ov_dirtyDirs ov)"
  show ?thesis
  proof (cases "joined cs \<in> ?D")
    case True
    have "dirtyType ov cs = Some tDirectory"
    proof (rule ccontr)
      assume nd: "dirtyType ov cs \<noteq> Some tDirectory"
      show False
      proof (cases "joined (cs @ [n]) \<in> ?D")
        case True
        then show ?thesis using consistentD(5) [OF assms(1,2) v \<open>joined cs \<in> ?D\<close> nd True] overlayType_dirty [OF assms(1) v True] assms(5) by simp
      next
        case False
        then show ?thesis using consistentD(6) [OF assms(1,2) v \<open>joined cs \<in> ?D\<close> nd False] overlayType_clean [OF assms(1) v False] assms(5) by simp
      qed
    qed
    then show ?thesis using overlayType_dirty [OF assms(1,3) True] by simp
  next
    case False
    show ?thesis
    proof (cases "joined cs \<in> ?P")
      case True
      then show ?thesis using consistentD(9) [OF assms(1-3) True False] by simp
    next
      case np: False
      then have c: "joined (cs @ [n]) \<notin> ?D" "joined (cs @ [n]) \<notin> ?P" using built_up [OF assms(1) v] by blast+
      then have "typeAt (ov_clean ov) (cs @ [n]) \<noteq> None" using assms(5) overlayType_clean [OF assms(1) v] by simp
      then have "typeAt (ov_clean ov) cs = Some tDirectory"
        using tree_accessor.parents [OF consistentD(1) [OF assms(1,2)] assms(3,4)] by blast
      then show ?thesis using overlayType_clean [OF assms(1,3) False] np by simp
    qed
  qed
qed

lemma overlay_tree_accessor:
  assumes "built ov" "consistent ov"
  shows "tree_accessor (overlayAccessor ov)"
  using overlay_read_file [OF assms] overlay_read_link [OF assms] overlay_read_directory [OF assms] overlay_entries [OF assms]
    overlay_parents [OF assms]
  by unfold_locales

text \<open>The accessors that are built from a status are built overlays.\<close>

lemma newOverlay_built:
  assumes "newOverlay clean cleanFp disk git rp fs ix = Inr ov" "validFiles fs" "distinct fs"
    "\<And>i. ix = Some i \<Longrightarrow> indexBuilt i"
    "\<And>cs. validPath cs \<Longrightarrow> joined cs \<in> set fs \<Longrightarrow> stagedAt ov cs = None \<Longrightarrow> \<exists>st. maybeLstat disk (canonical cs) = Inr st"
  shows "built ov"
proof -
  obtain ds where ds: "dirtyDirectories fs [] = Inr ds" "set ds = directoriesOf True (set fs)"
    using ancestorsOfFiles_Nil [OF assms(2)] unfolding dirtyDirectories_eq by blast
  then have "ov_dirtyFiles ov = fs" "ov_dirtyDirs ov = ds" "ov_disk ov = disk" "ov_index ov = ix"
    using assms(1) by (auto simp: newOverlay_def)
  then show ?thesis using assms(2-5) ds(2) by (simp add: built_def)
qed

text \<open>What the overlay finds: the dirty files as they are staged or on disk, and the clean tree with the new directories.\<close>

lemma overlay_types:
  assumes "built ov" "consistent ov" "validPath cs"
  shows "typeAt (overlayAccessor ov) cs =
    (if joined cs \<in> set (ov_dirtyFiles ov) then statusType ov cs
     else if joined cs \<in> set (ov_dirtyDirs ov) then Some tDirectory else typeAt (ov_clean ov) cs)"
  using overlayType_dirty [OF assms(1,3)] dirtyType_status [OF assms(1,3)] overlayType_above [OF assms] overlayType_clean [OF assms(1,3)]
  by auto

text \<open>
  C8: The overlay of a dirty checkout is a file system again: over trees that keep the contract of accessors and
  a status of the checkout that is consistent with them, files, links and directories are read exactly where the
  overlay has them, every listing names exactly what is found below it, and what is found has a directory above.
  What it has is told by the trees: a dirty path is what is staged or else on disk, a directory above dirty files
  is there even if the revision does not have it, and everything else is as in the revision.
\<close>
theorem overlay_contract:
  assumes "built ov" "consistent ov"
  shows "tree_accessor (overlayAccessor ov) \<and>
    (\<forall>cs. validPath cs \<longrightarrow> typeAt (overlayAccessor ov) cs =
      (if joined cs \<in> set (ov_dirtyFiles ov) then statusType ov cs
       else if joined cs \<in> set (ov_dirtyDirs ov) then Some tDirectory else typeAt (ov_clean ov) cs))"
  using overlay_tree_accessor [OF assms] overlay_types [OF assms] by blast

end
