(* ===== verification/Overlay_Fingerprint.thy ===== *)
theory Overlay_Fingerprint
  imports Repo_Overlay Memory_Accessor
begin

text \<open>
  What a fingerprint of the overlay promises (\<^verbatim>\<open>TecnixSourceAccessor::getFingerprint\<close> of
  \<^verbatim>\<open>src/libexpr/tecnix/repo-accessor.cc\<close>): two checkouts that give a path the same fingerprint show the same
  files at and below it. The theory has the texts that go into the digest, that they can be read back, and the
  comparison of two overlays; and the checkouts for which the overlay does less than it should.
\<close>

section \<open>Texts of fingerprints\<close>

definition oidOk :: "Hash \<Rightarrow> bool" where
  "oidOk h = (wfHash h \<and> algo h = SHA1)"

lemma gitRev_wf: "wfHash h \<Longrightarrow> gitRev h = Inr (base16_encode (hashBytes h))"
  using regularHashSize_bounds [of "algo h"] by (simp add: gitRev_def to_string_def wfHash_def)

lemma base16_inject: "base16_encode xs = base16_encode ys \<Longrightarrow> xs = ys"
  by (metis hexPairs_encode sum.inject(2))

lemma hash_inject: "wfHash g \<Longrightarrow> wfHash h \<Longrightarrow> algo g = algo h \<Longrightarrow> gitRev g = gitRev h \<Longrightarrow> g = h"
  using hash_rebuild [of g] hash_rebuild [of h] base16_inject by (metis gitRev_wf sum.inject(2))

lemma base16_no_y: "CHR ''y'' \<notin> set (base16_encode bs)" "CHR '';'' \<notin> set (base16_encode bs)"
proof -
  have "CHR ''y'' \<notin> set base16Chars" "CHR '';'' \<notin> set base16Chars" by (code_simp+)
  then show "CHR ''y'' \<notin> set (base16_encode bs)" "CHR '';'' \<notin> set (base16_encode bs)"
    using base16_encode_chars [of bs] by blast+
qed

lemma octal_digit: "d < 8 \<Longrightarrow> (of_char (char_of (48 + d) :: char) :: nat) = 48 + d" for d :: nat
  by simp

lemma octalDigits_value: "octalValue (octalDigits n) = n"
proof (induction n rule: octalDigits.induct)
  case (1 n)
  show ?case
  proof (cases "n < 8")
    case True
    then show ?thesis by (subst octalDigits.simps) (simp add: octalValue_def del: octalDigits.simps)
  next
    case False
    then have "octalValue (octalDigits n) = octalValue (octalDigits (n div 8)) * 8 + n mod 8"
      by (subst octalDigits.simps) (simp add: octalValue_def del: octalDigits.simps)
    then show ?thesis using 1 False by simp
  qed
qed

lemma printMode_value: "octalValue (printMode m) = m"
proof -
  have "foldl (\<lambda>v c. v * 8 + (of_char c - 48)) (0::nat) (replicate k CHR ''0'') = 0" for k by (induction k) simp_all
  then show ?thesis using octalDigits_value [of m] by (simp add: printMode_def octalValue_def del: octalDigits.simps)
qed

lemma octalDigits_no_y: "CHR ''y'' \<notin> set (octalDigits n)"
proof (induction n rule: octalDigits.induct)
  case (1 n)
  have y: "CHR ''y'' \<noteq> char_of (48 + d)" if "d < 8" for d :: nat
  proof
    assume "CHR ''y'' = char_of (48 + d)"
    then have "(of_char (CHR ''y'') :: nat) = of_char (char_of (48 + d) :: char)" by simp
    then show False using that by simp
  qed
  show ?case using 1 y [of n] y [of "n mod 8"] by (subst octalDigits.simps) (auto simp del: octalDigits.simps)
qed

lemma gitFingerprint_wf:
  "wfHash h \<Longrightarrow> gitFingerprintWithMode h m = Inr (''git:'' @ base16_encode (hashBytes h) @ '';mode='' @ printMode m)"
  by (simp add: gitFingerprintWithMode_def gitRev_wf)

lemma split_at: "a @ c # x = b @ c # y \<Longrightarrow> c \<notin> set a \<Longrightarrow> c \<notin> set b \<Longrightarrow> a = b \<and> x = y"
  by (metis breakOn_append option.inject prod.inject)

lemma gitFingerprint_inject:
  assumes "oidOk g" "oidOk h" "gitFingerprintWithMode g m = gitFingerprintWithMode h n"
  shows "g = h \<and> m = n"
proof -
  have w: "wfHash g" "wfHash h" "algo g = algo h" using assms(1,2) by (auto simp: oidOk_def)
  have "base16_encode (hashBytes g) @ CHR '';'' # ''mode='' @ printMode m = base16_encode (hashBytes h) @ CHR '';'' # ''mode='' @ printMode n"
    using assms(3) gitFingerprint_wf [OF w(1)] gitFingerprint_wf [OF w(2)] by simp
  then have "base16_encode (hashBytes g) = base16_encode (hashBytes h) \<and> ''mode='' @ printMode m = ''mode='' @ printMode n"
    by (rule split_at) (simp_all add: base16_no_y)
  then have "gitRev g = gitRev h" "printMode m = printMode n" using gitRev_wf w by simp_all
  then show ?thesis using hash_inject w printMode_value by metis
qed

text \<open>The fingerprint of a clean path has no letter y, and the mark of a dirty one has one.\<close>

lemma gitFingerprint_no_y: "gitFingerprintWithMode h m = Inr fp \<Longrightarrow> wfHash h \<Longrightarrow> CHR ''y'' \<notin> set fp"
  using base16_no_y(1) [of "hashBytes h"] octalDigits_no_y [of m]
  by (auto simp: gitFingerprint_wf printMode_def simp del: octalDigits.simps)

lemma dirty_mark_split:
  assumes "a @ '';dirty='' @ x = b @ '';dirty='' @ y" "CHR ''y'' \<notin> set a" "CHR ''y'' \<notin> set b"
  shows "a = b \<and> x = y"
proof -
  have "(a @ '';dirt'') @ CHR ''y'' # ''='' @ x = (b @ '';dirt'') @ CHR ''y'' # ''='' @ y" using assms(1) by simp
  then have "a @ '';dirt'' = b @ '';dirt'' \<and> ''='' @ x = ''='' @ y" by (rule split_at) (simp_all add: assms(2,3))
  then show ?thesis by simp
qed

section \<open>Reading the digested text back\<close>

definition hashable :: "TecnixSourceAccessor \<Rightarrow> bool" where
  "hashable ov =
     ((\<forall>f \<in> set (ov_dirtyFiles ov). length f < 2 ^ 64) \<and>
      (\<forall>cs c. validPath cs \<and> joined cs \<in> set (ov_dirtyFiles ov) \<and>
         (readFile (ov_disk ov) (canonical cs) = Inr c \<or> readLink (ov_disk ov) (canonical cs) = Inr c) \<longrightarrow> length c < 2 ^ 64) \<and>
      (\<forall>ix f e. ov_index ov = Some ix \<and> map_of (ix_entries ix) f = Some e \<longrightarrow> oidOk (ix_oid e) \<and> ix_mode e < 2 ^ 32) \<and>
      (\<forall>cs. validPath cs \<and> joined cs \<in> set (ov_dirtyFiles ov) \<longrightarrow>
         dirtyType ov cs \<in> {None, Some tRegular, Some tSymlink, Some tDirectory}))"

text \<open>The content of one dirty file as the strings that are written.\<close>

definition contentOk :: "bytes list \<Rightarrow> bool" where
  "contentOk ts = (ts = [] \<or> ts = [''D''] \<or> (\<exists>t x. ts = [t, x] \<and> t \<in> {''G'', ''X'', ''F'', ''L''} \<and> length x < 2 ^ 64))"

lemma writeString_ne [simp]: "writeString s \<noteq> []"
  by (simp add: writeString_def writeNum_def)

lemma content_split:
  assumes "contentOk as" "contentOk bs" "concat (map writeString as) @ x = concat (map writeString bs) @ y"
    "x = [] \<or> (\<exists>f r. x = writeString f @ r \<and> length f \<noteq> 1 \<and> length f < 2 ^ 64)"
    "y = [] \<or> (\<exists>f r. y = writeString f @ r \<and> length f \<noteq> 1 \<and> length f < 2 ^ 64)"
  shows "as = bs \<and> x = y"
proof -
  have tag: "t \<in> {''D'', ''G'', ''X'', ''F'', ''L''} \<Longrightarrow> length t = 1" for t by auto
  have start: "as = []" if a: "as = [] \<or> bs = []" "contentOk as" "contentOk bs"
    "concat (map writeString as) @ x = concat (map writeString bs) @ y"
    "y = [] \<or> (\<exists>f r. y = writeString f @ r \<and> length f \<noteq> 1 \<and> length f < 2 ^ 64)" for as bs x y
  proof (rule ccontr)
    assume ne: "as \<noteq> []"
    then obtain t ts where t: "as = t # ts" "length t = 1" using a(2) tag unfolding contentOk_def by auto
    have "bs = []" using a(1) ne by simp
    then have "writeString t @ concat (map writeString ts) @ x = y" using a(4) t by simp
    then obtain f r where f: "writeString t @ concat (map writeString ts) @ x = writeString f @ r" "length f \<noteq> 1" "length f < 2 ^ 64"
      using a(5) by auto
    then have "t = f" using writeString_inject [OF f(1)] t(2) by simp
    then show False using f(2) t(2) by simp
  qed
  consider "as = [] \<or> bs = []" | "as \<noteq> []" "bs \<noteq> []" by blast
  then show ?thesis
  proof cases
    case 1
    have "as = []" by (rule start [OF 1 assms(1-3,5)])
    moreover have "bs = []" by (rule start [OF _ assms(2,1) assms(3) [symmetric] assms(4)]) (use 1 in blast)
    ultimately show ?thesis using assms(3) by simp
  next
    case 2
    then obtain s ss t ts where st: "as = s # ss" "bs = t # ts" by (cases as; cases bs) auto
    have l: "length s = 1" "length t = 1" using st assms(1,2) tag unfolding contentOk_def by auto
    have eq: "writeString s @ concat (map writeString ss) @ x = writeString t @ concat (map writeString ts) @ y"
      using assms(3) st by simp
    then have e: "s = t" "concat (map writeString ss) @ x = concat (map writeString ts) @ y"
      using writeString_inject [OF eq] l by simp_all
    consider "ss = []" "ts = []" | u v where "ss = [u]" "ts = [v]" "length u < 2 ^ 64" "length v < 2 ^ 64"
      using assms(1,2) st e(1) unfolding contentOk_def by auto
    then show ?thesis
    proof cases
      case 1
      then show ?thesis using e st by simp
    next
      case (2 u v)
      then have "u = v \<and> x = y" using e(2) writeString_inject [of u x v y] by simp
      then show ?thesis using 2 st e by simp
    qed
  qed
qed


definition described :: "TecnixSourceAccessor \<Rightarrow> bytes list \<Rightarrow> bytes list \<Rightarrow> bool" where
  "described ov cs ts =
     (case Option.bind (ov_index ov) (\<lambda>ix. findEntry ix (canonical cs)) of
        Some e \<Rightarrow> \<exists>fp. gitFingerprintWithMode (ix_oid e) (ix_mode e) = Inr fp \<and> ts = [''G'', fp]
      | None \<Rightarrow>
          (case dirtyLstat ov (canonical cs) of
             Inl _ \<Rightarrow> False
           | Inr None \<Rightarrow> ts = [''D'']
           | Inr (Some st) \<Rightarrow>
               if statType st = tRegular then
                 \<exists>c. readFile (ov_disk ov) (canonical cs) = Inr c \<and> ts = [if isExecutable st then ''X'' else ''F'', c]
               else if statType st = tSymlink then \<exists>t. readLink (ov_disk ov) (canonical cs) = Inr t \<and> ts = [''L'', t]
               else ts = []))"

lemma length_octalDigits: "length (octalDigits n) \<le> Suc n"
proof (induction n rule: octalDigits.induct)
  case (1 n)
  then show ?case by (subst octalDigits.simps) (auto simp del: octalDigits.simps intro: le_trans)
qed

lemma gitFingerprint_length:
  assumes "oidOk h" "m < 2 ^ 32" "gitFingerprintWithMode h m = Inr fp"
  shows "length fp < 2 ^ 64"
proof -
  have "length (base16_encode (hashBytes h)) = 40"
    using assms(1) length_hashBytes [of h] by (simp add: length_base16_encode base16_encodedLength_def oidOk_def)
  moreover have "length (printMode m) \<le> 6 + Suc m" using length_octalDigits [of m] by (simp add: printMode_def del: octalDigits.simps)
  ultimately show ?thesis using assms gitFingerprint_wf [of h m] by (auto simp: oidOk_def)
qed

lemma dirtyContent_described:
  assumes "built ov" "consistent ov" "hashable ov" "validPath cs" "joined cs \<in> set (ov_dirtyFiles ov)" "dirtyContent ov (canonical cs) = Inr c"
  shows "\<exists>ts. c = concat (map writeString ts) \<and> contentOk ts \<and> described ov cs ts"
proof (cases "Option.bind (ov_index ov) (\<lambda>ix. findEntry ix (canonical cs))")
  case (Some e)
  then obtain ix where ix: "ov_index ov = Some ix" "map_of (ix_entries ix) (rel (canonical cs)) = Some e"
    by (auto simp: findEntry_def split: bind_splits if_splits)
  then have o: "oidOk (ix_oid e)" "ix_mode e < 2 ^ 32" using assms(3) unfolding hashable_def by blast+
  obtain fp where fp: "gitFingerprintWithMode (ix_oid e) (ix_mode e) = Inr fp" "c = writeString ''G'' @ writeString fp"
    using assms(6) Some by (auto simp: dirtyContent_def bind_defs)
  have "length fp < 2 ^ 64" by (rule gitFingerprint_length [OF o fp(1)])
  then show ?thesis using fp Some by (intro exI [of _ "[''G'', fp]"]) (simp add: contentOk_def described_def)
next
  case None
  obtain st where st: "dirtyLstat ov (canonical cs) = Inr st" using dirtyType_lstat [OF assms(1,4,5)] by blast
  have small: "readFile (ov_disk ov) (canonical cs) = Inr b \<or> readLink (ov_disk ov) (canonical cs) = Inr b \<Longrightarrow> length b < 2 ^ 64" for b
    using assms(3-5) unfolding hashable_def by blast
  show ?thesis
  proof (cases st)
    case st_none: None
    then show ?thesis using assms(6) None st by (intro exI [of _ "[''D'']"]) (simp add: dirtyContent_def contentOk_def described_def)
  next
    case st_some: (Some z)
    consider (reg) "statType z = tRegular" | (sym) "statType z = tSymlink" | (other) "statType z \<noteq> tRegular" "statType z \<noteq> tSymlink" by blast
    then show ?thesis
    proof cases
      case reg
      then obtain b where b: "readFile (ov_disk ov) (canonical cs) = Inr b" "c = writeString (if isExecutable z then ''X'' else ''F'') @ writeString b"
        using assms(6) None st st_some by (auto simp: dirtyContent_def bind_defs)
      then show ?thesis using reg None st st_some small [of b]
        by (intro exI [of _ "[if isExecutable z then ''X'' else ''F'', b]"]) (simp add: contentOk_def described_def)
    next
      case sym
      then obtain b where b: "readLink (ov_disk ov) (canonical cs) = Inr b" "c = writeString ''L'' @ writeString b"
        using assms(6) None st st_some by (auto simp: dirtyContent_def bind_defs)
      then show ?thesis using sym None st st_some small [of b]
        by (intro exI [of _ "[''L'', b]"]) (simp add: contentOk_def described_def)
    next
      case other
      then show ?thesis using assms(6) None st st_some
        by (intro exI [of _ "[]"]) (simp add: dirtyContent_def contentOk_def described_def)
    qed
  qed
qed

text \<open>Two lists of dirty files with the same text are the same, and so are the descriptions of their files.\<close>

definition markFree :: "bytes list \<Rightarrow> bool" where
  "markFree fs = (\<forall>f \<in> set fs. length f \<noteq> 1)"

lemma dirtyStream_start:
  assumes "dirtyStream ov fs = Inr s" "markFree fs" "\<forall>f \<in> set fs. length f < 2 ^ 64"
  shows "s = [] \<or> (\<exists>f r. s = writeString f @ r \<and> length f \<noteq> 1 \<and> length f < 2 ^ 64)"
  using assms by (cases fs) (auto simp: bind_defs markFree_def)

lemma dirtyStream_inject:
  assumes "built ov1" "consistent ov1" "hashable ov1" "built ov2" "consistent ov2" "hashable ov2"
    "dirtyStream ov1 fs = Inr s" "dirtyStream ov2 gs = Inr s" "set fs \<subseteq> set (ov_dirtyFiles ov1)" "set gs \<subseteq> set (ov_dirtyFiles ov2)"
    "markFree (tl fs)" "markFree (tl gs)"
  shows "fs = gs \<and> (\<forall>cs. validPath cs \<and> joined cs \<in> set fs \<longrightarrow> (\<exists>ts. described ov1 cs ts \<and> described ov2 cs ts))"
  using assms(7-12)
proof (induction fs arbitrary: gs s)
  case Nil
  then show ?case by (cases gs) (auto simp: bind_defs)
next
  case (Cons f fs)
  note P = Cons.prems
  obtain g gs' where gs: "gs = g # gs'" using P(1,2) by (cases gs) (auto simp: bind_defs)
  have len: "\<forall>x \<in> set (f # fs). length x < 2 ^ 64" "\<forall>x \<in> set (g # gs'). length x < 2 ^ 64"
    using assms(3,6) P(3,4) gs unfolding hashable_def by blast+
  obtain cs where cs: "f = joined cs" "validPath cs"
    using validFiles_joined [of "ov_dirtyFiles ov1" f] assms(1) P(3) by (auto simp: built_def)
  obtain ds where ds: "g = joined ds" "validPath ds"
    using validFiles_joined [of "ov_dirtyFiles ov2" g] assms(4) P(4) gs by (auto simp: built_def)
  obtain c1 r1 where 1: "dirtyContent ov1 (canonical cs) = Inr c1" "dirtyStream ov1 fs = Inr r1" "s = writeString f @ c1 @ r1"
    using P(1) cs by (auto simp: bind_defs newCanonPath_joined)
  obtain c2 r2 where 2: "dirtyContent ov2 (canonical ds) = Inr c2" "dirtyStream ov2 gs' = Inr r2" "s = writeString g @ c2 @ r2"
    using P(2) ds gs by (auto simp: bind_defs newCanonPath_joined)
  have fg: "f = g" "c1 @ r1 = c2 @ r2"
    using writeString_inject [of f "c1 @ r1" g "c2 @ r2"] 1(3) 2(3) len by auto
  then have cd: "cs = ds" using joined_inject cs ds by auto
  obtain as where as: "c1 = concat (map writeString as)" "contentOk as" "described ov1 cs as"
    using dirtyContent_described [OF assms(1-3) cs(2) _ 1(1)] cs(1) P(3) by auto
  obtain bs where bs: "c2 = concat (map writeString bs)" "contentOk bs" "described ov2 cs bs"
    using dirtyContent_described [OF assms(4-6) ds(2) _ 2(1)] ds(1) P(4) gs cd by auto
  have mf: "markFree fs" "markFree gs'" using P(5,6) gs by simp_all
  have "as = bs \<and> r1 = r2"
    using content_split [OF as(2) bs(2), of r1 r2] fg(2) as(1) bs(1) dirtyStream_start [OF 1(2) mf(1)] dirtyStream_start [OF 2(2) mf(2)] len
    by simp
  then have r: "as = bs" "r1 = r2" by simp_all
  have "markFree (tl fs)" "markFree (tl gs')" using mf unfolding markFree_def by (metis list.set_sel(2) tl_Nil)+
  then have IH: "fs = gs' \<and> (\<forall>cs. validPath cs \<and> joined cs \<in> set fs \<longrightarrow> (\<exists>ts. described ov1 cs ts \<and> described ov2 cs ts))"
    using Cons.IH [OF 1(2)] 2(2) r(2) P(3,4) gs by simp
  show ?case
  proof (intro conjI allI impI)
    show "f # fs = gs" using IH fg gs by simp
    fix es assume a: "validPath es \<and> joined es \<in> set (f # fs)"
    show "\<exists>ts. described ov1 es ts \<and> described ov2 es ts"
    proof (cases "joined es = f")
      case True
      then have "es = cs" using joined_inject [of es cs] a cs by simp
      then show ?thesis using as(3) bs(3) r(1) by blast
    next
      case False
      then show ?thesis using IH a by simp
    qed
  qed
qed


section \<open>The same files\<close>

definition okOf :: "'e + 'a \<Rightarrow> 'a option" where
  "okOf r = (case r of Inl _ \<Rightarrow> None | Inr x \<Rightarrow> Some x)"

lemma okOf_simps [simp]: "okOf (Inl e) = None" "okOf (Inr x) = Some x"
  by (simp_all add: okOf_def)

definition kind :: "AccessError + Stat option \<Rightarrow> (FileType \<times> bool) option" where
  "kind r = (case r of Inr (Some st) \<Rightarrow> Some (statType st, statType st = tRegular \<and> isExecutable st) | _ \<Rightarrow> None)"

definition sameListing :: "(AccessError + DirEntries) \<Rightarrow> (AccessError + DirEntries) \<Rightarrow> bool" where
  "sameListing r1 r2 =
     (case (r1, r2) of
        (Inr es1, Inr es2) \<Rightarrow> \<forall>n. validName n \<longrightarrow> Mapping.lookup es1 n = Mapping.lookup es2 n
      | (Inl _, Inl _) \<Rightarrow> True
      | _ \<Rightarrow> False)"

text \<open>Two accessors show the same at a path: the type, the executable bit, and what the reads return.\<close>

definition sameView :: "Accessor \<Rightarrow> Accessor \<Rightarrow> bytes list \<Rightarrow> bool" where
  "sameView A B cs =
     (kind (maybeLstat A (canonical cs)) = kind (maybeLstat B (canonical cs)) \<and>
      okOf (readFile A (canonical cs)) = okOf (readFile B (canonical cs)) \<and>
      okOf (readLink A (canonical cs)) = okOf (readLink B (canonical cs)) \<and>
      sameListing (readDirectory A (canonical cs)) (readDirectory B (canonical cs)))"

definition sameDirty :: "TecnixSourceAccessor \<Rightarrow> TecnixSourceAccessor \<Rightarrow> bytes list \<Rightarrow> bool" where
  "sameDirty ov1 ov2 cs =
     (kind (dirtyLstat ov1 (canonical cs)) = kind (dirtyLstat ov2 (canonical cs)) \<and>
      okOf (readFile (dirtySource ov1 (canonical cs)) (canonical cs)) = okOf (readFile (dirtySource ov2 (canonical cs)) (canonical cs)) \<and>
      okOf (readLink (dirtySource ov1 (canonical cs)) (canonical cs)) = okOf (readLink (dirtySource ov2 (canonical cs)) (canonical cs)))"

lemma dirtyType_kind: "dirtyType ov cs = map_option fst (kind (dirtyLstat ov (canonical cs)))"
  by (simp add: dirtyType_def kind_def split: sum.splits option.splits)

lemma described_disk:
  assumes "built ov" "consistent ov" "hashable ov" "validPath cs" "joined cs \<in> set (ov_dirtyFiles ov)" "described ov cs ts"
    "dirtySource ov (canonical cs) = ov_disk ov" "Option.bind (ov_index ov) (\<lambda>ix. findEntry ix (canonical cs)) = None"
    "dirtyType ov cs = typeAt (ov_disk ov) cs \<or> typeAt (ov_disk ov) cs = None \<and> dirtyType ov cs = Some tDirectory"
  shows "kind (dirtyLstat ov (canonical cs)) =
      (if ts = [''D''] then None else if ts = [] then Some (tDirectory, False)
       else if hd ts = ''L'' then Some (tSymlink, False) else Some (tRegular, hd ts = ''X''))"
    "okOf (readFile (ov_disk ov) (canonical cs)) = (if ts = [] \<or> hd ts \<notin> {''X'', ''F''} then None else Some (ts ! 1))"
    "okOf (readLink (ov_disk ov) (canonical cs)) = (if ts = [] \<or> hd ts \<noteq> ''L'' then None else Some (ts ! 1))"
    "ts = [] \<or> hd ts \<noteq> ''G''"
proof -
  obtain st where st: "dirtyLstat ov (canonical cs) = Inr st" "dirtyType ov cs = map_option statType st"
    using dirtyType_lstat [OF assms(1,4,5)] by blast
  have ty: "dirtyType ov cs \<in> {None, Some tRegular, Some tSymlink, Some tDirectory}"
    using assms(3-5) unfolding hashable_def by blast
  have rf: "okOf (readFile (ov_disk ov) (canonical cs)) = None" if "dirtyType ov cs \<noteq> Some tRegular"
    using tree_accessor.reads_fail(1) [OF consistentD(2) [OF assms(1,2)] assms(4)] assms(9) that by fastforce
  have rl: "okOf (readLink (ov_disk ov) (canonical cs)) = None" if "dirtyType ov cs \<noteq> Some tSymlink"
    using tree_accessor.reads_fail(2) [OF consistentD(2) [OF assms(1,2)] assms(4)] assms(9) that by fastforce
  consider (none) "st = None" "ts = [''D'']"
    | (reg) z c where "st = Some z" "statType z = tRegular" "readFile (ov_disk ov) (canonical cs) = Inr c" "ts = [if isExecutable z then ''X'' else ''F'', c]"
    | (sym) z t where "st = Some z" "statType z = tSymlink" "readLink (ov_disk ov) (canonical cs) = Inr t" "ts = [''L'', t]"
    | (dir) z where "st = Some z" "statType z = tDirectory" "ts = []"
  proof (cases st)
    case None
    then show ?thesis using none assms(6,8) st by (simp add: described_def)
  next
    case (Some z)
    then have "statType z = tRegular \<or> statType z = tSymlink \<or> statType z = tDirectory" using ty st(2) by auto
    then show ?thesis using reg sym dir assms(6,8) st(1) Some by (auto simp: described_def)
  qed
  note cs' = this
  show "kind (dirtyLstat ov (canonical cs)) =
      (if ts = [''D''] then None else if ts = [] then Some (tDirectory, False)
       else if hd ts = ''L'' then Some (tSymlink, False) else Some (tRegular, hd ts = ''X''))"
    using cs' by cases (auto simp: kind_def st(1))
  show "okOf (readFile (ov_disk ov) (canonical cs)) = (if ts = [] \<or> hd ts \<notin> {''X'', ''F''} then None else Some (ts ! 1))"
    using cs' by cases (use rf st(2) in auto)
  show "okOf (readLink (ov_disk ov) (canonical cs)) = (if ts = [] \<or> hd ts \<noteq> ''L'' then None else Some (ts ! 1))"
    using cs' by cases (use rl st(2) in auto)
  show "ts = [] \<or> hd ts \<noteq> ''G''" using cs' by cases auto
qed

lemma described_same:
  assumes "built ov1" "consistent ov1" "hashable ov1" "built ov2" "consistent ov2" "hashable ov2" "validPath cs"
    "joined cs \<in> set (ov_dirtyFiles ov1)" "joined cs \<in> set (ov_dirtyFiles ov2)" "described ov1 cs ts" "described ov2 cs ts"
    "\<And>ix1 ix2. ov_index ov1 = Some ix1 \<Longrightarrow> ov_index ov2 = Some ix2 \<Longrightarrow> ix_blobs ix1 = ix_blobs ix2"
  shows "sameDirty ov1 ov2 cs"
  using assms(1,2,7,8)
proof (cases rule: dirtySource_cases)
  case 1: (staged ix1 e1 b1)
  have "ts \<noteq> []" "hd ts = ''G''" using assms(10) 1(1,2) by (auto simp: described_def)
  from assms(4,5,7,9) show ?thesis
  proof (cases rule: dirtySource_cases)
    case 2: (staged ix2 e2 b2)
    have o: "oidOk (ix_oid e1)" "oidOk (ix_oid e2)"
      using assms(3,6) 1(1,2) 2(1,2) unfolding hashable_def findEntry_def by (metis option.distinct(1))+
    have "gitFingerprintWithMode (ix_oid e1) (ix_mode e1) = gitFingerprintWithMode (ix_oid e2) (ix_mode e2)"
      using assms(10,11) 1(1,2) 2(1,2) by (auto simp: described_def)
    then have e: "ix_oid e1 = ix_oid e2" "ix_mode e1 = ix_mode e2" using gitFingerprint_inject o by auto
    moreover have "b1 = b2" using 1(3) 2(3) e assms(12) [OF 1(1) 2(1)] by simp
    moreover have "dirtyLstat ov (canonical cs) = indexLstat ix (canonical cs)"
      if "findEntry ix (canonical cs) = Some e" "dirtySource ov (canonical cs) = indexAccessor ix" for ov ix e
      using that by (simp add: dirtyLstat_def indexAccessor_def indexLstat_def)
    ultimately show ?thesis
      using 1(2,4) 2(2,4) index_reads [OF 1(2,3)] index_reads [OF 2(2,3)]
      by (simp add: sameDirty_def kind_def indexLstat_def)
  next
    case disk
    then show ?thesis using described_disk(4) [OF assms(4-6,7,9,11) disk] \<open>ts \<noteq> []\<close> \<open>hd ts = ''G''\<close> by simp
  qed
next
  case 1: disk
  from assms(4,5,7,9) show ?thesis
  proof (cases rule: dirtySource_cases)
    case (staged ix2 e2 b2)
    then have "ts \<noteq> []" "hd ts = ''G''" using assms(11) by (auto simp: described_def)
    then show ?thesis using described_disk(4) [OF assms(1-3,7,8,10) 1] by simp
  next
    case 2: disk
    show ?thesis unfolding sameDirty_def
      using described_disk(1-3) [OF assms(1-3,7,8,10) 1] described_disk(1-3) [OF assms(4-6,7,9,11) 2] 1(1) 2(1) by simp
  qed
qed


lemma sameView_absent:
  assumes "tree_accessor A" "tree_accessor B" "validPath cs" "typeAt A cs = None" "typeAt B cs = None"
  shows "sameView A B cs"
proof -
  have k: "kind r = None" if "(case r of Inr (Some st) \<Rightarrow> Some (statType st) | _ \<Rightarrow> None) = None" for r
    using that by (auto simp: kind_def split: sum.splits option.splits)
  show ?thesis
    using tree_accessor.reads_fail [OF assms(1,3)] tree_accessor.reads_fail [OF assms(2,3)] assms(4,5)
      k [of "maybeLstat A (canonical cs)"] k [of "maybeLstat B (canonical cs)"]
    by (fastforce simp: sameView_def sameListing_def typeAt_def)
qed

lemma absent_below:
  assumes "tree_accessor A" "validPath (cs @ ds)" "typeAt A cs = None"
  shows "typeAt A (cs @ ds) = None"
proof (cases "ds = []")
  case False
  show ?thesis
  proof (rule ccontr)
    assume "typeAt A (cs @ ds) \<noteq> None"
    then have "typeAt A cs = Some tDirectory" by (rule tree_accessor.ancestors [OF assms(1,2) False])
    then show False using assms(3) by simp
  qed
qed (use assms in simp)

lemma overlay_merged_same:
  assumes "built ov1" "built ov2" "validPath cs"
    "\<And>n. validName n \<Longrightarrow> joined (cs @ [n]) \<in> set (ov_dirtyFiles ov1) \<longleftrightarrow> joined (cs @ [n]) \<in> set (ov_dirtyFiles ov2)"
    "\<And>n. validName n \<Longrightarrow> joined (cs @ [n]) \<in> set (ov_dirtyDirs ov1) \<longleftrightarrow> joined (cs @ [n]) \<in> set (ov_dirtyDirs ov2)"
    "\<And>n. validName n \<Longrightarrow> joined (cs @ [n]) \<in> set (ov_dirtyFiles ov1) \<Longrightarrow> dirtyType ov1 (cs @ [n]) = dirtyType ov2 (cs @ [n])"
    "\<And>n. validName n \<Longrightarrow> cleanListing ov1 cs n = cleanListing ov2 cs n"
  shows "sameListing (mergedEntries ov1 (canonical cs)) (mergedEntries ov2 (canonical cs))"
proof -
  obtain es1 where 1: "mergedEntries ov1 (canonical cs) = Inr es1"
    "\<forall>n. validName n \<longrightarrow>
      (let e = (if joined (cs @ [n]) \<in> set (ov_dirtyFiles ov1) then map_option Some (dirtyType ov1 (cs @ [n])) else cleanListing ov1 cs n)
       in Mapping.lookup es1 n = (if joined (cs @ [n]) \<in> set (ov_dirtyDirs ov1) \<and> e = None then Some (Some tDirectory) else e))"
    using mergedEntries_spec [OF assms(1,3)] by blast
  obtain es2 where 2: "mergedEntries ov2 (canonical cs) = Inr es2"
    "\<forall>n. validName n \<longrightarrow>
      (let e = (if joined (cs @ [n]) \<in> set (ov_dirtyFiles ov2) then map_option Some (dirtyType ov2 (cs @ [n])) else cleanListing ov2 cs n)
       in Mapping.lookup es2 n = (if joined (cs @ [n]) \<in> set (ov_dirtyDirs ov2) \<and> e = None then Some (Some tDirectory) else e))"
    using mergedEntries_spec [OF assms(2,3)] by blast
  have "Mapping.lookup es1 n = Mapping.lookup es2 n" if n: "validName n" for n
    using 1(2) 2(2) n assms(4-7) [OF n] by (simp add: Let_def)
  then show ?thesis using 1(1) 2(1) by (simp add: sameListing_def)
qed

lemma overlay_views_agree:
  assumes "built ov1" "consistent ov1" "built ov2" "consistent ov2" "validPath cs" "cs \<noteq> []"
    and D: "\<And>ds. validPath ds \<Longrightarrow> joined (cs @ ds) \<in> set (ov_dirtyFiles ov1) \<longleftrightarrow> joined (cs @ ds) \<in> set (ov_dirtyFiles ov2)"
    and clean: "\<And>ds. validPath ds \<Longrightarrow> sameView (ov_clean ov1) (ov_clean ov2) (cs @ ds)"
    and dirty: "\<And>ds. validPath ds \<Longrightarrow> joined (cs @ ds) \<in> set (ov_dirtyFiles ov1) \<Longrightarrow> sameDirty ov1 ov2 (cs @ ds)"
    and ds: "validPath ds"
  shows "sameView (overlayAccessor ov1) (overlayAccessor ov2) (cs @ ds)"
proof -
  have P: "joined (cs @ es) \<in> set (ov_dirtyDirs ov1) \<longleftrightarrow> joined (cs @ es) \<in> set (ov_dirtyDirs ov2)" if es: "validPath es" for es
  proof -
    have v: "validPath (cs @ es)" using es assms(5) by simp
    have "validPath fs \<and> strict_prefix (cs @ es) fs \<Longrightarrow> joined fs \<in> set (ov_dirtyFiles ov1) \<longleftrightarrow> joined fs \<in> set (ov_dirtyFiles ov2)" for fs
      using D by (auto simp: strict_prefix_def prefix_def)
    then show ?thesis using built_dirs [OF assms(1) v] built_dirs [OF assms(3) v] by blast
  qed
  let ?q = "cs @ ds"
  have v: "validPath ?q" "?q \<noteq> []" using ds assms(5,6) by simp_all
  have sv: "sameView (ov_clean ov1) (ov_clean ov2) ?q" by (rule clean [OF ds])
  have vn: "validPath (ds @ [n])" if "validName n" for n using that ds by simp
  have cl: "cleanListing ov1 ?q n = cleanListing ov2 ?q n" if "validName n" for n
    using sv that by (auto simp: sameView_def sameListing_def cleanListing_def split: sum.splits)
  have merged: "sameListing (mergedEntries ov1 (canonical ?q)) (mergedEntries ov2 (canonical ?q))"
  proof (rule overlay_merged_same [OF assms(1,3) v(1)])
    fix n assume n: "validName n"
    show "joined (?q @ [n]) \<in> set (ov_dirtyFiles ov1) \<longleftrightarrow> joined (?q @ [n]) \<in> set (ov_dirtyFiles ov2)" using D [OF vn [OF n]] by simp
    show "joined (?q @ [n]) \<in> set (ov_dirtyDirs ov1) \<longleftrightarrow> joined (?q @ [n]) \<in> set (ov_dirtyDirs ov2)" using P [OF vn [OF n]] by simp
    show "joined (?q @ [n]) \<in> set (ov_dirtyFiles ov1) \<Longrightarrow> dirtyType ov1 (?q @ [n]) = dirtyType ov2 (?q @ [n])"
      using dirty [OF vn [OF n]] by (simp add: sameDirty_def dirtyType_kind)
  qed (rule cl)
  show ?thesis
  proof (cases "joined ?q \<in> set (ov_dirtyFiles ov1)")
    case True
    then have D2: "joined ?q \<in> set (ov_dirtyFiles ov2)" using D [OF ds] by simp
    have sd: "sameDirty ov1 ov2 ?q" by (rule dirty [OF ds True])
    have k: "dirtyType ov1 ?q = dirtyType ov2 ?q" using sd by (simp add: sameDirty_def dirtyType_kind)
    have "maybeLstat (overlayAccessor ov) (canonical ?q) = dirtyLstat ov (canonical ?q)"
      "readFile (overlayAccessor ov) (canonical ?q) = readFile (dirtySource ov (canonical ?q)) (canonical ?q)"
      "readLink (overlayAccessor ov) (canonical ?q) = readLink (dirtySource ov (canonical ?q)) (canonical ?q)"
      if "joined ?q \<in> set (ov_dirtyFiles ov)" for ov
      using that v assms(6) by (simp_all add: overlayAccessor_def overlayLstat_def source_def isDirty_canonical)
    moreover have "sameListing (overlayReadDirectory ov1 (canonical ?q)) (overlayReadDirectory ov2 (canonical ?q))"
    proof (cases "dirtyType ov1 ?q = Some tDirectory")
      case True
      then show ?thesis unfolding overlayReadDirectory_cases [OF assms(1,2) v(1)] overlayReadDirectory_cases [OF assms(3,4) v(1)]
        using k merged sv P [OF ds] assms(6) by (simp add: sameView_def)
    next
      case False
      then show ?thesis unfolding overlayReadDirectory_cases [OF assms(1,2) v(1)] overlayReadDirectory_cases [OF assms(3,4) v(1)]
        using dirtySource_no_directory [OF assms(1,2) v(1) \<open>joined ?q \<in> set (ov_dirtyFiles ov1)\<close> False]
          dirtySource_no_directory [OF assms(3,4) v(1) D2] k \<open>joined ?q \<in> set (ov_dirtyFiles ov1)\<close> D2
        by (auto simp: sameListing_def)
    qed
    ultimately show ?thesis using sd True D2 by (simp add: sameView_def sameDirty_def overlayAccessor_def)
  next
    case False
    then have D2: "joined ?q \<notin> set (ov_dirtyFiles ov2)" using D [OF ds] by simp
    have reads: "readFile (overlayAccessor ov) (canonical ?q) = readFile (ov_clean ov) (canonical ?q)"
      "readLink (overlayAccessor ov) (canonical ?q) = readLink (ov_clean ov) (canonical ?q)"
      if "joined ?q \<notin> set (ov_dirtyFiles ov)" for ov
      using that v by (simp_all add: overlayAccessor_def source_def isDirty_canonical)
    have listing: "sameListing (overlayReadDirectory ov1 (canonical ?q)) (overlayReadDirectory ov2 (canonical ?q))"
      unfolding overlayReadDirectory_cases [OF assms(1,2) v(1)] overlayReadDirectory_cases [OF assms(3,4) v(1)]
      using False D2 merged sv P [OF ds] assms(6) by (simp add: sameView_def)
    have "kind (maybeLstat (overlayAccessor ov1) (canonical ?q)) = kind (maybeLstat (overlayAccessor ov2) (canonical ?q))"
    proof (cases "joined ?q \<in> set (ov_dirtyDirs ov1)")
      case True
      have d: "kind (maybeLstat A (canonical ?q)) = Some (tDirectory, False)" if "typeAt A ?q = Some tDirectory" for A
        using that by (auto simp: kind_def typeAt_eq_Some)
      show ?thesis using d consistentD(9) [OF assms(1,2) v(1) True False] consistentD(9) [OF assms(3,4) v(1) _ D2] True P [OF ds] by simp
    next
      case nd: False
      have "maybeLstat (overlayAccessor ov) (canonical ?q) = maybeLstat (ov_clean ov) (canonical ?q)"
        if "joined ?q \<notin> set (ov_dirtyFiles ov)" "joined ?q \<notin> set (ov_dirtyDirs ov)" for ov
        using that v by (auto simp: overlayAccessor_def overlayLstat_def isDirty_canonical rel_canonical ebind_def split: sum.splits)
      then show ?thesis using False D2 nd P [OF ds] sv by (simp add: sameView_def)
    qed
    then show ?thesis using reads False D2 listing sv by (simp add: sameView_def overlayAccessor_def)
  qed
qed


section \<open>Equal fingerprints\<close>

lemma prefix_less: "(xs :: bytes) < xs @ y # ys"
  by (induction xs) (simp_all add: Cons_less_Cons)

lemma markFree_tail:
  assumes "validFiles fs" "distinct fs" "validPath cs" "cs \<noteq> []"
  shows "markFree (tl (sort (filter (\<lambda>f. f = joined cs \<or> startsWith f (joined cs @ [SLASH])) fs)))"
proof -
  let ?us = "filter (\<lambda>f. f = joined cs \<or> startsWith f (joined cs @ [SLASH])) fs"
  have below: "length f > 1 \<and> joined cs < f" if f: "f \<in> set ?us" "f \<noteq> joined cs" for f
  proof -
    obtain t where t: "f = joined cs @ SLASH # t" using f by (auto simp: startsWith_iff)
    have "joined cs \<noteq> []" using joined_Nil assms(3,4) by blast
    then show ?thesis using t prefix_less [of "joined cs" SLASH t] by (cases "joined cs") auto
  qed
  have "length f \<noteq> 1" if f: "f \<in> set (tl (sort ?us))" for f
  proof
    assume one: "length f = 1"
    obtain h ts where h: "sort ?us = h # ts" "f \<in> set ts" using f by (cases "sort ?us") auto
    have "set ?us = set (h # ts)" unfolding h(1) [symmetric] by (rule set_sort [symmetric])
    then have m: "f \<in> set ?us" "h \<in> set ?us" unfolding list.set using h(2) by blast+
    have "f = joined cs" using below [OF m(1)] one by (metis less_irrefl)
    have "distinct (sort ?us)" using assms(2) by (simp add: distinct_filter)
    then have "distinct (h # ts)" unfolding h(1) .
    then have "h \<noteq> f" using h(2) by auto
    then have "f < h" using below [OF m(2)] \<open>f = joined cs\<close> by blast
    moreover have "sorted (h # ts)" unfolding h(1) [symmetric] by (rule sorted_sort)
    then have "h \<le> f" using h(2) by simp
    ultimately show False by simp
  qed
  then show ?thesis by (simp add: markFree_def)
qed

lemma cleanFingerprint_git:
  assumes "ov_git ov = Some g" "validPath cs" "cs \<noteq> []" "\<forall>h m. getPathInfo g (joined cs) = Inr (Some (h, m)) \<longrightarrow> oidOk h"
    "cleanFingerprint ov (canonical cs) = Inr (Some fp)"
  obtains (none) "getPathInfo g (joined cs) = Inr None" "fp = ''absent''"
    | (some) h m where "getPathInfo g (joined cs) = Inr (Some (h, m))" "oidOk h" "gitFingerprintWithMode h m = Inr fp"
proof -
  obtain i where i: "getPathInfo g (joined cs) = Inr i"
    using assms(1-3,5) by (auto simp: cleanFingerprint_def rel_canonical bind_defs)
  show ?thesis
  proof (cases i)
    case None
    then show ?thesis using none i assms(1-3,5) by (simp add: cleanFingerprint_def rel_canonical)
  next
    case (Some hm)
    then obtain h m where "i = Some (h, m)" by (cases hm) auto
    then show ?thesis using some i assms by (simp add: cleanFingerprint_def rel_canonical bind_defs)
  qed
qed

lemma gitFingerprint_start: "oidOk h \<Longrightarrow> gitFingerprintWithMode h m = Inr fp \<Longrightarrow> take 4 fp = ''git:''"
  by (auto simp: gitFingerprint_wf oidOk_def)

lemma cleanFingerprint_inject:
  assumes "ov_git ov1 = Some g1" "ov_git ov2 = Some g2" "validPath cs" "cs \<noteq> []"
    "\<forall>h m. getPathInfo g1 (joined cs) = Inr (Some (h, m)) \<longrightarrow> oidOk h" "\<forall>h m. getPathInfo g2 (joined cs) = Inr (Some (h, m)) \<longrightarrow> oidOk h"
    "cleanFingerprint ov1 (canonical cs) = Inr (Some fp)" "cleanFingerprint ov2 (canonical cs) = Inr (Some fp)"
  shows "\<exists>i. getPathInfo g1 (joined cs) = Inr i \<and> getPathInfo g2 (joined cs) = Inr i"
  using assms(1,3,4,5,7)
proof (cases rule: cleanFingerprint_git)
  case 1: none
  from assms(2,3,4,6,8) show ?thesis
  proof (cases rule: cleanFingerprint_git)
    case 2: (some h m)
    then have "take 4 fp = ''git:''" by (intro gitFingerprint_start [OF 2(2,3)])
    then show ?thesis using 1(2) by simp
  qed (use 1 in simp)
next
  case 1: (some h m)
  from assms(2,3,4,6,8) show ?thesis
  proof (cases rule: cleanFingerprint_git)
    case 2: none
    have "take 4 fp = ''git:''" by (rule gitFingerprint_start [OF 1(2,3)])
    then show ?thesis using 2(2) by simp
  next
    case 2: (some h' m')
    have "gitFingerprintWithMode h m = gitFingerprintWithMode h' m'" using 1(3) 2(3) by simp
    then have "h = h' \<and> m = m'" by (rule gitFingerprint_inject [OF 1(2) 2(2)])
    then show ?thesis using 1(1) 2(1) by simp
  qed
qed

lemma cleanFingerprint_no_y:
  assumes "ov_git ov = Some g" "validPath cs" "cs \<noteq> []" "\<forall>h m. getPathInfo g (joined cs) = Inr (Some (h, m)) \<longrightarrow> oidOk h"
    "cleanFingerprint ov (canonical cs) = Inr (Some fp)"
  shows "CHR ''y'' \<notin> set fp"
  using assms
proof (cases rule: cleanFingerprint_git)
  case (some h m)
  then show ?thesis using gitFingerprint_no_y by (auto simp: oidOk_def)
qed simp

text \<open>The three forms of a fingerprint.\<close>

lemma overlayFingerprint_cases:
  assumes "built ov" "validPath cs" "cs \<noteq> []" "overlayFingerprint sha256 ov (canonical cs) = Inr (Some fp)" "\<And>s. wfHash (sha256 s)"
  obtains (absent) "joined cs \<in> set (ov_dirtyFiles ov)" "dirtyType ov cs = None" "fp = ''absent''"
    | (clean) "dirtyUnderPath ov (canonical cs) = []" "cleanFingerprint ov (canonical cs) = Inr (Some fp)"
    | (dirty) cfp s where "cleanFingerprint ov (canonical cs) = Inr (Some cfp)" "dirtyStream ov (sort (dirtyUnderPath ov (canonical cs))) = Inr s"
        "fp = cfp @ '';dirty='' @ base16_encode (hashBytes (sha256 s))"
proof -
  obtain cfp where c: "cleanFingerprint ov (canonical cs) = Inr (Some cfp)"
    using assms(4) by (auto simp: overlayFingerprint_def bind_defs split: option.splits)
  show ?thesis
  proof (cases "joined cs \<in> set (ov_dirtyFiles ov) \<and> dirtyType ov cs = None")
    case True
    then obtain st where st: "dirtyLstat ov (canonical cs) = Inr st" "dirtyType ov cs = map_option statType st"
      using dirtyType_lstat [OF assms(1,2)] by blast
    then have "st = None" using True by simp
    then have "fp = ''absent''" using assms(2-4) c st(1) True by (simp add: overlayFingerprint_def isDirty_canonical)
    then show ?thesis by (intro absent) (use True in simp_all)
  next
    case False
    have na: "(if \<not> isRoot (canonical cs) \<and> isDirty ov (canonical cs) then ebind (dirtyLstat ov (canonical cs)) (\<lambda>st. Inr (st = None))
        else Inr False) = Inr False"
    proof (cases "joined cs \<in> set (ov_dirtyFiles ov)")
      case True
      then obtain st where "dirtyLstat ov (canonical cs) = Inr st" "dirtyType ov cs = map_option statType st"
        using dirtyType_lstat [OF assms(1,2)] by blast
      then show ?thesis using False True by simp
    qed (simp add: isDirty_canonical)
    show ?thesis
    proof (cases "dirtyUnderPath ov (canonical cs) = []")
      case True
      then show ?thesis using clean assms(4) c na by (simp add: overlayFingerprint_def)
    next
      case nd: False
      have e: "ebind (dirtyStream ov (sort (dirtyUnderPath ov (canonical cs)))) (\<lambda>stream.
          Inr (Some (cfp @ '';dirty='' @ base16_encode (hashBytes (sha256 stream))))) = Inr (Some fp)"
        using assms(4) c na nd by (simp add: overlayFingerprint_def gitRev_wf [OF assms(5)])
      then obtain s where s: "dirtyStream ov (sort (dirtyUnderPath ov (canonical cs))) = Inr s"
        "fp = cfp @ '';dirty='' @ base16_encode (hashBytes (sha256 s))"
        by (cases "dirtyStream ov (sort (dirtyUnderPath ov (canonical cs)))") (simp_all del: append.simps)
      show ?thesis by (rule dirty [OF c s])
    qed
  qed
qed


text \<open>
  An overlay over a git tree, seen from one path: the objects of the tree are named by SHA-1 hashes, and what
  the tree does not have cannot be found.
\<close>

definition gitBacked :: "TecnixSourceAccessor \<Rightarrow> GitCleanFingerprints \<Rightarrow> bytes list \<Rightarrow> bool" where
  "gitBacked ov g cs =
     (built ov \<and> consistent ov \<and> hashable ov \<and> ov_git ov = Some g \<and>
      (\<forall>h m. getPathInfo g (joined cs) = Inr (Some (h, m)) \<longrightarrow> oidOk h) \<and>
      (getPathInfo g (joined cs) = Inr None \<longrightarrow> typeAt (ov_clean ov) cs = None))"

lemma dirtyUnder_iff:
  assumes "validPath cs" "cs \<noteq> []" "validPath es"
  shows "joined es \<in> set (dirtyUnderPath ov (canonical cs)) \<longleftrightarrow> joined es \<in> set (ov_dirtyFiles ov) \<and> prefix cs es"
  using below_prefix [OF assms(1,3)] joined_inject [OF assms(3,1)] assms(1,2)
  by (auto simp: dirtyUnderPath_def rel_canonical dirPrefixOf_def strict_prefix_def)

lemma dirtyUnder_markFree:
  assumes "built ov" "validPath cs" "cs \<noteq> []"
  shows "markFree (tl (sort (dirtyUnderPath ov (canonical cs))))"
proof -
  have "dirtyUnderPath ov (canonical cs) = filter (\<lambda>f. f = joined cs \<or> startsWith f (joined cs @ [SLASH])) (ov_dirtyFiles ov)"
    using assms(2,3) by (simp add: dirtyUnderPath_def rel_canonical)
  then show ?thesis using markFree_tail [OF _ _ assms(2,3)] assms(1) by (simp add: built_def)
qed

lemma views_of_same_stream:
  assumes 1: "gitBacked ov1 g1 cs" and 2: "gitBacked ov2 g2 cs" and cs: "validPath cs" "cs \<noteq> []"
    and clean: "\<And>ds. validPath ds \<Longrightarrow> sameView (ov_clean ov1) (ov_clean ov2) (cs @ ds)"
    and blobs: "\<And>ix1 ix2. ov_index ov1 = Some ix1 \<Longrightarrow> ov_index ov2 = Some ix2 \<Longrightarrow> ix_blobs ix1 = ix_blobs ix2"
    and s: "dirtyStream ov1 (sort (dirtyUnderPath ov1 (canonical cs))) = Inr s" "dirtyStream ov2 (sort (dirtyUnderPath ov2 (canonical cs))) = Inr s"
    and ds: "validPath ds"
  shows "sameView (overlayAccessor ov1) (overlayAccessor ov2) (cs @ ds)"
proof -
  have b: "built ov1" "consistent ov1" "hashable ov1" "built ov2" "consistent ov2" "hashable ov2"
    using 1 2 by (simp_all add: gitBacked_def)
  let ?u1 = "dirtyUnderPath ov1 (canonical cs)" and ?u2 = "dirtyUnderPath ov2 (canonical cs)"
  have sub: "set (sort ?u1) \<subseteq> set (ov_dirtyFiles ov1)" "set (sort ?u2) \<subseteq> set (ov_dirtyFiles ov2)"
    by (auto simp: dirtyUnderPath_def)
  have eq: "sort ?u1 = sort ?u2 \<and> (\<forall>es. validPath es \<and> joined es \<in> set (sort ?u1) \<longrightarrow> (\<exists>ts. described ov1 es ts \<and> described ov2 es ts))"
    by (rule dirtyStream_inject [OF b s sub dirtyUnder_markFree [OF b(1) cs] dirtyUnder_markFree [OF b(4) cs]])
  have u: "set ?u1 = set ?u2" using eq by (metis set_sort)
  have D: "joined (cs @ es) \<in> set (ov_dirtyFiles ov1) \<longleftrightarrow> joined (cs @ es) \<in> set (ov_dirtyFiles ov2)" if "validPath es" for es
    using dirtyUnder_iff [OF cs, of "cs @ es" ov1] dirtyUnder_iff [OF cs, of "cs @ es" ov2] u that cs(1) by simp
  show ?thesis
  proof (rule overlay_views_agree [OF b(1,2,4,5) cs D clean _ ds])
    fix es assume es: "validPath es" "joined (cs @ es) \<in> set (ov_dirtyFiles ov1)"
    have v: "validPath (cs @ es)" using es(1) cs(1) by simp
    have "joined (cs @ es) \<in> set (sort ?u1)" using dirtyUnder_iff [OF cs v, of ov1] es(2) by simp
    then obtain ts where ts: "described ov1 (cs @ es) ts" "described ov2 (cs @ es) ts" using eq v by blast
    show "sameDirty ov1 ov2 (cs @ es)"
      by (rule described_same [OF b v es(2) _ ts blobs]) (use D [OF es(1)] es(2) in simp_all)
  qed
qed

lemma fingerprint_views:
  assumes "gitBacked ov1 g1 cs" "gitBacked ov2 g2 cs" "validPath cs" "cs \<noteq> []"
    and "\<And>ds i. getPathInfo g1 (joined cs) = Inr i \<Longrightarrow> getPathInfo g2 (joined cs) = Inr i \<Longrightarrow> validPath ds \<Longrightarrow>
      sameView (ov_clean ov1) (ov_clean ov2) (cs @ ds)"
    and "\<And>ix1 ix2. ov_index ov1 = Some ix1 \<Longrightarrow> ov_index ov2 = Some ix2 \<Longrightarrow> ix_blobs ix1 = ix_blobs ix2"
    and "\<And>s. wfHash (sha256 s)" "\<And>s. algo (sha256 s) = SHA256"
    and "\<And>s t. dirtyStream ov1 (sort (dirtyUnderPath ov1 (canonical cs))) = Inr s \<Longrightarrow>
      dirtyStream ov2 (sort (dirtyUnderPath ov2 (canonical cs))) = Inr t \<Longrightarrow> sha256 s = sha256 t \<Longrightarrow> s = t"
    and "overlayFingerprint sha256 ov1 (canonical cs) = Inr (Some fp)" "overlayFingerprint sha256 ov2 (canonical cs) = Inr (Some fp)"
    and "validPath ds"
  shows "sameView (overlayAccessor ov1) (overlayAccessor ov2) (cs @ ds)"
proof -
  note cs = assms(3,4)
  have b: "built ov1" "consistent ov1" "built ov2" "consistent ov2" "ov_git ov1 = Some g1" "ov_git ov2 = Some g2"
    and oids: "\<forall>h m. getPathInfo g1 (joined cs) = Inr (Some (h, m)) \<longrightarrow> oidOk h" "\<forall>h m. getPathInfo g2 (joined cs) = Inr (Some (h, m)) \<longrightarrow> oidOk h"
    using assms(1,2) by (simp_all add: gitBacked_def)
  have gone: "sameView (overlayAccessor ov1) (overlayAccessor ov2) (cs @ ds)"
    if "typeAt (overlayAccessor ov1) cs = None" "typeAt (overlayAccessor ov2) cs = None"
    by (rule sameView_absent [OF overlay_tree_accessor [OF b(1,2)] overlay_tree_accessor [OF b(3,4)]])
       (use absent_below overlay_tree_accessor [OF b(1,2)] overlay_tree_accessor [OF b(3,4)] that cs assms(12) in auto)
  have unfound: "typeAt (overlayAccessor ov) cs = None"
    if g: "gitBacked ov g cs" and f: "joined cs \<in> set (ov_dirtyFiles ov) \<and> dirtyType ov cs = None \<or>
        dirtyUnderPath ov (canonical cs) = [] \<and> cleanFingerprint ov (canonical cs) = Inr (Some ''absent'')" for ov g
    using f
  proof
    assume "joined cs \<in> set (ov_dirtyFiles ov) \<and> dirtyType ov cs = None"
    then show ?thesis using overlayType_dirty [of ov cs] g cs(1) by (simp add: gitBacked_def)
  next
    assume a: "dirtyUnderPath ov (canonical cs) = [] \<and> cleanFingerprint ov (canonical cs) = Inr (Some ''absent'')"
    have p: "built ov" "ov_git ov = Some g" "\<forall>h m. getPathInfo g (joined cs) = Inr (Some (h, m)) \<longrightarrow> oidOk h"
      using g by (simp_all add: gitBacked_def)
    have "getPathInfo g (joined cs) = Inr None"
      using p(2) cs p(3) a [THEN conjunct2]
    proof (cases rule: cleanFingerprint_git)
      case (some h m)
      then have "take 4 ''absent'' = ''git:''" by (intro gitFingerprint_start [OF some(2,3)])
      then show ?thesis by simp
    qed
    then have t: "typeAt (ov_clean ov) cs = None" using g by (simp add: gitBacked_def)
    have "\<not> (validPath es \<and> joined es \<in> set (ov_dirtyFiles ov) \<and> prefix cs es)" for es
      using dirtyUnder_iff [OF cs, of es ov] a by auto
    then have "joined cs \<notin> set (ov_dirtyFiles ov)" "joined cs \<notin> set (ov_dirtyDirs ov)"
      using built_dirs [OF p(1) cs(1)] cs(1) by (auto simp: strict_prefix_def)
    then show ?thesis using overlayType_clean [OF p(1) cs(1)] t by simp
  qed
  have y: "CHR ''y'' \<notin> set ''absent''" by simp
  note no_y1 = cleanFingerprint_no_y [OF b(5) cs oids(1)] and no_y2 = cleanFingerprint_no_y [OF b(6) cs oids(2)]
  have mark: "CHR ''y'' \<in> set (cfp @ '';dirty='' @ d)" for cfp d by simp
  from b(1) cs assms(10,7) show ?thesis
  proof (cases rule: overlayFingerprint_cases)
    case 1: absent
    from b(3) cs assms(11,7) show ?thesis
    proof (cases rule: overlayFingerprint_cases)
      case 2: (dirty cfp s)
      then show ?thesis using 1(3) y mark by metis
    next
      case 2: absent
      have "typeAt (overlayAccessor ov1) cs = None" by (rule unfound [OF assms(1)]) (use 1 2 in simp)
      moreover have "typeAt (overlayAccessor ov2) cs = None" by (rule unfound [OF assms(2)]) (use 1 2 in simp)
      ultimately show ?thesis by (rule gone)
    next
      case 2: clean
      have "typeAt (overlayAccessor ov1) cs = None" by (rule unfound [OF assms(1)]) (use 1 2 in simp)
      moreover have "typeAt (overlayAccessor ov2) cs = None" by (rule unfound [OF assms(2)]) (use 1 2 in simp)
      ultimately show ?thesis by (rule gone)
    qed
  next
    case 1: clean
    from b(3) cs assms(11,7) show ?thesis
    proof (cases rule: overlayFingerprint_cases)
      case 2: absent
      have "typeAt (overlayAccessor ov1) cs = None" by (rule unfound [OF assms(1)]) (use 1 2 in simp)
      moreover have "typeAt (overlayAccessor ov2) cs = None" by (rule unfound [OF assms(2)]) (use 1 2 in simp)
      ultimately show ?thesis by (rule gone)
    next
      case 2: clean
      then obtain i where i: "getPathInfo g1 (joined cs) = Inr i" "getPathInfo g2 (joined cs) = Inr i"
        using cleanFingerprint_inject [OF b(5,6) cs oids 1(2) 2(2)] by blast
      show ?thesis
        by (rule views_of_same_stream [OF assms(1,2) cs assms(5) [OF i] assms(6) _ _ assms(12)]) (use 1 2 in simp_all)
    next
      case 2: (dirty cfp s)
      then show ?thesis using no_y1 [OF 1(2)] mark by metis
    qed
  next
    case 1: (dirty cfp1 s1)
    from b(3) cs assms(11,7) show ?thesis
    proof (cases rule: overlayFingerprint_cases)
      case 2: absent
      then show ?thesis using 1(3) y mark by metis
    next
      case 2: clean
      then show ?thesis using no_y2 [OF 2(2)] 1(3) mark by metis
    next
      case 2: (dirty cfp2 s2)
      have "cfp1 = cfp2 \<and> base16_encode (hashBytes (sha256 s1)) = base16_encode (hashBytes (sha256 s2))"
        by (rule dirty_mark_split [OF _ no_y1 [OF 1(1)] no_y2 [OF 2(1)]]) (use 1(3) 2(3) in simp)
      then have e: "cfp1 = cfp2" "gitRev (sha256 s1) = gitRev (sha256 s2)" by (simp_all add: gitRev_wf assms(7))
      have "sha256 s1 = sha256 s2" by (rule hash_inject [OF assms(7,7)]) (simp_all add: assms(8) e(2))
      then have "s1 = s2" by (rule assms(9) [OF 1(2) 2(2)])
      obtain i where i: "getPathInfo g1 (joined cs) = Inr i" "getPathInfo g2 (joined cs) = Inr i"
        using cleanFingerprint_inject [OF b(5,6) cs oids 1(1)] 2(1) e(1) by blast
      show ?thesis
        by (rule views_of_same_stream [OF assms(1,2) cs assms(5) [OF i] assms(6) 1(2) _ assms(12)]) (use 2(2) \<open>s1 = s2\<close> in simp_all)
    qed
  qed
qed

text \<open>
  C3: Equal fingerprints mean equal files: when two overlays of git trees give a path the same fingerprint, then
  at this path and at every path below it they show the same types, executable bits, contents, link targets and
  listings. The digest is assumed not to collide on the two texts that are digested, and git objects of
  the same name to have the same content.
\<close>
theorem fingerprint_sound:
  assumes "gitBacked ov1 g1 cs" "gitBacked ov2 g2 cs" "validPath cs" "cs \<noteq> []"
    and "\<And>ds i. getPathInfo g1 (joined cs) = Inr i \<Longrightarrow> getPathInfo g2 (joined cs) = Inr i \<Longrightarrow> validPath ds \<Longrightarrow>
      sameView (ov_clean ov1) (ov_clean ov2) (cs @ ds)"
    and "\<And>ix1 ix2. ov_index ov1 = Some ix1 \<Longrightarrow> ov_index ov2 = Some ix2 \<Longrightarrow> ix_blobs ix1 = ix_blobs ix2"
    and "\<And>s. wfHash (sha256 s)" "\<And>s. algo (sha256 s) = SHA256"
    and "\<And>s t. dirtyStream ov1 (sort (dirtyUnderPath ov1 (canonical cs))) = Inr s \<Longrightarrow>
      dirtyStream ov2 (sort (dirtyUnderPath ov2 (canonical cs))) = Inr t \<Longrightarrow> sha256 s = sha256 t \<Longrightarrow> s = t"
    and "overlayFingerprint sha256 ov1 (canonical cs) = Inr (Some fp)" "overlayFingerprint sha256 ov2 (canonical cs) = Inr (Some fp)"
    and "validPath ds"
  shows "sameView (overlayAccessor ov1) (overlayAccessor ov2) (cs @ ds)"
  by (rule fingerprint_views [OF assms])

end
