(* ===== verification/Checkouts.thy ===== *)
theory Checkouts
  imports Overlay_Fingerprint
begin

text \<open>
  Concrete checkouts of src/libexpr/tecnix/repo-accessor.cc: a git tree and a working directory, both kept in memory
  (src/libutil/memory-source-accessor.cc), with a list of dirty files. Three of them show what the
  overlay does when a whole directory was replaced; two ordinary ones satisfy the contract and have equal
  fingerprints for a directory they share.
\<close>

section \<open>Checkouts\<close>

definition checkout :: "File \<Rightarrow> File \<Rightarrow> bytes list \<Rightarrow> AccessError + TecnixSourceAccessor" where
  "checkout head disk fs =
     newOverlay (memoryAccessor (Some head)) (\<lambda>_. Inr None) (memoryAccessor (Some disk))
       (Some \<lparr>treeSha = \<lparr>hashSize = 20, hash = replicate 64 0, algo = SHA1\<rparr>,
              getPathInfo = (\<lambda>_. Inr (Some (\<lparr>hashSize = 20, hash = replicate 64 0, algo = SHA1\<rparr>, 16384)))\<rparr>) [] fs None"

definition headTree :: File where
  "headTree = Directory [(''a'', Directory [(''x'', Regular False ''1'')]), (''b'', Regular False ''2'')]"

definition checkout1 :: TecnixSourceAccessor where
  "checkout1 = projr (checkout headTree
     (Directory [(''a'', Directory [(''x'', Regular False ''9'')]), (''b'', Regular False ''2'')]) [''a/x''])"

definition checkout2 :: TecnixSourceAccessor where
  "checkout2 = projr (checkout headTree
     (Directory [(''a'', Directory [(''x'', Regular False ''9'')]), (''b'', Regular False ''7'')]) [''a/x'', ''b''])"

text \<open>
  A directory that exists only as staged and then deleted files is listed, although it is not found; a tracked
  directory replaced by a file still has its subdirectories; and a tracked directory replaced by a symlink has
  no fingerprint, nor has any directory above it.
\<close>

definition stagedDeleted :: TecnixSourceAccessor where
  "stagedDeleted = projr (checkout (Directory []) (Directory []) [''new/x''])"

lemma overlay_phantom_directory:
  "(case overlayReadDirectory stagedDeleted ''/'' of Inr es \<Rightarrow> Mapping.lookup es ''new'' | Inl _ \<Rightarrow> None) = Some (Some tDirectory) \<and>
   overlayLstat stagedDeleted ''/new'' = Inr None"
  by code_simp

definition replacedByFile :: TecnixSourceAccessor where
  "replacedByFile = projr (checkout (Directory [(''d'', Directory [(''n'', Directory [(''x'', Regular False ''1'')])])])
     (Directory [(''d'', Regular False ''2'')]) [''d/n/x'', ''d''])"

lemma overlay_directory_below_file:
  "map_option statType (projr (overlayLstat replacedByFile ''/d'')) = Some tRegular \<and>
   map_option statType (projr (overlayLstat replacedByFile ''/d/n'')) = Some tDirectory"
  by code_simp

definition replacedByLink :: TecnixSourceAccessor where
  "replacedByLink = projr (checkout (Directory [(''s'', Directory [(''d'', Directory [(''x'', Regular False ''1'')])])])
     (Directory [(''s'', Directory [(''d'', Symlink ''e'')])]) [''s/d/x'', ''s/d''])"

lemma overlay_no_fingerprint:
  "overlayFingerprint sha256 replacedByLink ''/s'' = Inl (SymlinkNotAllowed ''/s/d'')"
  by code_simp



text \<open>The two checkouts with ordinary changes are consistent.\<close>

definition disk1 :: File where
  "disk1 = Directory [(''a'', Directory [(''x'', Regular False ''9'')]), (''b'', Regular False ''2'')]"

definition disk2 :: File where
  "disk2 = Directory [(''a'', Directory [(''x'', Regular False ''9'')]), (''b'', Regular False ''7'')]"

lemma dirs_of_samples: "dirtyDirectories [''a/x''] [] = Inr [''a'', []]" "dirtyDirectories [''a/x'', ''b''] [] = Inr [''a'', []]"
  by code_simp+

lemma checkout_fields:
  "ov_clean checkout1 = memoryAccessor (Some headTree)" "ov_clean checkout2 = memoryAccessor (Some headTree)"
  "ov_disk checkout1 = memoryAccessor (Some disk1)" "ov_disk checkout2 = memoryAccessor (Some disk2)"
  "ov_dirtyFiles checkout1 = [''a/x'']" "ov_dirtyFiles checkout2 = [''a/x'', ''b'']" "ov_index checkout1 = None" "ov_index checkout2 = None"
  "ov_dirtyDirs checkout1 = [''a'', []]" "ov_dirtyDirs checkout2 = [''a'', []]"
  unfolding checkout1_def checkout2_def checkout_def newOverlay_def dirs_of_samples disk1_def disk2_def by simp_all

lemma sample_paths:
  assumes "validPath cs"
  shows "joined cs = ''a/x'' \<longleftrightarrow> cs = [''a'', ''x'']" "joined cs = ''b'' \<longleftrightarrow> cs = [''b'']" "joined cs = ''a'' \<longleftrightarrow> cs = [''a'']"
    "joined cs = [] \<longleftrightarrow> cs = []"
proof -
  have v: "validPath [''a'', ''x'']" "validPath [''b'']" "validPath [''a'']" by (simp_all add: validName_def isComp_def isName_def)
  have j: "joined [''a'', ''x''] = ''a/x''" "joined [''b''] = ''b''" "joined [''a''] = ''a''" by code_simp+
  show "joined cs = ''a/x'' \<longleftrightarrow> cs = [''a'', ''x'']" using joined_inject [OF assms v(1)] unfolding j .
  show "joined cs = ''b'' \<longleftrightarrow> cs = [''b'']" using joined_inject [OF assms v(2)] unfolding j .
  show "joined cs = ''a'' \<longleftrightarrow> cs = [''a'']" using joined_inject [OF assms v(3)] unfolding j .
qed (rule joined_Nil [OF assms])

lemma sample_path_valid: "validPath [''a'', ''x'']"
  by (simp add: validName_def isComp_def isName_def)

lemma joined_sample: "joined [''a'', ''x''] = ''a/x''"
  by code_simp

lemma sample_types:
  "typeAt (memoryAccessor (Some disk1)) [''a'', ''x''] = Some tRegular" "typeAt (memoryAccessor (Some disk2)) [''a'', ''x''] = Some tRegular"
  "typeAt (memoryAccessor (Some disk2)) [''b''] = Some tRegular"
  "dirtyType checkout1 [''a'', ''x''] = Some tRegular" "dirtyType checkout2 [''a'', ''x''] = Some tRegular"
  "dirtyType checkout2 [''b''] = Some tRegular"
  "typeAt (memoryAccessor (Some headTree)) [''a''] = Some tDirectory" "typeAt (memoryAccessor (Some headTree)) [] = Some tDirectory"
  by code_simp+

lemma sample_status:
  "statusType checkout1 [''a'', ''x''] = Some tRegular" "statusType checkout2 [''a'', ''x''] = Some tRegular"
  "statusType checkout2 [''b''] = Some tRegular"
  using sample_types(1-3) by (simp_all add: statusType_disk checkout_fields)

lemma disk_types:
  "\<exists>st. maybeLstat (memoryAccessor (Some disk1)) (canonical [''a'', ''x'']) = Inr st"
  "\<exists>st. maybeLstat (memoryAccessor (Some disk2)) (canonical [''a'', ''x'']) = Inr st"
  "\<exists>st. maybeLstat (memoryAccessor (Some disk2)) (canonical [''b'']) = Inr st"
  by (rule exI, code_simp)+

lemma checkout_built: "built checkout1" "built checkout2"
proof -
  have e: "\<exists>cs. cs \<noteq> [] \<and> validPath cs \<and> ''a/x'' = joined cs" "\<exists>cs. cs \<noteq> [] \<and> validPath cs \<and> ''b'' = joined cs"
    by (rule exI [of _ "[''a'', ''x'']"], simp add: validName_def isComp_def isName_def joined.simps)
      (rule exI [of _ "[''b'']"], simp add: validName_def isComp_def isName_def joined.simps)
  then have f: "validFiles [''a/x'']" "validFiles [''a/x'', ''b'']" unfolding validFiles_def by simp_all
  have s1: "joined cs \<in> set [''a/x''] \<Longrightarrow> validPath cs \<Longrightarrow> cs = [''a'', ''x'']"
    and s2: "joined cs \<in> set [''a/x'', ''b''] \<Longrightarrow> validPath cs \<Longrightarrow> cs = [''a'', ''x''] \<or> cs = [''b'']" for cs
    using sample_paths [of cs] by auto
  have n: "checkout headTree disk1 [''a/x''] = Inr checkout1" "checkout headTree disk2 [''a/x'', ''b''] = Inr checkout2"
    unfolding checkout1_def checkout2_def checkout_def newOverlay_def dirs_of_samples disk1_def disk2_def by simp_all
  show "built checkout1"
  proof (rule newOverlay_built [OF n(1) [unfolded checkout_def] f(1)])
    show "\<exists>st. maybeLstat (memoryAccessor (Some disk1)) (canonical cs) = Inr st" if "validPath cs" "joined cs \<in> set [''a/x'']" for cs
      using s1 [OF that(2,1)] disk_types by simp
  qed simp_all
  show "built checkout2"
  proof (rule newOverlay_built [OF n(2) [unfolded checkout_def] f(2)])
    show "\<exists>st. maybeLstat (memoryAccessor (Some disk2)) (canonical cs) = Inr st" if "validPath cs" "joined cs \<in> set [''a/x'', ''b'']" for cs
      using s2 [OF that(2,1)] disk_types by auto
  qed simp_all
qed

lemma below_sample_file:
  "validPath (cs @ [n]) \<Longrightarrow> look headTree cs = Some (Regular x c) \<Longrightarrow> typeAt (memoryAccessor (Some headTree)) (cs @ [n]) = None"
  by (subst typeAt_memory) (simp_all add: lookRoot_def look_append)

lemma sample_files: "look headTree [''a'', ''x''] = Some (Regular False ''1'')" "look headTree [''b''] = Some (Regular False ''2'')"
  by code_simp+

lemma consistent_sample:
  assumes acc: "ov_clean ov = memoryAccessor (Some headTree)" "ov_disk ov = memoryAccessor d" "ov_index ov = None"
    and fs: "set (ov_dirtyFiles ov) \<subseteq> {''a/x'', ''b''}" "ov_dirtyDirs ov = [''a'', []]"
    and types: "\<forall>cs. validPath cs \<longrightarrow> joined cs \<in> set (ov_dirtyFiles ov) \<longrightarrow> statusType ov cs = Some tRegular"
  shows "consistent ov"
proof -
  have leaf: "cs = [''a'', ''x''] \<or> cs = [''b'']" if "validPath cs" "joined cs \<in> set (ov_dirtyFiles ov)" for cs
    using that fs(1) sample_paths [OF that(1)] by blast
  have dir: "cs = [''a''] \<or> cs = []" if "validPath cs" "joined cs \<in> set (ov_dirtyDirs ov)" for cs
    using that fs(2) sample_paths [OF that(1)] by auto
  have child: "(if joined (cs @ [n]) \<in> set (ov_dirtyFiles ov) then statusType ov (cs @ [n]) = None
      else joined (cs @ [n]) \<notin> set (ov_dirtyDirs ov) \<and> typeAt (ov_clean ov) (cs @ [n]) = None)"
    if v: "validPath (cs @ [n])" "joined cs \<in> set (ov_dirtyFiles ov)" for cs n
  proof -
    have c: "cs = [''a'', ''x''] \<or> cs = [''b'']" by (rule leaf) (use v in simp_all)
    have "joined (cs @ [n]) \<notin> set (ov_dirtyFiles ov)" using leaf [OF v(1)] c by auto
    moreover have "joined (cs @ [n]) \<notin> set (ov_dirtyDirs ov)" using dir [OF v(1)] c by auto
    moreover obtain y where "look headTree cs = Some (Regular False y)" using c sample_files by blast
    then have "typeAt (ov_clean ov) (cs @ [n]) = None" unfolding acc(1) by (rule below_sample_file [OF v(1)])
    ultimately show ?thesis by simp
  qed
  have "joined cs \<notin> set (ov_dirtyDirs ov)"
    if "validPath cs" "typeAt (ov_clean ov) cs \<noteq> Some tDirectory" for cs
    using dir [OF that(1)] that(2) acc(1) sample_types(7,8) by auto
  moreover have "if joined cs \<in> set (ov_dirtyFiles ov) then statusType ov cs \<noteq> None
      else typeAt (memoryAccessor (Some headTree)) cs = Some tDirectory \<or> P cs"
    if "validPath cs" "joined cs \<in> set (ov_dirtyDirs ov)" for cs P
    using dir [OF that] types that(1) sample_types(7,8) by auto
  moreover have "statusType ov cs \<noteq> Some tDirectory" if "validPath cs" "joined cs \<in> set (ov_dirtyFiles ov)" for cs
    using types that by auto
  ultimately show ?thesis
    unfolding consistent_def acc(1,2,3) using mem.tree_accessor_axioms sample_types(8) child [unfolded acc(1)]
    by (intro conjI allI impI) (((elim conjE)?, blast) | simp)+
qed

lemma checkout_consistent: "consistent checkout1" "consistent checkout2"
proof -
  have t: "\<forall>cs. validPath cs \<longrightarrow> joined cs \<in> set (ov_dirtyFiles checkout1) \<longrightarrow> statusType checkout1 cs = Some tRegular"
    "\<forall>cs. validPath cs \<longrightarrow> joined cs \<in> set (ov_dirtyFiles checkout2) \<longrightarrow> statusType checkout2 cs = Some tRegular"
    unfolding checkout_fields using sample_paths(1,2) sample_status by auto
  show "consistent checkout1"
    by (rule consistent_sample [OF checkout_fields(1,3,7) _ checkout_fields(9) t(1)]) (simp add: checkout_fields(5))
  show "consistent checkout2"
    by (rule consistent_sample [OF checkout_fields(2,4,8) _ checkout_fields(10) t(2)]) (simp add: checkout_fields(6))
qed

lemma overlay_contract_witness:
  "tree_accessor (overlayAccessor checkout1) \<and> typeAt (overlayAccessor checkout1) [''a'', ''x''] = statusType checkout1 [''a'', ''x'']"
  using overlay_contract [OF checkout_built(1) checkout_consistent(1)] sample_path_valid checkout_fields(5) joined_sample by simp

text \<open>The directory that both checkouts changed in the same way has one fingerprint.\<close>

definition sampleDigest :: "bytes \<Rightarrow> Hash" where
  "sampleDigest s = \<lparr>hashSize = 32, hash = replicate 64 0, algo = SHA256\<rparr>"

definition sampleObjects :: GitCleanFingerprints where
  "sampleObjects = \<lparr>treeSha = \<lparr>hashSize = 20, hash = replicate 64 0, algo = SHA1\<rparr>,
     getPathInfo = (\<lambda>_. Inr (Some (\<lparr>hashSize = 20, hash = replicate 64 0, algo = SHA1\<rparr>, 16384)))\<rparr>"

lemma sample_reads:
  "(case readFile (memoryAccessor (Some disk1)) (canonical [''a'', ''x'']) of Inr c \<Rightarrow> length c < 2 ^ 64 | Inl _ \<Rightarrow> True) \<and>
   (case readLink (memoryAccessor (Some disk1)) (canonical [''a'', ''x'']) of Inr c \<Rightarrow> length c < 2 ^ 64 | Inl _ \<Rightarrow> True) \<and>
   (case readFile (memoryAccessor (Some disk2)) (canonical [''a'', ''x'']) of Inr c \<Rightarrow> length c < 2 ^ 64 | Inl _ \<Rightarrow> True) \<and>
   (case readLink (memoryAccessor (Some disk2)) (canonical [''a'', ''x'']) of Inr c \<Rightarrow> length c < 2 ^ 64 | Inl _ \<Rightarrow> True) \<and>
   (case readFile (memoryAccessor (Some disk2)) (canonical [''b'']) of Inr c \<Rightarrow> length c < 2 ^ 64 | Inl _ \<Rightarrow> True) \<and>
   (case readLink (memoryAccessor (Some disk2)) (canonical [''b'']) of Inr c \<Rightarrow> length c < 2 ^ 64 | Inl _ \<Rightarrow> True)"
  by code_simp

lemma sample_dirty:
  assumes "validPath cs"
  shows "joined cs \<in> set (ov_dirtyFiles checkout1) \<longleftrightarrow> cs = [''a'', ''x'']"
    "joined cs \<in> set (ov_dirtyFiles checkout2) \<longleftrightarrow> cs = [''a'', ''x''] \<or> cs = [''b'']"
  unfolding checkout_fields using sample_paths [OF assms] by auto

lemma checkout_hashable: "hashable checkout1" "hashable checkout2"
proof -
  have len: "\<forall>f \<in> set (ov_dirtyFiles checkout1). length f < 2 ^ 64" "\<forall>f \<in> set (ov_dirtyFiles checkout2). length f < 2 ^ 64"
    by (simp_all add: checkout_fields)
  show "hashable checkout1"
    unfolding hashable_def checkout_fields(3,7) using sample_reads sample_types(4) len(1)
    by (auto simp: sample_dirty(1))
  show "hashable checkout2"
    unfolding hashable_def checkout_fields(4,8) using sample_reads sample_types(5,6) len(2)
    by (auto simp: sample_dirty(2))
qed

lemma checkout_git: "ov_git checkout1 = Some sampleObjects" "ov_git checkout2 = Some sampleObjects"
  unfolding checkout1_def checkout2_def checkout_def newOverlay_def dirs_of_samples sampleObjects_def by simp_all

lemma sample_oid: "oidOk \<lparr>hashSize = 20, hash = replicate 64 0, algo = SHA1\<rparr>" by code_simp
lemma sample_digest: "wfHash (sampleDigest s)" "algo (sampleDigest s) = SHA256"
  unfolding sampleDigest_def by code_simp+

lemma checkout_gitBacked: "gitBacked checkout1 sampleObjects cs" "gitBacked checkout2 sampleObjects cs"
  using checkout_built checkout_consistent checkout_hashable checkout_git sample_oid
  by (simp_all add: gitBacked_def sampleObjects_def)

lemma sample_streams:
  "dirtyStream checkout1 (sort (dirtyUnderPath checkout1 (canonical [''a'']))) =
   dirtyStream checkout2 (sort (dirtyUnderPath checkout2 (canonical [''a''])))"
  by code_simp

definition sampleFingerprint :: bytes where
  "sampleFingerprint = the (projr (overlayFingerprint sampleDigest checkout1 (canonical [''a''])))"

lemma sample_fingerprints:
  "overlayFingerprint sampleDigest checkout1 (canonical [''a'']) = Inr (Some sampleFingerprint)"
  "overlayFingerprint sampleDigest checkout2 (canonical [''a'']) = Inr (Some sampleFingerprint)"
  by code_simp+

lemma fingerprint_sound_witness: "sameView (overlayAccessor checkout1) (overlayAccessor checkout2) ([''a''] @ [''x''])"
proof (rule fingerprint_sound [OF checkout_gitBacked])
  show "overlayFingerprint sampleDigest checkout1 (canonical [''a'']) = Inr (Some sampleFingerprint)"
    "overlayFingerprint sampleDigest checkout2 (canonical [''a'']) = Inr (Some sampleFingerprint)"
    by (rule sample_fingerprints)+
  show "sameView (ov_clean checkout1) (ov_clean checkout2) ([''a''] @ ds)" for ds
    by (cases "readDirectory (memoryAccessor (Some headTree)) (canonical (''a'' # ds))") (simp_all add: checkout_fields sameView_def sameListing_def)
qed (use sample_digest sample_streams in \<open>simp_all add: validName_def isComp_def isName_def checkout_fields\<close>)

end
