(* ===== verification/Nar_Overlay.thy ===== *)
theory Nar_Overlay
  imports Nar Checkouts
begin

text \<open>
  The archive of a checkout (src/libutil/archive.cc over the accessors of src/libexpr/tecnix/repo-accessor.cc): a dump
  depends only on what an accessor shows, so that directories with equal fingerprints have equal archives and equal hashes.
\<close>

section \<open>Listings\<close>

text \<open>Listings are finite and have names of files.\<close>

definition namesOk :: "DirEntries \<Rightarrow> bool" where
  "namesOk es = (finite (Mapping.keys es) \<and> (\<forall>n. Mapping.lookup es n \<noteq> None \<longrightarrow> validName n))"

definition listingOk :: "Accessor \<Rightarrow> bool" where
  "listingOk A = (\<forall>cs es. validPath cs \<and> readDirectory A (canonical cs) = Inr es \<longrightarrow> namesOk es)"

lemma namesOk_simps [simp]:
  "namesOk Mapping.empty"
  "namesOk es \<Longrightarrow> namesOk (Mapping.delete n es)"
  "namesOk es \<Longrightarrow> validName n \<Longrightarrow> namesOk (Mapping.update n t es)"
proof -
  show "namesOk Mapping.empty" by (simp add: namesOk_def)
  assume es: "namesOk es"
  have "\<forall>m. Mapping.lookup (Mapping.delete n es) m \<noteq> None \<longrightarrow> validName m"
  proof (intro allI impI)
    fix m assume m: "Mapping.lookup (Mapping.delete n es) m \<noteq> None"
    then have "m \<noteq> n" by auto
    then show "validName m" using m es by (auto simp: namesOk_def)
  qed
  then show "namesOk (Mapping.delete n es)" using es by (simp add: namesOk_def)
  show "validName n \<Longrightarrow> namesOk (Mapping.update n t es)"
    using es by (auto simp: namesOk_def lookup_update' split: if_splits)
qed

lemma namesOk_eqI:
  assumes "namesOk es1" "namesOk es2" "\<And>n. validName n \<Longrightarrow> Mapping.lookup es1 n = Mapping.lookup es2 n"
  shows "es1 = es2"
  by (rule mapping_eqI) (use assms in \<open>metis namesOk_def\<close>)

lemma memory_listingOk: "wfRoot root \<Longrightarrow> listingOk (memoryAccessor root)"
  unfolding listingOk_def
proof (intro allI impI)
  fix cs es assume w: "wfRoot root" and r: "validPath cs \<and> readDirectory (memoryAccessor root) (canonical cs) = Inr es"
  then obtain fs where fs: "lookRoot root cs = Some (Directory fs)" "es = Mapping.map_values (\<lambda>_ g. Some (statType (fileLstat g))) (Mapping.of_alist fs)"
    using openFile_look [of cs root] by (auto simp: memoryAccessor_def memReadDirectory_def split: option.splits File.splits)
  then obtain f where "root = Some f" "look f cs = Some (Directory fs)" by (auto simp: lookRoot_def split: bind_splits)
  then have "wfFile (Directory fs)" using w look_wf [of f cs "Directory fs"] by (simp only: wfRoot_def option.case)
  then have "\<forall>n. map_of fs n \<noteq> None \<longrightarrow> validName n" using wf_entry by blast
  then show "namesOk es" using fs(2) finite_dom_map_of [of fs]
    by (simp add: namesOk_def lookup_map_values lookup_of_alist keys_dom_lookup dom_def)
qed

section \<open>The listings of an overlay\<close>

lemma mergeDirtyFiles_namesOk:
  assumes "validPath cs" "validFiles fs" "namesOk es" "mergeDirtyFiles ov (canonical cs) (dirPrefixOf cs) fs es = Inr es'"
  shows "namesOk es'"
  using assms(2-4)
proof (induction fs arbitrary: es)
  case (Cons f fs)
  let ?rest = "drop (length (dirPrefixOf cs)) f"
  have v: "validFiles fs" using Cons.prems(1) by (simp add: validFiles_def)
  obtain ds where ds: "f = joined ds" "ds \<noteq> []" "validPath ds" using Cons.prems(1) by (auto simp: validFiles_def)
  show ?case
  proof (cases "\<not> startsWith f (dirPrefixOf cs) \<or> SLASH \<in> set ?rest")
    case True
    then show ?thesis using Cons.IH [OF v Cons.prems(2)] Cons.prems(3) by (simp add: Let_def)
  next
    case False
    then have "prefix cs ds" using below_prefix [OF assms(1) ds(3)] ds(1) by (auto simp: strict_prefix_def split: if_splits)
    then obtain ns where ns: "ds = cs @ ns" by (auto simp: prefix_def)
    then have "ns \<noteq> []" using False ds below_prefix [OF assms(1) ds(3)] by (auto split: if_splits)
    moreover have rest: "?rest = joined ns" using below_rest [OF assms(1), of ns] ds ns by simp
    then have "\<not> 1 < length ns" using False joined_slash [of ns] ds(3) ns by auto
    ultimately obtain m where "ns = [m]" by (cases ns) auto
    then have m: "?rest = m" "validName m" using rest ds(3) ns by simp_all
    have "ebind (liftPath (slashName (canonical cs) m)) (\<lambda>child. ebind (dirtyLstat ov child) (\<lambda>st.
        mergeDirtyFiles ov (canonical cs) (dirPrefixOf cs) fs
          (case st of None \<Rightarrow> Mapping.delete m es | Some st \<Rightarrow> Mapping.update m (Some (statType st)) es))) = Inr es'"
      using Cons.prems(3) False by (simp add: Let_def m(1))
    then obtain st :: "Stat option" where "mergeDirtyFiles ov (canonical cs) (dirPrefixOf cs) fs
        (case st of None \<Rightarrow> Mapping.delete m es | Some st \<Rightarrow> Mapping.update m (Some (statType st)) es) = Inr es'"
      unfolding ebind_eq_Inr by blast
    then show ?thesis
      by (rule Cons.IH [OF v, rotated]) (use Cons.prems(2) m(2) in \<open>simp split: option.split\<close>)
  qed
qed simp

lemma mergeDirtyDirs_namesOk:
  assumes "validPath cs" "\<forall>d \<in> set ds. \<exists>es. validPath es \<and> d = joined es" "namesOk es"
  shows "namesOk (mergeDirtyDirs (dirPrefixOf cs) ds es)"
  using assms(2,3)
proof (induction ds arbitrary: es)
  case (Cons d ds)
  obtain fs where fs: "validPath fs" "d = joined fs" using Cons.prems by auto
  let ?rest = "drop (length (dirPrefixOf cs)) d"
  show ?case
  proof (cases "\<not> startsWith d (dirPrefixOf cs) \<or> SLASH \<in> set ?rest \<or> ?rest = []")
    case True
    then have "mergeDirtyDirs (dirPrefixOf cs) (d # ds) es = mergeDirtyDirs (dirPrefixOf cs) ds es" by (simp add: Let_def)
    then show ?thesis using Cons by simp
  next
    case False
    then have "prefix cs fs" using below_prefix [OF assms(1) fs(1)] fs(2) by (auto simp: strict_prefix_def split: if_splits)
    then obtain ns where ns: "fs = cs @ ns" by (auto simp: prefix_def)
    have rest: "?rest = joined ns" using below_rest [OF assms(1), of ns] fs ns by simp
    then have "\<not> 1 < length ns" "ns \<noteq> []" using False joined_slash [of ns] fs(1) ns by auto
    then obtain m where "ns = [m]" by (cases ns) auto
    then have m: "?rest = m" "validName m" using rest fs ns by simp_all
    have "mergeDirtyDirs (dirPrefixOf cs) (d # ds) es =
        mergeDirtyDirs (dirPrefixOf cs) ds (if Mapping.lookup es m = None then Mapping.update m (Some tDirectory) es else es)"
      using False m(1) by (simp add: Let_def)
    then show ?thesis using Cons m(2) by simp
  qed
qed simp

lemma overlay_listingOk:
  assumes "built ov" "consistent ov" "listingOk (ov_clean ov)"
  shows "listingOk (overlayAccessor ov)"
  unfolding listingOk_def
proof (intro allI impI)
  fix cs es assume a: "validPath cs \<and> readDirectory (overlayAccessor ov) (canonical cs) = Inr es"
  then have cs: "validPath cs" and r: "overlayReadDirectory ov (canonical cs) = Inr es" by (auto simp: overlayAccessor_def)
  note rc = r [unfolded overlayReadDirectory_cases [OF assms(1,2) cs]]
  have "\<not> (joined cs \<in> set (ov_dirtyFiles ov) \<and> dirtyType ov cs \<noteq> Some tDirectory)"
  proof
    assume d: "joined cs \<in> set (ov_dirtyFiles ov) \<and> dirtyType ov cs \<noteq> Some tDirectory"
    then have "readDirectory (dirtySource ov (canonical cs)) (canonical cs) = Inr es" using rc by simp
    then show False using dirtySource_no_directory [OF assms(1,2) cs] d by auto
  qed
  then consider "readDirectory (ov_clean ov) (canonical cs) = Inr es" | "mergedEntries ov (canonical cs) = Inr es"
    using rc by (auto split: if_splits)
  then show "namesOk es"
  proof cases
    case 1
    then show ?thesis using assms(3) cs by (auto simp: listingOk_def)
  next
    case 2
    define E where "E = (case readDirectory (ov_clean ov) (canonical cs) of Inr es \<Rightarrow> es | Inl _ \<Rightarrow> Mapping.empty)"
    have E: "namesOk E" using assms(3) cs by (auto simp: E_def listingOk_def split: sum.splits)
    have p: "(let r = (if isRoot (canonical cs) then [] else rel (canonical cs)) in if r = [] then [] else r @ [SLASH]) = dirPrefixOf cs"
      using joined_Nil [OF cs] by (simp add: cs rel_canonical dirPrefixOf_def)
    obtain es' where m: "mergeDirtyFiles ov (canonical cs) (dirPrefixOf cs) (ov_dirtyFiles ov) E = Inr es'"
        "es = mergeDirtyDirs (dirPrefixOf cs) (ov_dirtyDirs ov) es'"
      using 2 p by (auto simp: mergedEntries_def E_def Let_def bind_defs)
    have "namesOk es'" using mergeDirtyFiles_namesOk [OF cs _ E m(1)] assms(1) by (simp add: built_def)
    then show ?thesis unfolding m(2)
      by (rule mergeDirtyDirs_namesOk [OF cs, rotated]) (use built_dirs_valid [OF assms(1)] in blast)
  qed
qed

section \<open>Dumps depend on the view\<close>

lemma okOf_ebind: "okOf (ebind r f) = Option.bind (okOf r) (\<lambda>x. okOf (f x))"
  by (cases r) auto

lemma okOf_fileAccess [simp]: "okOf (fileAccess r) = okOf r"
  by (cases r) auto

lemma okOf_mapE: "(\<And>x. x \<in> set xs \<Longrightarrow> okOf (f x) = okOf (g x)) \<Longrightarrow> okOf (mapE f xs) = okOf (mapE g xs)"
  by (induction xs) (auto simp: okOf_ebind)

lemma lstat_view:
  assumes "kind (maybeLstat A p) = kind (maybeLstat B p)"
  shows "map_option (\<lambda>st. (statType st, statType st = tRegular \<and> isExecutable st)) (okOf (lstat A p)) =
    map_option (\<lambda>st. (statType st, statType st = tRegular \<and> isExecutable st)) (okOf (lstat B p))"
proof -
  have "map_option (\<lambda>st. (statType st, statType st = tRegular \<and> isExecutable st)) (okOf (lstat A p)) = kind (maybeLstat A p)" for A
    by (auto simp: lstat_def kind_def okOf_ebind split: sum.split option.split)
  then show ?thesis using assms by simp
qed

lemma set_unhack:
  "unhackEntries hack ns done' = Inr m \<Longrightarrow> snd ` set m \<subseteq> set ns \<union> snd ` set done'"
proof (induction ns arbitrary: done')
  case (Cons n ns)
  obtain k where "unhackEntries hack ns (insort_key fst (k, n) done') = Inr m"
    using Cons.prems by (cases hack) (auto simp: Let_def split: option.splits)
  from Cons.IH [OF this] show ?case by (auto simp: set_insort_key)
qed simp

lemma dump_views:
  assumes "listingOk A" "listingOk B" "\<forall>ds. validPath ds \<longrightarrow> sameView A B (cs @ ds)" "validPath cs"
  shows "okOf (dumpNode hack pathFilter A d (canonical cs) fp) = okOf (dumpNode hack pathFilter B d (canonical cs) fp)"
  using assms(3,4)
proof (induction d arbitrary: cs fp)
  case (Suc d)
  let ?p = "canonical cs"
  have view: "sameView A B cs" using Suc.prems(1) by (metis append_Nil2 validPath_simps(1))
  then have st: "map_option (\<lambda>st. (statType st, statType st = tRegular \<and> isExecutable st)) (okOf (lstat A ?p)) =
      map_option (\<lambda>st. (statType st, statType st = tRegular \<and> isExecutable st)) (okOf (lstat B ?p))"
    by (intro lstat_view) (simp add: sameView_def)
  have contents: "okOf (dumpContents A ?p) = okOf (dumpContents B ?p)" and link: "okOf (readLink A ?p) = okOf (readLink B ?p)"
    using view by (simp_all add: sameView_def dumpContents_def okOf_ebind)
  have listing: "okOf (readDirectory A ?p) = okOf (readDirectory B ?p)"
  proof (cases "readDirectory A ?p")
    case 1: (Inr es1)
    then obtain es2 where 2: "readDirectory B ?p = Inr es2"
      using view by (auto simp: sameView_def sameListing_def split: sum.splits)
    have "es1 = es2"
      by (rule namesOk_eqI) (use assms(1,2) Suc.prems(2) 1 2 view in \<open>auto simp: listingOk_def sameView_def sameListing_def\<close>)
    then show ?thesis using 1 2 by simp
  next
    case (Inl e)
    then show ?thesis using view by (auto simp: sameView_def sameListing_def split: sum.splits)
  qed
  have names: "validName n" if "readDirectory A ?p = Inr es" "n \<in> set (entryNames es)" for es n
    using assms(1) that Suc.prems(2) by (auto simp: listingOk_def namesOk_def entryNames_def keys_dom_lookup dom_def)
  have child: "okOf (dumpNode hack pathFilter A d p' fp') = okOf (dumpNode hack pathFilter B d p' fp')"
    if "validName n" "liftPath (slashName ?p n) = Inr p'" for n p' fp'
  proof -
    have p': "p' = canonical (cs @ [n])" using that Suc.prems(2) by (simp add: slashName_def push_valid)
    show ?thesis unfolding p'
    proof (rule Suc.IH)
      show "\<forall>ds. validPath ds \<longrightarrow> sameView A B ((cs @ [n]) @ ds)"
        using Suc.prems(1) that(1) by (metis append_assoc append_Cons append_Nil validPath_simps(2))
    qed (use Suc.prems(2) that(1) in simp)
  qed
  let ?entry = "\<lambda>A. \<lambda>(name, entry). ebind (fileAccess (liftPath (slashName fp name))) (\<lambda>k.
      if pathFilter k then ebind (fileAccess (liftPath (slashName ?p entry))) (\<lambda>p'.
        ebind (fileAccess (liftPath (slashName fp entry))) (\<lambda>fp'.
          ebind (dumpNode hack pathFilter A d p' fp') (\<lambda>b.
            Inr (writeString ''entry'' @ writeString ''('' @ writeString ''name'' @ writeString name @ writeString ''node'' @ b @ writeString '')''))))
      else Inr [])"
  let ?dir = "\<lambda>A. ebind (fileAccess (readDirectory A ?p)) (\<lambda>es. ebind (unhackEntries hack (entryNames es) []) (\<lambda>unhacked.
      ebind (mapE (?entry A) unhacked) (\<lambda>bs. Inr (writeString ''type'' @ writeString ''directory'' @ concat bs))))"
  have entry: "okOf (?entry A x) = okOf (?entry B x)" if "validName (snd x)" for x
  proof (cases "liftPath (slashName ?p (snd x))")
    case (Inr p')
    have "okOf (dumpNode hack pathFilter A d p' fp') = okOf (dumpNode hack pathFilter B d p' fp')" for fp'
      by (rule child [OF that Inr])
    then show ?thesis using Inr by (cases x; cases "liftPath (slashName fp (fst x))") (auto simp: okOf_ebind)
  qed (cases x; cases "liftPath (slashName fp (fst x))"; auto simp: okOf_ebind)
  have dir: "okOf (?dir A) = okOf (?dir B)"
  proof (cases "readDirectory A ?p")
    case (Inr es)
    then have B: "readDirectory B ?p = Inr es" using listing by (cases "readDirectory B ?p") simp_all
    show ?thesis
    proof (cases "unhackEntries hack (entryNames es) []")
      case u: (Inr unhacked)
      have "okOf (mapE (?entry A) unhacked) = okOf (mapE (?entry B) unhacked)"
        by (rule okOf_mapE, rule entry, rule names [OF Inr]) (use set_unhack [OF u] in auto)
      then show ?thesis using Inr B u by (simp add: okOf_ebind)
    qed (simp add: Inr B)
  next
    case (Inl e)
    then show ?thesis using listing by (cases "readDirectory B ?p") simp_all
  qed
  show ?case
  proof (cases "okOf (lstat A ?p)")
    case None
    then show ?thesis using st by (simp add: okOf_ebind)
  next
    case (Some s1)
    then obtain s2 where s2: "okOf (lstat B ?p) = Some s2" "statType s2 = statType s1"
        "statType s1 = tRegular \<longrightarrow> isExecutable s2 = isExecutable s1"
      using st by (cases "okOf (lstat B ?p)") auto
    show ?thesis
      using Some s2 contents link dir by (cases "statType s1") (simp_all add: okOf_ebind)
  qed
qed simp

text \<open>
  C5: Directories of two checkouts that get the same fingerprint have the same archive and the same hash, whatever the
  filter and the case hack are: what a cache keyed by the fingerprint returns is what a dump would give. The
  assumptions are those of the soundness of fingerprints, and listings of the git trees with names of files.
\<close>
theorem same_archive:
  assumes "gitBacked ov1 g1 cs" "gitBacked ov2 g2 cs" "validPath cs" "cs \<noteq> []"
    and "\<And>ds i. getPathInfo g1 (joined cs) = Inr i \<Longrightarrow> getPathInfo g2 (joined cs) = Inr i \<Longrightarrow> validPath ds \<Longrightarrow>
      sameView (ov_clean ov1) (ov_clean ov2) (cs @ ds)"
    and "\<And>ix1 ix2. ov_index ov1 = Some ix1 \<Longrightarrow> ov_index ov2 = Some ix2 \<Longrightarrow> ix_blobs ix1 = ix_blobs ix2"
    and "\<And>s. wfHash (sha256 s)" "\<And>s. algo (sha256 s) = SHA256"
    and "\<And>s t. dirtyStream ov1 (sort (dirtyUnderPath ov1 (canonical cs))) = Inr s \<Longrightarrow>
      dirtyStream ov2 (sort (dirtyUnderPath ov2 (canonical cs))) = Inr t \<Longrightarrow> sha256 s = sha256 t \<Longrightarrow> s = t"
    and "overlayFingerprint sha256 ov1 (canonical cs) = Inr (Some fp)" "overlayFingerprint sha256 ov2 (canonical cs) = Inr (Some fp)"
    and "listingOk (ov_clean ov1)" "listingOk (ov_clean ov2)"
  shows "okOf (dumpPath hack pathFilter (overlayAccessor ov1) (canonical cs)) = okOf (dumpPath hack pathFilter (overlayAccessor ov2) (canonical cs)) \<and>
    okOf (hashPath digest hack pathFilter (overlayAccessor ov1) (canonical cs)) = okOf (hashPath digest hack pathFilter (overlayAccessor ov2) (canonical cs))"
proof -
  have l: "listingOk (overlayAccessor ov1)" "listingOk (overlayAccessor ov2)"
    using overlay_listingOk assms(1,2,12,13) by (simp_all add: gitBacked_def)
  have "sameView (overlayAccessor ov1) (overlayAccessor ov2) (cs @ ds)" if "validPath ds" for ds
    by (rule fingerprint_views [OF assms(1-11) that])
  then have "\<forall>ds. validPath ds \<longrightarrow> sameView (overlayAccessor ov1) (overlayAccessor ov2) (cs @ ds)" by blast
  from dump_views [OF l this assms(3)] show ?thesis by (simp add: dumpPath_def hashPath_def okOf_ebind)
qed

lemma same_archive_witness:
  "okOf (dumpPath False (\<lambda>_. True) (overlayAccessor checkout1) (canonical [''a''])) =
      okOf (dumpPath False (\<lambda>_. True) (overlayAccessor checkout2) (canonical [''a''])) \<and>
    okOf (hashPath length False (\<lambda>_. True) (overlayAccessor checkout1) (canonical [''a''])) =
      okOf (hashPath length False (\<lambda>_. True) (overlayAccessor checkout2) (canonical [''a'']))"
proof (rule same_archive [OF checkout_gitBacked])
  show "overlayFingerprint sampleDigest checkout1 (canonical [''a'']) = Inr (Some sampleFingerprint)"
    "overlayFingerprint sampleDigest checkout2 (canonical [''a'']) = Inr (Some sampleFingerprint)"
    by (rule sample_fingerprints)+
  show "sameView (ov_clean checkout1) (ov_clean checkout2) ([''a''] @ ds)" for ds
    by (cases "readDirectory (memoryAccessor (Some headTree)) (canonical (''a'' # ds))")
      (simp_all add: checkout_fields sameView_def sameListing_def)
  have "wfRoot (Some headTree)" by (simp add: wfRoot_def headTree_def validName_def isComp_def isName_def)
  then show "listingOk (ov_clean checkout1)" "listingOk (ov_clean checkout2)"
    unfolding checkout_fields by (rule memory_listingOk)+
qed (use sample_digest sample_streams in \<open>simp_all add: validName_def isComp_def isName_def checkout_fields\<close>)

end
