(* ===== verification/Store_Path.thy ===== *)
theory Store_Path
  imports Hash_Text "HOL-Library.Sublist"
begin

text \<open>
  Store paths (\<^verbatim>\<open>src/libstore/path.cc\<close>, \<^verbatim>\<open>path.hh\<close>): the rules for names, the two constructors, from
  a base name and from a hash and a name, and the test for derivations. The exceptions of
  \<^verbatim>\<open>checkName\<close> are \<open>NameError\<close>, those of the constructors \<open>PathError\<close>.
\<close>

section \<open>Data\<close>

datatype NameError =
    EmptyName
  | NameTooLong bytes
  | NameInvalid bytes
  | DotComponent bytes bytes
  | IllegalCharacter bytes char

datatype PathError =
    TooShort bytes
  | NoDash bytes
  | IllegalHashCharacter bytes char
  | BadName bytes NameError
  | OutOfRange
  | NotDerivation bytes
  | HashFailure HashError

record StorePath =
  baseName :: bytes

definition HashLen :: nat where
  "HashLen = 32"

definition MaxPathLen :: nat where
  "MaxPathLen = 211"

definition drvExtension :: bytes where
  "drvExtension = ''.drv''"

section \<open>Operations\<close>

definition nameCharacter :: "char \<Rightarrow> bool" where
  "nameCharacter c =
     ((CHR ''0'' \<le> c \<and> c \<le> CHR ''9'') \<or> (CHR ''a'' \<le> c \<and> c \<le> CHR ''z'') \<or> (CHR ''A'' \<le> c \<and> c \<le> CHR ''Z'') \<or>
      c = CHR ''+'' \<or> c = CHR ''-'' \<or> c = CHR ''.'' \<or> c = CHR ''_'' \<or> c = CHR ''?'' \<or> c = CHR ''='')"

text \<open>The tests of a name that starts with a dot.\<close>

definition checkDots :: "bytes \<Rightarrow> NameError + unit" where
  "checkDots n =
     (if n ! 0 \<noteq> CHR ''.'' then Inr ()
      else if length n = 1 then Inl (NameInvalid n)
      else if n ! 1 = CHR ''-'' then Inl (DotComponent n ''.'')
      else if n ! 1 = CHR ''.'' then
        (if length n = 2 then Inl (NameInvalid n)
         else if n ! 2 = CHR ''-'' then Inl (DotComponent n ''..'')
         else Inr ())
      else Inr ())"

definition checkName :: "bytes \<Rightarrow> NameError + unit" where
  "checkName n =
     (if n = [] then Inl EmptyName
      else if length n > MaxPathLen then Inl (NameTooLong n)
      else ebind (checkDots n) (\<lambda>_.
        case find (\<lambda>c. \<not> nameCharacter c) n of
          Some c \<Rightarrow> Inl (IllegalCharacter n c)
        | None \<Rightarrow> Inr ()))"

definition checkPathName :: "bytes \<Rightarrow> bytes \<Rightarrow> PathError + unit" where
  "checkPathName p n = (case checkName n of Inl e \<Rightarrow> Inl (BadName p e) | Inr _ \<Rightarrow> Inr ())"

definition to_string :: "StorePath \<Rightarrow> bytes" where
  "to_string p = baseName p"

text \<open>\<^verbatim>\<open>substr\<close> past the end throws \<^verbatim>\<open>std::out_of_range\<close>.\<close>

definition name :: "StorePath \<Rightarrow> PathError + bytes" where
  "name p = (if length (baseName p) < HashLen + 1 then Inl OutOfRange else Inr (drop (HashLen + 1) (baseName p)))"

definition hashPart :: "StorePath \<Rightarrow> bytes" where
  "hashPart p = take HashLen (baseName p)"

definition hashCharacter :: "char \<Rightarrow> bool" where
  "hashCharacter c =
     (\<not> (c = CHR ''e'' \<or> c = CHR ''o'' \<or> c = CHR ''u'' \<or> c = CHR ''t'' \<or>
         \<not> ((CHR ''0'' \<le> c \<and> c \<le> CHR ''9'') \<or> (CHR ''a'' \<le> c \<and> c \<le> CHR ''z''))))"

definition parseBaseName :: "bytes \<Rightarrow> PathError + StorePath" where
  "parseBaseName base =
     (if length base < HashLen + 1 then Inl (TooShort base)
      else if base ! HashLen \<noteq> CHR ''-'' then Inl (NoDash base)
      else let p = \<lparr>baseName = base\<rparr> in
        case find (\<lambda>c. \<not> hashCharacter c) (hashPart p) of
          Some c \<Rightarrow> Inl (IllegalHashCharacter base c)
        | None \<Rightarrow> ebind (name p) (\<lambda>n. ebind (checkPathName base n) (\<lambda>_. Inr p)))"

definition fromHash :: "Hash \<Rightarrow> bytes \<Rightarrow> PathError + StorePath" where
  "fromHash h n =
     (case Hash_Text.to_string h Nix32 False of
        Inl e \<Rightarrow> Inl (HashFailure e)
      | Inr s \<Rightarrow> let p = \<lparr>baseName = s @ ''-'' @ n\<rparr> in
          ebind (name p) (\<lambda>m. ebind (checkPathName (baseName p) m) (\<lambda>_. Inr p)))"

definition isDerivation :: "StorePath \<Rightarrow> PathError + bool" where
  "isDerivation p = ebind (name p) (\<lambda>n. Inr (suffix drvExtension n))"

definition requireDerivation :: "StorePath \<Rightarrow> PathError + unit" where
  "requireDerivation p = ebind (isDerivation p) (\<lambda>b. if b then Inr () else Inl (NotDerivation (to_string p)))"

section \<open>The rules for names\<close>

text \<open>
  The rule the code refers to: 1 to 211 characters of the alphabet whose first dash-separated
  component is neither \<^verbatim>\<open>.\<close> nor \<^verbatim>\<open>..\<close>.
\<close>

definition validName :: "bytes \<Rightarrow> bool" where
  "validName n =
     (0 < length n \<and> length n \<le> MaxPathLen \<and> list_all nameCharacter n \<and>
      takeWhile (\<lambda>c. c \<noteq> CHR ''-'') n \<notin> {''.'', ''..''})"

lemma find_None_iff_all: "find (\<lambda>c. \<not> P c) xs = None \<longleftrightarrow> list_all P xs"
  by (auto simp: find_None_iff list_all_iff)

lemma find_case_Inr:
  "(case find (\<lambda>c. \<not> P c) xs of Some c \<Rightarrow> Inl (e c) | None \<Rightarrow> r) = Inr x \<longleftrightarrow> list_all P xs \<and> r = Inr x"
  "(case find (\<lambda>c. \<not> P c) xs of None \<Rightarrow> r | Some c \<Rightarrow> Inl (e c)) = Inr x \<longleftrightarrow> list_all P xs \<and> r = Inr x"
  by (cases "find (\<lambda>c. \<not> P c) xs"; auto simp flip: find_None_iff_all)+

lemma checkDots_iff:
  assumes "n \<noteq> []"
  shows "checkDots n = Inr () \<longleftrightarrow> takeWhile (\<lambda>c. c \<noteq> CHR ''-'') n \<notin> {''.'', ''..''}"
proof -
  obtain a t where n: "n = a # t" using assms by (cases n) auto
  show ?thesis
  proof (cases t)
    case (Cons b u)
    then show ?thesis by (cases u) (auto simp: n checkDots_def)
  qed (simp add: n checkDots_def)
qed

lemma checkName_iff: "checkName n = Inr () \<longleftrightarrow> validName n"
  using checkDots_iff [of n]
  by (cases "n = []") (auto simp: checkName_def validName_def bind_defs find_case_Inr)

lemma checkPathName_iff: "checkPathName p n = Inr () \<longleftrightarrow> validName n"
  using checkName_iff [of n] by (auto simp: checkPathName_def split: sum.split)

lemma hashCharacter_nix32: "c \<in> set nix32Chars \<Longrightarrow> hashCharacter c"
proof -
  have "\<forall>c \<in> set nix32Chars. hashCharacter c" by code_simp
  then show "c \<in> set nix32Chars \<Longrightarrow> ?thesis" by blast
qed

text \<open>A path the constructor accepts.\<close>

definition wfPath :: "StorePath \<Rightarrow> bool" where
  "wfPath p \<longleftrightarrow> (\<exists>h n. baseName p = h @ ''-'' @ n \<and> length h = HashLen \<and> list_all hashCharacter h \<and> validName n)"

lemma parseBaseName_iff: "parseBaseName base = Inr p \<longleftrightarrow> baseName p = base \<and> wfPath p"
proof (cases "length base < HashLen + 1 \<or> base ! HashLen \<noteq> CHR ''-''")
  case True
  then show ?thesis by (auto simp: parseBaseName_def wfPath_def nth_append)
next
  case False
  let ?p = "\<lparr>baseName = base\<rparr>"
  have "base = take HashLen base @ base ! HashLen # drop (Suc HashLen) base"
    using False by (intro id_take_nth_drop) simp
  then have b: "base = take HashLen base @ ''-'' @ drop (HashLen + 1) base" using False by simp
  have wf: "wfPath ?p \<longleftrightarrow> list_all hashCharacter (take HashLen base) \<and> validName (drop (HashLen + 1) base)"
  proof
    assume "wfPath ?p"
    then show "list_all hashCharacter (take HashLen base) \<and> validName (drop (HashLen + 1) base)"
      by (auto simp: wfPath_def)
  next
    assume "list_all hashCharacter (take HashLen base) \<and> validName (drop (HashLen + 1) base)"
    then show "wfPath ?p" using b False unfolding wfPath_def
      by (intro exI [of _ "take HashLen base"] exI [of _ "drop (HashLen + 1) base"]) simp
  qed
  have p: "baseName p = base \<longleftrightarrow> p = ?p" by (cases p) auto
  show ?thesis using False wf p checkPathName_iff [of base "drop (HashLen + 1) base"]
    by (auto simp: parseBaseName_def Let_def name_def hashPart_def bind_defs find_case_Inr)
qed

lemma wfPath_parts:
  assumes "wfPath p"
  shows "name p = Inr (drop (HashLen + 1) (baseName p))" "validName (drop (HashLen + 1) (baseName p))"
    "list_all hashCharacter (hashPart p)" "length (hashPart p) = HashLen" "baseName p = hashPart p @ ''-'' @ drop (HashLen + 1) (baseName p)"
  using assms by (auto simp: wfPath_def name_def hashPart_def)

lemma fromHash_20:
  assumes "hashSize h = 20" "20 \<le> length (hash h)"
  shows "fromHash h n = Inr p \<longleftrightarrow> validName n \<and> baseName p = nix32_encode (hashBytes h) @ ''-'' @ n"
    and "validName n \<Longrightarrow> wfPath \<lparr>baseName = nix32_encode (hashBytes h) @ ''-'' @ n\<rparr>"
proof -
  let ?s = "nix32_encode (hashBytes h)"
  have "length (hashBytes h) = 20" using assms by (simp add: hashBytes_def)
  moreover from this have "hashBytes h \<noteq> []" by auto
  ultimately have len: "length ?s = HashLen" using length_nix32_encode [of "hashBytes h"]
    by (simp add: nix32_encodedLength_def HashLen_def)
  have "Hash_Text.to_string h Nix32 False = Inr ?s" using assms by (simp add: Hash_Text.to_string_def)
  then show "fromHash h n = Inr p \<longleftrightarrow> validName n \<and> baseName p = ?s @ ''-'' @ n"
    using checkPathName_iff [of "?s @ ''-'' @ n" n] len
    by (cases p) (auto simp: fromHash_def Let_def name_def bind_defs)
  have "list_all hashCharacter ?s" using nix32_encode_chars hashCharacter_nix32 by (auto simp: list_all_iff)
  then show "wfPath \<lparr>baseName = ?s @ ''-'' @ n\<rparr>" if "validName n"
    using that len unfolding wfPath_def by (intro exI [of _ ?s] exI [of _ n]) simp
qed


lemma path_of_hash:
  assumes "hashSize h = 20" "20 \<le> length (hash h)" "validName n"
  shows "\<exists>p. fromHash h n = Inr p \<and> parseBaseName (to_string p) = Inr p \<and> name p = Inr n \<and>
    nix32_decode (hashPart p) = Inr (hashBytes h)"
proof -
  let ?p = "\<lparr>baseName = nix32_encode (hashBytes h) @ ''-'' @ n\<rparr>"
  have p: "fromHash h n = Inr ?p" "wfPath ?p" using fromHash_20 [OF assms(1,2)] assms(3) by auto
  have l: "length (hashBytes h) = 20" using assms by (simp add: hashBytes_def)
  then have "hashBytes h \<noteq> []" by auto
  with l have "length (nix32_encode (hashBytes h)) = HashLen"
    by (simp add: length_nix32_encode nix32_encodedLength_def HashLen_def)
  then have "name ?p = Inr n" "hashPart ?p = nix32_encode (hashBytes h)"
    by (simp_all add: name_def hashPart_def)
  then show ?thesis using p by (intro exI [of _ ?p]) (simp add: parseBaseName_iff to_string_def nix32_decode_encode l)
qed

section \<open>Properties\<close>

text \<open>
  C29: a base name is accepted exactly when it is 32 characters of the hash alphabet, a dash and a valid
  name, and then the path is that base name.
\<close>
theorem path_accepted:
  "parseBaseName base = Inr p \<longleftrightarrow> to_string p = base \<and>
     (\<exists>h n. base = h @ ''-'' @ n \<and> length h = 32 \<and> list_all hashCharacter h \<and> validName n)"
  unfolding parseBaseName_iff by (auto simp: to_string_def wfPath_def HashLen_def)

text \<open>
  From a 20-byte hash and a valid name the constructor makes a path that the parser of base names
  accepts, with that name, and whose hash part decodes to the hash.
\<close>
theorem path_from_hash:
  assumes "hashSize h = 20" "20 \<le> length (hash h)" "validName n"
  shows "\<exists>p. fromHash h n = Inr p \<and> parseBaseName (to_string p) = Inr p \<and> name p = Inr n \<and>
    nix32_decode (hashPart p) = Inr (hashBytes h)"
  using assms by (rule path_of_hash)

theorem path_from_hash_witness:
  "\<exists>p. fromHash \<lparr>hashSize = 20, hash = replicate 64 0, algo = SHA256\<rparr> ''tecnix-1.0.drv'' = Inr p \<and> name p = Inr ''tecnix-1.0.drv''"
proof -
  have "validName ''tecnix-1.0.drv''" by code_simp
  then show ?thesis using path_from_hash [of "\<lparr>hashSize = 20, hash = replicate 64 0, algo = SHA256\<rparr>" "''tecnix-1.0.drv''"] by auto
qed

end
