(* ===== verification/Content_Address.thy ===== *)
theory Content_Address
  imports Store_Path
begin

text \<open>
  Content addresses (\<^verbatim>\<open>src/libstore/content-address.cc\<close>, the method names of
  \<^verbatim>\<open>src/libutil/file-content-address.cc\<close>): how a store object was hashed, the hash, and the text
  \<^verbatim>\<open>text:<algo>:<hash>\<close> or \<^verbatim>\<open>fixed:[r:|git:]<algo>:<hash>\<close>. The experimental features are two
  arguments, \<open>git\<close> for Git hashing and \<open>xp\<close> for BLAKE3. Sets of store paths are lists.
\<close>

section \<open>Data\<close>

datatype FileSerialisationMethod = SerialiseFlat | SerialiseNixArchive

datatype FileIngestionMethod = IngestFlat | IngestNixArchive | IngestGit

datatype ContentAddressMethod = Flat | NixArchive | Git | Text

datatype CAError =
    UnknownSerialisation bytes
  | UnknownIngestion bytes
  | MissingGitFeature
  | NotPrefixed bytes
  | NotAlgoAndHash bytes
  | UnrecognizedPrefix bytes
  | SelfReference
  | HashFault HashError

record ContentAddress =
  "method" :: ContentAddressMethod
  caHash :: Hash

record StoreReferences =
  others :: "StorePath list"
  self :: bool

record TextInfo =
  textHash :: Hash
  textReferences :: "StorePath list"

record FixedOutputInfo =
  fixedMethod :: FileIngestionMethod
  fixedHash :: Hash
  fixedReferences :: StoreReferences

datatype ContentAddressWithReferences = TextCA TextInfo | FixedCA FixedOutputInfo

definition liftHash :: "HashError + 'a \<Rightarrow> CAError + 'a" where
  "liftHash m = (case m of Inl e \<Rightarrow> Inl (HashFault e) | Inr a \<Rightarrow> Inr a)"

lemma liftHash_simps [simp]: "liftHash (Inl e) = Inl (HashFault e)" "liftHash (Inr a) = Inr a"
  by (simp_all add: liftHash_def)

lemma liftHash_eq_Inr [bind_defs]: "liftHash m = Inr a \<longleftrightarrow> m = Inr a"
  by (cases m) simp_all

text \<open>\<^verbatim>\<open>splitPrefix\<close>: drop a prefix, and say whether it was there.\<close>

definition splitPrefix :: "bytes \<Rightarrow> bytes \<Rightarrow> bool \<times> bytes" where
  "splitPrefix s p = (if startsWith s p then (True, drop (length p) s) else (False, s))"

section \<open>Names of methods\<close>

definition parseFileSerialisationMethodOpt :: "bytes \<Rightarrow> FileSerialisationMethod option" where
  "parseFileSerialisationMethodOpt input =
     (if input = ''flat'' then Some SerialiseFlat
      else if input = ''nar'' then Some SerialiseNixArchive
      else None)"

definition parseFileSerialisationMethod :: "bytes \<Rightarrow> CAError + FileSerialisationMethod" where
  "parseFileSerialisationMethod input = require (UnknownSerialisation input) (parseFileSerialisationMethodOpt input)"

fun castSerialisation :: "FileSerialisationMethod \<Rightarrow> FileIngestionMethod" where
  "castSerialisation SerialiseFlat = IngestFlat"
| "castSerialisation SerialiseNixArchive = IngestNixArchive"

definition parseFileIngestionMethod :: "bytes \<Rightarrow> CAError + FileIngestionMethod" where
  "parseFileIngestionMethod input =
     (if input = ''git'' then Inr IngestGit
      else case parseFileSerialisationMethodOpt input of
        Some ret \<Rightarrow> Inr (castSerialisation ret)
      | None \<Rightarrow> Inl (UnknownIngestion input))"

fun renderFileSerialisationMethod :: "FileSerialisationMethod \<Rightarrow> bytes" where
  "renderFileSerialisationMethod SerialiseFlat = ''flat''"
| "renderFileSerialisationMethod SerialiseNixArchive = ''nar''"

fun renderFileIngestionMethod :: "FileIngestionMethod \<Rightarrow> bytes" where
  "renderFileIngestionMethod IngestFlat = renderFileSerialisationMethod SerialiseFlat"
| "renderFileIngestionMethod IngestNixArchive = renderFileSerialisationMethod SerialiseNixArchive"
| "renderFileIngestionMethod IngestGit = ''git''"

fun makeFileIngestionPrefix :: "bool \<Rightarrow> FileIngestionMethod \<Rightarrow> CAError + bytes" where
  "makeFileIngestionPrefix git IngestFlat = Inr ''''"
| "makeFileIngestionPrefix git IngestNixArchive = Inr ''r:''"
| "makeFileIngestionPrefix git IngestGit = (if git then Inr ''git:'' else Inl MissingGitFeature)"

fun getFileIngestionMethod :: "ContentAddressMethod \<Rightarrow> FileIngestionMethod" where
  "getFileIngestionMethod Flat = IngestFlat"
| "getFileIngestionMethod NixArchive = IngestNixArchive"
| "getFileIngestionMethod Git = IngestGit"
| "getFileIngestionMethod Text = IngestFlat"

fun fileIngestionMethodToContentAddressMethod :: "FileIngestionMethod \<Rightarrow> ContentAddressMethod" where
  "fileIngestionMethodToContentAddressMethod IngestFlat = Flat"
| "fileIngestionMethodToContentAddressMethod IngestNixArchive = NixArchive"
| "fileIngestionMethodToContentAddressMethod IngestGit = Git"

fun renderMethod :: "ContentAddressMethod \<Rightarrow> bytes" where
  "renderMethod Text = ''text''"
| "renderMethod m = renderFileIngestionMethod (getFileIngestionMethod m)"

definition parseMethod :: "bytes \<Rightarrow> CAError + ContentAddressMethod" where
  "parseMethod m =
     (if m = ''text'' then Inr Text
      else ebind (parseFileIngestionMethod m) (\<lambda>i. Inr (fileIngestionMethodToContentAddressMethod i)))"

fun renderPrefix :: "bool \<Rightarrow> ContentAddressMethod \<Rightarrow> CAError + bytes" where
  "renderPrefix git Text = Inr ''text:''"
| "renderPrefix git m = makeFileIngestionPrefix git (getFileIngestionMethod m)"

definition parsePrefix :: "bool \<Rightarrow> bytes \<Rightarrow> CAError + ContentAddressMethod \<times> bytes" where
  "parsePrefix git m =
     (case splitPrefix m ''r:'' of (True, m1) \<Rightarrow> Inr (NixArchive, m1)
      | (False, _) \<Rightarrow> (case splitPrefix m ''git:'' of
          (True, m1) \<Rightarrow> if git then Inr (Git, m1) else Inl MissingGitFeature
        | (False, _) \<Rightarrow> (case splitPrefix m ''text:'' of
            (True, m1) \<Rightarrow> Inr (Text, m1)
          | (False, m1) \<Rightarrow> Inr (Flat, m1))))"

fun renderPrefixModern :: "bool \<Rightarrow> ContentAddressMethod \<Rightarrow> CAError + bytes" where
  "renderPrefixModern git Text = Inr ''text:''"
| "renderPrefixModern git m =
     ebind (makeFileIngestionPrefix git (getFileIngestionMethod m)) (\<lambda>p. Inr (''fixed:'' @ p))"

definition renderWithAlgo :: "bool \<Rightarrow> ContentAddressMethod \<Rightarrow> HashAlgorithm \<Rightarrow> CAError + bytes" where
  "renderWithAlgo git m ha = ebind (renderPrefixModern git m) (\<lambda>p. Inr (p @ printHashAlgo ha))"

section \<open>Content addresses as text\<close>

definition render :: "bool \<Rightarrow> ContentAddress \<Rightarrow> CAError + bytes" where
  "render git ca =
     ebind (renderPrefixModern git (method ca)) (\<lambda>p.
       ebind (liftHash (Hash_Text.to_string (caHash ca) Nix32 True)) (\<lambda>h. Inr (p @ h)))"

definition parseHashAlgorithm :: "bool \<Rightarrow> bytes \<Rightarrow> bytes \<Rightarrow> CAError + HashAlgorithm \<times> bytes" where
  "parseHashAlgorithm xp wholeInput rest =
     (case breakOn CHR '':'' rest of
        None \<Rightarrow> Inl (NotAlgoAndHash wholeInput)
      | Some (raw, rest') \<Rightarrow> ebind (liftHash (parseHashAlgo xp raw)) (\<lambda>a. Inr (a, rest')))"

text \<open>The method after \<^verbatim>\<open>fixed:\<close>.\<close>

definition parseFixedMethod :: "bool \<Rightarrow> bytes \<Rightarrow> CAError + ContentAddressMethod \<times> bytes" where
  "parseFixedMethod git rest =
     (case splitPrefix rest ''r:'' of (True, rest1) \<Rightarrow> Inr (NixArchive, rest1)
      | (False, _) \<Rightarrow> (case splitPrefix rest ''git:'' of
          (True, rest1) \<Rightarrow> if git then Inr (Git, rest1) else Inl MissingGitFeature
        | (False, rest1) \<Rightarrow> Inr (Flat, rest1)))"

definition parseContentAddressMethodPrefix ::
    "bool \<Rightarrow> bool \<Rightarrow> bytes \<Rightarrow> CAError + (ContentAddressMethod \<times> HashAlgorithm) \<times> bytes" where
  "parseContentAddressMethodPrefix git xp wholeInput =
     (case breakOn CHR '':'' wholeInput of
        None \<Rightarrow> Inl (NotPrefixed wholeInput)
      | Some (pre, rest) \<Rightarrow>
          if pre = ''text'' then
            ebind (parseHashAlgorithm xp wholeInput rest) (\<lambda>(a, rest'). Inr ((Text, a), rest'))
          else if pre = ''fixed'' then
            ebind (parseFixedMethod git rest) (\<lambda>(m, rest1).
              ebind (parseHashAlgorithm xp wholeInput rest1) (\<lambda>(a, rest'). Inr ((m, a), rest')))
          else Inl (UnrecognizedPrefix pre))"

definition parse :: "bool \<Rightarrow> bool \<Rightarrow> bytes \<Rightarrow> CAError + ContentAddress" where
  "parse git xp rawCa =
     ebind (parseContentAddressMethodPrefix git xp rawCa) (\<lambda>((caMethod, hashAlgo), rest).
       ebind (liftHash (parseNonSRIUnprefixed xp rest hashAlgo)) (\<lambda>h. Inr \<lparr>method = caMethod, caHash = h\<rparr>))"

definition parseWithAlgo :: "bool \<Rightarrow> bool \<Rightarrow> bytes \<Rightarrow> CAError + ContentAddressMethod \<times> HashAlgorithm" where
  "parseWithAlgo git xp caMethod =
     ebind (parseContentAddressMethodPrefix git xp (caMethod @ '':'')) (\<lambda>(r, _). Inr r)"

definition parseOpt :: "bool \<Rightarrow> bool \<Rightarrow> bytes \<Rightarrow> CAError + ContentAddress option" where
  "parseOpt git xp rawCaOpt = (if rawCaOpt = '''' then Inr None else ebind (parse git xp rawCaOpt) (\<lambda>ca. Inr (Some ca)))"

definition renderContentAddress :: "bool \<Rightarrow> ContentAddress option \<Rightarrow> CAError + bytes" where
  "renderContentAddress git ca = (case ca of Some c \<Rightarrow> render git c | None \<Rightarrow> Inr '''')"

definition printMethodAlgo :: "bool \<Rightarrow> ContentAddress \<Rightarrow> CAError + bytes" where
  "printMethodAlgo git ca = ebind (renderPrefix git (method ca)) (\<lambda>p. Inr (p @ printHashAlgo (algo (caHash ca))))"

section \<open>References\<close>

definition referencesEmpty :: "StoreReferences \<Rightarrow> bool" where
  "referencesEmpty r = (\<not> self r \<and> others r = [])"

definition referencesSize :: "StoreReferences \<Rightarrow> nat" where
  "referencesSize r = (if self r then 1 else 0) + length (others r)"

definition withoutRefs :: "ContentAddress \<Rightarrow> ContentAddressWithReferences" where
  "withoutRefs ca =
     (case method ca of
        Text \<Rightarrow> TextCA \<lparr>textHash = caHash ca, textReferences = []\<rparr>
      | m \<Rightarrow> FixedCA \<lparr>fixedMethod = getFileIngestionMethod m, fixedHash = caHash ca,
                       fixedReferences = \<lparr>others = [], self = False\<rparr>\<rparr>)"

definition fromParts :: "ContentAddressMethod \<Rightarrow> Hash \<Rightarrow> StoreReferences \<Rightarrow> CAError + ContentAddressWithReferences" where
  "fromParts m h refs =
     (case m of
        Text \<Rightarrow> if self refs then Inl SelfReference else Inr (TextCA \<lparr>textHash = h, textReferences = others refs\<rparr>)
      | _ \<Rightarrow> Inr (FixedCA \<lparr>fixedMethod = getFileIngestionMethod m, fixedHash = h, fixedReferences = refs\<rparr>))"

fun getMethod :: "ContentAddressWithReferences \<Rightarrow> ContentAddressMethod" where
  "getMethod (TextCA th) = Text"
| "getMethod (FixedCA fsh) = fileIngestionMethodToContentAddressMethod (fixedMethod fsh)"

fun getHash :: "ContentAddressWithReferences \<Rightarrow> Hash" where
  "getHash (TextCA th) = textHash th"
| "getHash (FixedCA fsh) = fixedHash fsh"

fun getReferences :: "ContentAddressWithReferences \<Rightarrow> StoreReferences" where
  "getReferences (TextCA th) = \<lparr>others = textReferences th, self = False\<rparr>"
| "getReferences (FixedCA fsh) = fixedReferences fsh"

section \<open>Lemmas\<close>

lemma splitPrefix_append: "splitPrefix (p @ s) p = (True, s)"
  by (simp add: splitPrefix_def)

lemma parse_renderMethod: "parseMethod (renderMethod m) = Inr m"
  by (cases m) (simp_all add: parseMethod_def parseFileIngestionMethod_def parseFileSerialisationMethodOpt_def)

lemma parse_renderFileIngestionMethod: "parseFileIngestionMethod (renderFileIngestionMethod m) = Inr m"
  by (cases m) (simp_all add: parseFileIngestionMethod_def parseFileSerialisationMethodOpt_def)

lemma parseHashAlgorithm_print:
  "allowed xp a \<Longrightarrow> parseHashAlgorithm xp w (printHashAlgo a @ CHR '':'' # s) = Inr (a, s)"
  using printHashAlgo_no_separator [of "CHR '':''" a] by (simp add: parseHashAlgorithm_def parse_printHashAlgo)

lemma printHashAlgo_prefixes:
  "\<not> startsWith (printHashAlgo a @ s) ''r:''" "\<not> startsWith (printHashAlgo a @ s) ''git:''"
  by (cases a; simp add: startsWith_def)+

lemma parseFixedMethod_print:
  assumes "makeFileIngestionPrefix git (getFileIngestionMethod m) = Inr p" "m \<noteq> Text"
  shows "parseFixedMethod git (p @ printHashAlgo a @ s) = Inr (m, printHashAlgo a @ s)"
  using assms printHashAlgo_prefixes
  by (cases m) (auto simp: parseFixedMethod_def splitPrefix_def startsWith_def split: if_splits)

lemma parsePrefix_render:
  assumes "renderPrefixModern git m = Inr p" "allowed xp a"
  shows "parseContentAddressMethodPrefix git xp (p @ printHashAlgo a @ CHR '':'' # s) = Inr ((m, a), s)"
proof (cases "m = Text")
  case True
  then have "breakOn CHR '':'' (p @ printHashAlgo a @ CHR '':'' # s) = Some (''text'', printHashAlgo a @ CHR '':'' # s)"
    using assms by auto
  then show ?thesis using True assms(2) by (simp add: parseContentAddressMethodPrefix_def parseHashAlgorithm_print)
next
  case False
  then obtain q where q: "makeFileIngestionPrefix git (getFileIngestionMethod m) = Inr q" "p = ''fixed:'' @ q"
    using assms by (cases m) (auto simp: bind_defs split: if_splits)
  then have "breakOn CHR '':'' (p @ printHashAlgo a @ CHR '':'' # s) = Some (''fixed'', q @ printHashAlgo a @ CHR '':'' # s)"
    by simp
  then show ?thesis using assms(2) parseFixedMethod_print [OF q(1) False]
    by (simp add: parseContentAddressMethodPrefix_def parseHashAlgorithm_print)
qed

lemma parseNonSRI_print:
  assumes "wfHash h" "allowed xp (algo h)"
  shows "parseNonSRIUnprefixed xp (nix32_encode (hashBytes h)) (algo h) = Inr h"
proof -
  have len: "length (hashBytes h) = regularHashSize (algo h)" using length_hashBytes [OF assms(1)] .
  have small: "length (hashBytes h) \<le> 2 ^ 28" using len regularHashSize_small [of "algo h"] by simp
  have "baseFromSize (nix32_encode (hashBytes h)) (algo h) = Inr Nix32"
    using baseFromSize_encode [OF len, of Nix32] by simp
  then show ?thesis
    using parseLowLevel_decoded [of "(nix32_decode, ''nix32'')", OF _ len assms(2)] hash_rebuild [OF assms(1)]
    by (simp add: parseNonSRIUnprefixed_def parseExplicitFormatUnprefixed_def nix32_decode_encode [OF small])
qed

lemma parse_render:
  assumes "wfHash (caHash ca)" "allowed xp (algo (caHash ca))" "method ca = Git \<longrightarrow> git"
  shows "\<exists>s. render git ca = Inr s \<and> parse git xp s = Inr ca"
proof -
  obtain p where p: "renderPrefixModern git (method ca) = Inr p"
    using assms(3) by (cases "method ca") auto
  let ?h = "caHash ca" and ?e = "nix32_encode (hashBytes (caHash ca))"
  have "hashSize ?h \<noteq> 0" using assms(1) regularHashSize_bounds(1) [of "algo ?h"] by (simp add: wfHash_def)
  then have "render git ca = Inr (p @ printHashAlgo (algo ?h) @ CHR '':'' # ?e)"
    using p by (simp add: render_def Hash_Text.to_string_def)
  moreover have "parse git xp (p @ printHashAlgo (algo ?h) @ CHR '':'' # ?e) = Inr ca"
    using parsePrefix_render [OF p assms(2), of ?e] parseNonSRI_print [OF assms(1,2)] by (simp add: parse_def)
  ultimately show ?thesis by blast
qed

lemma parse_wf:
  assumes "parse git xp s = Inr ca"
  shows "wfHash (caHash ca) \<and> allowed xp (algo (caHash ca)) \<and> (method ca = Git \<longrightarrow> git)"
  using assms
  by (auto simp: parse_def bind_defs parseNonSRIUnprefixed_def parseExplicitFormatUnprefixed_def
      parseContentAddressMethodPrefix_def parseFixedMethod_def
    dest!: parseLowLevel_wf split: prod.splits option.splits if_splits bool.splits)

lemma fromParts_getters:
  "fromParts m h refs = Inr ca \<Longrightarrow> getMethod ca = m \<and> getHash ca = h \<and> getReferences ca = refs"
  by (cases m; cases refs) (auto simp: fromParts_def split: if_splits)

lemma fromParts_error: "fromParts m h refs = Inl e \<longleftrightarrow> m = Text \<and> self refs \<and> e = SelfReference"
  by (cases m) (auto simp: fromParts_def)

lemma withoutRefs_getters: "getMethod (withoutRefs ca) = method ca \<and> getHash (withoutRefs ca) = caHash ca \<and> referencesEmpty (getReferences (withoutRefs ca))"
  by (cases "method ca") (simp_all add: withoutRefs_def referencesEmpty_def)

section \<open>Properties\<close>

text \<open>
  C30: a content address of a well-formed hash is printed and read back as itself, and every content
  address that any text parses to is of this kind, so that printing it gives a normal form that parses to
  the same address.
\<close>
theorem ca_roundtrip:
  assumes "wfHash (caHash ca) \<and> allowed xp (algo (caHash ca)) \<and> (method ca = Git \<longrightarrow> git) \<or> (\<exists>s. parse git xp s = Inr ca)"
  shows "ebind (render git ca) (parse git xp) = Inr ca"
  using parse_render [of ca xp git] parse_wf [of git xp _ ca] assms by (metis ebind_simps(2))

lemma sampleHash_allowed: "allowed xp (algo sampleHash)"
  by (simp add: allowed_def sampleHash_def)

theorem ca_roundtrip_witness:
  "ebind (render False \<lparr>method = NixArchive, caHash = sampleHash\<rparr>) (parse False False) = Inr \<lparr>method = NixArchive, caHash = sampleHash\<rparr>"
  by (rule ca_roundtrip) (simp add: wf_sampleHash sampleHash_allowed)

end
