(* ===== verification/Store_Dir.thy ===== *)
theory Store_Dir
  imports Content_Address Canon_Path
begin

text \<open>
  Store directories (\<^verbatim>\<open>src/libstore/store-dir-config.cc\<close>): reading and printing the absolute form of
  a store path, and computing the store path of an object from the hash of a description. The store
  directory is the argument \<open>storeDir\<close>, the features of hashes and Git are \<open>xp\<close> and \<open>git\<close>, the digest
  of the cryptographic library is \<open>digest\<close>, hashing the files of a source is \<open>hashPath\<close>. Of
  \<^verbatim>\<open>std::filesystem::path\<close> the code uses \<^verbatim>\<open>parent_path\<close> and \<^verbatim>\<open>filename\<close> on a canonical absolute
  path, where they split at the last separator. Sets are lists.
\<close>

datatype StoreError =
    EmptyPath
  | NotAbsolute bytes
  | NotInStore bytes
  | InCanon CanonError
  | InPath PathError
  | InHash HashError
  | InContentAddress CAError
  | GitNeedsSha HashAlgorithm
  | ReferencesNotAllowed bytes
  | AssertionFailed

definition lift :: "('e \<Rightarrow> StoreError) \<Rightarrow> 'e + 'a \<Rightarrow> StoreError + 'a" where
  "lift f m = (case m of Inl e \<Rightarrow> Inl (f e) | Inr a \<Rightarrow> Inr a)"

lemma lift_simps [simp]: "lift f (Inl e) = Inl (f e)" "lift f (Inr a) = Inr a"
  by (simp_all add: lift_def)

lemma lift_eq_Inr [bind_defs]: "lift f m = Inr a \<longleftrightarrow> m = Inr a"
  by (cases m) simp_all

section \<open>Reading and printing\<close>

text \<open>\<^verbatim>\<open>canonPath\<close> without resolving symbolic links.\<close>

definition canonPath :: "bytes \<Rightarrow> StoreError + bytes" where
  "canonPath p =
     (if p = [] then Inl EmptyPath
      else if p ! 0 \<noteq> SLASH then Inl (NotAbsolute p)
      else lift InCanon (canonPathInner p))"

definition canonicaliseStorePathCandidate :: "bytes \<Rightarrow> StoreError + bytes" where
  "canonicaliseStorePathCandidate p = canonPath p"

definition parent_path :: "bytes \<Rightarrow> bytes" where
  "parent_path p = (case rfind SLASH p of Some i \<Rightarrow> take (max 1 i) p | None \<Rightarrow> [])"

definition filename :: "bytes \<Rightarrow> bytes" where
  "filename p = (case rfind SLASH p of Some i \<Rightarrow> drop (i + 1) p | None \<Rightarrow> p)"

definition parseStorePath :: "bytes \<Rightarrow> bytes \<Rightarrow> StoreError + StorePath" where
  "parseStorePath storeDir path =
     (if path = [] then Inl EmptyPath
      else ebind (canonicaliseStorePathCandidate path) (\<lambda>p.
        if parent_path p \<noteq> storeDir then Inl (NotInStore p)
        else lift InPath (parseBaseName (filename p))))"

definition maybeParseStorePath :: "bytes \<Rightarrow> bytes \<Rightarrow> StorePath option" where
  "maybeParseStorePath storeDir path =
     (if path = [] then None
      else case ebind (canonicaliseStorePathCandidate path) (\<lambda>p.
        if parent_path p \<noteq> storeDir then Inr None
        else ebind (lift InPath (parseBaseName (filename p))) (\<lambda>s. Inr (Some s))) of
          Inl e \<Rightarrow> None
        | Inr r \<Rightarrow> r)"

definition isStorePath :: "bytes \<Rightarrow> bytes \<Rightarrow> bool" where
  "isStorePath storeDir path = (maybeParseStorePath storeDir path \<noteq> None)"

definition parseStorePathSet :: "bytes \<Rightarrow> bytes list \<Rightarrow> StoreError + StorePath list" where
  "parseStorePathSet storeDir paths = mapE (parseStorePath storeDir) paths"

definition printStorePath :: "bytes \<Rightarrow> StorePath \<Rightarrow> bytes" where
  "printStorePath storeDir p = (storeDir @ ''/'') @ Store_Path.to_string p"

definition printStorePathSet :: "bytes \<Rightarrow> StorePath list \<Rightarrow> bytes list" where
  "printStorePathSet storeDir paths = map (printStorePath storeDir) paths"

section \<open>Making store paths\<close>

definition makeStorePathFrom ::
    "(HashAlgorithm \<Rightarrow> bytes \<Rightarrow> octets) \<Rightarrow> bool \<Rightarrow> bytes \<Rightarrow> bytes \<Rightarrow> bytes \<Rightarrow> bytes \<Rightarrow> StoreError + StorePath" where
  "makeStorePathFrom digest xp storeDir type hashText n =
     (let s = type @ '':'' @ hashText @ '':'' @ storeDir @ '':'' @ n in
      ebind (lift InHash (hashString digest xp SHA256 s)) (\<lambda>full.
        ebind (lift InHash (compressHash xp full 20)) (\<lambda>h.
          lift InPath (fromHash h n))))"

definition makeStorePath ::
    "(HashAlgorithm \<Rightarrow> bytes \<Rightarrow> octets) \<Rightarrow> bool \<Rightarrow> bytes \<Rightarrow> bytes \<Rightarrow> Hash \<Rightarrow> bytes \<Rightarrow> StoreError + StorePath" where
  "makeStorePath digest xp storeDir type h n =
     ebind (lift InHash (Hash_Text.to_string h Base16 True)) (\<lambda>t. makeStorePathFrom digest xp storeDir type t n)"

definition outputPathName :: "bytes \<Rightarrow> bytes \<Rightarrow> bytes" where
  "outputPathName drvName outputName = (if outputName \<noteq> ''out'' then drvName @ ''-'' @ outputName else drvName)"

definition makeOutputPath ::
    "(HashAlgorithm \<Rightarrow> bytes \<Rightarrow> octets) \<Rightarrow> bool \<Rightarrow> bytes \<Rightarrow> bytes \<Rightarrow> Hash \<Rightarrow> bytes \<Rightarrow> StoreError + StorePath" where
  "makeOutputPath digest xp storeDir i h n = makeStorePath digest xp storeDir (''output:'' @ i) h (outputPathName n i)"

definition makeType :: "bytes \<Rightarrow> bytes \<Rightarrow> StoreReferences \<Rightarrow> bytes" where
  "makeType storeDir type references =
     foldl (\<lambda>t i. t @ '':'' @ printStorePath storeDir i) type (others references) @ (if self references then '':self'' else [])"

definition makeFixedOutputPath ::
    "(HashAlgorithm \<Rightarrow> bytes \<Rightarrow> octets) \<Rightarrow> bool \<Rightarrow> bool \<Rightarrow> bytes \<Rightarrow> bytes \<Rightarrow> FixedOutputInfo \<Rightarrow> StoreError + StorePath" where
  "makeFixedOutputPath digest git xp storeDir n info =
     (let a = algo (fixedHash info) in
      if fixedMethod info = IngestGit \<and> \<not> (a = SHA1 \<or> a = SHA256) then Inl (GitNeedsSha a)
      else if a = SHA256 \<and> fixedMethod info = IngestNixArchive then
        makeStorePath digest xp storeDir (makeType storeDir ''source'' (fixedReferences info)) (fixedHash info) n
      else if \<not> referencesEmpty (fixedReferences info) then Inl (ReferencesNotAllowed n)
      else
        ebind (lift InContentAddress (makeFileIngestionPrefix git (fixedMethod info))) (\<lambda>p.
          ebind (lift InHash (Hash_Text.to_string (fixedHash info) Base16 True)) (\<lambda>t.
            ebind (lift InHash (hashString digest xp SHA256 (''fixed:out:'' @ p @ t @ '':''))) (\<lambda>h.
              makeStorePath digest xp storeDir ''output:out'' h n))))"

definition makeFixedOutputPathFromCA ::
    "(HashAlgorithm \<Rightarrow> bytes \<Rightarrow> octets) \<Rightarrow> bool \<Rightarrow> bool \<Rightarrow> bytes \<Rightarrow> bytes \<Rightarrow> ContentAddressWithReferences \<Rightarrow> StoreError + StorePath" where
  "makeFixedOutputPathFromCA digest git xp storeDir n ca =
     (case ca of
        TextCA ti \<Rightarrow>
          if algo (textHash ti) \<noteq> SHA256 then Inl AssertionFailed
          else makeStorePath digest xp storeDir (makeType storeDir ''text'' \<lparr>others = textReferences ti, self = False\<rparr>) (textHash ti) n
      | FixedCA foi \<Rightarrow> makeFixedOutputPath digest git xp storeDir n foi)"

definition computeStorePath ::
    "(HashAlgorithm \<Rightarrow> bytes \<Rightarrow> octets) \<Rightarrow> (FileIngestionMethod \<Rightarrow> HashAlgorithm \<Rightarrow> StoreError + Hash) \<Rightarrow> bool \<Rightarrow> bool \<Rightarrow> bytes \<Rightarrow>
     bytes \<Rightarrow> ContentAddressMethod \<Rightarrow> HashAlgorithm \<Rightarrow> StorePath list \<Rightarrow> StoreError + StorePath \<times> Hash" where
  "computeStorePath digest hashPath git xp storeDir n m hashAlgo references =
     ebind (hashPath (getFileIngestionMethod m) hashAlgo) (\<lambda>h.
       ebind (lift InContentAddress (fromParts m h \<lparr>others = references, self = False\<rparr>)) (\<lambda>ca.
         ebind (makeFixedOutputPathFromCA digest git xp storeDir n ca) (\<lambda>p. Inr (p, h))))"

section \<open>Reading what was printed\<close>

lemma slash_illegal: "\<not> hashCharacter SLASH" "\<not> nameCharacter SLASH"
  by code_simp+

lemma wfPath_isComp: "wfPath p \<Longrightarrow> isComp (baseName p)"
proof -
  assume "wfPath p"
  then obtain h n where p: "baseName p = h @ ''-'' @ n" "length h = HashLen" "list_all hashCharacter h" "validName n"
    by (auto simp: wfPath_def)
  have "SLASH \<notin> set h" "SLASH \<notin> set n" using p(3,4) slash_illegal unfolding validName_def list_all_iff by blast+
  have "2 < length (baseName p)" using p(1,2) by (simp add: HashLen_def)
  then have "baseName p \<notin> {[], ''.'', ''..''}" by auto
  then show ?thesis using p(1) \<open>SLASH \<notin> set h\<close> \<open>SLASH \<notin> set n\<close> by (simp add: isComp_def isName_def)
qed

text \<open>A store directory: canonical, and not the root.\<close>

definition wfStoreDir :: "bytes \<Rightarrow> bool" where
  "wfStoreDir d = (wfCanon d \<and> comps d \<noteq> [])"

lemma parse_print:
  assumes "wfStoreDir storeDir" "wfPath p"
  shows "parseStorePath storeDir (printStorePath storeDir p) = Inr p"
proof -
  let ?b = "baseName p"
  obtain ds where ds: "storeDir = slashed ds" "list_all isComp ds" "ds \<noteq> []"
    using assms(1) by (auto simp: wfStoreDir_def wfCanon_def canonical_def)
  have b: "isComp ?b" using assms(2) by (rule wfPath_isComp)
  have full: "printStorePath storeDir p = slashed (ds @ [?b])" "printStorePath storeDir p = canonical (ds @ [?b])"
    by (simp_all add: printStorePath_def Store_Path.to_string_def ds canonical_def)
  have all: "list_all isComp (ds @ [?b])" using ds b by simp
  have "canonPathInner (canonical (ds @ [?b])) = Inr (canonical (ds @ [?b]))"
    using canonPathInner_spec [of "canonical (ds @ [?b])"] comps_canonical [OF list_isComp_isName [OF all]] normalise_id [OF all]
    by (simp add: canonical_def)
  moreover have "canonical (ds @ [?b]) ! 0 = SLASH" "canonical (ds @ [?b]) \<noteq> []"
    using ds(3) by (cases ds; simp add: canonical_def)+
  ultimately have c: "canonicaliseStorePathCandidate (canonical (ds @ [?b])) = Inr (canonical (ds @ [?b]))"
    by (simp add: canonicaliseStorePathCandidate_def canonPath_def)
  have "SLASH \<notin> set ?b" using b by (simp add: isComp_def isName_def)
  then have "rfind SLASH (slashed ds @ SLASH # ?b) = Some (length (slashed ds))" by (rule rfind_append)
  moreover have "max 1 (length (slashed ds)) = length (slashed ds)" using ds(3) by (cases ds) auto
  ultimately have "parent_path (canonical (ds @ [?b])) = storeDir" "filename (canonical (ds @ [?b])) = ?b"
    by (simp_all add: parent_path_def filename_def canonical_def ds(1))
  then show ?thesis using c assms(2) parseBaseName_iff [of ?b p] \<open>canonical (ds @ [?b]) \<noteq> []\<close>
    unfolding full(2) by (simp add: parseStorePath_def)
qed

lemma length_compress: "length (foldl (\<lambda>a i. a[f i := g a i]) xs is) = length xs"
  by (induction "is" arbitrary: xs) auto

lemma compressHash_20:
  assumes "compressHash xp full 20 = Inr h"
  shows "hashSize h = 20" "length (hash h) = maxHashSize"
  using assms by (auto simp: compressHash_def bind_defs newHash_eq_Inr length_compress split: if_splits)

lemma makeStorePathFrom_wf:
  assumes "makeStorePathFrom digest xp storeDir type t n = Inr p"
  shows "wfPath p \<and> name p = Inr n"
proof -
  obtain full h where "compressHash xp full 20 = Inr h" and h: "fromHash h n = Inr p"
    using assms by (auto simp: makeStorePathFrom_def Let_def bind_defs)
  then have c: "hashSize h = 20" "length (hash h) = maxHashSize" using compressHash_20 by blast+
  have l: "20 \<le> length (hash h)" using c(2) by (simp add: maxHashSize_def)
  have n: "validName n" using fromHash_20(1) [OF c(1) l] h by blast
  from path_of_hash [OF c(1) l n] obtain q where q: "fromHash h n = Inr q" "parseBaseName (Store_Path.to_string q) = Inr q" "name q = Inr n"
    by blast
  then have "q = p" using h by simp
  then show ?thesis using q parseBaseName_iff [of "Store_Path.to_string q" q] by simp
qed

lemma hashString_total: "\<exists>h. hashString digest xp SHA256 s = Inr h \<and> algo h = SHA256 \<and> hashSize h = 32"
  by (simp add: hashString_def newHash_allowed allowed_def)

lemma makeStorePathFrom_total:
  assumes "validName n"
  shows "\<exists>p. makeStorePathFrom digest xp storeDir type t n = Inr p"
proof -
  obtain full where full: "hashString digest xp SHA256 (type @ '':'' @ t @ '':'' @ storeDir @ '':'' @ n) = Inr full" "algo full = SHA256"
    using hashString_total by blast
  then obtain h where h: "compressHash xp full 20 = Inr h"
    by (auto simp: compressHash_def newHash_allowed allowed_def)
  from compressHash_20 [OF h] have "fromHash h n = Inr \<lparr>baseName = nix32_encode (hashBytes h) @ ''-'' @ n\<rparr>"
    using assms by (subst fromHash_20(1)) (simp_all add: maxHashSize_def)
  then show ?thesis using full(1) h by (simp add: makeStorePathFrom_def)
qed

lemma makeStorePath_total: "validName n \<Longrightarrow> hashSize h \<noteq> 0 \<Longrightarrow> \<exists>p. makeStorePath digest xp storeDir type h n = Inr p"
  using makeStorePathFrom_total by (simp add: makeStorePath_def Hash_Text.to_string_def)

lemma makeFixedOutputPathFromCA_wf:
  "makeFixedOutputPathFromCA digest git xp storeDir n ca = Inr p \<Longrightarrow> wfPath p \<and> name p = Inr n"
  by (cases ca) (auto simp: makeFixedOutputPathFromCA_def makeFixedOutputPath_def makeStorePath_def Let_def bind_defs
    dest!: makeStorePathFrom_wf split: if_splits)

section \<open>Properties\<close>

text \<open>
  C32: the path computed for a content address is a valid store path with the given name, and its absolute
  form is read back as the same path. A text address has a SHA-256 hash and may have references; a fixed
  output may have references only with a recursive SHA-256 hash.
\<close>
theorem made_path_parses:
  assumes "wfStoreDir storeDir" "makeFixedOutputPathFromCA digest git xp storeDir n ca = Inr p"
  shows "wfPath p \<and> name p = Inr n \<and> parseStorePath storeDir (printStorePath storeDir p) = Inr p \<and>
    (case ca of TextCA ti \<Rightarrow> algo (textHash ti) = SHA256
     | FixedCA foi \<Rightarrow> referencesEmpty (fixedReferences foi) \<or>
         (algo (fixedHash foi) = SHA256 \<and> fixedMethod foi = IngestNixArchive))"
proof -
  have "case ca of TextCA ti \<Rightarrow> algo (textHash ti) = SHA256
     | FixedCA foi \<Rightarrow> referencesEmpty (fixedReferences foi) \<or> (algo (fixedHash foi) = SHA256 \<and> fixedMethod foi = IngestNixArchive)"
    using assms(2)
    by (cases ca) (auto simp: makeFixedOutputPathFromCA_def makeFixedOutputPath_def Let_def split: if_splits)
  then show ?thesis using makeFixedOutputPathFromCA_wf [OF assms(2)] parse_print [OF assms(1)] by blast
qed

text \<open>A digest for the example, which need not be a good one.\<close>

definition zeroDigest :: "HashAlgorithm \<Rightarrow> bytes \<Rightarrow> octets" where
  "zeroDigest a s = replicate (regularHashSize a) (of_nat (length s))"

definition sampleText :: ContentAddressWithReferences where
  "sampleText = TextCA \<lparr>textHash = \<lparr>hashSize = 32, hash = replicate 64 0, algo = SHA256\<rparr>, textReferences = []\<rparr>"

lemma sample_made: "\<exists>p. makeFixedOutputPathFromCA zeroDigest False False ''/nix/store'' ''hello'' sampleText = Inr p"
proof -
  have v: "validName ''hello''" by code_simp
  show ?thesis using makeStorePathFrom_total [OF v]
    by (simp add: makeFixedOutputPathFromCA_def sampleText_def makeStorePath_def Hash_Text.to_string_def)
qed

theorem made_path_parses_witness:
  "\<exists>p. makeFixedOutputPathFromCA zeroDigest False False ''/nix/store'' ''hello'' sampleText = Inr p \<and>
    parseStorePath ''/nix/store'' (printStorePath ''/nix/store'' p) = Inr p \<and> name p = Inr ''hello''"
proof -
  have "wfStoreDir ''/nix/store''" by code_simp
  then show ?thesis using sample_made made_path_parses [of "''/nix/store''" zeroDigest False False "''hello''" sampleText] by blast
qed

end
