(* ===== verification/Sorted_Map.thy ===== *)
theory Sorted_Map
  imports Tx_Prelude
begin

text \<open>
  \<^verbatim>\<open>std::map\<close> and \<^verbatim>\<open>std::set\<close> where the order of iteration is part of the result: the list of the pairs, or
  of the elements, in the order of the keys. The theory has the operations that the code uses on them and what they
  do when the keys arrive in order, which is how a parser meets the output of a printer.
\<close>

fun insert_or_assign :: "'k::linorder \<Rightarrow> 'v \<Rightarrow> ('k \<times> 'v) list \<Rightarrow> ('k \<times> 'v) list" where
  "insert_or_assign k v [] = [(k, v)]"
| "insert_or_assign k v ((k', v') # m) =
     (if k < k' then (k, v) # (k', v') # m
      else if k = k' then (k, v) # m
      else (k', v') # insert_or_assign k v m)"

text \<open>\<^verbatim>\<open>emplace\<close> and \<^verbatim>\<open>insert\<close> keep the value that is there.\<close>

definition emplace :: "'k::linorder \<Rightarrow> 'v \<Rightarrow> ('k \<times> 'v) list \<Rightarrow> ('k \<times> 'v) list" where
  "emplace k v m = (if map_of m k = None then insert_or_assign k v m else m)"

fun set_insert :: "'a::linorder \<Rightarrow> 'a list \<Rightarrow> 'a list" where
  "set_insert x [] = [x]"
| "set_insert x (y # ys) = (if x < y then x # y # ys else if x = y then y # ys else y # set_insert x ys)"

definition set_union :: "'a::linorder list \<Rightarrow> 'a list \<Rightarrow> 'a list" where
  "set_union xs ys = fold set_insert ys xs"

definition erase :: "'k \<Rightarrow> ('k \<times> 'v) list \<Rightarrow> ('k \<times> 'v) list" where
  "erase k m = filter (\<lambda>e. fst e \<noteq> k) m"

abbreviation ordered_map :: "('k::linorder \<times> 'v) list \<Rightarrow> bool" where
  "ordered_map m \<equiv> sorted_wrt (<) (map fst m)"

abbreviation ordered_set :: "'a::linorder list \<Rightarrow> bool" where
  "ordered_set xs \<equiv> sorted_wrt (<) xs"

lemma ordered_map_distinct: "ordered_map m \<Longrightarrow> distinct (map fst m)"
  by (simp add: strict_sorted_iff)

lemma keys_insert_or_assign [simp]: "fst ` set (insert_or_assign k v m) = insert k (fst ` set m)"
  by (induction k v m rule: insert_or_assign.induct) auto

lemma ordered_insert_or_assign [simp]: "ordered_map m \<Longrightarrow> ordered_map (insert_or_assign k v m)"
proof (induction k v m rule: insert_or_assign.induct)
  case (2 k v k' v' m)
  have "\<forall>x\<in>set (insert_or_assign k v m). k' < fst x" if "k' < k"
  proof
    fix e
    assume "e \<in> set (insert_or_assign k v m)"
    then have "fst e \<in> insert k (fst ` set m)" by (metis image_eqI keys_insert_or_assign)
    then show "k' < fst e" using that 2(2) by auto
  qed
  then show ?case using 2 by auto
qed simp

lemma map_of_insert_or_assign: "map_of (insert_or_assign k v m) = (map_of m)(k \<mapsto> v)"
  if "ordered_map m"
  using that
proof (induction k v m rule: insert_or_assign.induct)
  case (2 k v k' v' m)
  have "map_of m k = None" if "k < k'"
    using 2(2) that by (auto simp: map_of_eq_None_iff)
  then show ?case using 2 by (auto simp: fun_eq_iff)
qed auto

lemma ordered_emplace [simp]: "ordered_map m \<Longrightarrow> ordered_map (emplace k v m)"
  by (simp add: emplace_def)

lemma map_of_emplace: "ordered_map m \<Longrightarrow> map_of (emplace k v m) x = (if x = k \<and> map_of m k = None then Some v else map_of m x)"
  by (simp add: emplace_def map_of_insert_or_assign)

lemma insert_or_assign_last: "(\<And>e. e \<in> set m \<Longrightarrow> fst e < k) \<Longrightarrow> insert_or_assign k v m = m @ [(k, v)]"
proof (induction k v m rule: insert_or_assign.induct)
  case (2 k v k' v' m)
  from 2(2) [of "(k', v')"] have "k' < k" by simp
  then show ?case using 2 by auto
qed simp

lemma emplace_last: "(\<And>e. e \<in> set m \<Longrightarrow> fst e < k) \<Longrightarrow> emplace k v m = m @ [(k, v)]"
  using insert_or_assign_last [of m k v] by (force simp: emplace_def map_of_eq_None_iff)

lemma set_set_insert [simp]: "set (set_insert x xs) = insert x (set xs)"
  by (induction x xs rule: set_insert.induct) auto

lemma ordered_set_insert [simp]: "ordered_set xs \<Longrightarrow> ordered_set (set_insert x xs)"
  by (induction x xs rule: set_insert.induct) auto

lemma set_insert_last: "(\<And>y. y \<in> set xs \<Longrightarrow> y < x) \<Longrightarrow> set_insert x xs = xs @ [x]"
  by (induction x xs rule: set_insert.induct) (auto dest: less_asym)

lemma set_set_union [simp]: "set (set_union xs ys) = set xs \<union> set ys"
  by (induction ys arbitrary: xs) (auto simp: set_union_def)

lemma ordered_set_union [simp]: "ordered_set xs \<Longrightarrow> ordered_set (set_union xs ys)"
  by (induction ys arbitrary: xs) (auto simp: set_union_def)

lemma map_of_erase: "map_of (erase k m) x = (if x = k then None else map_of m x)"
  by (induction m) (auto simp: erase_def)

lemma ordered_erase [simp]: "ordered_map m \<Longrightarrow> ordered_map (erase k m)"
  by (induction m) (auto simp: erase_def)

lemma erase_absent: "k \<notin> fst ` set m \<Longrightarrow> erase k m = m"
  by (auto simp: erase_def filter_id_conv image_iff)

lemma ordered_map_ext:
  assumes "ordered_map m" "ordered_map m'" "map_of m = map_of m'"
  shows "m = m'"
proof -
  have "set m = set m'"
    using assms(3) map_of_eq_Some_iff [OF ordered_map_distinct [OF assms(1)]] map_of_eq_Some_iff [OF ordered_map_distinct [OF assms(2)]]
    by auto
  then have keys: "map fst m = map fst m'" using assms(1,2) by (intro strict_sorted_equal) auto
  show ?thesis
  proof (rule nth_equalityI)
    show len: "length m = length m'" using keys by (metis length_map)
    fix i
    assume i: "i < length m"
    have "map_of m (fst (m ! i)) = Some (snd (m ! i))" "map_of m' (fst (m' ! i)) = Some (snd (m' ! i))"
      using i len ordered_map_distinct [OF assms(1)] ordered_map_distinct [OF assms(2)] by auto
    moreover have "fst (m ! i) = fst (m' ! i)" using keys i len by (metis nth_map)
    ultimately show "m ! i = m' ! i" using assms(3) by (simp add: prod_eq_iff)
  qed
qed

lemma erase_insert: "ordered_map m \<Longrightarrow> k \<notin> fst ` set m \<Longrightarrow> erase k (emplace k v m) = m"
  by (rule ordered_map_ext) (auto simp: map_of_erase map_of_emplace fun_eq_iff map_of_eq_None_iff [THEN iffD2])

end
