(* ===== verification/Drv_Text.thy ===== *)
theory Drv_Text
  imports Store_Dir Sorted_Map
begin

text \<open>
  Derivations and their text (\<^verbatim>\<open>src/libstore/derivations.cc\<close>, \<^verbatim>\<open>derivations.hh\<close>): the abstract syntax, the
  ATerm printer and the parser that reads a store derivation back. Maps and sets are ordered lists. The
  parser's stream is the text that remains; its \<^verbatim>\<open>while\<close> loops over lists have the length of the text as
  fuel, and so has the recursion over nested outputs. JSON is the type \<open>'j\<close> with the two functions of the JSON
  library that the code calls. A \<open>Setting\<close> collects what the code takes from the store and from the settings.
\<close>

section \<open>Data\<close>

datatype ExperimentalFeature =
    CaDerivations
  | ImpureDerivations
  | DynamicDerivations
  | BakedDerivations
  | GitHashing
  | BLAKE3Hashes

datatype DerivationOutput =
    InputAddressed StorePath
  | CAFixed ContentAddress
  | CAFloating ContentAddressMethod HashAlgorithm
  | Deferred
  | Impure ContentAddressMethod HashAlgorithm

text \<open>The instance of the trie \<^verbatim>\<open>DerivedPathMap\<close> that derivations use: at each node the names of outputs.\<close>

datatype ChildNode = ChildNode (outputNames: "bytes list") (childMap: "(bytes \<times> ChildNode) list")

record 'j BasicDerivation =
  outputs :: "(bytes \<times> DerivationOutput) list"
  inputSrcs :: "StorePath list"
  platform :: bytes
  builder :: bytes
  args :: "bytes list"
  env :: "(bytes \<times> bytes) list"
  structuredAttrs :: "'j option"
  drvName :: bytes

record 'j Derivation = "'j BasicDerivation" +
  inputDrvs :: "(StorePath \<times> ChildNode) list"

record 'j Setting =
  storeDirectory :: bytes
  digestOf :: "HashAlgorithm \<Rightarrow> bytes \<Rightarrow> octets"
  enabled :: "ExperimentalFeature \<Rightarrow> bool"
  jsonParse :: "bytes \<Rightarrow> 'j option"
  jsonDump :: "'j \<Rightarrow> bytes"

datatype DrvError =
    Expected bytes
  | UnterminatedString
  | BadPath bytes
  | MissingFeature ExperimentalFeature
  | OutputPathGiven
  | InvalidInputDrvs
  | UnknownVersion bytes
  | BadStart
  | BadStructuredAttrs
  | ReservedVariable
  | Unreadable StorePath
  | EmptyFile
  | MixedOutputTypes
  | SeveralFixedOutputs
  | FixedOutputName
  | MixedFloatingAlgorithms
  | NoOutput
  | SubstituteOutputs
  | SubstituteNotBuiltin
  | SubstituteArguments
  | SubstituteVariables
  | SubstituteInputs
  | NoHashForOutput bytes bytes
  | MissingVariable bytes
  | WrongVariable bytes
  | WrongOutputPath StorePath StorePath
  | ShouldBeDeferred StorePath
  | NameMismatch
  | AssertFailed
  | InStore StoreError
  | OutOfFuel

instantiation StorePath_ext :: (linorder) linorder
begin

definition less_eq_StorePath_ext :: "'a StorePath_scheme \<Rightarrow> 'a StorePath_scheme \<Rightarrow> bool" where
  "less_eq_StorePath_ext p q = (baseName p < baseName q \<or> baseName p = baseName q \<and> StorePath.more p \<le> StorePath.more q)"

definition less_StorePath_ext :: "'a StorePath_scheme \<Rightarrow> 'a StorePath_scheme \<Rightarrow> bool" where
  "less_StorePath_ext p q = (baseName p < baseName q \<or> baseName p = baseName q \<and> StorePath.more p < StorePath.more q)"

instance
  by standard (auto simp: less_eq_StorePath_ext_def less_StorePath_ext_def)

end

definition inStore :: "StoreError + 'a \<Rightarrow> DrvError + 'a" where
  "inStore m = (case m of Inl e \<Rightarrow> Inl (InStore e) | Inr a \<Rightarrow> Inr a)"

definition requireFeature :: "'j Setting \<Rightarrow> ExperimentalFeature \<Rightarrow> DrvError + unit" where
  "requireFeature S f = (if enabled S f then Inr () else Inl (MissingFeature f))"

lemma inStore_simps [simp]: "inStore (Inl e) = Inl (InStore e)" "inStore (Inr a) = Inr a"
  by (simp_all add: inStore_def)

lemma inStore_eq_Inr [bind_defs]: "inStore m = Inr a \<longleftrightarrow> m = Inr a"
  by (cases m) simp_all

lemma requireFeature_eq_Inr [bind_defs]: "requireFeature S f = Inr u \<longleftrightarrow> enabled S f"
  by (simp add: requireFeature_def)

abbreviation QUOTE :: char where
  "QUOTE \<equiv> CHR 0x22"

abbreviation BACKSLASH :: char where
  "BACKSLASH \<equiv> CHR 0x5C"

definition jsonVariable :: bytes where
  "jsonVariable = ''__json''"

section \<open>Reading strings\<close>

definition escapes :: "char \<Rightarrow> char" where
  "escapes c = (if c = CHR ''n'' then CHR 0x0A else if c = CHR ''r'' then CHR 0x0D else if c = CHR ''t'' then CHR 0x09 else c)"

definition expect :: "bytes \<Rightarrow> bytes \<Rightarrow> DrvError + bytes" where
  "expect str s = (if startsWith str s then Inr (drop (length s) str) else Inl (Expected s))"

text \<open>\<^verbatim>\<open>find(c, start)\<close>.\<close>

definition findFrom :: "char \<Rightarrow> bytes \<Rightarrow> nat \<Rightarrow> nat option" where
  "findFrom c s start = find (\<lambda>i. s ! i = c) [start ..< length s]"

lemma findFrom_bounds: "findFrom c s start = Some i \<Longrightarrow> start \<le> i \<and> i < length s \<and> s ! i = c"
  by (auto simp: findFrom_def find_Some_iff)

text \<open>The backslashes that end directly before a position.\<close>

definition backslashesBefore :: "bytes \<Rightarrow> nat \<Rightarrow> nat" where
  "backslashesBefore s i = length (takeWhile (\<lambda>c. c = BACKSLASH) (rev (take i s)))"

text \<open>The loop that looks for the closing quote: the first quote with an even number of backslashes before it.\<close>

function closingQuote :: "bytes \<Rightarrow> nat \<Rightarrow> nat option" where
  "closingQuote s start =
     (case findFrom QUOTE s start of
        None \<Rightarrow> None
      | Some i \<Rightarrow> if even (backslashesBefore s i) then Some i else closingQuote s (i + 1))"
  by pat_completeness auto
termination
  by (relation "measure (\<lambda>(s, start). length s - start)") (auto dest: findFrom_bounds)

declare closingQuote.simps [simp del]

text \<open>The loop that copies the text between the backslashes.\<close>

function unescape :: "bytes \<Rightarrow> DrvError + bytes" where
  "unescape content =
     (case breakOn BACKSLASH content of
        None \<Rightarrow> Inr content
      | Some (before, rest) \<Rightarrow> (case rest of
          [] \<Rightarrow> Inl UnterminatedString
        | c # rest' \<Rightarrow> ebind (unescape rest') (\<lambda>t. Inr (before @ escapes c # t))))"
  by pat_completeness auto
termination
  by (relation "measure length") (auto dest: breakOn_length)

declare unescape.simps [simp del]

definition parseString :: "bytes \<Rightarrow> DrvError + bytes \<times> bytes" where
  "parseString str0 =
     ebind (expect str0 [QUOTE]) (\<lambda>str.
       case closingQuote str 0 of
         None \<Rightarrow> Inl UnterminatedString
       | Some i \<Rightarrow> ebind (unescape (take i str)) (\<lambda>s. Inr (s, drop (i + 1) str)))"

definition validatePath :: "bytes \<Rightarrow> DrvError + unit" where
  "validatePath s = (if length s = 0 \<or> s ! 0 \<noteq> SLASH then Inl (BadPath s) else Inr ())"

definition parsePath :: "bytes \<Rightarrow> DrvError + bytes \<times> bytes" where
  "parsePath str = ebind (parseString str) (\<lambda>(s, r). ebind (validatePath s) (\<lambda>_. Inr (s, r)))"

definition peek :: "bytes \<Rightarrow> char option" where
  "peek str = (case str of [] \<Rightarrow> None | c # _ \<Rightarrow> Some c)"

definition endOfList :: "bytes \<Rightarrow> bool \<times> bytes" where
  "endOfList str =
     (if peek str = Some CHR '','' then (False, tl str)
      else if peek str = Some CHR '']'' then (True, tl str)
      else (False, str))"

text \<open>\<^verbatim>\<open>while (!endOfList(str))\<close> with a body that changes a variable and the stream.\<close>

fun whileList :: "nat \<Rightarrow> ('s \<Rightarrow> bytes \<Rightarrow> DrvError + 's \<times> bytes) \<Rightarrow> 's \<Rightarrow> bytes \<Rightarrow> DrvError + 's \<times> bytes" where
  "whileList 0 body s str = Inl OutOfFuel"
| "whileList (Suc n) body s str =
     (case endOfList str of
        (True, r) \<Rightarrow> Inr (s, r)
      | (False, r) \<Rightarrow> ebind (body s r) (\<lambda>(s', r'). whileList n body s' r'))"

definition parseStrings :: "bytes \<Rightarrow> bool \<Rightarrow> DrvError + bytes list \<times> bytes" where
  "parseStrings str0 arePaths =
     ebind (expect str0 ''['') (\<lambda>str.
       whileList (Suc (length str)) (\<lambda>res r.
         ebind ((if arePaths then parsePath else parseString) r) (\<lambda>(s, r'). Inr (set_insert s res, r'))) [] str)"

section \<open>Reading derivations\<close>

definition parseOutputParts :: "'j Setting \<Rightarrow> bytes \<Rightarrow> bytes \<Rightarrow> bytes \<Rightarrow> DrvError + DerivationOutput" where
  "parseOutputParts S pathS hashAlgoStr hashS =
     (if hashAlgoStr \<noteq> [] then
        ebind (inStore (lift InContentAddress (parsePrefix (enabled S GitHashing) hashAlgoStr))) (\<lambda>(m, algoStr).
          ebind (if m = Text then requireFeature S DynamicDerivations else Inr ()) (\<lambda>_.
            ebind (inStore (lift InHash (parseHashAlgo (enabled S BLAKE3Hashes) algoStr))) (\<lambda>hashAlgo.
              if hashS = ''impure'' then
                ebind (requireFeature S ImpureDerivations) (\<lambda>_.
                  if pathS \<noteq> [] then Inl OutputPathGiven else Inr (Impure m hashAlgo))
              else if hashS \<noteq> [] then
                ebind (validatePath pathS) (\<lambda>_.
                  ebind (inStore (lift InHash (parseNonSRIUnprefixed (enabled S BLAKE3Hashes) hashS hashAlgo))) (\<lambda>h.
                    Inr (CAFixed \<lparr>method = m, caHash = h\<rparr>)))
              else
                ebind (requireFeature S CaDerivations) (\<lambda>_.
                  if pathS \<noteq> [] then Inl OutputPathGiven else Inr (CAFloating m hashAlgo)))))
      else if pathS = [] then Inr Deferred
      else ebind (validatePath pathS) (\<lambda>_.
        ebind (inStore (parseStorePath (storeDirectory S) pathS)) (\<lambda>p. Inr (InputAddressed p))))"

definition parseDerivationOutput :: "'j Setting \<Rightarrow> bytes \<Rightarrow> DrvError + DerivationOutput \<times> bytes" where
  "parseDerivationOutput S s0 =
     ebind (expect s0 '','') (\<lambda>s1. ebind (parseString s1) (\<lambda>(pathS, s2).
       ebind (expect s2 '','') (\<lambda>s3. ebind (parseString s3) (\<lambda>(hashAlgo, s4).
         ebind (expect s4 '','') (\<lambda>s5. ebind (parseString s5) (\<lambda>(h, s6).
           ebind (expect s6 '')'') (\<lambda>s7.
             ebind (parseOutputParts S pathS hashAlgo h) (\<lambda>out. Inr (out, s7)))))))))"

datatype DerivationATermVersion = Traditional | WithDynamicDerivations

fun parseDerivedPathMapNode :: "nat \<Rightarrow> DerivationATermVersion \<Rightarrow> bytes \<Rightarrow> DrvError + ChildNode \<times> bytes" where
  "parseDerivedPathMapNode 0 version s0 = Inl OutOfFuel"
| "parseDerivedPathMapNode (Suc n) version s0 =
     (case version of
        Traditional \<Rightarrow> ebind (parseStrings s0 False) (\<lambda>(v, s1). Inr (ChildNode v [], s1))
      | WithDynamicDerivations \<Rightarrow>
          (if peek s0 = Some CHR ''['' then ebind (parseStrings s0 False) (\<lambda>(v, s1). Inr (ChildNode v [], s1))
           else if peek s0 = Some CHR ''('' then
               ebind (expect s0 ''('') (\<lambda>s1. ebind (parseStrings s1 False) (\<lambda>(v, s2).
                 ebind (expect s2 '',['') (\<lambda>s3.
                   ebind (whileList (Suc (length s3)) (\<lambda>m t0.
                       ebind (expect t0 ''('') (\<lambda>t1. ebind (parseString t1) (\<lambda>(outputName, t2).
                         ebind (expect t2 '','') (\<lambda>t3. ebind (parseDerivedPathMapNode n version t3) (\<lambda>(child, t4).
                           ebind (expect t4 '')'') (\<lambda>t5. Inr (insert_or_assign outputName child m, t5))))))) [] s3) (\<lambda>(m, s4).
                     ebind (expect s4 '')'') (\<lambda>s5. Inr (ChildNode v m, s5))))))
           else Inl InvalidInputDrvs))"

definition parseVersion :: "'j Setting \<Rightarrow> bytes \<Rightarrow> DrvError + DerivationATermVersion \<times> bytes" where
  "parseVersion S s0 =
     ebind (expect s0 ''D'') (\<lambda>s1.
       if peek s1 = Some CHR ''e'' then ebind (expect s1 ''erive('') (\<lambda>s2. Inr (Traditional, s2))
       else if peek s1 = Some CHR ''r'' then
           ebind (expect s1 ''rvWithVersion('') (\<lambda>s2. ebind (parseString s2) (\<lambda>(v, s3).
             ebind (if v = ''xp-dyn-drv'' then requireFeature S DynamicDerivations else Inl (UnknownVersion v)) (\<lambda>_.
               ebind (expect s3 '','') (\<lambda>s4. Inr (WithDynamicDerivations, s4)))))
       else Inl BadStart)"

text \<open>\<^verbatim>\<open>StructuredAttrs::parse\<close>.\<close>

definition parseStructuredAttrs :: "'j Setting \<Rightarrow> bytes \<Rightarrow> DrvError + 'j" where
  "parseStructuredAttrs S encoded = require BadStructuredAttrs (jsonParse S encoded)"

definition parseOutputs :: "'j Setting \<Rightarrow> bytes \<Rightarrow> DrvError + (bytes \<times> DerivationOutput) list \<times> bytes" where
  "parseOutputs S str =
     whileList (Suc (length str)) (\<lambda>m s0.
       ebind (expect s0 ''('') (\<lambda>s1. ebind (parseString s1) (\<lambda>(i, s2).
         ebind (parseDerivationOutput S s2) (\<lambda>(out, s3). Inr (emplace i out m, s3))))) [] str"

definition parseInputDrvs :: "'j Setting \<Rightarrow> DerivationATermVersion \<Rightarrow> bytes \<Rightarrow> DrvError + (StorePath \<times> ChildNode) list \<times> bytes" where
  "parseInputDrvs S version str =
     whileList (Suc (length str)) (\<lambda>m s0.
       ebind (expect s0 ''('') (\<lambda>s1. ebind (parsePath s1) (\<lambda>(drvPath, s2).
         ebind (expect s2 '','') (\<lambda>s3.
           ebind (inStore (parseStorePath (storeDirectory S) drvPath)) (\<lambda>p.
             ebind (parseDerivedPathMapNode (Suc (length s3)) version s3) (\<lambda>(node, s4).
               ebind (expect s4 '')'') (\<lambda>s5. Inr (insert_or_assign p node m, s5)))))))) [] str"

text \<open>The arguments: each is appended.\<close>

definition parseArgs :: "bytes \<Rightarrow> DrvError + bytes list \<times> bytes" where
  "parseArgs str =
     whileList (Suc (length str)) (\<lambda>xs s0. ebind (parseString s0) (\<lambda>(x, s1). Inr (xs @ [x], s1))) [] str"

definition parseEnv :: "'j Setting \<Rightarrow> bytes \<Rightarrow> DrvError + ((bytes \<times> bytes) list \<times> 'j option) \<times> bytes" where
  "parseEnv S str =
     whileList (Suc (length str)) (\<lambda>(e, attrs) s0.
       ebind (expect s0 ''('') (\<lambda>s1. ebind (parseString s1) (\<lambda>(n, s2).
         ebind (expect s2 '','') (\<lambda>s3. ebind (parseString s3) (\<lambda>(v, s4).
           ebind (if n = jsonVariable then ebind (parseStructuredAttrs S v) (\<lambda>j. Inr (e, Some j))
                  else Inr (insert_or_assign n v e, attrs)) (\<lambda>st.
             ebind (expect s4 '')'') (\<lambda>s5. Inr (st, s5)))))))) ([], None) str"

text \<open>
  The set of store paths that a list of texts gives, in order. What follows the closing parenthesis is not read.
\<close>

definition storePathSet :: "'j Setting \<Rightarrow> bytes list \<Rightarrow> DrvError + StorePath list" where
  "storePathSet S ts = ebind (inStore (parseStorePathSet (storeDirectory S) ts)) (\<lambda>ps. Inr (set_union [] ps))"

definition parseDerivation :: "'j Setting \<Rightarrow> bytes \<Rightarrow> bytes \<Rightarrow> DrvError + 'j Derivation" where
  "parseDerivation S s n =
     ebind (parseVersion S s) (\<lambda>(version, s0).
     ebind (expect s0 ''['') (\<lambda>s1. ebind (parseOutputs S s1) (\<lambda>(outs, s2).
     ebind (expect s2 '',['') (\<lambda>s3. ebind (parseInputDrvs S version s3) (\<lambda>(drvs, s4).
     ebind (expect s4 '','') (\<lambda>s5. ebind (parseStrings s5 True) (\<lambda>(srcs, s6).
     ebind (storePathSet S srcs) (\<lambda>ps.
     ebind (expect s6 '','') (\<lambda>s7. ebind (parseString s7) (\<lambda>(plat, s8).
     ebind (expect s8 '','') (\<lambda>s9. ebind (parseString s9) (\<lambda>(bld, s10).
     ebind (expect s10 '',['') (\<lambda>s11. ebind (parseArgs s11) (\<lambda>(as, s12).
     ebind (expect s12 '',['') (\<lambda>s13. ebind (parseEnv S s13) (\<lambda>((e, attrs), s14).
     ebind (expect s14 '')'') (\<lambda>_.
       Inr \<lparr>outputs = outs, inputSrcs = ps, platform = plat, builder = bld, args = as, env = e,
            structuredAttrs = attrs, drvName = n, inputDrvs = drvs\<rparr>)))))))))))))))))"

section \<open>Printing derivations\<close>

definition printChar :: "char \<Rightarrow> bytes" where
  "printChar c =
     (if c = QUOTE \<or> c = BACKSLASH then [BACKSLASH, c]
      else if c = CHR 0x0A then [BACKSLASH, CHR ''n'']
      else if c = CHR 0x0D then [BACKSLASH, CHR ''r'']
      else if c = CHR 0x09 then [BACKSLASH, CHR ''t'']
      else [c])"

definition printString :: "bytes \<Rightarrow> bytes" where
  "printString s = QUOTE # concat (map printChar s) @ [QUOTE]"

definition printUnquotedString :: "bytes \<Rightarrow> bytes" where
  "printUnquotedString s = QUOTE # s @ [QUOTE]"

text \<open>The loops that print a comma before every element but the first.\<close>

fun commaSep :: "bytes list \<Rightarrow> bytes" where
  "commaSep [] = []"
| "commaSep [x] = x"
| "commaSep (x # y # xs) = x @ '','' @ commaSep (y # xs)"

definition printStrings :: "bytes list \<Rightarrow> bytes" where
  "printStrings xs = ''['' @ commaSep (map printString xs) @ '']''"

definition printUnquotedStrings :: "bytes list \<Rightarrow> bytes" where
  "printUnquotedStrings xs = ''['' @ commaSep (map printUnquotedString xs) @ '']''"

fun unparseDerivedPathMapNode :: "ChildNode \<Rightarrow> bytes" where
  "unparseDerivedPathMapNode (ChildNode v m) =
     '','' @
     (if m = [] then printUnquotedStrings v
      else ''('' @ printUnquotedStrings v @ '',['' @
        commaSep (map (\<lambda>e. ''('' @ printUnquotedString (fst e) @ unparseDerivedPathMapNode (snd e) @ '')'') m) @ ''])'')"

definition hasDynamicDrvDep :: "'j Derivation \<Rightarrow> bool" where
  "hasDynamicDrvDep drv = list_ex (\<lambda>e. childMap (snd e) \<noteq> []) (inputDrvs drv)"

text \<open>\<^verbatim>\<open>DerivationOutput::CAFixed::path\<close>.\<close>

definition fixedPath :: "'j Setting \<Rightarrow> ContentAddress \<Rightarrow> bytes \<Rightarrow> bytes \<Rightarrow> DrvError + StorePath" where
  "fixedPath S ca n outputName =
     inStore (makeFixedOutputPathFromCA (digestOf S) (enabled S GitHashing) (enabled S BLAKE3Hashes) (storeDirectory S)
       (outputPathName n outputName) (withoutRefs ca))"

definition renderMethodPrefix :: "'j Setting \<Rightarrow> ContentAddressMethod \<Rightarrow> DrvError + bytes" where
  "renderMethodPrefix S m = inStore (lift InContentAddress (renderPrefix (enabled S GitHashing) m))"

text \<open>The three strings of an output: its path, the method with the algorithm, and the hash.\<close>

fun outputParts :: "'j Setting \<Rightarrow> bool \<Rightarrow> bytes \<Rightarrow> bytes \<Rightarrow> DerivationOutput \<Rightarrow> DrvError + bytes \<times> bytes \<times> bytes" where
  "outputParts S maskOutputs n i (InputAddressed p) =
     Inr (if maskOutputs then [] else printStorePath (storeDirectory S) p, [], [])"
| "outputParts S maskOutputs n i (CAFixed ca) =
     ebind (if maskOutputs then Inr [] else ebind (fixedPath S ca n i) (\<lambda>p. Inr (printStorePath (storeDirectory S) p))) (\<lambda>p.
       ebind (inStore (lift InContentAddress (printMethodAlgo (enabled S GitHashing) ca))) (\<lambda>m.
         ebind (inStore (lift InHash (Hash_Text.to_string (caHash ca) Base16 False))) (\<lambda>h. Inr (p, m, h))))"
| "outputParts S maskOutputs n i (CAFloating m a) =
     ebind (renderMethodPrefix S m) (\<lambda>p. Inr ([], p @ printHashAlgo a, []))"
| "outputParts S maskOutputs n i Deferred = Inr ([], [], [])"
| "outputParts S maskOutputs n i (Impure m a) =
     ebind (renderMethodPrefix S m) (\<lambda>p. Inr ([], p @ printHashAlgo a, ''impure''))"

definition unparseOutput :: "'j Setting \<Rightarrow> bool \<Rightarrow> bytes \<Rightarrow> bytes \<times> DerivationOutput \<Rightarrow> DrvError + bytes" where
  "unparseOutput S maskOutputs n i =
     ebind (outputParts S maskOutputs n (fst i) (snd i)) (\<lambda>(p, m, h).
       Inr (''('' @ printUnquotedString (fst i) @ '','' @ printUnquotedString p @ '','' @ printUnquotedString m @ '','' @
         printUnquotedString h @ '')''))"

definition unparseInputDrv :: "bytes \<times> ChildNode \<Rightarrow> bytes" where
  "unparseInputDrv e = ''('' @ printUnquotedString (fst e) @ unparseDerivedPathMapNode (snd e) @ '')''"

definition unparseVariable :: "'j Derivation \<Rightarrow> bool \<Rightarrow> bytes \<times> bytes \<Rightarrow> bytes" where
  "unparseVariable drv maskOutputs i =
     ''('' @ printString (fst i) @ '','' @
     printString (if maskOutputs \<and> map_of (outputs drv) (fst i) \<noteq> None then [] else snd i) @ '')''"

text \<open>\<^verbatim>\<open>StructuredAttrs::checkKeyNotInUse\<close>, and the variables with the one that encodes the structured attributes.\<close>

definition checkKeyNotInUse :: "(bytes \<times> bytes) list \<Rightarrow> DrvError + unit" where
  "checkKeyNotInUse e = (if map_of e jsonVariable \<noteq> None then Inl ReservedVariable else Inr ())"

definition atermEnv :: "'j Setting \<Rightarrow> ('j, 'b) BasicDerivation_scheme \<Rightarrow> (bytes \<times> bytes) list" where
  "atermEnv S drv =
     (case structuredAttrs drv of
        Some j \<Rightarrow> emplace jsonVariable (jsonDump S j) (env drv)
      | None \<Rightarrow> env drv)"

definition unparse :: "'j Setting \<Rightarrow> 'j Derivation \<Rightarrow> bool \<Rightarrow> (bytes \<times> ChildNode) list option \<Rightarrow> DrvError + bytes" where
  "unparse S drv maskOutputs actualInputs =
     ebind (mapE (unparseOutput S maskOutputs (drvName drv)) (outputs drv)) (\<lambda>outs.
       ebind (checkKeyNotInUse (env drv)) (\<lambda>_.
         Inr ((if hasDynamicDrvDep drv then ''DrvWithVersion('' @ printUnquotedString ''xp-dyn-drv'' @ '','' else ''Derive('') @
           ''['' @ commaSep outs @ ''],['' @
           commaSep (map unparseInputDrv (case actualInputs of
               Some m \<Rightarrow> m
             | None \<Rightarrow> map (\<lambda>e. (printStorePath (storeDirectory S) (fst e), snd e)) (inputDrvs drv))) @ ''],'' @
           printUnquotedStrings (printStorePathSet (storeDirectory S) (inputSrcs drv)) @ '','' @
           printUnquotedString (platform drv) @ '','' @ printString (builder drv) @ '','' @ printStrings (args drv) @ '',['' @
           commaSep (map (unparseVariable drv maskOutputs) (atermEnv S drv)) @ ''])'')))"

section \<open>Strings that are printed are read back\<close>

lemma expect_append [simp]: "expect (s @ r) s = Inr r"
  by (simp add: expect_def)

lemma expect_Cons [simp]: "expect (c # r) [c] = Inr r" "expect (c # d # r) [c, d] = Inr r"
  by (simp_all add: expect_def startsWith_def)

text \<open>Whether a character that follows is escaped: the parity that the search for the quote computes.\<close>

definition escaped :: "bytes \<Rightarrow> bool" where
  "escaped s = foldl (\<lambda>e c. c = BACKSLASH \<and> \<not> e) False s"

lemma odd_backslashes: "odd (length (takeWhile (\<lambda>c. c = BACKSLASH) (rev s))) \<longleftrightarrow> escaped s"
  by (induction s rule: rev_induct) (auto simp: escaped_def)

lemma even_backslashesBefore: "even (backslashesBefore s i) \<longleftrightarrow> \<not> escaped (take i s)"
  using odd_backslashes [of "take i s"] by (auto simp: backslashesBefore_def)

lemma escaped_append: "\<not> escaped a \<Longrightarrow> escaped (a @ b) = escaped b"
  by (simp add: escaped_def)

lemma findFrom_le:
  assumes "start \<le> j" "j < length s" "s ! j = c"
  shows "\<exists>i. findFrom c s start = Some i \<and> i \<le> j"
proof -
  have "j \<in> set [start ..< length s]" using assms by simp
  then have "findFrom c s start \<noteq> None" using assms(3) by (auto simp: findFrom_def find_None_iff)
  then obtain i where i: "findFrom c s start = Some i" by blast
  then obtain k where k: "k < length s - start" "i = start + k" "\<forall>m<k. s ! (start + m) \<noteq> c"
    by (auto simp: findFrom_def find_Some_iff)
  have "i \<le> j"
  proof (rule ccontr)
    assume "\<not> i \<le> j"
    then have "j - start < k" "start + (j - start) = j" using assms(1) k(2) by simp_all
    then show False using k(3) assms(3) by metis
  qed
  then show ?thesis using i by blast
qed

text \<open>A text whose quotes are all escaped, and that does not end in the middle of an escape.\<close>

definition enclosed :: "bytes \<Rightarrow> bool" where
  "enclosed s = (\<not> escaped s \<and> (\<forall>i<length s. s ! i = QUOTE \<longrightarrow> escaped (take i s)))"

lemma closingQuote_enclosed:
  assumes "enclosed s" "start \<le> length s"
  shows "closingQuote (s @ QUOTE # r) start = Some (length s)"
  using assms(2)
proof (induction "length s - start" arbitrary: start rule: less_induct)
  case less
  obtain i where i: "findFrom QUOTE (s @ QUOTE # r) start = Some i" "i \<le> length s"
    using findFrom_le [of start "length s" "s @ QUOTE # r" QUOTE] less.prems by auto
  note b = findFrom_bounds [OF i(1)]
  show ?case
  proof (cases "i = length s")
    case True
    then show ?thesis using i(1) assms(1)
      by (subst closingQuote.simps) (simp add: even_backslashesBefore enclosed_def)
  next
    case False
    then have lt: "i < length s" using i(2) by simp
    then have "escaped (take i (s @ QUOTE # r))" using assms(1) b by (simp add: enclosed_def nth_append)
    moreover have "length s - (i + 1) < length s - start" using lt b by linarith
    then have "closingQuote (s @ QUOTE # r) (i + 1) = Some (length s)" using less.hyps [of "i + 1"] lt by simp
    ultimately show ?thesis using i(1)
      by (subst closingQuote.simps) (simp add: even_backslashesBefore)
  qed
qed

lemma enclosed_append: "enclosed a \<Longrightarrow> enclosed b \<Longrightarrow> enclosed (a @ b)"
  by (auto simp: enclosed_def escaped_append nth_append)

lemma enclosed_Nil [simp]: "enclosed []"
  by (simp add: enclosed_def escaped_def)

lemma enclosed_printChar: "enclosed (printChar c)"
  by (auto simp: enclosed_def escaped_def printChar_def less_Suc_eq nth_Cons')

lemma enclosed_printed: "enclosed (concat (map printChar s))"
  by (induction s) (auto intro: enclosed_append enclosed_printChar)

text \<open>A text that is the same with and without escapes.\<close>

definition plain :: "bytes \<Rightarrow> bool" where
  "plain s = (QUOTE \<notin> set s \<and> BACKSLASH \<notin> set s)"

lemma plain_simps [simp]: "plain []" "plain (c # s) \<longleftrightarrow> c \<noteq> QUOTE \<and> c \<noteq> BACKSLASH \<and> plain s" "plain (s @ t) \<longleftrightarrow> plain s \<and> plain t"
  by (auto simp: plain_def)

lemma enclosed_plain: "plain s \<Longrightarrow> enclosed s"
proof (induction s)
  case (Cons c s)
  then have "enclosed [c]" by (auto simp: enclosed_def escaped_def)
  then show ?case using enclosed_append [of "[c]" s] Cons by simp
qed simp

lemma unescape_Nil [simp]: "unescape [] = Inr []"
  by (subst unescape.simps) simp

lemma unescape_plain: "plain s \<Longrightarrow> unescape s = Inr s"
  by (subst unescape.simps) (simp add: plain_def breakOn_eq_None [THEN iffD2])

lemma unescape_Cons: "c \<noteq> BACKSLASH \<Longrightarrow> unescape (c # s) = ebind (unescape s) (\<lambda>t. Inr (c # t))"
  by (subst (1 2) unescape.simps) (auto split: option.splits list.splits simp: ebind_def split: sum.splits)

lemma unescape_escape: "unescape (BACKSLASH # c # s) = ebind (unescape s) (\<lambda>t. Inr (escapes c # t))"
  by (subst unescape.simps) simp

lemma unescape_printed: "unescape (concat (map printChar s)) = Inr s"
  by (induction s) (auto simp: printChar_def unescape_escape unescape_Cons escapes_def)

lemma parse_enclosed:
  "enclosed s \<Longrightarrow> unescape s = Inr t \<Longrightarrow> parseString (QUOTE # s @ QUOTE # r) = Inr (t, r)"
  by (simp add: parseString_def closingQuote_enclosed)

lemma parse_printString [simp]: "parseString (printString s @ r) = Inr (s, r)"
  using parse_enclosed [OF enclosed_printed unescape_printed, of s r] by (simp add: printString_def)

lemma parse_printUnquotedString [simp]: "plain s \<Longrightarrow> parseString (printUnquotedString s @ r) = Inr (s, r)"
  using parse_enclosed [OF enclosed_plain unescape_plain, of s r] by (simp add: printUnquotedString_def)

section \<open>Lists that are printed are read back\<close>

declare whileList.simps [simp del]

definition listStart :: "bytes \<Rightarrow> bool" where
  "listStart t = (t \<noteq> [] \<and> hd t \<noteq> CHR '','' \<and> hd t \<noteq> CHR '']'')"

lemma listStart_simps [simp]: "listStart (printString s)" "listStart (printUnquotedString s)" "listStart (CHR ''('' # t)"
  by (simp_all add: listStart_def printString_def printUnquotedString_def)

lemma commaSep_Cons: "commaSep (x # xs) = x @ concat (map (\<lambda>y. '','' @ y) xs)"
  by (induction xs arbitrary: x) auto

lemma length_commaSep: "x \<in> set xs \<Longrightarrow> length x \<le> length (commaSep xs)"
  by (induction xs rule: commaSep.induct) auto

lemma commaSep_count: "(\<And>x. x \<in> set xs \<Longrightarrow> listStart x) \<Longrightarrow> length xs \<le> length (commaSep xs)"
proof (induction xs rule: commaSep.induct)
  case (3 x y xs)
  then show ?case by (fastforce simp: listStart_def)
qed (auto simp: listStart_def Suc_le_eq)

lemma endOfList_simps [simp]:
  "endOfList (CHR '','' # r) = (False, r)" "endOfList (CHR '']'' # r) = (True, r)"
  "listStart t \<Longrightarrow> endOfList (t @ r) = (False, t @ r)"
  by (cases t; auto simp: endOfList_def peek_def listStart_def)+

lemma whileList_rest:
  assumes "\<And>x s r. x \<in> set xs \<Longrightarrow> body s (text x @ r) = Inr (step s x, r)" "length xs < n"
  shows "whileList n body s (concat (map (\<lambda>x. '','' @ text x) xs) @ CHR '']'' # r) = Inr (foldl step s xs, r)"
  using assms
proof (induction xs arbitrary: n s)
  case Nil
  then show ?case by (cases n) (auto simp: whileList.simps)
next
  case (Cons x xs)
  then obtain k where k: "n = Suc k" "length xs < k" by (cases n) auto
  show ?case using Cons.IH [OF Cons.prems(1) k(2)] Cons.prems(1) by (simp add: k(1) whileList.simps)
qed

lemma whileList_commaSep:
  assumes body: "\<And>x s r. x \<in> set xs \<Longrightarrow> body s (text x @ r) = Inr (step s x, r)"
    and start: "\<And>x. x \<in> set xs \<Longrightarrow> listStart (text x)" and fuel: "length (commaSep (map text xs)) < n"
  shows "whileList n body s (commaSep (map text xs) @ CHR '']'' # r) = Inr (foldl step s xs, r)"
proof (cases xs)
  case Nil
  then show ?thesis using fuel by (cases n) (auto simp: whileList.simps)
next
  case (Cons x xs')
  have "length (map text xs) \<le> length (commaSep (map text xs))" by (rule commaSep_count) (use start in auto)
  then have "length xs < n" using fuel by simp
  then obtain k where k: "n = Suc k" "length xs' < k" using Cons by (cases n) auto
  have "concat (map (\<lambda>y. '','' @ y) (map text xs')) = concat (map (\<lambda>x. '','' @ text x) xs')"
    by (simp add: comp_def)
  moreover have "endOfList (text x @ concat (map (\<lambda>x. '','' @ text x) xs') @ CHR '']'' # r) = (False, text x @ concat (map (\<lambda>x. '','' @ text x) xs') @ CHR '']'' # r)"
    using start [of x] Cons by (intro endOfList_simps) simp
  moreover have "whileList k body (step s x) (concat (map (\<lambda>x. '','' @ text x) xs') @ CHR '']'' # r) = Inr (foldl step s xs, r)"
    using whileList_rest [OF body k(2)] Cons by simp
  ultimately show ?thesis using body [of x] Cons by (simp add: k(1) commaSep_Cons whileList.simps)
qed

lemma foldl_set_insert: "ordered_set (ys @ xs) \<Longrightarrow> foldl (\<lambda>s x. set_insert x s) ys xs = ys @ xs"
proof (induction xs arbitrary: ys)
  case (Cons x xs)
  then have "set_insert x ys = ys @ [x]" by (intro set_insert_last) (auto simp: sorted_wrt_append)
  then show ?case using Cons by simp
qed simp

lemma foldl_insert_or_assign: "ordered_map (ys @ xs) \<Longrightarrow> foldl (\<lambda>m e. insert_or_assign (fst e) (snd e) m) ys xs = ys @ xs"
proof (induction xs arbitrary: ys)
  case (Cons x xs)
  then have "insert_or_assign (fst x) (snd x) ys = ys @ [x]"
    using insert_or_assign_last [of ys "fst x" "snd x"] by (auto simp: sorted_wrt_append)
  then show ?case using Cons by simp
qed simp

lemma foldl_emplace: "ordered_map (ys @ xs) \<Longrightarrow> foldl (\<lambda>m e. emplace (fst e) (snd e) m) ys xs = ys @ xs"
proof (induction xs arbitrary: ys)
  case (Cons x xs)
  then have "emplace (fst x) (snd x) ys = ys @ [x]"
    using emplace_last [of ys "fst x" "snd x"] by (auto simp: sorted_wrt_append)
  then show ?case using Cons by simp
qed simp

lemma foldl_snoc: "foldl (\<lambda>ys x. ys @ [x]) ys xs = ys @ xs"
  by (induction xs arbitrary: ys) auto

lemma parseStrings_print:
  assumes "ordered_set xs" "list_all plain xs"
  shows "parseStrings (printUnquotedStrings xs @ r) False = Inr (xs, r)"
proof -
  have "whileList (Suc (length (commaSep (map printUnquotedString xs) @ CHR '']'' # r)))
      (\<lambda>res r. ebind (parseString r) (\<lambda>(s, r'). Inr (set_insert s res, r'))) [] (commaSep (map printUnquotedString xs) @ CHR '']'' # r)
    = Inr (foldl (\<lambda>s x. set_insert x s) [] xs, r)"
    by (rule whileList_commaSep) (use assms(2) in \<open>auto simp: list_all_iff\<close>)
  then show ?thesis using assms(1) foldl_set_insert [of "[]" xs] by (simp add: parseStrings_def printUnquotedStrings_def)
qed

lemma parseArgs_print: "parseArgs (commaSep (map printString xs) @ CHR '']'' # r) = Inr (xs, r)"
proof -
  have "whileList (Suc (length (commaSep (map printString xs) @ CHR '']'' # r)))
      (\<lambda>xs s0. ebind (parseString s0) (\<lambda>(x, s1). Inr (xs @ [x], s1))) [] (commaSep (map printString xs) @ CHR '']'' # r)
    = Inr (foldl (\<lambda>ys x. ys @ [x]) [] xs, r)"
    by (rule whileList_commaSep) auto
  then show ?thesis by (simp add: parseArgs_def foldl_snoc)
qed

section \<open>Nested outputs\<close>

fun wfNode :: "ChildNode \<Rightarrow> bool" where
  "wfNode (ChildNode v m) =
     (ordered_set v \<and> list_all plain v \<and> ordered_map m \<and> (\<forall>e\<in>set m. plain (fst e) \<and> wfNode (snd e)))"

lemma parseNode_print:
  assumes "wfNode node" "length (unparseDerivedPathMapNode node) \<le> n"
  shows "parseDerivedPathMapNode n WithDynamicDerivations (tl (unparseDerivedPathMapNode node) @ r) = Inr (node, r)"
  using assms
proof (induction node arbitrary: n r rule: unparseDerivedPathMapNode.induct)
  case (1 v m)
  obtain k where n: "n = Suc k" using 1(3) by (cases n) auto
  have v: "parseStrings (printUnquotedStrings v @ r) False = Inr (v, r)" for r
    using 1(2) by (simp add: parseStrings_print)
  show ?case
  proof (cases "m = []")
    case True
    then show ?thesis using v [of r] by (simp add: n peek_def printUnquotedStrings_def)
  next
    case False
    let ?text = "\<lambda>e. ''('' @ printUnquotedString (fst e) @ unparseDerivedPathMapNode (snd e) @ '')''"
    let ?body = "\<lambda>m t0. ebind (expect t0 ''('') (\<lambda>t1. ebind (parseString t1) (\<lambda>(outputName, t2).
        ebind (expect t2 '','') (\<lambda>t3. ebind (parseDerivedPathMapNode k WithDynamicDerivations t3) (\<lambda>(child, t4).
          ebind (expect t4 '')'') (\<lambda>t5. Inr (insert_or_assign outputName child m, t5))))))"
    let ?ts = "commaSep (map ?text m) @ CHR '']'' # CHR '')'' # r"
    have body: "?body s (?text e @ r') = Inr (insert_or_assign (fst e) (snd e) s, r')" if "e \<in> set m" for e s r'
    proof -
      have le: "length (?text e) \<le> length (commaSep (map ?text m))" using that by (intro length_commaSep) simp
      obtain u where u: "unparseDerivedPathMapNode (snd e) = CHR '','' # u" by (cases "snd e") simp
      have "length (unparseDerivedPathMapNode (snd e)) \<le> k" using 1(3) le False by (simp add: n)
      then have "parseDerivedPathMapNode k WithDynamicDerivations (u @ CHR '')'' # r') = Inr (snd e, CHR '')'' # r')"
        using 1(1) [OF False that, of k "CHR '')'' # r'"] 1(2) that u by simp
      then show ?thesis using 1(2) that u by simp
    qed
    have "whileList (Suc (length ?ts)) ?body [] ?ts = Inr (foldl (\<lambda>s e. insert_or_assign (fst e) (snd e) s) [] m, CHR '')'' # r)"
      by (rule whileList_commaSep) (use body in auto)
    then have "whileList (Suc (length ?ts)) ?body [] ?ts = Inr (m, CHR '')'' # r)"
      using foldl_insert_or_assign [of "[]" m] 1(2) by simp
    then show ?thesis using v [of "'',['' @ ?ts"] False by (simp add: n peek_def)
  qed
qed

lemma parseNode_traditional:
  assumes "wfNode node" "childMap node = []"
  shows "parseDerivedPathMapNode (Suc n) Traditional (tl (unparseDerivedPathMapNode node) @ r) = Inr (node, r)"
  using assms by (cases node) (simp add: parseStrings_print)

section \<open>Outputs and inputs\<close>

definition wfSetting :: "'j Setting \<Rightarrow> bool" where
  "wfSetting S = (wfStoreDir (storeDirectory S) \<and> plain (storeDirectory S))"

definition wfMethod :: "'j Setting \<Rightarrow> ContentAddressMethod \<Rightarrow> HashAlgorithm \<Rightarrow> bool" where
  "wfMethod S m a =
     ((m = Git \<longrightarrow> enabled S GitHashing) \<and> (m = Text \<longrightarrow> enabled S DynamicDerivations) \<and> allowed (enabled S BLAKE3Hashes) a)"

fun wfOutput :: "'j Setting \<Rightarrow> DerivationOutput \<Rightarrow> bool" where
  "wfOutput S (InputAddressed p) = wfPath p"
| "wfOutput S (CAFixed ca) = (wfHash (caHash ca) \<and> wfMethod S (method ca) (algo (caHash ca)))"
| "wfOutput S (CAFloating m a) = (enabled S CaDerivations \<and> wfMethod S m a)"
| "wfOutput S Deferred = True"
| "wfOutput S (Impure m a) = (enabled S ImpureDerivations \<and> wfMethod S m a)"

lemma plain_alphabets: "list_all (\<lambda>c. c \<noteq> QUOTE \<and> c \<noteq> BACKSLASH) (base16Chars @ nix32Chars)"
  "\<not> nameCharacter QUOTE" "\<not> nameCharacter BACKSLASH" "\<not> hashCharacter QUOTE" "\<not> hashCharacter BACKSLASH"
  by code_simp+

lemma plain_base16: "plain (base16_encode bs)"
  using plain_alphabets(1) base16_encode_chars [of bs] by (auto simp: plain_def list_all_iff)

lemma plain_path:
  assumes "wfPath p"
  shows "plain (Store_Path.to_string p)"
proof -
  obtain h n where p: "baseName p = h @ ''-'' @ n" "list_all hashCharacter h" "validName n"
    using assms by (auto simp: wfPath_def)
  have "plain h" "plain n" using p(2,3) plain_alphabets unfolding plain_def validName_def list_all_iff by blast+
  then show ?thesis by (simp add: Store_Path.to_string_def p(1))
qed

lemma plain_printStorePath: "wfSetting S \<Longrightarrow> wfPath p \<Longrightarrow> plain (printStorePath (storeDirectory S) p)"
  using plain_path by (simp add: printStorePath_def wfSetting_def)

lemma storeDir_absolute:
  assumes "wfSetting S"
  shows "\<exists>t. storeDirectory S = SLASH # t"
proof -
  obtain ds where "storeDirectory S = slashed ds" "ds \<noteq> []"
    using assms by (auto simp: wfSetting_def wfStoreDir_def wfCanon_def canonical_def)
  then show ?thesis by (cases ds) auto
qed

lemma validatePath_print [simp]:
  "wfSetting S \<Longrightarrow> validatePath (printStorePath (storeDirectory S) p) = Inr ()"
  using storeDir_absolute [of S] by (auto simp: validatePath_def printStorePath_def)

lemma parseStorePath_print [simp]:
  "wfSetting S \<Longrightarrow> wfPath p \<Longrightarrow> parseStorePath (storeDirectory S) (printStorePath (storeDirectory S) p) = Inr p"
  using parse_print by (simp add: wfSetting_def)

lemma parsePath_print [simp]:
  "wfSetting S \<Longrightarrow> wfPath p \<Longrightarrow>
    parsePath (printUnquotedString (printStorePath (storeDirectory S) p) @ r) = Inr (printStorePath (storeDirectory S) p, r)"
  by (simp add: parsePath_def plain_printStorePath)

lemma parsePrefix_print:
  assumes "renderPrefix git m = Inr p"
  shows "parsePrefix git (p @ printHashAlgo a) = Inr (m, printHashAlgo a)" "plain (p @ printHashAlgo a)" "p @ printHashAlgo a \<noteq> []"
proof -
  have "\<not> startsWith (printHashAlgo a) ''text:''" "printHashAlgo a \<noteq> []" "plain (printHashAlgo a)"
    by (cases a; simp add: startsWith_def)+
  then show "parsePrefix git (p @ printHashAlgo a) = Inr (m, printHashAlgo a)" "plain (p @ printHashAlgo a)" "p @ printHashAlgo a \<noteq> []"
    using assms printHashAlgo_prefixes [of a "[]"]
    by (cases m; auto simp: parsePrefix_def splitPrefix_def startsWith_def split: if_splits)+
qed

lemma renderPrefix_ok: "wfMethod S m a \<Longrightarrow> \<exists>p. renderPrefix (enabled S GitHashing) m = Inr p"
  by (cases m) (auto simp: wfMethod_def)

lemma base16_print:
  assumes "wfHash h" "allowed xp (algo h)"
  shows "Hash_Text.to_string h Base16 False = Inr (base16_encode (hashBytes h))"
    "parseNonSRIUnprefixed xp (base16_encode (hashBytes h)) (algo h) = Inr h"
    "base16_encode (hashBytes h) \<noteq> []" "base16_encode (hashBytes h) \<noteq> ''impure''"
proof -
  have len: "length (hashBytes h) = regularHashSize (algo h)" using length_hashBytes [OF assms(1)] .
  have small: "length (hashBytes h) \<le> 2 ^ 31" using len regularHashSize_small [of "algo h"] by simp
  have size: "regularHashSize (algo h) \<noteq> 0" using regularHashSize_bounds(1) [of "algo h"] by simp
  then show "Hash_Text.to_string h Base16 False = Inr (base16_encode (hashBytes h))"
    using assms(1) by (simp add: Hash_Text.to_string_def wfHash_def)
  have "baseFromSize (base16_encode (hashBytes h)) (algo h) = Inr Base16"
    using baseFromSize_encode [OF len, of Base16] by simp
  then show "parseNonSRIUnprefixed xp (base16_encode (hashBytes h)) (algo h) = Inr h"
    using parseLowLevel_decoded [of "(base16_decode, ''base16'')", OF _ len assms(2)] hash_rebuild [OF assms(1)]
    by (simp add: parseNonSRIUnprefixed_def parseExplicitFormatUnprefixed_def base16_decode_encode [OF small])
  have "length (base16_encode (hashBytes h)) \<notin> {0, 6}"
    using regularHashSize_cases [of "algo h"] len by (auto simp: length_base16_encode base16_encodedLength_def)
  then show "base16_encode (hashBytes h) \<noteq> []" "base16_encode (hashBytes h) \<noteq> ''impure''" by auto
qed

lemma outputParts_print:
  assumes "wfSetting S" "wfOutput S out" "outputParts S False n i out = Inr (p, m, h)"
  shows "plain p \<and> plain m \<and> plain h \<and> parseOutputParts S p m h = Inr out"
proof (cases out)
  case (InputAddressed q)
  moreover have "printStorePath (storeDirectory S) q \<noteq> []" by (simp add: printStorePath_def)
  ultimately show ?thesis using assms by (auto simp: parseOutputParts_def plain_printStorePath)
next
  case (CAFixed ca)
  have wf: "wfHash (caHash ca)" "wfMethod S (method ca) (algo (caHash ca))" using assms(2) CAFixed by simp_all
  then have al: "allowed (enabled S BLAKE3Hashes) (algo (caHash ca))" by (simp add: wfMethod_def)
  obtain q where q: "fixedPath S ca n i = Inr q" "p = printStorePath (storeDirectory S) q"
    using assms(3) CAFixed by (auto simp: bind_defs)
  then have "wfPath q" using makeFixedOutputPathFromCA_wf by (fastforce simp: fixedPath_def bind_defs)
  moreover obtain pre where pre: "renderPrefix (enabled S GitHashing) (method ca) = Inr pre" "m = pre @ printHashAlgo (algo (caHash ca))"
    using assms(3) CAFixed by (auto simp: bind_defs printMethodAlgo_def)
  moreover have "h = base16_encode (hashBytes (caHash ca))" using assms(3) CAFixed base16_print(1) [OF wf(1) al] by (auto simp: bind_defs)
  ultimately show ?thesis
    using q assms(1) CAFixed parsePrefix_print [OF pre(1)] base16_print(2-4) [OF wf(1) al] parse_printHashAlgo [OF al] wf(2)
    by (simp add: parseOutputParts_def plain_printStorePath plain_base16 wfMethod_def requireFeature_def)
next
  case (CAFloating m' a)
  then have wf: "enabled S CaDerivations" "wfMethod S m' a" using assms(2) by simp_all
  obtain pre where pre: "renderPrefix (enabled S GitHashing) m' = Inr pre" "m = pre @ printHashAlgo a" "p = []" "h = []"
    using assms(3) CAFloating by (auto simp: bind_defs renderMethodPrefix_def)
  then show ?thesis using wf CAFloating parsePrefix_print [OF pre(1)] parse_printHashAlgo
    by (simp add: parseOutputParts_def wfMethod_def requireFeature_def)
next
  case Deferred
  then show ?thesis using assms(3) by (auto simp: parseOutputParts_def)
next
  case (Impure m' a)
  then have wf: "enabled S ImpureDerivations" "wfMethod S m' a" using assms(2) by simp_all
  obtain pre where pre: "renderPrefix (enabled S GitHashing) m' = Inr pre" "m = pre @ printHashAlgo a" "p = []" "h = ''impure''"
    using assms(3) Impure by (auto simp: bind_defs renderMethodPrefix_def)
  then show ?thesis using wf Impure parsePrefix_print [OF pre(1)] parse_printHashAlgo
    by (simp add: parseOutputParts_def wfMethod_def requireFeature_def)
qed

lemma parseOutputs_print:
  assumes "wfSetting S" "ordered_map outs" "\<And>i out. (i, out) \<in> set outs \<Longrightarrow> plain i \<and> wfOutput S out"
    and "mapE (unparseOutput S False n) outs = Inr ts"
  shows "parseOutputs S (commaSep ts @ CHR '']'' # r) = Inr (outs, r)"
proof -
  let ?text = "\<lambda>i. projr (unparseOutput S False n i)"
  let ?body = "\<lambda>m s0. ebind (expect s0 ''('') (\<lambda>s1. ebind (parseString s1) (\<lambda>(i, s2).
      ebind (parseDerivationOutput S s2) (\<lambda>(out, s3). Inr (emplace i out m, s3))))"
  have ts: "ts = map ?text outs" and each: "\<And>e. e \<in> set outs \<Longrightarrow> \<exists>t. unparseOutput S False n e = Inr t"
    using assms(4) unfolding mapE_Inr_iff by (auto simp: list_all2_conv_all_nth in_set_conv_nth intro!: nth_equalityI)
  have body: "?body s (?text e @ r') = Inr (emplace (fst e) (snd e) s, r') \<and> listStart (?text e)" if e: "e \<in> set outs" for e s r'
  proof -
    obtain p m h where parts: "outputParts S False n (fst e) (snd e) = Inr (p, m, h)"
      "?text e = ''('' @ printUnquotedString (fst e) @ '','' @ printUnquotedString p @ '','' @ printUnquotedString m @ '','' @
         printUnquotedString h @ '')''"
      using each [OF e] by (auto simp: unparseOutput_def bind_defs)
    have "plain (fst e)" "wfOutput S (snd e)" using assms(3) [of "fst e" "snd e"] e by simp_all
    then show ?thesis using outputParts_print [OF assms(1) _ parts(1)]
      by (simp add: parts(2) parseDerivationOutput_def)
  qed
  have "whileList (Suc (length (commaSep (map ?text outs) @ CHR '']'' # r))) ?body [] (commaSep (map ?text outs) @ CHR '']'' # r)
      = Inr (foldl (\<lambda>m e. emplace (fst e) (snd e) m) [] outs, r)"
    by (rule whileList_commaSep) (use body in auto)
  then show ?thesis using foldl_emplace [of "[]" outs] assms(2) by (simp add: parseOutputs_def ts)
qed

declare parseDerivedPathMapNode.simps [simp del]

definition drvVersion :: "'j Derivation \<Rightarrow> DerivationATermVersion" where
  "drvVersion drv = (if hasDynamicDrvDep drv then WithDynamicDerivations else Traditional)"

lemma parseInputDrvs_print:
  assumes "wfSetting S" "ordered_map m" "\<And>p node. (p, node) \<in> set m \<Longrightarrow> wfPath p \<and> wfNode node"
    and "version = Traditional \<Longrightarrow> (\<And>e. e \<in> set m \<Longrightarrow> childMap (snd e) = [])"
  shows "parseInputDrvs S version
      (commaSep (map unparseInputDrv (map (\<lambda>e. (printStorePath (storeDirectory S) (fst e), snd e)) m)) @ CHR '']'' # r) = Inr (m, r)"
proof -
  let ?text = "\<lambda>e. unparseInputDrv (printStorePath (storeDirectory S) (fst e), snd e)"
  let ?body = "\<lambda>m s0. ebind (expect s0 ''('') (\<lambda>s1. ebind (parsePath s1) (\<lambda>(drvPath, s2).
      ebind (expect s2 '','') (\<lambda>s3.
        ebind (inStore (parseStorePath (storeDirectory S) drvPath)) (\<lambda>p.
          ebind (parseDerivedPathMapNode (Suc (length s3)) version s3) (\<lambda>(node, s4).
            ebind (expect s4 '')'') (\<lambda>s5. Inr (insert_or_assign p node m, s5)))))))"
  have body: "?body s (?text e @ r') = Inr (insert_or_assign (fst e) (snd e) s, r') \<and> listStart (?text e)" if e: "e \<in> set m" for e s r'
  proof -
    obtain u where u: "unparseDerivedPathMapNode (snd e) = CHR '','' # u" by (cases "snd e") simp
    have wf: "wfPath (fst e)" "wfNode (snd e)" using assms(3) [of "fst e" "snd e"] e by simp_all
    have "parseDerivedPathMapNode (Suc (length (u @ CHR '')'' # r'))) version (u @ CHR '')'' # r') = Inr (snd e, CHR '')'' # r')"
    proof (cases version)
      case Traditional
      then show ?thesis using parseNode_traditional [OF wf(2) assms(4) [OF Traditional e], of "length (u @ CHR '')'' # r')" "CHR '')'' # r'"] u
        by simp
    next
      case WithDynamicDerivations
      then show ?thesis using parseNode_print [OF wf(2), of "Suc (length (u @ CHR '')'' # r'))" "CHR '')'' # r'"] u by simp
    qed
    then show ?thesis using wf(1) assms(1) by (simp add: unparseInputDrv_def u)
  qed
  have "whileList (Suc (length (commaSep (map ?text m) @ CHR '']'' # r))) ?body [] (commaSep (map ?text m) @ CHR '']'' # r)
      = Inr (foldl (\<lambda>s e. insert_or_assign (fst e) (snd e) s) [] m, r)"
    by (rule whileList_commaSep) (use body in auto)
  then show ?thesis using foldl_insert_or_assign [of "[]" m] assms(2) by (simp add: parseInputDrvs_def comp_def)
qed

lemma append_less_iff: "d @ a < d @ b \<longleftrightarrow> a < (b :: bytes)"
  by (induction d) simp_all

lemma printStorePath_less: "printStorePath d p < printStorePath d q \<longleftrightarrow> p < (q :: StorePath)"
  using append_less_iff [of "d @ ''/''" "baseName p" "baseName q"]
  by (simp add: printStorePath_def Store_Path.to_string_def less_StorePath_ext_def)

lemma inputSrcs_print:
  assumes "wfSetting S" "ordered_set ps" "list_all wfPath ps"
  shows "ebind (parseStrings (printUnquotedStrings (printStorePathSet (storeDirectory S) ps) @ r) True) (\<lambda>(srcs, s).
      ebind (storePathSet S srcs) (\<lambda>qs. f qs s)) = f ps r"
proof -
  let ?ts = "map (printStorePath (storeDirectory S)) ps"
  have "whileList (Suc (length (commaSep (map printUnquotedString ?ts) @ CHR '']'' # r)))
      (\<lambda>res r. ebind (parsePath r) (\<lambda>(s, r'). Inr (set_insert s res, r'))) [] (commaSep (map printUnquotedString ?ts) @ CHR '']'' # r)
    = Inr (foldl (\<lambda>s x. set_insert x s) [] ?ts, r)"
    by (rule whileList_commaSep) (use assms(1,3) in \<open>auto simp: list_all_iff\<close>)
  moreover have "ordered_set ?ts" using assms(2) by (simp add: sorted_wrt_map printStorePath_less)
  ultimately have "parseStrings (printUnquotedStrings (printStorePathSet (storeDirectory S) ps) @ r) True = Inr (?ts, r)"
    using foldl_set_insert [of "[]" ?ts] by (simp add: parseStrings_def printUnquotedStrings_def printStorePathSet_def)
  moreover have "mapE (parseStorePath (storeDirectory S)) ?ts = Inr ps"
    using assms(1,3) by (auto simp: mapE_Inr_iff list_all2_map1 list_all_iff intro!: list.rel_refl_strong)
  moreover have "set_union [] ps = ps" using foldl_set_insert [of "[]" ps] assms(2) by (simp add: set_union_def foldl_conv_fold)
  ultimately show ?thesis by (simp add: storePathSet_def parseStorePathSet_def)
qed

section \<open>Variables\<close>

definition jsonOk :: "'j Setting \<Rightarrow> bool" where
  "jsonOk S \<longleftrightarrow> (\<forall>j. jsonParse S (jsonDump S j) = Some j)"

text \<open>The body of the loop over the variables, on values.\<close>

definition envStep :: "'j Setting \<Rightarrow> (bytes \<times> bytes) list \<times> 'j option \<Rightarrow> bytes \<times> bytes \<Rightarrow> (bytes \<times> bytes) list \<times> 'j option" where
  "envStep S st e =
     (if fst e = jsonVariable then (fst st, jsonParse S (snd e)) else (insert_or_assign (fst e) (snd e) (fst st), snd st))"

lemma foldl_envStep:
  assumes "ordered_map m"
  shows "foldl (envStep S) ([], None) m = (erase jsonVariable m, Option.bind (map_of m jsonVariable) (jsonParse S))"
  using assms
proof (induction m rule: rev_induct)
  case (snoc e m)
  have m: "ordered_map m" "\<And>x. x \<in> set m \<Longrightarrow> fst x < fst e" using snoc.prems by (auto simp: sorted_wrt_append)
  show ?case
  proof (cases "fst e = jsonVariable")
    case True
    then have "map_of m jsonVariable = None" using m(2) by (force simp: map_of_eq_None_iff)
    then show ?thesis using snoc.IH [OF m(1)] True
      by (simp add: envStep_def erase_def map_add_def)
  next
    case False
    have "insert_or_assign (fst e) (snd e) (erase jsonVariable m) = erase jsonVariable m @ [e]"
      using insert_or_assign_last [of "erase jsonVariable m" "fst e" "snd e"] m(2) by (simp add: erase_def)
    then show ?thesis using snoc.IH [OF m(1)] False by (cases e) (simp add: envStep_def erase_def map_add_def split: option.split)
  qed
qed (simp add: erase_def)

lemma parseEnv_print:
  assumes "ordered_map m" "\<And>e. e \<in> set m \<Longrightarrow> fst e = jsonVariable \<Longrightarrow> jsonParse S (snd e) \<noteq> None"
  shows "parseEnv S (commaSep (map (unparseVariable drv False) m) @ CHR '']'' # r) =
    Inr ((erase jsonVariable m, Option.bind (map_of m jsonVariable) (jsonParse S)), r)"
proof -
  let ?ts = "commaSep (map (unparseVariable drv False) m) @ CHR '']'' # r"
  let ?body = "\<lambda>(e, attrs) s0. ebind (expect s0 ''('') (\<lambda>s1. ebind (parseString s1) (\<lambda>(n, s2).
      ebind (expect s2 '','') (\<lambda>s3. ebind (parseString s3) (\<lambda>(v, s4).
        ebind (if n = jsonVariable then ebind (parseStructuredAttrs S v) (\<lambda>j. Inr (e, Some j))
               else Inr (insert_or_assign n v e, attrs)) (\<lambda>st.
          ebind (expect s4 '')'') (\<lambda>s5. Inr (st, s5)))))))"
  have body: "?body s (unparseVariable drv False e @ r') = Inr (envStep S s e, r') \<and> listStart (unparseVariable drv False e)"
    if "e \<in> set m" for e s r'
    using assms(2) [OF that] by (cases s) (auto simp: unparseVariable_def envStep_def parseStructuredAttrs_def)
  have "whileList (Suc (length ?ts)) ?body ([], None) ?ts = Inr (foldl (envStep S) ([], None) m, r)"
    by (rule whileList_commaSep) (use body in auto)
  then show ?thesis using foldl_envStep [OF assms(1)] by (simp add: parseEnv_def)
qed

definition wfEnv :: "('j, 'b) BasicDerivation_scheme \<Rightarrow> bool" where
  "wfEnv drv \<longleftrightarrow> ordered_map (env drv) \<and> jsonVariable \<notin> fst ` set (env drv)"

lemma atermEnv_print:
  assumes "jsonOk S" "wfEnv drv"
  shows "parseEnv S (commaSep (map (unparseVariable drv' False) (atermEnv S drv)) @ CHR '']'' # r) = Inr ((env drv, structuredAttrs drv), r)"
proof -
  have e: "ordered_map (env drv)" "map_of (env drv) jsonVariable = None" "erase jsonVariable (env drv) = env drv"
    using assms(2) by (auto simp: wfEnv_def map_of_eq_None_iff erase_absent)
  show ?thesis
  proof (cases "structuredAttrs drv")
    case None
    have "jsonParse S (snd x) \<noteq> None" if "x \<in> set (env drv)" "fst x = jsonVariable" for x
      using that assms(2) by (metis image_eqI wfEnv_def)
    from parseEnv_print [OF e(1) this] show ?thesis using None e by (simp add: atermEnv_def)
  next
    case (Some j)
    let ?m = "emplace jsonVariable (jsonDump S j) (env drv)"
    have m: "ordered_map ?m" "map_of ?m jsonVariable = Some (jsonDump S j)" "erase jsonVariable ?m = env drv"
      using e(1,2) assms(2) by (simp_all add: map_of_emplace erase_insert wfEnv_def)
    have "jsonParse S (snd x) \<noteq> None" if "x \<in> set ?m" "fst x = jsonVariable" for x
    proof -
      have "map_of ?m jsonVariable = Some (snd x)"
        using that ordered_map_distinct [OF m(1)] by (metis map_of_is_SomeI prod.collapse)
      then show ?thesis using m(2) assms(1) by (metis jsonOk_def option.distinct(1) option.inject)
    qed
    from parseEnv_print [OF m(1) this] show ?thesis
      using Some assms(1) m by (simp add: atermEnv_def jsonOk_def)
  qed
qed

section \<open>Properties\<close>

definition wfDerivation :: "'j Setting \<Rightarrow> 'j Derivation \<Rightarrow> bool" where
  "wfDerivation S drv \<longleftrightarrow>
     ordered_map (outputs drv) \<and> (\<forall>(i, out)\<in>set (outputs drv). plain i \<and> wfOutput S out) \<and>
     ordered_map (inputDrvs drv) \<and> (\<forall>(p, node)\<in>set (inputDrvs drv). wfPath p \<and> wfNode node) \<and>
     (hasDynamicDrvDep drv \<longrightarrow> enabled S DynamicDerivations) \<and>
     ordered_set (inputSrcs drv) \<and> list_all wfPath (inputSrcs drv) \<and> plain (platform drv) \<and> wfEnv drv"

lemma parseVersion_print:
  assumes "hasDynamicDrvDep drv \<longrightarrow> enabled S DynamicDerivations"
  shows "parseVersion S ((if hasDynamicDrvDep drv then ''DrvWithVersion('' @ printUnquotedString ''xp-dyn-drv'' @ '','' else ''Derive('') @ r)
    = Inr (drvVersion drv, r)"
proof -
  have "parseString (printUnquotedString ''xp-dyn-drv'' @ CHR '','' # r) = Inr (''xp-dyn-drv'', CHR '','' # r)" by simp
  then show ?thesis using assms expect_append [of "''erive(''" r] expect_append [of "''rvWithVersion(''" "printUnquotedString ''xp-dyn-drv'' @ CHR '','' # r"]
    by (simp add: parseVersion_def peek_def drvVersion_def requireFeature_def)
qed

lemma drv_parse_unparse:
  assumes "wfSetting S" "jsonOk S" "wfDerivation S drv" "unparse S drv False None = Inr s"
  shows "parseDerivation S (s @ rest) (drvName drv) = Inr drv"
proof -
  let ?outs = "outputs drv" and ?drvs = "inputDrvs drv" and ?srcs = "inputSrcs drv"
  have wf: "ordered_map ?outs" "\<And>i out. (i, out) \<in> set ?outs \<Longrightarrow> plain i \<and> wfOutput S out"
    "ordered_map ?drvs" "\<And>p node. (p, node) \<in> set ?drvs \<Longrightarrow> wfPath p \<and> wfNode node"
    "hasDynamicDrvDep drv \<longrightarrow> enabled S DynamicDerivations"
    "ordered_set ?srcs" "list_all wfPath ?srcs" "plain (platform drv)" "wfEnv drv"
    using assms(3) by (auto simp: wfDerivation_def)
  obtain ts where ts: "mapE (unparseOutput S False (drvName drv)) ?outs = Inr ts"
    using assms(4) by (auto simp: unparse_def bind_defs)
  have trad: "childMap (snd e) = []" if "drvVersion drv = Traditional" "e \<in> set ?drvs" for e
    using that by (auto simp: drvVersion_def hasDynamicDrvDep_def list_ex_iff split: if_splits)
  note outs = parseOutputs_print [OF assms(1) wf(1,2) ts]
  note drvs = parseInputDrvs_print [OF assms(1) wf(3,4) trad]
  note srcs = inputSrcs_print [OF assms(1) wf(6,7)]
  note vars = atermEnv_print [OF assms(2) wf(9), of drv]
  have version: "parseVersion S ((if hasDynamicDrvDep drv then ''DrvWithVersion('' @ printUnquotedString ''xp-dyn-drv'' @ '','' else ''Derive('') @ r)
    = Inr (drvVersion drv, r)" for r using wf(5) by (rule parseVersion_print)
  have s: "s @ rest = (if hasDynamicDrvDep drv then ''DrvWithVersion('' @ printUnquotedString ''xp-dyn-drv'' @ '','' else ''Derive('') @
      ''['' @ commaSep ts @ CHR '']'' # '',['' @
      commaSep (map unparseInputDrv (map (\<lambda>e. (printStorePath (storeDirectory S) (fst e), snd e)) ?drvs)) @ CHR '']'' # '','' @
      printUnquotedStrings (printStorePathSet (storeDirectory S) ?srcs) @ '','' @
      printUnquotedString (platform drv) @ '','' @ printString (builder drv) @ '',['' @ commaSep (map printString (args drv)) @ CHR '']'' # '',['' @
      commaSep (map (unparseVariable drv False) (atermEnv S drv)) @ CHR '']'' # '')'' @ rest"
    using assms(4) ts by (auto simp: unparse_def bind_defs printStrings_def)
  show ?thesis
    unfolding s parseDerivation_def version ebind_simps prod.case
    by (simp add: outs drvs srcs vars wf(8) parseArgs_print del: map_map)
qed

section \<open>The parser ends\<close>

text \<open>The result of reading: fuel was not missing, and less than \<open>k\<close> characters are left.\<close>

definition fine :: "nat \<Rightarrow> DrvError + 'a \<times> bytes \<Rightarrow> bool" where
  "fine k m \<longleftrightarrow> m \<noteq> Inl OutOfFuel \<and> (\<forall>a r. m = Inr (a, r) \<longrightarrow> length r < k)"

lemma fine_Inl [simp]: "fine k (Inl e) \<longleftrightarrow> e \<noteq> OutOfFuel"
  by (simp add: fine_def)

lemma fine_Inr [simp]: "fine k (Inr (a, r)) \<longleftrightarrow> length r < k"
  by (simp add: fine_def)

lemma fine_bind: "fine j m \<Longrightarrow> (\<And>a r. length r < j \<Longrightarrow> fine k (f (a, r))) \<Longrightarrow> fine k (ebind m f)"
  by (cases m) (auto simp: fine_def)

lemma fine_check: "m \<noteq> Inl OutOfFuel \<Longrightarrow> (\<And>a. m = Inr a \<Longrightarrow> fine k (f a)) \<Longrightarrow> fine k (ebind m f)"
  by (cases m) (auto simp: fine_def)

lemma expect_Inr: "expect str s = Inr r \<longleftrightarrow> str = s @ r"
  by (auto simp: expect_def startsWith_iff)

lemma expect_fuel [simp]: "expect str s \<noteq> Inl OutOfFuel"
  by (simp add: expect_def)

lemma fine_expect: "(\<And>r. length str = length s + length r \<Longrightarrow> fine k (f r)) \<Longrightarrow> fine k (ebind (expect str s) f)"
  by (rule fine_check) (auto simp: expect_Inr)

lemma inStore_fuel [simp]: "inStore m \<noteq> Inl OutOfFuel"
  by (cases m) simp_all

lemma requireFeature_fuel [simp]: "requireFeature S f \<noteq> Inl OutOfFuel"
  by (simp add: requireFeature_def)

lemma validatePath_fuel [simp]: "validatePath s \<noteq> Inl OutOfFuel"
  by (simp add: validatePath_def)

lemma unescape_fuel [simp]: "unescape s \<noteq> Inl OutOfFuel"
proof (induction s rule: unescape.induct)
  case (1 s)
  then show ?case by (subst unescape.simps) (auto split: option.splits list.splits simp: ebind_eq_Inl)
qed

lemma parseString_fine: "fine (length str) (parseString str)"
  unfolding parseString_def
  by (rule fine_expect) (auto split: option.splits intro!: fine_check)

lemma parsePath_fine: "fine (length str) (parsePath str)"
  unfolding parsePath_def
  by (rule fine_bind [OF parseString_fine]) (auto intro!: fine_check)

lemma endOfList_length: "endOfList str = (b, r) \<Longrightarrow> length r \<le> length str \<and> (b \<longrightarrow> length r < length str)"
  by (cases str) (auto simp: endOfList_def peek_def split: if_splits)

lemma whileList_fine:
  assumes "\<And>s r. length r \<le> length str \<Longrightarrow> fine (length r) (body s r)" "length str < n"
  shows "fine (length str) (whileList n body s str)"
  using assms
proof (induction n arbitrary: s str)
  case (Suc n)
  obtain b r where e: "endOfList str = (b, r)" by force
  show ?case
  proof (cases b)
    case True
    then show ?thesis using e endOfList_length [OF e] by (simp add: whileList.simps)
  next
    case False
    have r: "length r \<le> length str" using endOfList_length [OF e] by simp
    have "fine (length str) (ebind (body s r) (\<lambda>(s', r'). whileList n body s' r'))"
    proof (rule fine_bind [OF Suc.prems(1) [OF r]], simp)
      fix s' and r' :: bytes
      assume r': "length r' < length r"
      have "fine (length r') (whileList n body s' r')" using Suc.prems r r' by (intro Suc.IH) auto
      then show "fine (length str) (whileList n body s' r')" using r r' by (auto simp: fine_def)
    qed
    then show ?thesis using e False by (simp add: whileList.simps)
  qed
qed simp

lemma fine_loop:
  assumes "\<And>s r. length r \<le> length str \<Longrightarrow> fine (length r) (body s r)" "length str \<le> k"
  shows "fine k (whileList (Suc (length str)) body s str)"
proof -
  have "fine (length str) (whileList (Suc (length str)) body s str)" by (rule whileList_fine) (use assms(1) in auto)
  then show ?thesis using assms(2) by (auto simp: fine_def)
qed

lemma parseStrings_fine: "fine (length str) (parseStrings str b)"
  unfolding parseStrings_def
  by (rule fine_expect, rule fine_loop)
    (auto split: if_split intro!: fine_bind [OF parsePath_fine] fine_bind [OF parseString_fine])

lemma parseNode_fine: "length str \<le> n \<Longrightarrow> fine (length str) (parseDerivedPathMapNode (Suc n) version str)"
proof (induction n arbitrary: str version)
  case 0
  then show ?case using parseStrings_fine [of str False]
    by (auto simp: parseDerivedPathMapNode.simps peek_def split: DerivationATermVersion.splits intro!: fine_bind)
next
  case (Suc n)
  have plainNode: "fine (length str) (ebind (parseStrings str False) (\<lambda>(v, s1). Inr (ChildNode v [], s1)))"
    by (rule fine_bind [OF parseStrings_fine]) simp
  show ?case using Suc.prems plainNode
    by (subst parseDerivedPathMapNode.simps)
      (auto split: DerivationATermVersion.splits intro!: fine_expect fine_bind [OF parseStrings_fine] fine_bind [OF fine_loop]
          fine_bind [OF parseString_fine] fine_bind [OF Suc.IH])
qed

lemma parseOutputParts_fuel [simp]: "parseOutputParts S p m h \<noteq> Inl OutOfFuel"
  by (auto simp: parseOutputParts_def ebind_eq_Inl)

lemma parseDerivationOutput_fine: "fine (length str) (parseDerivationOutput S str)"
  unfolding parseDerivationOutput_def
  by (auto intro!: fine_expect fine_bind [OF parseString_fine] fine_check)

lemma parseOutputs_fine: "fine (Suc (length str)) (parseOutputs S str)"
  unfolding parseOutputs_def
  by (rule fine_loop) (auto intro!: fine_expect fine_bind [OF parseString_fine] fine_bind [OF parseDerivationOutput_fine])

lemma parseInputDrvs_fine: "fine (Suc (length str)) (parseInputDrvs S version str)"
  unfolding parseInputDrvs_def
  by (rule fine_loop) (auto intro!: fine_expect fine_bind [OF parsePath_fine] fine_check [OF inStore_fuel] fine_bind [OF parseNode_fine])

lemma parseArgs_fine: "fine (Suc (length str)) (parseArgs str)"
  unfolding parseArgs_def by (rule fine_loop) (auto intro!: fine_bind [OF parseString_fine])

lemma parseEnv_fine: "fine (Suc (length str)) (parseEnv S str)"
  unfolding parseEnv_def
  by (rule fine_loop)
    (auto simp: parseStructuredAttrs_def require_def ebind_eq_Inl split: option.splits if_splits
      intro!: fine_expect fine_bind [OF parseString_fine] fine_check)

lemma no_fuel:
  "m \<noteq> Inl OutOfFuel \<Longrightarrow> (\<And>a. f a \<noteq> Inl OutOfFuel) \<Longrightarrow> ebind m f \<noteq> Inl OutOfFuel"
  "fine k m' \<Longrightarrow> (\<And>a r. g (a, r) \<noteq> Inl OutOfFuel) \<Longrightarrow> ebind m' g \<noteq> Inl OutOfFuel"
  by (auto simp: ebind_eq_Inl fine_def)

lemma parseVersion_fuel: "parseVersion S s \<noteq> Inl OutOfFuel"
proof -
  have "parseString t \<noteq> Inl OutOfFuel" for t using parseString_fine [of t] by (simp add: fine_def)
  then show ?thesis by (auto simp: parseVersion_def ebind_eq_Inl split: if_splits)
qed

lemma storePathSet_fuel: "storePathSet S ts \<noteq> Inl OutOfFuel"
  by (simp add: storePathSet_def ebind_eq_Inl)

lemma parse_no_fuel: "parseDerivation S s n \<noteq> Inl OutOfFuel"
  unfolding parseDerivation_def
  by (auto intro!: no_fuel(1) [OF parseVersion_fuel] no_fuel(1) [OF expect_fuel] no_fuel(2) [OF parseOutputs_fine]
    no_fuel(2) [OF parseInputDrvs_fine] no_fuel(2) [OF parseStrings_fine] no_fuel(1) [OF storePathSet_fuel]
    no_fuel(2) [OF parseString_fine] no_fuel(2) [OF parseArgs_fine] no_fuel(2) [OF parseEnv_fine])

section \<open>Reading back\<close>

text \<open>
  C12: A derivation is read back from its text as it was, whatever follows the text, when its
  names, paths and platform can be written without escapes and the features it uses are enabled; and
  the parser ends on every text.
\<close>
theorem drv_roundtrip:
  assumes "wfSetting S" "jsonOk S" "wfDerivation S drv" "unparse S drv False None = Inr s"
  shows "parseDerivation S (s @ rest) (drvName drv) = Inr drv \<and> (\<forall>t n. parseDerivation S t n \<noteq> Inl OutOfFuel)"
  using drv_parse_unparse [OF assms] parse_no_fuel by blast

definition sampleSetting :: "bytes Setting" where
  "sampleSetting = \<lparr>storeDirectory = ''/s'', digestOf = zeroDigest, enabled = (\<lambda>_. True), jsonParse = Some, jsonDump = (\<lambda>j. j)\<rparr>"

definition samplePath :: "bytes \<Rightarrow> StorePath" where
  "samplePath n = \<lparr>baseName = replicate 32 CHR ''0'' @ CHR ''-'' # n\<rparr>"

definition sampleDrv :: "bytes Derivation" where
  "sampleDrv =
     \<lparr>outputs = [(''doc'', Deferred), (''out'', InputAddressed (samplePath ''p''))], inputSrcs = [samplePath ''sh''],
      platform = ''x86_64-linux'', builder = ''/bin/sh'', args = [''-c'', [QUOTE, CHR ''a'', BACKSLASH, CHR 0x0A]],
      env = [(''doc'', []), (''out'', ''o'')], structuredAttrs = Some ''{}'', drvName = ''p'',
      inputDrvs = [(samplePath ''q.drv'', ChildNode [''out''] [(''drv'', ChildNode [''out''] [])])]\<rparr>"

lemma wf_samplePath: "validName n \<Longrightarrow> wfPath (samplePath n)"
proof -
  have "list_all hashCharacter (replicate 32 CHR ''0'')" by code_simp
  then show "validName n \<Longrightarrow> wfPath (samplePath n)"
    unfolding wfPath_def samplePath_def HashLen_def by (intro exI [of _ "replicate 32 CHR ''0''"] exI [of _ n]) simp
qed

lemma sampleNames: "validName ''p''" "validName ''sh''" "validName ''q.drv''"
  by code_simp+

lemma wf_sampleSetting: "wfSetting sampleSetting" "jsonOk sampleSetting"
proof -
  have "wfCanon ''/s''" "comps ''/s'' \<noteq> []" by code_simp+
  then show "wfSetting sampleSetting" by (simp add: wfSetting_def wfStoreDir_def sampleSetting_def)
qed (simp add: jsonOk_def sampleSetting_def)

lemma wf_sampleDrv: "wfDerivation sampleSetting sampleDrv"
  using sampleNames wf_samplePath
  by (simp add: wfDerivation_def sampleDrv_def wfEnv_def jsonVariable_def sampleSetting_def)

lemma drv_roundtrip_witness:
  "\<exists>s. unparse sampleSetting sampleDrv False None = Inr s \<and> parseDerivation sampleSetting (s @ ''more'') ''p'' = Inr sampleDrv"
proof -
  obtain s where s: "unparse sampleSetting sampleDrv False None = Inr s"
    by (auto simp: unparse_def sampleDrv_def unparseOutput_def checkKeyNotInUse_def jsonVariable_def)
  have "drvName sampleDrv = ''p''" by (simp add: sampleDrv_def)
  then show ?thesis using drv_roundtrip [OF wf_sampleSetting wf_sampleDrv s, of "''more''"] s by auto
qed

text \<open>
  The platform is printed without escapes and the parser does not read past the closing parenthesis:
  a platform with a quote is read back as another derivation, with another builder.
\<close>

definition quotedPlatform :: "bytes Derivation" where
  "quotedPlatform =
     \<lparr>outputs = [(''out'', Deferred)], inputSrcs = [],
      platform = ''x'' @ [QUOTE] @ '','' @ [QUOTE] @ ''evil'' @ [QUOTE] @ '',[],[])'',
      builder = ''/bin/sh'', args = [], env = [], structuredAttrs = None, drvName = ''p'', inputDrvs = []\<rparr>"

lemma platform_not_escaped:
  "ebind (unparse sampleSetting quotedPlatform False None) (\<lambda>s. parseDerivation sampleSetting s ''p'') =
   Inr (quotedPlatform\<lparr>platform := ''x'', builder := ''evil''\<rparr>)"
  by code_simp

end
