(* ===== verification/Drv_Modulo.thy ===== *)
theory Drv_Modulo
  imports Drv_Text
begin

text \<open>
  Hashing derivations (\<^verbatim>\<open>src/libstore/derivations.cc\<close>): the type of a derivation, the store path of its text, the
  hash modulo fixed outputs with its memo, and the computation and check of output paths. The content of a
  store derivation is the function \<open>files\<close>, which stands for the accessor of the store. The recursion follows
  the inputs of derivations: its depth is fuel, and enough of it when the graph of inputs has no cycle.
  The operations on output paths call the hash as a function of the derivation; that the memo does not change
  this function is one of the theorems.
\<close>

section \<open>The type of a derivation\<close>

datatype DerivationType =
    InputAddressedType (deferred: bool)
  | ContentAddressedType (sandboxed: bool) (fixed: bool)
  | ImpureType
  | SubstitutedType

fun isCA :: "DerivationType \<Rightarrow> bool" where
  "isCA (InputAddressedType _) = False"
| "isCA (ContentAddressedType _ _) = True"
| "isCA ImpureType = True"
| "isCA SubstitutedType = False"

fun isFixed :: "DerivationType \<Rightarrow> bool" where
  "isFixed (InputAddressedType _) = False"
| "isFixed (ContentAddressedType _ f) = f"
| "isFixed ImpureType = False"
| "isFixed SubstitutedType = False"

fun hasKnownOutputPaths :: "DerivationType \<Rightarrow> bool" where
  "hasKnownOutputPaths (InputAddressedType d) = (\<not> d)"
| "hasKnownOutputPaths (ContentAddressedType _ f) = f"
| "hasKnownOutputPaths ImpureType = False"
| "hasKnownOutputPaths SubstitutedType = True"

fun isSandboxed :: "DerivationType \<Rightarrow> bool" where
  "isSandboxed (InputAddressedType _) = True"
| "isSandboxed (ContentAddressedType s _) = s"
| "isSandboxed ImpureType = False"
| "isSandboxed SubstitutedType = True"

fun isImpure :: "DerivationType \<Rightarrow> bool" where
  "isImpure ImpureType = True"
| "isImpure _ = False"

text \<open>The lambda \<^verbatim>\<open>decide\<close>, and the visit of one output with the algorithm of the floating outputs so far.\<close>

definition decide :: "DerivationType option \<Rightarrow> DerivationType \<Rightarrow> DrvError + DerivationType option" where
  "decide ty newTy =
     (case ty of
        None \<Rightarrow> Inr (Some newTy)
      | Some t \<Rightarrow>
          if t \<noteq> newTy then Inl MixedOutputTypes
          else if t = ContentAddressedType False True then Inl SeveralFixedOutputs
          else Inr ty)"

fun typeStep :: "DerivationType option \<times> HashAlgorithm option \<Rightarrow> bytes \<times> DerivationOutput \<Rightarrow>
    DrvError + DerivationType option \<times> HashAlgorithm option" where
  "typeStep (ty, floating) (i, InputAddressed _) = ebind (decide ty (InputAddressedType False)) (\<lambda>t. Inr (t, floating))"
| "typeStep (ty, floating) (i, CAFixed _) =
     ebind (decide ty (ContentAddressedType False True)) (\<lambda>t.
       if i \<noteq> ''out'' then Inl FixedOutputName else Inr (t, floating))"
| "typeStep (ty, floating) (i, CAFloating _ a) =
     ebind (decide ty (ContentAddressedType True False)) (\<lambda>t.
       case floating of
         None \<Rightarrow> Inr (t, Some a)
       | Some b \<Rightarrow> if b \<noteq> a then Inl MixedFloatingAlgorithms else Inr (t, floating))"
| "typeStep (ty, floating) (i, Deferred) = ebind (decide ty (InputAddressedType True)) (\<lambda>t. Inr (t, floating))"
| "typeStep (ty, floating) (i, Impure _ _) = ebind (decide ty ImpureType) (\<lambda>t. Inr (t, floating))"

definition drvType :: "'j Setting \<Rightarrow> ('j, 'b) BasicDerivation_scheme \<Rightarrow> DrvError + DerivationType" where
  "drvType S drv =
     ebind (foldE typeStep (None, None) (outputs drv)) (\<lambda>(ty, _).
       case ty of
         None \<Rightarrow> Inl NoOutput
       | Some t \<Rightarrow>
           if builder drv = ''builtin:substitute'' then
             ebind (requireFeature S BakedDerivations) (\<lambda>_.
               if t \<noteq> InputAddressedType False then Inl SubstituteOutputs else Inr SubstitutedType)
           else Inr t)"

definition isBuiltin :: "('j, 'b) BasicDerivation_scheme \<Rightarrow> bool" where
  "isBuiltin drv = (take 8 (builder drv) = ''builtin:'')"

text \<open>\<^verbatim>\<open>DerivationOutput::path\<close>, the names of the outputs and \<^verbatim>\<open>outputsAndOptPaths\<close>.\<close>

fun outputPath :: "'j Setting \<Rightarrow> bytes \<Rightarrow> bytes \<Rightarrow> DerivationOutput \<Rightarrow> DrvError + StorePath option" where
  "outputPath S n i (InputAddressed p) = Inr (Some p)"
| "outputPath S n i (CAFixed ca) = ebind (fixedPath S ca n i) (\<lambda>p. Inr (Some p))"
| "outputPath S n i (CAFloating _ _) = Inr None"
| "outputPath S n i Deferred = Inr None"
| "outputPath S n i (Impure _ _) = Inr None"

definition namesOfOutputs :: "('j, 'b) BasicDerivation_scheme \<Rightarrow> bytes list" where
  "namesOfOutputs drv = set_union [] (map fst (outputs drv))"

definition outputsAndOptPaths ::
    "'j Setting \<Rightarrow> ('j, 'b) BasicDerivation_scheme \<Rightarrow> DrvError + (bytes \<times> DerivationOutput \<times> StorePath option) list" where
  "outputsAndOptPaths S drv =
     foldE (\<lambda>m (i, out). ebind (outputPath S (drvName drv) i out) (\<lambda>p. Inr (emplace i (out, p) m))) [] (outputs drv)"

section \<open>Writing and reading store derivations\<close>

definition hashOf :: "'j Setting \<Rightarrow> bytes \<Rightarrow> DrvError + Hash" where
  "hashOf S s = inStore (lift InHash (hashString (digestOf S) (enabled S BLAKE3Hashes) SHA256 s))"

definition infoForDerivation :: "'j Setting \<Rightarrow> 'j Derivation \<Rightarrow> DrvError + bytes \<times> bytes \<times> StorePath list \<times> StorePath" where
  "infoForDerivation S drv =
     (let references = set_union (inputSrcs drv) (map fst (inputDrvs drv)); drvSuffix = drvName drv @ drvExtension in
      ebind (unparse S drv False None) (\<lambda>contents.
        ebind (hashOf S contents) (\<lambda>h.
          ebind (inStore (makeFixedOutputPathFromCA (digestOf S) (enabled S GitHashing) (enabled S BLAKE3Hashes) (storeDirectory S)
              drvSuffix (TextCA \<lparr>textHash = h, textReferences = references\<rparr>))) (\<lambda>p.
            Inr (drvSuffix, contents, references, p)))))"

definition drvStorePath :: "'j Setting \<Rightarrow> 'j Derivation \<Rightarrow> DrvError + StorePath" where
  "drvStorePath S drv = ebind (infoForDerivation S drv) (\<lambda>(_, _, _, p). Inr p)"

definition isDerivationFile :: "bytes \<Rightarrow> bool" where
  "isDerivationFile fileName = suffix drvExtension fileName"

definition nameFromPath :: "StorePath \<Rightarrow> DrvError + bytes" where
  "nameFromPath p =
     ebind (inStore (lift InPath (requireDerivation p))) (\<lambda>_.
       ebind (inStore (lift InPath (name p))) (\<lambda>n. Inr (take (length n - length drvExtension) n)))"

definition readInvalidDerivation :: "'j Setting \<Rightarrow> (StorePath \<Rightarrow> bytes option) \<Rightarrow> StorePath \<Rightarrow> DrvError + 'j Derivation" where
  "readInvalidDerivation S files drvPath =
     ebind (require (Unreadable drvPath) (files drvPath)) (\<lambda>contents.
       if contents = [] then Inl EmptyFile
       else ebind (nameFromPath drvPath) (\<lambda>n. parseDerivation S contents n))"

section \<open>The hash modulo fixed outputs\<close>

datatype DrvHashModulo =
    DrvHash Hash
  | CaOutputHashes "(bytes \<times> Hash) list"
  | DeferredDrv

type_synonym DrvHashes = "StorePath \<Rightarrow> DrvHashModulo option"

text \<open>The hashes of a fixed-output derivation: they depend on the outputs and the name only.\<close>

definition fixedOutputHash :: "'j Setting \<Rightarrow> bytes \<Rightarrow> bytes \<times> DerivationOutput \<Rightarrow> DrvError + bytes \<times> Hash" where
  "fixedOutputHash S n i =
     (case snd i of
        CAFixed ca \<Rightarrow>
          ebind (inStore (lift InContentAddress (printMethodAlgo (enabled S GitHashing) ca))) (\<lambda>m.
            ebind (inStore (lift InHash (Hash_Text.to_string (caHash ca) Base16 False))) (\<lambda>h.
              ebind (fixedPath S ca n (fst i)) (\<lambda>p.
                ebind (hashOf S (''fixed:out:'' @ m @ '':'' @ h @ '':'' @ printStorePath (storeDirectory S) p)) (\<lambda>r.
                  Inr (fst i, r)))))
      | _ \<Rightarrow> Inl AssertFailed)"

definition fixedOutputHashes :: "'j Setting \<Rightarrow> bytes \<Rightarrow> (bytes \<times> DerivationOutput) list \<Rightarrow> DrvError + DrvHashModulo" where
  "fixedOutputHashes S n outs =
     ebind (foldE (\<lambda>m i. ebind (fixedOutputHash S n i) (\<lambda>(k, h). Inr (insert_or_assign k h m))) [] outs) (\<lambda>m.
       Inr (CaOutputHashes m))"

text \<open>\<^verbatim>\<open>inputs2[hash].value.insert(...)\<close>.\<close>

definition addInput :: "bytes \<Rightarrow> bytes list \<Rightarrow> (bytes \<times> ChildNode) list \<Rightarrow> (bytes \<times> ChildNode) list" where
  "addInput h names m =
     insert_or_assign h (case map_of m h of
         None \<Rightarrow> ChildNode (set_union [] names) []
       | Some (ChildNode v cs) \<Rightarrow> ChildNode (set_union v names) cs) m"

definition base16Of :: "Hash \<Rightarrow> DrvError + bytes" where
  "base16Of h = inStore (lift InHash (Hash_Text.to_string h Base16 False))"

text \<open>One input whose hash is known: \<^const>\<open>None\<close> is the early return of a deferred hash.\<close>

fun replaceInput :: "bytes \<Rightarrow> ChildNode \<Rightarrow> DrvHashModulo \<Rightarrow> (bytes \<times> ChildNode) list \<Rightarrow> DrvError + (bytes \<times> ChildNode) list option" where
  "replaceInput n node DeferredDrv m = Inr None"
| "replaceInput n node (DrvHash h) m = ebind (base16Of h) (\<lambda>t. Inr (Some (addInput t (outputNames node) m)))"
| "replaceInput n node (CaOutputHashes hs) m =
     ebind (foldE (\<lambda>m outputName.
         ebind (require (NoHashForOutput outputName n) (map_of hs outputName)) (\<lambda>h.
           ebind (base16Of h) (\<lambda>t. Inr (addInput t [''out''] m)))) m (outputNames node)) (\<lambda>m'. Inr (Some m'))"

text \<open>The loop over the inputs; \<open>look\<close> is \<^verbatim>\<open>pathDerivationModulo\<close>.\<close>

fun replaceInputs :: "(DrvHashes \<Rightarrow> StorePath \<Rightarrow> DrvHashes \<times> (DrvError + DrvHashModulo)) \<Rightarrow> bytes \<Rightarrow> DrvHashes \<Rightarrow>
    (StorePath \<times> ChildNode) list \<Rightarrow> (bytes \<times> ChildNode) list \<Rightarrow> DrvHashes \<times> (DrvError + (bytes \<times> ChildNode) list option)" where
  "replaceInputs look n memo [] m = (memo, Inr (Some m))"
| "replaceInputs look n memo ((drvPath, node) # ins) m =
     (if childMap node \<noteq> [] then (memo, Inr None)
      else case look memo drvPath of
        (memo', Inl e) \<Rightarrow> (memo', Inl e)
      | (memo', Inr res) \<Rightarrow> (case replaceInput n node res m of
            Inl e \<Rightarrow> (memo', Inl e)
          | Inr None \<Rightarrow> (memo', Inr None)
          | Inr (Some m') \<Rightarrow> replaceInputs look n memo' ins m'))"

definition hashModuloWith ::
    "(DrvHashes \<Rightarrow> StorePath \<Rightarrow> DrvHashes \<times> (DrvError + DrvHashModulo)) \<Rightarrow> 'j Setting \<Rightarrow> DrvHashes \<Rightarrow> 'j Derivation \<Rightarrow> bool \<Rightarrow>
     DrvHashes \<times> (DrvError + DrvHashModulo)" where
  "hashModuloWith look S memo drv maskOutputs =
     (case drvType S drv of
        Inl e \<Rightarrow> (memo, Inl e)
      | Inr ty \<Rightarrow>
          if isFixed ty then (memo, fixedOutputHashes S (drvName drv) (outputs drv))
          else if isCA ty then (memo, Inr DeferredDrv)
          else case replaceInputs look (drvName drv) memo (inputDrvs drv) [] of
            (memo', Inl e) \<Rightarrow> (memo', Inl e)
          | (memo', Inr None) \<Rightarrow> (memo', Inr DeferredDrv)
          | (memo', Inr (Some inputs2)) \<Rightarrow>
              (memo', ebind (unparse S drv maskOutputs (Some inputs2)) (\<lambda>t. ebind (hashOf S t) (\<lambda>h. Inr (DrvHash h)))))"

text \<open>
  The two mutually recursive functions. The fuel is the number of levels of inputs that may be followed.
\<close>

fun pathDerivationModulo :: "nat \<Rightarrow> 'j Setting \<Rightarrow> (StorePath \<Rightarrow> bytes option) \<Rightarrow> DrvHashes \<Rightarrow> StorePath \<Rightarrow>
    DrvHashes \<times> (DrvError + DrvHashModulo)" where
  "pathDerivationModulo 0 S files memo drvPath = (memo, Inl OutOfFuel)"
| "pathDerivationModulo (Suc n) S files memo drvPath =
     (case memo drvPath of
        Some h \<Rightarrow> (memo, Inr h)
      | None \<Rightarrow> (case readInvalidDerivation S files drvPath of
          Inl e \<Rightarrow> (memo, Inl e)
        | Inr drv \<Rightarrow> (case hashModuloWith (pathDerivationModulo n S files) S memo drv False of
            (memo', Inl e) \<Rightarrow> (memo', Inl e)
          | (memo', Inr h) \<Rightarrow> (memo'(drvPath \<mapsto> h), Inr h))))"

definition hashDerivationModulo :: "nat \<Rightarrow> 'j Setting \<Rightarrow> (StorePath \<Rightarrow> bytes option) \<Rightarrow> DrvHashes \<Rightarrow> 'j Derivation \<Rightarrow> bool \<Rightarrow>
    DrvHashes \<times> (DrvError + DrvHashModulo)" where
  "hashDerivationModulo n S files = hashModuloWith (pathDerivationModulo n S files) S"

section \<open>The hash without the memo\<close>

text \<open>The same functions with no memo, as the reference: the hash of a path is a function of the path.\<close>

definition noMemo :: "(StorePath \<Rightarrow> DrvError + DrvHashModulo) \<Rightarrow> DrvHashes \<Rightarrow> StorePath \<Rightarrow> DrvHashes \<times> (DrvError + DrvHashModulo)" where
  "noMemo look = (\<lambda>memo p. (memo, look p))"

definition moduloOf :: "(StorePath \<Rightarrow> DrvError + DrvHashModulo) \<Rightarrow> 'j Setting \<Rightarrow> 'j Derivation \<Rightarrow> bool \<Rightarrow> DrvError + DrvHashModulo" where
  "moduloOf look S drv maskOutputs = snd (hashModuloWith (noMemo look) S (\<lambda>_. None) drv maskOutputs)"

fun pathModulo :: "nat \<Rightarrow> 'j Setting \<Rightarrow> (StorePath \<Rightarrow> bytes option) \<Rightarrow> StorePath \<Rightarrow> DrvError + DrvHashModulo" where
  "pathModulo 0 S files p = Inl OutOfFuel"
| "pathModulo (Suc n) S files p = ebind (readInvalidDerivation S files p) (\<lambda>drv. moduloOf (pathModulo n S files) S drv False)"

text \<open>A graph of inputs without cycles: every derivation has a depth above its inputs'.\<close>

definition ranked :: "'j Setting \<Rightarrow> (StorePath \<Rightarrow> bytes option) \<Rightarrow> (StorePath \<Rightarrow> nat) \<Rightarrow> bool" where
  "ranked S files depth \<longleftrightarrow>
     (\<forall>p drv q. readInvalidDerivation S files p = Inr drv \<longrightarrow> q \<in> fst ` set (inputDrvs drv) \<longrightarrow> depth q < depth p)"

text \<open>A memo that holds what the reference computes.\<close>

definition validMemo :: "'j Setting \<Rightarrow> (StorePath \<Rightarrow> bytes option) \<Rightarrow> (StorePath \<Rightarrow> nat) \<Rightarrow> DrvHashes \<Rightarrow> bool" where
  "validMemo S files depth memo \<longleftrightarrow> (\<forall>p h. memo p = Some h \<longrightarrow> pathModulo (Suc (depth p)) S files p = Inr h)"

lemma replaceInputs_noMemo: "fst (replaceInputs (noMemo look) n memo ins m) = memo"
  by (induction "noMemo look" n memo ins m rule: replaceInputs.induct)
    (auto simp: noMemo_def split: sum.split option.split)

lemma replaceInputs_cong:
  assumes "\<And>p memo. p \<in> fst ` set ins \<Longrightarrow> P memo \<Longrightarrow> P (fst (look memo p)) \<and> snd (look memo p) = ref p" "P memo"
  shows "P (fst (replaceInputs look n memo ins m)) \<and> snd (replaceInputs look n memo ins m) = snd (replaceInputs (noMemo ref) n memo0 ins m)"
  using assms
proof (induction ins arbitrary: memo memo0 m)
  case (Cons i ins)
  obtain p node where i: "i = (p, node)" by force
  obtain memo' r where look: "look memo p = (memo', r)" by force
  have l: "P memo'" "ref p = r" using Cons.prems(1) [of p memo] Cons.prems(2) look by (simp_all add: i)
  have IH: "P (fst (replaceInputs look n memo' ins m')) \<and>
      snd (replaceInputs look n memo' ins m') = snd (replaceInputs (noMemo ref) n memo0 ins m')" for m'
    using Cons.IH [OF _ l(1)] Cons.prems(1) by simp
  show ?case using look l Cons.prems(2) IH
    by (auto simp: i noMemo_def split: sum.split option.split)
qed simp

lemma hashModulo_cong:
  assumes "\<And>p memo. p \<in> fst ` set (inputDrvs drv) \<Longrightarrow> P memo \<Longrightarrow> P (fst (look memo p)) \<and> snd (look memo p) = ref p" "P memo"
  shows "P (fst (hashModuloWith look S memo drv b)) \<and> snd (hashModuloWith look S memo drv b) = moduloOf ref S drv b"
proof (cases "drvType S drv")
  case (Inr ty)
  have r: "P (fst (replaceInputs look (drvName drv) memo (inputDrvs drv) []))"
    "snd (replaceInputs look (drvName drv) memo (inputDrvs drv) []) = snd (replaceInputs (noMemo ref) (drvName drv) (\<lambda>_. None) (inputDrvs drv) [])"
    using replaceInputs_cong [of "inputDrvs drv" P look ref memo] assms by auto
  show ?thesis using Inr r assms(2)
    by (cases "replaceInputs look (drvName drv) memo (inputDrvs drv) []"; cases "replaceInputs (noMemo ref) (drvName drv) (\<lambda>_. None) (inputDrvs drv) []")
      (auto simp: moduloOf_def hashModuloWith_def split: sum.split option.split)
qed (simp_all add: moduloOf_def hashModuloWith_def assms(2))

lemma moduloOf_cong: "(\<And>p. p \<in> fst ` set (inputDrvs drv) \<Longrightarrow> look p = look' p) \<Longrightarrow> moduloOf look S drv b = moduloOf look' S drv b"
  using hashModulo_cong [of drv "\<lambda>_. True" "noMemo look" look' "\<lambda>_. None" S b] by (simp add: noMemo_def moduloOf_def)

lemma pathModulo_fuel:
  assumes "ranked S files depth" "depth p < n"
  shows "pathModulo n S files p = pathModulo (Suc (depth p)) S files p"
  using assms(2)
proof (induction n arbitrary: p rule: less_induct)
  case (less n)
  then obtain k where n: "n = Suc k" by (cases n) auto
  have "moduloOf (pathModulo k S files) S drv False = moduloOf (pathModulo (depth p) S files) S drv False"
    if "readInvalidDerivation S files p = Inr drv" for drv
  proof (rule moduloOf_cong)
    fix q
    assume "q \<in> fst ` set (inputDrvs drv)"
    then have "depth q < depth p" using assms(1) that by (auto simp: ranked_def)
    then show "pathModulo k S files q = pathModulo (depth p) S files q"
      using less.IH [of k q] less.IH [of "depth p" q] less.prems n by simp
  qed
  then show ?case by (cases "readInvalidDerivation S files p") (simp_all add: n)
qed

lemma pathModulo_memo:
  assumes "ranked S files depth" "depth p < n" "validMemo S files depth memo"
  shows "validMemo S files depth (fst (pathDerivationModulo n S files memo p)) \<and>
    snd (pathDerivationModulo n S files memo p) = pathModulo (Suc (depth p)) S files p"
  using assms(2,3)
proof (induction n arbitrary: p memo)
  case (Suc n)
  show ?case
  proof (cases "memo p")
    case (Some h)
    then show ?thesis using Suc.prems(2) by (simp add: validMemo_def)
  next
    case None
    show ?thesis
    proof (cases "readInvalidDerivation S files p")
      case (Inl e)
      then show ?thesis using Suc.prems(2) None by simp
    next
      case (Inr drv)
      have below: "depth q < depth p" if "q \<in> fst ` set (inputDrvs drv)" for q using assms(1) Inr that by (auto simp: ranked_def)
      let ?r = "hashModuloWith (pathDerivationModulo n S files) S memo drv False"
      have "validMemo S files depth (fst ?r) \<and> snd ?r = moduloOf (\<lambda>q. pathModulo (Suc (depth q)) S files q) S drv False"
      proof (rule hashModulo_cong)
        fix q and m
        assume q: "q \<in> fst ` set (inputDrvs drv)" "validMemo S files depth m"
        have "depth q < n" using below [OF q(1)] Suc.prems(1) by simp
        then show "validMemo S files depth (fst (pathDerivationModulo n S files m q)) \<and>
            snd (pathDerivationModulo n S files m q) = pathModulo (Suc (depth q)) S files q"
          using q(2) by (rule Suc.IH)
      qed (rule Suc.prems(2))
      moreover have "moduloOf (\<lambda>q. pathModulo (Suc (depth q)) S files q) S drv False = moduloOf (pathModulo (depth p) S files) S drv False"
        by (rule moduloOf_cong) (metis pathModulo_fuel [OF assms(1)] below)
      ultimately have r: "validMemo S files depth (fst ?r)" "snd ?r = pathModulo (Suc (depth p)) S files p"
        using Inr by simp_all
      obtain m' res where res: "?r = (m', res)" by force
      then have v: "validMemo S files depth m'" "pathModulo (Suc (depth p)) S files p = res" using r by simp_all
      show ?thesis
      proof (cases res)
        case (Inl e)
        then show ?thesis using v None \<open>readInvalidDerivation S files p = Inr drv\<close> res by (simp del: pathModulo.simps fun_upd_apply)
      next
        case (Inr h)
        have "validMemo S files depth (m'(p \<mapsto> h))" using v Inr by (simp add: validMemo_def del: pathModulo.simps)
        then show ?thesis using v None Inr \<open>readInvalidDerivation S files p = Inr drv\<close> res by (simp del: pathModulo.simps fun_upd_apply)
      qed
    qed
  qed
qed simp

lemma foldE_fuel: "(\<And>s x. f s x \<noteq> Inl OutOfFuel) \<Longrightarrow> foldE f s xs \<noteq> Inl OutOfFuel"
  by (induction xs arbitrary: s) (auto simp: ebind_eq_Inl)

lemma mapE_fuel: "(\<And>x. f x \<noteq> Inl OutOfFuel) \<Longrightarrow> mapE f xs \<noteq> Inl OutOfFuel"
  by (induction xs) (auto simp: ebind_eq_Inl)

lemma typeStep_fuel: "typeStep st i \<noteq> Inl OutOfFuel"
  by (cases "(st, i)" rule: typeStep.cases) (auto simp: ebind_eq_Inl decide_def split: option.splits if_splits)

lemma drvType_fuel [simp]: "drvType S drv \<noteq> Inl OutOfFuel"
  using foldE_fuel [of typeStep, OF typeStep_fuel] by (auto simp: drvType_def ebind_eq_Inl split: option.splits if_splits)

lemma hashOf_fuel [simp]: "hashOf S t \<noteq> Inl OutOfFuel"
  by (simp add: hashOf_def)

lemma outputParts_fuel [simp]: "outputParts S b n i out \<noteq> Inl OutOfFuel"
  by (cases out) (auto simp: ebind_eq_Inl fixedPath_def renderMethodPrefix_def split: if_splits)

lemma unparse_fuel [simp]: "unparse S drv b m \<noteq> Inl OutOfFuel"
proof -
  have "mapE (unparseOutput S b (drvName drv)) (outputs drv) \<noteq> Inl OutOfFuel"
    by (rule mapE_fuel) (auto simp: unparseOutput_def ebind_eq_Inl)
  then show ?thesis by (simp add: unparse_def ebind_eq_Inl checkKeyNotInUse_def)
qed

lemma fixedOutputHashes_fuel [simp]: "fixedOutputHashes S n outs \<noteq> Inl OutOfFuel"
proof -
  have "fixedOutputHash S n i \<noteq> Inl OutOfFuel" for i
    by (auto simp: fixedOutputHash_def ebind_eq_Inl fixedPath_def split: DerivationOutput.splits)
  then have "foldE (\<lambda>m i. ebind (fixedOutputHash S n i) (\<lambda>(k, h). Inr (insert_or_assign k h m))) [] outs \<noteq> Inl OutOfFuel"
    by (intro foldE_fuel) (auto simp: ebind_eq_Inl)
  then show ?thesis by (simp add: fixedOutputHashes_def ebind_eq_Inl)
qed

lemma base16Of_fuel [simp]: "base16Of h \<noteq> Inl OutOfFuel"
  by (simp add: base16Of_def)

lemma replaceInput_fuel: "replaceInput n node r m \<noteq> Inl OutOfFuel"
proof (cases r)
  case (CaOutputHashes hs)
  have "foldE (\<lambda>m outputName. ebind (require (NoHashForOutput outputName n) (map_of hs outputName)) (\<lambda>h.
      ebind (base16Of h) (\<lambda>t. Inr (addInput t [''out''] m)))) m (outputNames node) \<noteq> Inl OutOfFuel"
    by (rule foldE_fuel) (auto simp: ebind_eq_Inl require_def split: option.splits)
  then show ?thesis by (simp add: CaOutputHashes ebind_eq_Inl)
qed (auto simp: ebind_eq_Inl)

lemma replaceInputs_fuel:
  "(\<And>p. p \<in> fst ` set ins \<Longrightarrow> look p \<noteq> Inl OutOfFuel) \<Longrightarrow> snd (replaceInputs (noMemo look) n memo ins m) \<noteq> Inl OutOfFuel"
proof (induction ins arbitrary: m)
  case (Cons i ins)
  obtain p node where i: "i = (p, node)" by force
  have "snd (replaceInputs (noMemo look) n memo ins m) \<noteq> Inl OutOfFuel" for m using Cons by simp
  moreover have "look p \<noteq> Inl OutOfFuel" using Cons.prems [of p] by (simp add: i)
  moreover have "noMemo look memo p = (memo, look p)" by (simp add: noMemo_def)
  ultimately show ?case using replaceInput_fuel [of n node _ m]
    by (cases "look p"; cases "replaceInput n node (projr (look p)) m") (auto simp: i split: option.split)
qed simp

lemma moduloOf_fuel:
  "(\<And>p. p \<in> fst ` set (inputDrvs drv) \<Longrightarrow> look p \<noteq> Inl OutOfFuel) \<Longrightarrow> moduloOf look S drv b \<noteq> Inl OutOfFuel"
  using replaceInputs_fuel [of "inputDrvs drv" look "drvName drv" "\<lambda>_. None" "[]"]
  by (cases "replaceInputs (noMemo look) (drvName drv) (\<lambda>_. None) (inputDrvs drv) []"; cases "drvType S drv")
    (auto simp: moduloOf_def hashModuloWith_def ebind_eq_Inl split: sum.split option.split)

lemma pathModulo_no_fuel:
  assumes "ranked S files depth" "depth p < n"
  shows "pathModulo n S files p \<noteq> Inl OutOfFuel"
  using assms(2)
proof (induction n arbitrary: p)
  case (Suc n)
  have "nameFromPath p \<noteq> Inl OutOfFuel" by (auto simp: nameFromPath_def ebind_eq_Inl)
  then have "readInvalidDerivation S files p \<noteq> Inl OutOfFuel"
    using parse_no_fuel by (auto simp: readInvalidDerivation_def ebind_eq_Inl require_def split: option.splits)
  moreover have "moduloOf (pathModulo n S files) S drv False \<noteq> Inl OutOfFuel" if "readInvalidDerivation S files p = Inr drv" for drv
  proof (intro moduloOf_fuel Suc.IH)
    fix q
    assume "q \<in> fst ` set (inputDrvs drv)"
    then have "depth q < depth p" using assms(1) that unfolding ranked_def by blast
    then show "depth q < n" using Suc.prems by simp
  qed
  ultimately show ?case by (auto simp: ebind_eq_Inl)
qed simp

section \<open>What the hash depends on\<close>

text \<open>What an input adds to the map of inputs: pairs of a hash and names of outputs.\<close>

fun contribOf :: "ChildNode \<Rightarrow> DrvHashModulo \<Rightarrow> (bytes \<times> bytes list) list option" where
  "contribOf node DeferredDrv = None"
| "contribOf node (DrvHash h) = (case base16Of h of Inl _ \<Rightarrow> None | Inr t \<Rightarrow> Some [(t, outputNames node)])"
| "contribOf node (CaOutputHashes hs) =
     those (map (\<lambda>i. case map_of hs i of
         None \<Rightarrow> None
       | Some h \<Rightarrow> (case base16Of h of Inl _ \<Rightarrow> None | Inr t \<Rightarrow> Some (t, [''out'']))) (outputNames node))"

definition contribution :: "DrvError + DrvHashModulo \<Rightarrow> ChildNode \<Rightarrow> (bytes \<times> bytes list) list option" where
  "contribution r node = (if childMap node \<noteq> [] then None else case r of Inl _ \<Rightarrow> None | Inr x \<Rightarrow> contribOf node x)"

definition addAll :: "(bytes \<times> bytes list) list \<Rightarrow> (bytes \<times> ChildNode) list \<Rightarrow> (bytes \<times> ChildNode) list" where
  "addAll cs m = foldl (\<lambda>m c. addInput (fst c) (snd c) m) m cs"

lemma addAll_simps [simp]: "addAll [] m = m" "addAll (c # cs) m = addAll cs (addInput (fst c) (snd c) m)" "addAll (cs @ ds) m = addAll ds (addAll cs m)"
  by (simp_all add: addAll_def)

lemma foldE_contrib:
  "foldE (\<lambda>m i. ebind (require (e i) (map_of hs i)) (\<lambda>h. ebind (base16Of h) (\<lambda>t. Inr (addInput t [''out''] m)))) m names = Inr m' \<longleftrightarrow>
    (\<exists>cs. those (map (\<lambda>i. case map_of hs i of None \<Rightarrow> None
       | Some h \<Rightarrow> (case base16Of h of Inl _ \<Rightarrow> None | Inr t \<Rightarrow> Some (t, [''out'']))) names) = Some cs \<and> m' = addAll cs m)"
  by (induction names arbitrary: m) (auto simp: bind_defs split: option.splits sum.splits)

lemma replaceInput_contrib:
  "replaceInput n node r m = Inr (Some m') \<longleftrightarrow> (\<exists>cs. contribOf node r = Some cs \<and> m' = addAll cs m)"
  using foldE_contrib [of "\<lambda>i. NoHashForOutput i n"]
  by (cases r) (auto simp: bind_defs split: sum.splits)

lemma replaceInputs_contrib:
  "snd (replaceInputs (noMemo look) n memo ins m) = Inr (Some m') \<longleftrightarrow>
    (\<exists>css. list_all2 (\<lambda>i cs. contribution (look (fst i)) (snd i) = Some cs) ins css \<and> m' = addAll (concat css) m)"
proof (induction ins arbitrary: m)
  case (Cons i ins)
  obtain p node where i: "i = (p, node)" by force
  have n: "noMemo look memo p = (memo, look p)" by (simp add: noMemo_def)
  show ?case
  proof (cases "\<exists>m1. childMap node = [] \<and> look p = Inr m1 \<and> (\<exists>cs. contribOf node m1 = Some cs)")
    case True
    then obtain r cs where r: "childMap node = []" "look p = Inr r" "contribOf node r = Some cs" by blast
    then have "replaceInput n node r m = Inr (Some (addAll cs m))" using replaceInput_contrib by blast
    then have "snd (replaceInputs (noMemo look) n memo (i # ins) m) = snd (replaceInputs (noMemo look) n memo ins (addAll cs m))"
      using r n by (simp add: i)
    then show ?thesis using Cons.IH [of "addAll cs m"] r by (auto simp: i contribution_def list_all2_Cons1)
  next
    case False
    then have "replaceInput n node r m \<noteq> Inr (Some m1)" if "childMap node = []" "look p = Inr r" for r m1
      using that replaceInput_contrib [of n node r m m1] by blast
    then have "snd (replaceInputs (noMemo look) n memo (i # ins) m) \<noteq> Inr (Some m')"
      using n by (cases "look p") (auto simp: i split: sum.split option.split)
    moreover have "contribution (look p) node = None" using False by (auto simp: contribution_def split: sum.splits)
    ultimately show ?thesis by (auto simp: i list_all2_Cons1)
  qed
qed auto

text \<open>The map of inputs depends only on the set of the contributions.\<close>

fun wfFlat :: "ChildNode \<Rightarrow> bool" where
  "wfFlat (ChildNode v cs) \<longleftrightarrow> ordered_set v \<and> cs = []"

definition flatMap :: "(bytes \<times> ChildNode) list \<Rightarrow> bool" where
  "flatMap m \<longleftrightarrow> ordered_map m \<and> (\<forall>e\<in>set m. wfFlat (snd e))"

lemma map_of_addInput:
  assumes "flatMap m"
  shows "map_of (addInput h ns m) = (map_of m)(h \<mapsto> ChildNode (set_union (case map_of m h of None \<Rightarrow> [] | Some nd \<Rightarrow> outputNames nd) ns) [])"
proof -
  have "childMap nd = []" if "map_of m h = Some nd" for nd
    using assms map_of_SomeD [OF that] by (cases nd) (auto simp: flatMap_def)
  then show ?thesis using assms
    by (auto simp: addInput_def map_of_insert_or_assign flatMap_def split: option.split ChildNode.split)
qed

lemma flatMap_iff: "flatMap m \<longleftrightarrow> ordered_map m \<and> (\<forall>h nd. map_of m h = Some nd \<longrightarrow> wfFlat nd)"
proof -
  have "(\<forall>e\<in>set m. wfFlat (snd e)) \<longleftrightarrow> (\<forall>h nd. map_of m h = Some nd \<longrightarrow> wfFlat nd)" if "ordered_map m"
    using map_of_eq_Some_iff [OF ordered_map_distinct [OF that]] by force
  then show ?thesis by (auto simp: flatMap_def)
qed

lemma flatMap_addInput:
  assumes "flatMap m"
  shows "flatMap (addInput h ns m)"
proof -
  have "wfFlat nd" if "map_of m h = Some nd" for nd h using assms that by (simp add: flatMap_iff)
  moreover from this [of h] have "ordered_set (case map_of m h of None \<Rightarrow> [] | Some nd \<Rightarrow> outputNames nd)"
    by (auto split: option.split) (metis ChildNode.exhaust_sel wfFlat.simps)
  moreover have "ordered_map (addInput h ns m)" using assms by (simp add: addInput_def flatMap_def)
  ultimately show ?thesis unfolding flatMap_iff by (auto simp: map_of_addInput [OF assms] split: if_splits)
qed

definition namesAt :: "(bytes \<times> ChildNode) list \<Rightarrow> bytes \<Rightarrow> bytes set option" where
  "namesAt m h = map_option (\<lambda>nd. set (outputNames nd)) (map_of m h)"

lemma flatMap_eqI:
  assumes "flatMap m" "flatMap m'" "namesAt m = namesAt m'"
  shows "m = m'"
proof (rule ordered_map_ext)
  have "map_of m h = map_of m' h" for h
  proof (cases "map_of m h")
    case None
    then show ?thesis using fun_cong [OF assms(3), of h] by (auto simp: namesAt_def)
  next
    case (Some nd)
    then obtain nd' where nd': "map_of m' h = Some nd'" "set (outputNames nd) = set (outputNames nd')"
      using fun_cong [OF assms(3), of h] by (cases "map_of m' h") (auto simp: namesAt_def)
    have "wfFlat nd" "wfFlat nd'" using assms(1,2) Some nd'(1) by (auto simp: flatMap_iff)
    then show ?thesis using Some nd' by (cases nd; cases nd') (auto intro: strict_sorted_set_eq)
  qed
  then show "map_of m = map_of m'" by blast
qed (use assms in \<open>auto simp: flatMap_def\<close>)

lemma namesAt_addAll:
  assumes "flatMap m"
  shows "flatMap (addAll cs m) \<and> namesAt (addAll cs m) h =
    (if namesAt m h = None \<and> h \<notin> fst ` set cs then None
     else Some ((case namesAt m h of None \<Rightarrow> {} | Some A \<Rightarrow> A) \<union> (\<Union>c\<in>{c \<in> set cs. fst c = h}. set (snd c))))"
  using assms
proof (induction cs arbitrary: m)
  case (Cons c cs)
  have "namesAt (addInput (fst c) (snd c) m) h =
      (if h = fst c then Some ((case namesAt m h of None \<Rightarrow> {} | Some A \<Rightarrow> A) \<union> set (snd c)) else namesAt m h)"
    using Cons.prems by (auto simp: namesAt_def map_of_addInput split: option.split)
  then show ?case using Cons.IH [OF flatMap_addInput [OF Cons.prems]] by (auto split: option.splits)
qed (auto simp: split: option.splits)

lemma addAll_set:
  assumes "set cs = set ds"
  shows "addAll cs [] = addAll ds []"
proof (rule flatMap_eqI)
  have e: "flatMap []" by (simp add: flatMap_def)
  show "flatMap (addAll cs [])" "flatMap (addAll ds [])" using namesAt_addAll [OF e] by blast+
  have "fst ` set cs = fst ` set ds" using assms by simp
  then show "namesAt (addAll cs []) = namesAt (addAll ds [])"
    using namesAt_addAll [OF e, of cs] namesAt_addAll [OF e, of ds] assms by (intro ext) simp
qed

text \<open>The inputs as their derivations are replaced: pairs of a hash and a node.\<close>

definition resolved :: "(StorePath \<Rightarrow> DrvError + DrvHashModulo) \<Rightarrow> (StorePath \<times> ChildNode) list \<Rightarrow> ((DrvError + DrvHashModulo) \<times> ChildNode) set" where
  "resolved look ins = (\<lambda>i. (look (fst i), snd i)) ` set ins"

lemma contributions_iff:
  "(\<exists>css. list_all2 (\<lambda>i cs. contribution (look (fst i)) (snd i) = Some cs) ins css \<and> A = set (concat css)) \<longleftrightarrow>
    (\<forall>(r, node)\<in>resolved look ins. contribution r node \<noteq> None) \<and>
    A = (\<Union>(r, node)\<in>resolved look ins. set (the (contribution r node)))"
proof
  assume "\<exists>css. list_all2 (\<lambda>i cs. contribution (look (fst i)) (snd i) = Some cs) ins css \<and> A = set (concat css)"
  then obtain css where css: "list_all2 (\<lambda>i cs. contribution (look (fst i)) (snd i) = Some cs) ins css" "A = set (concat css)"
    by blast
  then have "css = map (\<lambda>i. the (contribution (look (fst i)) (snd i))) ins"
    by (auto simp: list_all2_conv_all_nth intro!: nth_equalityI)
  moreover have "\<forall>i\<in>set ins. contribution (look (fst i)) (snd i) \<noteq> None"
    using css(1) by (fastforce simp: list_all2_conv_all_nth in_set_conv_nth)
  ultimately show "(\<forall>(r, node)\<in>resolved look ins. contribution r node \<noteq> None) \<and>
      A = (\<Union>(r, node)\<in>resolved look ins. set (the (contribution r node)))"
    using css(2) by (auto simp: resolved_def)
next
  assume *: "(\<forall>(r, node)\<in>resolved look ins. contribution r node \<noteq> None) \<and>
      A = (\<Union>(r, node)\<in>resolved look ins. set (the (contribution r node)))"
  let ?css = "map (\<lambda>i. the (contribution (look (fst i)) (snd i))) ins"
  have "list_all2 (\<lambda>i cs. contribution (look (fst i)) (snd i) = Some cs) ins ?css"
    using * by (auto simp: resolved_def list_all2_map2 intro!: list.rel_refl_strong)
  moreover have "A = set (concat ?css)" using * by (auto simp: resolved_def)
  ultimately show "\<exists>css. list_all2 (\<lambda>i cs. contribution (look (fst i)) (snd i) = Some cs) ins css \<and> A = set (concat css)"
    by blast
qed

lemma replaceInputs_resolved:
  assumes "resolved look ins = resolved look' ins'"
    and "snd (replaceInputs (noMemo look) n memo ins []) = Inr (Some m)"
  shows "snd (replaceInputs (noMemo look') n' memo' ins' []) = Inr (Some m)"
proof -
  obtain css where css: "list_all2 (\<lambda>i cs. contribution (look (fst i)) (snd i) = Some cs) ins css" "m = addAll (concat css) []"
    using assms(2) by (auto simp: replaceInputs_contrib)
  let ?A = "set (concat css)"
  have "(\<forall>(r, node)\<in>resolved look ins. contribution r node \<noteq> None) \<and>
      ?A = (\<Union>(r, node)\<in>resolved look ins. set (the (contribution r node)))"
    by (rule contributions_iff [THEN iffD1]) (use css(1) in blast)
  then have "\<exists>css'. list_all2 (\<lambda>i cs. contribution (look' (fst i)) (snd i) = Some cs) ins' css' \<and> ?A = set (concat css')"
    unfolding assms(1) by (rule contributions_iff [THEN iffD2])
  then obtain css' where css': "list_all2 (\<lambda>i cs. contribution (look' (fst i)) (snd i) = Some cs) ins' css'" "?A = set (concat css')"
    by blast
  have "m = addAll (concat css') []" unfolding css(2) by (rule addAll_set) (rule css'(2))
  then show ?thesis unfolding replaceInputs_contrib using css'(1) by blast
qed

lemma replaceInputs_static:
  assumes "snd (replaceInputs (noMemo look) n memo ins m) = Inr (Some m')"
  shows "\<forall>i\<in>set ins. childMap (snd i) = []"
proof -
  obtain css where "list_all2 (\<lambda>i cs. contribution (look (fst i)) (snd i) = Some cs) ins css"
    using assms by (auto simp: replaceInputs_contrib)
  then show ?thesis by (fastforce simp: list_all2_conv_all_nth in_set_conv_nth contribution_def split: if_splits)
qed

lemma moduloOf_DrvHash:
  "moduloOf look S drv b = Inr (DrvHash h) \<longleftrightarrow>
    (\<exists>ty m t. drvType S drv = Inr ty \<and> \<not> isFixed ty \<and> \<not> isCA ty \<and>
       snd (replaceInputs (noMemo look) (drvName drv) (\<lambda>_. None) (inputDrvs drv) []) = Inr (Some m) \<and>
       unparse S drv b (Some m) = Inr t \<and> hashOf S t = Inr h)"
proof -
  have "fixedOutputHashes S n outs \<noteq> Inr (DrvHash h)" for n outs by (auto simp: fixedOutputHashes_def bind_defs)
  then show ?thesis
    by (cases "replaceInputs (noMemo look) (drvName drv) (\<lambda>_. None) (inputDrvs drv) []")
      (auto simp: moduloOf_def hashModuloWith_def bind_defs split: sum.splits option.splits if_splits)
qed

lemma moduloOf_resolved:
  assumes "resolved look (inputDrvs drv) = resolved look' ins'" "moduloOf look S drv b = Inr (DrvHash h)"
  shows "moduloOf look' S (drv\<lparr>inputDrvs := ins'\<rparr>) b = Inr (DrvHash h)"
proof -
  obtain ty m t where ty: "drvType S drv = Inr ty" "\<not> isFixed ty" "\<not> isCA ty"
    and m: "snd (replaceInputs (noMemo look) (drvName drv) (\<lambda>_. None) (inputDrvs drv) []) = Inr (Some m)"
    and t: "unparse S drv b (Some m) = Inr t" "hashOf S t = Inr h"
    using assms(2) by (auto simp: moduloOf_DrvHash)
  have m': "snd (replaceInputs (noMemo look') (drvName drv) (\<lambda>_. None) ins' []) = Inr (Some m)"
    using replaceInputs_resolved [OF assms(1) m] .
  have "\<not> hasDynamicDrvDep drv" "\<not> hasDynamicDrvDep (drv\<lparr>inputDrvs := ins'\<rparr>)"
    using replaceInputs_static [OF m] replaceInputs_static [OF m'] by (auto simp: hasDynamicDrvDep_def list_ex_iff)
  moreover have "unparseVariable (drv\<lparr>inputDrvs := ins'\<rparr>) b = unparseVariable drv b" by (simp add: unparseVariable_def fun_eq_iff)
  moreover have "atermEnv S (drv\<lparr>inputDrvs := ins'\<rparr>) = atermEnv S drv"
    by (cases drv) (simp add: atermEnv_def split: option.split)
  ultimately have "unparse S (drv\<lparr>inputDrvs := ins'\<rparr>) b (Some m) = Inr t"
    using t(1) by (simp add: unparse_def)
  moreover have "drvType S (drv\<lparr>inputDrvs := ins'\<rparr>) = drvType S drv" by (simp add: drvType_def cong: option.case_cong)
  ultimately show ?thesis using ty m' t(2) by (simp add: moduloOf_DrvHash)
qed

lemma pathModulo_fixed:
  assumes "readInvalidDerivation S files p = Inr f" "drvType S f = Inr ty" "isFixed ty"
  shows "pathModulo (Suc n) S files p = fixedOutputHashes S (drvName f) (outputs f)"
  using assms by (simp add: moduloOf_def hashModuloWith_def)

section \<open>Memo, storage and fixed outputs\<close>

lemma hash_memo:
  assumes "ranked S files depth" "validMemo S files depth memo" "\<And>q. q \<in> fst ` set (inputDrvs drv) \<Longrightarrow> depth q < n"
  shows "validMemo S files depth (fst (hashDerivationModulo n S files memo drv b)) \<and>
    snd (hashDerivationModulo n S files memo drv b) = moduloOf (pathModulo n S files) S drv b \<and>
    snd (hashDerivationModulo n S files memo drv b) \<noteq> Inl OutOfFuel"
proof -
  have "validMemo S files depth (fst (hashDerivationModulo n S files memo drv b)) \<and>
      snd (hashDerivationModulo n S files memo drv b) = moduloOf (pathModulo n S files) S drv b"
    unfolding hashDerivationModulo_def
  proof (rule hashModulo_cong)
    fix q and m
    assume "q \<in> fst ` set (inputDrvs drv)" "validMemo S files depth m"
    then show "validMemo S files depth (fst (pathDerivationModulo n S files m q)) \<and>
        snd (pathDerivationModulo n S files m q) = pathModulo n S files q"
      using pathModulo_memo [OF assms(1,3)] pathModulo_fuel [OF assms(1,3)] by simp
  qed (rule assms(2))
  moreover have "moduloOf (pathModulo n S files) S drv b \<noteq> Inl OutOfFuel"
    using pathModulo_no_fuel [OF assms(1,3)] by (rule moduloOf_fuel)
  ultimately show ?thesis by simp
qed

lemma stored_read_back:
  assumes "wfSetting S" "jsonOk S" "wfDerivation S drv" "infoForDerivation S drv = Inr (s, contents, refs, p)"
    and "files p = Some contents"
  shows "wfPath p \<and> name p = Inr (drvName drv @ drvExtension) \<and> readInvalidDerivation S files p = Inr drv \<and>
    set refs = set (inputSrcs drv) \<union> fst ` set (inputDrvs drv)"
proof -
  have u: "unparse S drv False None = Inr contents" and refs: "refs = set_union (inputSrcs drv) (map fst (inputDrvs drv))"
    using assms(4) by (auto simp: infoForDerivation_def Let_def bind_defs)
  obtain ca where "makeFixedOutputPathFromCA (digestOf S) (enabled S GitHashing) (enabled S BLAKE3Hashes) (storeDirectory S)
      (drvName drv @ drvExtension) ca = Inr p"
    using assms(4) by (auto simp: infoForDerivation_def Let_def bind_defs)
  then have p: "wfPath p" "name p = Inr (drvName drv @ drvExtension)" using makeFixedOutputPathFromCA_wf by blast+
  then have "requireDerivation p = Inr ()" by (simp add: requireDerivation_def isDerivation_def suffix_def)
  then have n: "nameFromPath p = Inr (drvName drv)" using p(2) by (simp add: nameFromPath_def)
  have "contents \<noteq> []" using u by (auto simp: unparse_def bind_defs)
  moreover have "parseDerivation S contents (drvName drv) = Inr drv" using drv_parse_unparse [OF assms(1-3) u, of "[]"] by simp
  ultimately have "readInvalidDerivation S files p = Inr drv" using assms(5) n by (simp add: readInvalidDerivation_def)
  then show ?thesis using p by (simp add: refs)
qed

lemma fixed_expunged:
  assumes "readInvalidDerivation S files p = Inr f" "drvType S f = Inr ty" "isFixed ty"
    and "readInvalidDerivation S files q = Inr g" "drvType S g = Inr ty'" "isFixed ty'"
    and "outputs g = outputs f" "drvName g = drvName f"
    and "(p, node) \<in> set (inputDrvs drv)" "set ins' = insert (q, node) (set (inputDrvs drv) - {(p, node)})"
  shows "resolved (pathModulo (Suc n) S files) (inputDrvs drv) = resolved (pathModulo (Suc n) S files) ins'"
proof -
  have "pathModulo (Suc n) S files p = pathModulo (Suc n) S files q"
    using pathModulo_fixed [OF assms(1-3)] pathModulo_fixed [OF assms(4-6)] assms(7,8) by simp
  then have "(pathModulo (Suc n) S files p, node) = (pathModulo (Suc n) S files q, node)" by (simp only:)
  moreover have "set (inputDrvs drv) = insert (p, node) (set (inputDrvs drv) - {(p, node)})" using assms(9) by blast
  ultimately show ?thesis unfolding resolved_def assms(10)
    by (metis (no_types, lifting) fst_conv image_insert snd_conv)
qed

section \<open>Properties\<close>

text \<open>
  C13: The memo of hashes changes nothing: on an acyclic graph of inputs, and from a memo that holds right
  hashes, the hash of a derivation is the one computed without memo, the memo stays right, and
  the recursion ends.
\<close>
theorem modulo_memo:
  assumes "ranked S files depth" "validMemo S files depth memo" "\<forall>q \<in> fst ` set (inputDrvs drv). depth q < n"
  shows "validMemo S files depth (fst (hashDerivationModulo n S files memo drv b)) \<and>
    snd (hashDerivationModulo n S files memo drv b) = moduloOf (pathModulo n S files) S drv b \<and>
    snd (hashDerivationModulo n S files memo drv b) \<noteq> Inl OutOfFuel"
  by (rule hash_memo [OF assms(1,2)]) (use assms(3) in blast)

text \<open>
  C10: The details of fixed outputs do not show in the hash of what uses them: when an input of a derivation is replaced
  by another fixed-output derivation with the same name and outputs, fetched in another way, the hash of the
  derivation, from which its output paths are made, stays the same, whatever the two memos hold.
\<close>
theorem fixed_output_expunged:
  assumes "ranked S files depth" "validMemo S files depth memo" "validMemo S files depth memo'"
    and "\<forall>x \<in> insert q (fst ` set (inputDrvs drv)). depth x < n"
    and "readInvalidDerivation S files p = Inr f" "drvType S f = Inr ty" "isFixed ty"
    and "readInvalidDerivation S files q = Inr g" "drvType S g = Inr ty'" "isFixed ty'"
    and "outputs g = outputs f" "drvName g = drvName f"
    and "(p, node) \<in> set (inputDrvs drv)" "set ins' = insert (q, node) (set (inputDrvs drv) - {(p, node)})"
  shows "snd (hashDerivationModulo n S files memo drv b) = Inr (DrvHash h) \<longleftrightarrow>
    snd (hashDerivationModulo n S files memo' (drv\<lparr>inputDrvs := ins'\<rparr>) b) = Inr (DrvHash h)"
proof -
  obtain k where n: "n = Suc k" using assms(4) by (cases n) auto
  let ?drv' = "drv\<lparr>inputDrvs := ins'\<rparr>"
  have m: "snd (hashDerivationModulo n S files memo drv b) = moduloOf (pathModulo n S files) S drv b"
    using hash_memo [OF assms(1,2), of drv n] assms(4) by blast
  have "\<forall>x \<in> fst ` set (inputDrvs ?drv'). depth x < n" using assms(4,14) by auto
  then have m': "snd (hashDerivationModulo n S files memo' ?drv' b) = moduloOf (pathModulo n S files) S ?drv' b"
    using hash_memo [OF assms(1,3), of ?drv' n] by blast
  have r: "resolved (pathModulo n S files) (inputDrvs drv) = resolved (pathModulo n S files) ins'"
    unfolding n by (rule fixed_expunged [OF assms(5-14)])
  show ?thesis unfolding m m'
  proof
    assume "moduloOf (pathModulo n S files) S drv b = Inr (DrvHash h)"
    then show "moduloOf (pathModulo n S files) S ?drv' b = Inr (DrvHash h)" by (rule moduloOf_resolved [OF r])
  next
    assume *: "moduloOf (pathModulo n S files) S ?drv' b = Inr (DrvHash h)"
    have r': "resolved (pathModulo n S files) (inputDrvs ?drv') = resolved (pathModulo n S files) (inputDrvs drv)"
      using r by simp
    have "moduloOf (pathModulo n S files) S (?drv'\<lparr>inputDrvs := inputDrvs drv\<rparr>) b = Inr (DrvHash h)"
      by (rule moduloOf_resolved [OF r' *])
    then show "moduloOf (pathModulo n S files) S drv b = Inr (DrvHash h)" by simp
  qed
qed


text \<open>Two ways to fetch one file, and a derivation that uses it.\<close>

definition sampleFetch :: "bytes \<Rightarrow> bytes Derivation" where
  "sampleFetch url =
     \<lparr>outputs = [(''out'', CAFixed \<lparr>method = Flat, caHash = sampleHash\<rparr>)], inputSrcs = [], platform = ''b'',
      builder = ''builtin:fetchurl'', args = [], env = [(''url'', url)], structuredAttrs = None, drvName = ''s'', inputDrvs = []\<rparr>"

definition fetchPath :: "char \<Rightarrow> StorePath" where
  "fetchPath c = \<lparr>baseName = replicate 32 c @ ''-s.drv''\<rparr>"

definition sampleFiles :: "StorePath \<Rightarrow> bytes option" where
  "sampleFiles p =
     (if p = fetchPath CHR ''0'' then Some (projr (unparse sampleSetting (sampleFetch ''u'') False None))
      else if p = fetchPath CHR ''1'' then Some (projr (unparse sampleSetting (sampleFetch ''v'') False None))
      else None)"

definition sampleUser :: "bytes Derivation" where
  "sampleUser =
     \<lparr>outputs = [(''out'', Deferred)], inputSrcs = [], platform = ''x'', builder = ''/b'', args = [], env = [(''out'', [])],
      structuredAttrs = None, drvName = ''p'', inputDrvs = [(fetchPath CHR ''0'', ChildNode [''out''] [])]\<rparr>"

lemma fixedPath_flat:
  assumes "validName (outputPathName n i)" "hashSize h \<noteq> 0"
  shows "\<exists>p. fixedPath S \<lparr>method = Flat, caHash = h\<rparr> n i = Inr p"
proof -
  let ?t = "projr (Hash_Text.to_string h Base16 True)"
  obtain r where r: "hashString (digestOf S) (enabled S BLAKE3Hashes) SHA256 (''fixed:out:'' @ ?t @ '':'') = Inr r" "hashSize r = 32"
    using hashString_total by blast
  then obtain p where "makeStorePath (digestOf S) (enabled S BLAKE3Hashes) (storeDirectory S) ''output:out'' r (outputPathName n i) = Inr p"
    using makeStorePath_total [OF assms(1), of r] by fastforce
  then show ?thesis using r(1) assms(2)
    by (simp add: fixedPath_def makeFixedOutputPathFromCA_def withoutRefs_def makeFixedOutputPath_def referencesEmpty_def Hash_Text.to_string_def)
qed

lemma hashOf_total: "\<exists>h. hashOf S s = Inr h \<and> hashSize h = 32"
  using hashString_total [of "digestOf S" "enabled S BLAKE3Hashes" s] by (auto simp: hashOf_def)

lemma sample_fixedPath: "\<exists>p. fixedPath sampleSetting \<lparr>method = Flat, caHash = sampleHash\<rparr> ''s'' ''out'' = Inr p"
proof (rule fixedPath_flat)
  have "validName ''s''" by code_simp
  then show "validName (outputPathName ''s'' ''out'')" by (simp add: outputPathName_def)
qed (simp add: sampleHash_def)

lemma unparse_sampleFetch: "\<exists>s. unparse sampleSetting (sampleFetch u) False None = Inr s"
  using sample_fixedPath
  by (auto simp: unparse_def sampleFetch_def unparseOutput_def checkKeyNotInUse_def jsonVariable_def printMethodAlgo_def
      Hash_Text.to_string_def sampleHash_def)

lemma wf_sampleFetch: "wfDerivation sampleSetting (sampleFetch u)"
  by (simp add: wfDerivation_def sampleFetch_def wfEnv_def jsonVariable_def wfMethod_def wf_sampleHash sampleHash_allowed hasDynamicDrvDep_def)

lemma fetchPath_name: "nameFromPath (fetchPath c) = Inr ''s''"
  by (simp add: nameFromPath_def fetchPath_def requireDerivation_def isDerivation_def name_def HashLen_def drvExtension_def suffix_def)

lemma fetchPath_neq: "fetchPath CHR ''1'' \<noteq> fetchPath CHR ''0''"
  by (simp add: fetchPath_def)

lemma read_sampleFiles:
  "readInvalidDerivation sampleSetting sampleFiles (fetchPath CHR ''0'') = Inr (sampleFetch ''u'')"
  "readInvalidDerivation sampleSetting sampleFiles (fetchPath CHR ''1'') = Inr (sampleFetch ''v'')"
proof -
  have "projr (unparse sampleSetting (sampleFetch u) False None) \<noteq> [] \<and>
      parseDerivation sampleSetting (projr (unparse sampleSetting (sampleFetch u) False None)) ''s'' = Inr (sampleFetch u)" for u
  proof -
    obtain s where s: "unparse sampleSetting (sampleFetch u) False None = Inr s" using unparse_sampleFetch by blast
    have "s \<noteq> []" using s by (auto simp: unparse_def bind_defs)
    moreover have "drvName (sampleFetch u) = ''s''" by (simp add: sampleFetch_def)
    ultimately show ?thesis using drv_parse_unparse [OF wf_sampleSetting wf_sampleFetch s, of "[]"] s by simp
  qed
  then show "readInvalidDerivation sampleSetting sampleFiles (fetchPath CHR ''0'') = Inr (sampleFetch ''u'')"
    "readInvalidDerivation sampleSetting sampleFiles (fetchPath CHR ''1'') = Inr (sampleFetch ''v'')"
    by (simp_all add: readInvalidDerivation_def sampleFiles_def fetchPath_name fetchPath_neq)
qed

lemma ranked_sampleFiles: "ranked sampleSetting sampleFiles (\<lambda>_. 0)"
proof -
  have "inputDrvs drv = []" if "readInvalidDerivation sampleSetting sampleFiles p = Inr drv" for p drv
  proof -
    have "p = fetchPath CHR ''0'' \<or> p = fetchPath CHR ''1''"
      using that by (auto simp: readInvalidDerivation_def sampleFiles_def split: if_splits)
    then show ?thesis using that read_sampleFiles by (auto simp: sampleFetch_def)
  qed
  then show ?thesis by (simp add: ranked_def)
qed

lemma valid_empty: "validMemo S files depth (\<lambda>_. None)"
  by (simp add: validMemo_def)

lemma modulo_memo_witness:
  "validMemo sampleSetting sampleFiles (\<lambda>_. 0) (fst (hashDerivationModulo 1 sampleSetting sampleFiles (\<lambda>_. None) sampleUser True)) \<and>
    snd (hashDerivationModulo 1 sampleSetting sampleFiles (\<lambda>_. None) sampleUser True) =
      moduloOf (pathModulo 1 sampleSetting sampleFiles) sampleSetting sampleUser True \<and>
    snd (hashDerivationModulo 1 sampleSetting sampleFiles (\<lambda>_. None) sampleUser True) \<noteq> Inl OutOfFuel"
  by (rule modulo_memo [OF ranked_sampleFiles valid_empty]) simp

lemma fetch_type: "drvType sampleSetting (sampleFetch u) = Inr (ContentAddressedType False True)"
  by (simp add: drvType_def sampleFetch_def decide_def)

lemma sampleUser_hash:
  "\<exists>h. snd (hashDerivationModulo 1 sampleSetting sampleFiles (\<lambda>_. None) sampleUser True) = Inr (DrvHash h)"
proof -
  obtain p where p: "fixedPath sampleSetting \<lparr>method = Flat, caHash = sampleHash\<rparr> ''s'' ''out'' = Inr p"
    using sample_fixedPath by blast
  let ?t = "''fixed:out:'' @ printHashAlgo MD5 @ '':'' @ base16_encode (hashBytes sampleHash) @ '':'' @ printStorePath ''/s'' p"
  obtain h where h: "hashOf sampleSetting ?t = Inr h" "hashSize h = 32" using hashOf_total by blast
  then have "fixedOutputHashes sampleSetting ''s'' (outputs (sampleFetch ''u'')) = Inr (CaOutputHashes [(''out'', h)])"
    using p by (simp add: fixedOutputHashes_def fixedOutputHash_def sampleFetch_def printMethodAlgo_def Hash_Text.to_string_def
        sampleHash_def sampleSetting_def)
  then have look: "pathModulo 1 sampleSetting sampleFiles (fetchPath CHR ''0'') = Inr (CaOutputHashes [(''out'', h)])"
    using pathModulo_fixed [OF read_sampleFiles(1) fetch_type, of 0] by (simp add: sampleFetch_def)
  obtain t where t: "base16Of h = Inr t" using h(2) by (simp add: base16Of_def Hash_Text.to_string_def)
  have m: "snd (replaceInputs (noMemo (pathModulo 1 sampleSetting sampleFiles)) (drvName sampleUser) (\<lambda>_. None) (inputDrvs sampleUser) []) =
      Inr (Some (addInput t [''out''] []))"
    using look t by (simp add: sampleUser_def noMemo_def del: pathModulo.simps)
  have type: "drvType sampleSetting sampleUser = Inr (InputAddressedType True)"
    by (simp add: drvType_def sampleUser_def decide_def)
  obtain s where s: "unparse sampleSetting sampleUser True (Some (addInput t [''out''] [])) = Inr s"
    by (auto simp: unparse_def sampleUser_def unparseOutput_def checkKeyNotInUse_def jsonVariable_def)
  obtain r where r: "hashOf sampleSetting s = Inr r" using hashOf_total by blast
  have "moduloOf (pathModulo 1 sampleSetting sampleFiles) sampleSetting sampleUser True = Inr (DrvHash r)"
    unfolding moduloOf_DrvHash using type m s r by fastforce
  then show ?thesis using hash_memo [OF ranked_sampleFiles valid_empty, of sampleUser 1 True] by auto
qed

lemma fixed_output_expunged_witness:
  "\<exists>h. snd (hashDerivationModulo 1 sampleSetting sampleFiles (\<lambda>_. None) sampleUser True) = Inr (DrvHash h) \<and>
    snd (hashDerivationModulo 1 sampleSetting sampleFiles (\<lambda>_. None)
      (sampleUser\<lparr>inputDrvs := [(fetchPath CHR ''1'', ChildNode [''out''] [])]\<rparr>) True) = Inr (DrvHash h)"
proof -
  obtain h where h: "snd (hashDerivationModulo 1 sampleSetting sampleFiles (\<lambda>_. None) sampleUser True) = Inr (DrvHash h)"
    using sampleUser_hash by blast
  have same: "outputs (sampleFetch ''v'') = outputs (sampleFetch ''u'')" "drvName (sampleFetch ''v'') = drvName (sampleFetch ''u'')"
    by (simp_all add: sampleFetch_def)
  have f: "isFixed (ContentAddressedType False True)" by simp
  have e: "\<forall>x \<in> insert (fetchPath CHR ''1'') (fst ` set (inputDrvs sampleUser)). (\<lambda>_. 0) x < (1 :: nat)" by simp
  show ?thesis
    using fixed_output_expunged [OF ranked_sampleFiles valid_empty valid_empty e read_sampleFiles(1) fetch_type f read_sampleFiles(2) fetch_type f same,
      of "ChildNode [''out''] []" "[(fetchPath CHR ''1'', ChildNode [''out''] [])]" True h] h
    by (simp add: sampleUser_def)
qed

lemma sampleDrv_info: "\<exists>i. infoForDerivation sampleSetting sampleDrv = Inr i"
proof -
  obtain s where s: "unparse sampleSetting sampleDrv False None = Inr s"
    by (auto simp: unparse_def sampleDrv_def unparseOutput_def checkKeyNotInUse_def jsonVariable_def)
  obtain h where h: "hashString (digestOf sampleSetting) (enabled sampleSetting BLAKE3Hashes) SHA256 s = Inr h" "algo h = SHA256" "hashSize h = 32"
    using hashString_total by blast
  have n: "validName (drvName sampleDrv @ drvExtension)" by code_simp
  obtain p where "makeStorePath (digestOf sampleSetting) (enabled sampleSetting BLAKE3Hashes) (storeDirectory sampleSetting)
      (makeType (storeDirectory sampleSetting) ''text''
        \<lparr>others = set_union (inputSrcs sampleDrv) (map fst (inputDrvs sampleDrv)), self = False\<rparr>) h (drvName sampleDrv @ drvExtension) = Inr p"
    using makeStorePath_total [OF n, of h] h by fastforce
  then show ?thesis using s h
    by (simp add: infoForDerivation_def Let_def hashOf_def makeFixedOutputPathFromCA_def)
qed


end
