(* ===== verification/Drv_Outputs.thy ===== *)
theory Drv_Outputs
  imports Drv_Modulo
begin

text \<open>
  The outputs of derivations (\<^verbatim>\<open>src/libstore/derivations.cc\<close>): which combinations of outputs have a type, and the
  computation and check of output paths with the variables that hold them. The template
  \<^verbatim>\<open>processDerivationOutputPaths<fillIn>\<close> is one function with \<open>fillIn\<close> as an argument; warnings leave no
  trace. The function \<open>hm\<close> is \<^verbatim>\<open>hashDerivationModulo(store, drv, true)\<close>.
\<close>

section \<open>Computing and checking output paths\<close>

definition envHasRightPath :: "bool \<Rightarrow> 'j Setting \<Rightarrow> bytes \<Rightarrow> StorePath \<Rightarrow> bool \<Rightarrow> 'j Derivation \<Rightarrow> DrvError + 'j Derivation" where
  "envHasRightPath fillIn S outputName actual isDeferred drv =
     (let right = printStorePath (storeDirectory S) actual;
          drv1 = (if fillIn \<and> (map_of (env drv) outputName = None \<or> map_of (env drv) outputName = Some [])
                  then drv\<lparr>env := insert_or_assign outputName right (env drv)\<rparr> else drv) in
      case map_of (env drv1) outputName of
        None \<Rightarrow> Inl (MissingVariable outputName)
      | Some v \<Rightarrow> if v \<noteq> right \<and> \<not> isDeferred then Inl (WrongVariable outputName) else Inr drv1)"

definition outputPathFor :: "'j Setting \<Rightarrow> bytes \<Rightarrow> Hash \<Rightarrow> bytes \<Rightarrow> DrvError + StorePath" where
  "outputPathFor S outputName h n =
     inStore (makeOutputPath (digestOf S) (enabled S BLAKE3Hashes) (storeDirectory S) outputName h n)"

fun hashStep :: "bool \<Rightarrow> 'j Setting \<Rightarrow> bytes \<Rightarrow> DerivationOutput \<Rightarrow> DrvHashModulo \<Rightarrow> 'j Derivation \<Rightarrow> DrvError + 'j Derivation" where
  "hashStep fillIn S i (InputAddressed p) (DrvHash h) drv =
     ebind (outputPathFor S i h (drvName drv)) (\<lambda>outPath.
       if p = outPath then envHasRightPath fillIn S i outPath False drv else Inl (WrongOutputPath p outPath))"
| "hashStep fillIn S i Deferred (DrvHash h) drv =
     ebind (outputPathFor S i h (drvName drv)) (\<lambda>outPath.
       if fillIn then
         envHasRightPath fillIn S i outPath False (drv\<lparr>outputs := insert_or_assign i (InputAddressed outPath) (outputs drv)\<rparr>)
       else Inr drv)"
| "hashStep fillIn S i _ (CaOutputHashes _) drv = Inl AssertFailed"
| "hashStep fillIn S i (InputAddressed p) DeferredDrv drv = Inl (ShouldBeDeferred p)"
| "hashStep fillIn S i Deferred DeferredDrv drv = Inr drv"
| "hashStep fillIn S i _ _ drv = Inl AssertFailed"

text \<open>One output; the hash is computed when it is first needed and kept.\<close>

definition outputStep :: "bool \<Rightarrow> 'j Setting \<Rightarrow> ('j Derivation \<Rightarrow> DrvError + DrvHashModulo) \<Rightarrow>
    'j Derivation \<times> DrvHashModulo option \<Rightarrow> bytes \<times> DerivationOutput \<Rightarrow> DrvError + 'j Derivation \<times> DrvHashModulo option" where
  "outputStep fillIn S hm st e =
     (let (drv, cached) = st; (i, out) = e;
          hashed = ebind (case cached of Some h \<Rightarrow> Inr h | None \<Rightarrow> hm drv) (\<lambda>h.
            ebind (hashStep fillIn S i out h drv) (\<lambda>drv'. Inr (drv', Some h))) in
      case out of
        InputAddressed _ \<Rightarrow> hashed
      | Deferred \<Rightarrow> hashed
      | CAFixed ca \<Rightarrow>
          ebind (fixedPath S ca (drvName drv) i) (\<lambda>p.
            ebind (envHasRightPath fillIn S i p False drv) (\<lambda>drv'. Inr (drv', cached)))
      | _ \<Rightarrow> Inr (drv, cached))"

definition processDerivationOutputPaths :: "bool \<Rightarrow> 'j Setting \<Rightarrow> ('j Derivation \<Rightarrow> DrvError + DrvHashModulo) \<Rightarrow>
    'j Derivation \<Rightarrow> DrvError + 'j Derivation" where
  "processDerivationOutputPaths fillIn S hm drv =
     (if builder drv = ''builtin:substitute'' then
        if platform drv \<noteq> ''builtin'' then Inl SubstituteNotBuiltin
        else if args drv \<noteq> [] then Inl SubstituteArguments
        else if env drv \<noteq> [] then Inl SubstituteVariables
        else if inputSrcs drv \<noteq> [] then Inl SubstituteInputs
        else ebind (drvType S drv) (\<lambda>_. Inr drv)
      else
        ebind (foldE (outputStep fillIn S hm) (drv, None) (outputs drv)) (\<lambda>(drv', _).
          ebind (drvType S drv') (\<lambda>_. Inr drv')))"

definition checkInvariants :: "'j Setting \<Rightarrow> ('j Derivation \<Rightarrow> DrvError + DrvHashModulo) \<Rightarrow> 'j Derivation \<Rightarrow> DrvError + unit" where
  "checkInvariants S hm drv = ebind (processDerivationOutputPaths False S hm drv) (\<lambda>_. Inr ())"

definition checkInvariantsAt :: "'j Setting \<Rightarrow> ('j Derivation \<Rightarrow> DrvError + DrvHashModulo) \<Rightarrow> 'j Derivation \<Rightarrow> StorePath \<Rightarrow> DrvError + unit" where
  "checkInvariantsAt S hm drv drvPath =
     ebind (inStore (lift InPath (Store_Path.isDerivation drvPath))) (\<lambda>isDrv.
       if \<not> isDrv then Inl AssertFailed
       else ebind (inStore (lift InPath (name drvPath))) (\<lambda>n.
         if take (length n - length drvExtension) n \<noteq> drvName drv then Inl NameMismatch
         else checkInvariants S hm drv))"

definition fillInOutputPaths :: "'j Setting \<Rightarrow> ('j Derivation \<Rightarrow> DrvError + DrvHashModulo) \<Rightarrow> 'j Derivation \<Rightarrow> DrvError + 'j Derivation" where
  "fillInOutputPaths S hm drv = processDerivationOutputPaths True S hm drv"

text \<open>\<^verbatim>\<open>parseJsonAndValidate\<close> after the JSON was read.\<close>

definition fillAndValidate :: "'j Setting \<Rightarrow> ('j Derivation \<Rightarrow> DrvError + DrvHashModulo) \<Rightarrow> 'j Derivation \<Rightarrow> DrvError + 'j Derivation" where
  "fillAndValidate S hm drv =
     ebind (fillInOutputPaths S hm drv) (\<lambda>drv'. ebind (checkInvariants S hm drv') (\<lambda>_. Inr drv'))"

section \<open>The type of a derivation\<close>

fun kindOf :: "DerivationOutput \<Rightarrow> DerivationType" where
  "kindOf (InputAddressed _) = InputAddressedType False"
| "kindOf (CAFixed _) = ContentAddressedType False True"
| "kindOf (CAFloating _ _) = ContentAddressedType True False"
| "kindOf Deferred = InputAddressedType True"
| "kindOf (Impure _ _) = ImpureType"

fun floatingAlgo :: "DerivationOutput \<Rightarrow> HashAlgorithm option" where
  "floatingAlgo (CAFloating _ a) = Some a"
| "floatingAlgo _ = None"

text \<open>The outputs that may stand together.\<close>

definition uniform :: "DerivationType \<Rightarrow> (bytes \<times> DerivationOutput) list \<Rightarrow> bool" where
  "uniform ty outs \<longleftrightarrow>
     outs \<noteq> [] \<and> (\<forall>e\<in>set outs. kindOf (snd e) = ty) \<and>
     (ty = ContentAddressedType False True \<longrightarrow> map fst outs = [''out'']) \<and>
     (\<forall>e\<in>set outs. \<forall>e'\<in>set outs. floatingAlgo (snd e) = floatingAlgo (snd e'))"

lemma decide_iff:
  "decide ty k = Inr t \<longleftrightarrow> t = Some k \<and> (ty = None \<or> ty = Some k \<and> k \<noteq> ContentAddressedType False True)"
  by (cases ty) (auto simp: decide_def)

lemma typeStep_iff:
  "typeStep (ty, fl) (i, out) = Inr (ty', fl') \<longleftrightarrow>
    ty' = Some (kindOf out) \<and> (ty = None \<or> ty = Some (kindOf out) \<and> kindOf out \<noteq> ContentAddressedType False True) \<and>
    (kindOf out = ContentAddressedType False True \<longrightarrow> i = ''out'') \<and>
    (case floatingAlgo out of None \<Rightarrow> fl' = fl | Some a \<Rightarrow> fl' = Some a \<and> (fl = None \<or> fl = Some a))"
proof (cases out)
  case (CAFloating m a)
  have "ebind (decide ty (ContentAddressedType True False)) (\<lambda>t. case fl of
      None \<Rightarrow> Inr (t, Some a) | Some b \<Rightarrow> if b \<noteq> a then Inl MixedFloatingAlgorithms else Inr (t, fl)) = Inr (ty', fl') \<longleftrightarrow>
    decide ty (ContentAddressedType True False) = Inr ty' \<and> fl' = Some a \<and> (fl = None \<or> fl = Some a)"
    by (cases "decide ty (ContentAddressedType True False)"; cases fl) auto
  then show ?thesis by (simp add: CAFloating decide_iff)
next
  case (CAFixed ca)
  have "ebind (decide ty (ContentAddressedType False True)) (\<lambda>t. if i \<noteq> ''out'' then Inl FixedOutputName else Inr (t, fl)) = Inr (ty', fl') \<longleftrightarrow>
    decide ty (ContentAddressedType False True) = Inr ty' \<and> i = ''out'' \<and> fl' = fl"
    by (cases "decide ty (ContentAddressedType False True)") auto
  then show ?thesis by (simp add: CAFixed decide_iff)
qed (cases "decide ty (kindOf out)"; use decide_iff [of ty "kindOf out" ty'] in simp; blast)+

declare typeStep.simps [simp del]

lemma foldE_typeStep:
  assumes "foldE typeStep (Some ty, fl) outs = Inr (ty', fl')" "fl \<noteq> None \<longleftrightarrow> ty = ContentAddressedType True False"
  shows "ty' = Some ty \<and> (\<forall>e\<in>set outs. kindOf (snd e) = ty \<and> floatingAlgo (snd e) = fl) \<and>
    (ty = ContentAddressedType False True \<longrightarrow> outs = [])"
  using assms
proof (induction outs arbitrary: fl)
  case (Cons e outs)
  obtain i out where e: "e = (i, out)" by force
  obtain t f where step: "typeStep (Some ty, fl) (i, out) = Inr (t, f)" "foldE typeStep (t, f) outs = Inr (ty', fl')"
    using Cons.prems(1) by (auto simp: bind_defs e)
  then have k: "t = Some ty" "kindOf out = ty" "ty \<noteq> ContentAddressedType False True" by (auto simp: typeStep_iff)
  have f: "f = fl" "floatingAlgo out = fl"
    using step(1) [unfolded typeStep_iff] Cons.prems(2) k(2) by (cases out; cases fl; simp; blast)+
  show ?case using Cons.IH [of fl] step(2) Cons.prems(2) k f by (auto simp: e)
qed simp

lemma foldE_typeStep_complete:
  assumes "\<forall>e\<in>set outs. kindOf (snd e) = ty \<and> floatingAlgo (snd e) = fl" "ty \<noteq> ContentAddressedType False True"
  shows "foldE typeStep (Some ty, fl) outs = Inr (Some ty, fl)"
  using assms(1)
proof (induction outs)
  case (Cons e outs)
  obtain i out where e: "e = (i, out)" by force
  have "typeStep (Some ty, fl) (i, out) = Inr (Some ty, fl)"
    unfolding typeStep_iff using Cons.prems assms(2) by (auto simp: e split: option.split)
  then show ?case using Cons by (simp add: e)
qed simp

lemma foldE_uniform: "(\<exists>fl. foldE typeStep (None, None) outs = Inr (Some ty, fl)) \<longleftrightarrow> uniform ty outs"
proof (cases outs)
  case (Cons e es)
  obtain i out where e: "e = (i, out)" by force
  have float: "floatingAlgo out \<noteq> None \<longleftrightarrow> kindOf out = ContentAddressedType True False" by (cases out) auto
  have step: "typeStep (None, None) (i, out) = Inr (t, f) \<longleftrightarrow>
      t = Some (kindOf out) \<and> (kindOf out = ContentAddressedType False True \<longrightarrow> i = ''out'') \<and> f = floatingAlgo out" for t f
    by (auto simp: typeStep_iff split: option.split)
  show ?thesis
  proof
    assume "\<exists>fl. foldE typeStep (None, None) outs = Inr (Some ty, fl)"
    then obtain fl where fl: "kindOf out = ContentAddressedType False True \<longrightarrow> i = ''out''"
      "foldE typeStep (Some (kindOf out), floatingAlgo out) es = Inr (Some ty, fl)"
      using step by (auto simp: Cons e bind_defs)
    from foldE_typeStep [OF fl(2) float] fl(1) show "uniform ty outs"
      by (auto simp: uniform_def Cons e)
  next
    assume u: "uniform ty outs"
    have "(i, out) \<in> set outs" by (simp add: Cons e)
    moreover have "\<forall>x\<in>set outs. kindOf (snd x) = ty" "\<forall>x\<in>set outs. \<forall>y\<in>set outs. floatingAlgo (snd x) = floatingAlgo (snd y)"
      using u unfolding uniform_def by blast+
    ultimately have "kindOf (snd (i, out)) = ty" "\<forall>x\<in>set outs. kindOf (snd x) = ty \<and> floatingAlgo (snd x) = floatingAlgo (snd (i, out))"
      by blast+
    then have k: "kindOf out = ty" "\<forall>e\<in>set es. kindOf (snd e) = ty \<and> floatingAlgo (snd e) = floatingAlgo out"
      by (simp_all add: Cons)
    have "kindOf out = ContentAddressedType False True \<longrightarrow> i = ''out''" using u k(1) unfolding uniform_def by (simp add: Cons e)
    then have first: "typeStep (None, None) (i, out) = Inr (Some ty, floatingAlgo out)"
      using k(1) unfolding step by simp
    show "\<exists>fl. foldE typeStep (None, None) outs = Inr (Some ty, fl)"
    proof (cases "ty = ContentAddressedType False True")
      case True
      then have "es = []" using u by (auto simp: uniform_def Cons)
      then show ?thesis using first by (simp add: Cons e)
    next
      case False
      then show ?thesis using first foldE_typeStep_complete [OF k(2) False] by (auto simp: Cons e)
    qed
  qed
qed (auto simp: uniform_def)

lemma foldE_some: "foldE typeStep (None, None) outs = Inr (ty, fl) \<Longrightarrow> outs \<noteq> [] \<Longrightarrow> ty \<noteq> None"
proof (cases outs)
  case (Cons e es)
  assume *: "foldE typeStep (None, None) outs = Inr (ty, fl)"
  obtain i out where e: "e = (i, out)" by force
  have float: "floatingAlgo out \<noteq> None \<longleftrightarrow> kindOf out = ContentAddressedType True False" by (cases out) auto
  obtain t f where "typeStep (None, None) (i, out) = Inr (t, f)" "foldE typeStep (t, f) es = Inr (ty, fl)"
    using * by (auto simp: Cons e bind_defs)
  then have "foldE typeStep (Some (kindOf out), floatingAlgo out) es = Inr (ty, fl)"
    by (auto simp: typeStep_iff split: option.splits)
  from foldE_typeStep [OF this float] show ?thesis by simp
qed simp

lemma drvType_uniform:
  assumes "builder drv \<noteq> ''builtin:substitute''"
  shows "drvType S drv = Inr ty \<longleftrightarrow> uniform ty (outputs drv)"
proof -
  have "drvType S drv = Inr ty \<longleftrightarrow> (\<exists>fl. foldE typeStep (None, None) (outputs drv) = Inr (Some ty, fl))"
    using assms by (auto simp: drvType_def bind_defs split: option.splits)
  then show ?thesis by (simp add: foldE_uniform)
qed

text \<open>
  C39: A derivation has a type exactly when it has outputs and all are of one kind; a fixed output stands alone
  and is called \<^verbatim>\<open>out\<close>, floating outputs share their hash algorithm, and the builtin that
  substitutes takes only outputs with known paths.
\<close>
theorem drv_type:
  "drvType S drv = Inr ty \<longleftrightarrow>
    (if builder drv = ''builtin:substitute'' then ty = SubstitutedType \<and> enabled S BakedDerivations \<and> uniform (InputAddressedType False) (outputs drv)
     else uniform ty (outputs drv))"
proof (cases "builder drv = ''builtin:substitute''")
  case True
  have "drvType S drv = Inr ty \<longleftrightarrow> ty = SubstitutedType \<and> enabled S BakedDerivations \<and>
      (\<exists>fl. foldE typeStep (None, None) (outputs drv) = Inr (Some (InputAddressedType False), fl))"
    using True by (auto simp: drvType_def bind_defs split: option.splits if_splits)
  then show ?thesis using True by (simp add: foldE_uniform)
qed (simp add: drvType_uniform)

section \<open>What the masked hash sees\<close>

definition masks :: "DerivationOutput \<Rightarrow> bool" where
  "masks out \<longleftrightarrow> kindOf out = InputAddressedType False \<or> kindOf out = InputAddressedType True"

text \<open>Two derivations that differ only in what masking hides: the paths of outputs and the variables named like outputs.\<close>

definition maskEq :: "'j Derivation \<Rightarrow> 'j Derivation \<Rightarrow> bool" where
  "maskEq d d' \<longleftrightarrow>
     inputSrcs d' = inputSrcs d \<and> platform d' = platform d \<and> builder d' = builder d \<and> args d' = args d \<and>
     structuredAttrs d' = structuredAttrs d \<and> drvName d' = drvName d \<and> inputDrvs d' = inputDrvs d \<and>
     ordered_map (outputs d) \<and> ordered_map (outputs d') \<and> map fst (outputs d') = map fst (outputs d) \<and>
     (\<forall>i out out'. map_of (outputs d) i = Some out \<longrightarrow> map_of (outputs d') i = Some out' \<longrightarrow> out' = out \<or> masks out \<and> masks out') \<and>
     ordered_map (env d) \<and> ordered_map (env d') \<and> map fst (env d') = map fst (env d) \<and>
     (\<forall>k. map_of (outputs d) k = None \<longrightarrow> map_of (env d') k = map_of (env d) k)"

lemma ordered_map_keys: "ordered_map m \<Longrightarrow> m = map (\<lambda>k. (k, the (map_of m k))) (map fst m)"
proof -
  assume "ordered_map m"
  then have "map_of m (fst e) = Some (snd e)" if "e \<in> set m" for e
    using that map_of_eq_Some_iff [OF ordered_map_distinct] by (metis prod.collapse)
  then have "map (\<lambda>k. (k, the (map_of m k))) (map fst m) = m" unfolding map_map comp_def by (intro map_idI) auto
  then show ?thesis by simp
qed

lemma map_keys_cong:
  assumes "ordered_map m" "ordered_map m'" "map fst m' = map fst m" "\<And>k v v'. map_of m k = Some v \<Longrightarrow> map_of m' k = Some v' \<Longrightarrow> f (k, v) = f' (k, v')"
  shows "map f m = map f' m'"
proof -
  have "f (k, the (map_of m k)) = f' (k, the (map_of m' k))" if "k \<in> set (map fst m)" for k
  proof -
    have "k \<in> set (map fst m')" using that assms(3) by simp
    then have "map_of m k \<noteq> None" "map_of m' k \<noteq> None" using that by (auto simp: map_of_eq_None_iff)
    then show ?thesis using assms(4) [of k] by auto
  qed
  then have "map (\<lambda>k. f (k, the (map_of m k))) (map fst m) = map (\<lambda>k. f' (k, the (map_of m' k))) (map fst m)" by simp
  moreover have "map f m = map (\<lambda>k. f (k, the (map_of m k))) (map fst m)"
    by (subst ordered_map_keys [OF assms(1)]) simp
  moreover have "map f' m' = map (\<lambda>k. f' (k, the (map_of m' k))) (map fst m')"
    by (subst ordered_map_keys [OF assms(2)]) simp
  ultimately show ?thesis using assms(3) by simp
qed

lemma mapE_same: "mapE f xs = mapE f' ys" if "map f xs = map f' ys"
  using that
proof (induction xs arbitrary: ys)
  case (Cons x xs)
  then show ?case by (cases ys) auto
qed simp

lemma masked_parts: "masks out \<Longrightarrow> outputParts S True n i out = Inr ([], [], [])"
  by (cases out) (auto simp: masks_def)

lemma unparse_masked:
  assumes "maskEq d d'"
  shows "unparse S d' True m = unparse S d True m"
proof -
  note eq = assms [unfolded maskEq_def]
  have outs: "map (unparseOutput S True (drvName d)) (outputs d) = map (unparseOutput S True (drvName d')) (outputs d')"
  proof (rule map_keys_cong)
    fix k v v'
    assume "map_of (outputs d) k = Some v" "map_of (outputs d') k = Some v'"
    then have "v' = v \<or> masks v \<and> masks v'" using eq by blast
    then show "unparseOutput S True (drvName d) (k, v) = unparseOutput S True (drvName d') (k, v')"
      using eq by (auto simp: unparseOutput_def masked_parts)
  qed (use eq in blast)+
  have out_keys: "map_of (outputs d') k = None \<longleftrightarrow> map_of (outputs d) k = None" for k
    using eq by (metis map_of_eq_None_iff list.set_map)
  have env_keys: "map_of (env d') k = None \<longleftrightarrow> map_of (env d) k = None" for k
    using eq by (metis map_of_eq_None_iff list.set_map)
  have aterm: "ordered_map (atermEnv S d)" "ordered_map (atermEnv S d')"
    using eq by (auto simp: atermEnv_def split: option.split)
  have look: "map_of (atermEnv S x) k = (if k = jsonVariable \<and> map_of (env x) k = None then map_option (jsonDump S) (structuredAttrs x) else map_of (env x) k)"
    if "ordered_map (env x)" for x :: "'a Derivation" and k
    using that by (auto simp: atermEnv_def map_of_emplace split: option.split)
  have keys: "map fst (atermEnv S d') = map fst (atermEnv S d)"
  proof (rule strict_sorted_set_eq)
    have "map_of (atermEnv S d') k = None \<longleftrightarrow> map_of (atermEnv S d) k = None" for k
      using look [of d k] look [of d' k] eq env_keys [of k] by auto
    then show "set (map fst (atermEnv S d')) = set (map fst (atermEnv S d))"
      by (auto simp: map_of_eq_None_iff)
  qed (use aterm in auto)
  have env: "map (unparseVariable d True) (atermEnv S d) = map (unparseVariable d' True) (atermEnv S d')"
  proof (rule map_keys_cong [OF aterm keys])
    fix k v v'
    assume kv: "map_of (atermEnv S d) k = Some v" "map_of (atermEnv S d') k = Some v'"
    show "unparseVariable d True (k, v) = unparseVariable d' True (k, v')"
    proof (cases "map_of (outputs d) k = None")
      case True
      then have "map_of (env d') k = map_of (env d) k" using eq by blast
      moreover have "structuredAttrs d' = structuredAttrs d" "ordered_map (env d)" "ordered_map (env d')" using eq by blast+
      ultimately have "map_of (atermEnv S d') k = map_of (atermEnv S d) k" by (simp only: look)
      then have "v = v'" using kv by simp
      then show ?thesis using True out_keys [of k] by (simp add: unparseVariable_def)
    next
      case False
      then show ?thesis using out_keys [of k] by (simp add: unparseVariable_def)
    qed
  qed
  have check: "checkKeyNotInUse (env d') = checkKeyNotInUse (env d)" using env_keys by (simp add: checkKeyNotInUse_def)
  have dyn: "hasDynamicDrvDep d' = hasDynamicDrvDep d" using eq by (simp add: hasDynamicDrvDep_def)
  have same: "inputSrcs d' = inputSrcs d" "platform d' = platform d" "builder d' = builder d" "args d' = args d"
    "drvName d' = drvName d" "inputDrvs d' = inputDrvs d" using eq by blast+
  have "mapE (unparseOutput S True (drvName d)) (outputs d') = mapE (unparseOutput S True (drvName d)) (outputs d)"
    using mapE_same [OF outs] same by simp
  then show ?thesis unfolding unparse_def by (simp only: same check dyn env [symmetric])
qed

lemma masked_modulo:
  assumes "maskEq d d'" "drvType S d = Inr (InputAddressedType a)" "drvType S d' = Inr (InputAddressedType b)"
  shows "moduloOf look S d' True = moduloOf look S d True"
proof -
  have "drvName d' = drvName d" "inputDrvs d' = inputDrvs d" using assms(1) by (auto simp: maskEq_def)
  then show ?thesis using assms(2,3) unparse_masked [OF assms(1)]
    by (simp add: moduloOf_def hashModuloWith_def cong: sum.case_cong option.case_cong)
qed

section \<open>Filling in\<close>

lemma insert_or_assign_same: "ordered_map m \<Longrightarrow> map_of m k = Some v \<Longrightarrow> insert_or_assign k v m = m"
  by (rule ordered_map_ext) (auto simp: map_of_insert_or_assign)

lemma fill_variable:
  assumes "ordered_map (env d)"
  shows "envHasRightPath True S i p False d = Inr d' \<longleftrightarrow>
    d' = d\<lparr>env := insert_or_assign i (printStorePath (storeDirectory S) p) (env d)\<rparr> \<and>
    (map_of (env d) i = None \<or> map_of (env d) i = Some [] \<or> map_of (env d) i = Some (printStorePath (storeDirectory S) p))"
proof -
  let ?r = "printStorePath (storeDirectory S) p"
  have "map_of (insert_or_assign i ?r (env d)) i = Some ?r" using assms by (simp add: map_of_insert_or_assign)
  moreover have "d\<lparr>env := insert_or_assign i ?r (env d)\<rparr> = d" if "map_of (env d) i = Some ?r"
    using insert_or_assign_same [OF assms that] by simp
  ultimately show ?thesis by (auto simp: envHasRightPath_def Let_def split: option.splits)
qed

lemma check_variable:
  "envHasRightPath False S i p False d = Inr d' \<longleftrightarrow> d' = d \<and> map_of (env d) i = Some (printStorePath (storeDirectory S) p)"
  by (auto simp: envHasRightPath_def split: option.splits)

text \<open>An output that the checking step accepts.\<close>

definition settled :: "'j Setting \<Rightarrow> DrvHashModulo option \<Rightarrow> 'j Derivation \<Rightarrow> bytes \<Rightarrow> bool" where
  "settled S h d i \<longleftrightarrow>
     (case map_of (outputs d) i of
        Some (InputAddressed p) \<Rightarrow>
          (\<exists>x. h = Some (DrvHash x) \<and> outputPathFor S i x (drvName d) = Inr p) \<and> map_of (env d) i = Some (printStorePath (storeDirectory S) p)
      | Some Deferred \<Rightarrow> h = Some DeferredDrv
      | Some (CAFixed ca) \<Rightarrow> (\<exists>p. fixedPath S ca (drvName d) i = Inr p \<and> map_of (env d) i = Some (printStorePath (storeDirectory S) p))
      | Some _ \<Rightarrow> True
      | None \<Rightarrow> False)"

text \<open>What a filling step may change: the variable and the output of its name.\<close>

definition fills :: "bytes set \<Rightarrow> 'j Derivation \<Rightarrow> 'j Derivation \<Rightarrow> bool" where
  "fills A d d' \<longleftrightarrow>
     inputSrcs d' = inputSrcs d \<and> platform d' = platform d \<and> builder d' = builder d \<and> args d' = args d \<and>
     structuredAttrs d' = structuredAttrs d \<and> drvName d' = drvName d \<and> inputDrvs d' = inputDrvs d \<and>
     (ordered_map (outputs d) \<longrightarrow> ordered_map (outputs d')) \<and> fst ` set (outputs d') = fst ` set (outputs d) \<and>
     (ordered_map (env d) \<longrightarrow> ordered_map (env d')) \<and>
     (\<forall>k. map_of (env d) k \<noteq> None \<longrightarrow> map_of (env d') k \<noteq> None) \<and>
     (\<forall>i. i \<notin> A \<longrightarrow> map_of (outputs d') i = map_of (outputs d) i \<and> map_of (env d') i = map_of (env d) i) \<and>
     (\<forall>i out. map_of (outputs d) i = Some out \<longrightarrow>
        map_of (outputs d') i = Some out \<or> out = Deferred \<and> (\<exists>p. map_of (outputs d') i = Some (InputAddressed p)))"

lemma fills_refl [simp]: "fills A d d"
  by (simp add: fills_def)

lemma fills_trans:
  assumes "fills A d d'" "fills B d' d''"
  shows "fills (A \<union> B) d d''"
proof -
  have "map_of (outputs d'') i = Some out \<or> out = Deferred \<and> (\<exists>p. map_of (outputs d'') i = Some (InputAddressed p))"
    if "map_of (outputs d) i = Some out" for i out
  proof -
    from assms(1) that have "map_of (outputs d') i = Some out \<or> out = Deferred \<and> (\<exists>p. map_of (outputs d') i = Some (InputAddressed p))"
      unfolding fills_def by blast
    then show ?thesis using assms(2) unfolding fills_def by (metis DerivationOutput.distinct(5))
  qed
  then show ?thesis using assms unfolding fills_def by simp
qed

lemma fills_variable: "ordered_map (env d) \<Longrightarrow> fills {i} d (d\<lparr>env := insert_or_assign i v (env d)\<rparr>)"
  by (simp add: fills_def map_of_insert_or_assign)

lemma fill_step:
  assumes "ordered_map (outputs d)" "ordered_map (env d)" "map_of (outputs d) i = Some out"
    and "outputStep True S hm (d, c) (i, out) = Inr (d', c')"
  shows "fills {i} d d' \<and> settled S c' d' i \<and>
    (if masks out then c' \<noteq> None \<and> (c = None \<longrightarrow> hm d = Inr (the c')) \<and> (c \<noteq> None \<longrightarrow> c' = c) else c' = c)"
proof (cases out)
  case (CAFixed ca)
  obtain p where p: "fixedPath S ca (drvName d) i = Inr p" "envHasRightPath True S i p False d = Inr d'" "c' = c"
    using assms(4) by (auto simp: CAFixed outputStep_def bind_defs)
  then have d': "d' = d\<lparr>env := insert_or_assign i (printStorePath (storeDirectory S) p) (env d)\<rparr>"
    using fill_variable [OF assms(2)] by blast
  then have "fills {i} d d'" using fills_variable [OF assms(2)] by simp
  then show ?thesis using p d' assms(2,3) by (simp add: settled_def CAFixed masks_def map_of_insert_or_assign)
next
  case (InputAddressed q)
  obtain h where h: "(case c of Some h \<Rightarrow> Inr h | None \<Rightarrow> hm d) = Inr h" "hashStep True S i out h d = Inr d'" "c' = Some h"
    using assms(4) by (auto simp: InputAddressed outputStep_def bind_defs)
  obtain x where x: "h = DrvHash x" "outputPathFor S i x (drvName d) = Inr q" "envHasRightPath True S i q False d = Inr d'"
    using h(2) by (cases h) (auto simp: InputAddressed bind_defs split: if_splits)
  then have d': "d' = d\<lparr>env := insert_or_assign i (printStorePath (storeDirectory S) q) (env d)\<rparr>"
    using fill_variable [OF assms(2)] by blast
  then have "fills {i} d d'" using fills_variable [OF assms(2)] by simp
  then show ?thesis using h x d' assms(2,3)
    by (auto simp: settled_def InputAddressed masks_def map_of_insert_or_assign split: option.splits)
next
  case Deferred
  obtain h where h: "(case c of Some h \<Rightarrow> Inr h | None \<Rightarrow> hm d) = Inr h" "hashStep True S i out h d = Inr d'" "c' = Some h"
    using assms(4) by (auto simp: Deferred outputStep_def bind_defs)
  show ?thesis
  proof (cases h)
    case (DrvHash x)
    let ?d = "\<lambda>q. d\<lparr>outputs := insert_or_assign i (InputAddressed q) (outputs d)\<rparr>"
    obtain q where q: "outputPathFor S i x (drvName d) = Inr q" "envHasRightPath True S i q False (?d q) = Inr d'"
      using h(2) by (auto simp: Deferred DrvHash bind_defs)
    then have d': "d' = (?d q)\<lparr>env := insert_or_assign i (printStorePath (storeDirectory S) q) (env d)\<rparr>"
      using fill_variable [of "?d q" S i q d'] assms(2) by simp
    have "i \<in> fst ` set (outputs d)" using map_of_SomeD [OF assms(3)] by force
    then have "fills {i} d (?d q)" using assms(1,3) by (auto simp: fills_def map_of_insert_or_assign Deferred)
    moreover have "fills {i} (?d q) d'" using fills_variable [of "?d q" i] assms(2) unfolding d' by simp
    ultimately have "fills {i} d d'" using fills_trans by fastforce
    then show ?thesis using h DrvHash q d' assms
      by (auto simp: settled_def Deferred masks_def map_of_insert_or_assign split: option.splits)
  next
    case DeferredDrv
    then show ?thesis using h assms(3) by (auto simp: settled_def Deferred masks_def split: option.splits)
  qed (use h Deferred in auto)
qed (use assms in \<open>auto simp: outputStep_def settled_def masks_def\<close>)

lemma settled_later:
  assumes "settled S h d i" "h \<noteq> None \<longrightarrow> h' = h" "fills A d d'" "i \<notin> A"
  shows "settled S h' d' i"
proof -
  have "map_of (outputs d') i = map_of (outputs d) i" "map_of (env d') i = map_of (env d) i" "drvName d' = drvName d"
    using assms(3,4) unfolding fills_def by blast+
  then show ?thesis using assms(1,2) by (auto simp: settled_def split: option.splits DerivationOutput.splits)
qed

lemma fill_loop:
  assumes "ordered_map (outputs d)" "ordered_map (env d)" "distinct (map fst xs)" "\<forall>(i, out)\<in>set xs. map_of (outputs d) i = Some out"
    and "foldE (outputStep True S hm) (d, c) xs = Inr (d', c')"
  shows "fills (fst ` set xs) d d' \<and> (\<forall>i\<in>fst ` set xs. settled S c' d' i) \<and> (c \<noteq> None \<longrightarrow> c' = c) \<and>
    ((\<forall>e\<in>set xs. \<not> masks (snd e)) \<longrightarrow> c' = c)"
  using assms
proof (induction xs arbitrary: d c)
  case (Cons e xs)
  obtain i out where e: "e = (i, out)" by force
  obtain d1 c1 where step: "outputStep True S hm (d, c) (i, out) = Inr (d1, c1)" "foldE (outputStep True S hm) (d1, c1) xs = Inr (d', c')"
    using Cons.prems(5) by (auto simp: bind_defs e)
  have s: "fills {i} d d1" "settled S c1 d1 i" "if masks out then c1 \<noteq> None \<and> (c = None \<longrightarrow> hm d = Inr (the c1)) \<and> (c \<noteq> None \<longrightarrow> c1 = c) else c1 = c"
    using fill_step [OF Cons.prems(1,2) _ step(1)] Cons.prems(4) by (auto simp: e)
  have d1: "ordered_map (outputs d1)" "ordered_map (env d1)" using s(1) Cons.prems(1,2) unfolding fills_def by blast+
  have rest: "\<forall>(j, out)\<in>set xs. map_of (outputs d1) j = Some out"
  proof -
    have "map_of (outputs d1) j = map_of (outputs d) j" if "j \<noteq> i" for j using s(1) that unfolding fills_def by blast
    moreover have "j \<noteq> i" if "(j, x) \<in> set xs" for j x using Cons.prems(3) that by (force simp: e)
    ultimately show ?thesis using Cons.prems(4) by (auto simp: e)
  qed
  have "distinct (map fst xs)" "i \<notin> fst ` set xs" using Cons.prems(3) by (auto simp: e)
  note IH = Cons.IH [OF d1 this(1) rest step(2)]
  have "fills (fst ` set (e # xs)) d d'" using fills_trans [OF s(1)] IH by (simp add: e)
  moreover have "settled S c' d' i" using settled_later [OF s(2)] IH \<open>i \<notin> fst ` set xs\<close> by blast
  moreover have "c \<noteq> None \<longrightarrow> c' = c" using s(3) IH by (auto split: if_splits)
  moreover have "(\<forall>e\<in>set (e # xs). \<not> masks (snd e)) \<longrightarrow> c' = c" using s(3) IH by (auto simp: e)
  ultimately show ?case using IH by (simp add: e)
qed simp

lemma check_step:
  assumes "settled S h d i" "map_of (outputs d) i = Some out" "masks out \<Longrightarrow> hm d = Inr (the h)" "c = None \<or> c = h"
  shows "outputStep False S hm (d, c) (i, out) = Inr (d, if masks out then h else c)"
proof (cases out)
  case (CAFixed ca)
  then obtain p where "fixedPath S ca (drvName d) i = Inr p" "map_of (env d) i = Some (printStorePath (storeDirectory S) p)"
    using assms(1,2) by (auto simp: settled_def)
  then have "envHasRightPath False S i p False d = Inr d" using check_variable by blast
  then show ?thesis using \<open>fixedPath S ca (drvName d) i = Inr p\<close> by (simp add: CAFixed outputStep_def masks_def)
next
  case (InputAddressed p)
  then obtain x where h: "h = Some (DrvHash x)" "outputPathFor S i x (drvName d) = Inr p" "map_of (env d) i = Some (printStorePath (storeDirectory S) p)"
    using assms(1,2) by (auto simp: settled_def)
  have "envHasRightPath False S i p False d = Inr d" using check_variable h(3) by blast
  moreover have "(case c of Some h \<Rightarrow> Inr h | None \<Rightarrow> hm d) = Inr (DrvHash x)" using assms(3,4) h(1) InputAddressed by (auto simp: masks_def)
  ultimately show ?thesis using h by (simp add: InputAddressed outputStep_def masks_def)
next
  case Deferred
  then have h: "h = Some DeferredDrv" using assms(1,2) by (simp add: settled_def)
  then have "(case c of Some h \<Rightarrow> Inr h | None \<Rightarrow> hm d) = Inr DeferredDrv" using assms(3,4) Deferred by (auto simp: masks_def)
  then show ?thesis using h by (simp add: Deferred outputStep_def masks_def)
qed (simp_all add: outputStep_def masks_def)

lemma check_loop:
  assumes "\<forall>(i, out)\<in>set xs. settled S h d i \<and> map_of (outputs d) i = Some out \<and> (masks out \<longrightarrow> hm d = Inr (the h))" "c = None \<or> c = h"
  shows "\<exists>c'. foldE (outputStep False S hm) (d, c) xs = Inr (d, c')"
  using assms
proof (induction xs arbitrary: c)
  case (Cons e xs)
  obtain i out where e: "e = (i, out)" by force
  have "outputStep False S hm (d, c) (i, out) = Inr (d, if masks out then h else c)"
    using Cons.prems by (intro check_step) (auto simp: e)
  moreover have "\<exists>c'. foldE (outputStep False S hm) (d, if masks out then h else c) xs = Inr (d, c')"
    using Cons.prems by (intro Cons.IH) (auto simp: e)
  ultimately show ?case by (simp add: e)
qed simp

lemma fills_maskEq:
  assumes "fills (fst ` set (outputs d)) d d'" "ordered_map (outputs d)" "ordered_map (env d)"
    and "fst ` set (outputs d) \<subseteq> fst ` set (env d)"
  shows "maskEq d d'"
proof -
  note f = assms(1) [unfolded fills_def]
  have ord: "ordered_map (outputs d')" "ordered_map (env d')" using f assms(2,3) by blast+
  have outs: "map fst (outputs d') = map fst (outputs d)"
    by (rule strict_sorted_set_eq) (use ord assms(2) f in auto)
  have "k \<in> fst ` set (env d') \<longleftrightarrow> k \<in> fst ` set (env d)" for k
    using f assms(4) by (metis (no_types, lifting) map_of_eq_None_iff subsetD)
  then have vars: "map fst (env d') = map fst (env d)"
    by (intro strict_sorted_set_eq) (use ord assms(3) in auto)
  have "out' = out \<or> masks out \<and> masks out'" if "map_of (outputs d) i = Some out" "map_of (outputs d') i = Some out'" for i out out'
  proof -
    have "map_of (outputs d') i = Some out \<or> out = Deferred \<and> (\<exists>p. map_of (outputs d') i = Some (InputAddressed p))"
      using f that(1) by blast
    then show ?thesis using that(2) by (auto simp: masks_def)
  qed
  moreover have "map_of (env d') k = map_of (env d) k" if "map_of (outputs d) k = None" for k
    using f that by (simp add: map_of_eq_None_iff)
  ultimately show ?thesis using f ord outs vars assms(2,3) unfolding maskEq_def by blast
qed

lemma hash_typed:
  assumes "moduloOf look S d True = Inr h" "(i, out) \<in> set (outputs d)" "masks out" "builder d \<noteq> ''builtin:substitute''"
  shows "\<exists>a. drvType S d = Inr (InputAddressedType a)"
proof -
  obtain ty where ty: "drvType S d = Inr ty"
    using assms(1) by (cases "drvType S d") (auto simp: moduloOf_def hashModuloWith_def)
  then have "uniform ty (outputs d)" using drvType_uniform assms(4) by blast
  then have "kindOf out = ty" using assms(2) unfolding uniform_def by force
  then show ?thesis using ty assms(3) by (auto simp: masks_def)
qed

text \<open>
  The result of filling in: every output is settled for one hash, which is the hash of the derivation that was
  given, if an output needs one.
\<close>

lemma filled:
  assumes "ordered_map (outputs drv)" "ordered_map (env drv)" "builder drv \<noteq> ''builtin:substitute''"
    and fill: "fillInOutputPaths S (\<lambda>d. moduloOf look S d True) drv = Inr drv'"
  obtains h ty where "drvType S drv' = Inr ty" "uniform ty (outputs drv')" "fills (fst ` set (outputs drv)) drv drv'"
    "\<And>i. i \<in> fst ` set (outputs drv) \<Longrightarrow> settled S h drv' i"
    "\<And>i out. (i, out) \<in> set (outputs drv') \<Longrightarrow> masks out \<Longrightarrow> moduloOf look S drv True = Inr (the h)"
proof -
  let ?hm = "\<lambda>d. moduloOf look S d True" and ?A = "fst ` set (outputs drv)"
  obtain c' ty where loop: "foldE (outputStep True S ?hm) (drv, None) (outputs drv) = Inr (drv', c')" and ty: "drvType S drv' = Inr ty"
    using fill assms(3) by (auto simp: fillInOutputPaths_def processDerivationOutputPaths_def bind_defs)
  have dist: "distinct (map fst (outputs drv))" using ordered_map_distinct [OF assms(1)] .
  have all: "\<forall>(i, out)\<in>set (outputs drv). map_of (outputs drv) i = Some out"
    using map_of_eq_Some_iff [OF dist] by auto
  note L = fill_loop [OF assms(1,2) dist all loop]
  have f: "fills ?A drv drv'" using L by blast
  have b: "builder drv' = builder drv" and ord': "ordered_map (outputs drv')" and keys: "fst ` set (outputs drv') = ?A"
    using f assms(1) unfolding fills_def by blast+
  have u: "uniform ty (outputs drv')" using ty drvType_uniform assms(3) b by metis
  have hash: "?hm drv = Inr (the c')" if m: "(i, out) \<in> set (outputs drv')" "masks out" for i out
  proof -
    have ia: "ty = InputAddressedType False \<or> ty = InputAddressedType True"
      using u m unfolding uniform_def masks_def by force
    obtain e es where outs: "outputs drv = e # es" using keys m(1) by (cases "outputs drv") auto
    obtain j o1 where e: "e = (j, o1)" by force
    have "map_of (outputs drv) j = Some o1" by (simp add: outs e)
    then have o1: "map_of (outputs drv') j = Some o1 \<or> o1 = Deferred" using f unfolding fills_def by blast
    have "masks o1"
    proof (cases "o1 = Deferred")
      case False
      then have "(j, o1) \<in> set (outputs drv')" using o1 map_of_SomeD by metis
      then have "kindOf o1 = ty" using u unfolding uniform_def by force
      then show ?thesis using ia by (auto simp: masks_def)
    qed (simp add: masks_def)
    obtain d1 c1 where step: "outputStep True S ?hm (drv, None) (j, o1) = Inr (d1, c1)" "foldE (outputStep True S ?hm) (d1, c1) es = Inr (drv', c')"
      using loop by (auto simp: outs e bind_defs)
    have s: "fills {j} drv d1" "c1 \<noteq> None" "?hm drv = Inr (the c1)"
      using fill_step [OF assms(1,2) \<open>map_of (outputs drv) j = Some o1\<close> step(1)] \<open>masks o1\<close> by auto
    have "c' = c1"
    proof -
      have d1: "ordered_map (outputs d1)" "ordered_map (env d1)" using s(1) assms(1,2) unfolding fills_def by blast+
      have "map_of (outputs d1) k = Some x" if "(k, x) \<in> set es" for k x
      proof -
        have "k \<noteq> j" using dist that by (force simp: outs e)
        then have "map_of (outputs d1) k = map_of (outputs drv) k" using s(1) unfolding fills_def by blast
        then show ?thesis using all that by (auto simp: outs)
      qed
      then have "\<forall>(k, x)\<in>set es. map_of (outputs d1) k = Some x" by blast
      from fill_loop [OF d1 _ this step(2)] dist s(2) show ?thesis by (simp add: outs)
    qed
    then show ?thesis using s(3) by simp
  qed
  have settled: "\<And>i. i \<in> ?A \<Longrightarrow> settled S c' drv' i" using L by blast
  show ?thesis by (rule that [OF ty u f settled hash])
qed

lemma filled_variable:
  assumes "ordered_map (outputs drv)" "ordered_map (env drv)" "builder drv \<noteq> ''builtin:substitute''"
    and "fillInOutputPaths S (\<lambda>d. moduloOf look S d True) drv = Inr drv'" "(i, InputAddressed p) \<in> set (outputs drv')"
  shows "map_of (env drv') i = Some (printStorePath (storeDirectory S) p) \<and>
    (\<exists>h. moduloOf look S drv True = Inr (DrvHash h) \<and> outputPathFor S i h (drvName drv) = Inr p)"
proof (rule filled [OF assms(1-4)])
  fix h ty
  assume f: "fills (fst ` set (outputs drv)) drv drv'"
    and settled: "\<And>i. i \<in> fst ` set (outputs drv) \<Longrightarrow> settled S h drv' i"
    and hash: "\<And>i out. (i, out) \<in> set (outputs drv') \<Longrightarrow> masks out \<Longrightarrow> moduloOf look S drv True = Inr (the h)"
  have o: "ordered_map (outputs drv')" and n: "drvName drv' = drvName drv" and keys: "fst ` set (outputs drv') = fst ` set (outputs drv)"
    using f assms(1) unfolding fills_def by blast+
  have m: "map_of (outputs drv') i = Some (InputAddressed p)"
    using map_of_eq_Some_iff [OF ordered_map_distinct [OF o]] assms(5) by blast
  have "i \<in> fst ` set (outputs drv)" using assms(5) keys by force
  then have "settled S h drv' i" by (rule settled)
  moreover have "moduloOf look S drv True = Inr (the h)" by (rule hash [OF assms(5)]) (simp add: masks_def)
  ultimately show ?thesis using m n by (auto simp: settled_def)
qed

lemma fill_check:
  assumes "ordered_map (outputs drv)" "ordered_map (env drv)"
    and vars: "\<And>i out. (i, out) \<in> set (outputs drv) \<Longrightarrow> masks out \<Longrightarrow> i \<in> fst ` set (env drv)"
    and fill: "fillInOutputPaths S (\<lambda>d. moduloOf look S d True) drv = Inr drv'"
  shows "processDerivationOutputPaths False S (\<lambda>d. moduloOf look S d True) drv' = Inr drv'"
proof (cases "builder drv = ''builtin:substitute''")
  case True
  then show ?thesis using fill
    by (auto simp: fillInOutputPaths_def processDerivationOutputPaths_def bind_defs split: if_splits)
next
  case False
  let ?hm = "\<lambda>d. moduloOf look S d True" and ?A = "fst ` set (outputs drv)"
  show ?thesis
  proof (rule filled [OF assms(1,2) False fill])
    fix h ty
    assume ty: "drvType S drv' = Inr ty" and u: "uniform ty (outputs drv')" and f: "fills ?A drv drv'"
      and settled: "\<And>i. i \<in> ?A \<Longrightarrow> settled S h drv' i"
      and given: "\<And>i out. (i, out) \<in> set (outputs drv') \<Longrightarrow> masks out \<Longrightarrow> ?hm drv = Inr (the h)"
    have b: "builder drv' = builder drv" and ord': "ordered_map (outputs drv')" and keys: "fst ` set (outputs drv') = ?A"
      using f assms(1) unfolding fills_def by blast+
    have hash: "?hm drv' = Inr (the h)" if m: "(i, out) \<in> set (outputs drv')" "masks out" for i out
    proof -
      have ia: "ty = InputAddressedType False \<or> ty = InputAddressedType True"
        using u m unfolding uniform_def masks_def by force
      obtain o1 where o1: "(i, o1) \<in> set (outputs drv)" using keys m(1) by force
      then have "map_of (outputs drv) i = Some o1"
        using map_of_eq_Some_iff [OF ordered_map_distinct [OF assms(1)]] by blast
      moreover have "map_of (outputs drv') i = Some out"
        using map_of_eq_Some_iff [OF ordered_map_distinct [OF ord']] m(1) by blast
      moreover have "map_of (outputs drv') i = Some o1 \<or> o1 = Deferred"
        using f \<open>map_of (outputs drv) i = Some o1\<close> unfolding fills_def by blast
      ultimately have "masks o1" using m(2) by (auto simp: masks_def)
      then obtain a where ty0: "drvType S drv = Inr (InputAddressedType a)"
        using hash_typed [OF given [OF m] o1] False by blast
      then have "uniform (InputAddressedType a) (outputs drv)" using drvType_uniform False by blast
      then have "masks x" if "(k, x) \<in> set (outputs drv)" for k x using that unfolding uniform_def masks_def by force
      then have "?A \<subseteq> fst ` set (env drv)" using vars by force
      then have "maskEq drv drv'" using fills_maskEq [OF f assms(1,2)] by blast
      then have "?hm drv' = ?hm drv" using masked_modulo [OF _ ty0] ty ia by auto
      then show ?thesis using given [OF m] by simp
    qed
    have "settled S h drv' i" if "(i, out) \<in> set (outputs drv')" for i out
      by (rule settled) (use keys that in force)
    moreover have "map_of (outputs drv') i = Some out" if "(i, out) \<in> set (outputs drv')" for i out
      using map_of_eq_Some_iff [OF ordered_map_distinct [OF ord']] that by blast
    ultimately have "\<forall>(i, out)\<in>set (outputs drv'). settled S h drv' i \<and> map_of (outputs drv') i = Some out \<and> (masks out \<longrightarrow> ?hm drv' = Inr (the h))"
      using hash by blast
    then have "\<exists>c''. foldE (outputStep False S ?hm) (drv', None) (outputs drv') = Inr (drv', c'')"
      using check_loop [where hm = ?hm and h = h and c = None and xs = "outputs drv'" and d = drv' and S = S] by blast
    then show ?thesis using False b ty by (auto simp: processDerivationOutputPaths_def)
  qed
qed

section \<open>Properties\<close>


lemma sampleUser_look: "\<exists>h. moduloOf (pathModulo 1 sampleSetting sampleFiles) sampleSetting sampleUser True = Inr (DrvHash h) \<and> hashSize h = 32"
proof -
  obtain h where h: "moduloOf (pathModulo 1 sampleSetting sampleFiles) sampleSetting sampleUser True = Inr (DrvHash h)"
    using sampleUser_hash hash_memo [OF ranked_sampleFiles valid_empty, of sampleUser 1 True] by auto
  then obtain t where "hashOf sampleSetting t = Inr h" by (auto simp: moduloOf_DrvHash)
  then have "hashSize h = 32" using hashOf_total [of sampleSetting t] by auto
  then show ?thesis using h by blast
qed


text \<open>
  Without the variable the masked text that is hashed changes when the variable is filled in, so that the check
  computes another hash: the comment in the header promises that an absent variable is defined.
\<close>

definition noVariable :: "bytes Derivation" where
  "noVariable = sampleUser\<lparr>inputDrvs := [], env := []\<rparr>"

lemma fill_without_variable:
  "unparse sampleSetting (noVariable\<lparr>outputs := [(''out'', InputAddressed p)], env := [(''out'', v)]\<rparr>) True (Some []) \<noteq>
   unparse sampleSetting noVariable True (Some [])"
  by (simp add: noVariable_def sampleUser_def unparse_def unparseOutput_def checkKeyNotInUse_def jsonVariable_def atermEnv_def
      unparseVariable_def printString_def)

end
