(* ===== verification/Drv_Wire.thy ===== *)
theory Drv_Wire
  imports Drv_Text Wire
begin

text \<open>
  Basic derivations in the protocols (\<^verbatim>\<open>readDerivation\<close> and \<^verbatim>\<open>writeDerivation\<close> of
  \<^verbatim>\<open>src/libstore/derivations.cc\<close>, sets of store paths in \<^verbatim>\<open>length-prefixed-protocol-helper.hh\<close> and
  \<^verbatim>\<open>common-protocol.cc\<close>). The sender of a derivation writes what the text of a derivation has, without the
  inputs that are derivations; strings have a length and need no escapes. The loops count down from the
  number that was read.
\<close>

datatype ProtoError = OnWire WireError | InDrv DrvError

definition wire :: "WireError + 'a \<Rightarrow> ProtoError + 'a" where
  "wire m = (case m of Inl e \<Rightarrow> Inl (OnWire e) | Inr a \<Rightarrow> Inr a)"

definition inDrv :: "DrvError + 'a \<Rightarrow> ProtoError + 'a" where
  "inDrv m = (case m of Inl e \<Rightarrow> Inl (InDrv e) | Inr a \<Rightarrow> Inr a)"

lemma proto_simps [simp]: "wire (Inl e) = Inl (OnWire e)" "wire (Inr a) = Inr a" "inDrv (Inl d) = Inl (InDrv d)" "inDrv (Inr a) = Inr a"
  by (simp_all add: wire_def inDrv_def)

text \<open>\<^verbatim>\<open>readString\<close> with its default limit.\<close>

definition readText :: "bytes \<Rightarrow> ProtoError + bytes \<times> bytes" where
  "readText src = wire (readString (2 ^ 64 - 1) src)"

text \<open>\<^verbatim>\<open>while (n--)\<close> and the \<^verbatim>\<open>for\<close> loops that count to a number that was read.\<close>

fun times :: "nat \<Rightarrow> ('s \<Rightarrow> bytes \<Rightarrow> ProtoError + 's \<times> bytes) \<Rightarrow> 's \<Rightarrow> bytes \<Rightarrow> ProtoError + 's \<times> bytes" where
  "times 0 body s src = Inr (s, src)"
| "times (Suc n) body s src = ebind (body s src) (\<lambda>(s', src'). times n body s' src')"

definition counted :: "('s \<Rightarrow> bytes \<Rightarrow> ProtoError + 's \<times> bytes) \<Rightarrow> 's \<Rightarrow> bytes \<Rightarrow> ProtoError + 's \<times> bytes" where
  "counted body s src = ebind (wire (readNum src)) (\<lambda>(n, src'). times n body s src')"

section \<open>Reading\<close>

definition readDerivationOutput :: "'j Setting \<Rightarrow> bytes \<Rightarrow> ProtoError + DerivationOutput \<times> bytes" where
  "readDerivationOutput S s0 =
     ebind (readText s0) (\<lambda>(pathS, s1). ebind (readText s1) (\<lambda>(hashAlgo, s2). ebind (readText s2) (\<lambda>(h, s3).
       ebind (inDrv (parseOutputParts S pathS hashAlgo h)) (\<lambda>out. Inr (out, s3)))))"

text \<open>The connection of \<^verbatim>\<open>readDerivation\<close> does not use short store paths.\<close>

definition readStorePath :: "'j Setting \<Rightarrow> bytes \<Rightarrow> ProtoError + StorePath \<times> bytes" where
  "readStorePath S s0 =
     ebind (readText s0) (\<lambda>(t, s1). ebind (inDrv (inStore (parseStorePath (storeDirectory S) t))) (\<lambda>p. Inr (p, s1)))"

definition readStorePathSet :: "'j Setting \<Rightarrow> bytes \<Rightarrow> ProtoError + StorePath list \<times> bytes" where
  "readStorePathSet S = counted (\<lambda>res s0. ebind (readStorePath S s0) (\<lambda>(p, s1). Inr (set_insert p res, s1))) []"

text \<open>\<^verbatim>\<open>StructuredAttrs::tryExtract\<close>.\<close>

definition tryExtract :: "'j Setting \<Rightarrow> (bytes \<times> bytes) list \<Rightarrow> DrvError + 'j option \<times> (bytes \<times> bytes) list" where
  "tryExtract S e =
     (case map_of e jsonVariable of
        Some encoded \<Rightarrow> ebind (parseStructuredAttrs S encoded) (\<lambda>j. Inr (Some j, erase jsonVariable e))
      | None \<Rightarrow> Inr (None, e))"

definition readDerivation :: "'j Setting \<Rightarrow> bytes \<Rightarrow> bytes \<Rightarrow> ProtoError + 'j BasicDerivation \<times> bytes" where
  "readDerivation S s0 n =
     ebind (counted (\<lambda>m t0. ebind (readText t0) (\<lambda>(i, t1). ebind (readDerivationOutput S t1) (\<lambda>(out, t2).
         Inr (emplace i out m, t2)))) [] s0) (\<lambda>(outs, s1).
     ebind (readStorePathSet S s1) (\<lambda>(srcs, s2).
     ebind (readText s2) (\<lambda>(plat, s3). ebind (readText s3) (\<lambda>(bld, s4).
     ebind (wire (readStrings s4)) (\<lambda>(as, s5).
     ebind (counted (\<lambda>m t0. ebind (readText t0) (\<lambda>(k, t1). ebind (readText t1) (\<lambda>(v, t2).
         Inr (insert_or_assign k v m, t2)))) [] s5) (\<lambda>(e, s6).
     ebind (inDrv (tryExtract S e)) (\<lambda>(attrs, e').
       Inr (\<lparr>outputs = outs, inputSrcs = srcs, platform = plat, builder = bld, args = as, env = e',
             structuredAttrs = attrs, drvName = n\<rparr>, s6))))))))"

section \<open>Writing\<close>

definition writeStorePathSet :: "'j Setting \<Rightarrow> StorePath list \<Rightarrow> bytes" where
  "writeStorePathSet S ps = writeNum (length ps) @ concat (map (\<lambda>p. writeString (printStorePath (storeDirectory S) p)) ps)"

text \<open>The three strings of an output are the ones that its text has.\<close>

definition writeOutput :: "'j Setting \<Rightarrow> bytes \<Rightarrow> bytes \<times> DerivationOutput \<Rightarrow> DrvError + bytes" where
  "writeOutput S n i =
     ebind (outputParts S False n (fst i) (snd i)) (\<lambda>(p, m, h).
       Inr (writeString (fst i) @ writeString p @ writeString m @ writeString h))"

definition writeDerivation :: "'j Setting \<Rightarrow> ('j, 'b) BasicDerivation_scheme \<Rightarrow> DrvError + bytes" where
  "writeDerivation S drv =
     ebind (mapE (writeOutput S (drvName drv)) (outputs drv)) (\<lambda>outs.
       ebind (checkKeyNotInUse (env drv)) (\<lambda>_.
         Inr (writeNum (length (outputs drv)) @ concat outs @ writeStorePathSet S (inputSrcs drv) @
           writeString (platform drv) @ writeString (builder drv) @ writeStrings (args drv) @
           writeNum (length (atermEnv S drv)) @ concat (map (\<lambda>e. writeString (fst e) @ writeString (snd e)) (atermEnv S drv)))))"

section \<open>Reading what was written\<close>

definition small :: "bytes \<Rightarrow> bool" where
  "small s \<longleftrightarrow> length s < 2 ^ 64"

lemma readText_write [simp]: "small s \<Longrightarrow> readText (writeString s @ r) = Inr (s, r)"
  by (simp add: readText_def small_def)

lemma times_write:
  assumes "\<And>x s r. x \<in> set xs \<Longrightarrow> body s (text x @ r) = Inr (step s x, r)"
  shows "times (length xs) body s (concat (map text xs) @ r) = Inr (foldl step s xs, r)"
  using assms by (induction xs arbitrary: s) auto

lemma counted_write:
  assumes "\<And>x s r. x \<in> set xs \<Longrightarrow> body s (text x @ r) = Inr (step s x, r)" "length xs < 2 ^ 64"
  shows "counted body s (writeNum (length xs) @ concat (map text xs) @ r) = Inr (foldl step s xs, r)"
  using times_write [OF assms(1)] assms(2) by (simp add: counted_def readNum_write)

lemma length_concat_ge: "x \<in> set xs \<Longrightarrow> length x \<le> length (concat xs)"
  by (induction xs) auto

lemma length_writeString: "length s + 8 \<le> length (writeString s)"
  by (simp add: writeString_def)

lemma small_append: "small (s @ t) \<Longrightarrow> small s \<and> small t"
  by (simp add: small_def)

lemma small_writeString: "small (writeString s) \<Longrightarrow> small s"
  using length_writeString [of s] by (simp add: small_def)

lemma small_concat: "small (concat xs) \<Longrightarrow> x \<in> set xs \<Longrightarrow> small x"
  using length_concat_ge [of x xs] by (simp add: small_def)

lemma count_small: "small (concat (map text xs)) \<Longrightarrow> (\<And>x. x \<in> set xs \<Longrightarrow> text x \<noteq> []) \<Longrightarrow> length xs < 2 ^ 64"
proof -
  have "(\<And>x. x \<in> set xs \<Longrightarrow> text x \<noteq> []) \<Longrightarrow> length xs \<le> length (concat (map text xs))"
  proof (induction xs)
    case (Cons x xs)
    have "text x \<noteq> []" "length xs \<le> length (concat (map text xs))" using Cons by auto
    then show ?case by (cases "text x") auto
  qed simp
  then show "small (concat (map text xs)) \<Longrightarrow> (\<And>x. x \<in> set xs \<Longrightarrow> text x \<noteq> []) \<Longrightarrow> ?thesis"
    unfolding small_def by (meson le_less_trans)
qed

lemma readStorePathSet_write:
  assumes "wfSetting S" "ordered_set ps" "list_all wfPath ps" "small (writeStorePathSet S ps)"
  shows "readStorePathSet S (writeStorePathSet S ps @ r) = Inr (ps, r)"
proof -
  let ?text = "\<lambda>p. writeString (printStorePath (storeDirectory S) p)"
  have sm: "small (concat (map ?text ps))" using assms(4) small_append unfolding writeStorePathSet_def by blast
  have each: "small (printStorePath (storeDirectory S) p)" if "p \<in> set ps" for p
    by (rule small_writeString) (use small_concat [OF sm] that in auto)
  have "counted (\<lambda>res s0. ebind (readStorePath S s0) (\<lambda>(p, s1). Inr (set_insert p res, s1))) []
      (writeNum (length ps) @ concat (map ?text ps) @ r) = Inr (foldl (\<lambda>s x. set_insert x s) [] ps, r)"
  proof (rule counted_write)
    show "length ps < 2 ^ 64" by (rule count_small [OF sm]) (use length_writeString in \<open>fastforce simp: writeString_def writeNum_def\<close>)
  qed (use assms(1,3) each in \<open>auto simp: readStorePath_def list_all_iff\<close>)
  then show ?thesis using foldl_set_insert [of "[]" ps] assms(2) by (simp add: readStorePathSet_def writeStorePathSet_def)
qed

lemma readOutputs_write:
  assumes "wfSetting S" "ordered_map outs" "\<And>i out. (i, out) \<in> set outs \<Longrightarrow> wfOutput S out"
    and "mapE (writeOutput S n) outs = Inr ts" "small (concat ts)"
  shows "counted (\<lambda>m t0. ebind (readText t0) (\<lambda>(i, t1). ebind (readDerivationOutput S t1) (\<lambda>(out, t2).
      Inr (emplace i out m, t2)))) [] (writeNum (length outs) @ concat ts @ r) = Inr (outs, r)"
proof -
  let ?text = "\<lambda>i. projr (writeOutput S n i)"
  have ts: "ts = map ?text outs" and each: "\<And>e. e \<in> set outs \<Longrightarrow> \<exists>t. writeOutput S n e = Inr t"
    using assms(4) unfolding mapE_Inr_iff by (auto simp: list_all2_conv_all_nth in_set_conv_nth intro!: nth_equalityI)
  have strs: "\<exists>p m h. outputParts S False n (fst e) (snd e) = Inr (p, m, h) \<and> ?text e = writeString (fst e) @ writeString p @ writeString m @ writeString h"
    if "e \<in> set outs" for e
    using each [OF that] by (auto simp: writeOutput_def bind_defs)
  have body: "ebind (readText (?text e @ r')) (\<lambda>(i, t1). ebind (readDerivationOutput S t1) (\<lambda>(out, t2). Inr (emplace i out m, t2))) =
      Inr (emplace (fst e) (snd e) m, r')" if e: "e \<in> set outs" for e m r'
  proof -
    obtain p q h where parts: "outputParts S False n (fst e) (snd e) = Inr (p, q, h)"
      "?text e = writeString (fst e) @ writeString p @ writeString q @ writeString h" using strs [OF e] by blast
    have "small (?text e)" using small_concat [OF assms(5)] e ts by auto
    then have "small (writeString (fst e)) \<and> small (writeString p) \<and> small (writeString q) \<and> small (writeString h)"
      using small_append unfolding parts(2) by blast
    then have "small (fst e)" "small p" "small q" "small h" using small_writeString by blast+
    moreover have "wfOutput S (snd e)" using assms(3) [of "fst e" "snd e"] e by simp
    ultimately show ?thesis using outputParts_print [OF assms(1) _ parts(1)]
      by (simp add: parts(2) readDerivationOutput_def)
  qed
  have "counted (\<lambda>m t0. ebind (readText t0) (\<lambda>(i, t1). ebind (readDerivationOutput S t1) (\<lambda>(out, t2).
      Inr (emplace i out m, t2)))) [] (writeNum (length outs) @ concat (map ?text outs) @ r) =
    Inr (foldl (\<lambda>m e. emplace (fst e) (snd e) m) [] outs, r)"
  proof (rule counted_write [OF body])
    have "?text e \<noteq> []" if "e \<in> set outs" for e using strs [OF that] by (auto simp: writeString_def writeNum_def)
    then show "length outs < 2 ^ 64" using count_small [of ?text outs] assms(5) ts by blast
  qed
  then show ?thesis using foldl_emplace [of "[]" outs] assms(2) by (simp add: ts)
qed

lemma readEnv_write:
  assumes "ordered_map m" "small (concat (map (\<lambda>e. writeString (fst e) @ writeString (snd e)) m))"
  shows "counted (\<lambda>m t0. ebind (readText t0) (\<lambda>(k, t1). ebind (readText t1) (\<lambda>(v, t2). Inr (insert_or_assign k v m, t2)))) []
      (writeNum (length m) @ concat (map (\<lambda>e. writeString (fst e) @ writeString (snd e)) m) @ r) = Inr (m, r)"
proof -
  let ?text = "\<lambda>e. writeString (fst e) @ writeString (snd e)"
  have "small (fst e) \<and> small (snd e)" if "e \<in> set m" for e
  proof -
    have "small (?text e)" using small_concat [OF assms(2)] that by auto
    then show ?thesis using small_append small_writeString by blast
  qed
  moreover have "length m < 2 ^ 64" by (rule count_small [OF assms(2)]) (simp add: writeString_def writeNum_def)
  ultimately have "counted (\<lambda>m t0. ebind (readText t0) (\<lambda>(k, t1). ebind (readText t1) (\<lambda>(v, t2). Inr (insert_or_assign k v m, t2)))) []
      (writeNum (length m) @ concat (map ?text m) @ r) = Inr (foldl (\<lambda>m e. insert_or_assign (fst e) (snd e) m) [] m, r)"
    by (intro counted_write) auto
  then show ?thesis using foldl_insert_or_assign [of "[]" m] assms(1) by simp
qed

lemma tryExtract_aterm:
  assumes "jsonOk S" "wfEnv drv"
  shows "tryExtract S (atermEnv S drv) = Inr (structuredAttrs drv, env drv)"
proof -
  have e: "ordered_map (env drv)" "map_of (env drv) jsonVariable = None" "jsonVariable \<notin> fst ` set (env drv)"
    using assms(2) by (auto simp: wfEnv_def map_of_eq_None_iff)
  then show ?thesis using assms(1)
    by (cases "structuredAttrs drv") (simp_all add: tryExtract_def atermEnv_def map_of_emplace erase_insert parseStructuredAttrs_def jsonOk_def)
qed

section \<open>Properties\<close>

definition wfBasic :: "'j Setting \<Rightarrow> 'j BasicDerivation \<Rightarrow> bool" where
  "wfBasic S drv \<longleftrightarrow>
     ordered_map (outputs drv) \<and> (\<forall>(i, out)\<in>set (outputs drv). wfOutput S out) \<and>
     ordered_set (inputSrcs drv) \<and> list_all wfPath (inputSrcs drv) \<and> wfEnv drv"

text \<open>
  C16: A basic derivation that one side of a protocol writes is what the other side reads, and nothing of what follows is
  consumed; no restriction is put on names, arguments and variables.
\<close>
theorem drv_wire:
  assumes "wfSetting S" "jsonOk S" "wfBasic S drv" "writeDerivation S drv = Inr w" "length w < 2 ^ 64"
  shows "readDerivation S (w @ rest) (drvName drv) = Inr (drv, rest)"
proof -
  have wf: "ordered_map (outputs drv)" "\<And>i out. (i, out) \<in> set (outputs drv) \<Longrightarrow> wfOutput S out"
    "ordered_set (inputSrcs drv)" "list_all wfPath (inputSrcs drv)" "wfEnv drv"
    using assms(3) by (auto simp: wfBasic_def)
  let ?vars = "concat (map (\<lambda>e. writeString (fst e) @ writeString (snd e)) (atermEnv S drv))"
  obtain ts where ts: "mapE (writeOutput S (drvName drv)) (outputs drv) = Inr ts"
    and w: "w = writeNum (length (outputs drv)) @ concat ts @ writeStorePathSet S (inputSrcs drv) @
      writeString (platform drv) @ writeString (builder drv) @ writeStrings (args drv) @ writeNum (length (atermEnv S drv)) @ ?vars"
    using assms(4) by (auto simp: writeDerivation_def bind_defs)
  have "small w" using assms(5) by (simp add: small_def)
  then have sm: "small (concat ts)" "small (writeStorePathSet S (inputSrcs drv))" "small (writeString (platform drv))"
    "small (writeString (builder drv))" "small (writeStrings (args drv))" "small ?vars"
    unfolding w using small_append by blast+
  have args: "readStrings (writeStrings (args drv) @ r) = Inr (args drv, r)" for r
  proof -
    have c: "small (concat (map writeString (args drv)))" using sm(5) small_append unfolding writeStrings_def by blast
    have "length (args drv) < 2 ^ 64" by (rule count_small [OF c]) (simp add: writeString_def writeNum_def)
    moreover have "length x < 2 ^ 64" if "x \<in> set (args drv)" for x
      using small_writeString [OF small_concat [OF c]] that by (auto simp: small_def)
    ultimately show ?thesis by (simp add: readStrings_eq_Inr)
  qed
  have ord: "ordered_map (atermEnv S drv)" using wf(5) by (auto simp: atermEnv_def wfEnv_def split: option.split)
  note outs = readOutputs_write [OF assms(1) wf(1,2) ts sm(1)]
  note srcs = readStorePathSet_write [OF assms(1) wf(3,4) sm(2)]
  note vars = readEnv_write [OF ord sm(6)]
  show ?thesis
    using small_writeString [OF sm(3)] small_writeString [OF sm(4)] tryExtract_aterm [OF assms(2) wf(5)]
    unfolding w readDerivation_def by (simp add: outs srcs args vars)
qed

definition sampleBasic :: "bytes BasicDerivation" where
  "sampleBasic =
     \<lparr>outputs = [([QUOTE], InputAddressed (samplePath ''p'')), (''doc'', Deferred)], inputSrcs = [samplePath ''sh''],
      platform = [QUOTE], builder = ''/bin/sh'', args = [[], [CHR 0x00]], env = [(''out'', [])], structuredAttrs = Some ''{}'',
      drvName = ''p''\<rparr>"

lemma sampleBasic_written: "\<exists>w. writeDerivation sampleSetting sampleBasic = Inr w \<and> length w < 2 ^ 64"
proof -
  have "length (printStorePath ''/s'' (samplePath n)) = length n + 36" for n
    by (simp add: printStorePath_def samplePath_def Store_Path.to_string_def)
  then show ?thesis
    by (auto simp: writeDerivation_def sampleBasic_def writeOutput_def checkKeyNotInUse_def jsonVariable_def sampleSetting_def
      atermEnv_def emplace_def writeStorePathSet_def writeStrings_def writeString_def writePadding_def)
qed

lemma drv_wire_witness:
  "\<exists>w. writeDerivation sampleSetting sampleBasic = Inr w \<and> readDerivation sampleSetting (w @ ''x'') ''p'' = Inr (sampleBasic, ''x'')"
proof -
  have wf: "wfSetting sampleSetting" "jsonOk sampleSetting" "wfBasic sampleSetting sampleBasic" "drvName sampleBasic = ''p''"
    using wf_sampleSetting sampleNames wf_samplePath
    by (simp_all add: wfBasic_def sampleBasic_def wfEnv_def jsonVariable_def)
  obtain w where w: "writeDerivation sampleSetting sampleBasic = Inr w" "length w < 2 ^ 64" using sampleBasic_written by blast
  show ?thesis using drv_wire [OF wf(1-3) w] w(1) wf(4) by simp
qed
end
