(* ===== verification/Spec2Isabelle.thy ===== *)
theory Spec2Isabelle
  imports Source_Deps Eval_Cache Git_Status Version_Names Topo_Sort Nar_Overlay Drv_Outputs Drv_Wire
begin

text \<open>
  A verification library for Tecnix, Nix with tracked and cached evaluation of targets. An evaluation of a
  target records which paths of the source tree it read, the cache stores these paths with fingerprints beside the
  result, and a later evaluation reuses the result when the fingerprints still hold. The library models the parts of
  the program that decide whether this is right, from the tracking to the fingerprints, and the foundations of the
  store they share with Nix: encodings, hashes, content addresses, store paths, archives.

  How the parts interact. The evaluator calls the hooks of \<^bold>\<open>source-deps\<close>, which keep a frame of paths for every value
  under evaluation and a label on every finished one; a label is the id of a set of paths in the \<^bold>\<open>access graph\<close>. The
  paths of a target go to the \<^bold>\<open>evaluation cache\<close>, which asks the \<^bold>\<open>source accessor\<close> of the checkout for their
  fingerprints and merges them into the \<^bold>\<open>packed row\<close> of the target's shard. The accessor lays the dirty files that the
  \<^bold>\<open>git status\<close> parser reports over the committed tree; its fingerprints hash what it shows. Sources enter the store
  as \<^bold>\<open>archives\<close>, whose \<^bold>\<open>hash\<close> is a \<^bold>\<open>content address\<close> that determines the \<^bold>\<open>store path\<close>.

  \<^bold>\<open>Conventions.\<close> A definition has the name of the function, method or type it translates. Byte strings are char
  lists, records of the code are records, variants and enumerations are datatypes. A sum is a result whose left side
  is the exception, one constructor per \<^verbatim>\<open>throw\<close>; a method that changes an object returns the changed object. An
  option is used where the code has one, and where it may leave the bounds of a container, so that \<open>None\<close> is undefined
  behaviour and a theorem that gives \<open>Some\<close> excludes it. Machine integers whose width matters are words or natural numbers
  with every truncation written out. Hash maps are maps, and hash sets whose order of iteration can be seen are lists in
  that order. Code outside the repository is a parameter: the digests of the cryptographic library, the conversion of
  numerals, regular expressions, the blobs and trees of the git library, the output of \<^verbatim>\<open>git status\<close>, the file system of
  the checkout, the settings and experimental features.

  \<^bold>\<open>The shared vocabulary.\<close> \<open>Tx_Prelude\<close> has byte strings with their order, 32-bit arithmetic, the result types, and the
  lemmas on them that every theory uses (the collection \<open>bind_defs\<close> among them).

  \<^bold>\<open>Tracking\<close> (src/libexpr/tecnix/source-deps.cc and its headers)
    \<^item> \<open>Access_Graph\<close>: \<^verbatim>\<open>EvalSourceAccessSetGraph\<close>. Paths and sets of paths get ids. The invariant of the graph is kept by
      every operation, equal sets get equal ids, a flattened set is its paths in the order first seen, and no
      container is left. What the id space of 32 bits does to the offsets is \<open>appendAccessSet_wraps\<close>. The locale
      \<open>set_interner\<close> is what the tracking relies on, interpreted on the graph.
    \<^item> \<open>Value_Labels\<close>: the table of labels outside the values; the locale \<open>label_table\<close>, interpreted on it.
    \<^item> \<open>Source_Deps\<close>: frames, contexts, scopes and hooks. The evaluator is a tree of the calls it makes. A plain
      semantics says which paths each value depends on; running the tree through the stacks with watermarks, the
      interned ids and the labels gives the same paths to every value and every target (\<open>labels_exact\<close>,
      \<open>targets_exact\<close>), and two targets that share a value both get its paths.

  \<^bold>\<open>The cache\<close> (src/libexpr/tecnix/eval-cache.cc)
    \<^item> \<open>Row_View\<close>, \<open>Row_Write\<close>: reading and writing the packed row of a shard. \<open>Row_Layout\<close>, \<open>Row_Correct\<close>, \<open>Row_Merge\<close>
      and \<open>Row_Total\<close>: the bytes the writer returns are read back as the planned row; on decoded rows merging is \<open>learn\<close>,
      a bounded history of candidates per target; merged rows satisfy the reader's conditions; the exceptions a merge
      can end with are listed, and the ones that guard internal invariants do not happen.
    \<^item> \<open>Eval_Cache\<close>: fingerprints with their memo, the proof of a candidate, lookup and upsert. The accessor may throw:
      a lookup then returns the hits up to there and the exception. A hit has every recorded fingerprint equal to the
      current one, what was learned is found again unless the lookup ends with an exception first, the memo changes no
      answer, and a batch of paths is certified as a whole or not at all. The locale \<open>history\<close> is what the cache needs of
      a row.

  \<^bold>\<open>What the fingerprints say\<close> (src/libexpr/tecnix/repo-accessor.cc, src/libutil/source-accessor.cc)
    \<^item> \<open>Git_Status\<close>: the parser of porcelain status; it accepts exactly the records of a grammar and returns the paths
      they make dirty.
    \<^item> \<open>Source_Accessor\<close>: the interface and its base class. The locale \<open>tree_accessor\<close> is the contract in the documentation
      of the interface: one tree, in which a path exists when its directory lists it. Resolving symbolic
      links is what the rules \<open>moves\<close> reach with at most 1024 links. \<open>Memory_Accessor\<close> is the file system in memory,
      which meets the contract; each write does exactly its change or reports what is in its way.
    \<^item> \<open>Repo_Overlay\<close>: the overlay of the checkout over the committed tree. For a consistent checkout (\<open>consistent\<close>, which
      speaks of the revision, the index, the disk and the status, and not of the overlay) it is a tree again: dirty
      paths as on the disk, deleted ones gone, directories above dirty files there, the rest as committed.
      \<open>Overlay_Fingerprint\<close>: equal fingerprints mean equal files at and below the path. \<open>Checkouts\<close>: examples, and the
      checkouts in which the overlay contradicts itself (a phantom directory, a directory below a file, a path
      without fingerprint); they show that the conditions of the two theorems are needed.

  \<^bold>\<open>Archives and sinks\<close> (src/libutil/archive.cc, fs-sink.cc, serialise.cc, memory-source-accessor.cc)
    \<^item> \<open>Wire\<close>: numbers and padded strings. \<open>Fs_Sink\<close>: the sink interface as a record of methods, the locales \<open>fs_sink\<close>
      and \<open>copy_sink\<close>, interpreted on the sink that writes into memory and on the one that ignores everything; copying
      rebuilds the tree. \<open>Nar\<close>: dump and parser; the parser accepts exactly the archives of trees within its limits
      and restores the tree, for every sink that satisfies the locale \<open>nar_sink\<close>. \<open>Nar_Overlay\<close>: checkouts with equal
      fingerprints have equal archives.

  \<^bold>\<open>Text forms and the store\<close>
    \<^item> \<open>Base_N\<close> (src/libutil/base-n.cc, base-nix-32.cc), \<open>Hash_Text\<close> (src/libutil/hash.cc), \<open>Canon_Path\<close>
      (src/libutil/canon-path.cc), \<open>Store_Path\<close> (src/libstore/path.cc), \<open>Content_Address\<close>
      (src/libstore/content-address.cc), \<open>Store_Dir\<close> (src/libstore/store-dir-config.cc): printing and reading back, the exact
      set of accepted texts, normal forms, and that a computed store path is a valid one. The counters of the encodings
      have 32 bits, as in the code: the round trips hold up to the lengths where these wrap, and beyond them
      \<^verbatim>\<open>base16::decode\<close> has the result \<open>Unending\<close>.
    \<^item> \<^bold>\<open>Derivations\<close> (src/libstore/derivations.cc): \<open>Sorted_Map\<close> has the ordered maps and sets they are made of.
      \<open>Drv_Text\<close>: the text of a derivation, printed and parsed back. \<open>Drv_Modulo\<close>: types, the path of a stored derivation, and the
      hash in which fixed-output inputs are replaced by what they promise; the memo changes no hash, and how an input
      is fetched does not show. \<open>Drv_Outputs\<close>: which outputs go together, and output paths with their variables: what is
      filled in, when the variables are there already, passes the check. \<open>Drv_Wire\<close>: the form in which builders get derivations.
    \<^item> \<open>Version_Names\<close> (src/libstore/names.cc): comparing versions is a total preorder and the loop ends.
      \<open>Topo_Sort\<close> (src/libutil/include/nix/util/topo-sort.hh): the sort ends with an order in which references come later, or with a cycle that is one.

  \<^bold>\<open>Bounds and fuel.\<close> \<open>topoSort\<close> has one more unit of fuel than there are items, which bounds the depth of its
  search (\<open>topo_correct\<close>). The comparison loop of versions is a partial function, and that it returns is part of
  its theorem. Symbolic links have the bound of the code, 1024, and archives theirs, 64 levels; the loop over the
  entries of an archived directory has fuel above the length of its input, since every round reads some
  of it (\<open>parse_terminates\<close>). \<open>copyRecursive\<close> takes fuel; any fuel above the depth of the tree gives the result
  (\<open>copy_exact\<close>). The loops over the lists of a derivation and the nesting of its inputs have the length of the text as
  fuel, and every round consumes some of it, so that the parser never runs out (\<open>drv_roundtrip\<close>); the hash of a
  derivation follows as many levels of inputs as its fuel, enough on an acyclic graph of at most that
  depth (\<open>modulo_memo\<close>). Every other function is structurally recursive or has its measure proved to decrease.

  \<^bold>\<open>Not modelled.\<close> The language itself (lexer, parser, evaluator over a garbage-collected heap, builtins): the
  evaluation is present as the calls it makes into the tracking code. Locks and threads: the modelled operations run
  under the locks of the code, or on state of their own. SQLite, git, sockets, the disk and the network, so
  the local store, the builders, the daemon, the fetchers, the binary caches and the projection of a worktree daemon, whose
  logic is the order of such calls. Printing of error messages: an error is its kind and the text it quotes. Argument parsing, the
  command line and the bindings.
\<close>

end
